(* ===== verification/Encoder.thy ===== *)
theory Encoder
  imports Prelude
begin

text \<open>
  The binary writer of \<open>src/src/emit/encoder.ts\<close>: class \<open>WasmEncoder\<close>, a growable byte buffer
  (\<open>buf\<close>, \<open>len\<close>) and the writers built on it. The record keeps the over-allocated buffer as
  the code does; \<open>finish\<close> is the abstraction to the bytes written so far. The interface
  \<open>byte_sink\<close> states what the writers rely on, and \<open>enc\<close> is its interpretation on the buffer.
  \<open>uleb\<close> and \<open>sleb\<close> are the reference LEB128 encodings the loops are proved to write.
\<close>

section \<open>State\<close>

record wasm_encoder =
  buf :: "byte list"
  len :: nat

datatype enc_error = U32OutOfRange int | V128Length nat

definition new_encoder :: wasm_encoder where
  "new_encoder = \<lparr>buf = replicate 1024 0, len = 0\<rparr>"

definition encoder_inv :: "wasm_encoder \<Rightarrow> bool" where
  "encoder_inv e \<longleftrightarrow> len e \<le> length (buf e) \<and> 0 < length (buf e)"

definition finish :: "wasm_encoder \<Rightarrow> byte list" where
  "finish e = take (len e) (buf e)"

section \<open>Growing the buffer\<close>

text \<open>
  The doubling loop of \<open>ensure\<close>. It is only entered with a positive capacity (the buffer starts
  with 1024 bytes and never shrinks, \<open>encoder_inv\<close>); at capacity 0 the source's loop would not
  end, and the guard \<open>0 < cap\<close> keeps the definition total there.
\<close>

function grow_cap :: "nat \<Rightarrow> nat \<Rightarrow> nat" where
  "grow_cap cap need = (if 0 < cap \<and> cap < need then grow_cap (2 * cap) need else cap)"
  by pat_completeness auto
termination
  by (relation "measure (\<lambda>(cap, need). need - cap)") auto

declare grow_cap.simps [simp del]

definition ensure :: "nat \<Rightarrow> wasm_encoder \<Rightarrow> wasm_encoder" where
  "ensure extra e =
     (let need = len e + extra in
      if need \<le> length (buf e) then e
      else let cap = grow_cap (2 * length (buf e)) need in
        e\<lparr>buf := take (len e) (buf e) @ replicate (cap - len e) 0\<rparr>)"

definition enc_byte :: "int \<Rightarrow> wasm_encoder \<Rightarrow> wasm_encoder" where
  "enc_byte b e =
     (let e = (if len e = length (buf e) then ensure 1 e else e) in
      e\<lparr>buf := (buf e)[len e := word_of_int b], len := len e + 1\<rparr>)"

definition enc_bytes :: "byte list \<Rightarrow> wasm_encoder \<Rightarrow> wasm_encoder" where
  "enc_bytes bs e =
     (let e = ensure (length bs) e in
      e\<lparr>buf := take (len e) (buf e) @ bs @ drop (len e + length bs) (buf e),
        len := len e + length bs\<rparr>)"

section \<open>LEB128 writers\<close>

lemma unat_drop_bit_less:
  assumes "drop_bit 7 (v :: 'a::len word) \<noteq> 0"
  shows "unat (drop_bit 7 v) < unat v"
proof -
  have "unat (drop_bit 7 v) = unat v div 2 ^ 7"
    unfolding unat_drop_bit_eq by (simp add: drop_bit_eq_div)
  moreover from assms have "0 < unat v"
    by (metis drop_bit_of_0 unat_eq_zero gr0I)
  ultimately show ?thesis by simp
qed

function u32_loop :: "u32 \<Rightarrow> wasm_encoder \<Rightarrow> wasm_encoder" where
  "u32_loop value e =
     (let b = value AND 0x7f;
          value' = drop_bit 7 value;
          b = (if value' \<noteq> 0 then b OR 0x80 else b);
          e' = enc_byte (uint b) e
      in if value' \<noteq> 0 then u32_loop value' e' else e')"
  by pat_completeness auto
termination
  by (relation "measure (\<lambda>(v, e). unat v)") (auto simp: unat_drop_bit_less)

declare u32_loop.simps [simp del]

definition enc_u32 :: "int \<Rightarrow> wasm_encoder \<Rightarrow> enc_error + wasm_encoder" where
  "enc_u32 value e =
     (if value < 0 \<or> value > 0xffffffff then Inl (U32OutOfRange value)
      else Inr (u32_loop (word_of_int value) e))"

text \<open>
  The signed loop. \<open>i32\<close> starts it from the int32 its first bit operation makes of the argument
  (\<open>ToInt32\<close>), \<open>i64\<close> from \<open>BigInt.asIntN(64, value)\<close>; both then shift a two's complement value
  arithmetically, which on \<open>int\<close> is \<open>drop_bit\<close>.
\<close>

lemma and_0x7f_int: "(v :: int) AND 0x7f = v mod 128"
proof -
  have "v AND 0x7f = take_bit 7 v" by (simp add: take_bit_eq_mask mask_eq_exp_minus_1)
  then show ?thesis by (simp add: take_bit_eq_mod)
qed

lemma and_0x40_int: "(b :: int) AND 0x40 = 0 \<longleftrightarrow> b mod 128 < 64"
proof -
  have "b AND 0x40 = 0 \<longleftrightarrow> \<not> bit b 6"
    using and_exp_eq_0_iff_not_bit [of b 6] by simp
  also have "\<dots> \<longleftrightarrow> even (b div 64)" by (simp add: bit_iff_odd)
  also have "\<dots> \<longleftrightarrow> b mod 128 < 64"
    using zmod_zmult2_eq [of 2 b 64] by (cases "even (b div 64)") (auto simp: even_iff_mod_2_eq_zero odd_iff_mod_2_eq_one)
  finally show ?thesis .
qed

function sleb_loop :: "int \<Rightarrow> wasm_encoder \<Rightarrow> wasm_encoder" where
  "sleb_loop value e =
     (let b = value AND 0x7f;
          value' = drop_bit 7 value
      in if value' = 0 \<and> b AND 0x40 = 0 \<or> value' = - 1 \<and> b AND 0x40 \<noteq> 0
         then enc_byte b e
         else sleb_loop value' (enc_byte (b OR 0x80) e))"
  by pat_completeness auto
termination
proof (relation "measure (\<lambda>(v, e). nat (if 0 \<le> v then v else - 1 - v))", goal_cases)
  case 1
  then show ?case by simp
next
  case (2 v e b v')
  then have b: "b = v mod 128" and v': "v' = v div 128"
    by (auto simp: and_0x7f_int drop_bit_eq_div)
  from 2(3) have "v \<noteq> 0 \<and> v \<noteq> - 1"
    unfolding b v' and_0x40_int by auto
  then show ?case by (auto simp: v')
qed

declare sleb_loop.simps [simp del]

definition enc_i32 :: "int \<Rightarrow> wasm_encoder \<Rightarrow> wasm_encoder" where
  "enc_i32 value = sleb_loop (signed_take_bit 31 value)"

definition enc_i64 :: "int \<Rightarrow> wasm_encoder \<Rightarrow> wasm_encoder" where
  "enc_i64 value = sleb_loop (signed_take_bit 63 value)"

section \<open>Fixed-width, string and structured writers\<close>

text \<open>
  A double or a float reaches \<open>f64\<close> and \<open>f32\<close> as its IEEE 754 bit pattern; the typed-array
  view writes that pattern in little-endian order.
\<close>

fun le_bytes :: "nat \<Rightarrow> 'a::len word \<Rightarrow> byte list" where
  "le_bytes 0 w = []"
| "le_bytes (Suc n) w = ucast w # le_bytes n (drop_bit 8 w)"

definition enc_f64 :: "64 word \<Rightarrow> wasm_encoder \<Rightarrow> wasm_encoder" where
  "enc_f64 pattern = enc_bytes (le_bytes 8 pattern)"

definition enc_f32 :: "32 word \<Rightarrow> wasm_encoder \<Rightarrow> wasm_encoder" where
  "enc_f32 pattern = enc_bytes (le_bytes 4 pattern)"

definition enc_v128 :: "byte list \<Rightarrow> wasm_encoder \<Rightarrow> enc_error + wasm_encoder" where
  "enc_v128 bs e = (if length bs \<noteq> 16 then Inl (V128Length (length bs)) else Inr (enc_bytes bs e))"

text \<open>
  \<open>TextEncoder.encode\<close> is a host service: the parameter \<open>utf8\<close>.
\<close>

definition enc_name :: "(string \<Rightarrow> byte list) \<Rightarrow> string \<Rightarrow> wasm_encoder \<Rightarrow> enc_error + wasm_encoder" where
  "enc_name utf8 s e =
     (let encoded = utf8 s in
      rbind (enc_u32 (int (length encoded)) e) (\<lambda>e. Inr (enc_bytes encoded e)))"

definition enc_section ::
    "int \<Rightarrow> (wasm_encoder \<Rightarrow> enc_error + wasm_encoder) \<Rightarrow> wasm_encoder \<Rightarrow> enc_error + wasm_encoder" where
  "enc_section sid content e =
     rbind (content new_encoder) (\<lambda>sub.
       let data = finish sub in
       rbind (enc_u32 (int (length data)) (enc_byte sid e)) (\<lambda>e. Inr (enc_bytes data e)))"

definition enc_vector ::
    "'t list \<Rightarrow> ('t \<Rightarrow> wasm_encoder \<Rightarrow> enc_error + wasm_encoder) \<Rightarrow> wasm_encoder \<Rightarrow> enc_error + wasm_encoder" where
  "enc_vector items encode e = rbind (enc_u32 (int (length items)) e) (rfold encode items)"

section \<open>The interface the writers rely on\<close>

text \<open>
  A byte sink: \<open>out\<close> is what has been written, \<open>put\<close> appends one byte. Writers that emit a
  sequence byte by byte append exactly that sequence.
\<close>

locale byte_sink =
  fixes inv :: "'s \<Rightarrow> bool"
    and out :: "'s \<Rightarrow> byte list"
    and put :: "int \<Rightarrow> 's \<Rightarrow> 's"
    and put_all :: "byte list \<Rightarrow> 's \<Rightarrow> 's"
  assumes put_inv: "inv s \<Longrightarrow> inv (put b s)"
    and put_out: "inv s \<Longrightarrow> out (put b s) = out s @ [word_of_int b]"
    and put_all_inv: "inv s \<Longrightarrow> inv (put_all bs s)"
    and put_all_out: "inv s \<Longrightarrow> out (put_all bs s) = out s @ bs"
begin

lemma fold_put_inv: "inv s \<Longrightarrow> inv (fold put bs s)"
  by (induction bs arbitrary: s) (simp_all add: put_inv)

lemma fold_put_out: "inv s \<Longrightarrow> out (fold put bs s) = out s @ map word_of_int bs"
  by (induction bs arbitrary: s) (simp_all add: put_inv put_out)

lemma put_all_put_all: "inv s \<Longrightarrow> out (put_all cs (put_all bs s)) = out (put_all (bs @ cs) s)"
  by (simp add: put_all_inv put_all_out)

text \<open>A writer appends \<open>bs\<close> when it keeps the invariant and adds exactly \<open>bs\<close> to the output.\<close>

definition appends :: "byte list \<Rightarrow> ('s \<Rightarrow> 'e + 's) \<Rightarrow> bool" where
  "appends bs w \<longleftrightarrow> (\<forall>s. inv s \<longrightarrow> (\<exists>s'. w s = Inr s' \<and> inv s' \<and> out s' = out s @ bs))"

lemma appendsI: "(\<And>s. inv s \<Longrightarrow> \<exists>s'. w s = Inr s' \<and> inv s' \<and> out s' = out s @ bs) \<Longrightarrow> appends bs w"
  by (simp add: appends_def)

lemma appendsD: "appends bs w \<Longrightarrow> inv s \<Longrightarrow> \<exists>s'. w s = Inr s' \<and> inv s' \<and> out s' = out s @ bs"
  by (simp add: appends_def)

lemma appends_put: "appends [word_of_int b] (\<lambda>s. Inr (put b s))"
  by (rule appendsI) (simp add: put_inv put_out)

lemma appends_put_all: "appends bs (\<lambda>s. Inr (put_all bs s))"
  by (rule appendsI) (simp add: put_all_inv put_all_out)

lemma appends_seq:
  assumes "appends bs v" and "appends cs w"
  shows "appends (bs @ cs) (\<lambda>s. rbind (v s) w)"
proof (rule appendsI)
  fix s
  assume "inv s"
  with assms(1) obtain s1 where s1: "v s = Inr s1" "inv s1" "out s1 = out s @ bs"
    by (blast dest: appendsD)
  with assms(2) obtain s2 where "w s1 = Inr s2" "inv s2" "out s2 = out s1 @ cs"
    by (blast dest: appendsD)
  with s1 show "\<exists>s'. rbind (v s) w = Inr s' \<and> inv s' \<and> out s' = out s @ bs @ cs" by simp
qed

lemma appends_rfold:
  assumes "\<And>x. x \<in> set xs \<Longrightarrow> appends (g x) (f x)"
  shows "appends (concat (map g xs)) (rfold f xs)"
  using assms
proof (induction xs)
  case Nil
  show ?case by (rule appendsI) simp
next
  case (Cons x xs)
  have "appends (g x @ concat (map g xs)) (\<lambda>s. rbind (f x s) (rfold f xs))"
    by (rule appends_seq) (use Cons in auto)
  then show ?case by (simp add: appends_def)
qed

end

lemma grow_cap_ge: "0 < cap \<Longrightarrow> cap \<le> grow_cap cap need \<and> need \<le> grow_cap cap need"
proof (induction cap need rule: grow_cap.induct)
  case (1 cap need)
  show ?case
  proof (cases "cap < need")
    case True
    with 1 show ?thesis by (subst (1 2) grow_cap.simps) simp
  next
    case False
    then show ?thesis by (subst (1 2) grow_cap.simps) simp
  qed
qed

lemma ensure_props:
  assumes "encoder_inv e"
  shows "encoder_inv (ensure n e)" and "len (ensure n e) = len e"
    and "finish (ensure n e) = finish e" and "len e + n \<le> length (buf (ensure n e))"
  using assms grow_cap_ge [of "2 * length (buf e)" "len e + n"]
  by (auto simp: ensure_def Let_def encoder_inv_def finish_def)

lemma new_encoder_inv: "encoder_inv new_encoder" and finish_new_encoder: "finish new_encoder = []"
  by (simp_all add: new_encoder_def encoder_inv_def finish_def)

lemma enc_byte_props:
  assumes "encoder_inv e"
  shows "encoder_inv (enc_byte b e)" and "finish (enc_byte b e) = finish e @ [word_of_int b]"
proof -
  define e1 where "e1 = (if len e = length (buf e) then ensure 1 e else e)"
  have e1: "encoder_inv e1" "len e1 = len e" "finish e1 = finish e" "len e1 < length (buf e1)"
    using assms ensure_props [OF assms, of 1] by (auto simp: e1_def encoder_inv_def)
  have b: "enc_byte b e = e1\<lparr>buf := (buf e1)[len e1 := word_of_int b], len := len e1 + 1\<rparr>"
    by (simp add: enc_byte_def e1_def Let_def)
  show "encoder_inv (enc_byte b e)" using e1 by (simp add: b encoder_inv_def)
  show "finish (enc_byte b e) = finish e @ [word_of_int b]"
    using e1 by (simp add: b finish_def take_Suc_conv_app_nth)
qed

lemma enc_bytes_props:
  assumes "encoder_inv e"
  shows "encoder_inv (enc_bytes bs e)" and "finish (enc_bytes bs e) = finish e @ bs"
proof -
  define e1 where "e1 = ensure (length bs) e"
  have e1: "encoder_inv e1" "len e1 = len e" "finish e1 = finish e" "len e1 + length bs \<le> length (buf e1)"
    using ensure_props [OF assms, of "length bs"] by (simp_all add: e1_def)
  have b: "enc_bytes bs e = e1\<lparr>buf := take (len e1) (buf e1) @ bs @ drop (len e1 + length bs) (buf e1),
        len := len e1 + length bs\<rparr>"
    by (simp add: enc_bytes_def e1_def Let_def)
  show "encoder_inv (enc_bytes bs e)" using e1 by (simp add: b encoder_inv_def)
  show "finish (enc_bytes bs e) = finish e @ bs"
    using e1 assms by (simp add: b finish_def encoder_inv_def)
qed

interpretation enc: byte_sink encoder_inv finish enc_byte enc_bytes
  by unfold_locales (simp_all add: enc_byte_props enc_bytes_props)

section \<open>Reference encodings\<close>

function uleb :: "u32 \<Rightarrow> byte list" where
  "uleb v = (if drop_bit 7 v = 0 then [ucast v] else (ucast v OR 0x80) # uleb (drop_bit 7 v))"
  by pat_completeness auto
termination
  by (relation "measure unat") (auto simp: unat_drop_bit_less)

declare uleb.simps [simp del]

lemma ucast_and_0x7f: "drop_bit 7 v = 0 \<Longrightarrow> v AND 0x7f = (v :: u32)"
proof -
  assume "drop_bit 7 v = 0"
  then have "take_bit 7 v = v" by (metis bits_ident add.left_neutral push_bit_of_0)
  then show ?thesis by (simp add: take_bit_eq_mask mask_eq_exp_minus_1)
qed

lemma word_of_int_uint_ucast: "(word_of_int (uint (b :: u32)) :: byte) = ucast b"
  by (rule ucast_eq [symmetric])

lemma ucast_or_0x80: "(ucast ((v AND 0x7f) OR 0x80 :: u32) :: byte) = ucast v OR 0x80"
proof -
  have m: "(0x7f :: byte) OR 0x80 = - 1" by simp
  have "(ucast ((v AND 0x7f) OR 0x80 :: u32) :: byte) = (ucast v AND 0x7f) OR 0x80"
    by (simp add: unsigned_or_eq unsigned_and_eq)
  also have "\<dots> = (ucast v OR 0x80) AND (0x7f OR 0x80)"
    by (rule bit.disj_conj_distrib2)
  finally show ?thesis by (simp only: m and.right_neutral)
qed

lemma u32_loop_appends:
  "encoder_inv e \<Longrightarrow> encoder_inv (u32_loop v e) \<and> finish (u32_loop v e) = finish e @ uleb v"
proof (induction v e rule: u32_loop.induct)
  case (1 v e)
  show ?case
  proof (cases "drop_bit 7 v = 0")
    case True
    then show ?thesis
      using 1(2) enc_byte_props [OF 1(2)]
      by (simp add: u32_loop.simps [of v] uleb.simps [of v] Let_def word_of_int_uint_ucast ucast_and_0x7f)
  next
    case False
    let ?e = "enc_byte (uint ((v AND 0x7f) OR 0x80)) e"
    have e: "encoder_inv ?e" "finish ?e = finish e @ [ucast v OR 0x80]"
      using enc_byte_props [OF 1(2)] by (simp_all only: word_of_int_uint_ucast ucast_or_0x80)
    have "encoder_inv (u32_loop (drop_bit 7 v) ?e)
        \<and> finish (u32_loop (drop_bit 7 v) ?e) = finish ?e @ uleb (drop_bit 7 v)"
      by (rule 1(1)) (use False e(1) in auto)
    with e False show ?thesis
      by (simp add: u32_loop.simps [of v] uleb.simps [of v] Let_def)
  qed
qed

lemma enc_u32_appends:
  "0 \<le> n \<Longrightarrow> n < 2 ^ 32 \<Longrightarrow> enc.appends (uleb (word_of_int n)) (enc_u32 n)"
  by (rule enc.appendsI) (simp add: enc_u32_def u32_loop_appends)

function sleb :: "int \<Rightarrow> byte list" where
  "sleb v = (if - 64 \<le> v \<and> v < 64 then [word_of_int (v mod 128)]
             else word_of_int (v mod 128 + 128) # sleb (v div 128))"
  by pat_completeness auto
termination
  by (relation "measure (\<lambda>v. nat (if 0 \<le> v then v else - 1 - v))") auto

declare sleb.simps [simp del]

lemma sleb_stop_iff:
  "(v :: int) div 128 = 0 \<and> v mod 128 < 64 \<or> v div 128 = - 1 \<and> \<not> v mod 128 < 64
     \<longleftrightarrow> - 64 \<le> v \<and> v < 64"
  by presburger

lemma or_0x80_int: "0 \<le> b \<Longrightarrow> b < 128 \<Longrightarrow> (b :: int) OR 0x80 = b + 128"
proof -
  assume b: "0 \<le> b" "b < 128"
  then have "\<not> bit b 7" by (simp add: bit_iff_odd)
  then have "b AND 128 = 0" using and_exp_eq_0_iff_not_bit [of b 7] by simp
  then show ?thesis by (simp add: disjunctive_add_eq_or)
qed

lemma sleb_loop_appends:
  "encoder_inv e \<Longrightarrow> encoder_inv (sleb_loop v e) \<and> finish (sleb_loop v e) = finish e @ sleb v"
proof (induction v e rule: sleb_loop.induct)
  case (1 v e)
  let ?go = "\<not> (drop_bit 7 v = 0 \<and> (v AND 0x7f) AND 0x40 = 0
      \<or> drop_bit 7 v = - 1 \<and> (v AND 0x7f) AND 0x40 \<noteq> 0)"
  have ands: "(v AND 0x7f) AND 0x40 = 0 \<longleftrightarrow> v mod 128 < 64"
    unfolding and_0x7f_int and_0x40_int by simp
  have go: "?go \<longleftrightarrow> \<not> (- 64 \<le> v \<and> v < 64)"
    unfolding ands drop_bit_eq_div using sleb_stop_iff [of v] by simp
  show ?case
  proof (cases ?go)
    case False
    then have "sleb_loop v e = enc_byte (v mod 128) e"
      by (subst sleb_loop.simps) (simp only: Let_def and_0x7f_int if_True not_not)
    with False go enc_byte_props [OF 1(2)] show ?thesis by (simp add: sleb.simps [of v])
  next
    case True
    let ?e = "enc_byte (v mod 128 + 128) e"
    have o: "(v AND 0x7f) OR 0x80 = v mod 128 + 128"
      unfolding and_0x7f_int by (rule or_0x80_int) simp_all
    have u: "sleb_loop v e = sleb_loop (drop_bit 7 v) ?e"
      using True by (subst sleb_loop.simps) (simp only: Let_def o if_False)
    have e: "encoder_inv ?e" "finish ?e = finish e @ [word_of_int (v mod 128 + 128)]"
      using enc_byte_props [OF 1(2)] by simp_all
    have "encoder_inv (sleb_loop (drop_bit 7 v) ?e)
       \<and> finish (sleb_loop (drop_bit 7 v) ?e) = finish ?e @ sleb (drop_bit 7 v)"
      using 1(1) [OF refl refl True, unfolded o] e(1) by blast
    with u e True go show ?thesis
      by (simp add: sleb.simps [of v] drop_bit_eq_div)
  qed
qed

end
