(* ===== verification/WasmModule.thy ===== *)
theory WasmModule
  imports Encoder
begin

text \<open>
  The module representation of \<open>src/src/ir/types.ts\<close> that the emitters consume, and the statements
  they are made of. A step is a statement on the output encoder that may throw; \<open>step_logic\<close> and
  \<open>step_simulation\<close> are the two contracts whose closure rules carry the proofs about emitters: a
  property of steps, and an agreement of two emitters on different states.
\<close>

section \<open>Types\<close>

text \<open>
  \<open>ValType\<close>. The brands \<open>boolean\<close> of an \<open>i32\<close> and \<open>bigint\<close> of an \<open>i64\<close> are constructors of their own; no
  code modelled here reads the other brands.
\<close>

datatype val_type =
    I32 | I64 | BooleanI32 | BigintI64 | F32 | F64 | V128 | FuncRef | ExternRef | RefExtern | Ref int | RefNull int | EqRef | AnyRef | I8 | I16

text \<open>A field is its storage type and whether it is mutable.\<close>

datatype type_def =
    FuncType "val_type list" "val_type list"
  | StructType "(val_type \<times> bool) list" "int option" bool
  | ArrayType val_type bool
  | RecGroup "type_def list"
  | SubType "int option" bool type_def

section \<open>Instructions\<close>

text \<open>
  \<open>BlockType\<close> and \<open>Instr\<close>. Instructions whose operands have the same shape share a constructor and
  carry their \<open>op\<close>. Indices are the JavaScript numbers of the source, so a failed lookup can appear
  in them as \<open>-1\<close>; a float operand is its bit pattern.
\<close>

datatype block_type = EmptyBlock | ValBlock val_type | TypeBlock int

datatype catch_kind = Catch | CatchRef | CatchAll | CatchAllRef

record try_catch =
  tc_kind :: catch_kind
  tc_tagIdx :: "int option"
  tc_depth :: int

datatype wasm_instr =
    Op string
  | Block block_type "wasm_instr list"
  | Loop block_type "wasm_instr list"
  | If block_type "wasm_instr list" "wasm_instr list option"
  | Depth string int
  | BrTable "int list" int
  | CallOp string int
  | CallIndirectOp int int
  | LocalOp string int
  | GlobalOp string int
  | ConstI32 int
  | ConstI64 int
  | ConstF64 "64 word"
  | ConstF32 "32 word"
  | ConstV128 "byte list"
  | HeapType string int
  | Typed string int
  | StructField string int int
  | ArrayNewFixed int int
  | ArrayCopy int int
  | FuncRefOf int
  | DataSegment string int
  | MemArg string int int
  | Lane string int
  | Shuffle "int list"
  | Throw int
  | TryTable block_type "wasm_instr list" "try_catch list"
  | Try block_type "wasm_instr list" "(int \<times> wasm_instr list) list" "wasm_instr list option"

section \<open>Modules\<close>

text \<open>
  In the code every instruction, nested ones included, may carry a \<open>sourcePos\<close>. The model keeps it where
  the emitters read it, at the top level of a function body; nothing reads the position of a nested instruction.
\<close>

record source_pos =
  sp_file :: string
  sp_line :: int
  sp_column :: int

record wasm_function =
  fn_name :: string
  fn_typeIdx :: int
  fn_locals :: "val_type list"
  fn_body :: "(wasm_instr \<times> source_pos option) list"

datatype import_desc =
    ImportFunc int
  | ImportTable string int "int option"
  | ImportMemory int "int option"
  | ImportGlobal val_type bool
  | ImportTag int

record wasm_import =
  im_module :: string
  im_name :: string
  im_desc :: import_desc

datatype extern_kind = FuncKind | TableKind | MemoryKind | GlobalKind | TagKind

record wasm_export =
  ex_name :: string
  ex_kind :: extern_kind
  ex_index :: int

record wasm_table =
  tb_elementType :: string
  tb_min :: int
  tb_max :: "int option"

record wasm_element =
  elem_tableIdx :: int
  elem_offset :: "wasm_instr list"
  elem_funcIndices :: "int list"

record wasm_global =
  gl_name :: string
  gl_type :: val_type
  gl_mutable :: bool
  gl_init :: "wasm_instr list"

record wasm_tag =
  tg_name :: string
  tg_typeIdx :: int

record data_segment =
  ds_offset :: int
  ds_bytes :: "byte list"
  ds_passive :: bool

text \<open>
  \<open>WasmModule\<close>, as far as an emitter reads it. An entry of \<open>funcOrdinalToPosition\<close> that is \<open>NaN\<close>
  (a handle whose function was never pushed) is \<open>None\<close>.
\<close>

record wasm_module =
  m_types :: "type_def list"
  m_canonicalRecGroup :: "(nat \<times> nat) option"
  m_imports :: "wasm_import list"
  m_functions :: "wasm_function list"
  m_exports :: "wasm_export list"
  m_tables :: "wasm_table list"
  m_elements :: "wasm_element list"
  m_globals :: "wasm_global list"
  m_tags :: "wasm_tag list"
  m_declaredFuncRefs :: "int list"
  m_funcOrdinalToPosition :: "nat option list"
  m_memories :: "(int \<times> int option) list"
  m_dataSegments :: "data_segment list"
  m_startFuncIdx :: "int option"

text \<open>\<open>desc.kind\<close> of an import.\<close>

fun desc_kind :: "import_desc \<Rightarrow> extern_kind" where
  "desc_kind (ImportFunc _) = FuncKind"
| "desc_kind (ImportTable _ _ _) = TableKind"
| "desc_kind (ImportMemory _ _) = MemoryKind"
| "desc_kind (ImportGlobal _ _) = GlobalKind"
| "desc_kind (ImportTag _) = TagKind"

definition count_imports :: "extern_kind \<Rightarrow> wasm_module \<Rightarrow> nat" where
  "count_imports k m = length (filter (\<lambda>imp. desc_kind (im_desc imp) = k) (m_imports m))"

section \<open>Steps\<close>

datatype emit_error =
    EncodeFailed enc_error
  | PackedType val_type
  | MissingTagIndex catch_kind
  | UnknownOp string
  | IndexOutOfRange string int int
  | HandleWithoutPosition int
  | UndefinedType nat
  | MergedRecGroup nat nat "(nat \<times> nat) option"

type_synonym 's step = "'s \<Rightarrow> emit_error + 's"
type_synonym wasm_emitter = "wasm_encoder step"

definition fails :: "emit_error \<Rightarrow> 's step" where
  "fails err = (\<lambda>_. Inl err)"

text \<open>A call of a writer of \<open>WasmEncoder\<close>.\<close>

definition enc_call :: "(wasm_encoder \<Rightarrow> enc_error + wasm_encoder) \<Rightarrow> wasm_emitter" where
  "enc_call w e = (case w e of Inl err \<Rightarrow> Inl (EncodeFailed err) | Inr e' \<Rightarrow> Inr e')"

definition put_byte :: "int \<Rightarrow> wasm_emitter" where
  "put_byte b e = Inr (enc_byte b e)"

definition put_bytes :: "byte list \<Rightarrow> wasm_emitter" where
  "put_bytes bs e = Inr (enc_bytes bs e)"

definition put_u32 :: "int \<Rightarrow> wasm_emitter" where
  "put_u32 n = enc_call (enc_u32 n)"

definition put_i32 :: "int \<Rightarrow> wasm_emitter" where
  "put_i32 n e = Inr (enc_i32 n e)"

text \<open>A sequence of \<open>enc.byte\<close> calls on constants.\<close>

definition put_opcode :: "byte list \<Rightarrow> wasm_emitter" where
  "put_opcode bs = rfold (\<lambda>b. put_byte (uint b)) bs"

text \<open>A \<open>for\<close> loop over the members of a list.\<close>

definition each :: "('a \<Rightarrow> 's step) \<Rightarrow> 'a list \<Rightarrow> 's step" where
  "each f xs = rfold f xs"

lemma each_cong [fundef_cong]: "xs = ys \<Longrightarrow> (\<And>x. x \<in> set ys \<Longrightarrow> f x = g x) \<Longrightarrow> each f xs = each g ys"
  unfolding each_def by (rule ext, rule rfold_cong) auto

lemma each_simps [simp]: "each f [] = Inr" "each f (x # xs) = (\<lambda>s. rbind (f x s) (each f xs))"
  by (rule ext, simp add: each_def [abs_def])+

text \<open>\<open>enc.vector\<close> and \<open>enc.section\<close>, with entries that are encoded by steps.\<close>

definition put_vector :: "'a list \<Rightarrow> ('a \<Rightarrow> wasm_emitter) \<Rightarrow> wasm_emitter" where
  "put_vector items encode = rseq [put_u32 (int (length items)), each encode items]"

definition put_section :: "int \<Rightarrow> wasm_emitter \<Rightarrow> wasm_emitter" where
  "put_section sid content e =
     rbind (content new_encoder) (\<lambda>sub.
       rseq [put_byte sid, put_u32 (int (length (finish sub))), put_bytes (finish sub)] e)"

text \<open>An instruction of a table of opcodes, followed by its operands.\<close>

definition with_opcode :: "(string \<times> byte list) list \<Rightarrow> string \<Rightarrow> 's step \<Rightarrow> (byte list \<Rightarrow> 's step) \<Rightarrow> 's step" where
  "with_opcode table nm missing found = (case map_of table nm of None \<Rightarrow> missing | Some bs \<Rightarrow> found bs)"

section \<open>The contracts of steps\<close>

locale step_logic =
  fixes holds :: "'s step \<Rightarrow> bool"
  assumes skip: "holds Inr"
    and seq: "holds v \<Longrightarrow> holds w \<Longrightarrow> holds (\<lambda>s. rbind (v s) w)"
begin

lemma sequence: "\<forall>w\<in>set ws. holds w \<Longrightarrow> holds (rseq ws)"
proof (induction ws)
  case Nil
  have "rseq [] = (Inr :: 's step)" by (rule ext) simp
  then show ?case using skip by simp
next
  case (Cons w ws)
  have "rseq (w # ws) = (\<lambda>s. rbind (w s) (rseq ws))" by (rule ext) simp
  then show ?case using Cons seq [of w "rseq ws"] by simp
qed

lemma loop: "(\<And>x. x \<in> set xs \<Longrightarrow> holds (f x)) \<Longrightarrow> holds (each f xs)"
  by (induction xs) (auto simp: skip intro!: seq)

lemma fold_loop: "(\<And>x. x \<in> set xs \<Longrightarrow> holds (f x)) \<Longrightarrow> holds (rfold f xs)"
  using loop [of xs f] by (simp add: each_def)

lemma from_table:
  "holds missing \<Longrightarrow> (\<And>bs. map_of table nm = Some bs \<Longrightarrow> holds (found bs)) \<Longrightarrow> holds (with_opcode table nm missing found)"
  by (auto simp: with_opcode_def split: option.split)

end

locale step_simulation =
  fixes agree :: "'s step \<Rightarrow> 't step \<Rightarrow> bool"
  assumes skip: "agree Inr Inr"
    and seq: "agree v v' \<Longrightarrow> agree w w' \<Longrightarrow> agree (\<lambda>s. rbind (v s) w) (\<lambda>s. rbind (v' s) w')"
begin

lemma sequence: "list_all2 agree ws ws' \<Longrightarrow> agree (rseq ws) (rseq ws')"
proof (induction ws ws' rule: list_all2_induct)
  case Nil
  have "rseq [] = (Inr :: 's step)" "rseq [] = (Inr :: 't step)" by (rule ext, simp)+
  then show ?case using skip by simp
next
  case (Cons w ws w' ws')
  have "rseq (w # ws) = (\<lambda>s. rbind (w s) (rseq ws))" "rseq (w' # ws') = (\<lambda>s. rbind (w' s) (rseq ws'))"
    by (rule ext, simp)+
  then show ?case using Cons seq [of w w' "rseq ws" "rseq ws'"] by simp
qed

lemma loop: "(\<And>x. x \<in> set xs \<Longrightarrow> agree (f x) (g x)) \<Longrightarrow> agree (each f xs) (each g xs)"
proof (induction xs)
  case Nil
  show ?case by (simp add: skip)
next
  case (Cons x xs)
  then show ?case unfolding each_simps by (intro seq) auto
qed

lemma fold_loop: "(\<And>x. x \<in> set xs \<Longrightarrow> agree (f x) (g x)) \<Longrightarrow> agree (rfold f xs) (rfold g xs)"
  using loop [of xs f g] by (simp add: each_def)

end

section \<open>Steps that append\<close>

text \<open>
  \<open>produces w r\<close>: from any encoder, \<open>w\<close> throws the error \<open>r\<close>, or appends the bytes \<open>r\<close>. What such a
  step writes, \<open>bytes_of w\<close>, does not depend on what was written before.
\<close>

definition produces :: "wasm_emitter \<Rightarrow> emit_error + byte list \<Rightarrow> bool" where
  "produces w r \<longleftrightarrow> (\<forall>e. encoder_inv e \<longrightarrow>
     (case r of
        Inl err \<Rightarrow> w e = Inl err
      | Inr bs \<Rightarrow> \<exists>e'. w e = Inr e' \<and> encoder_inv e' \<and> finish e' = finish e @ bs))"

definition bytes_of :: "wasm_emitter \<Rightarrow> emit_error + byte list" where
  "bytes_of w = (case w new_encoder of Inl err \<Rightarrow> Inl err | Inr e \<Rightarrow> Inr (finish e))"

definition appending :: "wasm_emitter \<Rightarrow> bool" where
  "appending w \<longleftrightarrow> produces w (bytes_of w)"

lemma produces_bytes_of: "produces w r \<Longrightarrow> bytes_of w = r"
proof (cases r)
  case (Inl err)
  then show "produces w r \<Longrightarrow> bytes_of w = r" by (simp add: produces_def bytes_of_def new_encoder_inv)
next
  case (Inr bs)
  show "bytes_of w = r" if p: "produces w r"
  proof -
    obtain e' where "w new_encoder = Inr e'" "finish e' = finish new_encoder @ bs"
      using p new_encoder_inv Inr by (auto simp: produces_def)
    then show ?thesis by (simp add: bytes_of_def Inr finish_new_encoder)
  qed
qed

lemma appendingI: "produces w r \<Longrightarrow> appending w"
  using produces_bytes_of [of w r] by (simp add: appending_def)

lemma appendingE:
  assumes "appending w" and "encoder_inv e" and "w e = Inr e'"
  obtains bs where "bytes_of w = Inr bs" and "encoder_inv e'" and "finish e' = finish e @ bs"
proof (cases "bytes_of w")
  case (Inl err)
  with assms show ?thesis by (simp add: appending_def produces_def)
next
  case (Inr bs)
  with assms have "encoder_inv e' \<and> finish e' = finish e @ bs" by (force simp: appending_def produces_def)
  with Inr that show ?thesis by simp
qed

lemma produces_seq:
  assumes "produces v r" and "produces w q"
  shows "produces (\<lambda>s. rbind (v s) w) (rbind r (\<lambda>bs. rbind q (\<lambda>cs. Inr (bs @ cs))))"
proof (cases r)
  case (Inl err)
  with assms(1) show ?thesis by (simp add: produces_def)
next
  case (Inr bs)
  show ?thesis
  proof (cases q)
    case (Inl err)
    with assms Inr show ?thesis by (force simp: produces_def)
  next
    case q: (Inr cs)
    have "\<exists>e'. rbind (v e) w = Inr e' \<and> encoder_inv e' \<and> finish e' = finish e @ bs @ cs" if "encoder_inv e" for e
    proof -
      obtain e1 where "v e = Inr e1" "encoder_inv e1" "finish e1 = finish e @ bs"
        using assms(1) Inr \<open>encoder_inv e\<close> by (auto simp: produces_def)
      moreover from this obtain e2 where "w e1 = Inr e2" "encoder_inv e2" "finish e2 = finish e1 @ cs"
        using assms(2) q by (auto simp: produces_def)
      ultimately show ?thesis by simp
    qed
    then show ?thesis by (simp add: produces_def Inr q)
  qed
qed

interpretation app: step_logic appending
proof unfold_locales
  show "appending Inr" by (rule appendingI [of _ "Inr []"]) (simp add: produces_def)
  show "appending (\<lambda>s. rbind (v s) w)" if "appending v" "appending w" for v w
    using that produces_seq [of v _ w] by (auto simp: appending_def [of v] appending_def [of w] intro: appendingI)
qed

named_theorems append_intros "steps that append"

lemma appending_fails [append_intros]: "appending (fails err)"
  by (rule appendingI [of _ "Inl err"]) (simp add: produces_def fails_def)

lemma appending_appends: "(\<And>e. encoder_inv e \<Longrightarrow> encoder_inv (f e) \<and> finish (f e) = finish e @ bs) \<Longrightarrow> appending (\<lambda>e. Inr (f e))"
  by (rule appendingI [of _ "Inr bs"]) (simp add: produces_def)

lemma appending_put_byte [append_intros]: "appending (put_byte b)"
  unfolding put_byte_def [abs_def] by (rule appending_appends) (simp add: enc_byte_props)

lemma appending_put_bytes [append_intros]: "appending (put_bytes bs)"
  unfolding put_bytes_def [abs_def] by (rule appending_appends) (simp add: enc_bytes_props)

lemma produces_u32: "produces (put_u32 n) (if 0 \<le> n \<and> n < 2 ^ 32 then Inr (uleb (word_of_int n)) else Inl (EncodeFailed (U32OutOfRange n)))"
proof (cases "0 \<le> n \<and> n < 2 ^ 32")
  case True
  then show ?thesis
    using enc.appendsD [OF enc_u32_appends, of n] by (fastforce simp: produces_def put_u32_def enc_call_def)
next
  case False
  then show ?thesis by (auto simp: produces_def put_u32_def enc_call_def enc_u32_def)
qed

lemma appending_put_u32 [append_intros]: "appending (put_u32 n)"
  by (rule appendingI [OF produces_u32])

lemma appending_put_i32 [append_intros]: "appending (put_i32 n)"
  unfolding put_i32_def [abs_def] enc_i32_def by (rule appending_appends) (simp add: sleb_loop_appends)

lemma appending_put_opcode [append_intros]: "appending (put_opcode bs)"
  unfolding put_opcode_def by (rule app.fold_loop) (rule appending_put_byte)

lemma appending_put_vector [append_intros]: "(\<And>x. x \<in> set xs \<Longrightarrow> appending (f x)) \<Longrightarrow> appending (put_vector xs f)"
  unfolding put_vector_def by (rule app.sequence) (simp add: append_intros app.loop)

lemma appending_put_section [append_intros]: "appending (put_section sid content)"
proof (cases "content new_encoder")
  case (Inl err)
  then show ?thesis
    by (intro appendingI [of _ "Inl err"]) (simp add: produces_def put_section_def)
next
  case (Inr sub)
  then have "put_section sid content = rseq [put_byte sid, put_u32 (int (length (finish sub))), put_bytes (finish sub)]"
    by (auto simp: put_section_def)
  moreover have "appending (rseq [put_byte sid, put_u32 (int (length (finish sub))), put_bytes (finish sub)])"
    by (rule app.sequence) (simp add: append_intros)
  ultimately show ?thesis by simp
qed

end
