(* ===== verification/BinaryInstr.thy ===== *)
theory BinaryInstr
  imports WasmModule
begin

text \<open>
  The encoding of instructions in \<open>src/src/emit/binary.ts\<close>, with the resolution of function handles
  of \<open>src/src/emit/resolve-layout.ts\<close>. The module-level variables \<open>valCtx\<close> and \<open>layout\<close>, which are
  set while a whole module is emitted, are the context \<open>emit_ctx\<close>; the label \<open>where\<close> of an error
  message is left out. Shown: index validation changes no byte of what is emitted, what it lets through
  has every index in range, and it rejects nothing else.
\<close>

section \<open>Handles\<close>

definition STABLE_FUNC_BASE :: int where "STABLE_FUNC_BASE = 2097152"

definition inLiveShiftRange :: "int \<Rightarrow> int \<Rightarrow> bool" where
  "inLiveShiftRange idx importsBefore \<longleftrightarrow> importsBefore \<le> idx \<and> idx < STABLE_FUNC_BASE"

definition absoluteFuncIndexCached :: "wasm_module \<Rightarrow> nat \<Rightarrow> int \<Rightarrow> emit_error + int" where
  "absoluteFuncIndexCached m numImportFuncs h =
     (if h < STABLE_FUNC_BASE then Inr h
      else
        let ordinal = nat (h - STABLE_FUNC_BASE) in
        if ordinal < length (m_funcOrdinalToPosition m) then
          (case m_funcOrdinalToPosition m ! ordinal of
             None \<Rightarrow> Inl (HandleWithoutPosition h)
           | Some position \<Rightarrow> Inr (int (numImportFuncs + position)))
        else Inl (HandleWithoutPosition h))"

definition absoluteFuncIndex :: "wasm_module \<Rightarrow> int \<Rightarrow> emit_error + int" where
  "absoluteFuncIndex m h =
     (if h < STABLE_FUNC_BASE then Inr h else absoluteFuncIndexCached m (count_imports FuncKind m) h)"

record module_layout =
  layout_func :: "int \<Rightarrow> emit_error + int"
  layout_global :: "int \<Rightarrow> int"
  layout_type :: "int \<Rightarrow> int"

definition resolveLayout :: "wasm_module \<Rightarrow> module_layout" where
  "resolveLayout m =
     \<lparr>layout_func = absoluteFuncIndexCached m (count_imports FuncKind m), layout_global = id, layout_type = id\<rparr>"

section \<open>Validation of indices\<close>

record validation =
  numFuncs :: int
  numTypes :: int
  numGlobals :: int
  numTags :: int
  numTables :: int
  numMemories :: int
  flatTypes :: "type_def list option"
  maxLocals :: int

record emit_ctx =
  valCtx :: "validation option"
  layout :: "module_layout option"

definition fIdx :: "emit_ctx \<Rightarrow> int \<Rightarrow> emit_error + int" where
  "fIdx ctx h = (case layout ctx of Some l \<Rightarrow> layout_func l h | None \<Rightarrow> Inr h)"

definition gIdx :: "emit_ctx \<Rightarrow> int \<Rightarrow> int" where
  "gIdx ctx h = (case layout ctx of Some l \<Rightarrow> layout_global l h | None \<Rightarrow> h)"

fun count_types :: "type_def \<Rightarrow> nat" where
  "count_types (RecGroup ts) = length ts"
| "count_types t = 1"

fun is_rec :: "type_def \<Rightarrow> bool" where
  "is_rec (RecGroup ts) = True"
| "is_rec t = False"

definition makeValidationCtx :: "wasm_module \<Rightarrow> validation" where
  "makeValidationCtx m =
     \<lparr>numFuncs = int (count_imports FuncKind m + length (m_functions m)),
      numTypes = int (sum_list (map count_types (m_types m))),
      numGlobals = int (count_imports GlobalKind m + length (m_globals m)),
      numTags = int (count_imports TagKind m + length (m_tags m)),
      numTables = int (count_imports TableKind m + length (m_tables m)),
      numMemories = int (count_imports MemoryKind m + length (m_memories m)),
      flatTypes = (if \<exists>t\<in>set (m_types m). is_rec t then None else Some (m_types m)),
      maxLocals = -1\<rparr>"

definition vIdx :: "string \<Rightarrow> int \<Rightarrow> int \<Rightarrow> 's step" where
  "vIdx space v mx = (if v < 0 \<or> v \<ge> mx then fails (IndexOutOfRange space v mx) else Inr)"

definition vHeapType :: "validation \<Rightarrow> int \<Rightarrow> 's step" where
  "vHeapType c v =
     (if v \<ge> numTypes c \<or> v < -64 \<or> v = -1 then fails (IndexOutOfRange ''heap type'' v (numTypes c)) else Inr)"

fun unwrap_sub :: "type_def \<Rightarrow> type_def" where
  "unwrap_sub (SubType superType isFinal t) = unwrap_sub t"
| "unwrap_sub t = t"

definition resolveTypeDefAt :: "validation \<Rightarrow> int \<Rightarrow> type_def option" where
  "resolveTypeDefAt c typeIdx =
     (case flatTypes c of
        None \<Rightarrow> None
      | Some types \<Rightarrow>
          if typeIdx < 0 \<or> typeIdx \<ge> int (length types) then None else Some (unwrap_sub (types ! nat typeIdx)))"

definition resolveParamCount :: "validation \<Rightarrow> int \<Rightarrow> int" where
  "resolveParamCount c typeIdx =
     (case resolveTypeDefAt c typeIdx of Some (FuncType params results) \<Rightarrow> int (length params) | _ \<Rightarrow> -1)"

definition vStructField :: "validation \<Rightarrow> int \<Rightarrow> int \<Rightarrow> 's step" where
  "vStructField c typeIdx fieldIdx =
     rseq [vIdx ''type'' typeIdx (numTypes c),
       case resolveTypeDefAt c typeIdx of
         Some (StructType fs superType isFinal) \<Rightarrow> vIdx ''struct field'' fieldIdx (int (length fs))
       | _ \<Rightarrow> Inr]"

text \<open>\<open>if (valCtx) \<dots>\<close>, and the binding of a resolved handle.\<close>

definition checked :: "emit_ctx \<Rightarrow> (validation \<Rightarrow> 's step) \<Rightarrow> 's step" where
  "checked ctx f = (case valCtx ctx of None \<Rightarrow> Inr | Some c \<Rightarrow> f c)"

definition with_value :: "emit_error + 'a \<Rightarrow> ('a \<Rightarrow> 's step) \<Rightarrow> 's step" where
  "with_value r f s = rbind r (\<lambda>x. f x s)"

section \<open>Value types and block types\<close>

fun encodeValType :: "emit_ctx \<Rightarrow> val_type \<Rightarrow> wasm_emitter" where
  "encodeValType ctx I32 = put_opcode [0x7f]"
| "encodeValType ctx I64 = put_opcode [0x7e]"
| "encodeValType ctx BooleanI32 = put_opcode [0x7f]"
| "encodeValType ctx BigintI64 = put_opcode [0x7e]"
| "encodeValType ctx F32 = put_opcode [0x7d]"
| "encodeValType ctx F64 = put_opcode [0x7c]"
| "encodeValType ctx V128 = put_opcode [0x7b]"
| "encodeValType ctx FuncRef = put_opcode [0x70]"
| "encodeValType ctx ExternRef = put_opcode [0x6f]"
| "encodeValType ctx RefExtern = put_opcode [0x64, 0x6f]"
| "encodeValType ctx (Ref typeIdx) = rseq [checked ctx (\<lambda>c. vHeapType c typeIdx), put_opcode [0x64], put_i32 typeIdx]"
| "encodeValType ctx (RefNull typeIdx) = rseq [checked ctx (\<lambda>c. vHeapType c typeIdx), put_opcode [0x63], put_i32 typeIdx]"
| "encodeValType ctx EqRef = put_opcode [0x63, 0x6d]"
| "encodeValType ctx AnyRef = put_opcode [0x63, 0x6e]"
| "encodeValType ctx I8 = fails (PackedType I8)"
| "encodeValType ctx I16 = fails (PackedType I16)"

fun encodeBlockType :: "emit_ctx \<Rightarrow> block_type \<Rightarrow> wasm_emitter" where
  "encodeBlockType ctx EmptyBlock = put_opcode [0x40]"
| "encodeBlockType ctx (ValBlock t) = encodeValType ctx t"
| "encodeBlockType ctx (TypeBlock typeIdx) =
     rseq [checked ctx (\<lambda>c. vIdx ''block type'' typeIdx (numTypes c)), put_i32 typeIdx]"

section \<open>Opcodes\<close>

text \<open>The cases of the switch in \<open>encodeInstr\<close> that write constant bytes, in its order.\<close>

definition control_ops :: "(string \<times> byte list) list" where
  "control_ops = [
    (''unreachable'', [0x00]), (''nop'', [0x01]), (''return'', [0x0f]), (''drop'', [0x1a]),
    (''select'', [0x1b]), (''end'', [0x0b])]"

definition i64_ops :: "(string \<times> byte list) list" where
  "i64_ops = [
    (''i64.add'', [0x7c]), (''i64.sub'', [0x7d]), (''i64.mul'', [0x7e]), (''i64.div_s'', [0x7f]),
    (''i64.div_u'', [0x80]), (''i64.rem_s'', [0x81]), (''i64.rem_u'', [0x82]), (''i64.eq'', [0x51]),
    (''i64.ne'', [0x52]), (''i64.lt_s'', [0x53]), (''i64.lt_u'', [0x54]), (''i64.le_s'', [0x57]),
    (''i64.le_u'', [0x58]), (''i64.gt_s'', [0x55]), (''i64.gt_u'', [0x56]), (''i64.ge_s'', [0x59]),
    (''i64.ge_u'', [0x5a]), (''i64.eqz'', [0x50]), (''i64.and'', [0x83]), (''i64.or'', [0x84]),
    (''i64.xor'', [0x85]), (''i64.shl'', [0x86]), (''i64.shr_s'', [0x87]), (''i64.shr_u'', [0x88]),
    (''i64.extend_i32_s'', [0xac]), (''i64.extend_i32_u'', [0xad]), (''i64.trunc_f64_s'', [0xb0]),
    (''f64.convert_i64_s'', [0xb9]), (''f64.convert_i64_u'', [0xba]), (''i64.reinterpret_f64'', [0xbd]),
    (''f64.reinterpret_i64'', [0xbf]), (''i32.reinterpret_f32'', [0xbc]), (''f32.reinterpret_i32'', [0xbe])]"

definition i32_ops :: "(string \<times> byte list) list" where
  "i32_ops = [
    (''i32.eqz'', [0x45]), (''i32.eq'', [0x46]), (''i32.ne'', [0x47]), (''i32.lt_s'', [0x48]),
    (''i32.le_s'', [0x4c]), (''i32.gt_s'', [0x4a]), (''i32.ge_s'', [0x4e]), (''i32.ge_u'', [0x4f]),
    (''i32.add'', [0x6a]), (''i32.sub'', [0x6b]), (''i32.mul'', [0x6c]), (''i32.and'', [0x71]),
    (''i32.or'', [0x72]), (''i32.xor'', [0x73]), (''i32.shl'', [0x74]), (''i32.shr_s'', [0x75]),
    (''i32.shr_u'', [0x76]), (''i32.clz'', [0x67]), (''i32.trunc_sat_f64_s'', [0xfc, 0x02]),
    (''i32.trunc_sat_f64_u'', [0xfc, 0x03]), (''i64.trunc_sat_f64_s'', [0xfc, 0x06])]"

definition f64_ops :: "(string \<times> byte list) list" where
  "f64_ops = [
    (''f64.eq'', [0x61]), (''f64.ne'', [0x62]), (''f64.lt'', [0x63]), (''f64.le'', [0x65]),
    (''f64.gt'', [0x64]), (''f64.ge'', [0x66]), (''f64.abs'', [0x99]), (''f64.neg'', [0x9a]),
    (''f64.ceil'', [0x9b]), (''f64.floor'', [0x9c]), (''f64.trunc'', [0x9d]), (''f64.nearest'', [0x9e]),
    (''f64.sqrt'', [0x9f]), (''f64.add'', [0xa0]), (''f64.sub'', [0xa1]), (''f64.mul'', [0xa2]),
    (''f64.div'', [0xa3]), (''f64.min'', [0xa4]), (''f64.max'', [0xa5]), (''f64.copysign'', [0xa6]),
    (''i32.wrap_i64'', [0xa7]), (''i32.trunc_f64_s'', [0xaa]), (''i32.trunc_f64_u'', [0xab]),
    (''f64.convert_i32_s'', [0xb7]), (''f64.convert_i32_u'', [0xb8])]"

definition ref_ops :: "(string \<times> byte list) list" where
  "ref_ops = [
    (''ref.null.extern'', [0xd0, 0x6f]), (''ref.null.eq'', [0xd0, 0x6d]), (''ref.null.func'', [0xd0, 0x70]),
    (''ref.is_null'', [0xd1]), (''ref.as_non_null'', [0xd4]), (''ref.eq'', [0xd3]),
    (''any.convert_extern'', [0xfb, 0x1a]), (''ref.i31'', [0xfb, 0x1c]), (''i31.get_s'', [0xfb, 0x1d]),
    (''extern.convert_any'', [0xfb, 0x1b])]"

definition array_ops :: "(string \<times> byte list) list" where
  "array_ops = [(''array.len'', [0xfb, 0x0f])]"

definition memory_ops :: "(string \<times> byte list) list" where
  "memory_ops = [
    (''memory.size'', [0x3f, 0x00]), (''memory.grow'', [0x40, 0x00]),
    (''memory.copy'', [0xfc, 0x0a, 0x00, 0x00]), (''memory.fill'', [0xfc, 0x0b, 0x00])]"

definition more_ops :: "(string \<times> byte list) list" where
  "more_ops = [
    (''i32.div_s'', [0x6d]), (''i32.div_u'', [0x6e]), (''i32.rem_s'', [0x6f]), (''i32.rem_u'', [0x70]),
    (''i32.lt_u'', [0x49]), (''i32.le_u'', [0x4d]), (''i32.gt_u'', [0x4b]), (''f32.demote_f64'', [0xb6]),
    (''f64.promote_f32'', [0xbb])]"

definition plain_ops :: "(string \<times> byte list) list" where
  "plain_ops = control_ops @ i64_ops @ i32_ops @ f64_ops @ ref_ops @ array_ops @ memory_ops @ more_ops"

text \<open>SIMD instructions are \<open>0xfd\<close> and the number here as a \<open>u32\<close>.\<close>

definition v128_ops :: "(string \<times> int) list" where
  "v128_ops = [
    (''v128.not'', 77), (''v128.and'', 78), (''v128.andnot'', 79), (''v128.or'', 80), (''v128.xor'', 81),
    (''v128.bitselect'', 82), (''v128.any_true'', 83)]"

definition i8x16_ops :: "(string \<times> int) list" where
  "i8x16_ops = [
    (''i8x16.splat'', 15), (''i8x16.eq'', 35), (''i8x16.ne'', 36), (''i8x16.all_true'', 99),
    (''i8x16.bitmask'', 100), (''i8x16.swizzle'', 14), (''i8x16.add'', 110), (''i8x16.sub'', 113),
    (''i8x16.min_u'', 119), (''i8x16.max_u'', 121)]"

definition i16x8_ops :: "(string \<times> int) list" where
  "i16x8_ops = [
    (''i16x8.splat'', 16), (''i16x8.eq'', 45), (''i16x8.ne'', 46), (''i16x8.lt_s'', 47), (''i16x8.gt_s'', 49),
    (''i16x8.all_true'', 131), (''i16x8.bitmask'', 132), (''i16x8.add'', 142), (''i16x8.sub'', 145),
    (''i16x8.mul'', 149), (''i16x8.shl'', 139), (''i16x8.shr_u'', 141)]"

definition i32x4_ops :: "(string \<times> int) list" where
  "i32x4_ops = [
    (''i32x4.splat'', 17), (''i32x4.eq'', 55), (''i32x4.ne'', 56), (''i32x4.all_true'', 163),
    (''i32x4.bitmask'', 164), (''i32x4.add'', 174), (''i32x4.sub'', 177), (''i32x4.mul'', 181),
    (''i32x4.shl'', 171), (''i32x4.shr_s'', 172), (''i32x4.shr_u'', 173)]"

definition i64x2_ops :: "(string \<times> int) list" where
  "i64x2_ops = [
    (''i64x2.splat'', 18), (''i64x2.add'', 206), (''i64x2.sub'', 209), (''i64x2.mul'', 213),
    (''i64x2.eq'', 214), (''i64x2.ne'', 215)]"

definition f32x4_ops :: "(string \<times> int) list" where
  "f32x4_ops = [
    (''f32x4.splat'', 19), (''f32x4.eq'', 65), (''f32x4.add'', 228), (''f32x4.sub'', 229),
    (''f32x4.mul'', 230), (''f32x4.div'', 231)]"

definition f64x2_ops :: "(string \<times> int) list" where
  "f64x2_ops = [
    (''f64x2.splat'', 20), (''f64x2.eq'', 71), (''f64x2.ne'', 72), (''f64x2.add'', 240), (''f64x2.sub'', 241),
    (''f64x2.mul'', 242), (''f64x2.div'', 243)]"

definition simd_ops :: "(string \<times> int) list" where
  "simd_ops = v128_ops @ i8x16_ops @ i16x8_ops @ i32x4_ops @ i64x2_ops @ f32x4_ops @ f64x2_ops"

text \<open>The opcodes of instructions with operands.\<close>

definition depth_ops :: "(string \<times> byte list) list" where
  "depth_ops = [
    (''br'', [0x0c]), (''br_if'', [0x0d]), (''rethrow'', [0x09])]"

definition call_ops :: "(string \<times> byte list) list" where
  "call_ops = [
    (''call'', [0x10]), (''return_call'', [0x12])]"

definition local_ops :: "(string \<times> byte list) list" where
  "local_ops = [
    (''local.get'', [0x20]), (''local.set'', [0x21]), (''local.tee'', [0x22])]"

definition global_ops :: "(string \<times> byte list) list" where
  "global_ops = [
    (''global.get'', [0x23]), (''global.set'', [0x24])]"

definition heap_ops :: "(string \<times> byte list) list" where
  "heap_ops = [
    (''ref.null'', [0xd0]), (''ref.cast'', [0xfb, 0x16]), (''ref.cast_null'', [0xfb, 0x17]),
    (''ref.test'', [0xfb, 0x14])]"

definition field_ops :: "(string \<times> byte list) list" where
  "field_ops = [
    (''struct.get'', [0xfb, 0x02]), (''struct.set'', [0xfb, 0x05])]"

definition typed_ops :: "(string \<times> byte list) list" where
  "typed_ops = [
    (''struct.new'', [0xfb, 0x00]), (''array.new'', [0xfb, 0x06]), (''array.new_default'', [0xfb, 0x07]),
    (''array.get'', [0xfb, 0x0b]), (''array.get_s'', [0xfb, 0x0c]), (''array.get_u'', [0xfb, 0x0d]),
    (''array.set'', [0xfb, 0x0e]), (''array.fill'', [0xfb, 0x10]), (''call_ref'', [0x14]),
    (''return_call_ref'', [0x15])]"

definition mem_ops :: "(string \<times> byte list) list" where
  "mem_ops = [
    (''i32.load'', [0x28]), (''i32.load8_u'', [0x2d]), (''i32.load8_s'', [0x2c]), (''i32.load16_u'', [0x2f]),
    (''i32.store'', [0x36]), (''i64.store'', [0x37]), (''i32.store8'', [0x3a]), (''i32.store16'', [0x3b]),
    (''f64.load'', [0x2b]), (''f64.store'', [0x39]), (''f32.load'', [0x2a]), (''f32.store'', [0x38])]"

definition lane_ops :: "(string \<times> int) list" where
  "lane_ops = [
    (''i8x16.extract_lane_s'', 21), (''i8x16.extract_lane_u'', 22), (''i8x16.replace_lane'', 23),
    (''i16x8.extract_lane_s'', 24), (''i16x8.extract_lane_u'', 25), (''i16x8.replace_lane'', 26),
    (''i32x4.extract_lane'', 27), (''i32x4.replace_lane'', 28), (''i64x2.extract_lane'', 29),
    (''i64x2.replace_lane'', 30), (''f32x4.extract_lane'', 31), (''f32x4.replace_lane'', 32),
    (''f64x2.extract_lane'', 33), (''f64x2.replace_lane'', 34)]"

definition simd_mem_ops :: "(string \<times> int) list" where
  "simd_mem_ops = [
    (''v128.load'', 0), (''v128.store'', 11), (''v128.load8_splat'', 7), (''v128.load16_splat'', 8),
    (''v128.load32_splat'', 9), (''v128.load64_splat'', 10), (''v128.load32_zero'', 92),
    (''v128.load64_zero'', 93)]"

section \<open>Instructions\<close>

fun catch_byte :: "catch_kind \<Rightarrow> byte" where
  "catch_byte Catch = 0x00"
| "catch_byte CatchRef = 0x01"
| "catch_byte CatchAll = 0x02"
| "catch_byte CatchAllRef = 0x03"

definition encode_catch :: "emit_ctx \<Rightarrow> try_catch \<Rightarrow> wasm_emitter" where
  "encode_catch ctx clause = rseq [put_opcode [catch_byte (tc_kind clause)],
     if tc_kind clause \<in> {Catch, CatchRef} then
       (case tc_tagIdx clause of
          None \<Rightarrow> fails (MissingTagIndex (tc_kind clause))
        | Some tagIdx \<Rightarrow> rseq [checked ctx (\<lambda>c. vIdx ''exception tag'' tagIdx (numTags c)), put_u32 tagIdx, put_u32 (tc_depth clause)])
     else put_u32 (tc_depth clause)]"

text \<open>
  \<open>encodeInstr\<close>. \<open>encodeInstrArray\<close> without a cache, which is how it runs when source map entries are
  collected, is the loop \<open>each\<close>. An \<open>op\<close> without a case reaches the \<open>default\<close> branch and throws.
\<close>

fun encodeInstr :: "emit_ctx \<Rightarrow> wasm_instr \<Rightarrow> wasm_emitter" where
  "encodeInstr ctx (Op nm) =
     with_opcode plain_ops nm
       (case map_of simd_ops nm of None \<Rightarrow> fails (UnknownOp nm) | Some n \<Rightarrow> rseq [put_opcode [0xfd], put_u32 n])
       put_opcode"
| "encodeInstr ctx (Block bt body) =
     rseq [put_opcode [0x02], encodeBlockType ctx bt, each (encodeInstr ctx) body, put_opcode [0x0b]]"
| "encodeInstr ctx (Loop bt body) =
     rseq [put_opcode [0x03], encodeBlockType ctx bt, each (encodeInstr ctx) body, put_opcode [0x0b]]"
| "encodeInstr ctx (If bt thn els) =
     (let hasElse = (case els of None \<Rightarrow> False | Some es \<Rightarrow> es \<noteq> []);
          needsElse = (hasElse \<or> (case bt of ValBlock _ \<Rightarrow> True | _ \<Rightarrow> False)) in
      rseq [put_opcode [0x04], encodeBlockType ctx bt, each (encodeInstr ctx) thn,
        if needsElse then
            rseq [put_opcode [0x05], (case els of
              None \<Rightarrow> put_opcode [0x00]
            | Some es \<Rightarrow> if hasElse then each (encodeInstr ctx) es else put_opcode [0x00])]
          else Inr,
        put_opcode [0x0b]])"
| "encodeInstr ctx (Depth nm depth) =
     with_opcode depth_ops nm (fails (UnknownOp nm)) (\<lambda>bs. rseq [put_opcode bs, put_u32 depth])"
| "encodeInstr ctx (BrTable targets defaultDepth) =
     rseq [put_opcode [0x0e], put_u32 (int (length targets)), each put_u32 targets, put_u32 defaultDepth]"
| "encodeInstr ctx (CallOp nm funcIdx) =
     with_opcode call_ops nm (fails (UnknownOp nm)) (\<lambda>bs. with_value (fIdx ctx funcIdx) (\<lambda>target.
       rseq [checked ctx (\<lambda>c. vIdx ''function'' target (numFuncs c)), put_opcode bs, put_u32 target]))"
| "encodeInstr ctx (CallIndirectOp typeIdx tableIdx) =
     rseq [checked ctx (\<lambda>c. rseq [vIdx ''type'' typeIdx (numTypes c), vIdx ''table'' tableIdx (numTables c)]),
       put_opcode [0x11], put_u32 typeIdx, put_u32 tableIdx]"
| "encodeInstr ctx (LocalOp nm index) =
     with_opcode local_ops nm (fails (UnknownOp nm)) (\<lambda>bs.
       rseq [checked ctx (\<lambda>c. if maxLocals c \<ge> 0 then vIdx (''local ('' @ nm @ '')'') index (maxLocals c) else Inr),
         put_opcode bs, put_u32 index])"
| "encodeInstr ctx (GlobalOp nm index) =
     with_opcode global_ops nm (fails (UnknownOp nm)) (\<lambda>bs.
       rseq [checked ctx (\<lambda>c. vIdx ''global'' (gIdx ctx index) (numGlobals c)), put_opcode bs, put_u32 (gIdx ctx index)])"
| "encodeInstr ctx (ConstI32 v) = rseq [put_opcode [0x41], put_i32 v]"
| "encodeInstr ctx (ConstI64 v) = rseq [put_opcode [0x42], \<lambda>e. Inr (enc_i64 v e)]"
| "encodeInstr ctx (ConstF64 v) = rseq [put_opcode [0x44], \<lambda>e. Inr (enc_f64 v e)]"
| "encodeInstr ctx (ConstF32 v) = rseq [put_opcode [0x43], \<lambda>e. Inr (enc_f32 v e)]"
| "encodeInstr ctx (ConstV128 bs) = rseq [put_opcode [0xfd], put_u32 12, enc_call (enc_v128 bs)]"
| "encodeInstr ctx (HeapType nm typeIdx) =
     with_opcode heap_ops nm (fails (UnknownOp nm)) (\<lambda>bs.
       rseq [checked ctx (\<lambda>c. vHeapType c typeIdx), put_opcode bs, put_i32 typeIdx])"
| "encodeInstr ctx (Typed nm typeIdx) =
     with_opcode typed_ops nm (fails (UnknownOp nm)) (\<lambda>bs.
       rseq [checked ctx (\<lambda>c. vIdx ''type'' typeIdx (numTypes c)), put_opcode bs, put_u32 typeIdx])"
| "encodeInstr ctx (StructField nm typeIdx fieldIdx) =
     with_opcode field_ops nm (fails (UnknownOp nm)) (\<lambda>bs.
       rseq [checked ctx (\<lambda>c. vStructField c typeIdx fieldIdx), put_opcode bs, put_u32 typeIdx, put_u32 fieldIdx])"
| "encodeInstr ctx (ArrayNewFixed typeIdx n) =
     rseq [checked ctx (\<lambda>c. vIdx ''type'' typeIdx (numTypes c)), put_opcode [0xfb, 0x08], put_u32 typeIdx, put_u32 n]"
| "encodeInstr ctx (ArrayCopy dstTypeIdx srcTypeIdx) =
     rseq [checked ctx (\<lambda>c. rseq [vIdx ''type'' dstTypeIdx (numTypes c), vIdx ''type'' srcTypeIdx (numTypes c)]),
       put_opcode [0xfb, 0x11], put_u32 dstTypeIdx, put_u32 srcTypeIdx]"
| "encodeInstr ctx (FuncRefOf funcIdx) =
     with_value (fIdx ctx funcIdx) (\<lambda>target.
       rseq [checked ctx (\<lambda>c. vIdx ''function'' target (numFuncs c)), put_opcode [0xd2], put_u32 target])"
| "encodeInstr ctx (DataSegment nm dataIdx) =
     (if nm = ''memory.init'' then rseq [put_opcode [0xfc], put_u32 8, put_u32 dataIdx, put_opcode [0x00]]
      else if nm = ''data.drop'' then rseq [put_opcode [0xfc], put_u32 9, put_u32 dataIdx]
      else fails (UnknownOp nm))"
| "encodeInstr ctx (MemArg nm align offset) =
     with_opcode mem_ops nm
       (case map_of simd_mem_ops nm of
          None \<Rightarrow> fails (UnknownOp nm) | Some n \<Rightarrow> rseq [put_opcode [0xfd], put_u32 n, put_u32 align, put_u32 offset])
       (\<lambda>bs. rseq [put_opcode bs, put_u32 align, put_u32 offset])"
| "encodeInstr ctx (Lane nm lane) =
     (case map_of lane_ops nm of
        None \<Rightarrow> fails (UnknownOp nm) | Some n \<Rightarrow> rseq [put_opcode [0xfd], put_u32 n, put_byte lane])"
| "encodeInstr ctx (Shuffle lanes) = rseq [put_opcode [0xfd], put_u32 13, each put_byte lanes]"
| "encodeInstr ctx (Throw tagIdx) =
     rseq [checked ctx (\<lambda>c. vIdx ''exception tag'' tagIdx (numTags c)), put_opcode [0x08], put_u32 tagIdx]"
| "encodeInstr ctx (TryTable bt body clauses) =
     rseq [put_opcode [0x1f], encodeBlockType ctx bt, put_u32 (int (length clauses)), each (encode_catch ctx) clauses,
       each (encodeInstr ctx) body, put_opcode [0x0b]]"
| "encodeInstr ctx (Try bt body clauses catchAll) =
     rseq [put_opcode [0x06], encodeBlockType ctx bt, each (encodeInstr ctx) body,
       each (\<lambda>c. rseq [checked ctx (\<lambda>v. vIdx ''exception tag'' (fst c) (numTags v)), put_opcode [0x07],
         put_u32 (fst c), each (encodeInstr ctx) (snd c)]) clauses,
       (case catchAll of None \<Rightarrow> Inr | Some is \<Rightarrow> rseq [put_opcode [0x19], each (encodeInstr ctx) is]),
       put_opcode [0x0b]]"

section \<open>The index space an operand names\<close>

text \<open>
  What the instructions refer to, without regard to how they are encoded: \<open>instr_uses\<close> lists the index
  operands of an instruction and of the instructions nested in it.
\<close>

datatype index_use =
    FunctionUse int | TypeUse int | BlockTypeUse int | HeapUse int | GlobalUse int | LocalUse int | TagUse int | TableUse int
  | FieldUse int int

fun val_type_uses :: "val_type \<Rightarrow> index_use list" where
  "val_type_uses (Ref typeIdx) = [HeapUse typeIdx]"
| "val_type_uses (RefNull typeIdx) = [HeapUse typeIdx]"
| "val_type_uses t = []"

fun block_type_uses :: "block_type \<Rightarrow> index_use list" where
  "block_type_uses EmptyBlock = []"
| "block_type_uses (ValBlock t) = val_type_uses t"
| "block_type_uses (TypeBlock typeIdx) = [BlockTypeUse typeIdx]"

definition catch_uses :: "try_catch \<Rightarrow> index_use list" where
  "catch_uses clause = (if tc_kind clause \<in> {Catch, CatchRef} then (case tc_tagIdx clause of None \<Rightarrow> [] | Some t \<Rightarrow> [TagUse t]) else [])"

fun instr_uses :: "wasm_instr \<Rightarrow> index_use list" where
  "instr_uses (Block bt body) = block_type_uses bt @ concat (map instr_uses body)"
| "instr_uses (Loop bt body) = block_type_uses bt @ concat (map instr_uses body)"
| "instr_uses (If bt thn els) = block_type_uses bt @ concat (map instr_uses thn)
     @ (case els of None \<Rightarrow> [] | Some es \<Rightarrow> concat (map instr_uses es))"
| "instr_uses (CallOp nm funcIdx) = [FunctionUse funcIdx]"
| "instr_uses (CallIndirectOp typeIdx tableIdx) = [TypeUse typeIdx, TableUse tableIdx]"
| "instr_uses (LocalOp nm index) = [LocalUse index]"
| "instr_uses (GlobalOp nm index) = [GlobalUse index]"
| "instr_uses (HeapType nm typeIdx) = [HeapUse typeIdx]"
| "instr_uses (Typed nm typeIdx) = [TypeUse typeIdx]"
| "instr_uses (StructField nm typeIdx fieldIdx) = [TypeUse typeIdx, FieldUse typeIdx fieldIdx]"
| "instr_uses (ArrayNewFixed typeIdx n) = [TypeUse typeIdx]"
| "instr_uses (ArrayCopy dstTypeIdx srcTypeIdx) = [TypeUse dstTypeIdx, TypeUse srcTypeIdx]"
| "instr_uses (FuncRefOf funcIdx) = [FunctionUse funcIdx]"
| "instr_uses (Throw tagIdx) = [TagUse tagIdx]"
| "instr_uses (TryTable bt body clauses) = block_type_uses bt @ concat (map catch_uses clauses) @ concat (map instr_uses body)"
| "instr_uses (Try bt body clauses catchAll) = block_type_uses bt @ concat (map instr_uses body)
     @ concat (map (\<lambda>c. TagUse (fst c) # concat (map instr_uses (snd c))) clauses)
     @ (case catchAll of None \<Rightarrow> [] | Some is \<Rightarrow> concat (map instr_uses is))"
| "instr_uses i = []"

text \<open>
  An index is in range when it names a member of its space: a function through its handle, a type or an
  abstract heap type, a field of the struct when the struct is known, a local when the frame is known.
\<close>

fun use_in_range :: "emit_ctx \<Rightarrow> validation \<Rightarrow> index_use \<Rightarrow> bool" where
  "use_in_range ctx c (FunctionUse h) =
     (case fIdx ctx h of Inl _ \<Rightarrow> False | Inr target \<Rightarrow> 0 \<le> target \<and> target < numFuncs c)"
| "use_in_range ctx c (TypeUse i) = (0 \<le> i \<and> i < numTypes c)"
| "use_in_range ctx c (BlockTypeUse i) = (0 \<le> i \<and> i < numTypes c)"
| "use_in_range ctx c (HeapUse i) = (i < numTypes c \<and> (0 \<le> i \<or> (-64 \<le> i \<and> i \<le> -2)))"
| "use_in_range ctx c (GlobalUse h) = (0 \<le> gIdx ctx h \<and> gIdx ctx h < numGlobals c)"
| "use_in_range ctx c (LocalUse i) = (maxLocals c < 0 \<or> (0 \<le> i \<and> i < maxLocals c))"
| "use_in_range ctx c (TagUse i) = (0 \<le> i \<and> i < numTags c)"
| "use_in_range ctx c (TableUse i) = (0 \<le> i \<and> i < numTables c)"
| "use_in_range ctx c (FieldUse t i) =
     (case resolveTypeDefAt c t of
        Some (StructType fs superType isFinal) \<Rightarrow> 0 \<le> i \<and> i < int (length fs) | _ \<Rightarrow> True)"

section \<open>Validation only rejects\<close>

text \<open>\<open>guards P w w'\<close>: the step \<open>w\<close> is \<open>w'\<close> where \<open>P\<close> holds, and throws otherwise.\<close>

definition guards :: "bool \<Rightarrow> 's step \<Rightarrow> 's step \<Rightarrow> bool" where
  "guards P w w' \<longleftrightarrow> (\<forall>s t. w s = Inr t \<longleftrightarrow> P \<and> w' s = Inr t)"

named_theorems guard_intros "closure rules of guarded steps"

lemma guards_same [guard_intros]: "guards True w w"
  by (simp add: guards_def)

lemma guards_Cons:
  "guards P w w' \<Longrightarrow> guards Q (rseq ws) (rseq ws') \<Longrightarrow> guards (P \<and> Q) (rseq (w # ws)) (rseq (w' # ws'))"
  by (simp add: guards_def rbind_Inr_iff) blast

lemma guards_each:
  assumes "\<And>x. x \<in> set xs \<Longrightarrow> guards (P x) (f x) (g x)"
  shows "guards (\<forall>x\<in>set xs. P x) (each f xs) (each g xs)"
  using assms
proof (induction xs)
  case Nil
  show ?case by (simp add: guards_def)
next
  case (Cons x xs)
  have "guards (P x) (f x) (g x)" "guards (\<forall>x\<in>set xs. P x) (each f xs) (each g xs)" using Cons by simp_all
  then show ?case by (simp add: guards_def rbind_Inr_iff) blast
qed

lemma guards_vIdx: "guards (0 \<le> v \<and> v < mx) (vIdx space v mx) Inr"
  by (auto simp: guards_def vIdx_def fails_def)

lemma guards_vHeapType: "guards (v < numTypes c \<and> (0 \<le> v \<or> (-64 \<le> v \<and> v \<le> -2))) (vHeapType c v) Inr"
  by (auto simp: guards_def vHeapType_def fails_def)

lemma guards_iff: "guards P w w' \<Longrightarrow> P = Q \<Longrightarrow> guards Q w w'"
  by simp

lemma guards_table:
  "guards P missing missing' \<Longrightarrow> (\<And>bs. guards P (found bs) (found' bs)) \<Longrightarrow>
     guards P (with_opcode table nm missing found) (with_opcode table nm missing' found')"
  by (simp add: with_opcode_def split: option.split)

lemma guards_fails: "guards P (fails err) (fails err)"
  by (simp add: guards_def fails_def)
text \<open>The context without its validation.\<close>

definition unvalidated :: "emit_ctx \<Rightarrow> emit_ctx" where
  "unvalidated ctx = ctx\<lparr>valCtx := None\<rparr>"

lemma unvalidated_simps [simp]:
  "checked (unvalidated ctx) f = Inr" "fIdx (unvalidated ctx) = fIdx ctx" "gIdx (unvalidated ctx) = gIdx ctx"
  by (auto simp: unvalidated_def checked_def fIdx_def gIdx_def fun_eq_iff)

lemma checked_Some: "valCtx ctx = Some c \<Longrightarrow> checked ctx f = f c"
  by (simp add: checked_def)

definition uses_in_range :: "emit_ctx \<Rightarrow> validation \<Rightarrow> index_use list \<Rightarrow> bool" where
  "uses_in_range ctx c us \<longleftrightarrow> (\<forall>u\<in>set us. use_in_range ctx c u)"

lemma uses_simps [simp]:
  "uses_in_range ctx c []"
  "uses_in_range ctx c (u # us) \<longleftrightarrow> use_in_range ctx c u \<and> uses_in_range ctx c us"
  "uses_in_range ctx c (us @ vs) \<longleftrightarrow> uses_in_range ctx c us \<and> uses_in_range ctx c vs"
  "uses_in_range ctx c (concat uss) \<longleftrightarrow> (\<forall>us\<in>set uss. uses_in_range ctx c us)"
  by (auto simp: uses_in_range_def)

lemma guards_Inr: "guards True (rseq []) Inr"
  "guards P w Inr \<Longrightarrow> guards Q (rseq ws) Inr \<Longrightarrow> guards (P \<and> Q) (rseq (w # ws)) Inr"
  by (auto simp: guards_def rbind_Inr_iff)

lemma guards_checked: "valCtx ctx = Some c \<Longrightarrow> guards P (f c) Inr \<Longrightarrow> guards P (checked ctx f) Inr"
  by (simp add: checked_def)

lemma guards_vStructField:
  "guards (use_in_range ctx c (TypeUse t) \<and> use_in_range ctx c (FieldUse t i)) (vStructField c t i) Inr"
  by (auto simp: vStructField_def guards_def vIdx_def fails_def split: option.split type_def.split)

lemma guards_local:
  "guards (use_in_range ctx c (LocalUse i)) (if maxLocals c \<ge> 0 then vIdx space i (maxLocals c) else Inr) Inr"
  by (auto simp: guards_def vIdx_def fails_def)

lemmas guard_steps = guards_same guards_Cons guards_vIdx guards_vHeapType guards_fails guards_Inr
  guards_vStructField guards_local

lemma guards_val_type:
  assumes "valCtx ctx = Some c"
  shows "guards (uses_in_range ctx c (val_type_uses t)) (encodeValType ctx t) (encodeValType (unvalidated ctx) t)"
  by (cases t) (simp_all add: checked_Some [OF assms], (rule guards_iff, (rule guard_steps)+, simp)+)

lemma guards_block_type:
  assumes "valCtx ctx = Some c"
  shows "guards (uses_in_range ctx c (block_type_uses bt)) (encodeBlockType ctx bt) (encodeBlockType (unvalidated ctx) bt)"
  by (cases bt) (simp_all add: checked_Some [OF assms] guards_val_type [OF assms] guards_same,
    (rule guards_iff, (rule guard_steps)+, simp)+)

lemma guards_catch:
  assumes "valCtx ctx = Some c"
  shows "guards (uses_in_range ctx c (catch_uses clause)) (encode_catch ctx clause) (encode_catch (unvalidated ctx) clause)"
  by (cases "tc_kind clause"; cases "tc_tagIdx clause")
    (simp_all add: encode_catch_def catch_uses_def checked_Some [OF assms] guards_same,
     (rule guards_iff, (rule guard_steps)+, simp)+)

text \<open>A body, given its instructions.\<close>

lemma guards_body:
  "(\<And>x. x \<in> set is \<Longrightarrow> guards (uses_in_range ctx c (instr_uses x)) (encodeInstr ctx x) (encodeInstr (unvalidated ctx) x)) \<Longrightarrow>
     guards (uses_in_range ctx c (concat (map instr_uses is))) (each (encodeInstr ctx) is) (each (encodeInstr (unvalidated ctx)) is)"
  by (rule guards_iff, rule guards_each) auto

lemma guards_handle:
  assumes "valCtx ctx = Some c"
  shows "guards (use_in_range ctx c (FunctionUse h))
     (with_value (fIdx ctx h) (\<lambda>target. rseq [checked ctx (\<lambda>c. vIdx space target (numFuncs c)), put_opcode bs, put_u32 target]))
     (with_value (fIdx ctx h) (\<lambda>target. rseq [Inr, put_opcode bs, put_u32 target]))"
  by (auto simp: guards_def with_value_def checked_Some [OF assms] vIdx_def fails_def split: sum.split)

lemma guards_instr:
  assumes "valCtx ctx = Some c"
  shows "guards (uses_in_range ctx c (instr_uses i)) (encodeInstr ctx i) (encodeInstr (unvalidated ctx) i)"
  using assms
proof (induction ctx i rule: encodeInstr.induct)
  case (2 ctx bt body)
  note steps = guard_steps guards_block_type [OF "2.prems"] guards_body [OF "2.IH" [OF _ "2.prems"]]
  show ?case unfolding encodeInstr.simps by (rule guards_iff, (rule steps | assumption)+, simp)
next
  case (3 ctx bt body)
  note steps = guard_steps guards_block_type [OF "3.prems"] guards_body [OF "3.IH" [OF _ "3.prems"]]
  show ?case unfolding encodeInstr.simps by (rule guards_iff, (rule steps | assumption)+, simp)
next
  case (4 ctx bt thn els)
  have thn: "guards (uses_in_range ctx c (concat (map instr_uses thn))) (each (encodeInstr ctx) thn) (each (encodeInstr (unvalidated ctx)) thn)"
    by (rule guards_body) (use "4.IH"(1) "4.prems" in blast)
  have els: "guards (uses_in_range ctx c (concat (map instr_uses es))) (each (encodeInstr ctx) es) (each (encodeInstr (unvalidated ctx)) es)"
    if "els = Some es" "es \<noteq> []" for es
    by (rule guards_body) (use "4.IH"(2) "4.prems" that in auto)
  note steps = guard_steps guards_block_type [OF "4.prems"] thn els
  show ?case
  proof (cases "els = None \<or> els = Some []")
    case True
    then show ?thesis
      by (cases "case bt of ValBlock _ \<Rightarrow> True | _ \<Rightarrow> False")
        (auto simp del: rseq_simps, (rule guards_iff, (rule steps)+, simp)+)
  next
    case False
    then obtain es where "els = Some es" "es \<noteq> []" by auto
    then show ?thesis
      by (simp del: rseq_simps) (rule guards_iff, (rule steps | assumption)+, simp)
  qed
next
  case (7 ctx nm funcIdx)
  show ?case unfolding encodeInstr.simps unvalidated_simps
    by (rule guards_table [OF guards_fails]) (use guards_handle [OF 7] in simp)
next
  case (8 ctx typeIdx tableIdx)
  show ?case unfolding encodeInstr.simps unvalidated_simps
    by (rule guards_iff, (rule guard_steps guards_checked [OF "8"])+, simp)
next
  case (9 ctx nm index)
  show ?case unfolding encodeInstr.simps unvalidated_simps
    by (rule guards_table [OF guards_fails], rule guards_iff, (rule guard_steps guards_checked [OF "9"])+, simp)
next
  case (10 ctx nm index)
  show ?case unfolding encodeInstr.simps unvalidated_simps
    by (rule guards_table [OF guards_fails], rule guards_iff, (rule guard_steps guards_checked [OF "10"])+, simp)
next
  case (16 ctx nm typeIdx)
  show ?case unfolding encodeInstr.simps unvalidated_simps
    by (rule guards_table [OF guards_fails], rule guards_iff, (rule guard_steps guards_checked [OF "16"])+, simp)
next
  case (17 ctx nm typeIdx)
  show ?case unfolding encodeInstr.simps unvalidated_simps
    by (rule guards_table [OF guards_fails], rule guards_iff, (rule guard_steps guards_checked [OF "17"])+, simp)
next
  case (18 ctx nm typeIdx fieldIdx)
  show ?case unfolding encodeInstr.simps unvalidated_simps
    by (rule guards_table [OF guards_fails], rule guards_iff, (rule guard_steps guards_checked [OF "18"])+, simp)
next
  case (19 ctx typeIdx n)
  show ?case unfolding encodeInstr.simps unvalidated_simps
    by (rule guards_iff, (rule guard_steps guards_checked [OF "19"])+, simp)
next
  case (20 ctx d s)
  show ?case unfolding encodeInstr.simps unvalidated_simps
    by (rule guards_iff, (rule guard_steps guards_checked [OF "20"])+, simp)
next
  case (21 ctx funcIdx)
  show ?case unfolding encodeInstr.simps unvalidated_simps using guards_handle [OF 21] by simp
next
  case (26 ctx tagIdx)
  show ?case unfolding encodeInstr.simps unvalidated_simps
    by (rule guards_iff, (rule guard_steps guards_checked [OF "26"])+, simp)
next
  case (27 ctx bt body clauses)
  have clauses: "guards (uses_in_range ctx c (concat (map catch_uses clauses))) (each (encode_catch ctx) clauses)
      (each (encode_catch (unvalidated ctx)) clauses)"
    by (rule guards_iff, rule guards_each, rule guards_catch [OF "27.prems"]) simp
  note steps = guard_steps guards_block_type [OF "27.prems"] guards_body [OF "27.IH" [OF _ "27.prems"]] clauses
  show ?case unfolding encodeInstr.simps by (rule guards_iff, (rule steps | assumption)+, simp)
next
  case (28 ctx bt body clauses catchAll)
  have one: "guards (uses_in_range ctx c (TagUse (fst k) # concat (map instr_uses (snd k))))
      (rseq [checked ctx (\<lambda>v. vIdx ''exception tag'' (fst k) (numTags v)), put_opcode [0x07], put_u32 (fst k), each (encodeInstr ctx) (snd k)])
      (rseq [Inr, put_opcode [0x07], put_u32 (fst k), each (encodeInstr (unvalidated ctx)) (snd k)])" if "k \<in> set clauses" for k
    unfolding checked_Some [OF "28.prems"]
    by (rule guards_iff, (rule guard_steps guards_body "28.IH"(2) [OF \<open>k \<in> set clauses\<close> _ "28.prems"] | assumption)+, simp)
  have clauses: "guards (uses_in_range ctx c (concat (map (\<lambda>k. TagUse (fst k) # concat (map instr_uses (snd k))) clauses)))
      (each (\<lambda>k. rseq [checked ctx (\<lambda>v. vIdx ''exception tag'' (fst k) (numTags v)), put_opcode [0x07], put_u32 (fst k), each (encodeInstr ctx) (snd k)]) clauses)
      (each (\<lambda>k. rseq [Inr, put_opcode [0x07], put_u32 (fst k), each (encodeInstr (unvalidated ctx)) (snd k)]) clauses)"
    by (rule guards_iff, rule guards_each, rule one) auto
  have body: "guards (uses_in_range ctx c (concat (map instr_uses body))) (each (encodeInstr ctx) body) (each (encodeInstr (unvalidated ctx)) body)"
    by (rule guards_body) (use "28.IH"(1) "28.prems" in blast)
  have all: "guards (uses_in_range ctx c (concat (map instr_uses is))) (each (encodeInstr ctx) is) (each (encodeInstr (unvalidated ctx)) is)"
    if "catchAll = Some is" for "is"
    by (rule guards_body) (use "28.IH"(3) "28.prems" that in blast)
  note steps = guard_steps guards_block_type [OF "28.prems"] body clauses all
  show ?case
    unfolding encodeInstr.simps unvalidated_simps
    by (cases catchAll) (simp_all del: rseq_simps, (rule guards_iff, (rule steps | assumption)+, simp)+)
qed (simp_all add: guards_same del: rseq_simps)

section \<open>Instructions append\<close>

lemma appending_check [append_intros]: "appending (vIdx space v mx)" "appending (vHeapType c v)"
  by (simp_all add: vIdx_def vHeapType_def append_intros app.skip)

lemma appending_vStructField [append_intros]: "appending (vStructField c t i)"
  unfolding vStructField_def by (rule app.sequence) (auto simp: append_intros app.skip split: option.split type_def.split)

lemma appending_checked [append_intros]: "(\<And>c. appending (f c)) \<Longrightarrow> appending (checked ctx f)"
  by (auto simp: checked_def app.skip split: option.split)

lemma appending_with_value [append_intros]: "(\<And>x. appending (f x)) \<Longrightarrow> appending (with_value r f)"
proof (cases r)
  case (Inl err)
  then have "with_value r f = fails err" by (auto simp: with_value_def fails_def fun_eq_iff)
  then show ?thesis by (simp add: appending_fails)
qed (simp add: with_value_def [abs_def])

lemma appending_val_type [append_intros]: "appending (encodeValType ctx t)"
  by (cases t) (auto intro!: app.sequence append_intros simp del: rseq_simps)

lemma appending_block_type [append_intros]: "appending (encodeBlockType ctx bt)"
  by (cases bt) (auto intro!: app.sequence append_intros simp del: rseq_simps)

lemma appending_consts [append_intros]:
  "appending (\<lambda>e. Inr (enc_i64 v e))" "appending (\<lambda>e. Inr (enc_f64 w e))" "appending (\<lambda>e. Inr (enc_f32 u e))"
  unfolding enc_i64_def enc_f64_def enc_f32_def
  by (rule appending_appends, simp add: sleb_loop_appends enc_bytes_props)+

lemma appending_v128 [append_intros]: "appending (enc_call (enc_v128 bs))"
proof (rule appendingI)
  show "produces (enc_call (enc_v128 bs)) (if length bs = 16 then Inr bs else Inl (EncodeFailed (V128Length (length bs))))"
    by (simp add: produces_def enc_call_def enc_v128_def enc_bytes_props)
qed

lemma appending_catch [append_intros]: "appending (encode_catch ctx clause)"
  unfolding encode_catch_def
  by (cases "tc_tagIdx clause") (auto intro!: app.sequence append_intros simp del: rseq_simps)

lemma appending_instr [append_intros]: "appending (encodeInstr ctx i)"
proof (induction ctx i rule: encodeInstr.induct)
  case (4 ctx bt thn els)
  have "appending (each (encodeInstr ctx) es)" if "els = Some es" "es \<noteq> []" for es
    by (rule app.loop) (use "4.IH"(2) that in auto)
  moreover have "appending (each (encodeInstr ctx) thn)" by (rule app.loop) (use "4.IH"(1) in auto)
  ultimately show ?case
    by (auto intro!: app.sequence append_intros app.skip simp: Let_def split: option.split simp del: rseq_simps)
qed (auto intro!: app.sequence append_intros app.loop app.from_table app.skip split: option.split simp del: rseq_simps)

section \<open>Properties\<close>

text \<open>
  C2. Index validation is exact: with it an instruction, and all that is nested in it, is encoded if and
  only if it is without validation and every index in it is in range, and then to the same bytes.
\<close>

theorem encodeInstr_validation:
  assumes "valCtx ctx = Some c"
  shows "encodeInstr ctx i e = Inr e' \<longleftrightarrow>
    (\<forall>u\<in>set (instr_uses i). use_in_range ctx c u) \<and> encodeInstr (unvalidated ctx) i e = Inr e'"
  using guards_instr [OF assms, of i] by (simp add: guards_def uses_in_range_def)

text \<open>Two functions and one global: a stale \<open>global.get -1\<close> is caught inside a block, a good call is not.\<close>

definition sample_validation :: validation where
  "sample_validation = \<lparr>numFuncs = 2, numTypes = 1, numGlobals = 1, numTags = 0, numTables = 0, numMemories = 0,
     flatTypes = Some [FuncType [] []], maxLocals = 0\<rparr>"

definition sample_ctx :: emit_ctx where
  "sample_ctx = \<lparr>valCtx = Some sample_validation, layout = None\<rparr>"

theorem encodeInstr_validation_witness:
  "(\<exists>e. encodeInstr sample_ctx (Block EmptyBlock [CallOp ''call'' 1]) new_encoder = Inr e)
    \<and> \<not> (\<exists>e. encodeInstr sample_ctx (Block EmptyBlock [GlobalOp ''global.get'' (-1)]) new_encoder = Inr e)"
proof -
  have ctx: "valCtx sample_ctx = Some sample_validation" by (simp add: sample_ctx_def)
  have "\<exists>e. encodeInstr (unvalidated sample_ctx) (Block EmptyBlock [CallOp ''call'' 1]) new_encoder = Inr e"
    by (simp add: unvalidated_def sample_ctx_def checked_def fIdx_def with_value_def with_opcode_def call_ops_def put_opcode_def
        put_byte_def put_u32_def enc_call_def enc_u32_def)
  moreover have "\<forall>u\<in>set (instr_uses (Block EmptyBlock [CallOp ''call'' 1])). use_in_range sample_ctx sample_validation u"
    by (simp add: fIdx_def sample_ctx_def sample_validation_def)
  moreover have "\<not> (\<forall>u\<in>set (instr_uses (Block EmptyBlock [GlobalOp ''global.get'' (-1)])). use_in_range sample_ctx sample_validation u)"
    by (simp add: gIdx_def sample_ctx_def)
  ultimately show ?thesis using encodeInstr_validation [OF ctx] by blast
qed

end
