(* ===== verification/RecGroups.thy ===== *)
theory RecGroups
  imports WasmModule
begin

text \<open>
  Recursive type groups, \<open>computeRecGroups\<close> of \<open>src/src/emit/binary.ts\<close>: the type section is cut into
  runs of consecutive definitions, each of which becomes one group, so that no definition refers to a type
  after its group. Shown: the runs partition the section, every reference and every forced group stays
  inside a run, and each run is the shortest one with that property.
\<close>

section \<open>References of a type definition\<close>

text \<open>A JavaScript \<open>Set\<close> of indices, in insertion order.\<close>

definition add_ref :: "int \<Rightarrow> int list \<Rightarrow> int list" where
  "add_ref r refs = (if r \<in> set refs then refs else refs @ [r])"

fun collectValTypeRefs :: "val_type \<Rightarrow> int list \<Rightarrow> int list" where
  "collectValTypeRefs (Ref typeIdx) refs = add_ref typeIdx refs"
| "collectValTypeRefs (RefNull typeIdx) refs = add_ref typeIdx refs"
| "collectValTypeRefs t refs = refs"

fun collectTypeDefRefs :: "type_def \<Rightarrow> int list \<Rightarrow> int list" where
  "collectTypeDefRefs (FuncType params results) refs = fold collectValTypeRefs results (fold collectValTypeRefs params refs)"
| "collectTypeDefRefs (StructType fs superTypeIdx isFinal) refs =
     fold (\<lambda>f. collectValTypeRefs (fst f)) fs
       (case superTypeIdx of Some s \<Rightarrow> if s \<ge> 0 then add_ref s refs else refs | None \<Rightarrow> refs)"
| "collectTypeDefRefs (ArrayType element isMutable) refs = collectValTypeRefs element refs"
| "collectTypeDefRefs (RecGroup ts) refs = fold collectTypeDefRefs ts refs"
| "collectTypeDefRefs (SubType superType isFinal t) refs =
     collectTypeDefRefs t (case superType of Some s \<Rightarrow> add_ref s refs | None \<Rightarrow> refs)"

definition type_refs :: "type_def \<Rightarrow> int list" where
  "type_refs t = collectTypeDefRefs t []"

section \<open>Groups\<close>

text \<open>The loops over references and forced groups inside the scan.\<close>

definition extend_refs :: "nat \<Rightarrow> int list \<Rightarrow> nat \<Rightarrow> nat" where
  "extend_refs n refs fin = fold (\<lambda>r e. if r > int e \<and> r < int n then nat r else e) refs fin"

definition extend_forced :: "(nat \<times> nat) list \<Rightarrow> nat \<Rightarrow> nat \<Rightarrow> nat" where
  "extend_forced forced i fin = fold (\<lambda>(a, b) e. if a \<le> e \<and> b \<ge> i then max e b else e) forced fin"

definition first_end :: "(nat \<times> nat) list \<Rightarrow> nat \<Rightarrow> nat" where
  "first_end forced i = fold (\<lambda>(a, b) e. if a \<le> i \<and> i \<le> b then max e b else e) forced i"

text \<open>The inner \<open>while\<close>; a scan past the last type would read \<open>undefined\<close>, which throws.\<close>

function group_scan :: "type_def list \<Rightarrow> (nat \<times> nat) list \<Rightarrow> nat \<Rightarrow> nat \<Rightarrow> nat \<Rightarrow> emit_error + nat" where
  "group_scan types forced i fin scan =
     (if scan \<le> fin then
        if scan < length types then
          group_scan types forced i
            (extend_forced forced i (extend_refs (length types) (type_refs (types ! scan)) fin)) (Suc scan)
        else Inl (UndefinedType scan)
      else Inr fin)"
  by pat_completeness auto
termination
  by (relation "measure (\<lambda>(types, forced, i, fin, scan). length types - scan)") auto

declare group_scan.simps [simp del]

lemma fold_ge: "(\<And>x e. (e :: nat) \<le> f x e) \<Longrightarrow> e \<le> fold f xs e"
proof (induction xs arbitrary: e)
  case (Cons x xs)
  then show ?case using order_trans [OF Cons.prems [of e x] Cons.IH [of "f x e"]] by simp
qed simp

lemma extend_refs_ge: "fin \<le> extend_refs n refs fin"
  unfolding extend_refs_def by (rule fold_ge) auto

lemma extend_forced_ge: "fin \<le> extend_forced forced i fin"
  unfolding extend_forced_def by (rule fold_ge) auto

lemma first_end_ge: "i \<le> first_end forced i"
  unfolding first_end_def by (rule fold_ge) auto

lemma group_scan_ge: "group_scan types forced i fin scan = Inr e \<Longrightarrow> fin \<le> e"
proof (induction types forced i fin scan rule: group_scan.induct)
  case (1 types forced i fin scan)
  show ?case
  proof (cases "scan \<le> fin \<and> scan < length types")
    case True
    with "1.prems" have "group_scan types forced i
        (extend_forced forced i (extend_refs (length types) (type_refs (types ! scan)) fin)) (Suc scan) = Inr e"
      by (simp add: group_scan.simps [of types forced i fin scan])
    with "1.IH" True have "extend_forced forced i (extend_refs (length types) (type_refs (types ! scan)) fin) \<le> e" by simp
    then show ?thesis using extend_refs_ge extend_forced_ge order_trans by meson
  next
    case False
    with "1.prems" show ?thesis by (auto simp: group_scan.simps [of types forced i fin scan] split: if_splits)
  qed
qed

lemma group_scan_from: "group_scan types forced i (first_end forced i) i = Inr e \<Longrightarrow> i \<le> e"
  using group_scan_ge first_end_ge order_trans by blast

function rec_groups_from :: "type_def list \<Rightarrow> (nat \<times> nat) list \<Rightarrow> nat \<Rightarrow> emit_error + (nat \<times> nat) list" where
  "rec_groups_from types forced i =
     (if i < length types then
        rbind (group_scan types forced i (first_end forced i) i) (\<lambda>fin.
        rbind (rec_groups_from types forced (Suc fin)) (\<lambda>groups. Inr ((i, fin) # groups)))
      else Inr [])"
  by pat_completeness auto
termination
proof (relation "measure (\<lambda>(types, forced, i). length types - i)", goal_cases)
  case (2 types forced i fin)
  then have "i \<le> fin" by (intro group_scan_from) auto
  with 2(1) show ?case by simp
qed simp

declare rec_groups_from.simps [simp del]

definition computeRecGroups :: "type_def list \<Rightarrow> (nat \<times> nat) list \<Rightarrow> emit_error + (nat \<times> nat) list" where
  "computeRecGroups types forcedGroups = rec_groups_from types forcedGroups 0"

section \<open>What the groups are\<close>

text \<open>
  A run of definitions is closed when its references do not go past its end (references beyond the section
  aside) and no forced group leaves it.
\<close>

definition stays_within :: "nat \<Rightarrow> int list \<Rightarrow> nat \<Rightarrow> bool" where
  "stays_within n refs fin \<longleftrightarrow> (\<forall>r\<in>set refs. r < int n \<longrightarrow> r \<le> int fin)"

definition keeps_forced :: "(nat \<times> nat) list \<Rightarrow> nat \<Rightarrow> nat \<Rightarrow> bool" where
  "keeps_forced forced i fin \<longleftrightarrow> (\<forall>(a, b)\<in>set forced. a \<le> fin \<and> i \<le> b \<longrightarrow> b \<le> fin)"

definition closed_run :: "type_def list \<Rightarrow> (nat \<times> nat) list \<Rightarrow> nat \<Rightarrow> nat \<Rightarrow> bool" where
  "closed_run types forced i fin \<longleftrightarrow> i \<le> fin \<and> fin < length types
     \<and> (\<forall>j\<in>set [i..<Suc fin]. stays_within (length types) (type_refs (types ! j)) fin) \<and> keeps_forced forced i fin"

lemma stays_within_mono: "stays_within n refs e \<Longrightarrow> e \<le> e' \<Longrightarrow> stays_within n refs e'"
  by (force simp: stays_within_def)

lemma stays_within_extend: "stays_within n refs (extend_refs n refs fin)"
proof (induction refs arbitrary: fin)
  case Nil
  show ?case by (simp add: stays_within_def)
next
  case (Cons r refs)
  let ?e = "if r > int fin \<and> r < int n then nat r else fin"
  have "?e \<le> extend_refs n refs ?e" by (rule extend_refs_ge)
  moreover have "r < int n \<longrightarrow> r \<le> int ?e" by auto
  ultimately show ?case using Cons [of ?e] by (auto simp: stays_within_def extend_refs_def)
qed

lemma extend_refs_le: "stays_within n refs e \<Longrightarrow> fin \<le> e \<Longrightarrow> extend_refs n refs fin \<le> e"
proof (induction refs arbitrary: fin)
  case (Cons r refs)
  then have "extend_refs n refs (if r > int fin \<and> r < int n then nat r else fin) \<le> e"
    by (intro Cons.IH) (auto simp: stays_within_def)
  then show ?case by (simp add: extend_refs_def)
qed (simp add: extend_refs_def)

lemma extend_forced_le: "keeps_forced forced i e \<Longrightarrow> fin \<le> e \<Longrightarrow> extend_forced forced i fin \<le> e"
proof (induction forced arbitrary: fin)
  case (Cons ab forced)
  obtain a b where ab: "ab = (a, b)" by (cases ab)
  have "extend_forced forced i (if a \<le> fin \<and> b \<ge> i then max fin b else fin) \<le> e"
    using Cons.prems by (intro Cons.IH) (auto simp: ab keeps_forced_def)
  then show ?case by (simp add: ab extend_forced_def)
qed (simp add: extend_forced_def)

lemma extend_forced_fixed: "extend_forced forced i fin \<le> fin \<Longrightarrow> keeps_forced forced i fin"
proof (induction forced)
  case (Cons ab forced)
  obtain a b where ab: "ab = (a, b)" by (cases ab)
  let ?e = "if a \<le> fin \<and> b \<ge> i then max fin b else fin"
  have e: "extend_forced forced i ?e \<le> fin" using Cons.prems by (simp add: ab extend_forced_def)
  then have "?e = fin" using extend_forced_ge [of ?e forced i] by (auto split: if_splits)
  with e Cons.IH show ?case by (auto simp: ab keeps_forced_def split: if_splits)
qed (simp add: keeps_forced_def)

lemma first_end_le: "keeps_forced forced i e \<Longrightarrow> i \<le> e \<Longrightarrow> first_end forced i \<le> e"
proof -
  assume k: "keeps_forced forced i e" and "i \<le> e"
  have "set fs \<subseteq> set forced \<Longrightarrow> x \<le> e \<Longrightarrow> fold (\<lambda>(a, b) e. if a \<le> i \<and> i \<le> b then max e b else e) fs x \<le> e" for fs x
  proof (induction fs arbitrary: x)
    case (Cons ab fs)
    obtain a b where ab: "ab = (a, b)" by (cases ab)
    have "b \<le> e" if "a \<le> i" "i \<le> b" using k that Cons.prems(1) \<open>i \<le> e\<close> by (force simp: ab keeps_forced_def)
    then show ?case using Cons by (auto simp: ab)
  qed simp
  then show ?thesis using \<open>i \<le> e\<close> by (simp add: first_end_def)
qed

lemma group_scan_closed:
  assumes "group_scan types forced i fin scan = Inr e"
    and "i \<le> scan" "scan \<le> Suc fin" "scan \<le> length types" "i \<le> fin"
    and "\<forall>j\<in>set [i..<scan]. stays_within (length types) (type_refs (types ! j)) fin"
    and "scan \<le> fin \<or> keeps_forced forced i fin"
  shows "closed_run types forced i e"
  using assms
proof (induction types forced i fin scan rule: group_scan.induct)
  case (1 types forced i fin scan)
  show ?case
  proof (cases "scan \<le> fin")
    case False
    with "1.prems" have "e = fin" "scan = Suc fin" by (auto simp: group_scan.simps [of types forced i fin scan])
    with "1.prems" show ?thesis by (auto simp: closed_run_def)
  next
    case True
    with "1.prems"(1) have scan: "scan < length types" by (simp add: group_scan.simps [of types forced i fin scan] split: if_splits)
    let ?refs = "type_refs (types ! scan)"
    let ?mid = "extend_refs (length types) ?refs fin"
    let ?fin = "extend_forced forced i ?mid"
    have ge: "fin \<le> ?mid" "?mid \<le> ?fin" by (rule extend_refs_ge extend_forced_ge)+
    show ?thesis
    proof (rule "1.IH" [OF True scan])
      show "group_scan types forced i ?fin (Suc scan) = Inr e"
        using "1.prems"(1) True scan by (simp add: group_scan.simps [of types forced i fin scan])
      show "\<forall>j\<in>set [i..<Suc scan]. stays_within (length types) (type_refs (types ! j)) ?fin"
        using "1.prems"(6) stays_within_extend [of "length types" ?refs fin]
          stays_within_mono [OF _ order_trans [OF ge]] stays_within_mono [OF _ ge(2)]
        by (auto simp: less_Suc_eq)
      show "Suc scan \<le> ?fin \<or> keeps_forced forced i ?fin"
      proof (cases "Suc scan \<le> ?fin")
        case False
        with True ge have "?mid = ?fin" by linarith
        then show ?thesis using extend_forced_fixed [of forced i ?mid] by simp
      qed simp
    qed (use "1.prems" True scan ge in auto)
  qed
qed

lemma group_scan_least:
  assumes "group_scan types forced i fin scan = Inr e" and "closed_run types forced i e'" and "fin \<le> e'" and "i \<le> scan"
  shows "e \<le> e'"
  using assms
proof (induction types forced i fin scan rule: group_scan.induct)
  case (1 types forced i fin scan)
  show ?case
  proof (cases "scan \<le> fin \<and> scan < length types")
    case False
    with "1.prems" show ?thesis by (auto simp: group_scan.simps [of types forced i fin scan] split: if_splits)
  next
    case True
    let ?fin = "extend_forced forced i (extend_refs (length types) (type_refs (types ! scan)) fin)"
    have "scan \<in> set [i..<Suc e']" using "1.prems"(3,4) True by (simp del: upt_Suc)
    then have "stays_within (length types) (type_refs (types ! scan)) e'" "keeps_forced forced i e'"
      using "1.prems"(2) by (simp_all only: closed_run_def)
    then have "?fin \<le> e'" using "1.prems"(3) by (intro extend_forced_le extend_refs_le)
    moreover have "group_scan types forced i ?fin (Suc scan) = Inr e"
      using "1.prems"(1) True by (simp add: group_scan.simps [of types forced i fin scan])
    ultimately show ?thesis using "1.IH" True "1.prems" by simp
  qed
qed

text \<open>The run from \<open>i\<close> to \<open>fin\<close> is the shortest closed run from \<open>i\<close>.\<close>

definition shortest_run :: "type_def list \<Rightarrow> (nat \<times> nat) list \<Rightarrow> nat \<times> nat \<Rightarrow> bool" where
  "shortest_run types forced = (\<lambda>(i, fin). closed_run types forced i fin \<and> (\<forall>e < fin. \<not> closed_run types forced i e))"

lemma group_scan_shortest:
  assumes "group_scan types forced i (first_end forced i) i = Inr e" and "i < length types"
  shows "shortest_run types forced (i, e)"
proof -
  have "closed_run types forced i e"
    by (rule group_scan_closed [OF assms(1)]) (use assms(2) first_end_ge [of i forced] in auto)
  moreover have "e \<le> e'" if "closed_run types forced i e'" for e'
    by (rule group_scan_least [OF assms(1) that]) (use that in \<open>auto simp: closed_run_def intro: first_end_le\<close>)
  ultimately show ?thesis by (auto simp: shortest_run_def leD)
qed

lemma rec_groups_from_runs:
  "rec_groups_from types forced i = Inr groups \<Longrightarrow> i \<le> length types \<Longrightarrow>
     concat (map (\<lambda>(s, e). [s..<Suc e]) groups) = [i..<length types] \<and> list_all (shortest_run types forced) groups"
proof (induction types forced i arbitrary: groups rule: rec_groups_from.induct)
  case (1 types forced i)
  show ?case
  proof (cases "i < length types")
    case False
    with "1.prems" show ?thesis by (simp add: rec_groups_from.simps [of types forced i])
  next
    case True
    with "1.prems" obtain e gs where e: "group_scan types forced i (first_end forced i) i = Inr e"
      and gs: "rec_groups_from types forced (Suc e) = Inr gs" and groups: "groups = (i, e) # gs"
      by (auto simp: rec_groups_from.simps [of types forced i] rbind_Inr_iff)
    have run: "shortest_run types forced (i, e)" by (rule group_scan_shortest [OF e True])
    then have le: "i \<le> e" "e < length types" by (auto simp: shortest_run_def closed_run_def)
    then have "[i..<length types] = [i..<Suc e] @ [Suc e..<length types]"
      using upt_add_eq_append [of i "Suc e" "length types - Suc e"] by (simp only: le_add_diff_inverse Suc_leI le_SucI)
    with "1.IH" [OF True e gs] run le show ?thesis by (simp add: groups del: upt_Suc)
  qed
qed

text \<open>Scans end in \<open>undefined\<close> only for forced groups that leave the section.\<close>

lemma group_scan_defined:
  assumes "fin < length types" and "\<forall>(a, b)\<in>set forced. b < length types"
  shows "\<exists>e. group_scan types forced i fin scan = Inr e"
  using assms
proof (induction types forced i fin scan rule: group_scan.induct)
  case (1 types forced i fin scan)
  have r: "extend_refs (length types) refs x < length types" if "x < length types" for refs x
    using that unfolding extend_refs_def by (induction refs arbitrary: x) auto
  have f: "extend_forced fs i x < length types" if "x < length types" "set fs \<subseteq> set forced" for fs x
    using that "1.prems"(2) unfolding extend_forced_def by (induction fs arbitrary: x) auto
  show ?case
    using "1.IH" "1.prems" f [OF r subset_refl]
    by (cases "scan \<le> fin") (auto simp: group_scan.simps [of types forced i fin scan])
qed

lemma rec_groups_from_defined:
  assumes "\<forall>(a, b)\<in>set forced. b < length types"
  shows "\<exists>groups. rec_groups_from types forced i = Inr groups"
  using assms
proof (induction types forced i rule: rec_groups_from.induct)
  case (1 types forced i)
  show ?case
  proof (cases "i < length types")
    case True
    have "x < length types \<Longrightarrow> set fs \<subseteq> set forced \<Longrightarrow>
        fold (\<lambda>(a, b) e. if a \<le> i \<and> i \<le> b then max e b else e) fs x < length types" for fs x
      using "1.prems" by (induction fs arbitrary: x) auto
    then have "first_end forced i < length types" using True by (simp add: first_end_def)
    then obtain e where "group_scan types forced i (first_end forced i) i = Inr e"
      using group_scan_defined "1.prems" by blast
    with "1.IH" [OF True this "1.prems"] True show ?thesis
      by (auto simp: rec_groups_from.simps [of types forced i])
  qed (simp add: rec_groups_from.simps [of types forced i])
qed

text \<open>
  C19. The groups cut the type section into consecutive runs, none overlapping and none missing; each is
  the shortest run from its start whose references stay inside it and that keeps the forced groups whole.
\<close>

theorem computeRecGroups_runs:
  assumes "\<forall>(a, b)\<in>set forcedGroups. b < length types"
  shows "\<exists>groups. computeRecGroups types forcedGroups = Inr groups
    \<and> concat (map (\<lambda>(s, e). [s..<Suc e]) groups) = [0..<length types] \<and> list_all (shortest_run types forcedGroups) groups"
  using rec_groups_from_defined [OF assms, of 0] rec_groups_from_runs [of types forcedGroups 0]
  by (auto simp: computeRecGroups_def)

text \<open>A class whose field type is declared after it, a plain signature, and a forced pair.\<close>

definition rec_types :: "type_def list" where
  "rec_types = [StructType [(RefNull 1, True)] None False, ArrayType F64 True, FuncType [F64] [Ref 0],
     StructType [(I32, False)] (Some (-1)) False, StructType [(I32, False)] (Some 3) True]"

theorem computeRecGroups_runs_witness:
  "computeRecGroups rec_types [(3, 4)] = Inr [(0, 1), (2, 2), (3, 4)]
    \<and> list_all (shortest_run rec_types [(3, 4)]) [(0, 1), (2, 2), (3, 4)]"
proof -
  have "computeRecGroups rec_types [(3, 4)] = Inr [(0, 1), (2, 2), (3, 4)]"
    unfolding rec_types_def by code_simp
  with computeRecGroups_runs [of "[(3, 4)]" rec_types] show ?thesis by (auto simp: rec_types_def)
qed

end
