(* ===== verification/BinaryEmit.thy ===== *)
theory BinaryEmit
  imports BinaryInstr RecGroups
begin

text \<open>
  Whole modules, \<open>src/src/emit/binary.ts\<close>: type definitions, imports, globals, exports, functions, and
  \<open>emitBinaryWithSourceMap\<close>, which writes every section and collects the source map entries. The cache of
  shared instruction arrays is not armed on that path, and is not modelled; dumping and the environment
  variables that ask for it are left out, \<open>JS2WASM_SKIP_INDEX_VALIDATION\<close> is the argument \<open>skip\<close>, and
  \<open>TextEncoder\<close> is \<open>utf8\<close>. Shown: each source map entry is the byte offset in the finished module at which
  the encoding of its instruction starts.
\<close>

section \<open>Type definitions\<close>

definition encodeStorageType :: "emit_ctx \<Rightarrow> val_type \<Rightarrow> wasm_emitter" where
  "encodeStorageType ctx t =
     (case t of I8 \<Rightarrow> put_opcode [0x78] | I16 \<Rightarrow> put_opcode [0x77] | _ \<Rightarrow> encodeValType ctx t)"

definition encodeFieldDef :: "emit_ctx \<Rightarrow> val_type \<times> bool \<Rightarrow> wasm_emitter" where
  "encodeFieldDef ctx f = rseq [encodeStorageType ctx (fst f), put_opcode [if snd f then 0x01 else 0x00]]"

fun encodeTypeDef :: "emit_ctx \<Rightarrow> type_def \<Rightarrow> wasm_emitter" where
  "encodeTypeDef ctx (FuncType params results) =
     rseq [put_opcode [0x60], put_vector params (encodeValType ctx), put_vector results (encodeValType ctx)]"
| "encodeTypeDef ctx (StructType fs superTypeIdx isFinal) =
     (case superTypeIdx of
        Some s \<Rightarrow>
          rseq [put_opcode [if isFinal then 0x4f else 0x50],
            (if s \<ge> 0 then rseq [checked ctx (\<lambda>c. vIdx ''supertype'' s (numTypes c)), put_u32 1, put_u32 s] else put_u32 0),
            put_opcode [0x5f], put_vector fs (encodeFieldDef ctx)]
      | None \<Rightarrow> rseq [put_opcode [0x5f], put_vector fs (encodeFieldDef ctx)])"
| "encodeTypeDef ctx (ArrayType element isMutable) =
     rseq [put_opcode [0x5e], encodeStorageType ctx element, put_opcode [if isMutable then 0x01 else 0x00]]"
| "encodeTypeDef ctx (RecGroup ts) =
     rseq [put_opcode [0x4e], put_u32 (int (length ts)), each (encodeTypeDef ctx) ts]"
| "encodeTypeDef ctx (SubType superType isFinal t) =
     rseq [(case superType of
          Some s \<Rightarrow> rseq [checked ctx (\<lambda>c. vIdx ''supertype'' s (numTypes c)),
            put_opcode [if isFinal then 0x4f else 0x50], put_u32 1, put_u32 s]
        | None \<Rightarrow> if \<not> isFinal then rseq [put_opcode [0x50], put_u32 0] else Inr),
       encodeTypeDef ctx t]"

section \<open>Imports, globals and exports\<close>

definition put_limits :: "int \<Rightarrow> int option \<Rightarrow> wasm_emitter" where
  "put_limits mn mx =
     (case mx of Some m \<Rightarrow> rseq [put_opcode [0x01], put_u32 mn, put_u32 m] | None \<Rightarrow> rseq [put_opcode [0x00], put_u32 mn])"

definition put_name :: "(string \<Rightarrow> byte list) \<Rightarrow> string \<Rightarrow> wasm_emitter" where
  "put_name utf8 s = enc_call (enc_name utf8 s)"

definition put_table_type :: "string \<Rightarrow> int \<Rightarrow> int option \<Rightarrow> wasm_emitter" where
  "put_table_type elementType mn mx = rseq [put_opcode [if elementType = ''funcref'' then 0x70 else 0x6f], put_limits mn mx]"

definition encodeImport :: "emit_ctx \<Rightarrow> (string \<Rightarrow> byte list) \<Rightarrow> wasm_import \<Rightarrow> wasm_emitter" where
  "encodeImport ctx utf8 imp = rseq [put_name utf8 (im_module imp), put_name utf8 (im_name imp),
     (case im_desc imp of
        ImportFunc typeIdx \<Rightarrow> rseq [checked ctx (\<lambda>c. vIdx ''type'' typeIdx (numTypes c)), put_opcode [0x00], put_u32 typeIdx]
      | ImportTable elementType mn mx \<Rightarrow> rseq [put_opcode [0x01], put_table_type elementType mn mx]
      | ImportMemory mn mx \<Rightarrow> rseq [put_opcode [0x02], put_limits mn mx]
      | ImportGlobal t isMutable \<Rightarrow> rseq [put_opcode [0x03], encodeValType ctx t, put_opcode [if isMutable then 0x01 else 0x00]]
      | ImportTag typeIdx \<Rightarrow>
          rseq [checked ctx (\<lambda>c. vIdx ''type'' typeIdx (numTypes c)), put_opcode [0x04, 0x00], put_u32 typeIdx])]"

definition encodeGlobal :: "emit_ctx \<Rightarrow> wasm_global \<Rightarrow> wasm_emitter" where
  "encodeGlobal ctx g = rseq [encodeValType ctx (gl_type g), put_opcode [if gl_mutable g then 0x01 else 0x00],
     each (encodeInstr ctx) (gl_init g), put_opcode [0x0b]]"

fun kind_byte :: "extern_kind \<Rightarrow> byte" where
  "kind_byte FuncKind = 0x00"
| "kind_byte TableKind = 0x01"
| "kind_byte MemoryKind = 0x02"
| "kind_byte TagKind = 0x04"
| "kind_byte GlobalKind = 0x03"

fun check_export :: "extern_kind \<Rightarrow> int \<Rightarrow> validation \<Rightarrow> 's step" where
  "check_export FuncKind i c = vIdx ''function'' i (numFuncs c)"
| "check_export GlobalKind i c = vIdx ''global'' i (numGlobals c)"
| "check_export TableKind i c = vIdx ''table'' i (numTables c)"
| "check_export TagKind i c = vIdx ''exception tag'' i (numTags c)"
| "check_export MemoryKind i c = vIdx ''memory'' i (numMemories c)"

definition export_index :: "emit_ctx \<Rightarrow> extern_kind \<Rightarrow> int \<Rightarrow> emit_error + int" where
  "export_index ctx k i = (if k = FuncKind then fIdx ctx i else if k = GlobalKind then Inr (gIdx ctx i) else Inr i)"

definition encodeExport :: "emit_ctx \<Rightarrow> (string \<Rightarrow> byte list) \<Rightarrow> wasm_export \<Rightarrow> wasm_emitter" where
  "encodeExport ctx utf8 ex =
     with_value (export_index ctx (ex_kind ex) (ex_index ex)) (\<lambda>resolved.
       rseq [checked ctx (check_export (ex_kind ex) resolved), put_name utf8 (ex_name ex),
         put_opcode [kind_byte (ex_kind ex)], put_u32 resolved])"

section \<open>Functions\<close>

text \<open>Types are compared by their \<open>kind\<close> and type index, so brands make no difference.\<close>

fun val_kind :: "val_type \<Rightarrow> val_type" where
  "val_kind BooleanI32 = I32"
| "val_kind BigintI64 = I64"
| "val_kind t = t"

definition valTypeEq :: "val_type \<Rightarrow> val_type \<Rightarrow> bool" where
  "valTypeEq a b \<longleftrightarrow> val_kind a = val_kind b"

definition add_local :: "val_type \<Rightarrow> (nat \<times> val_type) list \<Rightarrow> (nat \<times> val_type) list" where
  "add_local t groups =
     (if groups \<noteq> [] \<and> valTypeEq (snd (last groups)) t then butlast groups @ [(Suc (fst (last groups)), snd (last groups))] else groups @ [(1, t)])"

definition groupLocals :: "val_type list \<Rightarrow> (nat \<times> val_type) list" where
  "groupLocals locals = fold add_local locals []"

definition encode_locals :: "emit_ctx \<Rightarrow> val_type list \<Rightarrow> wasm_emitter" where
  "encode_locals ctx locals =
     put_vector (groupLocals locals) (\<lambda>(count, t). rseq [put_u32 (int count), encodeValType ctx t])"

text \<open>\<open>>>>=\<close> first reduces its operand to 32 bits.\<close>

function leb128_size_loop :: "u32 \<Rightarrow> nat" where
  "leb128_size_loop v = (if drop_bit 7 v = 0 then 1 else Suc (leb128_size_loop (drop_bit 7 v)))"
  by pat_completeness auto
termination
  by (relation "measure unat") (auto simp: unat_drop_bit_less)

declare leb128_size_loop.simps [simp del]

definition leb128UnsignedSize :: "nat \<Rightarrow> nat" where
  "leb128UnsignedSize v = leb128_size_loop (word_of_int (int v))"

record offset_entry =
  bodyOffset :: nat
  instrOffset :: nat
  entryPos :: source_pos

text \<open>Steps that also collect entries.\<close>

type_synonym mapped_state = "wasm_encoder \<times> offset_entry list"

definition on_encoder :: "wasm_emitter \<Rightarrow> (wasm_encoder \<times> 'a) step" where
  "on_encoder w st = rbind (w (fst st)) (\<lambda>e'. Inr (e', snd st))"

definition encodeInstrWithSourceMap :: "emit_ctx \<Rightarrow> nat \<Rightarrow> wasm_instr \<times> source_pos option \<Rightarrow> mapped_state step" where
  "encodeInstrWithSourceMap ctx bodyStart ip st = (case (ip, st) of ((i, sourcePos), (e, entries)) \<Rightarrow>
     rbind (encodeInstr ctx i e) (\<lambda>e'.
       Inr (e', case sourcePos of
           None \<Rightarrow> entries
         | Some p \<Rightarrow> entries @ [\<lparr>bodyOffset = bodyStart, instrOffset = len e, entryPos = p\<rparr>])))"

definition encodeFunctionWithSourceMap :: "emit_ctx \<Rightarrow> nat \<Rightarrow> wasm_function \<Rightarrow> mapped_state step" where
  "encodeFunctionWithSourceMap ctx bodyStart f st = (case st of (e, entries) \<Rightarrow>
     rbind (rseq [on_encoder (encode_locals ctx (fn_locals f)), each (encodeInstrWithSourceMap ctx bodyStart) (fn_body f),
         on_encoder (put_opcode [0x0b])] (new_encoder, entries)) (\<lambda>(body, entries).
       let bodyBytes = finish body;
           u32PrefixSize = leb128UnsignedSize (length bodyBytes);
           entries = map (\<lambda>entry. if bodyOffset entry = bodyStart
             then entry\<lparr>instrOffset := bodyStart + u32PrefixSize + instrOffset entry\<rparr> else entry) entries
       in rseq [on_encoder (put_u32 (int (length bodyBytes))), on_encoder (put_bytes bodyBytes)] (e, entries)))"

text \<open>The context while a function is encoded: \<open>valCtx.maxLocals\<close> is its frame size.\<close>

definition function_ctx :: "emit_ctx \<Rightarrow> wasm_function \<Rightarrow> emit_ctx" where
  "function_ctx ctx f = ctx\<lparr>valCtx := map_option (\<lambda>c.
     let params = resolveParamCount c (fn_typeIdx f) in
     c\<lparr>maxLocals := if params \<ge> 0 then params + int (length (fn_locals f)) else -1\<rparr>) (valCtx ctx)\<rparr>"

definition code_content :: "emit_ctx \<Rightarrow> wasm_function list \<Rightarrow> mapped_state step" where
  "code_content ctx fs = rseq [on_encoder (put_u32 (int (length fs))),
     each (\<lambda>f st. encodeFunctionWithSourceMap (function_ctx ctx f) (len (fst st)) f st) fs]"

section \<open>Modules\<close>

text \<open>\<open>enc.section\<close> when the condition holds.\<close>

definition section_if :: "bool \<Rightarrow> int \<Rightarrow> wasm_emitter \<Rightarrow> wasm_emitter" where
  "section_if c sid content = (if c then put_section sid content else Inr)"

text \<open>
  The type section. A canonical group of the runtime must come out as a group of its own.
\<close>

definition forced_groups :: "wasm_module \<Rightarrow> (nat \<times> nat) list" where
  "forced_groups m = (case m_canonicalRecGroup m of None \<Rightarrow> [] | Some g \<Rightarrow> [g])"

definition check_canonical :: "wasm_module \<Rightarrow> (nat \<times> nat) list \<Rightarrow> wasm_emitter" where
  "check_canonical m recGroups =
     (case m_canonicalRecGroup m of
        None \<Rightarrow> Inr
      | Some (start, fin) \<Rightarrow>
          (case List.find (\<lambda>g. fst g = start) recGroups of
             None \<Rightarrow> fails (MergedRecGroup start fin None)
           | Some g \<Rightarrow> if snd g \<noteq> fin then fails (MergedRecGroup start fin (Some g)) else Inr))"

definition put_rec_group :: "emit_ctx \<Rightarrow> type_def list \<Rightarrow> nat \<times> nat \<Rightarrow> wasm_emitter" where
  "put_rec_group ctx types = (\<lambda>(start, fin).
     if start = fin then encodeTypeDef ctx (types ! start)
     else rseq [put_opcode [0x4e], put_u32 (int (fin - start + 1)),
       each (encodeTypeDef ctx) (take (Suc fin - start) (drop start types))])"

definition type_section :: "emit_ctx \<Rightarrow> wasm_module \<Rightarrow> wasm_emitter" where
  "type_section ctx m =
     (if m_types m = [] then Inr
      else with_value (computeRecGroups (m_types m) (forced_groups m)) (\<lambda>recGroups.
        rseq [check_canonical m recGroups, put_section 1 (put_vector recGroups (put_rec_group ctx (m_types m)))]))"

definition type_index :: "emit_ctx \<Rightarrow> int \<Rightarrow> wasm_emitter" where
  "type_index ctx i = rseq [checked ctx (\<lambda>c. vIdx ''type'' i (numTypes c)), put_u32 i]"

definition function_index :: "emit_ctx \<Rightarrow> int \<Rightarrow> wasm_emitter" where
  "function_index ctx i = rseq [checked ctx (\<lambda>c. vIdx ''function'' i (numFuncs c)), put_u32 i]"

definition put_element :: "emit_ctx \<Rightarrow> wasm_element \<Rightarrow> wasm_emitter" where
  "put_element ctx el =
     (let explicitTable = elem_tableIdx el \<noteq> 0 in
      rseq [put_opcode [if explicitTable then 0x02 else 0x00],
        if explicitTable
          then rseq [checked ctx (\<lambda>c. vIdx ''table'' (elem_tableIdx el) (numTables c)), put_u32 (elem_tableIdx el)] else Inr,
        each (encodeInstr ctx) (elem_offset el), put_opcode [0x0b],
        if explicitTable then put_opcode [0x00] else Inr,
        put_vector (elem_funcIndices el) (\<lambda>h. with_value (fIdx ctx h) (function_index ctx))])"

text \<open>The declarative segment lists the resolved indices in ascending order.\<close>

definition put_declared :: "emit_ctx \<Rightarrow> int list \<Rightarrow> wasm_emitter" where
  "put_declared ctx refs =
     (if refs = [] then Inr
      else rseq [put_opcode [0x03, 0x00], put_u32 (int (length refs)),
        with_value (rmap (fIdx ctx) refs) (\<lambda>resolved. each (function_index ctx) (sort resolved))])"

definition element_section :: "emit_ctx \<Rightarrow> wasm_module \<Rightarrow> wasm_emitter" where
  "element_section ctx m =
     section_if (m_elements m \<noteq> [] \<or> m_declaredFuncRefs m \<noteq> []) 9
       (rseq [put_u32 (int (length (m_elements m) + (if m_declaredFuncRefs m \<noteq> [] then 1 else 0))),
         each (put_element ctx) (m_elements m), put_declared ctx (m_declaredFuncRefs m)])"

definition put_data :: "data_segment \<Rightarrow> wasm_emitter" where
  "put_data seg = rseq [
     if ds_passive seg then put_opcode [0x01] else rseq [put_opcode [0x00, 0x41], put_i32 (ds_offset seg), put_opcode [0x0b]],
     put_u32 (int (length (ds_bytes seg))), put_bytes (ds_bytes seg)]"

text \<open>The entries of the name section: imported functions without the suffix \<open>_import\<close>, then named functions.\<close>

definition strip_import :: "string \<Rightarrow> string" where
  "strip_import nm =
     (if length nm \<ge> 7 \<and> drop (length nm - 7) nm = ''_import'' then take (length nm - 7) nm else nm)"

definition name_entries :: "wasm_module \<Rightarrow> (nat \<times> string) list" where
  "name_entries m =
     (let imported = filter (\<lambda>imp. desc_kind (im_desc imp) = FuncKind) (m_imports m) in
      map (\<lambda>(i, imp). (i, strip_import (im_name imp))) (List.enumerate 0 imported)
      @ filter (\<lambda>(i, nm). nm \<noteq> []) (List.enumerate (length imported) (map fn_name (m_functions m))))"

definition name_section :: "(string \<Rightarrow> byte list) \<Rightarrow> wasm_module \<Rightarrow> wasm_emitter" where
  "name_section utf8 m =
     section_if (name_entries m \<noteq> []) 0
       (rseq [put_name utf8 ''name'', put_section 1
         (put_vector (name_entries m) (\<lambda>(i, nm). rseq [put_u32 (int i), put_name utf8 nm]))])"

text \<open>Everything before the code section, and everything after it.\<close>

definition sections_before_code :: "emit_ctx \<Rightarrow> (string \<Rightarrow> byte list) \<Rightarrow> wasm_module \<Rightarrow> wasm_emitter" where
  "sections_before_code ctx utf8 m = rseq [
     put_bytes [0x00, 0x61, 0x73, 0x6d], put_bytes [0x01, 0x00, 0x00, 0x00],
     type_section ctx m,
     section_if (m_imports m \<noteq> []) 2 (put_vector (m_imports m) (encodeImport ctx utf8)),
     section_if (m_functions m \<noteq> []) 3 (put_vector (m_functions m) (\<lambda>f. type_index ctx (fn_typeIdx f))),
     section_if (m_tables m \<noteq> []) 4
       (put_vector (m_tables m) (\<lambda>t. put_table_type (tb_elementType t) (tb_min t) (tb_max t))),
     section_if (m_memories m \<noteq> []) 5 (put_vector (m_memories m) (\<lambda>(mn, mx). put_limits mn mx)),
     section_if (m_tags m \<noteq> []) 13
       (put_vector (m_tags m) (\<lambda>t. rseq [checked ctx (\<lambda>c. vIdx ''type'' (tg_typeIdx t) (numTypes c)),
          put_opcode [0x00], put_u32 (tg_typeIdx t)])),
     section_if (m_globals m \<noteq> []) 6 (put_vector (m_globals m) (encodeGlobal ctx)),
     section_if (m_exports m \<noteq> []) 7 (put_vector (m_exports m) (encodeExport ctx utf8)),
     (case m_startFuncIdx m of
        None \<Rightarrow> Inr | Some h \<Rightarrow> put_section 8 (with_value (fIdx ctx h) (function_index ctx))),
     element_section ctx m,
     section_if (\<exists>seg\<in>set (m_dataSegments m). ds_passive seg) 12 (put_u32 (int (length (m_dataSegments m))))]"

definition sections_after_code :: "(string \<Rightarrow> byte list) \<Rightarrow> wasm_module \<Rightarrow> wasm_emitter" where
  "sections_after_code utf8 m = rseq [
     section_if (m_dataSegments m \<noteq> []) 11 (put_vector (m_dataSegments m) put_data), name_section utf8 m]"

record source_map_entry =
  sme_wasmOffset :: nat
  sme_sourcePos :: source_pos

definition emitBinaryWithSourceMapUnguarded ::
    "emit_ctx \<Rightarrow> (string \<Rightarrow> byte list) \<Rightarrow> wasm_module \<Rightarrow> emit_error + (byte list \<times> source_map_entry list)" where
  "emitBinaryWithSourceMapUnguarded ctx utf8 m =
     rbind (sections_before_code ctx utf8 m new_encoder) (\<lambda>e.
     rbind (if m_functions m = [] then Inr (e, [])
         else rbind (code_content ctx (m_functions m) (new_encoder, [])) (\<lambda>(code, funcRelativeEntries).
           let codeSectionData = finish code in
           rbind (rseq [put_byte 10, put_u32 (int (length codeSectionData))] e) (\<lambda>e.
             let codeSectionPayloadStart = len e in
             rbind (put_bytes codeSectionData e) (\<lambda>e.
               Inr (e, map (\<lambda>entry. \<lparr>sme_wasmOffset = codeSectionPayloadStart + instrOffset entry, sme_sourcePos = entryPos entry\<rparr>)
                 funcRelativeEntries))))) (\<lambda>(e, sourceMapEntries).
     rbind (sections_after_code utf8 m e) (\<lambda>e. Inr (finish e, sourceMapEntries))))"

definition module_ctx :: "bool \<Rightarrow> wasm_module \<Rightarrow> emit_ctx" where
  "module_ctx skip m =
     \<lparr>valCtx = (if skip then None else Some (makeValidationCtx m)), layout = Some (resolveLayout m)\<rparr>"

definition emitBinaryWithSourceMap ::
    "bool \<Rightarrow> (string \<Rightarrow> byte list) \<Rightarrow> wasm_module \<Rightarrow> emit_error + (byte list \<times> source_map_entry list)" where
  "emitBinaryWithSourceMap skip utf8 m = emitBinaryWithSourceMapUnguarded (module_ctx skip m) utf8 m"

section \<open>Source map entries point at their instructions\<close>

lemma len_finish: "encoder_inv e \<Longrightarrow> length (finish e) = len e"
  by (simp add: encoder_inv_def finish_def)

lemma leb128_size_loop: "leb128_size_loop v = length (uleb v)"
  by (induction v rule: leb128_size_loop.induct) (subst leb128_size_loop.simps, subst uleb.simps, simp)

lemma leb128UnsignedSize_pos: "0 < leb128UnsignedSize n"
  unfolding leb128UnsignedSize_def by (subst leb128_size_loop.simps) simp

text \<open>The bytes \<open>bs\<close> stand at offset \<open>off\<close> of \<open>data\<close>.\<close>

definition starts_at :: "byte list \<Rightarrow> nat \<Rightarrow> byte list \<Rightarrow> bool" where
  "starts_at data off bs \<longleftrightarrow> off + length bs \<le> length data \<and> take (length bs) (drop off data) = bs"

lemma starts_at_iff: "starts_at data off bs \<longleftrightarrow> (\<exists>pre post. data = pre @ bs @ post \<and> length pre = off)"
proof
  assume a: "starts_at data off bs"
  then have "data = take off data @ bs @ drop (off + length bs) data"
    by (metis add.commute append_take_drop_id drop_drop starts_at_def)
  with a show "\<exists>pre post. data = pre @ bs @ post \<and> length pre = off"
    by (metis add_leD1 length_take min_absorb2 starts_at_def)
qed (auto simp: starts_at_def)

lemma starts_at_append: "starts_at data off bs \<Longrightarrow> starts_at (xs @ data @ ys) (length xs + off) bs"
  unfolding starts_at_iff by (metis append.assoc length_append)

type_synonym marked_instr = "emit_ctx \<times> wasm_instr \<times> source_pos"

definition marks_of :: "emit_ctx \<Rightarrow> (wasm_instr \<times> source_pos option) list \<Rightarrow> marked_instr list" where
  "marks_of ctx body = concat (map (\<lambda>(i, p). case p of None \<Rightarrow> [] | Some p \<Rightarrow> [(ctx, i, p)]) body)"

definition points_in :: "byte list \<Rightarrow> marked_instr \<Rightarrow> nat \<Rightarrow> source_pos \<Rightarrow> bool" where
  "points_in data = (\<lambda>(ctx, i, p) off pos.
     pos = p \<and> (\<exists>bs. bytes_of (encodeInstr ctx i) = Inr bs \<and> starts_at data off bs))"

lemma points_in_append: "points_in data k off pos \<Longrightarrow> points_in (xs @ data @ ys) k (length xs + off) pos"
  by (cases k) (auto simp: points_in_def intro: starts_at_append)

definition entries_point :: "byte list \<Rightarrow> marked_instr list \<Rightarrow> offset_entry list \<Rightarrow> bool" where
  "entries_point data = list_all2 (\<lambda>k entry. points_in data k (instrOffset entry) (entryPos entry))"

lemma entries_point_grow: "entries_point data ks es \<Longrightarrow> entries_point (data @ ys) ks es"
  unfolding entries_point_def using points_in_append [of data _ _ _ "[]" ys] by (auto elim: list_all2_mono)

lemma encodeInstrWithSourceMap_apply:
  "encodeInstrWithSourceMap ctx start (i, p) (e, entries) =
     rbind (encodeInstr ctx i e) (\<lambda>e'. Inr (e', entries @ (case p of None \<Rightarrow> []
       | Some q \<Rightarrow> [\<lparr>bodyOffset = start, instrOffset = len e, entryPos = q\<rparr>])))"
  by (cases p) (simp_all add: encodeInstrWithSourceMap_def)

lemma body_entries:
  assumes "each (encodeInstrWithSourceMap ctx start) body (e, entries) = Inr (e', entries')" and "encoder_inv e"
  shows "\<exists>bs es. encoder_inv e' \<and> finish e' = finish e @ bs \<and> entries' = entries @ es
    \<and> entries_point (finish e') (marks_of ctx body) es \<and> (\<forall>entry\<in>set es. bodyOffset entry = start)"
  using assms
proof (induction body arbitrary: e entries)
  case Nil
  then show ?case by (simp add: entries_point_def marks_of_def)
next
  case (Cons ip body)
  obtain i p where ip: "ip = (i, p)" by (cases ip)
  define new where "new = (case p of None \<Rightarrow> [] | Some q \<Rightarrow> [\<lparr>bodyOffset = start, instrOffset = len e, entryPos = q\<rparr>])"
  from Cons.prems(1) obtain e1 where e1: "encodeInstr ctx i e = Inr e1"
    and go: "each (encodeInstrWithSourceMap ctx start) body (e1, entries @ new) = Inr (e', entries')"
    by (auto simp: ip encodeInstrWithSourceMap_apply new_def rbind_Inr_iff)
  obtain bs where bs: "bytes_of (encodeInstr ctx i) = Inr bs" "encoder_inv e1" "finish e1 = finish e @ bs"
    using appendingE [OF appending_instr Cons.prems(2) e1] .
  obtain cs es where es: "encoder_inv e'" "finish e' = finish e1 @ cs" "entries' = (entries @ new) @ es"
    "entries_point (finish e') (marks_of ctx body) es" "\<forall>entry\<in>set es. bodyOffset entry = start"
    using Cons.IH [OF go bs(2)] by auto
  have "starts_at (finish e') (len e) bs"
    unfolding starts_at_iff by (rule exI [of _ "finish e"], rule exI [of _ cs]) (simp add: es(2) bs(3) len_finish Cons.prems(2))
  then have "entries_point (finish e') (marks_of ctx (ip # body)) (new @ es)"
    using es(4) bs(1) by (cases p) (auto simp: entries_point_def marks_of_def ip new_def points_in_def)
  moreover have "\<forall>entry\<in>set (new @ es). bodyOffset entry = start" using es(5) by (cases p) (auto simp: new_def)
  ultimately show ?case using es bs(3) by (intro exI [of _ "bs @ cs"] exI [of _ "new @ es"]) simp
qed

lemma on_encoder_Inr: "on_encoder w (e, entries) = Inr (e', entries') \<longleftrightarrow> w e = Inr e' \<and> entries' = entries"
  by (auto simp: on_encoder_def rbind_Inr_iff)

lemma put_u32_Inr:
  "put_u32 n e = Inr e' \<Longrightarrow> encoder_inv e \<Longrightarrow>
     0 \<le> n \<and> n < 2 ^ 32 \<and> encoder_inv e' \<and> finish e' = finish e @ uleb (word_of_int n)"
  using produces_u32 [of n] by (auto simp: produces_def split: if_splits)

lemma put_bytes_Inr: "put_bytes bs e = Inr e' \<Longrightarrow> encoder_inv e \<Longrightarrow> encoder_inv e' \<and> finish e' = finish e @ bs"
  by (auto simp: put_bytes_def enc_bytes_props)

lemma appending_locals [append_intros]: "appending (encode_locals ctx locals)"
  unfolding encode_locals_def
  by (rule append_intros) (auto intro!: app.sequence append_intros simp del: rseq_simps)

lemma function_entries:
  assumes "encodeFunctionWithSourceMap ctx (len e) f (e, entries) = Inr (e', entries')" and "encoder_inv e"
    and "entries_point (finish e) ks entries" and "\<forall>entry\<in>set entries. bodyOffset entry < len e"
  shows "encoder_inv e' \<and> entries_point (finish e') (ks @ marks_of ctx (fn_body f)) entries'
    \<and> (\<forall>entry\<in>set entries'. bodyOffset entry < len e')"
proof -
  obtain b1 b2 b3 new where b1: "encode_locals ctx (fn_locals f) new_encoder = Inr b1"
    and b2: "each (encodeInstrWithSourceMap ctx (len e)) (fn_body f) (b1, entries) = Inr (b2, new)"
    and b3: "put_opcode [0x0b] b2 = Inr b3"
    and e': "rseq [on_encoder (put_u32 (int (length (finish b3)))), on_encoder (put_bytes (finish b3))]
       (e, map (\<lambda>entry. if bodyOffset entry = len e
             then entry\<lparr>instrOffset := len e + leb128UnsignedSize (length (finish b3)) + instrOffset entry\<rparr> else entry) new)
       = Inr (e', entries')"
    using assms(1) by (auto simp: encodeFunctionWithSourceMap_def rbind_Inr_iff on_encoder_Inr Let_def)
  have i1: "encoder_inv b1" using appendingE [OF appending_locals new_encoder_inv b1] .
  obtain es where es: "encoder_inv b2" "new = entries @ es" "entries_point (finish b2) (marks_of ctx (fn_body f)) es"
    "\<forall>entry\<in>set es. bodyOffset entry = len e"
    using body_entries [OF b2 i1] by auto
  obtain ys where "finish b3 = finish b2 @ ys" using appendingE [OF appending_put_opcode es(1) b3] .
  then have pts: "entries_point (finish b3) (marks_of ctx (fn_body f)) es" using es(3) entries_point_grow by simp
  let ?n = "length (finish b3)"
  obtain e1 where e1: "put_u32 (int ?n) e = Inr e1" "put_bytes (finish b3) e1 = Inr e'"
    and en: "entries' = map (\<lambda>entry. if bodyOffset entry = len e
             then entry\<lparr>instrOffset := len e + leb128UnsignedSize ?n + instrOffset entry\<rparr> else entry) (entries @ es)"
    using e' es(2) by (auto simp: rbind_Inr_iff on_encoder_Inr)
  note u = put_u32_Inr [OF e1(1) assms(2)]
  have f': "encoder_inv e'" "finish e' = finish e @ uleb (word_of_int (int ?n)) @ finish b3"
    using put_bytes_Inr [OF e1(2)] u by simp_all
  have size: "leb128UnsignedSize ?n = length (uleb (word_of_int (int ?n)))"
    by (simp add: leb128UnsignedSize_def leb128_size_loop)
  let ?pre = "finish e @ uleb (word_of_int (int ?n))"
  have pre: "length ?pre = len e + leb128UnsignedSize ?n" using size len_finish [OF assms(2)] by simp
  have old: "map (\<lambda>entry. if bodyOffset entry = len e
      then entry\<lparr>instrOffset := len e + leb128UnsignedSize ?n + instrOffset entry\<rparr> else entry) entries = entries"
    by (rule map_idI) (use assms(4) in auto)
  have moved: "map (\<lambda>entry. if bodyOffset entry = len e
      then entry\<lparr>instrOffset := len e + leb128UnsignedSize ?n + instrOffset entry\<rparr> else entry) es
    = map (\<lambda>entry. entry\<lparr>instrOffset := length ?pre + instrOffset entry\<rparr>) es"
    by (rule map_cong) (use es(4) pre in auto)
  have "entries_point (?pre @ finish b3 @ []) (marks_of ctx (fn_body f))
      (map (\<lambda>entry. entry\<lparr>instrOffset := length ?pre + instrOffset entry\<rparr>) es)"
    using pts unfolding entries_point_def list_all2_map2
    by (rule list_all2_mono) (use points_in_append [of "finish b3" _ _ _ ?pre "[]"] in simp)
  moreover have "entries_point (finish e') ks entries" using entries_point_grow [OF assms(3)] f'(2) by simp
  ultimately have "entries_point (finish e') (ks @ marks_of ctx (fn_body f)) entries'"
    unfolding en map_append old moved using f'(2) by (simp add: entries_point_def list_all2_appendI)
  moreover have "len e < len e'"
    using len_finish [OF assms(2)] len_finish [OF f'(1)] f'(2) size leb128UnsignedSize_pos [of ?n] by (simp del: length_greater_0_conv)
  then have "\<forall>entry\<in>set entries'. bodyOffset entry < len e'"
    using assms(4) es(4) by (auto simp: en)
  ultimately show ?thesis using f'(1) by simp
qed

lemma functions_entries:
  assumes "each (\<lambda>f st. encodeFunctionWithSourceMap (function_ctx ctx f) (len (fst st)) f st) fs (e, entries)
      = Inr (e', entries')"
    and "encoder_inv e" and "entries_point (finish e) ks entries" and "\<forall>entry\<in>set entries. bodyOffset entry < len e"
  shows "encoder_inv e' \<and>
    entries_point (finish e') (ks @ concat (map (\<lambda>f. marks_of (function_ctx ctx f) (fn_body f)) fs)) entries'"
  using assms
proof (induction fs arbitrary: e entries ks)
  case (Cons f fs)
  then obtain e1 entries1 where 1: "encodeFunctionWithSourceMap (function_ctx ctx f) (len e) f (e, entries) = Inr (e1, entries1)"
    and 2: "each (\<lambda>f st. encodeFunctionWithSourceMap (function_ctx ctx f) (len (fst st)) f st) fs (e1, entries1)
      = Inr (e', entries')" by (auto simp: rbind_Inr_iff)
  from function_entries [OF 1 Cons.prems(2-4)] Cons.IH [OF 2, of "ks @ marks_of (function_ctx ctx f) (fn_body f)"]
  show ?case by simp
qed simp

lemma appending_storage [append_intros]: "appending (encodeStorageType ctx t)"
  by (auto simp: encodeStorageType_def append_intros simp del: encodeValType.simps split: val_type.split)

lemma appending_field [append_intros]: "appending (encodeFieldDef ctx f)"
  unfolding encodeFieldDef_def by (rule app.sequence) (simp add: append_intros)

lemma appending_type_def [append_intros]: "appending (encodeTypeDef ctx t)"
  by (induction ctx t rule: encodeTypeDef.induct)
    (auto intro!: app.sequence append_intros app.loop app.skip split: option.split simp del: rseq_simps)

lemma appending_name [append_intros]: "appending (put_name utf8 s)"
proof -
  have "put_name utf8 s = rseq [put_u32 (int (length (utf8 s))), put_bytes (utf8 s)]"
    by (auto simp: put_name_def enc_call_def enc_name_def put_u32_def put_bytes_def Let_def rbind_def fun_eq_iff split: sum.split)
  then show ?thesis by (simp add: app.sequence append_intros del: rseq_simps)
qed

lemma appending_limits [append_intros]: "appending (put_limits mn mx)"
  by (auto simp: put_limits_def intro!: app.sequence append_intros split: option.split simp del: rseq_simps)

lemma appending_table_type [append_intros]: "appending (put_table_type t mn mx)"
  unfolding put_table_type_def by (rule app.sequence) (simp add: append_intros)

lemma appending_section_if [append_intros]: "appending (section_if c sid content)"
  by (simp add: section_if_def append_intros app.skip)

lemma appending_check_canonical [append_intros]: "appending (check_canonical m gs)"
  by (auto simp: check_canonical_def append_intros app.skip split: option.split)

lemma appending_type_section [append_intros]: "appending (type_section ctx m)"
  unfolding type_section_def by (auto intro!: app.skip append_intros app.sequence simp del: rseq_simps)

lemma appending_before: "appending (sections_before_code ctx utf8 m)"
  unfolding sections_before_code_def element_section_def
  by (rule app.sequence) (auto simp: append_intros app.skip split: option.split)

lemma appending_after: "appending (sections_after_code utf8 m)"
  unfolding sections_after_code_def name_section_def by (rule app.sequence) (simp add: append_intros)

text \<open>The instructions of a module with a source position, in the order of the functions and their bodies.\<close>

definition module_marks :: "emit_ctx \<Rightarrow> wasm_module \<Rightarrow> marked_instr list" where
  "module_marks ctx m = concat (map (\<lambda>f. marks_of (function_ctx ctx f) (fn_body f)) (m_functions m))"

lemma emitted_entries:
  assumes "emitBinaryWithSourceMapUnguarded ctx utf8 m = Inr (binary, entries)"
  shows "list_all2 (\<lambda>k entry. points_in binary k (sme_wasmOffset entry) (sme_sourcePos entry)) (module_marks ctx m) entries"
proof (cases "m_functions m = []")
  case True
  with assms show ?thesis by (auto simp: emitBinaryWithSourceMapUnguarded_def module_marks_def rbind_Inr_iff)
next
  case False
  obtain e code rel e1 e2 e3 where e: "sections_before_code ctx utf8 m new_encoder = Inr e"
    and code: "code_content ctx (m_functions m) (new_encoder, []) = Inr (code, rel)"
    and e1: "rseq [put_byte 10, put_u32 (int (length (finish code)))] e = Inr e1"
    and e2: "put_bytes (finish code) e1 = Inr e2"
    and e3: "sections_after_code utf8 m e2 = Inr e3"
    and binary: "binary = finish e3"
    and entries: "entries = map (\<lambda>entry. \<lparr>sme_wasmOffset = len e1 + instrOffset entry, sme_sourcePos = entryPos entry\<rparr>) rel"
    using assms False by (auto simp: emitBinaryWithSourceMapUnguarded_def rbind_Inr_iff Let_def simp del: rseq_simps)
  obtain c1 where c1: "put_u32 (int (length (m_functions m))) new_encoder = Inr c1"
    and fs: "each (\<lambda>f st. encodeFunctionWithSourceMap (function_ctx ctx f) (len (fst st)) f st) (m_functions m) (c1, [])
      = Inr (code, rel)"
    using code by (auto simp: code_content_def rbind_Inr_iff on_encoder_Inr)
  have "encoder_inv c1" using put_u32_Inr [OF c1 new_encoder_inv] by simp
  then have rel: "entries_point (finish code) (module_marks ctx m) rel"
    using functions_entries [OF fs, of "[]"] by (simp add: module_marks_def entries_point_def)
  have i: "encoder_inv e" using appendingE [OF appending_before new_encoder_inv e] .
  have "appending (rseq [put_byte 10, put_u32 (int (length (finish code)))])" by (rule app.sequence) (simp add: append_intros)
  then have i1: "encoder_inv e1" using appendingE i e1 by metis
  note i2 = put_bytes_Inr [OF e2 i1]
  obtain ys where "finish e3 = finish e2 @ ys" using appendingE [OF appending_after conjunct1 [OF i2] e3] .
  with i2 binary have b: "binary = finish e1 @ finish code @ ys" by simp
  have "list_all2 (\<lambda>k entry. points_in binary k (length (finish e1) + instrOffset entry) (entryPos entry)) (module_marks ctx m) rel"
    using rel unfolding entries_point_def b by (rule list_all2_mono) (rule points_in_append)
  then show ?thesis by (simp add: entries list_all2_map2 len_finish [OF i1])
qed

text \<open>
  The entries of \<open>emitBinaryWithSourceMap\<close> are the instructions with a position at the top level of
  the function bodies, in order, and each entry's offset is where the bytes of its instruction start in the
  finished module.
\<close>

theorem sourcemap_entries_point:
  assumes "emitBinaryWithSourceMap skip utf8 m = Inr (binary, entries)"
  shows "list_all2 (\<lambda>k entry. points_in binary k (sme_wasmOffset entry) (sme_sourcePos entry))
    (module_marks (module_ctx skip m) m) entries"
  using emitted_entries [OF assms [unfolded emitBinaryWithSourceMap_def]] .

text \<open>Two functions; the call in the second one goes through a stable handle.\<close>

definition ascii :: "string \<Rightarrow> byte list" where
  "ascii s = map (\<lambda>c. of_nat (of_char c)) s"

definition at_line :: "int \<Rightarrow> source_pos option" where
  "at_line n = Some \<lparr>sp_file = ''a.ts'', sp_line = n, sp_column = 0\<rparr>"

definition marked_module :: wasm_module where
  "marked_module =
     \<lparr>m_types = [FuncType [] []], m_canonicalRecGroup = None, m_imports = [],
      m_functions = [
        \<lparr>fn_name = ''f'', fn_typeIdx = 0, fn_locals = [I32, I32], fn_body = [(ConstI32 7, at_line 1), (Op ''drop'', None)]\<rparr>,
        \<lparr>fn_name = ''g'', fn_typeIdx = 0, fn_locals = [], fn_body = [(CallOp ''call'' STABLE_FUNC_BASE, at_line 2)]\<rparr>],
      m_exports = [], m_tables = [], m_elements = [], m_globals = [], m_tags = [], m_declaredFuncRefs = [],
      m_funcOrdinalToPosition = [Some 0], m_memories = [], m_dataSegments = [], m_startFuncIdx = None\<rparr>"

text \<open>An encoder that has written \<open>bs\<close> into its first buffer.\<close>

definition written :: "byte list \<Rightarrow> wasm_encoder" where
  "written bs = \<lparr>buf = bs @ replicate (1024 - length bs) 0, len = length bs\<rparr>"

definition marked_head :: "byte list" where
  "marked_head = [0x00, 0x61, 0x73, 0x6d, 0x01, 0x00, 0x00, 0x00, 0x01, 0x04, 0x01, 0x60, 0x00, 0x00, 0x03, 0x03, 0x02, 0x00, 0x00]"

definition marked_code :: "byte list" where
  "marked_code = [0x02, 0x07, 0x01, 0x02, 0x7f, 0x41, 0x07, 0x1a, 0x0b, 0x04, 0x00, 0x10, 0x00, 0x0b]"

definition marked_names :: "byte list" where
  "marked_names = [0x00, 0x0e, 0x04, 0x6e, 0x61, 0x6d, 0x65, 0x01, 0x07, 0x02, 0x00, 0x01, 0x66, 0x01, 0x01, 0x67]"

definition marked_rel :: "offset_entry list" where
  "marked_rel = [\<lparr>bodyOffset = 1, instrOffset = 5, entryPos = \<lparr>sp_file = ''a.ts'', sp_line = 1, sp_column = 0\<rparr>\<rparr>,
     \<lparr>bodyOffset = 9, instrOffset = 11, entryPos = \<lparr>sp_file = ''a.ts'', sp_line = 2, sp_column = 0\<rparr>\<rparr>]"

lemma marked_steps:
  "sections_before_code (module_ctx False marked_module) ascii marked_module new_encoder = Inr (written marked_head)"
  "code_content (module_ctx False marked_module) (m_functions marked_module) (new_encoder, []) = Inr (written marked_code, marked_rel)"
  "finish (written marked_code) = marked_code"
  "rseq [put_byte 10, put_u32 (int (length marked_code))] (written marked_head) = Inr (written (marked_head @ [10, 14]))"
  "put_bytes marked_code (written (marked_head @ [10, 14])) = Inr (written (marked_head @ [10, 14] @ marked_code))"
  "sections_after_code ascii marked_module (written (marked_head @ [10, 14] @ marked_code))
     = Inr (written (marked_head @ [10, 14] @ marked_code @ marked_names))"
  "len (written (marked_head @ [10, 14])) = 21"
  "finish (written (marked_head @ [10, 14] @ marked_code @ marked_names)) = marked_head @ [10, 14] @ marked_code @ marked_names"
  by code_simp+

lemma marked_emits:
  "emitBinaryWithSourceMap False ascii marked_module = Inr (marked_head @ [10, 14] @ marked_code @ marked_names,
     [\<lparr>sme_wasmOffset = 26, sme_sourcePos = \<lparr>sp_file = ''a.ts'', sp_line = 1, sp_column = 0\<rparr>\<rparr>,
      \<lparr>sme_wasmOffset = 32, sme_sourcePos = \<lparr>sp_file = ''a.ts'', sp_line = 2, sp_column = 0\<rparr>\<rparr>])"
proof -
  have "m_functions marked_module \<noteq> []" by (simp add: marked_module_def)
  then show ?thesis
    unfolding emitBinaryWithSourceMap_def emitBinaryWithSourceMapUnguarded_def
    by (simp add: marked_steps(1-5,7) marked_steps(6,8) [simplified] Let_def marked_rel_def del: rseq_simps)
qed

theorem sourcemap_entries_point_witness:
  "\<exists>binary entries. emitBinaryWithSourceMap False ascii marked_module = Inr (binary, entries)
    \<and> map sme_wasmOffset entries = [26, 32] \<and> drop 26 (take 29 binary) = [0x41, 0x07, 0x1a]
    \<and> list_all2 (\<lambda>k entry. points_in binary k (sme_wasmOffset entry) (sme_sourcePos entry))
      (module_marks (module_ctx False marked_module) marked_module) entries"
  using sourcemap_entries_point [OF marked_emits] marked_emits
  by (simp add: marked_head_def marked_code_def marked_names_def)

end
