(* ===== verification/Reader.thy ===== *)
theory Reader
  imports Encoder "HOL-Library.AList"
begin

text \<open>
  The parser for relocatable object files of \<open>src/src/link/reader.ts\<close>: class \<open>ByteReader\<close> (a
  cursor over read-only data, every read checked), the section parsers and \<open>parseObject\<close>.
  Every exception of the source is a constructor of \<open>read_error\<close>. \<open>reads g bs v\<close> says that the
  reader \<open>g\<close> consumes exactly \<open>bs\<close> and returns \<open>v\<close>; the LEB128 readers are proved to read back
  the reference encodings of \<open>Encoder\<close>.
\<close>

section \<open>The parsed object\<close>

datatype read_error =
    UnexpectedEnd nat
  | NeedBytes nat nat
  | InvalidMagic
  | UnsupportedVersion
  | UnsupportedTypeForm byte
  | UnknownImportKind byte
  | UnsupportedLinkingVersion nat
  | UnknownSymbolKind byte

record type_entry =
  ty_params :: "byte list"
  ty_results :: "byte list"

record import_entry =
  imp_module :: string
  imp_name :: string
  imp_kind :: byte
  imp_typeIdx :: "nat option"
  imp_globalType :: "byte option"
  imp_globalMutable :: "bool option"
  imp_tableElementType :: "byte option"
  imp_tableMin :: "nat option"
  imp_tableMax :: "nat option"
  imp_memoryMin :: "nat option"
  imp_memoryMax :: "nat option"

record table_entry =
  tab_elementType :: byte
  tab_min :: nat
  tab_max :: "nat option"

record memory_entry =
  mem_min :: nat
  mem_max :: "nat option"

record global_entry =
  glob_type :: byte
  glob_mutable :: bool
  glob_init :: "byte list"

record export_entry =
  exp_name :: string
  exp_kind :: byte
  exp_index :: nat

record element_entry =
  el_flags :: nat
  el_tableIdx :: nat
  el_offsetExpr :: "byte list option"
  el_funcIndices :: "nat list"
  el_elemCount :: nat
  el_kindByte :: "byte option"
  el_elemExprs :: "byte list option"

record tag_entry =
  tag_attribute :: byte
  tag_typeIdx :: nat

record code_entry =
  code_locals :: "(nat \<times> byte) list"
  code_body :: "byte list"

record symbol_info =
  sym_kind :: byte
  sym_name :: string
  sym_index :: nat
  sym_flags :: nat

record reloc_entry =
  rel_type :: byte
  rel_offset :: nat
  rel_symbolIndex :: nat
  rel_addend :: "int option"

record parsed_object =
  obj_name :: string
  obj_types :: "type_entry list"
  obj_imports :: "import_entry list"
  obj_functions :: "nat list"
  obj_tables :: "table_entry list"
  obj_memories :: "memory_entry list"
  obj_globals :: "global_entry list"
  obj_exports :: "export_entry list"
  obj_elements :: "element_entry list"
  obj_tags :: "tag_entry list"
  obj_code :: "code_entry list"
  obj_symbols :: "symbol_info list"
  obj_relocations :: "(string \<times> reloc_entry list) list"

definition empty_object :: "string \<Rightarrow> parsed_object" where
  "empty_object nm = \<lparr>obj_name = nm, obj_types = [], obj_imports = [], obj_functions = [],
     obj_tables = [], obj_memories = [], obj_globals = [], obj_exports = [], obj_elements = [],
     obj_tags = [], obj_code = [], obj_symbols = [], obj_relocations = []\<rparr>"

section \<open>Symbol flags, symbol kinds and relocation types\<close>

definition SYMBOL_BINDING_WEAK :: nat where "SYMBOL_BINDING_WEAK = 0x01"
definition SYMBOL_BINDING_LOCAL :: nat where "SYMBOL_BINDING_LOCAL = 0x02"
definition SYMBOL_UNDEFINED :: nat where "SYMBOL_UNDEFINED = 0x10"
definition SYMBOL_EXPORTED :: nat where "SYMBOL_EXPORTED = 0x20"
definition SYMBOL_EXPLICIT_NAME :: nat where "SYMBOL_EXPLICIT_NAME = 0x40"

definition SYMTAB_FUNCTION :: byte where "SYMTAB_FUNCTION = 0"
definition SYMTAB_DATA :: byte where "SYMTAB_DATA = 1"
definition SYMTAB_GLOBAL :: byte where "SYMTAB_GLOBAL = 2"
definition SYMTAB_SECTION :: byte where "SYMTAB_SECTION = 3"
definition SYMTAB_EVENT :: byte where "SYMTAB_EVENT = 4"
definition SYMTAB_TABLE :: byte where "SYMTAB_TABLE = 5"

definition R_WASM_TABLE_INDEX_SLEB :: byte where "R_WASM_TABLE_INDEX_SLEB = 1"
definition R_WASM_TABLE_INDEX_I32 :: byte where "R_WASM_TABLE_INDEX_I32 = 2"
definition R_WASM_TABLE_INDEX_LEB :: byte where "R_WASM_TABLE_INDEX_LEB = 15"
definition R_WASM_TABLE_NUMBER_LEB :: byte where "R_WASM_TABLE_NUMBER_LEB = 20"

definition RELOC_HAS_ADDEND :: "byte list" where
  "RELOC_HAS_ADDEND = [3, 4, 5, 8, 9]"

lemmas symbol_consts = SYMBOL_BINDING_WEAK_def SYMBOL_BINDING_LOCAL_def SYMBOL_UNDEFINED_def
  SYMBOL_EXPORTED_def SYMBOL_EXPLICIT_NAME_def SYMTAB_FUNCTION_def SYMTAB_DATA_def
  SYMTAB_GLOBAL_def SYMTAB_SECTION_def SYMTAB_EVENT_def SYMTAB_TABLE_def

section \<open>The cursor\<close>

record byte_reader =
  data :: "byte list"
  pos :: nat

definition remaining :: "byte_reader \<Rightarrow> nat" where
  "remaining r = length (data r) - pos r"

definition rd_byte :: "byte_reader \<Rightarrow> read_error + (byte \<times> byte_reader)" where
  "rd_byte r =
     (if pos r \<ge> length (data r) then Inl (UnexpectedEnd (pos r))
      else Inr (data r ! pos r, r\<lparr>pos := pos r + 1\<rparr>))"

definition rd_bytes :: "nat \<Rightarrow> byte_reader \<Rightarrow> read_error + (byte list \<times> byte_reader)" where
  "rd_bytes n r =
     (if pos r + n > length (data r) then Inl (NeedBytes n (pos r))
      else Inr (take n (drop (pos r) (data r)), r\<lparr>pos := pos r + n\<rparr>))"

lemma rd_byte_Inr:
  "rd_byte r = Inr (b, r') \<longleftrightarrow> pos r < length (data r) \<and> b = data r ! pos r \<and> r' = r\<lparr>pos := pos r + 1\<rparr>"
  by (auto simp: rd_byte_def)

text \<open>
  The \<open>do \<dots> while (b & 0x80)\<close> loop shared by \<open>u32\<close> and \<open>i32\<close>; JavaScript's \<open><<\<close> takes its shift
  count modulo 32. The loop ends because every round consumes a byte or throws.
\<close>

function leb_loop :: "u32 \<Rightarrow> nat \<Rightarrow> byte_reader \<Rightarrow> read_error + ((u32 \<times> nat \<times> byte) \<times> byte_reader)" where
  "leb_loop result shift r =
     rbind (rd_byte r) (\<lambda>(b, r').
       let result' = result OR push_bit (shift mod 32) (ucast (b AND 0x7f));
           shift' = shift + 7
       in if b AND 0x80 \<noteq> 0 then leb_loop result' shift' r' else Inr ((result', shift', b), r'))"
  by pat_completeness auto
termination
  by (relation "measure (\<lambda>(res, shift, r). remaining r)") (auto simp: rd_byte_Inr remaining_def)

declare leb_loop.simps [simp del]

definition rd_u32 :: "byte_reader \<Rightarrow> read_error + (nat \<times> byte_reader)" where
  "rd_u32 r = rbind (leb_loop 0 0 r) (\<lambda>((result, shift, b), r'). Inr (unat result, r'))"

definition rd_i32 :: "byte_reader \<Rightarrow> read_error + (int \<times> byte_reader)" where
  "rd_i32 r = rbind (leb_loop 0 0 r) (\<lambda>((result, shift, b), r').
     Inr (sint (if shift < 32 \<and> b AND 0x40 \<noteq> 0 then result OR (- push_bit shift 1) else result), r'))"

text \<open>\<open>TextDecoder.decode\<close> is a host service: the parameter \<open>dec\<close>.\<close>

definition rd_name :: "(byte list \<Rightarrow> string) \<Rightarrow> byte_reader \<Rightarrow> read_error + (string \<times> byte_reader)" where
  "rd_name dec r = rbind (rd_u32 r) (\<lambda>(n, r). rbind (rd_bytes n r) (\<lambda>(bs, r). Inr (dec bs, r)))"

text \<open>The loops \<open>while (r.byte() !== 0x0b)\<close> that scan a constant expression to its \<open>end\<close>.\<close>

function rd_scan_end :: "byte_reader \<Rightarrow> read_error + byte_reader" where
  "rd_scan_end r = rbind (rd_byte r) (\<lambda>(b, r'). if b \<noteq> 0x0b then rd_scan_end r' else Inr r')"
  by pat_completeness auto
termination
  by (relation "measure remaining") (auto simp: rd_byte_Inr remaining_def)

declare rd_scan_end.simps [simp del]

text \<open>\<open>data.slice(from, to)\<close>: empty when \<open>to\<close> is before \<open>from\<close>, clamped at the end of the data.\<close>

definition slice :: "nat \<Rightarrow> nat \<Rightarrow> byte list \<Rightarrow> byte list" where
  "slice from to bs = take (to - from) (drop from bs)"

definition rd_expr :: "byte_reader \<Rightarrow> read_error + (byte list \<times> byte_reader)" where
  "rd_expr r = rbind (rd_scan_end r) (\<lambda>r'. Inr (slice (pos r) (pos r') (data r'), r'))"

section \<open>Section parsers\<close>

definition parse_type :: "byte_reader \<Rightarrow> read_error + (type_entry \<times> byte_reader)" where
  "parse_type r =
     rbind (rd_byte r) (\<lambda>(form, r).
       if form \<noteq> 0x60 then Inl (UnsupportedTypeForm form)
       else rbind (rd_u32 r) (\<lambda>(paramCount, r).
         rbind (rtimes paramCount rd_byte r) (\<lambda>(params, r).
         rbind (rd_u32 r) (\<lambda>(resultCount, r).
         rbind (rtimes resultCount rd_byte r) (\<lambda>(results, r).
         Inr (\<lparr>ty_params = params, ty_results = results\<rparr>, r))))))"

definition rd_vec :: "(byte_reader \<Rightarrow> read_error + ('a \<times> byte_reader)) \<Rightarrow> byte_reader
    \<Rightarrow> read_error + ('a list \<times> byte_reader)" where
  "rd_vec item r = rbind (rd_u32 r) (\<lambda>(count, r). rtimes count item r)"

definition parseTypeSection :: "parsed_object \<Rightarrow> byte_reader \<Rightarrow> read_error + (parsed_object \<times> byte_reader)" where
  "parseTypeSection obj r =
     rbind (rd_vec parse_type r) (\<lambda>(ts, r). Inr (obj\<lparr>obj_types := obj_types obj @ ts\<rparr>, r))"

text \<open>The limits of a table or memory: a flag byte, the minimum and, when the flag is set, the maximum.\<close>

definition rd_limits :: "byte_reader \<Rightarrow> read_error + ((nat \<times> nat option) \<times> byte_reader)" where
  "rd_limits r =
     rbind (rd_byte r) (\<lambda>(hasMax, r).
     rbind (rd_u32 r) (\<lambda>(mn, r).
       if hasMax \<noteq> 0 then rbind (rd_u32 r) (\<lambda>(mx, r). Inr ((mn, Some mx), r))
       else Inr ((mn, None), r)))"

definition parse_import ::
    "(byte list \<Rightarrow> string) \<Rightarrow> byte_reader \<Rightarrow> read_error + (import_entry \<times> byte_reader)" where
  "parse_import dec r =
     rbind (rd_name dec r) (\<lambda>(module, r).
     rbind (rd_name dec r) (\<lambda>(nm, r).
     rbind (rd_byte r) (\<lambda>(kind, r).
       let entry = \<lparr>imp_module = module, imp_name = nm, imp_kind = kind, imp_typeIdx = None,
             imp_globalType = None, imp_globalMutable = None, imp_tableElementType = None,
             imp_tableMin = None, imp_tableMax = None, imp_memoryMin = None, imp_memoryMax = None\<rparr>
       in if kind = 0 then rbind (rd_u32 r) (\<lambda>(t, r). Inr (entry\<lparr>imp_typeIdx := Some t\<rparr>, r))
          else if kind = 1 then
            rbind (rd_byte r) (\<lambda>(et, r). rbind (rd_limits r) (\<lambda>((mn, mx), r).
              Inr (entry\<lparr>imp_tableElementType := Some et, imp_tableMin := Some mn, imp_tableMax := mx\<rparr>, r)))
          else if kind = 2 then
            rbind (rd_limits r) (\<lambda>((mn, mx), r).
              Inr (entry\<lparr>imp_memoryMin := Some mn, imp_memoryMax := mx\<rparr>, r))
          else if kind = 3 then
            rbind (rd_byte r) (\<lambda>(gt, r). rbind (rd_byte r) (\<lambda>(mu, r).
              Inr (entry\<lparr>imp_globalType := Some gt, imp_globalMutable := Some (mu \<noteq> 0)\<rparr>, r)))
          else if kind = 4 then
            rbind (rd_byte r) (\<lambda>(_, r). rbind (rd_u32 r) (\<lambda>(t, r).
              Inr (entry\<lparr>imp_typeIdx := Some t\<rparr>, r)))
          else Inl (UnknownImportKind kind))))"

definition parseImportSection ::
    "(byte list \<Rightarrow> string) \<Rightarrow> parsed_object \<Rightarrow> byte_reader \<Rightarrow> read_error + (parsed_object \<times> byte_reader)" where
  "parseImportSection dec obj r =
     rbind (rd_vec (parse_import dec) r) (\<lambda>(es, r). Inr (obj\<lparr>obj_imports := obj_imports obj @ es\<rparr>, r))"

definition parseFunctionSection :: "parsed_object \<Rightarrow> byte_reader \<Rightarrow> read_error + (parsed_object \<times> byte_reader)" where
  "parseFunctionSection obj r =
     rbind (rd_vec rd_u32 r) (\<lambda>(fs, r). Inr (obj\<lparr>obj_functions := obj_functions obj @ fs\<rparr>, r))"

definition parse_table :: "byte_reader \<Rightarrow> read_error + (table_entry \<times> byte_reader)" where
  "parse_table r =
     rbind (rd_byte r) (\<lambda>(et, r). rbind (rd_limits r) (\<lambda>((mn, mx), r).
       Inr (\<lparr>tab_elementType = et, tab_min = mn, tab_max = mx\<rparr>, r)))"

definition parseTableSection :: "parsed_object \<Rightarrow> byte_reader \<Rightarrow> read_error + (parsed_object \<times> byte_reader)" where
  "parseTableSection obj r =
     rbind (rd_vec parse_table r) (\<lambda>(ts, r). Inr (obj\<lparr>obj_tables := obj_tables obj @ ts\<rparr>, r))"

definition parse_memory :: "byte_reader \<Rightarrow> read_error + (memory_entry \<times> byte_reader)" where
  "parse_memory r = rbind (rd_limits r) (\<lambda>((mn, mx), r). Inr (\<lparr>mem_min = mn, mem_max = mx\<rparr>, r))"

definition parseMemorySection :: "parsed_object \<Rightarrow> byte_reader \<Rightarrow> read_error + (parsed_object \<times> byte_reader)" where
  "parseMemorySection obj r =
     rbind (rd_vec parse_memory r) (\<lambda>(ms, r). Inr (obj\<lparr>obj_memories := obj_memories obj @ ms\<rparr>, r))"

definition parse_global :: "byte_reader \<Rightarrow> read_error + (global_entry \<times> byte_reader)" where
  "parse_global r =
     rbind (rd_byte r) (\<lambda>(ty, r). rbind (rd_byte r) (\<lambda>(mu, r). rbind (rd_expr r) (\<lambda>(init, r).
       Inr (\<lparr>glob_type = ty, glob_mutable = (mu \<noteq> 0), glob_init = init\<rparr>, r))))"

definition parseGlobalSection :: "parsed_object \<Rightarrow> byte_reader \<Rightarrow> read_error + (parsed_object \<times> byte_reader)" where
  "parseGlobalSection obj r =
     rbind (rd_vec parse_global r) (\<lambda>(gs, r). Inr (obj\<lparr>obj_globals := obj_globals obj @ gs\<rparr>, r))"

definition parse_export ::
    "(byte list \<Rightarrow> string) \<Rightarrow> byte_reader \<Rightarrow> read_error + (export_entry \<times> byte_reader)" where
  "parse_export dec r =
     rbind (rd_name dec r) (\<lambda>(nm, r). rbind (rd_byte r) (\<lambda>(kind, r). rbind (rd_u32 r) (\<lambda>(idx, r).
       Inr (\<lparr>exp_name = nm, exp_kind = kind, exp_index = idx\<rparr>, r))))"

definition parseExportSection ::
    "(byte list \<Rightarrow> string) \<Rightarrow> parsed_object \<Rightarrow> byte_reader \<Rightarrow> read_error + (parsed_object \<times> byte_reader)" where
  "parseExportSection dec obj r =
     rbind (rd_vec (parse_export dec) r) (\<lambda>(es, r). Inr (obj\<lparr>obj_exports := obj_exports obj @ es\<rparr>, r))"

text \<open>The three bits of an element segment's flags, as both the reader and the linker test them.\<close>

definition el_has_explicit_table :: "nat \<Rightarrow> bool" where
  "el_has_explicit_table flags \<longleftrightarrow> flags AND 0x02 \<noteq> 0 \<and> flags AND 0x01 = 0"

definition el_is_active :: "nat \<Rightarrow> bool" where
  "el_is_active flags \<longleftrightarrow> flags AND 0x01 = 0"

definition el_uses_exprs :: "nat \<Rightarrow> bool" where
  "el_uses_exprs flags \<longleftrightarrow> flags AND 0x04 \<noteq> 0"

definition el_has_kind_byte :: "nat \<Rightarrow> bool" where
  "el_has_kind_byte flags \<longleftrightarrow> flags \<noteq> 0 \<and> flags \<noteq> 4"

definition parse_element :: "byte_reader \<Rightarrow> read_error + (element_entry \<times> byte_reader)" where
  "parse_element r =
     rbind (rd_u32 r) (\<lambda>(flags, r).
     rbind (if el_has_explicit_table flags then rd_u32 r else Inr (0, r)) (\<lambda>(tableIdx, r).
     rbind (if el_is_active flags then rbind (rd_expr r) (\<lambda>(e, r). Inr (Some e, r)) else Inr (None, r))
       (\<lambda>(offsetExpr, r).
     rbind (if el_has_kind_byte flags then rbind (rd_byte r) (\<lambda>(k, r). Inr (Some k, r)) else Inr (None, r))
       (\<lambda>(kindByte, r).
     rbind (rd_u32 r) (\<lambda>(elemCount, r).
     rbind (if el_uses_exprs flags
            then rbind (rtimes elemCount rd_expr r) (\<lambda>(_, r'). Inr (([], Some (slice (pos r) (pos r') (data r'))), r'))
            else rbind (rtimes elemCount rd_u32 r) (\<lambda>(fs, r). Inr ((fs, None), r)))
       (\<lambda>((funcIndices, elemExprs), r).
     Inr (\<lparr>el_flags = flags, el_tableIdx = tableIdx, el_offsetExpr = offsetExpr,
            el_funcIndices = funcIndices, el_elemCount = elemCount, el_kindByte = kindByte,
            el_elemExprs = elemExprs\<rparr>, r)))))))"

definition parseElementSection :: "parsed_object \<Rightarrow> byte_reader \<Rightarrow> read_error + (parsed_object \<times> byte_reader)" where
  "parseElementSection obj r =
     rbind (rd_vec parse_element r) (\<lambda>(es, r). Inr (obj\<lparr>obj_elements := obj_elements obj @ es\<rparr>, r))"

definition parseElementSegmentsForTest :: "byte list \<Rightarrow> read_error + (element_entry list \<times> nat)" where
  "parseElementSegmentsForTest bs =
     rbind (parseElementSection (empty_object []) \<lparr>data = bs, pos = 0\<rparr>)
       (\<lambda>(obj, r). Inr (obj_elements obj, pos r))"

definition parse_code :: "byte_reader \<Rightarrow> read_error + (code_entry \<times> byte_reader)" where
  "parse_code r =
     rbind (rd_u32 r) (\<lambda>(bodySize, r).
       let bodyEnd = pos r + bodySize in
       rbind (rd_vec (\<lambda>r. rbind (rd_u32 r) (\<lambda>(lcount, r). rbind (rd_byte r) (\<lambda>(ltype, r).
                 Inr ((lcount, ltype), r)))) r) (\<lambda>(locals, r).
       Inr (\<lparr>code_locals = locals, code_body = slice (pos r) bodyEnd (data r)\<rparr>, r\<lparr>pos := bodyEnd\<rparr>)))"

definition parseCodeSection :: "parsed_object \<Rightarrow> byte_reader \<Rightarrow> read_error + (parsed_object \<times> byte_reader)" where
  "parseCodeSection obj r =
     rbind (rd_vec parse_code r) (\<lambda>(cs, r). Inr (obj\<lparr>obj_code := obj_code obj @ cs\<rparr>, r))"

definition parse_tag :: "byte_reader \<Rightarrow> read_error + (tag_entry \<times> byte_reader)" where
  "parse_tag r =
     rbind (rd_byte r) (\<lambda>(a, r). rbind (rd_u32 r) (\<lambda>(t, r).
       Inr (\<lparr>tag_attribute = a, tag_typeIdx = t\<rparr>, r)))"

definition parseTagSection :: "parsed_object \<Rightarrow> byte_reader \<Rightarrow> read_error + (parsed_object \<times> byte_reader)" where
  "parseTagSection obj r =
     rbind (rd_vec parse_tag r) (\<lambda>(ts, r). Inr (obj\<lparr>obj_tags := obj_tags obj @ ts\<rparr>, r))"

section \<open>Custom sections: linking and relocations\<close>

definition parse_symbol ::
    "(byte list \<Rightarrow> string) \<Rightarrow> byte_reader \<Rightarrow> read_error + (symbol_info \<times> byte_reader)" where
  "parse_symbol dec r =
     rbind (rd_byte r) (\<lambda>(kind, r). rbind (rd_u32 r) (\<lambda>(flags, r).
       let mk = (\<lambda>nm idx. \<lparr>sym_kind = kind, sym_name = nm, sym_index = idx, sym_flags = flags\<rparr>) in
       if kind = SYMTAB_FUNCTION \<or> kind = SYMTAB_GLOBAL \<or> kind = SYMTAB_EVENT \<or> kind = SYMTAB_TABLE then
         rbind (rd_u32 r) (\<lambda>(idx, r).
           if flags AND SYMBOL_UNDEFINED = 0 \<or> flags AND SYMBOL_EXPLICIT_NAME \<noteq> 0
           then rbind (rd_name dec r) (\<lambda>(nm, r). Inr (mk nm idx, r))
           else Inr (mk [] idx, r))
       else if kind = SYMTAB_DATA then
         rbind (rd_name dec r) (\<lambda>(nm, r).
           if flags AND SYMBOL_UNDEFINED = 0
           then rbind (rd_u32 r) (\<lambda>(idx, r). rbind (rd_u32 r) (\<lambda>(_, r). rbind (rd_u32 r) (\<lambda>(_, r).
                  Inr (mk nm idx, r))))
           else Inr (mk nm 0, r))
       else if kind = SYMTAB_SECTION then rbind (rd_u32 r) (\<lambda>(idx, r). Inr (mk [] idx, r))
       else Inl (UnknownSymbolKind kind)))"

definition parseSymbolTable ::
    "(byte list \<Rightarrow> string) \<Rightarrow> parsed_object \<Rightarrow> byte_reader \<Rightarrow> read_error + (parsed_object \<times> byte_reader)" where
  "parseSymbolTable dec obj r =
     rbind (rd_vec (parse_symbol dec) r) (\<lambda>(ss, r). Inr (obj\<lparr>obj_symbols := obj_symbols obj @ ss\<rparr>, r))"

subsection \<open>Reads never move the cursor back or change the data\<close>

definition advances :: "(byte_reader \<Rightarrow> 'err + ('a \<times> byte_reader)) \<Rightarrow> bool" where
  "advances g \<longleftrightarrow> (\<forall>r x r'. g r = Inr (x, r') \<longrightarrow> data r' = data r \<and> pos r \<le> pos r')"

lemma advancesI:
  "(\<And>r x r'. g r = Inr (x, r') \<Longrightarrow> data r' = data r \<and> pos r \<le> pos r') \<Longrightarrow> advances g"
  by (simp add: advances_def)

lemma advancesD: "advances g \<Longrightarrow> g r = Inr (x, r') \<Longrightarrow> data r' = data r \<and> pos r \<le> pos r'"
  by (auto simp: advances_def)

lemma advances_Inr [reader_simps]: "advances (\<lambda>r. Inr (f r, r))"
  and advances_Inl [reader_simps]: "advances (\<lambda>r. Inl (h r))"
  by (simp_all add: advances_def)

lemma advances_bind [reader_simps]:
  assumes "advances g" and "\<And>x. advances (\<lambda>r. f (x, r))"
  shows "advances (\<lambda>r. rbind (g r) f)"
proof (rule advancesI)
  fix r y r'
  assume "rbind (g r) f = Inr (y, r')"
  then obtain x r1 where g: "g r = Inr (x, r1)" and f: "f (x, r1) = Inr (y, r')"
    by (auto simp: rbind_Inr_iff)
  from advancesD [OF assms(1) g] advancesD [OF assms(2) f]
  show "data r' = data r \<and> pos r \<le> pos r'" by auto
qed

lemma advances_if [reader_simps]:
  "advances g \<Longrightarrow> advances h \<Longrightarrow> advances (\<lambda>r. if c then g r else h r)"
  by (cases c) simp_all

lemma advances_rtimes [reader_simps]:
  assumes "advances g"
  shows "advances (rtimes n g)"
proof (rule advancesI)
  fix r xs r'
  assume "rtimes n g r = Inr (xs, r')"
  then show "data r' = data r \<and> pos r \<le> pos r'"
  proof (induction n arbitrary: r xs)
    case (Suc n)
    from Suc.prems obtain x r1 xs' where g: "g r = Inr (x, r1)" and t: "rtimes n g r1 = Inr (xs', r')"
      by (auto simp: rbind_Inr_iff)
    from advancesD [OF assms g] Suc.IH [OF t] show ?case by auto
  qed simp
qed

lemma advances_rd_byte [reader_simps]: "advances rd_byte"
  by (auto simp: advances_def rd_byte_Inr)

lemma advances_rd_bytes [reader_simps]: "advances (rd_bytes n)"
  by (auto simp: advances_def rd_bytes_def split: if_splits)

lemma leb_loop_advances:
  "leb_loop res shift r = Inr (x, r') \<Longrightarrow> data r' = data r \<and> pos r < pos r'"
proof (induction res shift r rule: leb_loop.induct)
  case (1 res shift r)
  from "1.prems" obtain b r1 where b: "rd_byte r = Inr (b, r1)"
    by (subst (asm) leb_loop.simps) (auto simp: rbind_Inr_iff)
  note r1 = b [unfolded rd_byte_Inr]
  show ?case
  proof (cases "b AND 0x80 = 0")
    case True
    with "1.prems" b r1 show ?thesis by (subst (asm) leb_loop.simps) auto
  next
    case False
    with "1.prems" b
    have "leb_loop (res OR push_bit (shift mod 32) (ucast (b AND 0x7f))) (shift + 7) r1 = Inr (x, r')"
      by (subst (asm) leb_loop.simps) (simp add: Let_def)
    from "1.IH" [OF b refl refl refl False this] r1 show ?thesis by auto
  qed
qed

lemma rd_u32_advances: "rd_u32 r = Inr (x, r') \<Longrightarrow> data r' = data r \<and> pos r < pos r'"
  by (auto simp: rd_u32_def rbind_Inr_iff dest: leb_loop_advances)

lemma advances_rd_u32 [reader_simps]: "advances rd_u32"
  by (auto intro!: advancesI dest: rd_u32_advances)

lemma advances_rd_name [reader_simps]: "advances (rd_name dec)"
  unfolding rd_name_def by (auto intro!: reader_simps)

lemma advances_parse_symbol [reader_simps]: "advances (parse_symbol dec)"
  unfolding parse_symbol_def Let_def
  by (auto intro!: reader_simps)

lemma advances_parseSymbolTable: "advances (parseSymbolTable dec obj)"
proof (rule advancesI)
  fix r x r'
  assume "parseSymbolTable dec obj r = Inr (x, r')"
  then obtain ss where "rd_vec (parse_symbol dec) r = Inr (ss, r')"
    by (auto simp: parseSymbolTable_def rbind_Inr_iff)
  moreover have "advances (rd_vec (parse_symbol dec))"
    unfolding rd_vec_def by (auto intro!: reader_simps)
  ultimately show "data r' = data r \<and> pos r \<le> pos r'" by (blast dest: advancesD)
qed

subsection \<open>The linking section, relocations and the section loop\<close>

function linking_loop ::
    "(byte list \<Rightarrow> string) \<Rightarrow> nat \<Rightarrow> parsed_object \<Rightarrow> byte_reader \<Rightarrow> read_error + (parsed_object \<times> byte_reader)" where
  "linking_loop dec fin obj r =
     (if pos r < fin then
        rbind (rd_byte r) (\<lambda>(subsectionType, r1).
        rbind (rd_u32 r1) (\<lambda>(subsectionSize, r2).
          let subsectionEnd = pos r2 + subsectionSize in
          if subsectionType = 8 then
            rbind (parseSymbolTable dec obj r2) (\<lambda>(obj', r3). linking_loop dec fin obj' r3)
          else linking_loop dec fin obj (r2\<lparr>pos := subsectionEnd\<rparr>)))
      else Inr (obj, r))"
  by pat_completeness auto
termination
  by (relation "measure (\<lambda>(dec, fin, obj, r). remaining r)")
    (auto simp: rd_byte_Inr remaining_def dest!: rd_u32_advances advancesD [OF advances_parseSymbolTable])

declare linking_loop.simps [simp del]

definition parseLinkingSection ::
    "(byte list \<Rightarrow> string) \<Rightarrow> nat \<Rightarrow> parsed_object \<Rightarrow> byte_reader \<Rightarrow> read_error + (parsed_object \<times> byte_reader)" where
  "parseLinkingSection dec fin obj r =
     rbind (rd_u32 r) (\<lambda>(version, r).
       if version \<noteq> 2 then Inl (UnsupportedLinkingVersion version) else linking_loop dec fin obj r)"

definition parse_reloc :: "byte_reader \<Rightarrow> read_error + (reloc_entry \<times> byte_reader)" where
  "parse_reloc r =
     rbind (rd_byte r) (\<lambda>(ty, r). rbind (rd_u32 r) (\<lambda>(off, r). rbind (rd_u32 r) (\<lambda>(symIdx, r).
     rbind (if ty \<in> set RELOC_HAS_ADDEND then rbind (rd_i32 r) (\<lambda>(a, r). Inr (Some a, r)) else Inr (None, r))
       (\<lambda>(addend, r).
     Inr (\<lparr>rel_type = ty, rel_offset = off, rel_symbolIndex = symIdx, rel_addend = addend\<rparr>, r)))))"

text \<open>\<open>Map.set\<close> keeps the position of a key that is already present, as \<open>AList.update\<close> does.\<close>

definition parseRelocSection ::
    "string \<Rightarrow> parsed_object \<Rightarrow> byte_reader \<Rightarrow> read_error + (parsed_object \<times> byte_reader)" where
  "parseRelocSection sectionName obj r =
     rbind (rd_u32 r) (\<lambda>(_, r). rbind (rd_vec parse_reloc r) (\<lambda>(entries, r).
       Inr (obj\<lparr>obj_relocations := AList.update sectionName entries (obj_relocations obj)\<rparr>, r)))"

definition parseCustomSection ::
    "(byte list \<Rightarrow> string) \<Rightarrow> nat \<Rightarrow> parsed_object \<Rightarrow> byte_reader \<Rightarrow> read_error + (parsed_object \<times> byte_reader)" where
  "parseCustomSection dec fin obj r =
     rbind (rd_name dec r) (\<lambda>(sectionName, r).
       if sectionName = ''linking'' then parseLinkingSection dec fin obj r
       else if take 6 sectionName = ''reloc.'' then parseRelocSection sectionName obj r
       else Inr (obj, r\<lparr>pos := fin\<rparr>))"

definition parse_section ::
    "(byte list \<Rightarrow> string) \<Rightarrow> byte \<Rightarrow> nat \<Rightarrow> parsed_object \<Rightarrow> byte_reader
      \<Rightarrow> read_error + (parsed_object \<times> byte_reader)" where
  "parse_section dec sectionId sectionEnd obj r =
     (if sectionId = 0 then parseCustomSection dec sectionEnd obj r
      else if sectionId = 1 then parseTypeSection obj r
      else if sectionId = 2 then parseImportSection dec obj r
      else if sectionId = 3 then parseFunctionSection obj r
      else if sectionId = 4 then parseTableSection obj r
      else if sectionId = 5 then parseMemorySection obj r
      else if sectionId = 6 then parseGlobalSection obj r
      else if sectionId = 7 then parseExportSection dec obj r
      else if sectionId = 9 then parseElementSection obj r
      else if sectionId = 10 then parseCodeSection obj r
      else if sectionId = 13 then parseTagSection obj r
      else Inr (obj, r\<lparr>pos := sectionEnd\<rparr>))"

text \<open>
  The section loop. After each section the cursor is set to \<open>sectionEnd\<close>, whatever the section
  parser left; the data is read-only, so the reader that goes on is the one before the section
  with its cursor moved.
\<close>

function section_loop ::
    "(byte list \<Rightarrow> string) \<Rightarrow> parsed_object \<Rightarrow> byte_reader \<Rightarrow> read_error + parsed_object" where
  "section_loop dec obj r =
     (if pos r < length (data r) then
        rbind (rd_byte r) (\<lambda>(sectionId, r1).
        rbind (rd_u32 r1) (\<lambda>(sectionSize, r2).
          let sectionEnd = pos r2 + sectionSize in
          rbind (parse_section dec sectionId sectionEnd obj r2) (\<lambda>(obj', _).
            section_loop dec obj' (r2\<lparr>pos := sectionEnd\<rparr>))))
      else Inr obj)"
  by pat_completeness auto
termination
  by (relation "measure (\<lambda>(dec, obj, r). remaining r)")
    (auto simp: rd_byte_Inr remaining_def dest!: rd_u32_advances)

declare section_loop.simps [simp del]

definition parseObject :: "(byte list \<Rightarrow> string) \<Rightarrow> string \<Rightarrow> byte list \<Rightarrow> read_error + parsed_object" where
  "parseObject dec nm bs =
     rbind (rd_bytes 4 \<lparr>data = bs, pos = 0\<rparr>) (\<lambda>(magic, r).
       if magic \<noteq> [0x00, 0x61, 0x73, 0x6d] then Inl InvalidMagic
       else rbind (rd_bytes 4 r) (\<lambda>(version, r).
         if version \<noteq> [0x01, 0x00, 0x00, 0x00] then Inl UnsupportedVersion
         else section_loop dec (empty_object nm) r))"

section \<open>Reading back what a writer wrote\<close>

definition rest :: "byte_reader \<Rightarrow> byte list" where
  "rest r = drop (pos r) (data r)"

definition skip :: "nat \<Rightarrow> byte_reader \<Rightarrow> byte_reader" where
  "skip n r = r\<lparr>pos := pos r + n\<rparr>"

definition reads :: "(byte_reader \<Rightarrow> 'err + ('a \<times> byte_reader)) \<Rightarrow> byte list \<Rightarrow> 'a \<Rightarrow> bool" where
  "reads g bs v \<longleftrightarrow>
     (\<forall>r ys. pos r \<le> length (data r) \<longrightarrow> rest r = bs @ ys \<longrightarrow> g r = Inr (v, skip (length bs) r))"

lemma rest_skip: "rest (skip n r) = drop n (rest r)"
  by (simp add: rest_def skip_def add.commute)

lemma skip_skip: "skip m (skip n r) = skip (n + m) r" and skip_0: "skip 0 r = r"
  by (simp_all add: skip_def)

lemma skip_in_range:
  "pos r \<le> length (data r) \<Longrightarrow> rest r = bs @ ys \<Longrightarrow> pos (skip (length bs) r) \<le> length (data (skip (length bs) r))"
  by (drule arg_cong [where f = length]) (simp add: rest_def skip_def)

lemma readsI:
  "(\<And>r ys. pos r \<le> length (data r) \<Longrightarrow> rest r = bs @ ys \<Longrightarrow> g r = Inr (v, skip (length bs) r)) \<Longrightarrow> reads g bs v"
  by (auto simp: reads_def)

lemma readsD:
  "reads g bs v \<Longrightarrow> pos r \<le> length (data r) \<Longrightarrow> rest r = bs @ ys \<Longrightarrow> g r = Inr (v, skip (length bs) r)"
  by (auto simp: reads_def)

lemma reads_Inr: "reads (\<lambda>r. Inr (v, r)) [] v"
  by (simp add: reads_def skip_0)

lemma reads_bind:
  assumes "reads g bs v" and "reads (\<lambda>r. f (v, r)) cs w"
  shows "reads (\<lambda>r. rbind (g r) f) (bs @ cs) w"
proof (rule readsI)
  fix r ys
  assume p: "pos r \<le> length (data r)" and r: "rest r = (bs @ cs) @ ys"
  from r have r': "rest r = bs @ (cs @ ys)" by simp
  have "g r = Inr (v, skip (length bs) r)" by (rule readsD [OF assms(1) p r'])
  moreover have "f (v, skip (length bs) r) = Inr (w, skip (length cs) (skip (length bs) r))"
    by (rule readsD [OF assms(2) skip_in_range [OF p r'], where ys = ys]) (simp add: rest_skip r)
  ultimately show "rbind (g r) f = Inr (w, skip (length (bs @ cs)) r)" by (simp add: skip_skip)
qed

lemma reads_map:
  assumes "reads g bs v" and "\<And>r. f (v, r) = Inr (w, r)"
  shows "reads (\<lambda>r. rbind (g r) f) bs w"
  using reads_bind [OF assms(1), of f "[]" w] assms(2) by (simp add: reads_Inr)

lemma reads_rtimes:
  "list_all2 (\<lambda>b v. reads g b v) bs vs \<Longrightarrow> reads (rtimes (length vs) g) (concat bs) vs"
proof (induction bs vs rule: list_all2_induct)
  case Nil
  then show ?case by (simp add: reads_def skip_0)
next
  case (Cons b bs v vs)
  have "reads (\<lambda>r. rbind (g r) (\<lambda>(x, s'). rbind (rtimes (length vs) g s') (\<lambda>(xs, s''). Inr (x # xs, s''))))
      (b @ concat bs) (v # vs)"
    by (rule reads_bind [OF Cons(1)]) (simp, rule reads_map [OF Cons(3)], simp)
  then show ?case by (simp add: reads_def)
qed

lemma reads_rd_byte: "reads rd_byte [b] b"
proof (rule readsI)
  fix r ys
  assume "rest r = [b] @ ys"
  then have "pos r < length (data r) \<and> data r ! pos r = b"
    using drop_Cons_nth [of "pos r" "data r" b ys] by (simp add: rest_def)
  then show "rd_byte r = Inr (b, skip (length [b]) r)" by (simp add: rd_byte_def skip_def)
qed

lemma reads_rd_bytes: "reads (rd_bytes (length bs)) bs bs"
proof (rule readsI)
  fix r ys
  assume p: "pos r \<le> length (data r)" and r: "rest r = bs @ ys"
  from skip_in_range [OF p r] have "pos r + length bs \<le> length (data r)" by (simp add: skip_def)
  with r show "rd_bytes (length bs) r = Inr (bs, skip (length bs) r)"
    by (simp add: rd_bytes_def rest_def skip_def)
qed

subsection \<open>LEB128\<close>

lemma byte_and_0x7f: "(ucast ((ucast v OR 0x80) AND 0x7f :: byte) :: u32) = v AND mask 7"
  and byte_and_0x7f': "(ucast (ucast v AND 0x7f :: byte) :: u32) = v AND mask 7"
proof -
  have m: "(0x7f :: byte) = mask 7" by (simp add: mask_eq_exp_minus_1)
  have z: "(0x80 :: byte) AND 0x7f = 0" by simp
  have a: "(ucast v OR 0x80) AND (0x7f :: byte) = ucast v AND 0x7f"
    unfolding bit.conj_disj_distrib2 z by simp
  have b: "(ucast (ucast v AND mask 7 :: byte) :: u32) = v AND mask 7"
    by (rule bit_word_eqI) (auto simp: bit_simps)
  show "(ucast ((ucast v OR 0x80) AND 0x7f :: byte) :: u32) = v AND mask 7"
    unfolding a unfolding m by (rule b)
  show "(ucast (ucast v AND 0x7f :: byte) :: u32) = v AND mask 7"
    unfolding m by (rule b)
qed

lemma byte_continue: "(x OR 0x80) AND 0x80 \<noteq> (0 :: byte)"
  unfolding bit.conj_disj_distrib2 and.idem by (simp add: or_eq_0_iff)

lemma byte_stop: "drop_bit 7 (v :: u32) = 0 \<Longrightarrow> ucast v AND 0x80 = (0 :: byte)"
proof -
  assume a: "drop_bit 7 v = 0"
  have "bit (drop_bit 7 v) 0 = bit v 7" by (simp only: bit_drop_bit_eq comp_apply add_0_right)
  with a have "\<not> bit v 7" by simp
  then have "\<not> bit (ucast v :: byte) 7" by (simp add: bit_unsigned_iff)
  then show ?thesis using and_exp_eq_0_iff_not_bit [of "ucast v :: byte" 7] by simp
qed

lemma leb_step:
  fixes v :: u32
  assumes "s < 32" and "drop_bit (32 - s) v = 0" and "drop_bit 7 v \<noteq> 0"
  shows "s + 7 < 32" and "drop_bit (32 - (s + 7)) (drop_bit 7 v) = 0"
proof -
  show l: "s + 7 < 32"
  proof (rule ccontr)
    assume "\<not> s + 7 < 32"
    then have "7 = (32 - s) + (s + 7 - 32)" using assms(1) by simp
    then have "drop_bit 7 v = drop_bit (s + 7 - 32) (drop_bit (32 - s) v)"
      by (metis drop_bit_drop_bit add.commute)
    with assms(2,3) show False by simp
  qed
  then have "32 - (s + 7) + 7 = 32 - s" by simp
  with assms(2) show "drop_bit (32 - (s + 7)) (drop_bit 7 v) = 0"
    by (simp only: drop_bit_drop_bit)
qed

lemma uleb_not_Nil: "uleb v \<noteq> []"
  by (subst uleb.simps) simp

lemma leb_loop_uleb:
  "shift < 32 \<Longrightarrow> drop_bit (32 - shift) v = 0 \<Longrightarrow>
     \<exists>s b. reads (leb_loop res shift) (uleb v) (res OR push_bit shift v, s, b)"
proof (induction v arbitrary: res shift rule: uleb.induct)
  case (1 v)
  define body where "body = (\<lambda>(b :: byte, r'). let result' = res OR push_bit (shift mod 32) (ucast (b AND 0x7f)); shift' = shift + 7
       in if b AND 0x80 \<noteq> 0 then leb_loop result' shift' r' else Inr ((result', shift', b), r'))"
  have unf: "leb_loop res shift = (\<lambda>r. rbind (rd_byte r) body)"
    by (rule ext, subst leb_loop.simps) (simp add: body_def)
  have m: "shift mod 32 = shift" using "1.prems" by simp
  show ?case
  proof (cases "drop_bit 7 v = 0")
    case True
    then have v: "v AND mask 7 = v" by (simp add: ucast_and_0x7f mask_eq_exp_minus_1)
    have "reads (\<lambda>r. rbind (rd_byte r) body) [ucast v] (res OR push_bit shift v, shift + 7, ucast v)"
      by (rule reads_map [OF reads_rd_byte])
        (simp add: body_def Let_def byte_stop [OF True] byte_and_0x7f' v m)
    with True show ?thesis unfolding unf by (subst uleb.simps) auto
  next
    case False
    note nxt = leb_step [OF "1.prems" False]
    have split: "push_bit shift v = push_bit shift (v AND mask 7) OR push_bit (shift + 7) (drop_bit 7 v)"
      by (rule push_bit_split_word)
    obtain s b where IH: "reads (leb_loop (res OR push_bit shift (v AND mask 7)) (shift + 7)) (uleb (drop_bit 7 v))
       ((res OR push_bit shift (v AND mask 7)) OR push_bit (shift + 7) (drop_bit 7 v), s, b)"
      using "1.IH" [OF False nxt] by blast
    have "body (ucast v OR 0x80, r) = leb_loop (res OR push_bit shift (v AND mask 7)) (shift + 7) r" for r
      using byte_continue [of "ucast v"] by (simp only: body_def Let_def byte_and_0x7f m split_conv if_True not_False_eq_True)
    then have "reads (\<lambda>r. rbind (rd_byte r) body) ([ucast v OR 0x80] @ uleb (drop_bit 7 v))
        (res OR push_bit shift v, s, b)"
      using IH unfolding or.assoc split [symmetric]
      by (intro reads_bind [OF reads_rd_byte]) simp
    with False show ?thesis unfolding unf by (subst uleb.simps) auto
  qed
qed

lemma drop_bit_32: "drop_bit 32 (v :: u32) = 0"
  by (rule bit_word_eqI) (auto simp: bit_drop_bit_eq dest: bit_imp_le_length)

lemma reads_rd_u32: "reads rd_u32 (uleb v) (unat v)"
proof -
  obtain s b where l: "reads (leb_loop 0 0) (uleb v) (0 OR push_bit 0 v, s, b)"
    using leb_loop_uleb [of 0 v 0] drop_bit_32 [of v] by auto
  show ?thesis unfolding rd_u32_def [abs_def] by (rule reads_map [OF l]) simp
qed

lemma bit_mod_128: "bit (v mod 128 :: int) n \<longleftrightarrow> n < 7 \<and> bit v n"
proof -
  have "v mod 128 = take_bit 7 v" by (simp add: take_bit_eq_mod)
  then show ?thesis by (simp only: bit_take_bit_iff)
qed

lemma bit_div_128: "bit (v div 128 :: int) n \<longleftrightarrow> bit v (7 + n)"
proof -
  have "v div 128 = drop_bit 7 v" by (simp add: drop_bit_eq_div)
  then show ?thesis by (simp only: bit_drop_bit_eq comp_apply)
qed

lemma sleb_byte_low:
  "(ucast (word_of_int (v mod 128) AND 0x7f :: byte) :: u32) = word_of_int (v mod 128)"
  "(ucast (word_of_int (v mod 128 + 128) AND 0x7f :: byte) :: u32) = word_of_int (v mod 128)"
proof -
  have m: "(0x7f :: byte) = mask 7" by (simp add: mask_eq_exp_minus_1)
  have o: "v mod 128 + 128 = v mod 128 OR 128"
    using or_0x80_int [of "v mod 128"] by simp
  have a: "(ucast (word_of_int (v mod 128) AND mask 7 :: byte) :: u32) = word_of_int (v mod 128)"
    by (rule bit_word_eqI) (auto simp: bit_simps bit_word_of_int_iff bit_mod_128)
  show "(ucast (word_of_int (v mod 128) AND 0x7f :: byte) :: u32) = word_of_int (v mod 128)"
    unfolding m by (rule a)
  have z: "(0x80 :: byte) AND 0x7f = 0" by simp
  have "word_of_int (v mod 128 + 128) AND (0x7f :: byte) = word_of_int (v mod 128) AND 0x7f"
    unfolding o of_int_or_eq of_int_numeral bit.conj_disj_distrib2 z by simp
  then show "(ucast (word_of_int (v mod 128 + 128) AND 0x7f :: byte) :: u32) = word_of_int (v mod 128)"
    unfolding m using a by simp
qed

lemma sleb_byte_flags:
  "(word_of_int (v mod 128) AND 0x80 :: byte) = 0"
  "(word_of_int (v mod 128 + 128) AND 0x80 :: byte) \<noteq> 0"
  "(word_of_int (v mod 128) AND 0x40 :: byte) = 0 \<longleftrightarrow> v mod 128 < 64"
proof -
  show "(word_of_int (v mod 128) AND 0x80 :: byte) = 0"
    using and_exp_eq_0_iff_not_bit [of "word_of_int (v mod 128) :: byte" 7]
    by (simp add: bit_word_of_int_iff bit_mod_128)
  have o: "v mod 128 + 128 = v mod 128 OR 128"
    using or_0x80_int [of "v mod 128"] by simp
  show "(word_of_int (v mod 128 + 128) AND 0x80 :: byte) \<noteq> 0"
    unfolding o of_int_or_eq of_int_numeral by (rule byte_continue)
  have "(word_of_int (v mod 128) AND 0x40 :: byte) = 0 \<longleftrightarrow> \<not> bit v 6"
    using and_exp_eq_0_iff_not_bit [of "word_of_int (v mod 128) :: byte" 6]
    by (simp add: bit_word_of_int_iff bit_mod_128)
  also have "\<dots> \<longleftrightarrow> v AND 0x40 = 0"
    using and_exp_eq_0_iff_not_bit [of v 6] by simp
  finally show "(word_of_int (v mod 128) AND 0x40 :: byte) = 0 \<longleftrightarrow> v mod 128 < 64"
    by (simp only: and_0x40_int)
qed

lemma bit_small_negative: "- 64 \<le> (v :: int) \<Longrightarrow> v < 0 \<Longrightarrow> 6 \<le> n \<Longrightarrow> bit v n"
proof -
  assume v: "- 64 \<le> v" "v < 0" and n: "6 \<le> n"
  have "(2 :: int) ^ 6 \<le> 2 ^ n" using n by (intro power_increasing) simp_all
  with v have "v div 2 ^ n = - 1" by (intro int_div_pos_eq [where r = "v + 2 ^ n"]) auto
  then show ?thesis by (simp add: bit_iff_odd)
qed

lemma bit_small_nonneg: "0 \<le> (v :: int) \<Longrightarrow> v < 64 \<Longrightarrow> 6 \<le> n \<Longrightarrow> \<not> bit v n"
proof -
  assume v: "0 \<le> v" "v < 64" and n: "6 \<le> n"
  have "(2 :: int) ^ 6 \<le> 2 ^ n" using n by (intro power_increasing) simp_all
  with v have "v div 2 ^ n = 0" by auto
  then show ?thesis by (simp add: bit_iff_odd)
qed

lemma sleb_last_chunk:
  assumes "- 64 \<le> v" "v < 64" "shift < 32"
  shows "(let R = res OR push_bit shift (word_of_int (v mod 128)) in
     if shift + 7 < 32 \<and> \<not> v mod 128 < 64 then R OR (- push_bit (shift + 7) 1) else R)
     = (res OR push_bit shift (word_of_int v) :: u32)"
proof -
  have m: "(- push_bit (shift + 7) 1 :: u32) = NOT (mask (shift + 7))"
    by (simp add: mask_eq_exp_minus_1 push_bit_eq_mult not_eq_complement)
  have "v mod 128 = v + 128" if "v < 0"
    using mod_pos_pos_trivial [of "v + 128" 128] that assms(1) by (simp only: mod_add_self2)
  then have neg: "\<not> v mod 128 < 64 \<longleftrightarrow> v < 0"
    using assms(1,2) by (cases "v < 0") simp_all
  have eq: "push_bit shift (word_of_int v :: u32) = (if shift + 7 < 32 \<and> v < 0
      then push_bit shift (word_of_int (v mod 128)) OR NOT (mask (shift + 7))
      else push_bit shift (word_of_int (v mod 128)))" (is "?l = ?r")
  proof (rule bit_word_eqI)
    fix n
    assume n: "n < LENGTH(32)"
    show "bit ?l n = bit ?r n"
    proof (cases "shift + 7 \<le> n")
      case False
      then show ?thesis using n by (auto simp: bit_simps bit_word_of_int_iff bit_mod_128)
    next
      case True
      then have "6 \<le> n - shift" by simp
      then have "bit v (n - shift) \<longleftrightarrow> v < 0"
        using bit_small_negative [of v "n - shift"] bit_small_nonneg [of v "n - shift"] assms
        by (cases "v < 0") auto
      with True n show ?thesis by (auto simp: bit_simps bit_word_of_int_iff bit_mod_128)
    qed
  qed
  show ?thesis
    unfolding m neg Let_def eq
    by (cases "shift + 7 < 32 \<and> v < 0") (simp_all only: if_True if_False or.assoc simp_thms)
qed

lemma leb_loop_sleb:
  "shift < 32 \<Longrightarrow> - (2 ^ (31 - shift)) \<le> v \<Longrightarrow> v < 2 ^ (31 - shift) \<Longrightarrow>
     \<exists>R s b. reads (leb_loop res shift) (sleb v) (R, s, b)
     \<and> (if s < 32 \<and> b AND 0x40 \<noteq> 0 then R OR (- push_bit s 1) else R)
        = res OR push_bit shift (word_of_int v)"
proof (induction v arbitrary: res shift rule: sleb.induct)
  case (1 v)
  define body where "body = (\<lambda>(b :: byte, r'). let result' = res OR push_bit (shift mod 32) (ucast (b AND 0x7f)); shift' = shift + 7
       in if b AND 0x80 \<noteq> 0 then leb_loop result' shift' r' else Inr ((result', shift', b), r'))"
  have unf: "leb_loop res shift = (\<lambda>r. rbind (rd_byte r) body)"
    by (rule ext, subst leb_loop.simps) (simp add: body_def)
  have m: "shift mod 32 = shift" using "1.prems" by simp
  show ?case
  proof (cases "- 64 \<le> v \<and> v < 64")
    case True
    have "reads (\<lambda>r. rbind (rd_byte r) body) [word_of_int (v mod 128)]
        (res OR push_bit shift (word_of_int (v mod 128)), shift + 7, word_of_int (v mod 128))"
      by (rule reads_map [OF reads_rd_byte])
        (simp only: body_def Let_def split_conv sleb_byte_low sleb_byte_flags m simp_thms if_False)
    moreover have "(if shift + 7 < 32 \<and> (word_of_int (v mod 128) AND 0x40 :: byte) \<noteq> 0
        then (res OR push_bit shift (word_of_int (v mod 128))) OR (- push_bit (shift + 7) 1)
        else res OR push_bit shift (word_of_int (v mod 128))) = res OR push_bit shift (word_of_int v)"
      using sleb_last_chunk [of v shift res] True "1.prems"(1) by (simp only: sleb_byte_flags Let_def)
    ultimately show ?thesis using True unfolding unf sleb.simps [of v] by (simp only: if_True simp_thms) blast
  next
    case False
    have s: "shift + 7 < 32"
    proof (rule ccontr)
      assume "\<not> shift + 7 < 32"
      then have "(2 :: int) ^ (31 - shift) \<le> 2 ^ 6" by (intro power_increasing) simp_all
      with "1.prems" False show False by auto
    qed
    then have e: "31 - shift = (31 - (shift + 7)) + 7" by simp
    have p: "(2 :: int) ^ (31 - shift) = 2 ^ (31 - (shift + 7)) * 128" unfolding e power_add by simp
    have r: "- (2 ^ (31 - (shift + 7))) \<le> v div 128" "v div 128 < 2 ^ (31 - (shift + 7))"
      using "1.prems"(2,3) unfolding p by auto
    have split: "push_bit shift (word_of_int v :: u32)
        = push_bit shift (word_of_int (v mod 128)) OR push_bit (shift + 7) (word_of_int (v div 128))"
    proof (rule bit_word_eqI)
      fix n
      assume "n < LENGTH(32)"
      then show "bit (push_bit shift (word_of_int v :: u32)) n
         = bit (push_bit shift (word_of_int (v mod 128)) OR push_bit (shift + 7) (word_of_int (v div 128) :: u32)) n"
        by (cases "shift + 7 \<le> n") (auto simp: bit_simps bit_word_of_int_iff bit_mod_128 bit_div_128)
    qed
    obtain R s' b where IH: "reads (leb_loop (res OR push_bit shift (word_of_int (v mod 128))) (shift + 7)) (sleb (v div 128)) (R, s', b)"
      and res: "(if s' < 32 \<and> b AND 0x40 \<noteq> 0 then R OR (- push_bit s' 1) else R)
        = (res OR push_bit shift (word_of_int (v mod 128))) OR push_bit (shift + 7) (word_of_int (v div 128))"
      using "1.IH" [OF False s r, of "res OR push_bit shift (word_of_int (v mod 128))"] by blast
    have "body (word_of_int (v mod 128 + 128), r)
        = leb_loop (res OR push_bit shift (word_of_int (v mod 128))) (shift + 7) r" for r
      by (simp only: body_def Let_def split_conv sleb_byte_low sleb_byte_flags m simp_thms if_True)
    then have "reads (\<lambda>r. rbind (rd_byte r) body) ([word_of_int (v mod 128 + 128)] @ sleb (v div 128)) (R, s', b)"
      using IH by (intro reads_bind [OF reads_rd_byte]) simp
    moreover have "sleb v = [word_of_int (v mod 128 + 128)] @ sleb (v div 128)"
      using False by (subst sleb.simps) auto
    ultimately show ?thesis using res unfolding unf split or.assoc by metis
  qed
qed

lemma reads_rd_i32:
  assumes "- (2 ^ 31) \<le> v" and "v < 2 ^ 31"
  shows "reads rd_i32 (sleb v) v"
proof -
  obtain R s b where l: "reads (leb_loop 0 0) (sleb v) (R, s, b)"
    and r: "(if s < 32 \<and> b AND 0x40 \<noteq> 0 then R OR (- push_bit s 1) else R) = (word_of_int v :: u32)"
    using leb_loop_sleb [of 0 v 0] assms by auto
  have "sint (word_of_int v :: u32) = v"
    using assms by (simp add: signed_of_int signed_take_bit_int_eq_self)
  then show ?thesis unfolding rd_i32_def [abs_def] by (intro reads_map [OF l]) (simp add: r)
qed

end
