(* ===== verification/Resolver.thy ===== *)
theory Resolver
  imports Reader
begin

text \<open>
  Symbol resolution across object files, \<open>src/src/link/resolver.ts\<close>. The source keys its maps
  with strings \<open>kind:name\<close> and \<open>moduleIdx:symbolIdx\<close>; the kind and the module index hold no
  colon, so the model uses the pairs themselves. \<open>definedSymbols\<close> is an insertion-ordered map and
  is kept as an association list.
\<close>

section \<open>State\<close>

record def_symbol =
  def_moduleIdx :: nat
  def_symbolIdx :: nat
  def_symbol :: symbol_info

record resolved_symbol =
  res_targetModule :: nat
  res_targetIndex :: nat
  res_name :: string

datatype resolve_error =
    DuplicateSymbol string byte "string list"
  | UnresolvedSymbol string byte string

record resolution =
  resolved :: "(nat \<times> nat) \<rightharpoonup> resolved_symbol"
  errors :: "resolve_error list"

type_synonym symbol_key = "byte \<times> string"
type_synonym def_table = "(symbol_key \<times> def_symbol list) list"

section \<open>The passes over the symbols\<close>

definition has_flag :: "symbol_info \<Rightarrow> nat \<Rightarrow> bool" where
  "has_flag sm f \<longleftrightarrow> sym_flags sm AND f \<noteq> 0"

definition symbol_key :: "symbol_info \<Rightarrow> symbol_key" where
  "symbol_key sm = (sym_kind sm, sym_name sm)"

text \<open>The two nested \<open>for\<close> loops visit the symbols of all modules in this order.\<close>

definition all_symbols :: "parsed_object list \<Rightarrow> (nat \<times> nat \<times> symbol_info) list" where
  "all_symbols objects =
     concat (map (\<lambda>(m, obj). map (\<lambda>(s, sm). (m, s, sm)) (List.enumerate 0 (obj_symbols obj)))
       (List.enumerate 0 objects))"

definition is_definition :: "symbol_info \<Rightarrow> bool" where
  "is_definition sm \<longleftrightarrow> \<not> has_flag sm SYMBOL_UNDEFINED \<and> \<not> has_flag sm SYMBOL_BINDING_LOCAL
     \<and> sym_name sm \<noteq> []"

definition add_definition :: "nat \<times> nat \<times> symbol_info \<Rightarrow> def_table \<Rightarrow> def_table" where
  "add_definition = (\<lambda>(m, s, sm) table.
     if has_flag sm SYMBOL_UNDEFINED then table
     else if has_flag sm SYMBOL_BINDING_LOCAL then table
     else if sym_name sm = [] then table
     else
       let key = symbol_key sm;
           lst = (case map_of table key of None \<Rightarrow> [] | Some l \<Rightarrow> l)
       in AList.update key (lst @ [\<lparr>def_moduleIdx = m, def_symbolIdx = s, def_symbol = sm\<rparr>]) table)"

definition definedSymbols :: "parsed_object list \<Rightarrow> def_table" where
  "definedSymbols objects = fold add_definition (all_symbols objects) []"

definition strong_defs :: "def_symbol list \<Rightarrow> def_symbol list" where
  "strong_defs defs = filter (\<lambda>d. \<not> has_flag (def_symbol d) SYMBOL_BINDING_WEAK) defs"

definition duplicate_errors :: "parsed_object list \<Rightarrow> def_table \<Rightarrow> resolve_error list" where
  "duplicate_errors objects table =
     concat (map (\<lambda>((kind, nm), defs).
       let strong = strong_defs defs in
       if length strong > 1
       then [DuplicateSymbol nm kind (map (\<lambda>d. obj_name (objects ! def_moduleIdx d)) strong)]
       else []) table)"

definition choose_def :: "def_symbol list \<Rightarrow> def_symbol" where
  "choose_def defs = (if strong_defs defs \<noteq> [] then hd (strong_defs defs) else hd defs)"

definition resolve_one :: "parsed_object list \<Rightarrow> def_table \<Rightarrow> nat \<times> nat \<times> symbol_info \<Rightarrow> resolution \<Rightarrow> resolution" where
  "resolve_one objects table = (\<lambda>(m, s, sm) res.
     if \<not> has_flag sm SYMBOL_UNDEFINED then res
     else if sym_name sm = [] then res
     else
       case map_of table (symbol_key sm) of
         None \<Rightarrow> res\<lparr>errors := errors res @ [UnresolvedSymbol (sym_name sm) (sym_kind sm) (obj_name (objects ! m))]\<rparr>
       | Some defs \<Rightarrow>
           if defs = []
           then res\<lparr>errors := errors res @ [UnresolvedSymbol (sym_name sm) (sym_kind sm) (obj_name (objects ! m))]\<rparr>
           else
             let chosen = choose_def defs in
             res\<lparr>resolved := (resolved res)((m, s) \<mapsto>
               \<lparr>res_targetModule = def_moduleIdx chosen, res_targetIndex = sym_index (def_symbol chosen),
                res_name = sym_name sm\<rparr>)\<rparr>)"

definition resolveSymbols :: "parsed_object list \<Rightarrow> resolution" where
  "resolveSymbols objects =
     (let table = definedSymbols objects in
      fold (resolve_one objects table) (all_symbols objects)
        \<lparr>resolved = Map.empty, errors = duplicate_errors objects table\<rparr>)"

section \<open>What the definition table holds\<close>

text \<open>\<open>m\<close>, \<open>s\<close> is the position of \<open>sm\<close> in the symbol tables of the modules.\<close>

definition symbol_at :: "parsed_object list \<Rightarrow> nat \<Rightarrow> nat \<Rightarrow> symbol_info \<Rightarrow> bool" where
  "symbol_at objects m s sm \<longleftrightarrow>
     m < length objects \<and> s < length (obj_symbols (objects ! m)) \<and> obj_symbols (objects ! m) ! s = sm"

lemma in_all_symbols: "(m, s, sm) \<in> set (all_symbols objects) \<longleftrightarrow> symbol_at objects m s sm"
proof
  assume "(m, s, sm) \<in> set (all_symbols objects)"
  then show "symbol_at objects m s sm"
    by (auto simp: all_symbols_def symbol_at_def in_set_enumerate_eq)
next
  assume a: "symbol_at objects m s sm"
  then have "(m, objects ! m) \<in> set (List.enumerate 0 objects)"
    and "(s, sm) \<in> set (List.enumerate 0 (obj_symbols (objects ! m)))"
    by (auto simp: symbol_at_def in_set_enumerate_eq)
  then show "(m, s, sm) \<in> set (all_symbols objects)"
    by (force simp: all_symbols_def)
qed

lemma distinct_all_symbols: "distinct (map (\<lambda>(m, s, sm). (m, s)) (all_symbols objects))"
proof -
  have d: "distinct (map (\<lambda>(m, s, sm). (m, s))
      (concat (map (\<lambda>(m, obj). map (\<lambda>(s, sm). (m, s, sm)) (List.enumerate 0 (obj_symbols obj)))
        (List.enumerate k objs))))" for k objs
  proof (induction objs arbitrary: k)
    case (Cons obj objs)
    have "distinct (map (\<lambda>x. (k, fst x)) (List.enumerate 0 (obj_symbols obj)))"
      by (auto simp: distinct_map inj_on_def in_set_enumerate_eq prod_eq_iff)
    then show ?case
      using Cons [of "Suc k"]
      by (auto simp: o_def case_prod_unfold in_set_enumerate_eq)
  qed simp
  show ?thesis unfolding all_symbols_def by (rule d)
qed

definition table_defs :: "def_table \<Rightarrow> symbol_key \<Rightarrow> def_symbol list" where
  "table_defs table key = (case map_of table key of None \<Rightarrow> [] | Some l \<Rightarrow> l)"

definition def_entry :: "nat \<times> nat \<times> symbol_info \<Rightarrow> def_symbol" where
  "def_entry = (\<lambda>(m, s, sm). \<lparr>def_moduleIdx = m, def_symbolIdx = s, def_symbol = sm\<rparr>)"

lemma table_defs_add:
  "table_defs (add_definition (m, s, sm) table) key =
     table_defs table key @ (if is_definition sm \<and> symbol_key sm = key then [def_entry (m, s, sm)] else [])"
  by (auto simp: add_definition_def is_definition_def table_defs_def update_conv' Let_def def_entry_def
      split: option.splits)

lemma table_defs_fold:
  "table_defs (fold add_definition xs table) key =
     table_defs table key @ map def_entry (filter (\<lambda>(m, s, sm). is_definition sm \<and> symbol_key sm = key) xs)"
  by (induction xs arbitrary: table) (auto simp: table_defs_add split: if_splits)

text \<open>The table lists, for a key, exactly the visible definitions with that key, in module order.\<close>

lemma table_defs_definedSymbols:
  "table_defs (definedSymbols objects) key =
     map def_entry (filter (\<lambda>(m, s, sm). is_definition sm \<and> symbol_key sm = key) (all_symbols objects))"
  by (simp add: definedSymbols_def table_defs_fold table_defs_def [of "[]"])

lemma in_table_defs:
  "d \<in> set (table_defs (definedSymbols objects) key) \<longleftrightarrow>
     symbol_at objects (def_moduleIdx d) (def_symbolIdx d) (def_symbol d)
     \<and> is_definition (def_symbol d) \<and> symbol_key (def_symbol d) = key"
proof
  assume "d \<in> set (table_defs (definedSymbols objects) key)"
  then show "symbol_at objects (def_moduleIdx d) (def_symbolIdx d) (def_symbol d)
     \<and> is_definition (def_symbol d) \<and> symbol_key (def_symbol d) = key"
    by (auto simp: table_defs_definedSymbols in_all_symbols def_entry_def)
next
  assume "symbol_at objects (def_moduleIdx d) (def_symbolIdx d) (def_symbol d)
     \<and> is_definition (def_symbol d) \<and> symbol_key (def_symbol d) = key"
  moreover have "d = def_entry (def_moduleIdx d, def_symbolIdx d, def_symbol d)"
    by (simp add: def_entry_def)
  ultimately show "d \<in> set (table_defs (definedSymbols objects) key)"
    unfolding table_defs_definedSymbols set_map set_filter by (auto simp: in_all_symbols)
qed

section \<open>What resolution gives\<close>

definition needs_resolution :: "symbol_info \<Rightarrow> bool" where
  "needs_resolution sm \<longleftrightarrow> has_flag sm SYMBOL_UNDEFINED \<and> sym_name sm \<noteq> []"

definition resolution_of :: "def_symbol list \<Rightarrow> symbol_info \<Rightarrow> resolved_symbol" where
  "resolution_of defs sm =
     \<lparr>res_targetModule = def_moduleIdx (choose_def defs),
      res_targetIndex = sym_index (def_symbol (choose_def defs)), res_name = sym_name sm\<rparr>"

lemma resolve_one_eq:
  "resolve_one objects table (m, s, sm) res =
     (if needs_resolution sm then
        (let defs = table_defs table (symbol_key sm) in
         if defs = []
         then res\<lparr>errors := errors res @ [UnresolvedSymbol (sym_name sm) (sym_kind sm) (obj_name (objects ! m))]\<rparr>
         else res\<lparr>resolved := (resolved res)((m, s) \<mapsto> resolution_of defs sm)\<rparr>)
      else res)"
  by (auto simp: resolve_one_def needs_resolution_def table_defs_def resolution_of_def Let_def split: option.splits)

lemma resolve_fold_resolved:
  "distinct (map (\<lambda>(m, s, sm). (m, s)) xs) \<Longrightarrow>
   resolved (fold (resolve_one objects table) xs res) (m, s) =
     (case find (\<lambda>(m', s', sm). (m', s') = (m, s) \<and> needs_resolution sm \<and> table_defs table (symbol_key sm) \<noteq> []) xs of
        Some (_, _, sm) \<Rightarrow> Some (resolution_of (table_defs table (symbol_key sm)) sm)
      | None \<Rightarrow> resolved res (m, s))"
proof (induction xs arbitrary: res)
  case (Cons x xs)
  obtain m' s' sm where x: "x = (m', s', sm)" by (cases x)
  show ?case
  proof (cases "(m', s') = (m, s) \<and> needs_resolution sm \<and> table_defs table (symbol_key sm) \<noteq> []")
    case True
    then have "find (\<lambda>(m', s', sm). (m', s') = (m, s) \<and> needs_resolution sm \<and> table_defs table (symbol_key sm) \<noteq> []) xs = None"
      using Cons.prems x by (force simp: find_None_iff)
    with True Cons x show ?thesis by (simp add: resolve_one_eq Let_def split: option.split)
  next
    case False
    then have "resolved (resolve_one objects table x res) (m, s) = resolved res (m, s)"
      by (auto simp: x resolve_one_eq Let_def)
    with False Cons x show ?thesis by (auto split: option.split)
  qed
qed simp

lemma resolve_fold_errors:
  "errors (fold (resolve_one objects table) xs res) = errors res @
     map (\<lambda>(m, s, sm). UnresolvedSymbol (sym_name sm) (sym_kind sm) (obj_name (objects ! m)))
       (filter (\<lambda>(m, s, sm). needs_resolution sm \<and> table_defs table (symbol_key sm) = []) xs)"
  by (induction xs arbitrary: res) (auto simp: resolve_one_eq Let_def split: if_splits)

lemma resolved_iff:
  "resolved (resolveSymbols objects) (m, s) = Some t \<longleftrightarrow>
     (\<exists>sm. symbol_at objects m s sm \<and> needs_resolution sm
        \<and> table_defs (definedSymbols objects) (symbol_key sm) \<noteq> []
        \<and> t = resolution_of (table_defs (definedSymbols objects) (symbol_key sm)) sm)"
proof -
  let ?T = "definedSymbols objects"
  let ?P = "\<lambda>(m', s', sm). (m', s') = (m, s) \<and> needs_resolution sm \<and> table_defs ?T (symbol_key sm) \<noteq> []"
  have eq: "resolved (resolveSymbols objects) (m, s) =
     (case find ?P (all_symbols objects) of
        Some (_, _, sm) \<Rightarrow> Some (resolution_of (table_defs ?T (symbol_key sm)) sm) | None \<Rightarrow> None)"
    by (simp add: resolveSymbols_def Let_def resolve_fold_resolved [OF distinct_all_symbols] split: option.split)
  show ?thesis
  proof (cases "find ?P (all_symbols objects)")
    case None
    then have "\<not> (symbol_at objects m s sm \<and> needs_resolution sm \<and> table_defs ?T (symbol_key sm) \<noteq> [])" for sm
      by (force simp: find_None_iff simp flip: in_all_symbols)
    with None eq show ?thesis by auto
  next
    case (Some x)
    obtain m' s' sm where x: "x = (m', s', sm)" by (cases x)
    from Some have "x \<in> set (all_symbols objects) \<and> ?P x"
      by (fastforce simp: find_Some_iff intro: nth_mem dest: sym)
    then have "symbol_at objects m s sm" "needs_resolution sm" "table_defs ?T (symbol_key sm) \<noteq> []"
      by (auto simp: x in_all_symbols)
    with Some x eq show ?thesis by (auto simp: symbol_at_def)
  qed
qed

lemma errors_resolveSymbols:
  "errors (resolveSymbols objects) = duplicate_errors objects (definedSymbols objects) @
     map (\<lambda>(m, s, sm). UnresolvedSymbol (sym_name sm) (sym_kind sm) (obj_name (objects ! m)))
       (filter (\<lambda>(m, s, sm). needs_resolution sm \<and> table_defs (definedSymbols objects) (symbol_key sm) = [])
         (all_symbols objects))"
  by (simp add: resolveSymbols_def Let_def resolve_fold_errors)

lemma choose_def_in: "defs \<noteq> [] \<Longrightarrow> choose_def defs \<in> set defs"
proof -
  assume "defs \<noteq> []"
  moreover have "set (strong_defs defs) \<subseteq> set defs" by (auto simp: strong_defs_def)
  ultimately show ?thesis by (auto simp: choose_def_def dest: hd_in_set)
qed

lemma choose_def_strong:
  "d \<in> set defs \<Longrightarrow> \<not> has_flag (def_symbol d) SYMBOL_BINDING_WEAK \<Longrightarrow>
     \<not> has_flag (def_symbol (choose_def defs)) SYMBOL_BINDING_WEAK"
proof -
  assume "d \<in> set defs" and "\<not> has_flag (def_symbol d) SYMBOL_BINDING_WEAK"
  then have "strong_defs defs \<noteq> []" by (auto simp: strong_defs_def filter_empty_conv)
  moreover from this have "hd (strong_defs defs) \<in> set (strong_defs defs)" by simp
  moreover have "x \<in> set (strong_defs defs) \<Longrightarrow> \<not> has_flag (def_symbol x) SYMBOL_BINDING_WEAK" for x
    by (simp add: strong_defs_def)
  ultimately show ?thesis by (simp add: choose_def_def)
qed

lemma duplicate_errors_Nil_unique:
  assumes "duplicate_errors objects table = []" and "map_of table key = Some defs"
    and "d \<in> set defs" "d' \<in> set defs" "\<not> has_flag (def_symbol d) SYMBOL_BINDING_WEAK"
    "\<not> has_flag (def_symbol d') SYMBOL_BINDING_WEAK"
  shows "d = d'"
proof -
  have "(key, defs) \<in> set table" using assms(2) by (rule map_of_SomeD)
  with assms(1) have "length (strong_defs defs) \<le> 1"
    by (cases key) (force simp: duplicate_errors_def Let_def split: if_splits)
  moreover have "d \<in> set (strong_defs defs)" "d' \<in> set (strong_defs defs)"
    using assms by (auto simp: strong_defs_def)
  ultimately show ?thesis by (cases "strong_defs defs") auto
qed

lemma resolved_target:
  assumes "resolved (resolveSymbols objects) (m, s) = Some t" and "symbol_at objects m s sm"
  obtains k d where "symbol_at objects (res_targetModule t) k d" and "is_definition d"
    and "symbol_key d = symbol_key sm" and "sym_index d = res_targetIndex t"
proof -
  let ?defs = "table_defs (definedSymbols objects) (symbol_key sm)"
  obtain sm' where sm': "symbol_at objects m s sm'" "table_defs (definedSymbols objects) (symbol_key sm') \<noteq> []"
    "t = resolution_of (table_defs (definedSymbols objects) (symbol_key sm')) sm'"
    using assms(1) by (auto simp: resolved_iff)
  with assms(2) have "sm' = sm" by (simp add: symbol_at_def)
  with sm' have t: "t = resolution_of ?defs sm" and "choose_def ?defs \<in> set ?defs"
    by (simp_all add: choose_def_in)
  then show ?thesis
    by (intro that [of "def_symbolIdx (choose_def ?defs)" "def_symbol (choose_def ?defs)"])
      (simp_all add: in_table_defs resolution_of_def)
qed

section \<open>Properties\<close>

text \<open>C11. A resolved reference points at a definition of the same kind and name that is neither
  undefined nor of local binding, in an existing module, at that definition's index; and the
  definition is strong whenever any module defines the symbol strongly.\<close>

theorem resolve_sound:
  assumes "resolved (resolveSymbols objects) (m, s) = Some t"
  shows "\<exists>sm k d. symbol_at objects m s sm \<and> has_flag sm SYMBOL_UNDEFINED
     \<and> symbol_at objects (res_targetModule t) k d
     \<and> sym_kind d = sym_kind sm \<and> sym_name d = sym_name sm \<and> sym_index d = res_targetIndex t
     \<and> \<not> has_flag d SYMBOL_UNDEFINED \<and> \<not> has_flag d SYMBOL_BINDING_LOCAL
     \<and> (\<forall>m' s' d'. symbol_at objects m' s' d' \<and> is_definition d' \<and> symbol_key d' = symbol_key sm
           \<and> \<not> has_flag d' SYMBOL_BINDING_WEAK \<longrightarrow> \<not> has_flag d SYMBOL_BINDING_WEAK)"
proof -
  obtain sm where sm: "symbol_at objects m s sm" "needs_resolution sm"
    "table_defs (definedSymbols objects) (symbol_key sm) \<noteq> []"
    "t = resolution_of (table_defs (definedSymbols objects) (symbol_key sm)) sm"
    using assms by (auto simp: resolved_iff)
  define defs where "defs = table_defs (definedSymbols objects) (symbol_key sm)"
  define c where "c = choose_def defs"
  have "c \<in> set defs" using sm(3) by (simp add: c_def defs_def choose_def_in)
  then have c: "symbol_at objects (def_moduleIdx c) (def_symbolIdx c) (def_symbol c)"
      "is_definition (def_symbol c)" "symbol_key (def_symbol c) = symbol_key sm"
    by (simp_all add: defs_def in_table_defs)
  have strong: "\<not> has_flag (def_symbol c) SYMBOL_BINDING_WEAK"
    if "symbol_at objects m' s' d'" "is_definition d'" "symbol_key d' = symbol_key sm"
      "\<not> has_flag d' SYMBOL_BINDING_WEAK" for m' s' d'
  proof -
    have "\<lparr>def_moduleIdx = m', def_symbolIdx = s', def_symbol = d'\<rparr> \<in> set defs"
      using that by (simp add: defs_def in_table_defs)
    from choose_def_strong [OF this] that(4) show ?thesis by (simp add: c_def)
  qed
  have "res_targetModule t = def_moduleIdx c" "res_targetIndex t = sym_index (def_symbol c)"
    by (simp_all add: sm(4) resolution_of_def c_def defs_def)
  then show ?thesis
    using sm(1,2) c strong
    by (intro exI [of _ sm] exI [of _ "def_symbolIdx c"] exI [of _ "def_symbol c"])
      (auto simp: needs_resolution_def is_definition_def symbol_key_def)
qed

definition sample_importer :: parsed_object where
  "sample_importer = (empty_object ''importer'')\<lparr>obj_symbols :=
     [\<lparr>sym_kind = 0, sym_name = ''add'', sym_index = 0, sym_flags = 0x10\<rparr>]\<rparr>"

definition sample_exporter :: parsed_object where
  "sample_exporter = (empty_object ''exporter'')\<lparr>obj_symbols :=
     [\<lparr>sym_kind = 0, sym_name = ''mul'', sym_index = 0, sym_flags = 0x20\<rparr>,
      \<lparr>sym_kind = 0, sym_name = ''add'', sym_index = 1, sym_flags = 0x21\<rparr>,
      \<lparr>sym_kind = 0, sym_name = ''add'', sym_index = 2, sym_flags = 0x20\<rparr>]\<rparr>"

lemma sample_resolved:
  "resolved (resolveSymbols [sample_importer, sample_exporter]) (0, 0)
    = Some \<lparr>res_targetModule = 1, res_targetIndex = 2, res_name = ''add''\<rparr>"
  by code_simp

lemma sample_no_errors: "errors (resolveSymbols [sample_importer, sample_exporter]) = []"
  by code_simp

theorem resolve_sound_witness:
  "\<exists>sm k d. symbol_at [sample_importer, sample_exporter] 0 0 sm \<and> has_flag sm SYMBOL_UNDEFINED
     \<and> symbol_at [sample_importer, sample_exporter] 1 k d
     \<and> sym_kind d = sym_kind sm \<and> sym_name d = sym_name sm \<and> sym_index d = 2"
  using resolve_sound [OF sample_resolved] by auto

text \<open>C12. Without reported errors every named undefined symbol is resolved, and the strong
  definition it may resolve to is unique.\<close>

theorem resolve_complete:
  assumes "errors (resolveSymbols objects) = []"
    and "symbol_at objects m s sm" and "needs_resolution sm"
  shows "resolved (resolveSymbols objects) (m, s) \<noteq> None
     \<and> (\<forall>m1 s1 d1 m2 s2 d2. symbol_at objects m1 s1 d1 \<and> symbol_at objects m2 s2 d2
          \<and> is_definition d1 \<and> is_definition d2 \<and> symbol_key d1 = symbol_key sm \<and> symbol_key d2 = symbol_key sm
          \<and> \<not> has_flag d1 SYMBOL_BINDING_WEAK \<and> \<not> has_flag d2 SYMBOL_BINDING_WEAK
          \<longrightarrow> m1 = m2 \<and> s1 = s2)"
proof -
  let ?T = "definedSymbols objects"
  let ?defs = "table_defs ?T (symbol_key sm)"
  have ne: "?defs \<noteq> []"
    using assms by (force simp: errors_resolveSymbols filter_empty_conv simp flip: in_all_symbols)
  then have some: "map_of ?T (symbol_key sm) = Some ?defs"
    by (auto simp: table_defs_def split: option.splits)
  have dup: "duplicate_errors objects ?T = []" using assms(1) by (simp add: errors_resolveSymbols)
  have "\<lparr>def_moduleIdx = m1, def_symbolIdx = s1, def_symbol = d1\<rparr>
      = \<lparr>def_moduleIdx = m2, def_symbolIdx = s2, def_symbol = d2\<rparr>"
    if "symbol_at objects m1 s1 d1" "symbol_at objects m2 s2 d2" "is_definition d1" "is_definition d2"
      "symbol_key d1 = symbol_key sm" "symbol_key d2 = symbol_key sm"
      "\<not> has_flag d1 SYMBOL_BINDING_WEAK" "\<not> has_flag d2 SYMBOL_BINDING_WEAK" for m1 s1 d1 m2 s2 d2
    by (rule duplicate_errors_Nil_unique [OF dup some]) (use that in \<open>simp_all add: in_table_defs\<close>)
  moreover have "resolved (resolveSymbols objects) (m, s) = Some (resolution_of ?defs sm)"
    using ne assms(2,3) by (auto simp: resolved_iff)
  ultimately show ?thesis by auto
qed

lemma sample_needs: "symbol_at [sample_importer, sample_exporter] 0 0 (obj_symbols sample_importer ! 0)"
    "needs_resolution (obj_symbols sample_importer ! 0)"
  by (simp_all add: symbol_at_def needs_resolution_def has_flag_def sample_importer_def symbol_consts)

theorem resolve_complete_witness:
  "resolved (resolveSymbols [sample_importer, sample_exporter]) (0, 0) \<noteq> None"
  using resolve_complete [OF sample_no_errors sample_needs] by blast

end
