(* ===== verification/Isolation.thy ===== *)
theory Isolation
  imports Resolver
begin

text \<open>
  The isolation checks of \<open>src/src/link/isolation.ts\<close>. Each check is a function from the parsed
  objects (and the resolution) to the list of violations it pushes, in the order it pushes them;
  \<open>validateIsolation\<close> concatenates the five lists and reports, per property, whether it stayed
  clean. The human-readable message of a violation is a function of the other fields and is not
  kept.
\<close>

section \<open>State\<close>

datatype isolation_property =
    importExportOnly | noSharedGlobals | memoryIsolation | noPrivateFunctionAccess | tableIsolation

record violation =
  vio_property :: isolation_property
  vio_module :: string
  vio_targetModule :: string
  vio_symbol :: string

record isolation_report =
  rep_modules :: "string list"
  rep_importExportOnly :: bool
  rep_noSharedGlobals :: bool
  rep_memoryIsolation :: bool
  rep_noPrivateFunctionAccess :: bool
  rep_tableIsolation :: bool
  rep_violations :: "violation list"

section \<open>The checks\<close>

definition findDefinedSymbol :: "parsed_object \<Rightarrow> string \<Rightarrow> byte \<Rightarrow> symbol_info option" where
  "findDefinedSymbol obj nm kind =
     find (\<lambda>s. sym_name s = nm \<and> sym_kind s = kind \<and> \<not> has_flag s SYMBOL_UNDEFINED) (obj_symbols obj)"

text \<open>
  The loop shared by \<open>checkImportExportOnly\<close> and \<open>checkNoPrivateFunctionAccess\<close>: over every
  undefined symbol that resolves into another module, \<open>bad\<close> tells whether its target symbol
  violates the property.
\<close>

definition check_cross_symbol ::
    "isolation_property \<Rightarrow> (symbol_info \<Rightarrow> bool) \<Rightarrow> parsed_object list \<Rightarrow> resolution
      \<Rightarrow> nat \<times> nat \<times> symbol_info \<Rightarrow> violation list" where
  "check_cross_symbol prop bad objects res = (\<lambda>(m, s, sm).
     if \<not> has_flag sm SYMBOL_UNDEFINED then []
     else case resolved res (m, s) of
       None \<Rightarrow> []
     | Some target \<Rightarrow>
         if res_targetModule target = m then []
         else
           let targetObj = objects ! res_targetModule target in
           case findDefinedSymbol targetObj (sym_name sm) (sym_kind sm) of
             None \<Rightarrow> []
           | Some targetSym \<Rightarrow>
               if bad targetSym
               then [\<lparr>vio_property = prop, vio_module = obj_name (objects ! m),
                      vio_targetModule = obj_name targetObj, vio_symbol = sym_name sm\<rparr>]
               else [])"

definition checkImportExportOnly :: "parsed_object list \<Rightarrow> resolution \<Rightarrow> violation list" where
  "checkImportExportOnly objects res =
     concat (map (check_cross_symbol importExportOnly (\<lambda>t. \<not> has_flag t SYMBOL_EXPORTED) objects res)
       (all_symbols objects))"

definition checkNoPrivateFunctionAccess :: "parsed_object list \<Rightarrow> resolution \<Rightarrow> violation list" where
  "checkNoPrivateFunctionAccess objects res =
     concat (map (check_cross_symbol noPrivateFunctionAccess (\<lambda>t. has_flag t SYMBOL_BINDING_LOCAL) objects res)
       (all_symbols objects))"

definition importGlobals :: "parsed_object \<Rightarrow> nat" where
  "importGlobals obj = length (filter (\<lambda>i. imp_kind i = 3) (obj_imports obj))"

definition is_mutable_global :: "parsed_object \<Rightarrow> symbol_info \<Rightarrow> bool" where
  "is_mutable_global obj sm \<longleftrightarrow>
     sym_kind sm = SYMTAB_GLOBAL \<and> \<not> has_flag sm SYMBOL_UNDEFINED \<and> \<not> has_flag sm SYMBOL_BINDING_LOCAL
     \<and> sym_name sm \<noteq> []
     \<and> (let localGlobalIdx = int (sym_index sm) - int (importGlobals obj) in
        localGlobalIdx \<ge> 0 \<and> localGlobalIdx < int (length (obj_globals obj))
        \<and> glob_mutable (obj_globals obj ! nat localGlobalIdx))"

text \<open>\<open>globalDefs\<close>: an insertion-ordered map from a global's name to the modules that define it.\<close>

definition add_global :: "parsed_object list \<Rightarrow> nat \<times> nat \<times> symbol_info
    \<Rightarrow> (string \<times> nat list) list \<Rightarrow> (string \<times> nat list) list" where
  "add_global objects = (\<lambda>(m, s, sm) table.
     if is_mutable_global (objects ! m) sm
     then AList.update (sym_name sm)
            ((case map_of table (sym_name sm) of None \<Rightarrow> [] | Some l \<Rightarrow> l) @ [m]) table
     else table)"

fun pairs :: "'a list \<Rightarrow> ('a \<times> 'a) list" where
  "pairs [] = []"
| "pairs (x # xs) = map (Pair x) xs @ pairs xs"

definition checkNoSharedGlobals :: "parsed_object list \<Rightarrow> violation list" where
  "checkNoSharedGlobals objects =
     concat (map (\<lambda>(nm, defs).
       map (\<lambda>(i, j). \<lparr>vio_property = noSharedGlobals, vio_module = obj_name (objects ! i),
              vio_targetModule = obj_name (objects ! j), vio_symbol = nm\<rparr>) (pairs defs))
       (fold (add_global objects) (all_symbols objects) []))"

definition checkMemoryIsolation :: "parsed_object list \<Rightarrow> violation list" where
  "checkMemoryIsolation objects =
     concat (map (\<lambda>obj.
       if length (obj_memories obj) > 1
       then [\<lparr>vio_property = memoryIsolation, vio_module = obj_name obj, vio_targetModule = obj_name obj,
              vio_symbol = ''<memory>''\<rparr>]
       else []) objects)"

definition is_table_reloc :: "reloc_entry \<Rightarrow> bool" where
  "is_table_reloc rel \<longleftrightarrow> rel_type rel \<in> {R_WASM_TABLE_NUMBER_LEB, R_WASM_TABLE_INDEX_SLEB,
     R_WASM_TABLE_INDEX_I32, R_WASM_TABLE_INDEX_LEB}"

definition table_symbol :: "symbol_info \<Rightarrow> string" where
  "table_symbol sm = (if sym_name sm \<noteq> [] then sym_name sm else ''<table:'' @ show_nat (sym_index sm) @ ''>'')"

definition check_table_reloc ::
    "parsed_object list \<Rightarrow> resolution \<Rightarrow> nat \<Rightarrow> reloc_entry \<Rightarrow> violation list" where
  "check_table_reloc objects res m rel =
     (let obj = objects ! m in
      if is_table_reloc rel \<and> rel_symbolIndex rel < length (obj_symbols obj)
         \<and> has_flag (obj_symbols obj ! rel_symbolIndex rel) SYMBOL_UNDEFINED
      then case resolved res (m, rel_symbolIndex rel) of
        None \<Rightarrow> []
      | Some target \<Rightarrow>
          if res_targetModule target \<noteq> m
          then [\<lparr>vio_property = tableIsolation, vio_module = obj_name obj,
                 vio_targetModule = obj_name (objects ! res_targetModule target),
                 vio_symbol = table_symbol (obj_symbols obj ! rel_symbolIndex rel)\<rparr>]
          else []
      else [])"

definition checkTableIsolation :: "parsed_object list \<Rightarrow> resolution \<Rightarrow> violation list" where
  "checkTableIsolation objects res =
     concat (map (\<lambda>(m, obj). concat (map (\<lambda>(secName, relocs).
        concat (map (check_table_reloc objects res m) relocs)) (obj_relocations obj)))
       (List.enumerate 0 objects))"

definition clean :: "isolation_property \<Rightarrow> violation list \<Rightarrow> bool" where
  "clean prop vs \<longleftrightarrow> \<not> list_ex (\<lambda>v. vio_property v = prop) vs"

definition validateIsolation :: "parsed_object list \<Rightarrow> resolution \<Rightarrow> isolation_report" where
  "validateIsolation objects res =
     (let vs = checkImportExportOnly objects res @ checkNoSharedGlobals objects
            @ checkMemoryIsolation objects @ checkNoPrivateFunctionAccess objects res
            @ checkTableIsolation objects res
      in \<lparr>rep_modules = map obj_name objects,
          rep_importExportOnly = clean importExportOnly vs,
          rep_noSharedGlobals = clean noSharedGlobals vs,
          rep_memoryIsolation = clean memoryIsolation vs,
          rep_noPrivateFunctionAccess = clean noPrivateFunctionAccess vs,
          rep_tableIsolation = clean tableIsolation vs,
          rep_violations = vs\<rparr>)"

section \<open>Each check reports only its own property\<close>

lemma vio_props:
  "v \<in> set (checkImportExportOnly objects res) \<Longrightarrow> vio_property v = importExportOnly"
  "v \<in> set (checkNoPrivateFunctionAccess objects res) \<Longrightarrow> vio_property v = noPrivateFunctionAccess"
  "v \<in> set (checkNoSharedGlobals objects) \<Longrightarrow> vio_property v = noSharedGlobals"
  "v \<in> set (checkMemoryIsolation objects) \<Longrightarrow> vio_property v = memoryIsolation"
  "v \<in> set (checkTableIsolation objects res) \<Longrightarrow> vio_property v = tableIsolation"
  by (auto simp: checkImportExportOnly_def checkNoPrivateFunctionAccess_def check_cross_symbol_def
      checkNoSharedGlobals_def checkMemoryIsolation_def checkTableIsolation_def check_table_reloc_def
      Let_def split: if_splits option.splits)

lemma clean_append: "clean p (xs @ ys) \<longleftrightarrow> clean p xs \<and> clean p ys"
  by (simp add: clean_def)

lemma clean_iff_Nil:
  "clean importExportOnly (checkImportExportOnly objects res) \<longleftrightarrow> checkImportExportOnly objects res = []"
  "clean noPrivateFunctionAccess (checkNoPrivateFunctionAccess objects res)
     \<longleftrightarrow> checkNoPrivateFunctionAccess objects res = []"
  "clean noSharedGlobals (checkNoSharedGlobals objects) \<longleftrightarrow> checkNoSharedGlobals objects = []"
  "clean memoryIsolation (checkMemoryIsolation objects) \<longleftrightarrow> checkMemoryIsolation objects = []"
  "clean tableIsolation (checkTableIsolation objects res) \<longleftrightarrow> checkTableIsolation objects res = []"
  by (auto simp: clean_def list_ex_iff dest: vio_props) (meson last_in_set vio_props)+

lemma clean_other:
  "p \<noteq> importExportOnly \<Longrightarrow> clean p (checkImportExportOnly objects res)"
  "p \<noteq> noPrivateFunctionAccess \<Longrightarrow> clean p (checkNoPrivateFunctionAccess objects res)"
  "p \<noteq> noSharedGlobals \<Longrightarrow> clean p (checkNoSharedGlobals objects)"
  "p \<noteq> memoryIsolation \<Longrightarrow> clean p (checkMemoryIsolation objects)"
  "p \<noteq> tableIsolation \<Longrightarrow> clean p (checkTableIsolation objects res)"
  by (auto simp: clean_def list_ex_iff dest: vio_props)

lemma report_flags:
  "rep_importExportOnly (validateIsolation objects res) \<longleftrightarrow> checkImportExportOnly objects res = []"
  "rep_noSharedGlobals (validateIsolation objects res) \<longleftrightarrow> checkNoSharedGlobals objects = []"
  "rep_memoryIsolation (validateIsolation objects res) \<longleftrightarrow> checkMemoryIsolation objects = []"
  "rep_noPrivateFunctionAccess (validateIsolation objects res) \<longleftrightarrow> checkNoPrivateFunctionAccess objects res = []"
  "rep_tableIsolation (validateIsolation objects res) \<longleftrightarrow> checkTableIsolation objects res = []"
  by (simp_all add: validateIsolation_def Let_def clean_append clean_other clean_iff_Nil)

section \<open>Shared globals\<close>

lemma pairs_Nil_iff: "pairs xs = [] \<longleftrightarrow> length xs \<le> 1"
  by (cases xs; cases "tl xs") auto

lemma add_global_table:
  "(case map_of (fold (add_global objects) xs table) nm of None \<Rightarrow> [] | Some l \<Rightarrow> l) =
     (case map_of table nm of None \<Rightarrow> [] | Some l \<Rightarrow> l)
     @ map (\<lambda>(m, s, sm). m) (filter (\<lambda>(m, s, sm). is_mutable_global (objects ! m) sm \<and> sym_name sm = nm) xs)"
  by (induction xs arbitrary: table) (auto simp: add_global_def update_conv' split: if_splits option.splits)

lemma distinct_fst_add_global:
  "distinct (map fst table) \<Longrightarrow> distinct (map fst (fold (add_global objects) xs table))"
  by (induction xs arbitrary: table) (auto simp: add_global_def distinct_update)

definition global_defs :: "parsed_object list \<Rightarrow> string \<Rightarrow> (nat \<times> nat \<times> symbol_info) list" where
  "global_defs objects nm =
     filter (\<lambda>(m, s, sm). is_mutable_global (objects ! m) sm \<and> sym_name sm = nm) (all_symbols objects)"

lemma no_shared_globals_iff:
  "checkNoSharedGlobals objects = [] \<longleftrightarrow> (\<forall>nm. length (global_defs objects nm) \<le> 1)"
proof -
  let ?t = "fold (add_global objects) (all_symbols objects) []"
  have look: "(case map_of ?t nm of None \<Rightarrow> [] | Some l \<Rightarrow> l) = map (\<lambda>(m, s, sm). m) (global_defs objects nm)" for nm
    using add_global_table [of objects "all_symbols objects" "[]" nm] by (simp add: global_defs_def)
  have d: "distinct (map fst ?t)" by (rule distinct_fst_add_global) simp
  have "checkNoSharedGlobals objects = [] \<longleftrightarrow> (\<forall>(nm, l) \<in> set ?t. length l \<le> 1)"
    by (simp add: checkNoSharedGlobals_def pairs_Nil_iff split_def)
  also have "\<dots> \<longleftrightarrow> (\<forall>nm. length (case map_of ?t nm of None \<Rightarrow> [] | Some l \<Rightarrow> l) \<le> 1)"
    using d by (auto simp: map_of_eq_Some_iff split: option.splits)
  finally show ?thesis by (simp add: look)
qed

lemma length_le_1_iff: "distinct xs \<Longrightarrow> length xs \<le> 1 \<longleftrightarrow> (\<forall>x\<in>set xs. \<forall>y\<in>set xs. x = y)"
  by (cases xs; cases "tl xs") auto

lemma global_defs_unique:
  "length (global_defs objects nm) \<le> 1 \<longleftrightarrow>
     (\<forall>x \<in> set (global_defs objects nm). \<forall>y \<in> set (global_defs objects nm). x = y)"
proof (rule length_le_1_iff)
  have "distinct (all_symbols objects)"
    using distinct_all_symbols [of objects] by (simp only: distinct_map)
  then show "distinct (global_defs objects nm)" by (simp add: global_defs_def)
qed

text \<open>
  The report claims that no global is shared exactly when no two symbol-table entries, in
  whatever modules, define visible mutable globals of the same name.
\<close>

theorem isolation_shared_globals:
  "rep_noSharedGlobals (validateIsolation objects res) \<longleftrightarrow>
     (\<forall>m s sm m' s' sm'.
        symbol_at objects m s sm \<and> is_mutable_global (objects ! m) sm
        \<and> symbol_at objects m' s' sm' \<and> is_mutable_global (objects ! m') sm'
        \<and> sym_name sm = sym_name sm' \<longrightarrow> m = m' \<and> s = s')"
proof -
  have "rep_noSharedGlobals (validateIsolation objects res) \<longleftrightarrow>
      (\<forall>nm. \<forall>x \<in> set (global_defs objects nm). \<forall>y \<in> set (global_defs objects nm). x = y)"
    by (simp only: report_flags no_shared_globals_iff global_defs_unique)
  also have "\<dots> \<longleftrightarrow> (\<forall>m s sm m' s' sm'. symbol_at objects m s sm \<and> is_mutable_global (objects ! m) sm
        \<and> symbol_at objects m' s' sm' \<and> is_mutable_global (objects ! m') sm'
        \<and> sym_name sm = sym_name sm' \<longrightarrow> (m, s, sm) = (m', s', sm'))"
    by (fastforce simp: global_defs_def in_all_symbols)
  also have "\<dots> \<longleftrightarrow> (\<forall>m s sm m' s' sm'. symbol_at objects m s sm \<and> is_mutable_global (objects ! m) sm
        \<and> symbol_at objects m' s' sm' \<and> is_mutable_global (objects ! m') sm'
        \<and> sym_name sm = sym_name sm' \<longrightarrow> m = m' \<and> s = s')"
    by (auto simp: symbol_at_def)
  finally show ?thesis .
qed

definition sample_shared :: "string \<Rightarrow> parsed_object" where
  "sample_shared nm = (empty_object nm)\<lparr>
     obj_globals := [\<lparr>glob_type = 0x7f, glob_mutable = True, glob_init = [0x41, 0x00, 0x0b]\<rparr>],
     obj_symbols := [\<lparr>sym_kind = 2, sym_name = ''counter'', sym_index = 0, sym_flags = 0\<rparr>]\<rparr>"

lemma sample_shared_global:
  "symbol_at [sample_shared ''a'', sample_shared ''b''] 0 0 (obj_symbols (sample_shared ''a'') ! 0)"
  "symbol_at [sample_shared ''a'', sample_shared ''b''] 1 0 (obj_symbols (sample_shared ''a'') ! 0)"
  "is_mutable_global (sample_shared nm) (obj_symbols (sample_shared ''a'') ! 0)"
  by (simp_all add: symbol_at_def sample_shared_def is_mutable_global_def has_flag_def symbol_consts importGlobals_def
      empty_object_def)

theorem isolation_shared_globals_witness:
  "\<not> rep_noSharedGlobals (validateIsolation [sample_shared ''a'', sample_shared ''b'']
      (resolveSymbols [sample_shared ''a'', sample_shared ''b'']))"
proof -
  let ?objs = "[sample_shared ''a'', sample_shared ''b'']" and ?sm = "obj_symbols (sample_shared ''a'') ! 0"
  have "symbol_at ?objs 0 0 ?sm \<and> is_mutable_global (?objs ! 0) ?sm \<and> symbol_at ?objs 1 0 ?sm
      \<and> is_mutable_global (?objs ! 1) ?sm \<and> sym_name ?sm = sym_name ?sm \<and> \<not> ((0::nat) = 1 \<and> (0::nat) = 0)"
    using sample_shared_global by simp
  then show ?thesis
    unfolding isolation_shared_globals [of ?objs "resolveSymbols ?objs"] by metis
qed

section \<open>Cross-module references\<close>

lemma check_cross_Nil_iff:
  "concat (map (check_cross_symbol prop bad objects res) (all_symbols objects)) = [] \<longleftrightarrow>
     (\<forall>m s sm target t. symbol_at objects m s sm \<and> has_flag sm SYMBOL_UNDEFINED
        \<and> resolved res (m, s) = Some target \<and> res_targetModule target \<noteq> m
        \<and> findDefinedSymbol (objects ! res_targetModule target) (sym_name sm) (sym_kind sm) = Some t
        \<longrightarrow> \<not> bad t)"
  unfolding concat_map_Nil_iff
  by (fastforce simp: check_cross_symbol_def Let_def in_all_symbols [symmetric] split: option.splits if_splits)

text \<open>
  C30. When no module defines two symbols of the same kind and name, the references the resolver
  makes never reach a local symbol: the report on its own resolution always has
  \<open>noPrivateFunctionAccess\<close>.
\<close>

theorem isolation_no_private_access:
  assumes "\<forall>m s sm s' sm'. symbol_at objects m s sm \<and> symbol_at objects m s' sm'
      \<and> symbol_key sm = symbol_key sm' \<and> \<not> has_flag sm SYMBOL_UNDEFINED \<and> \<not> has_flag sm' SYMBOL_UNDEFINED
      \<longrightarrow> s = s'"
  shows "rep_noPrivateFunctionAccess (validateIsolation objects (resolveSymbols objects))"
  unfolding report_flags checkNoPrivateFunctionAccess_def check_cross_Nil_iff
proof (intro allI impI, elim conjE)
  fix m s sm target t
  assume sm: "symbol_at objects m s sm" and r: "resolved (resolveSymbols objects) (m, s) = Some target"
    and f: "findDefinedSymbol (objects ! res_targetModule target) (sym_name sm) (sym_kind sm) = Some t"
  from r obtain k d where d: "symbol_at objects (res_targetModule target) k d" "symbol_key d = symbol_key sm"
    "\<not> has_flag d SYMBOL_UNDEFINED" "\<not> has_flag d SYMBOL_BINDING_LOCAL"
    using sm by (auto simp: is_definition_def elim: resolved_target)
  from f obtain i where i: "i < length (obj_symbols (objects ! res_targetModule target))"
    "obj_symbols (objects ! res_targetModule target) ! i = t" "symbol_key t = symbol_key sm" "\<not> has_flag t SYMBOL_UNDEFINED"
    by (auto simp: findDefinedSymbol_def find_Some_iff symbol_key_def)
  then have "symbol_at objects (res_targetModule target) i t" using d(1) by (simp add: symbol_at_def)
  then have "i = k" using assms i(3,4) d(1,2,3) by metis
  then have "t = d" using i d(1) by (simp add: symbol_at_def)
  with d show "\<not> has_flag t SYMBOL_BINDING_LOCAL" by simp
qed

definition sample_provider :: parsed_object where
  "sample_provider = (empty_object ''provider'')\<lparr>obj_symbols :=
     [\<lparr>sym_kind = 0, sym_name = ''add'', sym_index = 0, sym_flags = 0x20\<rparr>]\<rparr>"

theorem isolation_no_private_access_witness:
  "rep_noPrivateFunctionAccess (validateIsolation [sample_importer, sample_provider]
     (resolveSymbols [sample_importer, sample_provider]))"
  by (rule isolation_no_private_access)
    (auto simp: symbol_at_def sample_importer_def sample_provider_def less_Suc_eq)

end
