(* ===== verification/Codec.thy ===== *)
theory Codec
  imports Reader
begin

text \<open>
  The contract between the writers of \<open>src/src/emit/encoder.ts\<close> and the readers of
  \<open>src/src/link/reader.ts\<close>. \<open>transmits w g v\<close>: whenever the writer \<open>w\<close> succeeds, the bytes it has
  appended are read back by \<open>g\<close> as \<open>v\<close>. The locale \<open>codec\<close> is the contract for a family of values;
  a codec for entries gives one for vectors of entries. The basic codecs (bytes, \<open>u32\<close>, names,
  constant expressions) are here, those of the section entries in \<open>Linker\<close>.
\<close>

section \<open>Writers and readers that agree\<close>

definition transmits ::
    "(wasm_encoder \<Rightarrow> 'err + wasm_encoder) \<Rightarrow> (byte_reader \<Rightarrow> 'read_err + ('a \<times> byte_reader)) \<Rightarrow> 'a \<Rightarrow> bool" where
  "transmits w g v \<longleftrightarrow>
     (\<forall>e e'. encoder_inv e \<longrightarrow> w e = Inr e' \<longrightarrow>
        (\<exists>bs. encoder_inv e' \<and> finish e' = finish e @ bs \<and> reads g bs v))"

lemma transmitsI:
  "(\<And>e e'. encoder_inv e \<Longrightarrow> w e = Inr e' \<Longrightarrow>
      \<exists>bs. encoder_inv e' \<and> finish e' = finish e @ bs \<and> reads g bs v) \<Longrightarrow> transmits w g v"
  by (simp add: transmits_def)

lemma transmitsE:
  assumes "transmits w g v" and "encoder_inv e" and "w e = Inr e'"
  obtains bs where "encoder_inv e'" and "finish e' = finish e @ bs" and "reads g bs v"
  using assms by (auto simp: transmits_def)

lemma transmits_bind:
  assumes "transmits w g v" and "transmits u (\<lambda>r. f (v, r)) x"
  shows "transmits (\<lambda>e. rbind (w e) u) (\<lambda>r. rbind (g r) f) x"
proof (rule transmitsI)
  fix e e'
  assume e: "encoder_inv e" and "rbind (w e) u = Inr e'"
  then obtain e1 where 1: "w e = Inr e1" and 2: "u e1 = Inr e'" by auto
  obtain bs where bs: "encoder_inv e1" "finish e1 = finish e @ bs" "reads g bs v"
    using assms(1) e 1 by (rule transmitsE)
  obtain cs where cs: "encoder_inv e'" "finish e' = finish e1 @ cs" "reads (\<lambda>r. f (v, r)) cs x"
    using assms(2) bs(1) 2 by (rule transmitsE)
  have "reads (\<lambda>r. rbind (g r) f) (bs @ cs) x" by (rule reads_bind [OF bs(3) cs(3)])
  then show "\<exists>bs. encoder_inv e' \<and> finish e' = finish e @ bs \<and> reads (\<lambda>r. rbind (g r) f) bs x"
    using bs(2) cs by auto
qed

lemma transmits_map:
  assumes "transmits w g v" and "\<And>r. f (v, r) = Inr (x, r)"
  shows "transmits w (\<lambda>r. rbind (g r) f) x"
proof (rule transmitsI)
  fix e e'
  assume e: "encoder_inv e" and w: "w e = Inr e'"
  obtain bs where "encoder_inv e'" "finish e' = finish e @ bs" "reads g bs v"
    using assms(1) e w by (rule transmitsE)
  then show "\<exists>bs. encoder_inv e' \<and> finish e' = finish e @ bs \<and> reads (\<lambda>r. rbind (g r) f) bs x"
    using reads_map [of g _ v f x] assms(2) by blast
qed

lemma transmits_done: "transmits Inr (\<lambda>r. Inr (v, r)) v"
  by (rule transmitsI) (auto intro: exI [of _ "[]"] reads_Inr)

lemma rseq_Cons_fun: "rseq (w # ws) = (\<lambda>s. rbind (w s) (rseq ws))"
  and rseq_Nil_fun: "rseq [] = Inr"
  by (rule ext, simp)+

lemma transmits_rseq_Nil [codec_intros]: "transmits (rseq []) (\<lambda>r. Inr (v, r)) v"
  unfolding rseq_Nil_fun by (rule transmits_done)

lemma transmits_rseq_Cons [codec_intros]:
  "transmits w g v \<Longrightarrow> transmits (rseq ws) (f v) x \<Longrightarrow> transmits (rseq (w # ws)) (\<lambda>r. rbind (g r) (case_prod f)) x"
  unfolding rseq_Cons_fun by (rule transmits_bind) simp_all

lemma transmits_rseq_Inr:
  "transmits (rseq ws) g x \<Longrightarrow> transmits (rseq (Inr # ws)) g x"
  unfolding rseq_Cons_fun by simp

lemma transmits_rseq_single: "transmits w g v \<Longrightarrow> transmits (rseq [w]) g v"
  by (auto simp: transmits_def)

lemma transmits_rfold_map:
  assumes "\<And>v. v \<in> set vs \<Longrightarrow> transmits (w v) g (f v)"
  shows "transmits (rfold w vs) (rtimes (length vs) g) (map f vs)"
  using assms
proof (induction vs)
  case Nil
  show ?case using transmits_done by (simp add: transmits_def)
next
  case (Cons v vs)
  have "transmits (\<lambda>e. rbind (w v e) (rfold w vs))
      (\<lambda>r. rbind (g r) (\<lambda>(x, s'). rbind (rtimes (length vs) g s') (\<lambda>(xs, s''). Inr (x # xs, s'')))) (map f (v # vs))"
  proof (rule transmits_bind [where v = "f v"])
    show "transmits (w v) g (f v)" using Cons.prems by simp
    have "transmits (\<lambda>e. rbind (rfold w vs e) Inr)
        (\<lambda>r. rbind (rtimes (length vs) g r) (\<lambda>(xs, s''). Inr (f v # xs, s''))) (map f (v # vs))"
      by (rule transmits_bind [OF Cons.IH]) (use Cons.prems transmits_done in auto)
    then show "transmits (rfold w vs)
        (\<lambda>r. case (f v, r) of (x, s') \<Rightarrow> rbind (rtimes (length vs) g s') (\<lambda>(xs, s''). Inr (x # xs, s''))) (map f (v # vs))"
      by simp
  qed
  then show ?case by (simp add: transmits_def reads_def)
qed

lemma transmits_rfold:
  "(\<And>v. v \<in> set vs \<Longrightarrow> transmits (w v) g v) \<Longrightarrow> transmits (rfold w vs) (rtimes (length vs) g) vs"
  using transmits_rfold_map [of vs w g "\<lambda>v. v"] by simp

section \<open>Basic codecs\<close>

lemma enc_u32_Inr: "enc_u32 n e = Inr e' \<Longrightarrow> 0 \<le> n \<and> n < 2 ^ 32"
  by (auto simp: enc_u32_def split: if_splits)

lemma transmits_u32: "transmits (enc_u32 (int n)) rd_u32 n"
proof (rule transmitsI)
  fix e e'
  assume e: "encoder_inv e" and w: "enc_u32 (int n) e = Inr e'"
  from enc_u32_Inr [OF w] have n: "0 \<le> int n" "int n < 2 ^ 32" by simp_all
  obtain e1 where "enc_u32 (int n) e = Inr e1" "encoder_inv e1" "finish e1 = finish e @ uleb (word_of_int (int n))"
    using enc.appendsD [OF enc_u32_appends [OF n] e] by auto
  with w have "encoder_inv e'" "finish e' = finish e @ uleb (word_of_int (int n))" by auto
  moreover have "unat (word_of_int (int n) :: u32) = n"
    using n by (simp add: unat_of_nat take_bit_eq_mod)
  then have "reads rd_u32 (uleb (word_of_int (int n))) n"
    using reads_rd_u32 [of "word_of_int (int n)"] by simp
  ultimately show "\<exists>bs. encoder_inv e' \<and> finish e' = finish e @ bs \<and> reads rd_u32 bs n" by blast
qed

lemma transmits_uint_byte: "transmits (\<lambda>e. Inr (enc_byte (uint b) e)) rd_byte b"
  by (rule transmitsI) (auto simp: enc_byte_props reads_rd_byte)

lemma transmits_byte: "transmits (\<lambda>e. Inr (enc_byte b e)) rd_byte (word_of_int b)"
  by (rule transmitsI) (auto simp: enc_byte_props reads_rd_byte)

lemma transmits_bytes: "transmits (\<lambda>e. Inr (enc_bytes bs e)) (rd_bytes (length bs)) bs"
  by (rule transmitsI) (auto simp: enc_bytes_props reads_rd_bytes)

lemma transmits_bytes_by: "reads g bs v \<Longrightarrow> transmits (\<lambda>e. Inr (enc_bytes bs e)) g v"
  by (rule transmitsI) (auto simp: enc_bytes_props)

lemma transmits_name:
  assumes "dec (utf8 s) = s"
  shows "transmits (enc_name utf8 s) (rd_name dec) s"
proof -
  have "transmits (\<lambda>e. Inr (enc_bytes (utf8 s) e)) (\<lambda>r. rbind (rd_bytes (length (utf8 s)) r) (\<lambda>(bs, r). Inr (dec bs, r))) s"
    by (rule transmits_bytes_by, rule reads_map [OF reads_rd_bytes]) (simp add: assms)
  then show ?thesis
    unfolding enc_name_def [abs_def] rd_name_def [abs_def] Let_def
    by (intro transmits_bind [OF transmits_u32]) simp
qed

subsection \<open>Constant expressions\<close>

text \<open>
  A constant expression, as the reader delimits it: bytes up to and including the first
  \<open>0x0b\<close>. A sequence of \<open>n\<close> of them has \<open>n\<close> such bytes, the last one at its end.
\<close>

definition expr_seq :: "nat \<Rightarrow> byte list \<Rightarrow> bool" where
  "expr_seq n bs \<longleftrightarrow> count_list bs 0x0b = n \<and> (bs = [] \<or> last bs = 0x0b)"

lemma reads_scan_end:
  assumes "0x0b \<notin> set xs" and "pos r \<le> length (data r)" and "rest r = xs @ [0x0b] @ ys"
  shows "rd_scan_end r = Inr (skip (length xs + 1) r)"
  using assms
proof (induction xs arbitrary: r)
  case Nil
  then have "rd_byte r = Inr (0x0b, skip 1 r)" using readsD [OF reads_rd_byte, of r "0x0b" ys] by simp
  then show ?case by (subst rd_scan_end.simps) simp
next
  case (Cons x xs)
  then have b: "rd_byte r = Inr (x, skip 1 r)"
    using readsD [OF reads_rd_byte, of r x "xs @ [0x0b] @ ys"] by simp
  have "rd_scan_end (skip 1 r) = Inr (skip (length xs + 1) (skip 1 r))"
  proof (rule Cons.IH)
    show "pos (skip 1 r) \<le> length (data (skip 1 r))"
      using skip_in_range [OF Cons.prems(2), of "[x]"] Cons.prems(3) by simp
  qed (use Cons.prems in \<open>auto simp: rest_skip\<close>)
  with b Cons.prems(1) show ?case by (subst rd_scan_end.simps) (simp add: skip_skip add.commute)
qed

lemma reads_expr1: "0x0b \<notin> set xs \<Longrightarrow> reads rd_expr (xs @ [0x0b]) (xs @ [0x0b])"
proof (rule readsI)
  fix r ys
  assume "0x0b \<notin> set xs" and p: "pos r \<le> length (data r)" and r: "rest r = (xs @ [0x0b]) @ ys"
  then have "rd_scan_end r = Inr (skip (length xs + 1) r)" by (intro reads_scan_end) auto
  with r show "rd_expr r = Inr (xs @ [0x0b], skip (length (xs @ [0x0b])) r)"
    by (simp add: rd_expr_def slice_def skip_def rest_def)
qed

lemma split_first_end:
  assumes "expr_seq (Suc n) bs"
  obtains xs ys where "bs = (xs @ [0x0b]) @ ys" and "0x0b \<notin> set xs" and "expr_seq n ys"
proof -
  from assms have "0x0b \<in> set bs" by (metis count_notin expr_seq_def nat.distinct(1))
  then obtain xs ys where bs: "bs = xs @ 0x0b # ys" and xs: "0x0b \<notin> set xs" by (meson split_list_first)
  show ?thesis
    by (rule that [OF _ xs]) (use assms bs xs in \<open>auto simp: expr_seq_def split: if_splits\<close>)
qed

lemma expr_seq_0: "expr_seq 0 bs \<Longrightarrow> bs = []"
  by (metis count_list_0_iff expr_seq_def last_in_set)

lemma reads_expr_seq: "expr_seq n bs \<Longrightarrow> \<exists>vs. reads (rtimes n rd_expr) bs vs"
proof (induction n arbitrary: bs)
  case 0
  then have "bs = []" by (rule expr_seq_0)
  then show ?case by (auto simp: reads_def skip_0)
next
  case (Suc n)
  from Suc.prems obtain xs ys where bs: "bs = (xs @ [0x0b]) @ ys" and xs: "0x0b \<notin> set xs" and ys: "expr_seq n ys"
    by (rule split_first_end)
  from Suc.IH [OF ys] obtain vs where "reads (rtimes n rd_expr) ys vs" ..
  then have "reads (\<lambda>r. rbind (rd_expr r) (\<lambda>(x, s'). rbind (rtimes n rd_expr s') (\<lambda>(xs, s''). Inr (x # xs, s''))))
      bs ((xs @ [0x0b]) # vs)"
    unfolding bs by (intro reads_bind [OF reads_expr1 [OF xs]]) (simp, rule reads_map, assumption, simp)
  then show ?case by (auto simp: reads_def)
qed

lemma reads_expr: "expr_seq 1 bs \<Longrightarrow> reads rd_expr bs bs"
  by (auto elim!: split_first_end [of 0, simplified] dest!: expr_seq_0 intro: reads_expr1)

section \<open>The codec interface\<close>

locale codec =
  fixes put :: "'a \<Rightarrow> wasm_encoder \<Rightarrow> enc_error + wasm_encoder"
    and get :: "byte_reader \<Rightarrow> read_error + ('a \<times> byte_reader)"
    and wf :: "'a \<Rightarrow> bool"
  assumes roundtrip: "wf v \<Longrightarrow> transmits (put v) get v"
begin

lemma transmits_all: "\<forall>v\<in>set vs. wf v \<Longrightarrow> transmits (rfold put vs) (rtimes (length vs) get) vs"
  by (rule transmits_rfold) (simp add: roundtrip)

text \<open>\<open>enc_vector\<close> writes what the section parsers' counted loops read.\<close>

lemma transmits_vector: "\<forall>v\<in>set vs. wf v \<Longrightarrow> transmits (enc_vector vs put) (rd_vec get) vs"
  unfolding enc_vector_def [abs_def] rd_vec_def [abs_def]
  by (rule transmits_bind [OF transmits_u32]) (simp add: transmits_all)

end

interpretation u32: codec "\<lambda>n. enc_u32 (int n)" rd_u32 "\<lambda>_. True"
  by unfold_locales (rule transmits_u32)

section \<open>Properties of the LEB128 codec\<close>

lemma length_uleb: "unat v < 2 ^ (7 * Suc k) \<Longrightarrow> length (uleb v) \<le> Suc k"
proof (induction k arbitrary: v)
  case 0
  then have "drop_bit 7 v = 0"
    unfolding word_unat_eq_iff unat_drop_bit_eq by (simp add: drop_bit_eq_div)
  then show ?case by (simp add: uleb.simps [of v])
next
  case (Suc k)
  show ?case
  proof (cases "drop_bit 7 v = 0")
    case True
    then show ?thesis by (simp add: uleb.simps [of v])
  next
    case False
    have "unat (drop_bit 7 v) = unat v div 2 ^ 7" unfolding unat_drop_bit_eq by (simp add: drop_bit_eq_div)
    also have "\<dots> < 2 ^ (7 * Suc k)"
    proof (rule less_mult_imp_div_less)
      have "(2 :: nat) ^ (7 * Suc k) * 2 ^ 7 = 2 ^ (7 * Suc (Suc k))"
        by (simp only: power_add [symmetric] mult_Suc_right add.commute)
      with Suc.prems show "unat v < 2 ^ (7 * Suc k) * 2 ^ 7" by (simp only:)
    qed
    finally have "length (uleb (drop_bit 7 v)) \<le> Suc k" by (rule Suc.IH)
    with False show ?thesis by (simp add: uleb.simps [of v])
  qed
qed

lemma length_uleb_5: "length (uleb v) \<le> 5"
proof -
  have "unat v < 2 ^ 32" using unsigned_less [of v] by simp
  also have "(2 :: nat) ^ 32 \<le> 2 ^ (7 * Suc 4)" by (rule power_increasing) simp_all
  finally show ?thesis using length_uleb [of v 4] by simp
qed

text \<open>
  C39. \<open>u32\<close> writes and reads every 32-bit value: outside the range the writer throws, inside it
  appends between one and five bytes that \<open>ByteReader.u32\<close> reads back as the value.
\<close>

theorem u32_roundtrip:
  assumes "encoder_inv e"
  shows "case enc_u32 n e of
      Inl err \<Rightarrow> err = U32OutOfRange n \<and> (n < 0 \<or> 2 ^ 32 \<le> n)
    | Inr e' \<Rightarrow> 0 \<le> n \<and> n < 2 ^ 32 \<and> encoder_inv e'
        \<and> (\<exists>bs. finish e' = finish e @ bs \<and> 1 \<le> length bs \<and> length bs \<le> 5 \<and> reads rd_u32 bs (nat n))"
proof (cases "0 \<le> n \<and> n < 2 ^ 32")
  case False
  then show ?thesis by (auto simp: enc_u32_def)
next
  case True
  then obtain e' where w: "enc_u32 n e = Inr e'" "encoder_inv e'" "finish e' = finish e @ uleb (word_of_int n)"
    using enc.appendsD [OF enc_u32_appends assms, of n] by auto
  have "unat (word_of_int n :: u32) = nat n"
    using True by (simp add: unat_eq_nat_uint uint_word_of_int)
  then have "reads rd_u32 (uleb (word_of_int n)) (nat n)" using reads_rd_u32 [of "word_of_int n"] by simp
  moreover have "1 \<le> length (uleb (word_of_int n))" using uleb_not_Nil by (simp add: Suc_le_eq)
  ultimately show ?thesis using w True length_uleb_5 by auto
qed

theorem u32_roundtrip_witness:
  "\<exists>e'. enc_u32 300 new_encoder = Inr e' \<and> (\<exists>bs. finish e' = finish new_encoder @ bs \<and> reads rd_u32 bs 300)"
  using u32_roundtrip [OF new_encoder_inv, of 300] by (auto simp: enc_u32_def)

text \<open>
  C40. \<open>i32\<close> appends a signed LEB128 that \<open>ByteReader.i32\<close> reads back as the argument reduced to
  an int32, whatever integer it was given; \<open>i64\<close> writes the same encoding of the int64.
\<close>

theorem i32_roundtrip:
  assumes "encoder_inv e"
  shows "encoder_inv (enc_i32 v e) \<and> finish (enc_i32 v e) = finish e @ sleb (signed_take_bit 31 v)
    \<and> reads rd_i32 (sleb (signed_take_bit 31 v)) (signed_take_bit 31 v)
    \<and> finish (enc_i64 v e) = finish e @ sleb (signed_take_bit 63 v)"
proof -
  have "- (2 ^ 31) \<le> signed_take_bit 31 v" "signed_take_bit 31 v < 2 ^ 31"
    by (rule signed_take_bit_int_greater_eq_minus_exp, rule signed_take_bit_int_less_exp)
  then show ?thesis
    using sleb_loop_appends [OF assms] by (simp add: enc_i32_def enc_i64_def reads_rd_i32)
qed

theorem i32_roundtrip_witness:
  "finish (enc_i32 (- 65) new_encoder) = [0xbf, 0x7f] \<and> reads rd_i32 [0xbf, 0x7f] (- 65)"
proof -
  have "signed_take_bit 31 (- 65 :: int) = - 65" by (simp add: signed_take_bit_int_eq_self)
  moreover have "sleb (- 65) = [0xbf, 0x7f]" by code_simp
  ultimately show ?thesis using i32_roundtrip [OF new_encoder_inv, of "- 65"] by (simp add: finish_new_encoder)
qed

end
