(* ===== verification/Linker.thy ===== *)
theory Linker
  imports Isolation Codec
begin

text \<open>
  The multi-memory linker of \<open>src/src/link/linker.ts\<close>: \<open>computeOffsets\<close>, the rewriting of
  function bodies, \<open>emitLinked\<close>, the WAT stub and \<open>link\<close> itself. JavaScript numbers that hold
  indices and counts are natural numbers; where the source forces 32 bits (\<open>>>> 0\<close>, \<open><<\<close>) the
  model goes through \<open>u32\<close>. The environment variable \<open>JS2WASM_TRACE_LAST_STMT\<close> is the argument
  \<open>trace\<close>, \<open>TextEncoder\<close> and \<open>TextDecoder\<close> are \<open>utf8\<close> and \<open>dec\<close>.
\<close>

section \<open>Offsets\<close>

record module_offsets =
  typeOffset :: nat
  funcOffset :: nat
  globalOffset :: nat
  memoryOffset :: nat
  tableOffset :: nat
  tagOffset :: nat

definition imports_of_kind :: "byte \<Rightarrow> parsed_object \<Rightarrow> nat" where
  "imports_of_kind k obj = length (filter (\<lambda>i. imp_kind i = k) (obj_imports obj))"

definition advance_offsets :: "parsed_object \<Rightarrow> module_offsets \<Rightarrow> module_offsets" where
  "advance_offsets obj off = \<lparr>
     typeOffset = typeOffset off + length (obj_types obj),
     funcOffset = funcOffset off + (imports_of_kind 0 obj + length (obj_functions obj)),
     globalOffset = globalOffset off + (imports_of_kind 3 obj + length (obj_globals obj)),
     memoryOffset = memoryOffset off + (imports_of_kind 2 obj + length (obj_memories obj)),
     tableOffset = tableOffset off + (imports_of_kind 1 obj + length (obj_tables obj)),
     tagOffset = tagOffset off + (imports_of_kind 4 obj + length (obj_tags obj))\<rparr>"

definition zero_offsets :: module_offsets where
  "zero_offsets = \<lparr>typeOffset = 0, funcOffset = 0, globalOffset = 0, memoryOffset = 0,
     tableOffset = 0, tagOffset = 0\<rparr>"

fun offsets_loop :: "module_offsets \<Rightarrow> parsed_object list \<Rightarrow> module_offsets list" where
  "offsets_loop off [] = []"
| "offsets_loop off (obj # objs) = off # offsets_loop (advance_offsets obj off) objs"

definition computeOffsets :: "parsed_object list \<Rightarrow> module_offsets list" where
  "computeOffsets parsed = offsets_loop zero_offsets parsed"

section \<open>LEB128 helpers of the rewriter\<close>

function append_loop :: "u32 \<Rightarrow> byte list \<Rightarrow> byte list" where
  "append_loop v out =
     (let b = v AND 0x7f;
          v' = drop_bit 7 v;
          b = (if v' \<noteq> 0 then b OR 0x80 else b);
          out' = out @ [ucast b]
      in if v' \<noteq> 0 then append_loop v' out' else out')"
  by pat_completeness auto
termination
  by (relation "measure (\<lambda>(v, out). unat v)") (auto simp: unat_drop_bit_less)

declare append_loop.simps [simp del]

definition appendLEB128 :: "byte list \<Rightarrow> nat \<Rightarrow> byte list" where
  "appendLEB128 out v = append_loop (of_nat v) out"

text \<open>
  \<open>data[pos + size]\<close> past the end is \<open>undefined\<close>, which the bit operations take as 0: the loop
  ends there.
\<close>

definition byte_at :: "byte list \<Rightarrow> nat \<Rightarrow> byte" where
  "byte_at bs i = (if i < length bs then bs ! i else 0)"

lemma byte_at_continue: "byte_at bs i AND 0x80 \<noteq> 0 \<Longrightarrow> i < length bs"
  by (auto simp: byte_at_def split: if_splits)

function read_loop :: "byte list \<Rightarrow> nat \<Rightarrow> u32 \<Rightarrow> nat \<Rightarrow> nat \<Rightarrow> u32 \<times> nat" where
  "read_loop bs i result shift sz =
     (let b = byte_at bs (i + sz);
          result' = result OR push_bit (shift mod 32) (ucast (b AND 0x7f))
      in if b AND 0x80 \<noteq> 0 then read_loop bs i result' (shift + 7) (sz + 1)
         else (result', sz + 1))"
  by pat_completeness auto
termination
  by (relation "measure (\<lambda>(bs, i, result, shift, sz). length bs - (i + sz))")
    (auto dest!: byte_at_continue)

declare read_loop.simps [simp del]

definition readLEB128 :: "byte list \<Rightarrow> nat \<Rightarrow> nat \<times> nat" where
  "readLEB128 bs i = (case read_loop bs i 0 0 0 of (result, sz) \<Rightarrow> (unat result, sz))"

lemma read_loop_size: "sz < snd (read_loop bs i result shift sz)"
proof (induction bs i result shift sz rule: read_loop.induct)
  case (1 bs i result shift sz)
  show ?case
    by (subst read_loop.simps) (use 1 in \<open>force simp: Let_def\<close>)
qed

lemma readLEB128_size: "0 < snd (readLEB128 bs i)"
  using read_loop_size [of 0 bs i 0 0] by (auto simp: readLEB128_def split: prod.split)

section \<open>Code rewriting\<close>

definition kind_offset :: "byte \<Rightarrow> module_offsets \<Rightarrow> nat option" where
  "kind_offset kind off =
     (if kind = SYMTAB_FUNCTION then Some (funcOffset off)
      else if kind = SYMTAB_GLOBAL then Some (globalOffset off)
      else if kind = SYMTAB_TABLE then Some (tableOffset off)
      else None)"

definition resolveIndex ::
    "nat \<Rightarrow> byte \<Rightarrow> parsed_object \<Rightarrow> nat \<Rightarrow> nat \<Rightarrow> module_offsets list \<Rightarrow> resolution \<Rightarrow> nat" where
  "resolveIndex origIdx kind obj modIdx baseOffset allOffsets res =
     (case find (\<lambda>(symIdx, sm). sym_kind sm = kind \<and> sym_index sm = origIdx)
             (List.enumerate 0 (obj_symbols obj)) of
        None \<Rightarrow> origIdx + baseOffset
      | Some (symIdx, sm) \<Rightarrow>
          if has_flag sm SYMBOL_UNDEFINED then
            (case resolved res (modIdx, symIdx) of
               Some t \<Rightarrow>
                 (case kind_offset kind (allOffsets ! res_targetModule t) of
                    Some targetOff \<Rightarrow> res_targetIndex t + targetOff
                  | None \<Rightarrow> origIdx + baseOffset)
             | None \<Rightarrow> origIdx + baseOffset)
          else origIdx + baseOffset)"

text \<open>
  The scanning loop of \<open>rewriteCode\<close>; \<open>resolve kind origIdx base\<close> is its call of
  \<open>resolveIndex\<close>. The parameters \<open>codeRelocs\<close>, \<open>fnIdx\<close> and \<open>allParsed\<close> of the source are never read.
\<close>

function rewrite_loop ::
    "module_offsets \<Rightarrow> (byte \<Rightarrow> nat \<Rightarrow> nat \<Rightarrow> nat) \<Rightarrow> byte list \<Rightarrow> nat \<Rightarrow> byte list \<Rightarrow> byte list" where
  "rewrite_loop off resolve body i out =
     (if i < length body then
        let opcode = body ! i in
        if opcode = 0x10 then
          let (origIdx, sz) = readLEB128 body (i + 1) in
          rewrite_loop off resolve body (i + 1 + sz)
            (appendLEB128 (out @ [opcode]) (resolve SYMTAB_FUNCTION origIdx (funcOffset off)))
        else if opcode = 0x23 \<or> opcode = 0x24 then
          let (origIdx, sz) = readLEB128 body (i + 1) in
          rewrite_loop off resolve body (i + 1 + sz)
            (appendLEB128 (out @ [opcode]) (resolve SYMTAB_GLOBAL origIdx (globalOffset off)))
        else if opcode = 0x3f \<or> opcode = 0x40 then
          let (memIdx, sz) = readLEB128 body (i + 1) in
          rewrite_loop off resolve body (i + 1 + sz)
            (appendLEB128 (out @ [opcode]) (memIdx + memoryOffset off))
        else if opcode = 0x11 then
          let (typeIdx, typeSize) = readLEB128 body (i + 1) in
          let (tableIdx, tableSize) = readLEB128 body (i + 1 + typeSize) in
          rewrite_loop off resolve body (i + 1 + typeSize + tableSize)
            (appendLEB128 (appendLEB128 (out @ [opcode]) (typeIdx + typeOffset off))
              (resolve SYMTAB_TABLE tableIdx (tableOffset off)))
        else rewrite_loop off resolve body (i + 1) (out @ [opcode])
      else out)"
  by pat_completeness auto
termination
  by (relation "measure (\<lambda>(off, resolve, body, i, out). length body - i)") auto

declare rewrite_loop.simps [simp del]

definition rewriteCode ::
    "byte list \<Rightarrow> parsed_object \<Rightarrow> nat \<Rightarrow> module_offsets \<Rightarrow> module_offsets list \<Rightarrow> resolution \<Rightarrow> byte list" where
  "rewriteCode body obj modIdx off allOffsets res =
     rewrite_loop off (\<lambda>kind origIdx base. resolveIndex origIdx kind obj modIdx base allOffsets res) body 0 []"

definition rewriteCodeForTest :: "byte list \<Rightarrow> module_offsets \<Rightarrow> byte list" where
  "rewriteCodeForTest body off =
     rewriteCode body (empty_object []) 0 off [off] \<lparr>resolved = Map.empty, errors = []\<rparr>"

section \<open>The merged entries\<close>

text \<open>The entries of the linked module, in the order \<open>emitLinked\<close> collects them.\<close>

definition with_offsets :: "parsed_object list \<Rightarrow> module_offsets list \<Rightarrow> (nat \<times> parsed_object \<times> module_offsets) list" where
  "with_offsets parsed offs = List.enumerate 0 (zip parsed offs)"

definition allTypes :: "parsed_object list \<Rightarrow> type_entry list" where
  "allTypes parsed = concat (map obj_types parsed)"

definition allFunctions :: "parsed_object list \<Rightarrow> module_offsets list \<Rightarrow> nat list" where
  "allFunctions parsed offs =
     concat (map (\<lambda>(m, obj, off). map (\<lambda>t. t + typeOffset off) (obj_functions obj)) (with_offsets parsed offs))"

definition allTables :: "parsed_object list \<Rightarrow> table_entry list" where
  "allTables parsed = concat (map obj_tables parsed)"

definition allMemories :: "parsed_object list \<Rightarrow> memory_entry list" where
  "allMemories parsed = concat (map obj_memories parsed)"

definition allTags :: "parsed_object list \<Rightarrow> module_offsets list \<Rightarrow> tag_entry list" where
  "allTags parsed offs =
     concat (map (\<lambda>(m, obj, off). map (\<lambda>t. t\<lparr>tag_typeIdx := tag_typeIdx t + typeOffset off\<rparr>) (obj_tags obj))
       (with_offsets parsed offs))"

definition allGlobals :: "parsed_object list \<Rightarrow> global_entry list" where
  "allGlobals parsed = concat (map obj_globals parsed)"

definition rebase_export :: "module_offsets \<Rightarrow> export_entry \<Rightarrow> export_entry" where
  "rebase_export off ex = ex\<lparr>exp_index := exp_index ex +
     (if exp_kind ex = 0 then funcOffset off else if exp_kind ex = 1 then tableOffset off
      else if exp_kind ex = 2 then memoryOffset off else if exp_kind ex = 3 then globalOffset off else 0)\<rparr>"

definition trace_prefix :: string where
  "trace_prefix = ''__trace_last_stmt_''"

definition trace_exports :: "parsed_object \<Rightarrow> module_offsets \<Rightarrow> export_entry list" where
  "trace_exports obj off =
     map (\<lambda>ex. \<lparr>exp_name = exp_name ex @ ''@'' @ obj_name obj, exp_kind = 3, exp_index = exp_index ex + globalOffset off\<rparr>)
       (filter (\<lambda>ex. exp_kind ex = 3 \<and> take (length trace_prefix) (exp_name ex) = trace_prefix) (obj_exports obj))"

definition not_entry :: "string option \<Rightarrow> parsed_object \<Rightarrow> bool" where
  "not_entry entry obj \<longleftrightarrow> (case entry of None \<Rightarrow> False | Some n \<Rightarrow> n \<noteq> [] \<and> obj_name obj \<noteq> n)"

definition exportEntries ::
    "bool \<Rightarrow> string option \<Rightarrow> parsed_object list \<Rightarrow> module_offsets list \<Rightarrow> export_entry list" where
  "exportEntries trace entry parsed offs =
     concat (map (\<lambda>(m, obj, off).
       if not_entry entry obj then (if trace then trace_exports obj off else [])
       else map (rebase_export off) (obj_exports obj)) (with_offsets parsed offs))"

definition allElements :: "parsed_object list \<Rightarrow> module_offsets list \<Rightarrow> element_entry list" where
  "allElements parsed offs =
     concat (map (\<lambda>(m, obj, off).
       map (\<lambda>el. el\<lparr>el_tableIdx := el_tableIdx el + tableOffset off,
                    el_funcIndices := map (\<lambda>i. i + funcOffset off) (el_funcIndices el)\<rparr>) (obj_elements obj))
       (with_offsets parsed offs))"

definition allCode :: "parsed_object list \<Rightarrow> module_offsets list \<Rightarrow> resolution \<Rightarrow> code_entry list" where
  "allCode parsed offs res =
     concat (map (\<lambda>(m, obj, off).
       map (\<lambda>c. \<lparr>code_locals = code_locals c, code_body = rewriteCode (code_body c) obj m off offs res\<rparr>) (obj_code obj))
       (with_offsets parsed offs))"

section \<open>Emission\<close>

type_synonym writer = "wasm_encoder \<Rightarrow> enc_error + wasm_encoder"

definition w_byte :: "int \<Rightarrow> writer" where
  "w_byte b e = Inr (enc_byte b e)"

definition w_bytes :: "byte list \<Rightarrow> writer" where
  "w_bytes bs e = Inr (enc_bytes bs e)"

definition w_u32 :: "nat \<Rightarrow> writer" where
  "w_u32 n = enc_u32 (int n)"

definition write_type :: "type_entry \<Rightarrow> writer" where
  "write_type t = rseq [w_byte 0x60,
     w_u32 (length (ty_params t)), rfold (\<lambda>p. w_byte (uint p)) (ty_params t),
     w_u32 (length (ty_results t)), rfold (\<lambda>r. w_byte (uint r)) (ty_results t)]"

definition write_limits :: "nat \<Rightarrow> nat option \<Rightarrow> writer" where
  "write_limits mn mx = (case mx of
     Some m \<Rightarrow> rseq [w_byte 1, w_u32 mn, w_u32 m]
   | None \<Rightarrow> rseq [w_byte 0, w_u32 mn])"

definition write_table :: "table_entry \<Rightarrow> writer" where
  "write_table t = rseq [w_byte (uint (tab_elementType t)), write_limits (tab_min t) (tab_max t)]"

definition write_memory :: "memory_entry \<Rightarrow> writer" where
  "write_memory m = write_limits (mem_min m) (mem_max m)"

definition write_tag :: "tag_entry \<Rightarrow> writer" where
  "write_tag t = rseq [w_byte (uint (tag_attribute t)), w_u32 (tag_typeIdx t)]"

definition write_global :: "global_entry \<Rightarrow> writer" where
  "write_global g = rseq [w_byte (uint (glob_type g)), w_byte (if glob_mutable g then 1 else 0), w_bytes (glob_init g)]"

definition write_export :: "(string \<Rightarrow> byte list) \<Rightarrow> export_entry \<Rightarrow> writer" where
  "write_export utf8 ex = rseq [enc_name utf8 (exp_name ex), w_byte (uint (exp_kind ex)), w_u32 (exp_index ex)]"

definition write_element :: "element_entry \<Rightarrow> writer" where
  "write_element el =
     (let flags = el_flags el in
      rseq [w_u32 flags,
        if el_has_explicit_table flags then w_u32 (el_tableIdx el) else Inr,
        (case el_offsetExpr el of Some ex \<Rightarrow> if el_is_active flags then w_bytes ex else Inr | None \<Rightarrow> Inr),
        (case el_kindByte el of Some k \<Rightarrow> if el_has_kind_byte flags then w_byte (uint k) else Inr | None \<Rightarrow> Inr),
        (case (el_uses_exprs flags, el_elemExprs el) of
           (True, Some exprs) \<Rightarrow> rseq [w_u32 (el_elemCount el), w_bytes exprs]
         | _ \<Rightarrow> enc_vector (el_funcIndices el) w_u32)])"

definition write_body :: "code_entry \<Rightarrow> writer" where
  "write_body c = rseq [w_u32 (length (code_locals c)),
     rfold (\<lambda>(cnt, ty). rseq [w_u32 cnt, w_byte (uint ty)]) (code_locals c),
     w_bytes (code_body c)]"

definition write_code :: "code_entry \<Rightarrow> writer" where
  "write_code c e =
     rbind (write_body c new_encoder) (\<lambda>bodyEnc.
       let bodyBytes = finish bodyEnc in
       rseq [w_u32 (length bodyBytes), w_bytes bodyBytes] e)"

text \<open>A section is written only when it has entries.\<close>

definition vec_section :: "int \<Rightarrow> 'a list \<Rightarrow> ('a \<Rightarrow> writer) \<Rightarrow> writer" where
  "vec_section sid items w = (if 0 < length items then enc_section sid (enc_vector items w) else Inr)"

definition code_section :: "nat \<Rightarrow> code_entry list \<Rightarrow> writer" where
  "code_section count code =
     (if 0 < count then enc_section 10 (rseq [w_u32 count, rfold write_code code]) else Inr)"

definition emitLinked ::
    "(string \<Rightarrow> byte list) \<Rightarrow> bool \<Rightarrow> string option \<Rightarrow> parsed_object list \<Rightarrow> resolution \<Rightarrow> module_offsets list
      \<Rightarrow> enc_error + byte list" where
  "emitLinked utf8 trace entry parsed res offs =
     rbind (rseq [
       w_bytes [0x00, 0x61, 0x73, 0x6d],
       w_bytes [0x01, 0x00, 0x00, 0x00],
       vec_section 1 (allTypes parsed) write_type,
       vec_section 3 (allFunctions parsed offs) w_u32,
       vec_section 4 (allTables parsed) write_table,
       vec_section 5 (allMemories parsed) write_memory,
       vec_section 13 (allTags parsed offs) write_tag,
       vec_section 6 (allGlobals parsed) write_global,
       vec_section 7 (exportEntries trace entry parsed offs) (write_export utf8),
       vec_section 9 (allElements parsed offs) write_element,
       code_section (length (allFunctions parsed offs)) (allCode parsed offs res)] new_encoder)
     (\<lambda>e. Inr (finish e))"

section \<open>The WAT stub\<close>

definition wat_functions :: "parsed_object \<Rightarrow> module_offsets \<Rightarrow> string list" where
  "wat_functions obj off = map (\<lambda>(i, typeIdx).
     ''  (func $f'' @ show_nat (i + funcOffset off)
       @ (case find (\<lambda>ex. exp_kind ex = 0 \<and> exp_index ex = i) (obj_exports obj) of
            None \<Rightarrow> [] | Some ex \<Rightarrow> '' (export '' @ [CHR 0x22] @ exp_name ex @ [CHR 0x22] @ '')'')
       @ '' (type '' @ show_nat (typeIdx + typeOffset off) @ ''))'') (List.enumerate 0 (obj_functions obj))"

definition wat_memories :: "parsed_object \<Rightarrow> module_offsets \<Rightarrow> string list" where
  "wat_memories obj off = map (\<lambda>(i, m).
     ''  (memory $mem'' @ show_nat (i + memoryOffset off) @ '' '' @ show_nat (mem_min m)
       @ (case mem_max m of None \<Rightarrow> [] | Some mx \<Rightarrow> '' '' @ show_nat mx) @ '')'')
     (List.enumerate 0 (obj_memories obj))"

fun join_lines :: "string list \<Rightarrow> string" where
  "join_lines [] = []"
| "join_lines [x] = x"
| "join_lines (x # y # xs) = x @ [CHR 0x0A] @ join_lines (y # xs)"

definition generateWatStub :: "parsed_object list \<Rightarrow> module_offsets list \<Rightarrow> string" where
  "generateWatStub parsed offs = join_lines
     ([''(module''] @ concat (map (\<lambda>(m, obj, off).
         [''  ;; from '' @ obj_name obj] @ wat_functions obj off @ wat_memories obj off)
         (with_offsets parsed offs)) @ ['')''])"

section \<open>The link function\<close>

datatype link_error =
    ParseFailed string read_error
  | ResolveFailed resolve_error
  | IsolationWarning violation
  | LinkFailed enc_error

fun is_error :: "link_error \<Rightarrow> bool" where
  "is_error (IsolationWarning v) = False"
| "is_error _ = True"

record link_result =
  lr_binary :: "byte list"
  lr_wat :: string
  lr_success :: bool
  lr_errors :: "link_error list"
  lr_isolationReport :: isolation_report

definition emptyIsolationReport :: "parsed_object list \<Rightarrow> isolation_report" where
  "emptyIsolationReport parsed = \<lparr>rep_modules = map obj_name parsed, rep_importExportOnly = True,
     rep_noSharedGlobals = True, rep_memoryIsolation = True, rep_noPrivateFunctionAccess = True,
     rep_tableIsolation = True, rep_violations = []\<rparr>"

definition failed_link :: "link_error list \<Rightarrow> isolation_report \<Rightarrow> link_result" where
  "failed_link errs report = \<lparr>lr_binary = [], lr_wat = [], lr_success = False, lr_errors = errs,
     lr_isolationReport = report\<rparr>"

definition parse_all ::
    "(byte list \<Rightarrow> string) \<Rightarrow> (string \<times> byte list) list \<Rightarrow> parsed_object list \<times> link_error list" where
  "parse_all dec objects = fold (\<lambda>(nm, bs) (parsed, errs).
     case parseObject dec nm bs of
       Inr obj \<Rightarrow> (parsed @ [obj], errs)
     | Inl e \<Rightarrow> (parsed, errs @ [ParseFailed nm e])) objects ([], [])"

definition link ::
    "(byte list \<Rightarrow> string) \<Rightarrow> (string \<Rightarrow> byte list) \<Rightarrow> bool \<Rightarrow> string option \<Rightarrow> bool
      \<Rightarrow> (string \<times> byte list) list \<Rightarrow> link_result" where
  "link dec utf8 trace entry doIsolation objects =
     (let (parsed, errs) = parse_all dec objects in
      if list_ex is_error errs then failed_link errs (emptyIsolationReport parsed)
      else
        let res = resolveSymbols parsed;
            errs = errs @ map ResolveFailed (errors res);
            report = (if doIsolation then validateIsolation parsed res else emptyIsolationReport parsed);
            errs = errs @ (if doIsolation then map IsolationWarning (rep_violations report) else [])
        in if list_ex is_error errs then failed_link errs report
           else
             let offs = computeOffsets parsed in
             case emitLinked utf8 trace entry parsed res offs of
               Inr binary \<Rightarrow> \<lparr>lr_binary = binary, lr_wat = generateWatStub parsed offs, lr_success = True,
                 lr_errors = errs, lr_isolationReport = report\<rparr>
             | Inl e \<Rightarrow> failed_link (errs @ [LinkFailed e]) report)"

end
