(* ===== verification/LinkIndices.thy ===== *)
theory LinkIndices
  imports Linker
begin

text \<open>
  The index spaces of the linked module: what \<open>computeOffsets\<close> assigns, where the entries of a
  module end up, and what the scanning loop of \<open>rewriteCode\<close> does to a function body.
\<close>

section \<open>Offsets are prefix sums\<close>

definition total :: "(parsed_object \<Rightarrow> nat) \<Rightarrow> parsed_object list \<Rightarrow> nat" where
  "total f objs = sum_list (map f objs)"

lemma total_simps [simp]:
  "total f [] = 0" "total f (x # xs) = f x + total f xs" "total f (xs @ ys) = total f xs + total f ys"
  by (simp_all add: total_def)

lemma length_offsets_loop: "length (offsets_loop off objs) = length objs"
  by (induction objs arbitrary: off) simp_all

lemma length_computeOffsets: "length (computeOffsets objs) = length objs"
  by (simp add: computeOffsets_def length_offsets_loop)

lemma offsets_loop_nth:
  "i < length objs \<Longrightarrow> offsets_loop off objs ! i = \<lparr>
     typeOffset = typeOffset off + total (\<lambda>ob. length (obj_types ob)) (take i objs),
     funcOffset = funcOffset off + total (\<lambda>ob. imports_of_kind 0 ob + length (obj_functions ob)) (take i objs),
     globalOffset = globalOffset off + total (\<lambda>ob. imports_of_kind 3 ob + length (obj_globals ob)) (take i objs),
     memoryOffset = memoryOffset off + total (\<lambda>ob. imports_of_kind 2 ob + length (obj_memories ob)) (take i objs),
     tableOffset = tableOffset off + total (\<lambda>ob. imports_of_kind 1 ob + length (obj_tables ob)) (take i objs),
     tagOffset = tagOffset off + total (\<lambda>ob. imports_of_kind 4 ob + length (obj_tags ob)) (take i objs)\<rparr>"
proof (induction objs arbitrary: off i)
  case (Cons obj objs)
  show ?case
  proof (cases i)
    case (Suc k)
    with Cons show ?thesis by (simp add: advance_offsets_def)
  qed simp
qed simp

lemmas offsets_nth = offsets_loop_nth [of _ _ zero_offsets, folded computeOffsets_def, simplified zero_offsets_def, simplified]

lemma nth_concat_prefix:
  "i < length xss \<Longrightarrow> j < length (xss ! i) \<Longrightarrow>
     concat xss ! (sum_list (map length (take i xss)) + j) = xss ! i ! j"
proof (induction xss arbitrary: i)
  case (Cons xs xss)
  show ?case
  proof (cases i)
    case (Suc k)
    with Cons show ?thesis by (simp add: nth_append)
  qed (use Cons in \<open>simp add: nth_append\<close>)
qed simp

lemma nth_concat_map:
  assumes "i < length objs" and "j < length (f (objs ! i))"
  shows "concat (map f objs) ! (total (\<lambda>ob. length (f ob)) (take i objs) + j) = f (objs ! i) ! j"
  using nth_concat_prefix [of i "map f objs" j] assms
  by (simp add: total_def take_map comp_def)

text \<open>
  C25. Rebasing a type index lands on the same type: the \<open>j\<close>-th type of module \<open>i\<close> is entry
  \<open>typeOffset + j\<close> of the merged type section.
\<close>

theorem rebased_type_index:
  assumes "i < length parsed" and "j < length (obj_types (parsed ! i))"
  shows "allTypes parsed ! (j + typeOffset (computeOffsets parsed ! i)) = obj_types (parsed ! i) ! j"
  using nth_concat_map [of i parsed j obj_types] assms by (simp add: allTypes_def offsets_nth [OF assms(1)] add.commute)

definition sample_types :: "nat \<Rightarrow> parsed_object" where
  "sample_types n = (empty_object ''m'')\<lparr>
     obj_types := [\<lparr>ty_params = replicate n 0x7f, ty_results = []\<rparr>, \<lparr>ty_params = [], ty_results = replicate n 0x7f\<rparr>],
     obj_functions := [0, 1]\<rparr>"

theorem rebased_type_index_witness:
  "allTypes [sample_types 1, sample_types 2] ! (1 + typeOffset (computeOffsets [sample_types 1, sample_types 2] ! 1))
    = \<lparr>ty_params = [], ty_results = [0x7f, 0x7f]\<rparr>"
  using rebased_type_index [of 1 "[sample_types 1, sample_types 2]" 1]
  by (simp add: sample_types_def numeral_2_eq_2)

subsection \<open>Functions\<close>

lemma with_offsets_functions:
  "length offs = length parsed \<Longrightarrow>
     map (\<lambda>(m, obj, off). map (\<lambda>t. t + typeOffset off) (obj_functions obj)) (List.enumerate k (zip parsed offs))
     = map (\<lambda>(obj, off). map (\<lambda>t. t + typeOffset off) (obj_functions obj)) (zip parsed offs)"
  by (induction parsed offs arbitrary: k rule: list_induct2') simp_all

lemma allFunctions_nth:
  assumes "i < length parsed" and "j < length (obj_functions (parsed ! i))" and "length offs = length parsed"
  shows "allFunctions parsed offs ! (total (\<lambda>ob. length (obj_functions ob)) (take i parsed) + j)
    = obj_functions (parsed ! i) ! j + typeOffset (offs ! i)"
proof -
  let ?f = "\<lambda>(obj, off). map (\<lambda>t. t + typeOffset off) (obj_functions obj)"
  have "map length (take i (map ?f (zip parsed offs))) = map (\<lambda>ob. length (obj_functions ob)) (take i parsed)"
    using assms(3) by (intro nth_equalityI) (auto simp: min_def split: if_splits)
  then show ?thesis
    using nth_concat_prefix [of i "map ?f (zip parsed offs)" j] assms
    by (simp add: allFunctions_def with_offsets_def with_offsets_functions total_def)
qed

text \<open>
  Without function imports a rebased function index is right: index \<open>j\<close> of module \<open>i\<close> becomes
  the position its definition has in the merged function section, with its type index rebased.
\<close>

theorem rebased_function_index:
  assumes "\<forall>obj\<in>set parsed. imports_of_kind 0 obj = 0"
    and "i < length parsed" and "j < length (obj_functions (parsed ! i))"
  shows "allFunctions parsed (computeOffsets parsed) ! (j + funcOffset (computeOffsets parsed ! i))
    = obj_functions (parsed ! i) ! j + typeOffset (computeOffsets parsed ! i)"
proof -
  have "total (\<lambda>ob. imports_of_kind 0 ob + length (obj_functions ob)) (take i parsed)
      = total (\<lambda>ob. length (obj_functions ob)) (take i parsed)"
    unfolding total_def using assms(1) by (intro arg_cong [where f = sum_list] map_cong) (auto dest: in_set_takeD)
  then have "funcOffset (computeOffsets parsed ! i) = total (\<lambda>ob. length (obj_functions ob)) (take i parsed)"
    using assms(2) by (simp add: offsets_nth)
  then show ?thesis
    using allFunctions_nth [OF assms(2,3) length_computeOffsets] by (simp add: add.commute)
qed

theorem rebased_function_index_witness:
  "allFunctions [sample_types 1, sample_types 2] (computeOffsets [sample_types 1, sample_types 2])
     ! (1 + funcOffset (computeOffsets [sample_types 1, sample_types 2] ! 1)) =
   1 + typeOffset (computeOffsets [sample_types 1, sample_types 2] ! 1)"
  using rebased_function_index [of "[sample_types 1, sample_types 2]" 1 1]
  by (simp add: sample_types_def imports_of_kind_def empty_object_def)

text \<open>
  C26. With function imports it is wrong by their number: in an object file a defined function's
  index counts the module's imports first, the offsets count the imports of all earlier modules,
  and the linked module has no import section. The index the linker gives to function \<open>j\<close> of
  module \<open>i\<close> exceeds the position of its definition by the number of functions imported by the
  modules up to \<open>i\<close>.
\<close>

theorem function_index_import_shift:
  assumes "i < length parsed" and "j < length (obj_functions (parsed ! i))"
  shows "(imports_of_kind 0 (parsed ! i) + j) + funcOffset (computeOffsets parsed ! i)
     = (total (\<lambda>ob. length (obj_functions ob)) (take i parsed) + j) + total (imports_of_kind 0) (take (Suc i) parsed)
   \<and> allFunctions parsed (computeOffsets parsed) ! (total (\<lambda>ob. length (obj_functions ob)) (take i parsed) + j)
     = obj_functions (parsed ! i) ! j + typeOffset (computeOffsets parsed ! i)"
proof -
  have "total (\<lambda>ob. imports_of_kind 0 ob + length (obj_functions ob)) (take i parsed)
      = total (imports_of_kind 0) (take i parsed) + total (\<lambda>ob. length (obj_functions ob)) (take i parsed)"
    by (simp add: total_def sum_list_addf)
  then show ?thesis
    using assms allFunctions_nth [OF assms length_computeOffsets]
    by (simp add: offsets_nth take_Suc_conv_app_nth)
qed

definition sample_import :: import_entry where
  "sample_import = \<lparr>imp_module = ''env'', imp_name = ''add'', imp_kind = 0, imp_typeIdx = Some 0,
     imp_globalType = None, imp_globalMutable = None, imp_tableElementType = None,
     imp_tableMin = None, imp_tableMax = None, imp_memoryMin = None, imp_memoryMax = None\<rparr>"

definition sample_caller :: parsed_object where
  "sample_caller = (empty_object ''caller'')\<lparr>obj_types := [\<lparr>ty_params = [], ty_results = []\<rparr>],
     obj_imports := [sample_import], obj_functions := [0]\<rparr>"

theorem function_index_import_shift_witness:
  "(imports_of_kind 0 (sample_types 1) + 1) + funcOffset (computeOffsets [sample_caller, sample_types 1] ! 1)
     = (total (\<lambda>ob. length (obj_functions ob)) [sample_caller] + 1) + 1"
  using function_index_import_shift [of 1 "[sample_caller, sample_types 1]" 1]
  by (simp add: sample_types_def sample_caller_def sample_import_def imports_of_kind_def empty_object_def)

section \<open>LEB128 in the rewriter\<close>

lemma append_loop_uleb: "append_loop v out = out @ uleb v"
proof (induction v out rule: append_loop.induct)
  case (1 v out)
  show ?case
  proof (cases "drop_bit 7 v = 0")
    case True
    then show ?thesis
      by (simp add: append_loop.simps [of v] uleb.simps [of v] Let_def ucast_and_0x7f)
  next
    case False
    then have "append_loop v out = append_loop (drop_bit 7 v) (out @ [ucast ((v AND 0x7f) OR 0x80)])"
      by (simp add: append_loop.simps [of v] Let_def)
    also have "\<dots> = (out @ [ucast v OR 0x80]) @ uleb (drop_bit 7 v)"
      using 1 [OF refl refl refl refl False] False unfolding ucast_or_0x80 [symmetric] by simp
    finally show ?thesis using False by (simp add: uleb.simps [of v])
  qed
qed

lemma appendLEB128_uleb: "appendLEB128 out n = out @ uleb (of_nat n)"
  by (simp add: appendLEB128_def append_loop_uleb)

lemma read_loop_uleb:
  "shift < 32 \<Longrightarrow> drop_bit (32 - shift) v = 0 \<Longrightarrow> drop (i + sz) bs = uleb v @ ys \<Longrightarrow>
     read_loop bs i res shift sz = (res OR push_bit shift v, sz + length (uleb v))"
proof (induction v arbitrary: res shift sz rule: uleb.induct)
  case (1 v)
  have m: "shift mod 32 = shift" using "1.prems"(1) by simp
  show ?case
  proof (cases "drop_bit 7 v = 0")
    case True
    then have v: "v AND mask 7 = v" by (simp add: ucast_and_0x7f mask_eq_exp_minus_1)
    from True "1.prems"(3) have "drop (i + sz) bs = ucast v # ys" by (simp add: uleb.simps [of v])
    from drop_Cons_nth [OF this] have b: "byte_at bs (i + sz) = ucast v" by (simp add: byte_at_def)
    show ?thesis
      using True by (simp add: read_loop.simps [of bs] uleb.simps [of v] Let_def b byte_stop [OF True] byte_and_0x7f' v m)
  next
    case False
    from False "1.prems"(3) have "drop (i + sz) bs = (ucast v OR 0x80) # (uleb (drop_bit 7 v) @ ys)"
      by (simp add: uleb.simps [of v])
    from drop_Cons_nth [OF this] have b: "byte_at bs (i + sz) = ucast v OR 0x80"
      and d: "drop (i + (sz + 1)) bs = uleb (drop_bit 7 v) @ ys" by (simp_all add: byte_at_def)
    have "read_loop bs i res shift sz = read_loop bs i (res OR push_bit shift (v AND mask 7)) (shift + 7) (sz + 1)"
      using byte_continue [of "ucast v"]
      by (subst read_loop.simps) (simp only: Let_def b byte_and_0x7f m if_True not_False_eq_True)
    also have "\<dots> = ((res OR push_bit shift (v AND mask 7)) OR push_bit (shift + 7) (drop_bit 7 v),
        sz + 1 + length (uleb (drop_bit 7 v)))"
      by (rule "1.IH" [OF False leb_step [OF "1.prems"(1,2) False] d])
    also have "\<dots> = (res OR push_bit shift v, sz + length (uleb v))"
      using False unfolding push_bit_split_word [of shift v 7] or.assoc by (simp add: uleb.simps [of v])
    finally show ?thesis .
  qed
qed

lemma readLEB128_uleb: "drop i bs = uleb v @ ys \<Longrightarrow> readLEB128 bs i = (unat v, length (uleb v))"
  using read_loop_uleb [of 0 v i 0 bs ys 0] drop_bit_32 [of v] by (simp add: readLEB128_def)

text \<open>
  The rewriter's LEB128 helpers agree with the reference encoding: \<open>appendLEB128\<close> adds the
  minimal encoding of the low 32 bits, whatever width the index had before, and \<open>readLEB128\<close>
  reads it back with its size.
\<close>

theorem rewriter_leb128_roundtrip:
  "appendLEB128 out n = out @ uleb (of_nat n)
   \<and> readLEB128 (appendLEB128 out n @ ys) (length out) = (n mod 2 ^ 32, length (uleb (of_nat n)))"
proof -
  have "drop (length out) (appendLEB128 out n @ ys) = uleb (of_nat n) @ ys"
    by (simp add: appendLEB128_uleb)
  from readLEB128_uleb [OF this] show ?thesis
    by (simp add: appendLEB128_uleb unat_of_nat take_bit_eq_mod)
qed

section \<open>Rewriting a body, instruction by instruction\<close>

text \<open>
  A body as the rewriter is meant to see it: the instructions whose index it rewrites, and the
  bytes it copies.
\<close>

datatype body_item =
    Call u32
  | Global bool u32
  | Memory bool u32
  | CallIndirect u32 u32
  | Plain byte

fun item_bytes :: "body_item \<Rightarrow> byte list" where
  "item_bytes (Call n) = 0x10 # uleb n"
| "item_bytes (Global wr n) = (if wr then 0x24 else 0x23) # uleb n"
| "item_bytes (Memory grow n) = (if grow then 0x40 else 0x3f) # uleb n"
| "item_bytes (CallIndirect t n) = 0x11 # uleb t @ uleb n"
| "item_bytes (Plain b) = [b]"

fun item_ok :: "body_item \<Rightarrow> bool" where
  "item_ok (Plain b) \<longleftrightarrow> b \<notin> {0x10, 0x11, 0x23, 0x24, 0x3f, 0x40}"
| "item_ok _ \<longleftrightarrow> True"

fun rebase_item :: "module_offsets \<Rightarrow> (byte \<Rightarrow> nat \<Rightarrow> nat \<Rightarrow> nat) \<Rightarrow> body_item \<Rightarrow> body_item" where
  "rebase_item off resolve (Call n) = Call (of_nat (resolve SYMTAB_FUNCTION (unat n) (funcOffset off)))"
| "rebase_item off resolve (Global wr n) = Global wr (of_nat (resolve SYMTAB_GLOBAL (unat n) (globalOffset off)))"
| "rebase_item off resolve (Memory grow n) = Memory grow (of_nat (unat n + memoryOffset off))"
| "rebase_item off resolve (CallIndirect t n) = CallIndirect (of_nat (unat t + typeOffset off))
     (of_nat (resolve SYMTAB_TABLE (unat n) (tableOffset off)))"
| "rebase_item off resolve (Plain b) = Plain b"

lemma drop_Cons_append:
  "drop i bs = b # cs @ ys \<Longrightarrow> drop (i + 1) bs = cs @ ys \<and> drop (i + 1 + length cs) bs = ys"
proof -
  assume "drop i bs = b # cs @ ys"
  from drop_Cons_nth [OF this] have "drop (i + 1) bs = cs @ ys" by simp
  moreover have "drop (i + 1 + length cs) bs = drop (length cs) (drop (i + 1) bs)"
    by (simp only: drop_drop add.commute)
  ultimately show ?thesis by simp
qed

lemma rewrite_item:
  assumes ok: "item_ok x" and d: "drop i body = item_bytes x @ ys"
  shows "rewrite_loop off resolve body i out
    = rewrite_loop off resolve body (i + length (item_bytes x)) (out @ item_bytes (rebase_item off resolve x))"
proof (cases x)
  case (Call n)
  with d have d': "drop i body = 0x10 # uleb n @ ys" by simp
  note dd = drop_Cons_nth [OF d'] readLEB128_uleb [OF conjunct1 [OF drop_Cons_append [OF d']]]
  show ?thesis using dd by (subst rewrite_loop.simps) (simp add: Call Let_def appendLEB128_uleb add.assoc)
next
  case (Global wr n)
  with d have d': "drop i body = (if wr then 0x24 else 0x23) # uleb n @ ys" by simp
  note dd = drop_Cons_nth [OF d'] readLEB128_uleb [OF conjunct1 [OF drop_Cons_append [OF d']]]
  show ?thesis using dd by (subst rewrite_loop.simps) (simp add: Global Let_def appendLEB128_uleb add.assoc)
next
  case (Memory grow n)
  with d have d': "drop i body = (if grow then 0x40 else 0x3f) # uleb n @ ys" by simp
  note dd = drop_Cons_nth [OF d'] readLEB128_uleb [OF conjunct1 [OF drop_Cons_append [OF d']]]
  show ?thesis using dd by (subst rewrite_loop.simps) (simp add: Memory Let_def appendLEB128_uleb add.assoc)
next
  case (CallIndirect t n)
  with d have d': "drop i body = 0x11 # uleb t @ uleb n @ ys" by simp
  note dd = drop_Cons_nth [OF d'] readLEB128_uleb [OF conjunct1 [OF drop_Cons_append [OF d']]]
    readLEB128_uleb [OF conjunct2 [OF drop_Cons_append [OF d']]]
  show ?thesis using dd by (subst rewrite_loop.simps) (simp add: CallIndirect Let_def appendLEB128_uleb add.assoc)
next
  case (Plain b)
  with d have d': "drop i body = b # ys" by simp
  show ?thesis using drop_Cons_nth [OF d'] ok by (subst rewrite_loop.simps) (simp add: Plain Let_def)
qed

lemma rewrite_items:
  "\<forall>x\<in>set items. item_ok x \<Longrightarrow> drop i body = concat (map item_bytes items) \<Longrightarrow>
     rewrite_loop off resolve body i out = out @ concat (map (\<lambda>x. item_bytes (rebase_item off resolve x)) items)"
proof (induction items arbitrary: i out)
  case Nil
  then show ?case by (subst rewrite_loop.simps) simp
next
  case (Cons x items)
  from Cons.prems(2) have d: "drop i body = item_bytes x @ concat (map item_bytes items)" by simp
  have "drop (i + length (item_bytes x)) body = drop (length (item_bytes x)) (drop i body)" by (simp add: add.commute)
  with d have "drop (i + length (item_bytes x)) body = concat (map item_bytes items)" by simp
  with Cons.IH Cons.prems(1) rewrite_item [OF _ d] show ?case by simp
qed

text \<open>
  C10. \<open>rewriteCode\<close> rewrites exactly the indices: on the bytes of any sequence of index-carrying
  instructions and plain bytes it produces the bytes of the sequence with every index resolved or
  rebased, each re-encoded at its natural width, and everything else copied.
\<close>

theorem rewriteCode_items:
  assumes "\<forall>x\<in>set items. item_ok x"
  shows "rewriteCode (concat (map item_bytes items)) obj m off offs res
    = concat (map (\<lambda>x. item_bytes (rebase_item off
        (\<lambda>kind idx base. resolveIndex idx kind obj m base offs res) x)) items)"
  using rewrite_items [OF assms, of 0] by (simp add: rewriteCode_def)

definition sample_offsets :: module_offsets where
  "sample_offsets = \<lparr>typeOffset = 1, funcOffset = 1, globalOffset = 1, memoryOffset = 1, tableOffset = 1, tagOffset = 1\<rparr>"

theorem rewriteCode_items_witness:
  "rewriteCode (concat (map item_bytes [Call 127, Plain 0x0b])) (empty_object []) 0 sample_offsets [sample_offsets]
     (resolveSymbols []) = [0x10, 0x80, 0x01, 0x0b]"
proof -
  have "rebase_item sample_offsets (\<lambda>kind idx base. resolveIndex idx kind (empty_object []) 0 base [sample_offsets]
      (resolveSymbols [])) (Call 127) = Call 128"
    by code_simp
  moreover have "item_bytes (Call 128) = [0x10, 0x80, 0x01]" by code_simp
  ultimately show ?thesis
    using rewriteCode_items [of "[Call 127, Plain 0x0b]" "empty_object []" 0 sample_offsets "[sample_offsets]" "resolveSymbols []"]
    by simp
qed

text \<open>
  The scan does not decode the immediates of other instructions: in \<open>i32.const 16; end\<close>
  (\<open>41 10 0b\<close>) it takes the constant for a \<open>call\<close> and the \<open>end\<close> for its index, and returns
  \<open>41 10 0c\<close>, which has lost its \<open>end\<close>.
\<close>

theorem rewriteCode_immediate:
  "rewriteCodeForTest [0x41, 0x10, 0x0b] sample_offsets = [0x41, 0x10, 0x0c]"
  by code_simp

end
