(* ===== verification/LinkRoundtrip.thy ===== *)
theory LinkRoundtrip
  imports LinkIndices
begin

text \<open>
  What the linker writes, the object reader reads back: a codec for every kind of section entry
  (the writers of \<open>emitLinked\<close> against the parsers of \<open>reader.ts\<close>), the section loop over the
  emitted sections, and the theorem on whole linked modules.
\<close>

section \<open>Entry codecs\<close>

lemma transmits_w_byte [codec_intros]: "transmits (w_byte b) rd_byte (word_of_int b)"
  using transmits_byte by (simp add: w_byte_def [abs_def])

lemma transmits_w_ubyte [codec_intros]: "transmits (w_byte (uint b)) rd_byte b"
  using transmits_uint_byte by (simp add: w_byte_def [abs_def])

lemma transmits_w_u32 [codec_intros]: "transmits (w_u32 n) rd_u32 n"
  using transmits_u32 by (simp add: w_u32_def [abs_def])

lemma transmits_w_bytes: "reads g bs v \<Longrightarrow> transmits (w_bytes bs) g v"
  using transmits_bytes_by by (simp add: w_bytes_def [abs_def])

lemma transmits_w_byte_list [codec_intros]:
  "transmits (rfold (\<lambda>p. w_byte (uint p)) bs) (rtimes (length bs) rd_byte) bs"
  by (rule transmits_rfold) (rule transmits_w_ubyte)

lemma transmits_type: "transmits (write_type t) parse_type t"
proof -
  have "transmits (rseq [w_byte 0x60,
     w_u32 (length (ty_params t)), rfold (\<lambda>p. w_byte (uint p)) (ty_params t),
     w_u32 (length (ty_results t)), rfold (\<lambda>r. w_byte (uint r)) (ty_results t)]) parse_type
     \<lparr>ty_params = ty_params t, ty_results = ty_results t\<rparr>"
    unfolding parse_type_def [abs_def]
    apply (rule codec_intros)
     apply (rule codec_intros)
    apply (simp only: of_int_numeral simp_thms if_False)
    apply (rule codec_intros)+
    done
  then show ?thesis by (cases t) (simp add: write_type_def)
qed

lemma transmits_limits: "transmits (write_limits mn mx) rd_limits (mn, mx)"
proof (cases mx)
  case None
  have "transmits (rseq [w_byte 0, w_u32 mn]) rd_limits (mn, None)"
    unfolding rd_limits_def [abs_def]
    apply (rule codec_intros)
     apply (rule codec_intros)
    apply (simp only: of_int_0 simp_thms if_False)
    apply (rule codec_intros)+
    done
  then show ?thesis by (simp add: None write_limits_def)
next
  case (Some m)
  have "transmits (rseq [w_byte 1, w_u32 mn, w_u32 m]) rd_limits (mn, Some m)"
    unfolding rd_limits_def [abs_def]
    apply (rule codec_intros)
     apply (rule codec_intros)
    apply (simp only: of_int_1 one_neq_zero not_False_eq_True if_True)
    apply (rule codec_intros)+
    done
  then show ?thesis by (simp add: Some write_limits_def)
qed

lemma transmits_table: "transmits (write_table t) parse_table t"
proof -
  have "transmits (rseq [w_byte (uint (tab_elementType t)), write_limits (tab_min t) (tab_max t)]) parse_table
     \<lparr>tab_elementType = tab_elementType t, tab_min = tab_min t, tab_max = tab_max t\<rparr>"
    unfolding parse_table_def [abs_def]
    by (rule codec_intros transmits_limits | simp only: split_conv)+
  then show ?thesis by (cases t) (simp add: write_table_def)
qed

lemma transmits_memory: "transmits (write_memory m) parse_memory m"
  unfolding write_memory_def parse_memory_def [abs_def]
  by (rule transmits_map [OF transmits_limits]) (cases m, simp)

lemma transmits_tag: "transmits (write_tag t) parse_tag t"
proof -
  have "transmits (rseq [w_byte (uint (tag_attribute t)), w_u32 (tag_typeIdx t)]) parse_tag
     \<lparr>tag_attribute = tag_attribute t, tag_typeIdx = tag_typeIdx t\<rparr>"
    unfolding parse_tag_def [abs_def] by (rule codec_intros)+
  then show ?thesis by (cases t) (simp add: write_tag_def)
qed

definition global_wf :: "global_entry \<Rightarrow> bool" where
  "global_wf g \<longleftrightarrow> expr_seq 1 (glob_init g)"

lemma transmits_global:
  assumes "global_wf g"
  shows "transmits (write_global g) parse_global g"
proof -
  have i: "transmits (w_bytes (glob_init g)) rd_expr (glob_init g)"
    using assms by (intro transmits_w_bytes reads_expr) (simp add: global_wf_def)
  have "transmits (rseq [w_byte (uint (glob_type g)), w_byte (if glob_mutable g then 1 else 0), w_bytes (glob_init g)])
     parse_global \<lparr>glob_type = glob_type g,
       glob_mutable = (word_of_int (if glob_mutable g then 1 else 0) \<noteq> (0 :: byte)), glob_init = glob_init g\<rparr>"
    unfolding parse_global_def [abs_def] by (rule codec_intros i)+
  moreover have "(word_of_int (if glob_mutable g then 1 else 0) \<noteq> (0 :: byte)) = glob_mutable g" by simp
  ultimately show ?thesis by (cases g) (simp add: write_global_def)
qed

lemma transmits_export:
  assumes "dec (utf8 (exp_name ex)) = exp_name ex"
  shows "transmits (write_export utf8 ex) (parse_export dec) ex"
proof -
  have "transmits (rseq [enc_name utf8 (exp_name ex), w_byte (uint (exp_kind ex)), w_u32 (exp_index ex)])
     (parse_export dec) \<lparr>exp_name = exp_name ex, exp_kind = exp_kind ex, exp_index = exp_index ex\<rparr>"
    unfolding parse_export_def [abs_def] by (rule codec_intros transmits_name [of dec utf8, OF assms])+
  then show ?thesis by (cases ex) (simp add: write_export_def)
qed

subsection \<open>Element segments\<close>

text \<open>The segments the reader can return: their optional fields are present as the flags say.\<close>

definition element_wf :: "element_entry \<Rightarrow> bool" where
  "element_wf el \<longleftrightarrow>
     (el_has_explicit_table (el_flags el) \<or> el_tableIdx el = 0)
     \<and> (case el_offsetExpr el of Some ex \<Rightarrow> el_is_active (el_flags el) \<and> expr_seq 1 ex
          | None \<Rightarrow> \<not> el_is_active (el_flags el))
     \<and> (el_kindByte el \<noteq> None \<longleftrightarrow> el_has_kind_byte (el_flags el))
     \<and> (case el_elemExprs el of
          Some exs \<Rightarrow> el_uses_exprs (el_flags el) \<and> expr_seq (el_elemCount el) exs \<and> el_funcIndices el = []
        | None \<Rightarrow> \<not> el_uses_exprs (el_flags el) \<and> el_elemCount el = length (el_funcIndices el))"

lemma reads_elem_exprs:
  assumes "expr_seq n exs"
  shows "reads (\<lambda>r. rbind (rtimes n rd_expr r)
     (\<lambda>(_, r'). Inr (([] :: nat list, Some (slice (pos r) (pos r') (data r'))), r'))) exs ([], Some exs)"
proof (rule readsI)
  fix r ys
  assume r: "pos r \<le> length (data r)" "rest r = exs @ ys"
  obtain vs where "reads (rtimes n rd_expr) exs vs" using reads_expr_seq [OF assms] ..
  from readsD [OF this r] have "rtimes n rd_expr r = Inr (vs, skip (length exs) r)" .
  then show "rbind (rtimes n rd_expr r)
       (\<lambda>(_, r'). Inr (([], Some (slice (pos r) (pos r') (data r'))), r')) = Inr (([], Some exs), skip (length exs) r)"
    using r(2) by (simp add: slice_def skip_def rest_def)
qed

lemma transmits_funcidx: "transmits (rfold w_u32 fs) (rtimes (length fs) rd_u32) fs"
  by (rule transmits_rfold) (rule transmits_w_u32)

lemma transmits_optional:
  "transmits (if c then w else Inr) (\<lambda>r. if c then g r else Inr (v0, r)) (if c then v else v0)"
  if "c \<Longrightarrow> transmits w g v"
  using that transmits_done by (cases c) simp_all

lemma transmits_payload:
  assumes "element_wf el"
  shows "transmits (rseq [case (el_uses_exprs (el_flags el), el_elemExprs el) of
           (True, Some exprs) \<Rightarrow> rseq [w_u32 (el_elemCount el), w_bytes exprs]
         | _ \<Rightarrow> enc_vector (el_funcIndices el) w_u32])
     (\<lambda>r. rbind (rd_u32 r) (\<lambda>(elemCount, r).
        rbind (if el_uses_exprs (el_flags el)
            then rbind (rtimes elemCount rd_expr r) (\<lambda>(_, r'). Inr (([], Some (slice (pos r) (pos r') (data r'))), r'))
            else rbind (rtimes elemCount rd_u32 r) (\<lambda>(fs, r). Inr ((fs, None), r)))
       (\<lambda>((funcIndices, elemExprs), r).
     Inr (\<lparr>el_flags = el_flags el, el_tableIdx = el_tableIdx el, el_offsetExpr = el_offsetExpr el,
            el_funcIndices = funcIndices, el_elemCount = elemCount, el_kindByte = el_kindByte el,
            el_elemExprs = elemExprs\<rparr>, r)))) el"
proof (cases "el_elemExprs el")
  case None
  then have u: "el_uses_exprs (el_flags el) = False" and n: "el_elemCount el = length (el_funcIndices el)"
    using assms by (auto simp: element_wf_def)
  have v: "rseq [enc_vector (el_funcIndices el) w_u32] = rseq [w_u32 (length (el_funcIndices el)), rfold w_u32 (el_funcIndices el)]"
    by (rule ext) (simp add: enc_vector_def w_u32_def rseq_Cons_fun rseq_Nil_fun)
  show ?thesis
    unfolding None u v prod.case option.case if_False bool.case
    apply (rule transmits_rseq_Cons [OF transmits_w_u32])
    apply (rule transmits_rseq_Cons)
     apply (rule transmits_map [OF transmits_funcidx])
     apply simp
    apply (use None n in \<open>cases el, simp add: transmits_rseq_Nil\<close>)
    done
next
  case (Some exs)
  then have u: "el_uses_exprs (el_flags el) = True" and s: "expr_seq (el_elemCount el) exs" and f: "el_funcIndices el = []"
    using assms by (auto simp: element_wf_def)
  have v: "rseq [rseq [w_u32 (el_elemCount el), w_bytes exs]] = rseq [w_u32 (el_elemCount el), w_bytes exs]"
    by (rule ext) (simp add: rseq_Cons_fun rseq_Nil_fun)
  show ?thesis
    unfolding Some u v prod.case option.case if_True bool.case
    apply (rule transmits_rseq_Cons [OF transmits_w_u32])
    apply (rule transmits_rseq_Cons)
     apply (rule transmits_w_bytes)
     apply (rule reads_elem_exprs [OF s])
    apply (use Some f in \<open>cases el, simp add: transmits_rseq_Nil\<close>)
    done
qed

lemma transmits_element:
  assumes wf: "element_wf el"
  shows "transmits (write_element el) parse_element el"
proof -
  let ?f = "el_flags el"
  have t: "(if el_has_explicit_table ?f then el_tableIdx el else 0) = el_tableIdx el"
    using wf by (auto simp: element_wf_def)
  have tab: "transmits (if el_has_explicit_table ?f then w_u32 (el_tableIdx el) else Inr)
      (\<lambda>r. if el_has_explicit_table ?f then rd_u32 r else Inr (0, r)) (el_tableIdx el)"
    using transmits_optional [of "el_has_explicit_table ?f" "w_u32 (el_tableIdx el)" rd_u32 "el_tableIdx el" 0]
    by (simp add: t transmits_w_u32)
  have off: "transmits (case el_offsetExpr el of Some ex \<Rightarrow> if el_is_active ?f then w_bytes ex else Inr | None \<Rightarrow> Inr)
      (\<lambda>r. if el_is_active ?f then rbind (rd_expr r) (\<lambda>(e, r). Inr (Some e, r)) else Inr (None, r)) (el_offsetExpr el)"
  proof (cases "el_offsetExpr el")
    case None
    then have "\<not> el_is_active ?f" using wf by (auto simp: element_wf_def)
    then show ?thesis by (simp add: None transmits_done)
  next
    case (Some ex)
    then have a: "el_is_active ?f" "expr_seq 1 ex" using wf by (auto simp: element_wf_def)
    have "transmits (w_bytes ex) (\<lambda>r. rbind (rd_expr r) (\<lambda>(e, r). Inr (Some e, r))) (Some ex)"
      by (rule transmits_map [OF transmits_w_bytes [OF reads_expr [OF a(2)]]]) simp
    with a(1) show ?thesis by (simp add: Some)
  qed
  have kind: "transmits (case el_kindByte el of Some k \<Rightarrow> if el_has_kind_byte ?f then w_byte (uint k) else Inr | None \<Rightarrow> Inr)
      (\<lambda>r. if el_has_kind_byte ?f then rbind (rd_byte r) (\<lambda>(k, r). Inr (Some k, r)) else Inr (None, r)) (el_kindByte el)"
  proof (cases "el_kindByte el")
    case None
    then have "\<not> el_has_kind_byte ?f" using wf by (auto simp: element_wf_def)
    then show ?thesis by (simp add: None transmits_done)
  next
    case (Some k)
    then have a: "el_has_kind_byte ?f" using wf by (auto simp: element_wf_def)
    have "transmits (w_byte (uint k)) (\<lambda>r. rbind (rd_byte r) (\<lambda>(k, r). Inr (Some k, r))) (Some k)"
      by (rule transmits_map [OF transmits_w_ubyte]) simp
    with a show ?thesis by (simp add: Some)
  qed
  show ?thesis
    unfolding write_element_def Let_def parse_element_def [abs_def]
    by (rule transmits_rseq_Cons transmits_w_u32 tab off kind transmits_payload [OF wf])+
qed

subsection \<open>Function bodies\<close>

definition rd_local :: "byte_reader \<Rightarrow> read_error + ((nat \<times> byte) \<times> byte_reader)" where
  "rd_local r = rbind (rd_u32 r) (\<lambda>(lcount, r). rbind (rd_byte r) (\<lambda>(ltype, r). Inr ((lcount, ltype), r)))"

lemma transmits_local: "transmits (rseq [w_u32 cnt, w_byte (uint ty)]) rd_local (cnt, ty)"
  unfolding rd_local_def [abs_def] by (rule codec_intros)+

lemma transmits_locals:
  "transmits (rseq [w_u32 (length ls), rfold (\<lambda>(cnt, ty). rseq [w_u32 cnt, w_byte (uint ty)]) ls]) (rd_vec rd_local) ls"
proof -
  have ls: "transmits (rfold (\<lambda>(cnt, ty). rseq [w_u32 cnt, w_byte (uint ty)]) ls) (rtimes (length ls) rd_local) ls"
    by (rule transmits_rfold) (auto simp: transmits_local split: prod.split)
  show ?thesis
    unfolding rd_vec_def [abs_def]
    by (rule transmits_rseq_Cons [OF transmits_w_u32]) (rule transmits_rseq_single [OF ls])
qed

lemma write_body_bytes:
  assumes "encoder_inv e" and "write_body c e = Inr e'"
  obtains bs where "encoder_inv e'" and "finish e' = finish e @ bs @ code_body c"
    and "reads (rd_vec rd_local) bs (code_locals c)"
proof -
  let ?ls = "[w_u32 (length (code_locals c)),
     rfold (\<lambda>(cnt, ty). rseq [w_u32 cnt, w_byte (uint ty)]) (code_locals c)]"
  obtain e1 where 1: "rseq ?ls e = Inr e1" and 2: "w_bytes (code_body c) e1 = Inr e'"
    using assms(2) by (auto simp: write_body_def)
  obtain bs where bs: "encoder_inv e1" "finish e1 = finish e @ bs" "reads (rd_vec rd_local) bs (code_locals c)"
    using transmits_locals assms(1) 1 by (rule transmitsE)
  from 2 have "e' = enc_bytes (code_body c) e1" by (simp add: w_bytes_def)
  with bs show ?thesis by (intro that [of bs]) (simp_all add: enc_bytes_props)
qed

lemma parse_code_alt:
  "parse_code = (\<lambda>r. rbind (rd_u32 r) (\<lambda>(bodySize, r).
     rbind (rd_vec rd_local r) (\<lambda>(locals, r').
       Inr (\<lparr>code_locals = locals, code_body = slice (pos r') (pos r + bodySize) (data r')\<rparr>, r'\<lparr>pos := pos r + bodySize\<rparr>))))"
  by (rule ext) (simp add: parse_code_def Let_def rd_local_def [abs_def])

lemma reads_code_body:
  assumes "reads (rd_vec rd_local) bs ls"
  shows "reads (\<lambda>r. rbind (rd_vec rd_local r) (\<lambda>(locals, r').
       Inr (\<lparr>code_locals = locals, code_body = slice (pos r') (pos r + length (bs @ body)) (data r')\<rparr>,
         r'\<lparr>pos := pos r + length (bs @ body)\<rparr>))) (bs @ body) \<lparr>code_locals = ls, code_body = body\<rparr>"
proof (rule readsI)
  fix r ys
  assume p: "pos r \<le> length (data r)" and r: "rest r = (bs @ body) @ ys"
  then have "rd_vec rd_local r = Inr (ls, skip (length bs) r)"
    using readsD [OF assms p, of "body @ ys"] by simp
  moreover have "drop (pos r + length bs) (data r) = body @ ys"
    using arg_cong [OF r, of "drop (length bs)"] by (simp add: rest_def add.commute)
  ultimately show "rbind (rd_vec rd_local r) (\<lambda>(locals, r').
       Inr (\<lparr>code_locals = locals, code_body = slice (pos r') (pos r + length (bs @ body)) (data r')\<rparr>,
         r'\<lparr>pos := pos r + length (bs @ body)\<rparr>)) = Inr (\<lparr>code_locals = ls, code_body = body\<rparr>, skip (length (bs @ body)) r)"
    by (simp add: skip_def slice_def)
qed

lemma transmits_code: "transmits (write_code c) parse_code c"
proof (rule transmitsI)
  fix e e'
  assume e: "encoder_inv e" and w: "write_code c e = Inr e'"
  from w obtain b where b: "write_body c new_encoder = Inr b"
    and w': "rseq [w_u32 (length (finish b)), w_bytes (finish b)] e = Inr e'"
    by (auto simp: write_code_def Let_def)
  obtain bs where bs: "finish b = bs @ code_body c" "reads (rd_vec rd_local) bs (code_locals c)"
    using new_encoder_inv b by (rule write_body_bytes) (auto simp: finish_new_encoder)
  have "transmits (rseq [w_u32 (length (finish b)), w_bytes (finish b)]) parse_code c"
    unfolding parse_code_alt bs(1)
    apply (rule transmits_rseq_Cons [OF transmits_w_u32])
    apply (rule transmits_rseq_single)
    apply (rule transmits_w_bytes)
    apply (use reads_code_body [OF bs(2), of "code_body c"] in \<open>cases c, simp\<close>)
    done
  from transmitsE [OF this e w'] show "\<exists>bs. encoder_inv e' \<and> finish e' = finish e @ bs \<and> reads parse_code bs c"
    by metis
qed

subsection \<open>The interpretations\<close>

interpretation type_codec: codec write_type parse_type "\<lambda>_. True"
  by unfold_locales (rule transmits_type)

interpretation funcidx_codec: codec w_u32 rd_u32 "\<lambda>_. True"
  by unfold_locales (rule transmits_w_u32)

interpretation table_codec: codec write_table parse_table "\<lambda>_. True"
  by unfold_locales (rule transmits_table)

interpretation memory_codec: codec write_memory parse_memory "\<lambda>_. True"
  by unfold_locales (rule transmits_memory)

interpretation tag_codec: codec write_tag parse_tag "\<lambda>_. True"
  by unfold_locales (rule transmits_tag)

interpretation global_codec: codec write_global parse_global global_wf
  by unfold_locales (rule transmits_global)

interpretation export_codec: codec "write_export utf8" "parse_export dec" "\<lambda>ex. dec (utf8 (exp_name ex)) = exp_name ex"
  for utf8 dec
  by unfold_locales (rule transmits_export)

interpretation element_codec: codec write_element parse_element element_wf
  by unfold_locales (rule transmits_element)

interpretation code_codec: codec write_code parse_code "\<lambda>_. True"
  by unfold_locales (rule transmits_code)

section \<open>Sections\<close>

text \<open>
  A writer of sections takes the section loop from one object to another: whatever follows, the
  loop that starts on its bytes goes on behind them with the entries added.
\<close>

definition section_step :: "(byte list \<Rightarrow> string) \<Rightarrow> writer \<Rightarrow> parsed_object \<Rightarrow> parsed_object \<Rightarrow> bool" where
  "section_step dec w obj obj' \<longleftrightarrow> (\<forall>e e'. encoder_inv e \<longrightarrow> w e = Inr e' \<longrightarrow>
     (\<exists>bs. encoder_inv e' \<and> finish e' = finish e @ bs
        \<and> (\<forall>r ys. pos r \<le> length (data r) \<longrightarrow> rest r = bs @ ys
              \<longrightarrow> section_loop dec obj r = section_loop dec obj' (skip (length bs) r))))"

lemma section_stepE:
  assumes "section_step dec w obj obj'" and "encoder_inv e" and "w e = Inr e'"
  obtains bs where "encoder_inv e'" and "finish e' = finish e @ bs"
    and "\<And>r ys. pos r \<le> length (data r) \<Longrightarrow> rest r = bs @ ys
      \<Longrightarrow> section_loop dec obj r = section_loop dec obj' (skip (length bs) r)"
  using assms unfolding section_step_def by meson

lemma section_step_Inr: "section_step dec Inr obj obj"
  unfolding section_step_def by (auto intro!: exI [of _ "[]"] simp: skip_0)

lemma section_step_eq: "section_step dec w obj obj1 \<Longrightarrow> obj1 = obj2 \<Longrightarrow> section_step dec w obj obj2"
  by simp

lemma section_step_Nil: "section_step dec (rseq []) obj obj"
  unfolding rseq_Nil_fun by (rule section_step_Inr)

lemma section_step_Cons:
  assumes "section_step dec w obj obj1" and "section_step dec (rseq ws) obj1 obj2"
  shows "section_step dec (rseq (w # ws)) obj obj2"
  unfolding section_step_def
proof (intro allI impI)
  fix e e'
  assume e: "encoder_inv e" and "rseq (w # ws) e = Inr e'"
  then obtain e1 where 1: "w e = Inr e1" and 2: "rseq ws e1 = Inr e'" by auto
  obtain bs where bs: "encoder_inv e1" "finish e1 = finish e @ bs"
    and lb: "\<And>r ys. pos r \<le> length (data r) \<Longrightarrow> rest r = bs @ ys
      \<Longrightarrow> section_loop dec obj r = section_loop dec obj1 (skip (length bs) r)"
    by (rule section_stepE [OF assms(1) e 1]) blast
  obtain cs where cs: "encoder_inv e'" "finish e' = finish e1 @ cs"
    and lc: "\<And>r ys. pos r \<le> length (data r) \<Longrightarrow> rest r = cs @ ys
      \<Longrightarrow> section_loop dec obj1 r = section_loop dec obj2 (skip (length cs) r)"
    by (rule section_stepE [OF assms(2) bs(1) 2]) blast
  have "section_loop dec obj r = section_loop dec obj2 (skip (length (bs @ cs)) r)"
    if p: "pos r \<le> length (data r)" and r: "rest r = (bs @ cs) @ ys" for r ys
  proof -
    from r have r': "rest r = bs @ (cs @ ys)" by simp
    have "section_loop dec obj1 (skip (length bs) r) = section_loop dec obj2 (skip (length cs) (skip (length bs) r))"
      by (rule lc [where ys = ys]) (simp_all add: skip_in_range [OF p r'] rest_skip r)
    with lb [OF p r'] show ?thesis by (simp add: skip_skip)
  qed
  with bs(2) cs show "\<exists>bs. encoder_inv e' \<and> finish e' = finish e @ bs
        \<and> (\<forall>r ys. pos r \<le> length (data r) \<longrightarrow> rest r = bs @ ys
              \<longrightarrow> section_loop dec obj r = section_loop dec obj2 (skip (length bs) r))"
    by (intro exI [of _ "bs @ cs"]) auto
qed

text \<open>One section: its identifier, its size and its contents.\<close>

lemma section_loop_step:
  assumes p: "pos r \<le> length (data r)" and r: "rest r = [sid] @ szs @ content @ ys"
    and sz: "reads rd_u32 szs (length content)"
    and sec: "\<And>fin. reads (parse_section dec sid fin obj) content obj'"
  shows "section_loop dec obj r = section_loop dec obj' (skip (length ([sid] @ szs @ content)) r)"
proof -
  let ?r1 = "skip (Suc 0) r" and ?r2 = "skip (length szs) (skip (Suc 0) r)"
  from r have "rest r \<noteq> []" by simp
  with p have lt: "pos r < length (data r)" by (simp add: rest_def)
  have p1: "pos ?r1 \<le> length (data ?r1)" using lt by (simp add: skip_def)
  have r1: "rest ?r1 = szs @ (content @ ys)" by (simp add: rest_skip r)
  have p2: "pos ?r2 \<le> length (data ?r2)" by (rule skip_in_range [OF p1 r1])
  have r2: "rest ?r2 = content @ ys" unfolding rest_skip [of "length szs"] r1 by simp
  have b: "rd_byte r = Inr (sid, ?r1)"
    using readsD [OF reads_rd_byte p, of sid "szs @ content @ ys"] r by simp
  have u: "rd_u32 ?r1 = Inr (length content, ?r2)" by (rule readsD [OF sz p1 r1])
  have c: "parse_section dec sid fin obj ?r2 = Inr (obj', skip (length content) ?r2)" for fin
    by (rule readsD [OF sec p2 r2])
  have "section_loop dec obj r = section_loop dec obj' (?r2\<lparr>pos := pos ?r2 + length content\<rparr>)"
    by (subst section_loop.simps) (simp add: lt b u c Let_def)
  then show ?thesis by (simp add: skip_def add.assoc)
qed

lemma section_step_section:
  assumes t: "transmits w g v" and sid: "word_of_int sid = bid"
    and sec: "\<And>fin. parse_section dec bid fin obj = (\<lambda>r. rbind (g r) f)" "\<And>r. f (v, r) = Inr (obj', r)"
  shows "section_step dec (enc_section sid w) obj obj'"
  unfolding section_step_def
proof (intro allI impI)
  fix e e'
  assume e: "encoder_inv e" and "enc_section sid w e = Inr e'"
  then obtain sub e1 where sub: "w new_encoder = Inr sub"
    and e1: "enc_u32 (int (length (finish sub))) (enc_byte sid e) = Inr e1" and e': "e' = enc_bytes (finish sub) e1"
    by (auto simp: enc_section_def Let_def)
  obtain cs where cs: "finish sub = cs" "reads g cs v"
    using t new_encoder_inv sub by (rule transmitsE) (simp add: finish_new_encoder)
  obtain szs where szs: "encoder_inv e1" "finish e1 = finish (enc_byte sid e) @ szs" "reads rd_u32 szs (length (finish sub))"
    using transmits_u32 enc_byte_props(1) [OF e] e1 by (rule transmitsE)
  have sec': "reads (parse_section dec bid fin obj) cs obj'" for fin
    unfolding sec(1) by (rule reads_map [OF cs(2) sec(2)])
  have "section_loop dec obj r = section_loop dec obj' (skip (length ([bid] @ szs @ cs)) r)"
    if "pos r \<le> length (data r)" "rest r = ([bid] @ szs @ cs) @ ys" for r ys
    by (rule section_loop_step [OF that(1) _ _ sec', of szs ys]) (use that(2) szs(3) cs(1) in auto)
  moreover have "encoder_inv e' \<and> finish e' = finish e @ [bid] @ szs @ cs"
    using szs cs(1) e by (simp add: e' enc_bytes_props enc_byte_props sid)
  ultimately show "\<exists>bs. encoder_inv e' \<and> finish e' = finish e @ bs
        \<and> (\<forall>r ys. pos r \<le> length (data r) \<longrightarrow> rest r = bs @ ys
              \<longrightarrow> section_loop dec obj r = section_loop dec obj' (skip (length bs) r))"
    by blast
qed

lemma section_step_vec:
  assumes "transmits (enc_vector items w) (rd_vec g) items"
    and "\<And>fin r. parse_section dec bid fin obj r = rbind (rd_vec g r) (\<lambda>(xs, r). Inr (upd xs, r))"
    and "upd [] = obj" and "word_of_int sid = bid"
  shows "section_step dec (vec_section sid items w) obj (upd items)"
proof (cases items)
  case Nil
  with assms(3) show ?thesis by (simp add: vec_section_def section_step_Inr)
next
  case Cons
  have "section_step dec (enc_section sid (enc_vector items w)) obj (upd items)"
    by (rule section_step_section [OF assms(1,4), where f = "\<lambda>(xs, r). Inr (upd xs, r)"])
      (simp_all add: fun_eq_iff assms(2))
  with Cons show ?thesis by (simp add: vec_section_def)
qed

section \<open>Whole modules\<close>

text \<open>The objects the reader can return, with one code entry per declared function.\<close>

definition entries_wf :: "parsed_object \<Rightarrow> bool" where
  "entries_wf obj \<longleftrightarrow> list_all global_wf (obj_globals obj) \<and> list_all element_wf (obj_elements obj)"

definition object_wf :: "parsed_object \<Rightarrow> bool" where
  "object_wf obj \<longleftrightarrow> entries_wf obj \<and> length (obj_code obj) = length (obj_functions obj)"

text \<open>A segment without explicit table index is read back with table 0.\<close>

definition implicit_table :: "element_entry \<Rightarrow> element_entry" where
  "implicit_table el = (if el_has_explicit_table (el_flags el) then el else el\<lparr>el_tableIdx := 0\<rparr>)"

definition linked_object ::
    "string \<Rightarrow> bool \<Rightarrow> string option \<Rightarrow> parsed_object list \<Rightarrow> resolution \<Rightarrow> module_offsets list \<Rightarrow> parsed_object" where
  "linked_object nm trace entry parsed res offs = (empty_object nm)\<lparr>
     obj_types := allTypes parsed, obj_functions := allFunctions parsed offs, obj_tables := allTables parsed,
     obj_memories := allMemories parsed, obj_globals := allGlobals parsed,
     obj_exports := exportEntries trace entry parsed offs,
     obj_elements := map implicit_table (allElements parsed offs), obj_tags := allTags parsed offs,
     obj_code := allCode parsed offs res\<rparr>"

lemma write_implicit_table: "write_element (implicit_table el) = write_element el"
  by (simp add: write_element_def implicit_table_def Let_def split: bool.split option.split)

lemma vec_section_implicit_table:
  "vec_section 9 (map implicit_table els) write_element = vec_section 9 els write_element"
proof -
  have "rfold write_element (map implicit_table els) = rfold write_element els"
    by (rule ext) (simp add: rfold_map write_implicit_table)
  then show ?thesis by (simp add: vec_section_def enc_vector_def [abs_def])
qed

lemma rebased_element_wf:
  "element_wf el \<Longrightarrow> element_wf (implicit_table (el\<lparr>el_tableIdx := el_tableIdx el + d,
     el_funcIndices := map (\<lambda>i. i + k) (el_funcIndices el)\<rparr>))"
  by (auto simp: element_wf_def implicit_table_def split: option.splits)

lemma with_offsets_member: "(m, obj, off) \<in> set (with_offsets parsed offs) \<Longrightarrow> obj \<in> set parsed"
  by (auto simp: with_offsets_def in_set_enumerate_eq set_zip)

lemma allElements_wf:
  "\<forall>obj\<in>set parsed. entries_wf obj \<Longrightarrow> \<forall>el\<in>set (map implicit_table (allElements parsed offs)). element_wf el"
  by (fastforce simp: allElements_def entries_wf_def list_all_iff rebased_element_wf dest: with_offsets_member)

lemma allGlobals_wf: "\<forall>obj\<in>set parsed. entries_wf obj \<Longrightarrow> \<forall>g\<in>set (allGlobals parsed). global_wf g"
  by (auto simp: allGlobals_def entries_wf_def list_all_iff)

lemma length_concat_with_offsets:
  "length offs = length parsed \<Longrightarrow> (\<And>m obj off. length (f (m, obj, off)) = h obj) \<Longrightarrow>
     length (concat (map f (with_offsets parsed offs))) = sum_list (map h parsed)"
proof -
  assume l: "length offs = length parsed" and f: "\<And>m obj off. length (f (m, obj, off)) = h obj"
  have "map (\<lambda>x. length (f x)) (List.enumerate k (zip parsed offs)) = map h parsed" for k
    using l by (induction parsed offs arbitrary: k rule: list_induct2') (simp_all add: f)
  then show ?thesis by (simp add: length_concat with_offsets_def comp_def)
qed

lemma length_allCode:
  assumes "length offs = length parsed" and "\<forall>obj\<in>set parsed. object_wf obj"
  shows "length (allCode parsed offs res) = length (allFunctions parsed offs)"
proof -
  have "length (allCode parsed offs res) = sum_list (map (\<lambda>obj. length (obj_code obj)) parsed)"
    unfolding allCode_def by (rule length_concat_with_offsets [OF assms(1)]) simp
  also have "\<dots> = sum_list (map (\<lambda>obj. length (obj_functions obj)) parsed)"
    using assms(2) by (intro arg_cong [where f = sum_list] map_cong) (auto simp: object_wf_def)
  also have "\<dots> = length (allFunctions parsed offs)"
    unfolding allFunctions_def by (rule length_concat_with_offsets [OF assms(1), symmetric]) simp
  finally show ?thesis .
qed

lemma code_section_vec: "length code = n \<Longrightarrow> code_section n code = vec_section 10 code write_code"
proof -
  have "rseq [w_u32 (length code), rfold write_code code] = enc_vector code write_code"
    by (rule ext) (simp add: enc_vector_def w_u32_def rseq_Cons_fun rseq_Nil_fun)
  moreover assume "length code = n"
  ultimately show ?thesis by (auto simp: code_section_def vec_section_def)
qed

lemmas section_parsers = parseTypeSection_def parseFunctionSection_def parseTableSection_def
  parseMemorySection_def parseGlobalSection_def parseExportSection_def parseElementSection_def
  parseCodeSection_def parseTagSection_def

lemma section_step_add:
  "transmits (enc_vector ts write_type) (rd_vec parse_type) ts \<Longrightarrow>
     section_step dec (vec_section 1 ts write_type) obj (obj\<lparr>obj_types := obj_types obj @ ts\<rparr>)"
  "transmits (enc_vector fs w_u32) (rd_vec rd_u32) fs \<Longrightarrow>
     section_step dec (vec_section 3 fs w_u32) obj (obj\<lparr>obj_functions := obj_functions obj @ fs\<rparr>)"
  "transmits (enc_vector tabs write_table) (rd_vec parse_table) tabs \<Longrightarrow>
     section_step dec (vec_section 4 tabs write_table) obj (obj\<lparr>obj_tables := obj_tables obj @ tabs\<rparr>)"
  "transmits (enc_vector ms write_memory) (rd_vec parse_memory) ms \<Longrightarrow>
     section_step dec (vec_section 5 ms write_memory) obj (obj\<lparr>obj_memories := obj_memories obj @ ms\<rparr>)"
  "transmits (enc_vector tags write_tag) (rd_vec parse_tag) tags \<Longrightarrow>
     section_step dec (vec_section 13 tags write_tag) obj (obj\<lparr>obj_tags := obj_tags obj @ tags\<rparr>)"
  "transmits (enc_vector gs write_global) (rd_vec parse_global) gs \<Longrightarrow>
     section_step dec (vec_section 6 gs write_global) obj (obj\<lparr>obj_globals := obj_globals obj @ gs\<rparr>)"
  "transmits (enc_vector es (write_export utf8)) (rd_vec (parse_export dec)) es \<Longrightarrow>
     section_step dec (vec_section 7 es (write_export utf8)) obj (obj\<lparr>obj_exports := obj_exports obj @ es\<rparr>)"
  "transmits (enc_vector els write_element) (rd_vec parse_element) els \<Longrightarrow>
     section_step dec (vec_section 9 els write_element) obj (obj\<lparr>obj_elements := obj_elements obj @ els\<rparr>)"
  "transmits (enc_vector cs write_code) (rd_vec parse_code) cs \<Longrightarrow>
     section_step dec (vec_section 10 cs write_code) obj (obj\<lparr>obj_code := obj_code obj @ cs\<rparr>)"
  subgoal
    by (erule section_step_vec [where upd = "\<lambda>xs. obj\<lparr>obj_types := obj_types obj @ xs\<rparr>" and bid = 1])
      (simp_all add: parse_section_def section_parsers)
  subgoal
    by (erule section_step_vec [where upd = "\<lambda>xs. obj\<lparr>obj_functions := obj_functions obj @ xs\<rparr>" and bid = 3])
      (simp_all add: parse_section_def section_parsers)
  subgoal
    by (erule section_step_vec [where upd = "\<lambda>xs. obj\<lparr>obj_tables := obj_tables obj @ xs\<rparr>" and bid = 4])
      (simp_all add: parse_section_def section_parsers)
  subgoal
    by (erule section_step_vec [where upd = "\<lambda>xs. obj\<lparr>obj_memories := obj_memories obj @ xs\<rparr>" and bid = 5])
      (simp_all add: parse_section_def section_parsers)
  subgoal
    by (erule section_step_vec [where upd = "\<lambda>xs. obj\<lparr>obj_tags := obj_tags obj @ xs\<rparr>" and bid = 13])
      (simp_all add: parse_section_def section_parsers)
  subgoal
    by (erule section_step_vec [where upd = "\<lambda>xs. obj\<lparr>obj_globals := obj_globals obj @ xs\<rparr>" and bid = 6])
      (simp_all add: parse_section_def section_parsers)
  subgoal
    by (erule section_step_vec [where upd = "\<lambda>xs. obj\<lparr>obj_exports := obj_exports obj @ xs\<rparr>" and bid = 7])
      (simp_all add: parse_section_def section_parsers)
  subgoal
    by (erule section_step_vec [where upd = "\<lambda>xs. obj\<lparr>obj_elements := obj_elements obj @ xs\<rparr>" and bid = 9])
      (simp_all add: parse_section_def section_parsers)
  subgoal
    by (erule section_step_vec [where upd = "\<lambda>xs. obj\<lparr>obj_code := obj_code obj @ xs\<rparr>" and bid = 10])
      (simp_all add: parse_section_def section_parsers)
  done

lemma section_loop_end: "pos r = length (data r) \<Longrightarrow> section_loop dec obj r = Inr obj"
  by (subst section_loop.simps) simp

text \<open>Reading a module: the header, then the sections a writer left behind it.\<close>

lemma parseObject_emitted:
  assumes w: "rseq ([w_bytes [0x00, 0x61, 0x73, 0x6d], w_bytes [0x01, 0x00, 0x00, 0x00]] @ ws) new_encoder = Inr e"
    and s: "section_step dec (rseq ws) (empty_object nm) obj"
  shows "parseObject dec nm (finish e) = Inr obj"
proof -
  let ?h = "[0x00, 0x61, 0x73, 0x6d, 0x01, 0x00, 0x00, 0x00] :: byte list"
  let ?e = "enc_bytes [0x01, 0x00, 0x00, 0x00] (enc_bytes [0x00, 0x61, 0x73, 0x6d] new_encoder)"
  have e: "encoder_inv ?e" "finish ?e = ?h"
    by (simp_all add: enc_bytes_props new_encoder_inv finish_new_encoder)
  have "rseq ws ?e = Inr e" using w by (simp add: w_bytes_def)
  from section_stepE [OF s e(1) this] obtain bs where bs: "finish e = ?h @ bs"
    and l: "\<And>r ys. pos r \<le> length (data r) \<Longrightarrow> rest r = bs @ ys
      \<Longrightarrow> section_loop dec (empty_object nm) r = section_loop dec obj (skip (length bs) r)"
    unfolding e(2) by blast
  let ?r = "\<lparr>data = ?h @ bs, pos = 8\<rparr>"
  have "section_loop dec (empty_object nm) ?r = section_loop dec obj (skip (length bs) ?r)"
    by (rule l [of _ "[]"]) (simp_all add: rest_def)
  also have "\<dots> = Inr obj" by (rule section_loop_end) (simp add: skip_def)
  finally show ?thesis by (simp add: bs parseObject_def rd_bytes_def)
qed

text \<open>
  When \<open>emitLinked\<close> succeeds, \<open>parseObject\<close> accepts its output and returns exactly the merged
  entries: the concatenated types, tables, memories and globals, the functions and tags with
  their type indices rebased, the selected exports, the element segments and the rewritten
  code. \<open>dec (utf8 s) = s\<close> is asked of the exported names only.
\<close>

lemma emitLinked_roundtrip:
  assumes "emitLinked utf8 trace entry parsed res offs = Inr bs"
    and "length offs = length parsed" and wf: "\<forall>obj\<in>set parsed. object_wf obj"
    and names: "\<forall>ex\<in>set (exportEntries trace entry parsed offs). dec (utf8 (exp_name ex)) = exp_name ex"
  shows "parseObject dec nm bs = Inr (linked_object nm trace entry parsed res offs)"
proof -
  have ewf: "\<forall>obj\<in>set parsed. entries_wf obj" using wf by (simp add: object_wf_def)
  note vs = type_codec.transmits_vector funcidx_codec.transmits_vector table_codec.transmits_vector
    memory_codec.transmits_vector tag_codec.transmits_vector global_codec.transmits_vector [OF allGlobals_wf [OF ewf]]
    export_codec.transmits_vector [OF names] element_codec.transmits_vector [OF allElements_wf [OF ewf]]
    code_codec.transmits_vector
  note code = code_section_vec [OF length_allCode [OF assms(2) wf]]
  let ?ws = "[vec_section 1 (allTypes parsed) write_type,
       vec_section 3 (allFunctions parsed offs) w_u32,
       vec_section 4 (allTables parsed) write_table,
       vec_section 5 (allMemories parsed) write_memory,
       vec_section 13 (allTags parsed offs) write_tag,
       vec_section 6 (allGlobals parsed) write_global,
       vec_section 7 (exportEntries trace entry parsed offs) (write_export utf8),
       vec_section 9 (map implicit_table (allElements parsed offs)) write_element,
       vec_section 10 (allCode parsed offs res) write_code]"
  obtain e where w: "rseq ([w_bytes [0x00, 0x61, 0x73, 0x6d], w_bytes [0x01, 0x00, 0x00, 0x00]] @ ?ws) new_encoder = Inr e"
    and bs: "bs = finish e"
    using assms(1) unfolding emitLinked_def code vec_section_implicit_table by auto
  have "section_step dec (rseq ?ws) (empty_object nm) (linked_object nm trace entry parsed res offs)"
    apply (rule section_step_eq)
     apply (rule section_step_Cons section_step_add vs section_step_Nil ballI TrueI)+
    apply (simp add: linked_object_def empty_object_def)
    done
  from parseObject_emitted [OF w this] show ?thesis by (simp add: bs)
qed

section \<open>What the reader returns\<close>

lemma rd_scan_end_Inr:
  "rd_scan_end r = Inr r' \<Longrightarrow>
     \<exists>xs. 0x0b \<notin> set xs \<and> data r' = data r \<and> pos r' = pos r + length xs + 1 \<and> rest r = xs @ 0x0b # rest r'"
proof (induction r rule: rd_scan_end.induct)
  case (1 r)
  from "1.prems" obtain b r1 where b: "rd_byte r = Inr (b, r1)"
    and k: "(if b \<noteq> 0x0b then rd_scan_end r1 else Inr r1) = Inr r'"
    by (subst (asm) rd_scan_end.simps) (auto simp: rbind_Inr_iff)
  note b' = b [unfolded rd_byte_Inr]
  have r: "rest r = b # rest r1" using b' by (simp add: rest_def nth_drop_0)
  show ?case
  proof (cases "b = 0x0b")
    case True
    with k b' r show ?thesis by (intro exI [of _ "[]"]) auto
  next
    case False
    with k have "rd_scan_end r1 = Inr r'" by simp
    from "1.IH" [OF b refl False this] obtain xs where
      "0x0b \<notin> set xs" "data r' = data r1" "pos r' = pos r1 + length xs + 1" "rest r1 = xs @ 0x0b # rest r'"
      by blast
    with False b' r show ?thesis by (intro exI [of _ "b # xs"]) auto
  qed
qed

lemma expr_seq_append: "expr_seq m xs \<Longrightarrow> expr_seq n ys \<Longrightarrow> expr_seq (m + n) (xs @ ys)"
  by (auto simp: expr_seq_def last_append)

lemma rd_expr_Inr:
  assumes "rd_expr r = Inr (ex, r')"
  shows "expr_seq 1 ex \<and> data r' = data r \<and> rest r = ex @ rest r' \<and> pos r' = pos r + length ex"
proof -
  from assms have s: "rd_scan_end r = Inr r'" and ex: "ex = slice (pos r) (pos r') (data r')"
    by (auto simp: rd_expr_def)
  from rd_scan_end_Inr [OF s] obtain xs where xs: "0x0b \<notin> set xs" "data r' = data r"
    "pos r' = pos r + length xs + 1" "rest r = xs @ 0x0b # rest r'" by blast
  then have e: "ex = xs @ [0x0b]" by (simp add: ex slice_def rest_def)
  have "count_list xs 0x0b = 0" using xs(1) by simp
  then have "expr_seq 1 ex" by (simp add: e expr_seq_def)
  with xs e show ?thesis by simp
qed

lemma rd_exprs_Inr:
  "rtimes n rd_expr r = Inr (vs, r') \<Longrightarrow>
     \<exists>bs. expr_seq n bs \<and> data r' = data r \<and> rest r = bs @ rest r' \<and> pos r' = pos r + length bs"
proof (induction n arbitrary: r vs)
  case 0
  then show ?case by (auto simp: expr_seq_def)
next
  case (Suc n)
  then obtain ex r1 vs' where 1: "rd_expr r = Inr (ex, r1)" and 2: "rtimes n rd_expr r1 = Inr (vs', r')"
    by auto
  note e = rd_expr_Inr [OF 1]
  from Suc.IH [OF 2] obtain bs where bs: "expr_seq n bs" "data r' = data r1" "rest r1 = bs @ rest r'"
    "pos r' = pos r1 + length bs" by blast
  have "expr_seq (Suc n) (ex @ bs)" using expr_seq_append [of 1 ex n bs] e bs(1) by simp
  with e bs show ?case by (intro exI [of _ "ex @ bs"]) simp
qed

text \<open>\<open>results g P\<close>: every value the reader \<open>g\<close> returns satisfies \<open>P\<close>.\<close>

definition results :: "(byte_reader \<Rightarrow> read_error + ('a \<times> byte_reader)) \<Rightarrow> ('a \<Rightarrow> bool) \<Rightarrow> bool" where
  "results g P \<longleftrightarrow> (\<forall>r x r'. g r = Inr (x, r') \<longrightarrow> P x)"

lemma results_any: "results g (\<lambda>_. True)"
  by (simp add: results_def)

lemma results_Inr: "P x \<Longrightarrow> results (\<lambda>r. Inr (x, r)) P"
  by (simp add: results_def)

lemma results_bind:
  "results g Q \<Longrightarrow> (\<And>x. Q x \<Longrightarrow> results (f x) P) \<Longrightarrow> results (\<lambda>r. rbind (g r) (case_prod f)) P"
  by (fastforce simp: results_def)

lemma results_if: "(c \<Longrightarrow> results g P) \<Longrightarrow> (\<not> c \<Longrightarrow> results h P) \<Longrightarrow> results (\<lambda>r. if c then g r else h r) P"
  by (cases c) simp_all

lemma results_rd_expr: "results rd_expr (expr_seq 1)"
  by (auto simp: results_def dest: rd_expr_Inr)

lemma parse_global_wf: "results parse_global global_wf"
  unfolding parse_global_def [abs_def]
  by (rule results_bind results_any results_rd_expr results_Inr)+ (simp add: global_wf_def)

lemma results_offset:
  "results (\<lambda>r. if c then rbind (rd_expr r) (\<lambda>(e, r). Inr (Some e, r)) else Inr (None, r))
     (\<lambda>off. case off of Some ex \<Rightarrow> c \<and> expr_seq 1 ex | None \<Rightarrow> \<not> c)"
  by (cases c) (auto simp: results_def dest: rd_expr_Inr)

lemma results_kind:
  "results (\<lambda>r. if c then rbind (rd_byte r) (\<lambda>(k, r). Inr (Some k, r)) else Inr (None, r)) (\<lambda>k. k \<noteq> None \<longleftrightarrow> c)"
  by (cases c) (auto simp: results_def)

lemma results_payload:
  "results (\<lambda>r. if c
     then rbind (rtimes n rd_expr r) (\<lambda>(_, r'). Inr (([], Some (slice (pos r) (pos r') (data r'))), r'))
     else rbind (rtimes n rd_u32 r) (\<lambda>(fs, r). Inr ((fs, None), r)))
     (\<lambda>(fs, exs). case exs of Some es \<Rightarrow> c \<and> expr_seq n es \<and> fs = [] | None \<Rightarrow> \<not> c \<and> n = length fs)"
proof (cases c)
  case True
  then show ?thesis
    by (auto simp: results_def slice_def rest_def dest!: rd_exprs_Inr)
next
  case False
  then show ?thesis by (auto simp: results_def dest: rtimes_length)
qed

lemma parse_element_wf: "results parse_element element_wf"
proof -
  have t: "results (\<lambda>r. if c then rd_u32 r else Inr (0, r)) (\<lambda>t. c \<or> t = 0)" for c
    by (cases c) (simp_all add: results_def)
  show ?thesis
    unfolding parse_element_def [abs_def]
    apply (rule results_bind [OF results_any])
    apply (rule results_bind [OF t])
    apply (rule results_bind [OF results_offset])
    apply (rule results_bind [OF results_kind])
    apply (rule results_bind [OF results_any])
    apply (rule results_bind [OF results_payload])
    apply (auto intro!: results_Inr simp: element_wf_def split: option.splits)
    done
qed

lemma rtimes_all:
  "rtimes n g s = Inr (xs, t) \<Longrightarrow> results g P \<Longrightarrow> list_all P xs"
proof (induction n arbitrary: s xs)
  case (Suc n)
  then obtain x s1 xs' where "g s = Inr (x, s1)" "rtimes n g s1 = Inr (xs', t)" "xs = x # xs'" by auto
  with Suc.IH [of s1 xs'] Suc.prems(2) show ?case by (simp add: results_def) blast
qed simp

lemma rd_vec_all: "rd_vec g s = Inr (xs, t) \<Longrightarrow> results g P \<Longrightarrow> list_all P xs"
  by (auto simp: rd_vec_def intro: rtimes_all)

lemma linking_loop_fields:
  "linking_loop dec fin obj r = Inr (obj', r') \<Longrightarrow> obj_globals obj' = obj_globals obj \<and> obj_elements obj' = obj_elements obj"
proof (induction dec fin obj r rule: linking_loop.induct)
  case (1 dec fin obj r)
  show ?case
  proof (cases "pos r < fin")
    case True
    with "1.prems" obtain ty r1 n r2 where t: "rd_byte r = Inr (ty, r1)" and n: "rd_u32 r1 = Inr (n, r2)"
      and k: "(if ty = 8 then rbind (parseSymbolTable dec obj r2) (\<lambda>(obj', r3). linking_loop dec fin obj' r3)
          else linking_loop dec fin obj (r2\<lparr>pos := pos r2 + n\<rparr>)) = Inr (obj', r')"
      by (subst (asm) linking_loop.simps) (auto simp: Let_def simp del: if_split split del: if_split)
    show ?thesis
    proof (cases "ty = 8")
      case 8: True
      with k obtain obj1 r3 where s: "parseSymbolTable dec obj r2 = Inr (obj1, r3)"
        and l: "linking_loop dec fin obj1 r3 = Inr (obj', r')" by auto
      from "1.IH"(1) [OF True t refl n refl refl 8 s refl l] s show ?thesis
        by (auto simp: parseSymbolTable_def)
    next
      case False
      with k have l: "linking_loop dec fin obj (r2\<lparr>pos := pos r2 + n\<rparr>) = Inr (obj', r')" by simp
      from "1.IH"(2) [OF True t refl n refl refl False l] show ?thesis .
    qed
  next
    case False
    with "1.prems" show ?thesis by (subst (asm) linking_loop.simps) simp
  qed
qed

lemma parse_section_wf:
  assumes "parse_section dec sid fin obj r = Inr (obj', r')" and "entries_wf obj"
  shows "entries_wf obj'"
proof -
  have c: "entries_wf obj'" if "parseCustomSection dec fin obj r = Inr (obj', r')"
    using that assms(2)
    by (auto simp: parseCustomSection_def parseLinkingSection_def parseRelocSection_def entries_wf_def
        dest!: linking_loop_fields split: if_splits)
  have g: "entries_wf obj'" if "parseGlobalSection obj r = Inr (obj', r')"
    using that assms(2) by (auto simp: parseGlobalSection_def entries_wf_def dest: rd_vec_all [OF _ parse_global_wf])
  have e: "entries_wf obj'" if "parseElementSection obj r = Inr (obj', r')"
    using that assms(2) by (auto simp: parseElementSection_def entries_wf_def dest: rd_vec_all [OF _ parse_element_wf])
  show ?thesis
    using assms c g e
    by (auto simp: parse_section_def parseImportSection_def parseTypeSection_def parseFunctionSection_def
        parseTableSection_def parseMemorySection_def parseExportSection_def parseCodeSection_def
        parseTagSection_def entries_wf_def split: if_splits)
qed

lemma section_loop_wf: "section_loop dec obj r = Inr obj' \<Longrightarrow> entries_wf obj \<Longrightarrow> entries_wf obj'"
proof (induction dec obj r rule: section_loop.induct)
  case (1 dec obj r)
  show ?case
  proof (cases "pos r < length (data r)")
    case True
    with "1.prems"(1) obtain sid r1 n r2 obj1 r3 where s: "rd_byte r = Inr (sid, r1)" and n: "rd_u32 r1 = Inr (n, r2)"
      and p: "parse_section dec sid (pos r2 + n) obj r2 = Inr (obj1, r3)"
      and l: "section_loop dec obj1 (r2\<lparr>pos := pos r2 + n\<rparr>) = Inr obj'"
      by (subst (asm) section_loop.simps) (auto simp: Let_def)
    from "1.IH" [OF True s refl n refl refl p refl l] parse_section_wf [OF p "1.prems"(2)] show ?thesis by simp
  next
    case False
    with "1.prems" show ?thesis by (subst (asm) section_loop.simps) simp
  qed
qed

lemma parseObject_wf:
  assumes "parseObject dec nm bs = Inr obj"
  shows "entries_wf obj"
proof -
  from assms obtain r where "section_loop dec (empty_object nm) r = Inr obj"
    by (auto simp: parseObject_def split: if_splits)
  then show ?thesis by (rule section_loop_wf) (simp add: entries_wf_def empty_object_def)
qed

section \<open>The whole linker\<close>

lemma parse_all_snoc:
  "parse_all dec (objects @ [(nm, bs)]) =
     (case parseObject dec nm bs of
        Inr obj \<Rightarrow> (fst (parse_all dec objects) @ [obj], snd (parse_all dec objects))
      | Inl e \<Rightarrow> (fst (parse_all dec objects), snd (parse_all dec objects) @ [ParseFailed nm e]))"
  by (simp add: parse_all_def split: prod.split sum.split)

lemma parse_all_ok:
  "snd (parse_all dec objects) = [] \<Longrightarrow>
     map (\<lambda>(nm, bs). parseObject dec nm bs) objects = map Inr (fst (parse_all dec objects))"
proof (induction objects rule: rev_induct)
  case Nil
  show ?case by (simp add: parse_all_def)
next
  case (snoc x objects)
  then show ?case by (cases x) (auto simp: parse_all_snoc split: sum.splits)
qed

lemma parse_all_errors: "e \<in> set (snd (parse_all dec objects)) \<Longrightarrow> is_error e"
proof (induction objects rule: rev_induct)
  case (snoc x objects)
  then show ?case by (cases x) (auto simp: parse_all_snoc split: sum.splits)
qed (simp add: parse_all_def)

lemma parse_all_wf: "obj \<in> set (fst (parse_all dec objects)) \<Longrightarrow> entries_wf obj"
proof (induction objects rule: rev_induct)
  case (snoc x objects)
  then show ?case by (cases x) (auto simp: parse_all_snoc dest: parseObject_wf split: sum.splits)
qed (simp add: parse_all_def)

lemma link_success:
  assumes "lr_success (link dec utf8 trace entry doIsolation objects)"
  defines "parsed \<equiv> fst (parse_all dec objects)"
  shows "snd (parse_all dec objects) = []" and "errors (resolveSymbols parsed) = []"
    and "emitLinked utf8 trace entry parsed (resolveSymbols parsed) (computeOffsets parsed)
      = Inr (lr_binary (link dec utf8 trace entry doIsolation objects))"
proof -
  obtain errs where p: "parse_all dec objects = (parsed, errs)" by (cases "parse_all dec objects") (simp add: parsed_def)
  have "\<not> list_ex is_error errs"
    using assms(1) by (auto simp: link_def p failed_link_def)
  then have errs: "errs = []" using parse_all_errors [of _ dec objects] p
    by (cases errs) auto
  then show "snd (parse_all dec objects) = []" by (simp add: p)
  let ?res = "resolveSymbols parsed"
  have "errors ?res = [] \<and> (\<exists>bs. emitLinked utf8 trace entry parsed ?res (computeOffsets parsed) = Inr bs
      \<and> lr_binary (link dec utf8 trace entry doIsolation objects) = bs)"
    using assms(1)
    by (cases "errors ?res"; cases "emitLinked utf8 trace entry parsed ?res (computeOffsets parsed)")
      (auto simp: link_def p errs Let_def failed_link_def list_ex_iff split: if_splits)
  then show "errors ?res = []" and "emitLinked utf8 trace entry parsed ?res (computeOffsets parsed)
      = Inr (lr_binary (link dec utf8 trace entry doIsolation objects))" by auto
qed

text \<open>
  C1. The linker's output is a module its own reader accepts. When \<open>link\<close> reports success, every
  input was parsed, every symbol resolved, and \<open>parseObject\<close> on the binary returns the
  merged entries: the concatenated types, tables, memories and globals, functions and tags with
  rebased type indices, the selected exports, the element segments and the rewritten code. The one
  exception is the table index of an element segment with flags 0 or 4: the linker rebases it, but
  writes no index for these flags, so it is read back as 0 (\<open>implicit_table\<close>), whatever table of
  which module the segment belongs to. Hypotheses: each input has as many code entries as function
  entries, which the reader does not compare, and each export name survives \<open>TextEncoder\<close> and
  \<open>TextDecoder\<close>.
\<close>

theorem link_roundtrip:
  assumes "lr_success (link dec utf8 trace entry doIsolation objects)"
    and "\<forall>obj\<in>set (fst (parse_all dec objects)). length (obj_code obj) = length (obj_functions obj)"
    and "\<forall>ex\<in>set (exportEntries trace entry (fst (parse_all dec objects)) (computeOffsets (fst (parse_all dec objects)))).
      dec (utf8 (exp_name ex)) = exp_name ex"
  shows "map (\<lambda>(nm, bs). parseObject dec nm bs) objects = map Inr (fst (parse_all dec objects))
    \<and> errors (resolveSymbols (fst (parse_all dec objects))) = []
    \<and> parseObject dec nm (lr_binary (link dec utf8 trace entry doIsolation objects))
      = Inr (linked_object nm trace entry (fst (parse_all dec objects))
          (resolveSymbols (fst (parse_all dec objects))) (computeOffsets (fst (parse_all dec objects))))"
proof -
  let ?p = "fst (parse_all dec objects)"
  have wf: "\<forall>obj\<in>set ?p. object_wf obj"
    using assms(2) by (auto simp: object_wf_def parse_all_wf)
  have "parseObject dec nm (lr_binary (link dec utf8 trace entry doIsolation objects))
      = Inr (linked_object nm trace entry ?p (resolveSymbols ?p) (computeOffsets ?p))"
    by (rule emitLinked_roundtrip [OF link_success(3) [OF assms(1)] length_computeOffsets wf assms(3)])
  with link_success(2) [OF assms(1)] parse_all_ok [OF link_success(1) [OF assms(1)]] show ?thesis by simp
qed

definition ascii_decode :: "byte list \<Rightarrow> string" where
  "ascii_decode bs = map (\<lambda>b. char_of (unat b)) bs"

definition ascii_encode :: "string \<Rightarrow> byte list" where
  "ascii_encode s = map (\<lambda>c. of_nat (of_char c)) s"

definition sample_module :: "byte list" where
  "sample_module = [0x00, 0x61, 0x73, 0x6d, 0x01, 0x00, 0x00, 0x00,
     0x01, 0x04, 0x01, 0x60, 0x00, 0x00,
     0x03, 0x02, 0x01, 0x00,
     0x07, 0x05, 0x01, 0x01, 0x66, 0x00, 0x00,
     0x0a, 0x04, 0x01, 0x02, 0x00, 0x0b]"

definition sample_objects :: "(string \<times> byte list) list" where
  "sample_objects = [(''a'', sample_module), (''b'', sample_module)]"

lemma sample_link_success: "lr_success (link ascii_decode ascii_encode False None True sample_objects)"
  by code_simp

lemma sample_link_counts:
  "\<forall>obj\<in>set (fst (parse_all ascii_decode sample_objects)). length (obj_code obj) = length (obj_functions obj)"
  by code_simp

lemma sample_link_names:
  "\<forall>ex\<in>set (exportEntries False None (fst (parse_all ascii_decode sample_objects))
      (computeOffsets (fst (parse_all ascii_decode sample_objects)))).
    ascii_decode (ascii_encode (exp_name ex)) = exp_name ex"
  by code_simp

theorem link_roundtrip_witness:
  "lr_success (link ascii_decode ascii_encode False None True sample_objects)
   \<and> (\<exists>out. parseObject ascii_decode ''out'' (lr_binary (link ascii_decode ascii_encode False None True sample_objects)) = Inr out)"
  using link_roundtrip [OF sample_link_success sample_link_counts sample_link_names, of "''out''"] sample_link_success
  by blast

end
