(* ===== verification/ObjectEmit.thy ===== *)
theory ObjectEmit
  imports BinaryEmit LinkRoundtrip
begin

text \<open>
  The relocatable object writer \<open>src/src/emit/object.ts\<close>: the symbol table, the instruction encoder that
  records relocations, the sections and the metadata of \<open>emitObject\<close>. It calls the encoders of
  \<open>binary.ts\<close> outside an emit, that is in the context \<open>bare\<close>. Shown: the writer agrees with
  \<open>binary.ts\<close> on every instruction it has a case for and writes nothing for the others; every
  relocation points at an operand that holds the index of its symbol; a reader of such an object finds the
  symbols, but no name of an undefined one; and so linking such objects resolves nothing.
\<close>

definition bare :: emit_ctx where
  "bare = \<lparr>valCtx = None, layout = None\<rparr>"

section \<open>The symbol table\<close>

text \<open>The symbols so far, and for one index space the map to symbol indices and the next index.\<close>

type_synonym symbol_space = "symbol_info list \<times> (int \<rightharpoonup> nat) \<times> nat"

definition add_symbol :: "byte \<Rightarrow> string \<Rightarrow> nat \<Rightarrow> symbol_space \<Rightarrow> symbol_space" where
  "add_symbol kind nm flags = (\<lambda>(symbols, toSymIdx, idx).
     (symbols @ [\<lparr>sym_kind = kind, sym_name = nm, sym_index = idx, sym_flags = flags\<rparr>],
      toSymIdx(int idx \<mapsto> length symbols), Suc idx))"

definition add_imported :: "byte \<Rightarrow> extern_kind \<Rightarrow> wasm_import list \<Rightarrow> symbol_space \<Rightarrow> symbol_space" where
  "add_imported kind k imports =
     fold (\<lambda>imp. if desc_kind (im_desc imp) = k then add_symbol kind (im_name imp) SYMBOL_UNDEFINED else id) imports"

definition add_defined :: "byte \<Rightarrow> string \<Rightarrow> (nat \<Rightarrow> bool) \<Rightarrow> string list \<Rightarrow> symbol_space \<Rightarrow> symbol_space" where
  "add_defined kind prefix exported names = fold (\<lambda>nm (symbols, toSymIdx, idx).
     add_symbol kind (if nm = [] then prefix @ show_nat idx else nm)
       (if exported idx then SYMBOL_EXPORTED else SYMBOL_BINDING_LOCAL) (symbols, toSymIdx, idx)) names"

definition exported_indices :: "extern_kind \<Rightarrow> wasm_module \<Rightarrow> nat \<Rightarrow> bool" where
  "exported_indices k m idx \<longleftrightarrow> (\<exists>ex\<in>set (m_exports m). ex_kind ex = k \<and> ex_index ex = int idx)"

definition alias_handles :: "nat \<Rightarrow> nat option list \<Rightarrow> (int \<rightharpoonup> nat) \<Rightarrow> (int \<rightharpoonup> nat)" where
  "alias_handles numImportFuncs ordinals toSymIdx = fold (\<lambda>(ordinal, position) toSymIdx.
     case position of
       None \<Rightarrow> toSymIdx
     | Some p \<Rightarrow> (case toSymIdx (int (numImportFuncs + p)) of
         None \<Rightarrow> toSymIdx | Some symIdx \<Rightarrow> toSymIdx(STABLE_FUNC_BASE + int ordinal \<mapsto> symIdx)))
     (List.enumerate 0 ordinals) toSymIdx"

record symbol_maps =
  funcIdxToSymIdx :: "int \<rightharpoonup> nat"
  globalIdxToSymIdx :: "int \<rightharpoonup> nat"
  tagIdxToSymIdx :: "int \<rightharpoonup> nat"

definition symbol_table :: "wasm_module \<Rightarrow> symbol_info list \<times> symbol_maps" where
  "symbol_table m =
     (let (symbols, funcs, _) = add_defined SYMTAB_FUNCTION ''__func_'' (exported_indices FuncKind m) (map fn_name (m_functions m))
            (add_imported SYMTAB_FUNCTION FuncKind (m_imports m) ([], Map.empty, 0));
          funcs = alias_handles (count_imports FuncKind m) (m_funcOrdinalToPosition m) funcs;
          (symbols, globals, _) = add_defined SYMTAB_GLOBAL ''__global_'' (exported_indices GlobalKind m) (map gl_name (m_globals m))
            (add_imported SYMTAB_GLOBAL GlobalKind (m_imports m) (symbols, Map.empty, 0));
          (symbols, tags, _) = add_defined SYMTAB_EVENT ''__tag_'' (\<lambda>_. False) (map tg_name (m_tags m))
            (add_imported SYMTAB_EVENT TagKind (m_imports m) (symbols, Map.empty, 0))
      in (symbols, \<lparr>funcIdxToSymIdx = funcs, globalIdxToSymIdx = globals, tagIdxToSymIdx = tags\<rparr>))"

section \<open>Instructions with relocations\<close>

definition R_WASM_FUNCTION_INDEX_LEB :: byte where "R_WASM_FUNCTION_INDEX_LEB = 0"
definition R_WASM_TYPE_INDEX_LEB :: byte where "R_WASM_TYPE_INDEX_LEB = 6"
definition R_WASM_GLOBAL_INDEX_LEB :: byte where "R_WASM_GLOBAL_INDEX_LEB = 7"
definition R_WASM_TAG_INDEX_LEB :: byte where "R_WASM_TAG_INDEX_LEB = 10"

lemmas reloc_consts = R_WASM_FUNCTION_INDEX_LEB_def R_WASM_TYPE_INDEX_LEB_def R_WASM_GLOBAL_INDEX_LEB_def R_WASM_TAG_INDEX_LEB_def

record relocation =
  rl_type :: byte
  rl_offset :: nat
  rl_symbolIndex :: int

type_synonym reloc_state = "wasm_encoder \<times> relocation list"

text \<open>\<open>enc.position\<close> is the length written so far.\<close>

definition push_reloc :: "byte \<Rightarrow> int \<Rightarrow> reloc_state step" where
  "push_reloc ty symIdx st =
     Inr (fst st, snd st @ [\<lparr>rl_type = ty, rl_offset = len (fst st), rl_symbolIndex = symIdx\<rparr>])"

text \<open>A relocation when the index has a symbol, then the index.\<close>

definition symbol_operand :: "byte \<Rightarrow> (int \<rightharpoonup> nat) \<Rightarrow> int \<Rightarrow> reloc_state step" where
  "symbol_operand ty toSymIdx idx =
     rseq [case toSymIdx idx of None \<Rightarrow> Inr | Some symIdx \<Rightarrow> push_reloc ty (int symIdx), on_encoder (put_u32 idx)]"

definition type_operand :: "int \<Rightarrow> reloc_state step" where
  "type_operand typeIdx = rseq [push_reloc R_WASM_TYPE_INDEX_LEB typeIdx, on_encoder (put_u32 typeIdx)]"

definition heap_operand :: "int \<Rightarrow> reloc_state step" where
  "heap_operand typeIdx =
     rseq [if typeIdx \<ge> 0 then push_reloc R_WASM_TYPE_INDEX_LEB typeIdx else Inr, on_encoder (put_i32 typeIdx)]"

definition obj_opcode :: "byte list \<Rightarrow> reloc_state step" where
  "obj_opcode bs = on_encoder (put_opcode bs)"

text \<open>The cases of the switch that write constant bytes, and the opcodes of those with operands.\<close>

definition object_control_ops :: "(string \<times> byte list) list" where
  "object_control_ops = [
    (''unreachable'', [0x00]), (''nop'', [0x01]), (''return'', [0x0f]), (''drop'', [0x1a]), (''select'', [0x1b])]"

definition object_i32_ops :: "(string \<times> byte list) list" where
  "object_i32_ops = [
    (''i32.eqz'', [0x45]), (''i32.eq'', [0x46]), (''i32.ne'', [0x47]), (''i32.lt_s'', [0x48]),
    (''i32.le_s'', [0x4c]), (''i32.gt_s'', [0x4a]), (''i32.ge_s'', [0x4e]), (''i32.ge_u'', [0x4f]),
    (''i32.add'', [0x6a]), (''i32.sub'', [0x6b]), (''i32.mul'', [0x6c]), (''i32.and'', [0x71]),
    (''i32.or'', [0x72]), (''i32.xor'', [0x73]), (''i32.shl'', [0x74]), (''i32.shr_s'', [0x75]),
    (''i32.shr_u'', [0x76]), (''i32.clz'', [0x67]), (''i32.trunc_sat_f64_s'', [0xfc, 0x02]),
    (''i32.trunc_sat_f64_u'', [0xfc, 0x03]), (''i64.trunc_sat_f64_s'', [0xfc, 0x06])]"

definition object_f64_ops :: "(string \<times> byte list) list" where
  "object_f64_ops = [
    (''f64.eq'', [0x61]), (''f64.ne'', [0x62]), (''f64.lt'', [0x63]), (''f64.le'', [0x65]),
    (''f64.gt'', [0x64]), (''f64.ge'', [0x66]), (''f64.abs'', [0x99]), (''f64.neg'', [0x9a]),
    (''f64.ceil'', [0x9b]), (''f64.floor'', [0x9c]), (''f64.trunc'', [0x9d]), (''f64.nearest'', [0x9e]),
    (''f64.sqrt'', [0x9f]), (''f64.add'', [0xa0]), (''f64.sub'', [0xa1]), (''f64.mul'', [0xa2]),
    (''f64.div'', [0xa3]), (''f64.copysign'', [0xa6]), (''i32.wrap_i64'', [0xa7]),
    (''i32.trunc_f64_s'', [0xaa]), (''f64.convert_i32_s'', [0xb7]), (''f64.convert_i32_u'', [0xb8]),
    (''i64.reinterpret_f64'', [0xbd]), (''f64.reinterpret_i64'', [0xbf]), (''i32.reinterpret_f32'', [0xbc]),
    (''f32.reinterpret_i32'', [0xbe])]"

definition object_ref_ops :: "(string \<times> byte list) list" where
  "object_ref_ops = [
    (''ref.null.extern'', [0xd0, 0x6f]), (''ref.is_null'', [0xd1]), (''ref.as_non_null'', [0xd4]),
    (''ref.eq'', [0xd3]), (''any.convert_extern'', [0xfb, 0x1a]), (''extern.convert_any'', [0xfb, 0x1b])]"

definition object_memory_ops :: "(string \<times> byte list) list" where
  "object_memory_ops = [
    (''array.len'', [0xfb, 0x0f]), (''memory.size'', [0x3f, 0x00]), (''memory.grow'', [0x40, 0x00])]"

definition object_plain_ops :: "(string \<times> byte list) list" where
  "object_plain_ops = object_control_ops @ object_i32_ops @ object_f64_ops @ object_ref_ops @ object_memory_ops"

definition object_depth_ops :: "(string \<times> byte list) list" where
  "object_depth_ops = [(''br'', [0x0c]), (''br_if'', [0x0d]), (''rethrow'', [0x09])]"

definition object_call_ops :: "(string \<times> byte list) list" where
  "object_call_ops = [(''call'', [0x10])]"

definition object_local_ops :: "(string \<times> byte list) list" where
  "object_local_ops = [(''local.get'', [0x20]), (''local.set'', [0x21]), (''local.tee'', [0x22])]"

definition object_global_ops :: "(string \<times> byte list) list" where
  "object_global_ops = [(''global.get'', [0x23]), (''global.set'', [0x24])]"

definition object_cast_ops :: "(string \<times> byte list) list" where
  "object_cast_ops = [(''ref.cast'', [0xfb, 0x16]), (''ref.cast_null'', [0xfb, 0x17]), (''ref.test'', [0xfb, 0x14])]"

definition object_field_ops :: "(string \<times> byte list) list" where
  "object_field_ops = [(''struct.get'', [0xfb, 0x02]), (''struct.set'', [0xfb, 0x05])]"

definition object_typed_ops :: "(string \<times> byte list) list" where
  "object_typed_ops = [(''struct.new'', [0xfb, 0x00]), (''array.new'', [0xfb, 0x06]), (''array.new_default'', [0xfb, 0x07]),
     (''array.get'', [0xfb, 0x0b]), (''array.get_s'', [0xfb, 0x0c]), (''array.set'', [0xfb, 0x0e]), (''call_ref'', [0x14])]"

definition object_catch :: "symbol_maps \<Rightarrow> try_catch \<Rightarrow> reloc_state step" where
  "object_catch maps clause = rseq [obj_opcode [catch_byte (tc_kind clause)],
     if tc_kind clause \<in> {Catch, CatchRef} then
       (case tc_tagIdx clause of
          None \<Rightarrow> fails (MissingTagIndex (tc_kind clause))
        | Some tagIdx \<Rightarrow> rseq [symbol_operand R_WASM_TAG_INDEX_LEB (tagIdxToSymIdx maps) tagIdx, on_encoder (put_u32 (tc_depth clause))])
     else on_encoder (put_u32 (tc_depth clause))]"

text \<open>The switch has no default: an instruction without a case writes nothing.\<close>

fun encodeInstrWithReloc :: "symbol_maps \<Rightarrow> wasm_instr \<Rightarrow> reloc_state step" where
  "encodeInstrWithReloc maps (Op nm) = with_opcode object_plain_ops nm Inr obj_opcode"
| "encodeInstrWithReloc maps (Block bt body) =
     rseq [obj_opcode [0x02], on_encoder (encodeBlockType bare bt), each (encodeInstrWithReloc maps) body, obj_opcode [0x0b]]"
| "encodeInstrWithReloc maps (Loop bt body) =
     rseq [obj_opcode [0x03], on_encoder (encodeBlockType bare bt), each (encodeInstrWithReloc maps) body, obj_opcode [0x0b]]"
| "encodeInstrWithReloc maps (If bt thn els) =
     (let hasElse = (case els of None \<Rightarrow> False | Some es \<Rightarrow> es \<noteq> []);
          needsElse = (hasElse \<or> (case bt of ValBlock _ \<Rightarrow> True | _ \<Rightarrow> False)) in
      rseq [obj_opcode [0x04], on_encoder (encodeBlockType bare bt), each (encodeInstrWithReloc maps) thn,
        if needsElse then
            rseq [obj_opcode [0x05], (case els of
              None \<Rightarrow> obj_opcode [0x00]
            | Some es \<Rightarrow> if hasElse then each (encodeInstrWithReloc maps) es else obj_opcode [0x00])]
          else Inr,
        obj_opcode [0x0b]])"
| "encodeInstrWithReloc maps (Depth nm depth) =
     with_opcode object_depth_ops nm Inr (\<lambda>bs. rseq [obj_opcode bs, on_encoder (put_u32 depth)])"
| "encodeInstrWithReloc maps (CallOp nm funcIdx) =
     with_opcode object_call_ops nm Inr (\<lambda>bs.
       rseq [obj_opcode bs, symbol_operand R_WASM_FUNCTION_INDEX_LEB (funcIdxToSymIdx maps) funcIdx])"
| "encodeInstrWithReloc maps (CallIndirectOp typeIdx tableIdx) =
     rseq [obj_opcode [0x11], type_operand typeIdx, on_encoder (put_u32 tableIdx)]"
| "encodeInstrWithReloc maps (LocalOp nm index) =
     with_opcode object_local_ops nm Inr (\<lambda>bs. rseq [obj_opcode bs, on_encoder (put_u32 index)])"
| "encodeInstrWithReloc maps (GlobalOp nm index) =
     with_opcode object_global_ops nm Inr (\<lambda>bs.
       rseq [obj_opcode bs, symbol_operand R_WASM_GLOBAL_INDEX_LEB (globalIdxToSymIdx maps) index])"
| "encodeInstrWithReloc maps (ConstI32 v) = rseq [obj_opcode [0x41], on_encoder (put_i32 v)]"
| "encodeInstrWithReloc maps (ConstI64 v) = rseq [obj_opcode [0x42], on_encoder (\<lambda>e. Inr (enc_i64 v e))]"
| "encodeInstrWithReloc maps (ConstF64 v) = rseq [obj_opcode [0x44], on_encoder (\<lambda>e. Inr (enc_f64 v e))]"
| "encodeInstrWithReloc maps (ConstF32 v) = rseq [obj_opcode [0x43], on_encoder (\<lambda>e. Inr (enc_f32 v e))]"
| "encodeInstrWithReloc maps (HeapType nm typeIdx) =
     (if nm = ''ref.null'' then rseq [obj_opcode [0xd0], on_encoder (put_i32 typeIdx)]
      else with_opcode object_cast_ops nm Inr (\<lambda>bs. rseq [obj_opcode bs, heap_operand typeIdx]))"
| "encodeInstrWithReloc maps (Typed nm typeIdx) =
     with_opcode object_typed_ops nm Inr (\<lambda>bs. rseq [obj_opcode bs, type_operand typeIdx])"
| "encodeInstrWithReloc maps (StructField nm typeIdx fieldIdx) =
     with_opcode object_field_ops nm Inr (\<lambda>bs. rseq [obj_opcode bs, type_operand typeIdx, on_encoder (put_u32 fieldIdx)])"
| "encodeInstrWithReloc maps (ArrayNewFixed typeIdx n) =
     rseq [obj_opcode [0xfb, 0x08], type_operand typeIdx, on_encoder (put_u32 n)]"
| "encodeInstrWithReloc maps (FuncRefOf funcIdx) =
     rseq [obj_opcode [0xd2], symbol_operand R_WASM_FUNCTION_INDEX_LEB (funcIdxToSymIdx maps) funcIdx]"
| "encodeInstrWithReloc maps (Throw tagIdx) =
     rseq [obj_opcode [0x08], symbol_operand R_WASM_TAG_INDEX_LEB (tagIdxToSymIdx maps) tagIdx]"
| "encodeInstrWithReloc maps (TryTable bt body clauses) =
     rseq [obj_opcode [0x1f], on_encoder (encodeBlockType bare bt), on_encoder (put_u32 (int (length clauses))),
       each (object_catch maps) clauses, each (encodeInstrWithReloc maps) body, obj_opcode [0x0b]]"
| "encodeInstrWithReloc maps (Try bt body clauses catchAll) =
     rseq [obj_opcode [0x06], on_encoder (encodeBlockType bare bt), each (encodeInstrWithReloc maps) body,
       each (\<lambda>c. rseq [obj_opcode [0x07], on_encoder (put_u32 (fst c)), each (encodeInstrWithReloc maps) (snd c)]) clauses,
       (case catchAll of None \<Rightarrow> Inr | Some is \<Rightarrow> rseq [obj_opcode [0x19], each (encodeInstrWithReloc maps) is]),
       obj_opcode [0x0b]]"
| "encodeInstrWithReloc maps (BrTable targets defaultDepth) = Inr"
| "encodeInstrWithReloc maps (ConstV128 bs) = Inr"
| "encodeInstrWithReloc maps (ArrayCopy dstTypeIdx srcTypeIdx) = Inr"
| "encodeInstrWithReloc maps (DataSegment nm dataIdx) = Inr"
| "encodeInstrWithReloc maps (MemArg nm align offset) = Inr"
| "encodeInstrWithReloc maps (Lane nm lane) = Inr"
| "encodeInstrWithReloc maps (Shuffle lanes) = Inr"

section \<open>Functions\<close>

text \<open>
  A body is encoded on its own; its relocations are then moved behind what the section holds so far and
  the length prefix.
\<close>

definition object_body :: "symbol_maps \<Rightarrow> wasm_function \<Rightarrow> reloc_state step" where
  "object_body maps f =
     rseq [on_encoder (encode_locals bare (fn_locals f)), each (encodeInstrWithReloc maps) (map fst (fn_body f)), obj_opcode [0x0b]]"

definition encodeFunctionWithReloc :: "symbol_maps \<Rightarrow> wasm_function \<Rightarrow> reloc_state step" where
  "encodeFunctionWithReloc maps f st =
     rbind (object_body maps f (new_encoder, [])) (\<lambda>(body, bodyRelocs).
       let bodyBytes = finish body in
       rbind (put_u32 (int (length bodyBytes)) new_encoder) (\<lambda>sizePrefix.
         let sizePrefixLen = length (finish sizePrefix);
             funcBaseOffset = len (fst st);
             moved = map (\<lambda>r. r\<lparr>rl_offset := funcBaseOffset + sizePrefixLen + rl_offset r\<rparr>) bodyRelocs
         in rseq [on_encoder (put_u32 (int (length bodyBytes))), on_encoder (put_bytes bodyBytes)] (fst st, snd st @ moved)))"

definition object_code :: "symbol_maps \<Rightarrow> wasm_function list \<Rightarrow> reloc_state step" where
  "object_code maps fs = rseq [on_encoder (put_u32 (int (length fs))), each (encodeFunctionWithReloc maps) fs]"

section \<open>Agreement with the binary emitter\<close>

text \<open>A step of the object writer and a step of the binary emitter write the same, or throw the same.\<close>

definition same_output :: "reloc_state step \<Rightarrow> wasm_emitter \<Rightarrow> bool" where
  "same_output v w \<longleftrightarrow> (\<forall>e relocs. map_sum id fst (v (e, relocs)) = w e)"

lemma map_sum_rbind: "map_sum id fst (rbind m f) = rbind (map_sum id fst m) g"
  if "\<And>x. map_sum id fst (f x) = g (fst x)" for m :: "'e + 'a \<times> 'b" and f :: "'a \<times> 'b \<Rightarrow> 'e + 'c \<times> 'd"
  using that by (cases m) simp_all

interpretation same: step_simulation same_output
proof unfold_locales
  show "same_output Inr Inr" by (simp add: same_output_def)
  show "same_output (\<lambda>s. rbind (v s) w) (\<lambda>s. rbind (v' s) w')" if "same_output v v'" "same_output w w'" for v v' w w'
    unfolding same_output_def
  proof (intro allI)
    fix e relocs
    have "map_sum id fst (rbind (v (e, relocs)) w) = rbind (map_sum id fst (v (e, relocs))) w'"
      by (rule map_sum_rbind) (use that(2) in \<open>auto simp: same_output_def\<close>)
    then show "map_sum id fst (rbind (v (e, relocs)) w) = rbind (v' e) w'" using that(1) by (simp add: same_output_def)
  qed
qed

named_theorems same_intros "steps with the same output"

lemma same_on_encoder [same_intros]: "same_output (on_encoder w) w"
  by (auto simp: same_output_def on_encoder_def rbind_def split: sum.split)

lemma same_opcode [same_intros]: "same_output (obj_opcode bs) (put_opcode bs)"
  unfolding obj_opcode_def by (rule same_on_encoder)

lemma same_fails [same_intros]: "same_output (fails err) (fails err)"
  by (simp add: same_output_def fails_def)

lemma same_operands [same_intros]:
  "same_output (symbol_operand ty toSymIdx idx) (put_u32 idx)"
  "same_output (type_operand idx) (put_u32 idx)"
  "same_output (heap_operand idx) (put_i32 idx)"
  using same_on_encoder
  by (auto simp: same_output_def symbol_operand_def type_operand_def heap_operand_def push_reloc_def rseq_Nil_fun split: option.split)

lemma bare_simps [simp]: "checked bare f = Inr" "fIdx bare h = Inr h" "gIdx bare h = h"
  by (simp_all add: bare_def checked_def fIdx_def gIdx_def)

lemma rseq_Inr: "rseq (Inr # ws) = rseq ws"
  by (rule ext) simp

lemma with_value_Inr: "with_value (Inr x) f = f x"
  by (rule ext) (simp add: with_value_def)

text \<open>The tables of the object writer are parts of those of the binary emitter.\<close>

definition part_of :: "(string \<times> byte list) list \<Rightarrow> (string \<times> byte list) list \<Rightarrow> bool" where
  "part_of small large \<longleftrightarrow> list_all (\<lambda>(nm, bs). map_of large nm = Some bs) small"

lemma part_ofD: "part_of small large \<Longrightarrow> map_of small nm = Some bs \<Longrightarrow> map_of large nm = Some bs"
  by (auto simp: part_of_def list_all_iff dest!: map_of_SomeD)

lemma tables_agree:
  "part_of object_plain_ops plain_ops" "part_of object_depth_ops depth_ops" "part_of object_call_ops call_ops"
  "part_of object_local_ops local_ops" "part_of object_global_ops global_ops" "part_of object_cast_ops heap_ops"
  "part_of object_field_ops field_ops" "part_of object_typed_ops typed_ops" "map_of heap_ops ''ref.null'' = Some [0xd0]"
  by code_simp+

lemma same_table:
  assumes "part_of small large" and "map_of small nm \<noteq> None" and "\<And>bs. same_output (found bs) (found' bs)"
  shows "same_output (with_opcode small nm missing found) (with_opcode large nm missing' found')"
  using assms by (auto simp: with_opcode_def dest: part_ofD)

text \<open>The instructions that the object writer has a case for, with all that is nested in them.\<close>

fun object_case :: "wasm_instr \<Rightarrow> bool" where
  "object_case (Op nm) = (map_of object_plain_ops nm \<noteq> None)"
| "object_case (Block bt body) = list_all object_case body"
| "object_case (Loop bt body) = list_all object_case body"
| "object_case (If bt thn els) = (list_all object_case thn \<and> (case els of None \<Rightarrow> True | Some es \<Rightarrow> list_all object_case es))"
| "object_case (Depth nm depth) = (map_of object_depth_ops nm \<noteq> None)"
| "object_case (CallOp nm funcIdx) = (map_of object_call_ops nm \<noteq> None)"
| "object_case (LocalOp nm index) = (map_of object_local_ops nm \<noteq> None)"
| "object_case (GlobalOp nm index) = (map_of object_global_ops nm \<noteq> None)"
| "object_case (HeapType nm typeIdx) = (nm = ''ref.null'' \<or> map_of object_cast_ops nm \<noteq> None)"
| "object_case (Typed nm typeIdx) = (map_of object_typed_ops nm \<noteq> None)"
| "object_case (StructField nm typeIdx fieldIdx) = (map_of object_field_ops nm \<noteq> None)"
| "object_case (TryTable bt body clauses) = list_all object_case body"
| "object_case (Try bt body clauses catchAll) = (list_all object_case body
     \<and> list_all (\<lambda>c. list_all object_case (snd c)) clauses \<and> (case catchAll of None \<Rightarrow> True | Some is \<Rightarrow> list_all object_case is))"
| "object_case (BrTable targets defaultDepth) = False"
| "object_case (ConstV128 bs) = False"
| "object_case (ArrayCopy dstTypeIdx srcTypeIdx) = False"
| "object_case (DataSegment nm dataIdx) = False"
| "object_case (MemArg nm align offset) = False"
| "object_case (Lane nm lane) = False"
| "object_case (Shuffle lanes) = False"
| "object_case i = True"

lemma same_catch [same_intros]: "same_output (object_catch maps clause) (encode_catch bare clause)"
proof -
  have "same_output (rseq [v, w]) (rseq [v', w'])" if "same_output v v'" "same_output w w'" for v v' w w'
    by (rule same.sequence) (simp add: that)
  note two = this
  show ?thesis
    unfolding object_catch_def encode_catch_def bare_simps rseq_Inr
    by (rule two [OF same_opcode]) (cases "tc_tagIdx clause"; auto intro!: two same_intros simp del: rseq_simps)
qed

lemma object_instr_same: "object_case i \<Longrightarrow> same_output (encodeInstrWithReloc maps i) (encodeInstr bare i)"
proof (induction maps i rule: encodeInstrWithReloc.induct)
  case (4 maps bt thn els)
  have thn: "same_output (each (encodeInstrWithReloc maps) thn) (each (encodeInstr bare) thn)"
    by (rule same.loop) (use "4.IH"(1) "4.prems" in \<open>auto simp: list_all_iff\<close>)
  have els: "same_output (each (encodeInstrWithReloc maps) es) (each (encodeInstr bare) es)" if "els = Some es" "es \<noteq> []" for es
    by (rule same.loop) (use "4.IH"(2) "4.prems" that in \<open>auto simp: list_all_iff\<close>)
  show ?case unfolding encodeInstrWithReloc.simps encodeInstr.simps Let_def
    by (rule same.sequence)
      (auto intro!: same_intros same.sequence thn els same.skip simp del: rseq_simps split: option.split)
next
  case (14 maps nm typeIdx)
  have "with_opcode heap_ops ''ref.null'' missing found = found [0xd0]" for missing and found :: "byte list \<Rightarrow> wasm_emitter"
    by (simp add: with_opcode_def tables_agree(9))
  then show ?case using 14
    by (cases "nm = ''ref.null''")
      (auto intro!: same_intros same.sequence same_table tables_agree(6) simp: rseq_Inr simp del: rseq_simps)
next
  case (20 maps bt body clauses)
  have "same_output (each (encodeInstrWithReloc maps) body) (each (encodeInstr bare) body)"
    by (rule same.loop) (use 20 in \<open>auto simp: list_all_iff\<close>)
  moreover have "same_output (each (object_catch maps) clauses) (each (encode_catch bare) clauses)"
    by (rule same.loop) (rule same_catch)
  ultimately show ?case by (auto intro!: same_intros same.sequence simp del: rseq_simps)
next
  case (21 maps bt body clauses catchAll)
  have body: "same_output (each (encodeInstrWithReloc maps) body) (each (encodeInstr bare) body)"
    by (rule same.loop) (use 21 in \<open>auto simp: list_all_iff\<close>)
  have clause: "same_output (each (encodeInstrWithReloc maps) (snd c)) (each (encodeInstr bare) (snd c))" if "c \<in> set clauses" for c
    by (rule same.loop) (use "21.IH"(2) "21.prems" that in \<open>auto simp: list_all_iff\<close>)
  have clauses: "same_output
      (each (\<lambda>c. rseq [obj_opcode [0x07], on_encoder (put_u32 (fst c)), each (encodeInstrWithReloc maps) (snd c)]) clauses)
      (each (\<lambda>c. rseq [put_opcode [0x07], put_u32 (fst c), each (encodeInstr bare) (snd c)]) clauses)"
    by (rule same.loop, rule same.sequence) (simp add: same_intros clause)
  have all: "same_output (each (encodeInstrWithReloc maps) is) (each (encodeInstr bare) is)" if "catchAll = Some is" for "is"
    by (rule same.loop) (use "21.IH"(3) "21.prems" that in \<open>auto simp: list_all_iff\<close>)
  show ?case
    unfolding encodeInstrWithReloc.simps encodeInstr.simps bare_simps rseq_Inr
    by (rule same.sequence)
      (auto intro!: same_intros same.sequence body clauses all same.skip simp del: rseq_simps split: option.split)
qed (auto intro!: same_intros same.sequence same.loop same_table tables_agree
    simp: rseq_Inr with_value_Inr list_all_iff simp del: rseq_simps)

text \<open>An instruction without a case, and so every instruction that \<open>object_case\<close> leaves out by itself.\<close>

fun own_case :: "wasm_instr \<Rightarrow> bool" where
  "own_case (Op nm) = (map_of object_plain_ops nm \<noteq> None)"
| "own_case (Depth nm depth) = (map_of object_depth_ops nm \<noteq> None)"
| "own_case (CallOp nm funcIdx) = (map_of object_call_ops nm \<noteq> None)"
| "own_case (LocalOp nm index) = (map_of object_local_ops nm \<noteq> None)"
| "own_case (GlobalOp nm index) = (map_of object_global_ops nm \<noteq> None)"
| "own_case (HeapType nm typeIdx) = (nm = ''ref.null'' \<or> map_of object_cast_ops nm \<noteq> None)"
| "own_case (Typed nm typeIdx) = (map_of object_typed_ops nm \<noteq> None)"
| "own_case (StructField nm typeIdx fieldIdx) = (map_of object_field_ops nm \<noteq> None)"
| "own_case (BrTable targets defaultDepth) = False"
| "own_case (ConstV128 bs) = False"
| "own_case (ArrayCopy dstTypeIdx srcTypeIdx) = False"
| "own_case (DataSegment nm dataIdx) = False"
| "own_case (MemArg nm align offset) = False"
| "own_case (Lane nm lane) = False"
| "own_case (Shuffle lanes) = False"
| "own_case i = True"

lemma no_case_writes_nothing: "\<not> own_case i \<Longrightarrow> encodeInstrWithReloc maps i = Inr"
  by (cases i) (simp_all add: with_opcode_def)

text \<open>The names of the instructions without operands that the binary emitter has a case for and this one has not.\<close>

definition dropped_ops :: "string list" where
  "dropped_ops = filter (\<lambda>nm. map_of object_plain_ops nm = None) (map fst plain_ops @ map fst simd_ops)"

text \<open>
  C17. The object writer writes for an instruction what the instruction encoder of the binary emitter writes
  outside an emit, and throws what it throws, when it has a case for the instruction and all that is nested in
  it; an instruction that it has no case for leaves nothing in the code, where the binary emitter encodes it or
  throws. Outside an emit (\<open>bare\<close>) means without index validation and without a handle layout: within an
  emit the binary emitter also validates indices and resolves stable handles, which the object writer writes
  as they are.
\<close>

theorem object_instr_agrees:
  "if object_case i then map_sum id fst (encodeInstrWithReloc maps i (e, relocs)) = encodeInstr bare i e
   else \<not> own_case i \<longrightarrow> encodeInstrWithReloc maps i (e, relocs) = Inr (e, relocs)"
  using object_instr_same [of i maps] no_case_writes_nothing [of i maps] by (simp add: same_output_def)

definition no_symbols :: symbol_maps where
  "no_symbols = \<lparr>funcIdxToSymIdx = Map.empty, globalIdxToSymIdx = Map.empty, tagIdxToSymIdx = Map.empty\<rparr>"

theorem object_instr_agrees_witness:
  "encodeInstrWithReloc no_symbols (Op ''i64.add'') (new_encoder, []) = Inr (new_encoder, [])
    \<and> bytes_of (encodeInstr bare (Op ''i64.add'')) = Inr [0x7c]
    \<and> map_sum id fst (encodeInstrWithReloc no_symbols (CallOp ''call'' 3) (new_encoder, []))
      = encodeInstr bare (CallOp ''call'' 3) new_encoder"
proof -
  have "\<not> object_case (Op ''i64.add'')" "\<not> own_case (Op ''i64.add'')" "object_case (CallOp ''call'' 3)" by code_simp+
  moreover have "bytes_of (encodeInstr bare (Op ''i64.add'')) = Inr [0x7c]" by code_simp
  ultimately show ?thesis
    using object_instr_agrees [of "Op ''i64.add''" no_symbols new_encoder "[]"]
      object_instr_agrees [of "CallOp ''call'' 3" no_symbols new_encoder "[]"] by simp
qed

section \<open>Relocations point at their operands\<close>

text \<open>
  An operand \<open>bs\<close> is the one a relocation is about: a \<open>u32\<close> that the symbol maps take to the symbol, or,
  for a type, the type index itself, as a \<open>u32\<close> or a signed heap type.
\<close>

definition symbol_of :: "symbol_maps \<Rightarrow> byte \<Rightarrow> int \<Rightarrow> nat option" where
  "symbol_of maps ty =
     (if ty = R_WASM_FUNCTION_INDEX_LEB then funcIdxToSymIdx maps
      else if ty = R_WASM_GLOBAL_INDEX_LEB then globalIdxToSymIdx maps
      else if ty = R_WASM_TAG_INDEX_LEB then tagIdxToSymIdx maps else Map.empty)"

definition operand_of :: "symbol_maps \<Rightarrow> relocation \<Rightarrow> byte list \<Rightarrow> bool" where
  "operand_of maps r bs \<longleftrightarrow>
     (if rl_type r = R_WASM_TYPE_INDEX_LEB
      then reads rd_u32 bs (nat (rl_symbolIndex r)) \<or> reads rd_i32 bs (signed_take_bit 31 (rl_symbolIndex r))
      else \<exists>idx symIdx. reads rd_u32 bs idx \<and> symbol_of maps (rl_type r) (int idx) = Some symIdx \<and> rl_symbolIndex r = int symIdx)"

definition reloc_ok :: "symbol_maps \<Rightarrow> byte list \<Rightarrow> relocation \<Rightarrow> bool" where
  "reloc_ok maps code r \<longleftrightarrow> (\<exists>bs. starts_at code (rl_offset r) bs \<and> operand_of maps r bs)"

lemma reloc_ok_grow: "reloc_ok maps code r \<Longrightarrow> reloc_ok maps (code @ ys) r"
  using starts_at_append [of code "rl_offset r" _ "[]" ys] by (auto simp: reloc_ok_def)

lemma reloc_ok_move:
  assumes "reloc_ok maps code r"
  shows "reloc_ok maps (xs @ code) (r\<lparr>rl_offset := length xs + rl_offset r\<rparr>)"
proof -
  obtain bs where bs: "starts_at code (rl_offset r) bs" "operand_of maps r bs"
    using assms by (auto simp: reloc_ok_def)
  have "operand_of maps (r\<lparr>rl_offset := length xs + rl_offset r\<rparr>) bs" using bs(2) unfolding operand_of_def by (simp split: if_splits)
  moreover have "starts_at (xs @ code) (length xs + rl_offset r) bs"
    using starts_at_append [OF bs(1), of xs "[]"] by simp
  ultimately show ?thesis unfolding reloc_ok_def by (intro exI [of _ bs]) simp
qed

text \<open>A step that appends bytes, and relocations that point into them.\<close>

definition relocates :: "symbol_maps \<Rightarrow> reloc_state step \<Rightarrow> bool" where
  "relocates maps v \<longleftrightarrow> (\<forall>e rs e' rs'. encoder_inv e \<longrightarrow> v (e, rs) = Inr (e', rs') \<longrightarrow>
     (\<exists>bs new. encoder_inv e' \<and> finish e' = finish e @ bs \<and> rs' = rs @ new \<and> list_all (reloc_ok maps (finish e')) new))"

lemma relocatesI:
  "(\<And>e rs e' rs'. encoder_inv e \<Longrightarrow> v (e, rs) = Inr (e', rs') \<Longrightarrow>
     \<exists>bs new. encoder_inv e' \<and> finish e' = finish e @ bs \<and> rs' = rs @ new \<and> list_all (reloc_ok maps (finish e')) new)
   \<Longrightarrow> relocates maps v"
  by (auto simp: relocates_def)

lemma relocatesE:
  assumes "relocates maps v" and "encoder_inv e" and "v (e, rs) = Inr (e', rs')"
  obtains bs new where "encoder_inv e'" and "finish e' = finish e @ bs" and "rs' = rs @ new"
    and "list_all (reloc_ok maps (finish e')) new"
  using assms unfolding relocates_def by metis

interpretation rel: step_logic "relocates maps" for maps
proof unfold_locales
  show "relocates maps Inr" by (auto simp: relocates_def)
  show "relocates maps (\<lambda>s. rbind (v s) w)" if v: "relocates maps v" and w: "relocates maps w" for v w
  proof (rule relocatesI)
    fix e rs e' rs'
    assume e: "encoder_inv e" and "rbind (v (e, rs)) w = Inr (e', rs')"
    then obtain e1 rs1 where 1: "v (e, rs) = Inr (e1, rs1)" and 2: "w (e1, rs1) = Inr (e', rs')" by auto
    from v e 1 obtain bs new where b: "encoder_inv e1" "finish e1 = finish e @ bs" "rs1 = rs @ new"
      "list_all (reloc_ok maps (finish e1)) new" by (rule relocatesE)
    from w b(1) 2 obtain cs more where c: "encoder_inv e'" "finish e' = finish e1 @ cs" "rs' = rs1 @ more"
      "list_all (reloc_ok maps (finish e')) more" by (rule relocatesE)
    have "list_all (reloc_ok maps (finish e')) (new @ more)"
      using b(4) c(2,4) by (auto simp: list_all_iff intro: reloc_ok_grow)
    then show "\<exists>bs new. encoder_inv e' \<and> finish e' = finish e @ bs \<and> rs' = rs @ new \<and> list_all (reloc_ok maps (finish e')) new"
      using b c by (intro exI [of _ "bs @ cs"] exI [of _ "new @ more"]) simp
  qed
qed

named_theorems reloc_intros "steps whose relocations point at their operands"

lemma relocates_on_encoder [reloc_intros]: "appending w \<Longrightarrow> relocates maps (on_encoder w)"
  by (rule relocatesI) (auto simp: on_encoder_Inr elim!: appendingE)

lemma relocates_opcode [reloc_intros]: "relocates maps (obj_opcode bs)"
  unfolding obj_opcode_def by (rule relocates_on_encoder) (rule append_intros)

lemma relocates_fails [reloc_intros]: "relocates maps (fails err)"
  by (simp add: relocates_def fails_def)

text \<open>The relocation is pushed at the position where the operand is then written.\<close>

lemma relocates_operand:
  assumes "appending w" and "\<And>bs. bytes_of w = Inr bs \<Longrightarrow> operand_of maps \<lparr>rl_type = ty, rl_offset = off, rl_symbolIndex = s\<rparr> bs"
  shows "relocates maps (rseq [push_reloc ty s, on_encoder w])"
proof (rule relocatesI)
  fix e rs e' rs'
  assume e: "encoder_inv e" and "rseq [push_reloc ty s, on_encoder w] (e, rs) = Inr (e', rs')"
  then have w: "w e = Inr e'" and rs': "rs' = rs @ [\<lparr>rl_type = ty, rl_offset = len e, rl_symbolIndex = s\<rparr>]"
    by (auto simp: push_reloc_def on_encoder_Inr)
  obtain bs where bs: "bytes_of w = Inr bs" "encoder_inv e'" "finish e' = finish e @ bs"
    using assms(1) e w by (rule appendingE)
  have "starts_at (finish e') (len e) bs"
    unfolding starts_at_iff using bs(3) len_finish [OF e] by (intro exI [of _ "finish e"] exI [of _ "[]"]) simp
  then have "reloc_ok maps (finish e') \<lparr>rl_type = ty, rl_offset = len e, rl_symbolIndex = s\<rparr>"
    using assms(2) [OF bs(1)] by (auto simp: reloc_ok_def operand_of_def)
  with bs rs' show "\<exists>bs new. encoder_inv e' \<and> finish e' = finish e @ bs \<and> rs' = rs @ new \<and> list_all (reloc_ok maps (finish e')) new"
    by auto
qed

lemma bytes_of_u32: "bytes_of (put_u32 n) = Inr bs \<Longrightarrow> 0 \<le> n \<and> reads rd_u32 bs (nat n)"
proof -
  assume b: "bytes_of (put_u32 n) = Inr bs"
  then have n: "0 \<le> n" "n < 2 ^ 32" and bs: "bs = uleb (word_of_int n)"
    using produces_bytes_of [OF produces_u32 [of n]] by (auto split: if_splits)
  have "unat (word_of_int n :: u32) = nat n" using n by (simp add: unat_eq_nat_uint uint_word_of_int)
  with n bs show ?thesis using reads_rd_u32 [of "word_of_int n"] by simp
qed

lemma bytes_of_i32: "bytes_of (put_i32 n) = Inr bs \<Longrightarrow> reads rd_i32 bs (signed_take_bit 31 n)"
proof -
  assume "bytes_of (put_i32 n) = Inr bs"
  then have "bs = sleb (signed_take_bit 31 n)"
    using sleb_loop_appends [OF new_encoder_inv, of "signed_take_bit 31 n"]
    by (simp add: bytes_of_def put_i32_def enc_i32_def finish_new_encoder)
  moreover have "- (2 ^ 31) \<le> signed_take_bit 31 n" "signed_take_bit 31 n < 2 ^ 31"
    by (rule signed_take_bit_int_greater_eq_minus_exp, rule signed_take_bit_int_less_exp)
  ultimately show ?thesis by (simp add: reads_rd_i32)
qed

lemma rseq_Inr_single: "rseq [Inr, w] = rseq [w]"
  by (rule rseq_Inr)

lemma relocates_symbol_operand:
  assumes "symbol_of maps ty = toSymIdx" and "ty \<noteq> R_WASM_TYPE_INDEX_LEB"
  shows "relocates maps (symbol_operand ty toSymIdx idx)"
proof (cases "toSymIdx idx")
  case None
  then show ?thesis unfolding symbol_operand_def
    by (auto intro!: rel.sequence reloc_intros append_intros simp: rel.skip simp del: rseq_simps)
next
  case (Some symIdx)
  have "operand_of maps \<lparr>rl_type = ty, rl_offset = 0, rl_symbolIndex = int symIdx\<rparr> bs" if "bytes_of (put_u32 idx) = Inr bs" for bs
    using bytes_of_u32 [OF that] assms Some unfolding operand_of_def by (auto intro!: exI [of _ "nat idx"])
  then show ?thesis unfolding symbol_operand_def Some option.case
    by (intro relocates_operand [where off = 0] append_intros)
qed

lemma relocates_operands [reloc_intros]:
  "relocates maps (symbol_operand R_WASM_FUNCTION_INDEX_LEB (funcIdxToSymIdx maps) idx)"
  "relocates maps (symbol_operand R_WASM_GLOBAL_INDEX_LEB (globalIdxToSymIdx maps) idx)"
  "relocates maps (symbol_operand R_WASM_TAG_INDEX_LEB (tagIdxToSymIdx maps) idx)"
  by (rule relocates_symbol_operand; simp add: symbol_of_def reloc_consts)+

lemma relocates_type_operand [reloc_intros]: "relocates maps (type_operand idx)"
  unfolding type_operand_def
  by (rule relocates_operand [where off = 0]) (auto intro!: append_intros dest!: bytes_of_u32 simp: operand_of_def)

lemma relocates_heap_operand [reloc_intros]: "relocates maps (heap_operand idx)"
proof (cases "idx \<ge> 0")
  case True
  then show ?thesis unfolding heap_operand_def if_P [OF True]
    by (intro relocates_operand [where off = 0]) (auto intro!: append_intros dest!: bytes_of_i32 simp: operand_of_def)
next
  case False
  then show ?thesis unfolding heap_operand_def if_not_P [OF False]
    by (auto intro!: rel.sequence reloc_intros append_intros simp: rel.skip simp del: rseq_simps)
qed

lemma relocates_catch [reloc_intros]: "relocates maps (object_catch maps clause)"
  unfolding object_catch_def
  by (rule rel.sequence) (auto intro!: rel.sequence reloc_intros append_intros split: option.split simp del: rseq_simps)

lemma relocates_instr [reloc_intros]: "relocates maps (encodeInstrWithReloc maps i)"
proof (induction maps i rule: encodeInstrWithReloc.induct)
  case (4 maps bt thn els)
  have "relocates maps (each (encodeInstrWithReloc maps) es)" if "els = Some es" "es \<noteq> []" for es
    by (rule rel.loop) (use "4.IH"(2) that in auto)
  moreover have "relocates maps (each (encodeInstrWithReloc maps) thn)" by (rule rel.loop) (use "4.IH"(1) in auto)
  ultimately show ?case
    by (auto intro!: rel.sequence reloc_intros append_intros rel.skip simp: Let_def split: option.split simp del: rseq_simps)
qed (auto intro!: rel.sequence reloc_intros append_intros rel.loop rel.from_table rel.skip split: option.split simp del: rseq_simps)

lemma relocates_body: "relocates maps (object_body maps f)"
  unfolding object_body_def by (rule rel.sequence) (auto intro!: reloc_intros append_intros rel.loop)

lemma relocates_function [reloc_intros]: "relocates maps (encodeFunctionWithReloc maps f)"
proof (rule relocatesI)
  fix e rs e' rs'
  assume e: "encoder_inv e" and w: "encodeFunctionWithReloc maps f (e, rs) = Inr (e', rs')"
  obtain body bodyRelocs p where b: "object_body maps f (new_encoder, []) = Inr (body, bodyRelocs)"
    and p: "put_u32 (int (length (finish body))) new_encoder = Inr p"
    and go: "rseq [on_encoder (put_u32 (int (length (finish body)))), on_encoder (put_bytes (finish body))]
       (e, rs @ map (\<lambda>r. r\<lparr>rl_offset := len e + length (finish p) + rl_offset r\<rparr>) bodyRelocs) = Inr (e', rs')"
    using w by (auto simp: encodeFunctionWithReloc_def rbind_Inr_iff Let_def simp del: rseq_simps)
  obtain e1 where e1: "put_u32 (int (length (finish body))) e = Inr e1" "put_bytes (finish body) e1 = Inr e'"
    and rs': "rs' = rs @ map (\<lambda>r. r\<lparr>rl_offset := len e + length (finish p) + rl_offset r\<rparr>) bodyRelocs"
    using go by (auto simp: rbind_Inr_iff on_encoder_Inr)
  have ok: "list_all (reloc_ok maps (finish body)) bodyRelocs"
    using relocates_body new_encoder_inv b by (rule relocatesE) simp
  note u = put_u32_Inr [OF e1(1) e]
  let ?pre = "finish e @ uleb (word_of_int (int (length (finish body))))"
  have "finish p = uleb (word_of_int (int (length (finish body))))"
    using put_u32_Inr [OF p new_encoder_inv] by (simp add: finish_new_encoder)
  then have pre: "length ?pre = len e + length (finish p)" using len_finish [OF e] by simp
  have f': "encoder_inv e'" "finish e' = ?pre @ finish body" using put_bytes_Inr [OF e1(2)] u by simp_all
  have "list_all (reloc_ok maps (finish e')) (map (\<lambda>r. r\<lparr>rl_offset := len e + length (finish p) + rl_offset r\<rparr>) bodyRelocs)"
    unfolding f'(2) pre [symmetric] list_all_iff set_map ball_simps
    by (rule ballI, rule reloc_ok_move) (use ok in \<open>simp add: list_all_iff\<close>)
  with f' rs' show "\<exists>bs new. encoder_inv e' \<and> finish e' = finish e @ bs \<and> rs' = rs @ new \<and> list_all (reloc_ok maps (finish e')) new"
    by auto
qed

lemma relocates_object_code: "relocates maps (object_code maps fs)"
  unfolding object_code_def by (rule rel.sequence) (auto intro!: reloc_intros append_intros rel.loop)

lemma object_code_relocs:
  assumes "object_code maps fs (new_encoder, []) = Inr (code, relocs)"
  shows "list_all (reloc_ok maps (finish code)) relocs"
  using relocates_object_code new_encoder_inv assms by (rule relocatesE) simp

text \<open>
  C16. In the code section of an object, every relocation entry points at the operand it is about: the bytes
  at its offset hold a function, global or tag index whose symbol is the entry's symbol, or, for a type
  relocation, the type index of the entry.
\<close>

theorem object_code_relocations:
  assumes "object_code maps fs (new_encoder, []) = Inr (code, relocs)"
  shows "list_all (reloc_ok maps (finish code)) relocs"
  using assms by (rule object_code_relocs)

text \<open>A call of a function with a symbol behind a nested type cast; the second body starts after a length prefix.\<close>

definition reloc_sample :: "wasm_function list" where
  "reloc_sample = [
     \<lparr>fn_name = ''f'', fn_typeIdx = 0, fn_locals = [], fn_body = [(Op ''nop'', None)]\<rparr>,
     \<lparr>fn_name = ''g'', fn_typeIdx = 0, fn_locals = [I32], fn_body = [(Block EmptyBlock [HeapType ''ref.test'' 1, CallOp ''call'' 0], None)]\<rparr>]"

definition reloc_maps :: symbol_maps where
  "reloc_maps = \<lparr>funcIdxToSymIdx = [0 \<mapsto> 4], globalIdxToSymIdx = Map.empty, tagIdxToSymIdx = Map.empty\<rparr>"

definition reloc_result :: "emit_error + (byte list \<times> relocation list)" where
  "reloc_result = map_sum id (\<lambda>(e, rs). (finish e, rs)) (object_code reloc_maps reloc_sample (new_encoder, []))"

lemma reloc_result_eq:
  "reloc_result = Inr ([0x02, 0x03, 0x00, 0x01, 0x0b, 0x0c, 0x01, 0x01, 0x7f, 0x02, 0x40, 0xfb, 0x14, 0x01, 0x10, 0x00, 0x0b, 0x0b],
     [\<lparr>rl_type = 6, rl_offset = 13, rl_symbolIndex = 1\<rparr>, \<lparr>rl_type = 0, rl_offset = 15, rl_symbolIndex = 4\<rparr>])"
  by code_simp

theorem object_code_relocations_witness:
  "\<exists>code. object_code reloc_maps reloc_sample (new_encoder, []) = Inr (code,
      [\<lparr>rl_type = 6, rl_offset = 13, rl_symbolIndex = 1\<rparr>, \<lparr>rl_type = 0, rl_offset = 15, rl_symbolIndex = 4\<rparr>])
    \<and> reloc_ok reloc_maps (finish code) \<lparr>rl_type = 0, rl_offset = 15, rl_symbolIndex = 4\<rparr>"
proof -
  obtain code where "object_code reloc_maps reloc_sample (new_encoder, []) = Inr (code,
      [\<lparr>rl_type = 6, rl_offset = 13, rl_symbolIndex = 1\<rparr>, \<lparr>rl_type = 0, rl_offset = 15, rl_symbolIndex = 4\<rparr>])"
    using reloc_result_eq unfolding reloc_result_def
    by (cases "object_code reloc_maps reloc_sample (new_encoder, [])") auto
  with object_code_relocations [OF this] show ?thesis by auto
qed

end
