(* ===== verification/EmitCodec.thy ===== *)
theory EmitCodec
  imports BinaryEmit Codec
begin

text \<open>
  The codec contract of \<open>Codec\<close> for the steps of the emitters: what \<open>put_u32\<close>, \<open>put_byte\<close>, \<open>put_name\<close> and
  \<open>put_vector\<close> write, the readers of object files and of type sections read back.
\<close>

lemma transmits_enc_call: "transmits w g v \<Longrightarrow> transmits (enc_call w) g v"
  by (auto simp: transmits_def enc_call_def split: sum.splits)

lemma transmits_put_u32 [codec_intros]: "transmits (put_u32 (int n)) rd_u32 n"
  unfolding put_u32_def by (rule transmits_enc_call [OF transmits_u32])

lemma transmits_put_u32_int: "transmits (put_u32 n) rd_u32 (nat n)"
proof (cases "0 \<le> n")
  case True
  then show ?thesis using transmits_put_u32 [of "nat n"] by simp
next
  case False
  then show ?thesis by (auto simp: transmits_def dest: put_u32_Inr)
qed

lemma transmits_put_byte [codec_intros]: "transmits (put_byte (uint b)) rd_byte b"
  unfolding put_byte_def [abs_def] by (rule transmits_uint_byte)

lemma transmits_put_name [codec_intros]: "dec (utf8 s) = s \<Longrightarrow> transmits (put_name utf8 s) (rd_name dec) s"
  unfolding put_name_def by (rule transmits_enc_call [OF transmits_name])

lemma transmits_put_vector [codec_intros]:
  assumes "\<And>x. x \<in> set xs \<Longrightarrow> transmits (w x) g (f x)"
  shows "transmits (put_vector xs w) (rd_vec g) (map f xs)"
proof -
  have "transmits (rseq [each w xs]) (rtimes (length xs) g) (map f xs)"
    by (rule transmits_rseq_single) (simp add: each_def transmits_rfold_map assms)
  then have "transmits (rseq (put_u32 (int (length xs)) # [each w xs])) (\<lambda>r. rbind (rd_u32 r) (case_prod (\<lambda>n. rtimes n g))) (map f xs)"
    by (rule transmits_rseq_Cons [OF transmits_put_u32])
  then show ?thesis by (simp add: put_vector_def rd_vec_def [abs_def] case_prod_unfold del: rseq_simps)
qed

end
