(* ===== verification/ObjectWhole.thy ===== *)
theory ObjectWhole
  imports ObjectEmit EmitCodec Resolver
begin

text \<open>
  \<open>emitObject\<close> of \<open>src/src/emit/object.ts\<close> as a whole: the sections it writes, the relocation section and the
  linking section, on top of the symbol table and the code section of \<open>ObjectEmit\<close>. Shown: the symbol
  table is sound; whenever the reader of \<open>src/src/link/reader.ts\<close> accepts an object file, it finds exactly the
  symbols and the relocations that were written, but no name of an undefined symbol; and so the
  resolver of \<open>src/src/link/resolver.ts\<close> resolves nothing among such objects.
\<close>

section \<open>The sections of an object file\<close>

text \<open>Constant expressions of element segments are encoded with a fresh list of relocations, which is dropped.\<close>

definition discard_relocs :: "reloc_state step \<Rightarrow> wasm_emitter" where
  "discard_relocs v e = rbind (v (e, [])) (\<lambda>(e', _). Inr e')"

definition object_element :: "symbol_maps \<Rightarrow> wasm_element \<Rightarrow> wasm_emitter" where
  "object_element maps el =
     (let explicitTable = elem_tableIdx el \<noteq> 0 in
      rseq [put_opcode [if explicitTable then 0x02 else 0x00],
        if explicitTable then put_u32 (elem_tableIdx el) else Inr,
        each (\<lambda>i. discard_relocs (encodeInstrWithReloc maps i)) (elem_offset el), put_opcode [0x0b],
        if explicitTable then put_opcode [0x00] else Inr,
        put_vector (elem_funcIndices el) put_u32])"

text \<open>Whether a section is written, its identifier and its contents, in the order of the file.\<close>

definition object_sections :: "(string \<Rightarrow> byte list) \<Rightarrow> symbol_maps \<Rightarrow> wasm_module \<Rightarrow> (bool \<times> int \<times> wasm_emitter) list" where
  "object_sections utf8 maps m = [
     (m_types m \<noteq> [], 1, put_vector (m_types m) (encodeTypeDef bare)),
     (m_imports m \<noteq> [], 2, put_vector (m_imports m) (encodeImport bare utf8)),
     (m_functions m \<noteq> [], 3, put_vector (m_functions m) (\<lambda>f. put_u32 (fn_typeIdx f))),
     (m_tables m \<noteq> [], 4, put_vector (m_tables m) (\<lambda>t. put_table_type (tb_elementType t) (tb_min t) (tb_max t))),
     (m_tags m \<noteq> [], 13, put_vector (m_tags m) (\<lambda>t. rseq [put_opcode [0x00], put_u32 (tg_typeIdx t)])),
     (m_globals m \<noteq> [], 6, put_vector (m_globals m) (encodeGlobal bare)),
     (m_exports m \<noteq> [], 7, put_vector (m_exports m) (encodeExport bare utf8)),
     (m_elements m \<noteq> [], 9, put_vector (m_elements m) (object_element maps))]"

definition put_reloc :: "relocation \<Rightarrow> wasm_emitter" where
  "put_reloc r = rseq [put_byte (uint (rl_type r)), put_u32 (int (rl_offset r)), put_u32 (rl_symbolIndex r)]"

definition reloc_section :: "(string \<Rightarrow> byte list) \<Rightarrow> nat \<Rightarrow> relocation list \<Rightarrow> wasm_emitter" where
  "reloc_section utf8 codeSectionIndex relocs =
     rseq [put_name utf8 ''reloc.CODE'', put_u32 (int codeSectionIndex), put_vector relocs put_reloc]"

text \<open>A name is written for defined symbols only.\<close>

definition put_symbol :: "(string \<Rightarrow> byte list) \<Rightarrow> symbol_info \<Rightarrow> wasm_emitter" where
  "put_symbol utf8 sm =
     rseq [put_byte (uint (sym_kind sm)), put_u32 (int (sym_flags sm)), put_u32 (int (sym_index sm)),
       if sym_flags sm AND SYMBOL_UNDEFINED = 0 then put_name utf8 (sym_name sm) else Inr]"

definition linking_section :: "(string \<Rightarrow> byte list) \<Rightarrow> symbol_info list \<Rightarrow> wasm_emitter" where
  "linking_section utf8 symbols =
     rseq [put_name utf8 ''linking'', put_u32 2, put_section 8 (put_vector symbols (put_symbol utf8))]"

text \<open>The code section goes into an encoder of its own; it is the section after the \<open>sectionCount\<close> ones before it.\<close>

definition object_code_section :: "symbol_maps \<Rightarrow> wasm_module \<Rightarrow> reloc_state step" where
  "object_code_section maps m st =
     (if m_functions m = [] then Inr st
      else rbind (object_code maps (m_functions m) (new_encoder, snd st)) (\<lambda>(codeSec, relocs).
        let codeBytes = finish codeSec in
        rbind (rseq [put_byte 10, put_u32 (int (length codeBytes)), put_bytes codeBytes] (fst st)) (\<lambda>e. Inr (e, relocs))))"

definition emitObject :: "(string \<Rightarrow> byte list) \<Rightarrow> wasm_module \<Rightarrow> emit_error + byte list" where
  "emitObject utf8 m =
     (let (symbols, maps) = symbol_table m;
          sections = object_sections utf8 maps m in
      rbind (rseq [put_bytes [0x00, 0x61, 0x73, 0x6d], put_bytes [0x01, 0x00, 0x00, 0x00],
          each (\<lambda>(c, sid, content). section_if c sid content) sections] new_encoder) (\<lambda>e.
      rbind (object_code_section maps m (e, [])) (\<lambda>(e, relocs).
      rbind (rseq [section_if (relocs \<noteq> [] \<and> m_functions m \<noteq> []) 0 (reloc_section utf8 (length (filter fst sections)) relocs),
          put_section 0 (linking_section utf8 symbols)] e) (\<lambda>e. Inr (finish e)))))"

section \<open>The symbol table\<close>

text \<open>
  In the space of functions, globals or tags of a kind: the map takes an index to a symbol of that
  kind and index, and every index below the next one has a symbol.
\<close>

definition space_ok :: "byte \<Rightarrow> symbol_space \<Rightarrow> bool" where
  "space_ok kind = (\<lambda>(symbols, toSymIdx, idx).
     (\<forall>i. toSymIdx i \<noteq> None \<longleftrightarrow> 0 \<le> i \<and> i < int idx)
     \<and> (\<forall>i s. toSymIdx i = Some s \<longrightarrow> s < length symbols \<and> sym_kind (symbols ! s) = kind \<and> int (sym_index (symbols ! s)) = i))"

lemma space_ok_start: "space_ok kind (symbols, Map.empty, 0)"
  by (simp add: space_ok_def)

lemma space_ok_add: "space_ok kind sp \<Longrightarrow> space_ok kind (add_symbol kind nm flags sp)"
proof (cases sp)
  case (fields symbols toSymIdx idx)
  assume "space_ok kind sp"
  then have dom: "toSymIdx i \<noteq> None \<longleftrightarrow> 0 \<le> i \<and> i < int idx"
    and val: "toSymIdx i = Some s \<Longrightarrow> s < length symbols \<and> sym_kind (symbols ! s) = kind \<and> int (sym_index (symbols ! s)) = i" for i s
    unfolding fields space_ok_def by auto
  have "(i = int idx \<or> toSymIdx i \<noteq> None) \<longleftrightarrow> 0 \<le> i \<and> i < int (Suc idx)" for i
    unfolding dom by auto
  then show ?thesis using val unfolding fields space_ok_def add_symbol_def
    by (auto simp: nth_append less_SucI)
qed

lemma space_ok_imported: "space_ok kind sp \<Longrightarrow> space_ok kind (add_imported kind k imps sp)"
  unfolding add_imported_def by (induction imps arbitrary: sp) (simp_all add: space_ok_add)

lemma space_ok_defined: "space_ok kind sp \<Longrightarrow> space_ok kind (add_defined kind prefix exported names sp)"
  unfolding add_defined_def
proof (induction names arbitrary: sp)
  case (Cons nm names)
  then show ?case by (cases sp) (simp add: space_ok_add)
qed simp

lemma add_symbol_grows: "\<exists>rs. fst (add_symbol kind nm flags sp) = fst sp @ rs"
  by (cases sp) (simp add: add_symbol_def)

lemma fold_grows:
  fixes g :: "'a \<Rightarrow> symbol_space \<Rightarrow> symbol_space"
  assumes "\<And>x sp. \<exists>rs. fst (g x sp) = fst sp @ rs"
  shows "\<exists>rs. fst (fold g xs sp) = fst sp @ rs"
proof (induction xs arbitrary: sp)
  case (Cons x xs)
  obtain rs where "fst (g x sp) = fst sp @ rs" using assms by blast
  moreover obtain rest where "fst (fold g xs (g x sp)) = fst (g x sp) @ rest" using Cons by blast
  ultimately show ?case by simp
qed simp

lemma add_imported_grows: "\<exists>rs. fst (add_imported kind k imps sp) = fst sp @ rs"
  unfolding add_imported_def by (rule fold_grows) (auto simp: add_symbol_grows)

lemma add_defined_grows: "\<exists>rs. fst (add_defined kind prefix exported names sp) = fst sp @ rs"
  unfolding add_defined_def by (rule fold_grows) (use add_symbol_grows in \<open>auto split: prod.split\<close>)

lemma add_imported_next:
  "snd (snd (add_imported kind k imps sp)) = snd (snd sp) + length (filter (\<lambda>imp. desc_kind (im_desc imp) = k) imps)"
  unfolding add_imported_def by (induction imps arbitrary: sp) (auto simp: add_symbol_def split: prod.split)

lemma add_defined_next: "snd (snd (add_defined kind prefix exported names sp)) = snd (snd sp) + length names"
  unfolding add_defined_def by (induction names arbitrary: sp) (auto simp: add_symbol_def split: prod.split)

text \<open>Aliases: a stable handle gets the symbol of the function at its recorded position.\<close>

lemma alias_handles_snoc:
  "alias_handles n (ords @ [x]) t = (let t' = alias_handles n ords t in
     case x of None \<Rightarrow> t' | Some p \<Rightarrow> (case t' (int (n + p)) of
       None \<Rightarrow> t' | Some s \<Rightarrow> t'(STABLE_FUNC_BASE + int (length ords) \<mapsto> s)))"
  by (simp add: alias_handles_def enumerate_append_eq Let_def split: option.split)

lemma alias_handles_lookup:
  assumes "\<And>i. t i \<noteq> None \<Longrightarrow> i < STABLE_FUNC_BASE"
    and "\<forall>p. Some p \<in> set ords \<longrightarrow> int (n + p) < STABLE_FUNC_BASE"
  shows "alias_handles n ords t h =
    (if h < STABLE_FUNC_BASE then t h
     else let ordinal = nat (h - STABLE_FUNC_BASE) in
       if ordinal < length ords then Option.bind (ords ! ordinal) (\<lambda>p. t (int (n + p))) else None)"
  using assms(2)
proof (induction ords arbitrary: h rule: rev_induct)
  case Nil
  show ?case using assms(1) [of h] by (cases "t h") (simp_all add: alias_handles_def)
next
  case (snoc x ords)
  then have IH: "\<And>h. alias_handles n ords t h = (if h < STABLE_FUNC_BASE then t h
     else let ordinal = nat (h - STABLE_FUNC_BASE) in
       if ordinal < length ords then Option.bind (ords ! ordinal) (\<lambda>p. t (int (n + p))) else None)" by simp
  show ?case
  proof (cases x)
    case None
    then show ?thesis by (auto simp: alias_handles_snoc IH Let_def nth_append)
  next
    case (Some p)
    with snoc.prems have "int (n + p) < STABLE_FUNC_BASE" by simp
    then have p: "alias_handles n ords t (int (n + p)) = t (int (n + p))" by (simp add: IH)
    have "nat (h - STABLE_FUNC_BASE) = length ords \<longleftrightarrow> h = STABLE_FUNC_BASE + int (length ords)" if "\<not> h < STABLE_FUNC_BASE"
      using that by auto
    with Some p show ?thesis
      by (auto simp: alias_handles_snoc IH [of h] IH [of "STABLE_FUNC_BASE + int (length ords)"] Let_def nth_append less_Suc_eq split: option.split)
  qed
qed

text \<open>The functions, globals and tags of a module, imported ones included.\<close>

definition function_count :: "wasm_module \<Rightarrow> nat" where
  "function_count m = count_imports FuncKind m + length (m_functions m)"

definition symbol_for :: "symbol_info list \<Rightarrow> nat \<Rightarrow> byte \<Rightarrow> int \<Rightarrow> bool" where
  "symbol_for symbols s kind i \<longleftrightarrow> s < length symbols \<and> sym_kind (symbols ! s) = kind \<and> int (sym_index (symbols ! s)) = i"

definition functions_ok :: "wasm_module \<Rightarrow> symbol_info list \<Rightarrow> symbol_maps \<Rightarrow> bool" where
  "functions_ok m symbols maps \<longleftrightarrow>
     (\<forall>h. funcIdxToSymIdx maps h \<noteq> None \<longleftrightarrow> (\<exists>i. absoluteFuncIndex m h = Inr i \<and> 0 \<le> i \<and> i < int (function_count m)))
     \<and> (\<forall>h s. funcIdxToSymIdx maps h = Some s \<longrightarrow> (\<exists>i. absoluteFuncIndex m h = Inr i \<and> symbol_for symbols s SYMTAB_FUNCTION i))"

definition space_total :: "symbol_info list \<Rightarrow> (int \<rightharpoonup> nat) \<Rightarrow> byte \<Rightarrow> nat \<Rightarrow> bool" where
  "space_total symbols toSymIdx kind n \<longleftrightarrow>
     (\<forall>i. toSymIdx i \<noteq> None \<longleftrightarrow> 0 \<le> i \<and> i < int n) \<and> (\<forall>i s. toSymIdx i = Some s \<longrightarrow> symbol_for symbols s kind i)"

lemma space_total_iff: "space_ok kind (symbols, toSymIdx, n) \<longleftrightarrow> space_total symbols toSymIdx kind n"
  by (simp add: space_ok_def space_total_def symbol_for_def)

lemma symbol_for_grow: "symbol_for symbols s kind i \<Longrightarrow> symbol_for (symbols @ rs) s kind i"
  by (simp add: symbol_for_def nth_append)

lemma space_total_grow: "space_total symbols toSymIdx kind n \<Longrightarrow> space_total (symbols @ rs) toSymIdx kind n"
  by (auto simp: space_total_def symbol_for_grow)

definition handles_ok :: "wasm_module \<Rightarrow> bool" where
  "handles_ok m \<longleftrightarrow> int (function_count m) \<le> STABLE_FUNC_BASE
     \<and> (\<forall>position\<in>set (m_funcOrdinalToPosition m). case position of None \<Rightarrow> True | Some p \<Rightarrow> p < length (m_functions m))"

lemma handles_okD: "handles_ok m \<Longrightarrow> Some p \<in> set (m_funcOrdinalToPosition m) \<Longrightarrow> p < length (m_functions m)"
  by (force simp: handles_ok_def)

lemma functions_ok_alias:
  assumes t: "space_total symbols t SYMTAB_FUNCTION (function_count m)" and h: "handles_ok m"
    and maps: "funcIdxToSymIdx maps = alias_handles (count_imports FuncKind m) (m_funcOrdinalToPosition m) t"
  shows "functions_ok m symbols maps"
proof -
  let ?n = "count_imports FuncKind m" and ?ords = "m_funcOrdinalToPosition m"
  have dom: "t i \<noteq> None \<longleftrightarrow> 0 \<le> i \<and> i < int (function_count m)" and val: "t i = Some s \<Longrightarrow> symbol_for symbols s SYMTAB_FUNCTION i" for i s
    using t by (auto simp: space_total_def)
  have below: "t i \<noteq> None \<Longrightarrow> i < STABLE_FUNC_BASE" for i using h dom [of i] by (auto simp: handles_ok_def)
  have pos: "\<forall>p. Some p \<in> set ?ords \<longrightarrow> int (?n + p) < STABLE_FUNC_BASE"
    using h by (fastforce simp: handles_ok_def function_count_def)
  have eq: "funcIdxToSymIdx maps k = (case absoluteFuncIndex m k of Inl _ \<Rightarrow> None | Inr i \<Rightarrow> t i)" for k
    using alias_handles_lookup [of t ?ords ?n k, OF below pos]
    by (auto simp: maps absoluteFuncIndex_def absoluteFuncIndexCached_def Let_def split: option.split)
  have tD: "\<exists>i. absoluteFuncIndex m k = Inr i \<and> t i = Some s" if "funcIdxToSymIdx maps k = Some s" for k s
    using that unfolding eq by (auto split: sum.splits)
  show ?thesis unfolding functions_ok_def
    using tD val dom by (force simp: eq split: sum.splits)
qed

lemma symbol_table_ok:
  assumes "symbol_table m = (symbols, maps)"
  shows "handles_ok m \<Longrightarrow> functions_ok m symbols maps"
    and "space_total symbols (globalIdxToSymIdx maps) SYMTAB_GLOBAL (count_imports GlobalKind m + length (m_globals m))"
    and "space_total symbols (tagIdxToSymIdx maps) SYMTAB_EVENT (count_imports TagKind m + length (m_tags m))"
proof -
  let ?f0 = "add_imported SYMTAB_FUNCTION FuncKind (m_imports m) ([], Map.empty, 0)"
  obtain sf funcs nf where f: "add_defined SYMTAB_FUNCTION ''__func_'' (exported_indices FuncKind m) (map fn_name (m_functions m)) ?f0 = (sf, funcs, nf)"
    by (metis prod_cases3)
  let ?g0 = "add_imported SYMTAB_GLOBAL GlobalKind (m_imports m) (sf, Map.empty, 0)"
  obtain sg globals ng where g: "add_defined SYMTAB_GLOBAL ''__global_'' (exported_indices GlobalKind m) (map gl_name (m_globals m)) ?g0 = (sg, globals, ng)"
    by (metis prod_cases3)
  let ?t0 = "add_imported SYMTAB_EVENT TagKind (m_imports m) (sg, Map.empty, 0)"
  obtain st tags nt where t: "add_defined SYMTAB_EVENT ''__tag_'' (\<lambda>_. False) (map tg_name (m_tags m)) ?t0 = (st, tags, nt)"
    by (metis prod_cases3)
  have eq: "symbols = st" "globalIdxToSymIdx maps = globals" "tagIdxToSymIdx maps = tags"
    "funcIdxToSymIdx maps = alias_handles (count_imports FuncKind m) (m_funcOrdinalToPosition m) funcs"
    using assms by (auto simp: symbol_table_def Let_def f g t)
  have next_idx: "snd (snd (add_defined kind prefix ex names (add_imported kind k (m_imports m) (s, Map.empty, 0)))) = count_imports k m + length names"
    for kind prefix ex names k s
    by (simp add: add_defined_next add_imported_next count_imports_def)
  have n: "nf = function_count m" "ng = count_imports GlobalKind m + length (m_globals m)" "nt = count_imports TagKind m + length (m_tags m)"
    using next_idx [of SYMTAB_FUNCTION "''__func_''" "exported_indices FuncKind m" "map fn_name (m_functions m)" FuncKind "[]"]
      next_idx [of SYMTAB_GLOBAL "''__global_''" "exported_indices GlobalKind m" "map gl_name (m_globals m)" GlobalKind sf]
      next_idx [of SYMTAB_EVENT "''__tag_''" "\<lambda>_. False" "map tg_name (m_tags m)" TagKind sg]
    by (simp_all add: f g t function_count_def)
  have built: "space_ok kind (add_defined kind prefix ex names (add_imported kind k imps (s, Map.empty, 0)))" for kind prefix ex names k imps s
    by (intro space_ok_defined space_ok_imported space_ok_start)
  have grows: "\<exists>rs. fst (add_defined kind prefix ex names (add_imported kind k imps (s, Map.empty, 0))) = s @ rs"
    for kind prefix ex names k imps s
    using add_imported_grows [of kind k imps "(s, Map.empty, 0)"]
      add_defined_grows [of kind prefix ex names "add_imported kind k imps (s, Map.empty, 0)"] by auto
  obtain g1 t1 where "sg = sf @ g1" "st = sg @ t1"
    using grows [of SYMTAB_GLOBAL _ _ _ GlobalKind _ sf] grows [of SYMTAB_EVENT _ _ _ TagKind _ sg] g t by (metis fst_conv)
  moreover have "space_total sf funcs SYMTAB_FUNCTION nf" "space_total sg globals SYMTAB_GLOBAL ng" "space_total st tags SYMTAB_EVENT nt"
    unfolding space_total_iff [symmetric] f [symmetric] g [symmetric] t [symmetric] by (rule built)+
  ultimately have "space_total st funcs SYMTAB_FUNCTION nf" "space_total st globals SYMTAB_GLOBAL ng" "space_total st tags SYMTAB_EVENT nt"
    using space_total_grow by (metis, metis, metis)
  then show "handles_ok m \<Longrightarrow> functions_ok m symbols maps"
    and "space_total symbols (globalIdxToSymIdx maps) SYMTAB_GLOBAL (count_imports GlobalKind m + length (m_globals m))"
    and "space_total symbols (tagIdxToSymIdx maps) SYMTAB_EVENT (count_imports TagKind m + length (m_tags m))"
    using functions_ok_alias eq n by simp_all
qed

section \<open>Reading the metadata back\<close>

text \<open>What a reader sees of a symbol: the name of an undefined one is not in the file.\<close>

definition read_symbol :: "symbol_info \<Rightarrow> symbol_info" where
  "read_symbol sm = (if has_flag sm SYMBOL_UNDEFINED then sm\<lparr>sym_name := []\<rparr> else sm)"

definition symbol_wf :: "symbol_info \<Rightarrow> bool" where
  "symbol_wf sm \<longleftrightarrow> sym_kind sm \<in> {SYMTAB_FUNCTION, SYMTAB_GLOBAL, SYMTAB_EVENT}
     \<and> sym_flags sm \<in> {SYMBOL_UNDEFINED, SYMBOL_EXPORTED, SYMBOL_BINDING_LOCAL}"

lemma flag_values:
  "SYMBOL_UNDEFINED AND SYMBOL_UNDEFINED \<noteq> 0" "SYMBOL_EXPORTED AND SYMBOL_UNDEFINED = 0" "SYMBOL_BINDING_LOCAL AND SYMBOL_UNDEFINED = 0"
  "SYMBOL_UNDEFINED AND SYMBOL_EXPLICIT_NAME = 0" "SYMBOL_EXPORTED AND SYMBOL_EXPLICIT_NAME = 0" "SYMBOL_BINDING_LOCAL AND SYMBOL_EXPLICIT_NAME = 0"
  by (simp_all add: symbol_consts)

lemma transmits_put_symbol:
  assumes wf: "symbol_wf sm" and nm: "\<not> has_flag sm SYMBOL_UNDEFINED \<Longrightarrow> dec (utf8 (sym_name sm)) = sym_name sm"
  shows "transmits (put_symbol utf8 sm) (parse_symbol dec) (read_symbol sm)"
proof -
  have x: "sym_flags sm AND SYMBOL_EXPLICIT_NAME = 0" using wf flag_values by (auto simp: symbol_wf_def)
  have k: "sym_kind sm = SYMTAB_FUNCTION \<or> sym_kind sm = SYMTAB_GLOBAL \<or> sym_kind sm = SYMTAB_EVENT \<or> sym_kind sm = SYMTAB_TABLE"
    using wf by (auto simp: symbol_wf_def)
  show ?thesis
    unfolding put_symbol_def parse_symbol_def [abs_def]
  proof (rule transmits_rseq_Cons [OF transmits_put_byte], rule transmits_rseq_Cons [OF transmits_put_u32],
      unfold Let_def if_P [OF k], rule transmits_rseq_Cons [OF transmits_put_u32], goal_cases)
    case 1
    show ?case
    proof (cases "sym_flags sm AND SYMBOL_UNDEFINED = 0")
      case True
      then have "transmits (put_name utf8 (sym_name sm)) (rd_name dec) (sym_name sm)"
        using nm by (intro transmits_put_name) (simp add: has_flag_def)
      then show ?thesis unfolding if_P [OF True] if_P [OF disjI1 [OF True]]
        by (rule transmits_rseq_Cons) (use True in \<open>cases sm, simp add: read_symbol_def has_flag_def rseq_Nil_fun transmits_done del: rseq_simps\<close>)
    next
      case False
      with x show ?thesis
        by (cases sm) (simp add: read_symbol_def has_flag_def rseq_Cons_fun rseq_Nil_fun transmits_done del: rseq_simps)
    qed
  qed
qed

definition read_reloc :: "relocation \<Rightarrow> reloc_entry" where
  "read_reloc r = \<lparr>rel_type = rl_type r, rel_offset = rl_offset r, rel_symbolIndex = nat (rl_symbolIndex r), rel_addend = None\<rparr>"

lemma transmits_put_reloc:
  assumes "rl_type r \<notin> set RELOC_HAS_ADDEND"
  shows "transmits (put_reloc r) parse_reloc (read_reloc r)"
  unfolding put_reloc_def parse_reloc_def [abs_def]
  by (rule transmits_rseq_Cons [OF transmits_put_byte], rule transmits_rseq_Cons [OF transmits_put_u32],
      rule transmits_rseq_Cons [OF transmits_put_u32_int])
    (use assms in \<open>simp add: read_reloc_def rseq_Nil_fun transmits_done del: rseq_simps\<close>)

subsection \<open>Sections\<close>

definition metadata :: "parsed_object \<Rightarrow> symbol_info list \<times> (string \<times> reloc_entry list) list" where
  "metadata obj = (obj_symbols obj, obj_relocations obj)"

text \<open>
  A step that writes sections: a reader that gets through them, and through the rest of the file, has
  changed its metadata by \<open>f\<close> when it is behind them.
\<close>

definition adds_metadata ::
    "(byte list \<Rightarrow> string) \<Rightarrow> wasm_emitter \<Rightarrow> (symbol_info list \<times> (string \<times> reloc_entry list) list \<Rightarrow> symbol_info list \<times> (string \<times> reloc_entry list) list) \<Rightarrow> bool" where
  "adds_metadata dec w f \<longleftrightarrow> (\<forall>e e'. encoder_inv e \<longrightarrow> w e = Inr e' \<longrightarrow>
     (\<exists>bs. encoder_inv e' \<and> finish e' = finish e @ bs
        \<and> (\<forall>r ys obj final. pos r \<le> length (data r) \<longrightarrow> rest r = bs @ ys \<longrightarrow> section_loop dec obj r = Inr final
              \<longrightarrow> (\<exists>obj'. section_loop dec obj' (skip (length bs) r) = Inr final \<and> metadata obj' = f (metadata obj)))))"

lemma adds_metadataE:
  assumes "adds_metadata dec w f" and "encoder_inv e" and "w e = Inr e'"
  obtains bs where "encoder_inv e'" and "finish e' = finish e @ bs"
    and "\<And>r ys obj final. pos r \<le> length (data r) \<Longrightarrow> rest r = bs @ ys \<Longrightarrow> section_loop dec obj r = Inr final
      \<Longrightarrow> \<exists>obj'. section_loop dec obj' (skip (length bs) r) = Inr final \<and> metadata obj' = f (metadata obj)"
  using assms unfolding adds_metadata_def by meson

lemma adds_metadata_Inr: "adds_metadata dec Inr id"
  unfolding adds_metadata_def by (auto intro!: exI [of _ "[]"] simp: skip_0)

lemma adds_metadata_seq:
  assumes v: "adds_metadata dec v f" and w: "adds_metadata dec w g"
  shows "adds_metadata dec (\<lambda>s. rbind (v s) w) (g \<circ> f)"
  unfolding adds_metadata_def
proof (intro allI impI)
  fix e e'
  assume e: "encoder_inv e" and "rbind (v e) w = Inr e'"
  then obtain e1 where 1: "v e = Inr e1" and 2: "w e1 = Inr e'" by auto
  obtain bs where bs: "encoder_inv e1" "finish e1 = finish e @ bs"
    and lb: "\<And>r ys obj final. pos r \<le> length (data r) \<Longrightarrow> rest r = bs @ ys \<Longrightarrow> section_loop dec obj r = Inr final
      \<Longrightarrow> \<exists>obj'. section_loop dec obj' (skip (length bs) r) = Inr final \<and> metadata obj' = f (metadata obj)"
    by (rule adds_metadataE [OF v e 1]) blast
  obtain cs where cs: "encoder_inv e'" "finish e' = finish e1 @ cs"
    and lc: "\<And>r ys obj final. pos r \<le> length (data r) \<Longrightarrow> rest r = cs @ ys \<Longrightarrow> section_loop dec obj r = Inr final
      \<Longrightarrow> \<exists>obj'. section_loop dec obj' (skip (length cs) r) = Inr final \<and> metadata obj' = g (metadata obj)"
    by (rule adds_metadataE [OF w bs(1) 2]) blast
  have "\<exists>obj'. section_loop dec obj' (skip (length (bs @ cs)) r) = Inr final \<and> metadata obj' = (g \<circ> f) (metadata obj)"
    if p: "pos r \<le> length (data r)" and r: "rest r = (bs @ cs) @ ys" and l: "section_loop dec obj r = Inr final" for r ys obj final
  proof -
    from r have r': "rest r = bs @ (cs @ ys)" by simp
    obtain o1 where o1: "section_loop dec o1 (skip (length bs) r) = Inr final" "metadata o1 = f (metadata obj)"
      using lb [OF p r' l] by blast
    from lc [OF skip_in_range [OF p r'], of ys o1 final] o1 show ?thesis
      by (auto simp: rest_skip r skip_skip)
  qed
  with bs(2) cs show "\<exists>bs. encoder_inv e' \<and> finish e' = finish e @ bs
        \<and> (\<forall>r ys obj final. pos r \<le> length (data r) \<longrightarrow> rest r = bs @ ys \<longrightarrow> section_loop dec obj r = Inr final
              \<longrightarrow> (\<exists>obj'. section_loop dec obj' (skip (length bs) r) = Inr final \<and> metadata obj' = (g \<circ> f) (metadata obj)))"
    by (intro exI [of _ "bs @ cs"]) auto
qed

interpretation meta: step_logic "\<lambda>w. adds_metadata dec w id" for dec
  by unfold_locales (rule adds_metadata_Inr, use adds_metadata_seq [where f = id and g = id] in simp)

text \<open>One section with its contents; the reader goes on at its end, wherever the section parser stopped.\<close>

lemma adds_section_bytes:
  assumes "word_of_int sid = bid"
    and sec: "\<And>r ys obj obj' r'. pos r \<le> length (data r) \<Longrightarrow> rest r = content @ ys
      \<Longrightarrow> parse_section dec bid (pos r + length content) obj r = Inr (obj', r') \<Longrightarrow> metadata obj' = f (metadata obj)"
  shows "adds_metadata dec (rseq [put_byte sid, put_u32 (int (length content)), put_bytes content]) f"
  unfolding adds_metadata_def
proof (intro allI impI)
  fix e e'
  assume e: "encoder_inv e" and w: "rseq [put_byte sid, put_u32 (int (length content)), put_bytes content] e = Inr e'"
  then obtain e1 where e1: "put_u32 (int (length content)) (enc_byte sid e) = Inr e1" and e': "put_bytes content e1 = Inr e'"
    by (auto simp: put_byte_def rbind_Inr_iff)
  note b = enc_byte_props [OF e, of sid]
  obtain szs where szs: "encoder_inv e1" "finish e1 = finish (enc_byte sid e) @ szs" "reads rd_u32 szs (length content)"
    using transmits_put_u32 b(1) e1 by (rule transmitsE)
  have "\<exists>obj'. section_loop dec obj' (skip (length ([bid] @ szs @ content)) r) = Inr final \<and> metadata obj' = f (metadata obj)"
    if p: "pos r \<le> length (data r)" and r: "rest r = ([bid] @ szs @ content) @ ys" and l: "section_loop dec obj r = Inr final" for r ys obj final
  proof -
    let ?r1 = "skip (Suc 0) r" and ?r2 = "skip (length szs) (skip (Suc 0) r)"
    from r have "rest r \<noteq> []" by simp
    with p have lt: "pos r < length (data r)" by (simp add: rest_def)
    have p1: "pos ?r1 \<le> length (data ?r1)" using lt by (simp add: skip_def)
    have r1: "rest ?r1 = szs @ (content @ ys)" by (simp add: rest_skip r)
    have p2: "pos ?r2 \<le> length (data ?r2)" by (rule skip_in_range [OF p1 r1])
    have r2: "rest ?r2 = content @ ys" unfolding rest_skip [of "length szs"] r1 by simp
    have b: "rd_byte r = Inr (bid, ?r1)"
      using readsD [OF reads_rd_byte p, of bid "szs @ content @ ys"] r by simp
    have u: "rd_u32 ?r1 = Inr (length content, ?r2)" by (rule readsD [OF szs(3) p1 r1])
    from l obtain obj' r' where o: "parse_section dec bid (pos ?r2 + length content) obj ?r2 = Inr (obj', r')"
      and l': "section_loop dec obj' (?r2\<lparr>pos := pos ?r2 + length content\<rparr>) = Inr final"
      by (subst (asm) section_loop.simps) (auto simp: lt b u Let_def rbind_Inr_iff)
    have "?r2\<lparr>pos := pos ?r2 + length content\<rparr> = skip (length ([bid] @ szs @ content)) r"
      by (simp add: skip_def)
    with l' sec [OF p2 r2 o] show ?thesis by auto
  qed
  moreover have "encoder_inv e' \<and> finish e' = finish e @ [bid] @ szs @ content"
    using szs put_bytes_Inr [OF e'] b(2) assms(1) by simp
  ultimately show "\<exists>bs. encoder_inv e' \<and> finish e' = finish e @ bs
        \<and> (\<forall>r ys obj final. pos r \<le> length (data r) \<longrightarrow> rest r = bs @ ys \<longrightarrow> section_loop dec obj r = Inr final
              \<longrightarrow> (\<exists>obj'. section_loop dec obj' (skip (length bs) r) = Inr final \<and> metadata obj' = f (metadata obj)))"
    by blast
qed

lemma adds_section:
  assumes "word_of_int sid = bid"
    and "\<And>sub r ys obj obj' r'. w new_encoder = Inr sub \<Longrightarrow> pos r \<le> length (data r) \<Longrightarrow> rest r = finish sub @ ys
      \<Longrightarrow> parse_section dec bid (pos r + length (finish sub)) obj r = Inr (obj', r') \<Longrightarrow> metadata obj' = f (metadata obj)"
  shows "adds_metadata dec (put_section sid w) f"
proof (cases "w new_encoder")
  case (Inl err)
  then show ?thesis by (simp add: adds_metadata_def put_section_def)
next
  case (Inr sub)
  then have "put_section sid w = rseq [put_byte sid, put_u32 (int (length (finish sub))), put_bytes (finish sub)]"
    by (auto simp: put_section_def)
  moreover have "adds_metadata dec (rseq [put_byte sid, put_u32 (int (length (finish sub))), put_bytes (finish sub)]) f"
    by (rule adds_section_bytes [OF assms(1)]) (use assms(2) Inr in blast)
  ultimately show ?thesis by simp
qed

text \<open>Only custom sections carry metadata.\<close>

lemma parse_section_metadata:
  "bid \<noteq> 0 \<Longrightarrow> parse_section dec bid fin obj r = Inr (obj', r') \<Longrightarrow> metadata obj' = metadata obj"
  by (auto simp: parse_section_def metadata_def parseTypeSection_def parseImportSection_def parseFunctionSection_def parseTableSection_def
      parseMemorySection_def parseGlobalSection_def parseExportSection_def parseElementSection_def parseCodeSection_def parseTagSection_def
      rbind_Inr_iff split: if_splits)

lemma adds_plain_section: "(word_of_int sid :: byte) \<noteq> 0 \<Longrightarrow> adds_metadata dec (put_section sid w) id"
  by (rule adds_section [OF refl]) (simp, erule (1) parse_section_metadata)

subsection \<open>The custom sections\<close>

lemma adds_reloc_section:
  assumes nm: "dec (utf8 ''reloc.CODE'') = ''reloc.CODE''" and ty: "list_all (\<lambda>r. rl_type r \<notin> set RELOC_HAS_ADDEND) relocs"
  shows "adds_metadata dec (put_section 0 (reloc_section utf8 idx relocs))
    (\<lambda>(ss, rs). (ss, AList.update ''reloc.CODE'' (map read_reloc relocs) rs))"
proof (rule adds_section)
  fix sub r ys obj obj' r'
  assume sub: "reloc_section utf8 idx relocs new_encoder = Inr sub" and p: "pos r \<le> length (data r)" and r: "rest r = finish sub @ ys"
    and o: "parse_section dec 0 (pos r + length (finish sub)) obj r = Inr (obj', r')"
  let ?obj = "obj\<lparr>obj_relocations := AList.update ''reloc.CODE'' (map read_reloc relocs) (obj_relocations obj)\<rparr>"
  have vec: "transmits (put_vector relocs put_reloc) (rd_vec parse_reloc) (map read_reloc relocs)"
    by (rule transmits_put_vector, rule transmits_put_reloc) (use ty in \<open>simp add: list_all_iff\<close>)
  have "transmits (rseq [put_u32 (int idx), put_vector relocs put_reloc]) (parseRelocSection ''reloc.CODE'' obj) ?obj"
    unfolding parseRelocSection_def [abs_def]
    by (rule transmits_rseq_Cons [OF transmits_put_u32], rule transmits_rseq_Cons [OF vec], rule transmits_rseq_Nil)
  then have "transmits (reloc_section utf8 idx relocs) (parse_section dec 0 fin obj) ?obj" for fin
    unfolding reloc_section_def parse_section_def [abs_def] parseCustomSection_def [abs_def] if_P [OF refl]
    by (intro transmits_rseq_Cons [OF transmits_put_name [of dec utf8, OF nm]]) simp
  from transmitsE [OF this new_encoder_inv sub] obtain bs where "finish sub = bs" "reads (parse_section dec 0 (pos r + length (finish sub)) obj) bs ?obj"
    by (metis append_Nil finish_new_encoder)
  with readsD [OF this(2) p] r o show "metadata obj' = (\<lambda>(ss, rs). (ss, AList.update ''reloc.CODE'' (map read_reloc relocs) rs)) (metadata obj)"
    by (auto simp: metadata_def)
qed simp

lemma parse_linking:
  assumes nb: "reads (rd_name dec) nb ''linking''" and vb: "reads rd_u32 vb 2" and szs: "reads rd_u32 szs n"
    and sy: "reads (rd_vec (parse_symbol dec)) sy syms"
    and p: "pos r \<le> length (data r)" and r: "rest r = (nb @ vb @ [8] @ szs @ sy) @ ys"
  shows "\<exists>r'. parse_section dec 0 (pos r + length (nb @ vb @ [8] @ szs @ sy)) obj r = Inr (obj\<lparr>obj_symbols := obj_symbols obj @ syms\<rparr>, r')"
proof -
  let ?r1 = "skip (length nb) r"
  let ?r2 = "skip (length vb) ?r1"
  let ?r3 = "skip (length [8 :: byte]) ?r2"
  let ?r4 = "skip (length szs) ?r3"
  let ?r5 = "skip (length sy) ?r4"
  let ?fin = "pos r + length (nb @ vb @ [8] @ szs @ sy)"
  have r0: "rest r = nb @ (vb @ [8] @ szs @ sy @ ys)" using r by simp
  have r1: "rest ?r1 = vb @ ([8] @ szs @ sy @ ys)" by (simp add: rest_skip r0)
  have r2: "rest ?r2 = [8] @ (szs @ sy @ ys)" unfolding rest_skip [of "length vb"] r1 by simp
  have r3: "rest ?r3 = szs @ (sy @ ys)" unfolding rest_skip [of "length [8]"] r2 by simp
  have r4: "rest ?r4 = sy @ ys" unfolding rest_skip [of "length szs"] r3 by simp
  note p1 = skip_in_range [OF p r0]
  note p2 = skip_in_range [OF p1 r1]
  note p3 = skip_in_range [OF p2 r2]
  note p4 = skip_in_range [OF p3 r3]
  have lt: "pos ?r2 < ?fin" by (simp add: skip_def)
  have fin: "\<not> pos ?r5 < ?fin" by (simp add: skip_def)
  let ?obj = "obj\<lparr>obj_symbols := obj_symbols obj @ syms\<rparr>"
  have "linking_loop dec ?fin ?obj ?r5 = Inr (?obj, ?r5)"
    by (subst linking_loop.simps) (simp only: fin if_False)
  moreover have "parseSymbolTable dec obj ?r4 = Inr (?obj, ?r5)"
    unfolding parseSymbolTable_def readsD [OF sy p4 r4] by simp
  ultimately have "linking_loop dec ?fin obj ?r2 = Inr (?obj, ?r5)"
    by (subst linking_loop.simps) (simp only: lt if_True readsD [OF reads_rd_byte p2 r2] readsD [OF szs p3 r3] rbind_simps Let_def prod.case refl simp_thms)
  then have "parse_section dec 0 ?fin obj r = Inr (?obj, ?r5)"
    by (simp only: parse_section_def parseCustomSection_def parseLinkingSection_def readsD [OF nb p r0] readsD [OF vb p1 r1] rbind_simps prod.case if_True if_False refl simp_thms)
  then show ?thesis ..
qed

lemma adds_linking_section:
  assumes nm: "dec (utf8 ''linking'') = ''linking''"
    and syms: "\<And>sm. sm \<in> set symbols \<Longrightarrow> symbol_wf sm \<and> (\<not> has_flag sm SYMBOL_UNDEFINED \<longrightarrow> dec (utf8 (sym_name sm)) = sym_name sm)"
  shows "adds_metadata dec (put_section 0 (linking_section utf8 symbols)) (\<lambda>(ss, rs). (ss @ map read_symbol symbols, rs))"
proof (rule adds_section)
  fix sub r ys obj obj' r'
  assume sub: "linking_section utf8 symbols new_encoder = Inr sub" and p: "pos r \<le> length (data r)" and r: "rest r = finish sub @ ys"
    and o: "parse_section dec 0 (pos r + length (finish sub)) obj r = Inr (obj', r')"
  from sub obtain e1 e2 sub2 e3 where e1: "put_name utf8 ''linking'' new_encoder = Inr e1" and e2: "put_u32 (int 2) e1 = Inr e2"
    and sub2: "put_vector symbols (put_symbol utf8) new_encoder = Inr sub2"
    and e3: "put_u32 (int (length (finish sub2))) (enc_byte 8 e2) = Inr e3" and e4: "put_bytes (finish sub2) e3 = Inr sub"
    by (auto simp: linking_section_def put_section_def put_byte_def rbind_Inr_iff)
  obtain nb where nb: "encoder_inv e1" "finish e1 = nb" "reads (rd_name dec) nb ''linking''"
    using transmits_put_name [of dec utf8, OF nm] new_encoder_inv e1 by (rule transmitsE) (simp add: finish_new_encoder)
  obtain vb where vb: "encoder_inv e2" "finish e2 = finish e1 @ vb" "reads rd_u32 vb 2"
    using transmits_put_u32 nb(1) e2 by (rule transmitsE)
  note b = enc_byte_props [OF vb(1), of 8]
  obtain szs where szs: "encoder_inv e3" "finish e3 = finish (enc_byte 8 e2) @ szs" "reads rd_u32 szs (length (finish sub2))"
    using transmits_put_u32 b(1) e3 by (rule transmitsE)
  have "transmits (put_vector symbols (put_symbol utf8)) (rd_vec (parse_symbol dec)) (map read_symbol symbols)"
    by (rule transmits_put_vector, rule transmits_put_symbol) (use syms in auto)
  then obtain sy where sy: "finish sub2 = sy" "reads (rd_vec (parse_symbol dec)) sy (map read_symbol symbols)"
    using new_encoder_inv sub2 by (rule transmitsE) (simp add: finish_new_encoder)
  have f: "finish sub = nb @ vb @ [8] @ szs @ sy"
    using put_bytes_Inr [OF e4 szs(1)] szs(2) b(2) vb(2) nb(2) sy(1) by simp
  obtain r2 where "parse_section dec 0 (pos r + length (finish sub)) obj r = Inr (obj\<lparr>obj_symbols := obj_symbols obj @ map read_symbol symbols\<rparr>, r2)"
    using parse_linking [OF nb(3) vb(3) szs(3) sy(2) p r [unfolded f]] unfolding f by blast
  with o show "metadata obj' = (\<lambda>(ss, rs). (ss @ map read_symbol symbols, rs)) (metadata obj)"
    by (auto simp: metadata_def)
qed simp

section \<open>Object files read back\<close>

lemma symbol_wf_add:
  "list_all symbol_wf (fst sp) \<Longrightarrow> kind \<in> {SYMTAB_FUNCTION, SYMTAB_GLOBAL, SYMTAB_EVENT}
   \<Longrightarrow> flags \<in> {SYMBOL_UNDEFINED, SYMBOL_EXPORTED, SYMBOL_BINDING_LOCAL} \<Longrightarrow> list_all symbol_wf (fst (add_symbol kind nm flags sp))"
  by (cases sp) (simp add: add_symbol_def symbol_wf_def)

lemma symbol_wf_imported:
  "list_all symbol_wf (fst sp) \<Longrightarrow> kind \<in> {SYMTAB_FUNCTION, SYMTAB_GLOBAL, SYMTAB_EVENT}
   \<Longrightarrow> list_all symbol_wf (fst (add_imported kind k imps sp))"
  unfolding add_imported_def by (induction imps arbitrary: sp) (simp_all add: symbol_wf_add)

lemma symbol_wf_defined:
  "list_all symbol_wf (fst sp) \<Longrightarrow> kind \<in> {SYMTAB_FUNCTION, SYMTAB_GLOBAL, SYMTAB_EVENT}
   \<Longrightarrow> list_all symbol_wf (fst (add_defined kind prefix exported names sp))"
  unfolding add_defined_def
proof (induction names arbitrary: sp)
  case (Cons nm names)
  then show ?case by (cases sp) (simp add: symbol_wf_add)
qed simp

lemma symbol_table_wf: "symbol_table m = (symbols, maps) \<Longrightarrow> list_all symbol_wf symbols"
proof -
  assume tab: "symbol_table m = (symbols, maps)"
  have wf: "list_all symbol_wf s' \<and> (s' = s'' \<longrightarrow> True)"
    if "add_defined kind prefix ex names (add_imported kind k imps (s, Map.empty, 0)) = (s', t, n)"
      "list_all symbol_wf s" "kind \<in> {SYMTAB_FUNCTION, SYMTAB_GLOBAL, SYMTAB_EVENT}"
    for kind prefix ex names k imps s s' s'' t n
    using symbol_wf_defined [OF symbol_wf_imported [of "(s, Map.empty, 0)"]] that by (metis fst_conv)
  from tab show ?thesis
    unfolding symbol_table_def Let_def by (auto split: prod.splits dest!: wf)
qed

lemma reloc_ok_type: "reloc_ok maps code r \<Longrightarrow> rl_type r \<notin> set RELOC_HAS_ADDEND"
  by (auto simp: reloc_ok_def operand_of_def symbol_of_def RELOC_HAS_ADDEND_def reloc_consts split: if_splits)

text \<open>The relocations of the code section.\<close>

definition object_relocs :: "wasm_module \<Rightarrow> emit_error + relocation list" where
  "object_relocs m = (if m_functions m = [] then Inr []
     else map_sum id snd (object_code (snd (symbol_table m)) (m_functions m) (new_encoder, [])))"

text \<open>The names in the metadata, which \<open>TextDecoder\<close> must take back from what \<open>TextEncoder\<close> wrote.\<close>

definition written_names :: "wasm_module \<Rightarrow> string list" where
  "written_names m = ''reloc.CODE'' # ''linking''
     # map sym_name (filter (\<lambda>sm. \<not> has_flag sm SYMBOL_UNDEFINED) (fst (symbol_table m)))"

lemma adds_object_sections:
  "adds_metadata dec (each (\<lambda>(c, sid, content). section_if c sid content) (object_sections utf8 maps m)) id"
proof (rule meta.loop)
  fix x
  assume "x \<in> set (object_sections utf8 maps m)"
  then have sid: "(word_of_int (fst (snd x)) :: byte) \<noteq> 0" by (auto simp: object_sections_def)
  show "adds_metadata dec (case x of (c, sid, content) \<Rightarrow> section_if c sid content) id"
    using adds_plain_section [OF sid] by (cases x) (simp add: section_if_def adds_metadata_Inr)
qed

lemma object_code_section_Inr:
  assumes "object_code_section maps m (e, []) = Inr (e', relocs)" and "maps = snd (symbol_table m)"
  shows "object_relocs m = Inr relocs \<and> list_all (\<lambda>r. rl_type r \<notin> set RELOC_HAS_ADDEND) relocs
     \<and> (m_functions m = [] \<longrightarrow> relocs = [] \<and> e' = e)
     \<and> (m_functions m \<noteq> [] \<longrightarrow> (\<exists>bs. rseq [put_byte 10, put_u32 (int (length bs)), put_bytes bs] e = Inr e'))"
proof (cases "m_functions m = []")
  case True
  with assms show ?thesis by (simp add: object_code_section_def object_relocs_def)
next
  case False
  then obtain code where c: "object_code maps (m_functions m) (new_encoder, []) = Inr (code, relocs)"
    and w: "rseq [put_byte 10, put_u32 (int (length (finish code))), put_bytes (finish code)] e = Inr e'"
    using assms(1) by (auto simp: object_code_section_def Let_def rbind_Inr_iff simp del: rseq_simps)
  from object_code_relocs [OF c] have "list_all (\<lambda>r. rl_type r \<notin> set RELOC_HAS_ADDEND) relocs"
    by (auto simp: list_all_iff dest: reloc_ok_type)
  with False c w assms(2) show ?thesis by (auto simp: object_relocs_def simp del: rseq_simps)
qed

lemma adds_code_bytes:
  "adds_metadata dec (\<lambda>s. if noCode then Inr s else rseq [put_byte 10, put_u32 (int (length code)), put_bytes code] s) id"
proof (cases noCode)
  case False
  have "adds_metadata dec (rseq [put_byte 10, put_u32 (int (length code)), put_bytes code]) id"
    by (rule adds_section_bytes [of 10 10]) (use parse_section_metadata [of 10] in auto)
  with False show ?thesis by (simp only: if_False)
qed (simp add: adds_metadata_Inr)

lemma adds_reloc_if:
  assumes "dec (utf8 ''reloc.CODE'') = ''reloc.CODE''" and "list_all (\<lambda>r. rl_type r \<notin> set RELOC_HAS_ADDEND) relocs"
    and "relocs \<noteq> [] \<longrightarrow> hasCode"
  shows "adds_metadata dec (section_if (relocs \<noteq> [] \<and> hasCode) 0 (reloc_section utf8 n relocs))
    (\<lambda>(ss, rs). (ss, if relocs = [] then rs else AList.update ''reloc.CODE'' (map read_reloc relocs) rs))"
    (is "adds_metadata dec ?w ?f")
proof (cases "relocs = []")
  case True
  then have f: "?f = id" by auto
  show ?thesis unfolding f using True by (simp add: section_if_def adds_metadata_Inr)
next
  case False
  with assms show ?thesis
    using adds_reloc_section [of dec utf8 relocs n] by (simp only: section_if_def simp_thms if_True if_False)
qed

lemma emitObject_metadata:
  assumes em: "emitObject utf8 m = Inr bs" and names: "\<forall>s\<in>set (written_names m). dec (utf8 s) = s"
    and parse: "parseObject dec nm bs = Inr obj"
  shows "\<exists>relocs. object_relocs m = Inr relocs \<and> obj_symbols obj = map read_symbol (fst (symbol_table m))
     \<and> obj_relocations obj = (if relocs = [] then [] else [(''reloc.CODE'', map read_reloc relocs)])"
proof -
  obtain symbols maps where tab: "symbol_table m = (symbols, maps)" by fastforce
  let ?h = "[0x00, 0x61, 0x73, 0x6d, 0x01, 0x00, 0x00, 0x00] :: byte list"
  let ?e = "enc_bytes [0x01, 0x00, 0x00, 0x00] (enc_bytes [0x00, 0x61, 0x73, 0x6d] new_encoder)"
  let ?n = "length (filter fst (object_sections utf8 maps m))"
  have e: "encoder_inv ?e" "finish ?e = ?h" by (simp_all add: enc_bytes_props new_encoder_inv finish_new_encoder)
  from em tab obtain e1 e2 e3 relocs where
      e1: "each (\<lambda>(c, sid, content). section_if c sid content) (object_sections utf8 maps m) ?e = Inr e1"
    and e2: "object_code_section maps m (e1, []) = Inr (e2, relocs)"
    and e3: "rseq [section_if (relocs \<noteq> [] \<and> m_functions m \<noteq> []) 0 (reloc_section utf8 ?n relocs), put_section 0 (linking_section utf8 symbols)] e2 = Inr e3"
    and bs: "bs = finish e3"
    unfolding emitObject_def tab Let_def prod.case by (auto simp: rbind_Inr_iff put_bytes_def)
  note c = object_code_section_Inr [OF e2, unfolded tab, simplified]
  let ?f = "\<lambda>(ss, rs). (ss, if relocs = [] then rs else AList.update ''reloc.CODE'' (map read_reloc relocs) rs)"
  let ?g = "\<lambda>(ss, rs). (ss @ map read_symbol symbols, rs)"
  obtain code where e2': "(if m_functions m = [] then Inr e1 else rseq [put_byte 10, put_u32 (int (length code)), put_bytes code] e1) = Inr e2"
    using c by (cases "m_functions m = []") auto
  have reloc: "adds_metadata dec (section_if (relocs \<noteq> [] \<and> m_functions m \<noteq> []) 0 (reloc_section utf8 ?n relocs)) ?f"
    by (rule adds_reloc_if) (use c names in \<open>auto simp: written_names_def\<close>)
  have link: "adds_metadata dec (put_section 0 (linking_section utf8 symbols)) ?g"
    by (rule adds_linking_section) (use names symbol_table_wf [OF tab] in \<open>auto simp: written_names_def tab list_all_iff\<close>)
  note all = adds_metadata_seq [OF adds_object_sections adds_metadata_seq [OF adds_code_bytes [of dec "m_functions m = []" code] adds_metadata_seq [OF reloc link]]]
  have w: "rbind (each (\<lambda>(c, sid, content). section_if c sid content) (object_sections utf8 maps m) ?e)
      (\<lambda>s. rbind (if m_functions m = [] then Inr s else rseq [put_byte 10, put_u32 (int (length code)), put_bytes code] s)
        (\<lambda>s. rbind (section_if (relocs \<noteq> [] \<and> m_functions m \<noteq> []) 0 (reloc_section utf8 ?n relocs) s)
          (put_section 0 (linking_section utf8 symbols)))) = Inr e3"
    using e3 unfolding e1 rbind_simps e2' by (simp only: rseq_Cons_fun rseq_Nil_fun rbind_Inr_right)
  obtain ws where ws: "finish e3 = ?h @ ws" and l: "\<And>r ys obj final. pos r \<le> length (data r) \<Longrightarrow> rest r = ws @ ys
      \<Longrightarrow> section_loop dec obj r = Inr final
      \<Longrightarrow> \<exists>obj'. section_loop dec obj' (skip (length ws) r) = Inr final \<and> metadata obj' = (((?g \<circ> ?f) \<circ> id) \<circ> id) (metadata obj)"
    by (rule adds_metadataE [OF all e(1) w]) (simp only: e(2))
  let ?r = "\<lparr>data = ?h @ ws, pos = 8\<rparr>"
  have "section_loop dec (empty_object nm) ?r = Inr obj"
    using parse by (simp add: bs ws parseObject_def rd_bytes_def)
  from l [OF _ _ this, of "[]"] obtain obj' where o: "section_loop dec obj' (skip (length ws) ?r) = Inr obj"
    "metadata obj' = (((?g \<circ> ?f) \<circ> id) \<circ> id) (metadata (empty_object nm))" by (auto simp: rest_def)
  moreover have "section_loop dec obj' (skip (length ws) ?r) = Inr obj'" by (rule section_loop_end) (simp add: skip_def)
  ultimately show ?thesis using c by (auto simp: metadata_def empty_object_def tab)
qed

text \<open>
  C23. The symbol maps of an object file are sound and complete: a function handle, live or stable, has a
  symbol exactly when it denotes a function of the module, and the symbol is a function symbol with the
  absolute index of that handle; the same for globals and tags with their indices.
\<close>

theorem symbol_table_sound:
  assumes "handles_ok m" and "symbol_table m = (symbols, maps)"
  shows "functions_ok m symbols maps
    \<and> space_total symbols (globalIdxToSymIdx maps) SYMTAB_GLOBAL (count_imports GlobalKind m + length (m_globals m))
    \<and> space_total symbols (tagIdxToSymIdx maps) SYMTAB_EVENT (count_imports TagKind m + length (m_tags m))"
  using symbol_table_ok [OF assms(2)] assms(1) by blast

text \<open>One object imports the function \<open>f\<close> and calls it from an exported \<open>g\<close>, the other one exports \<open>f\<close>.\<close>

definition empty_module :: wasm_module where
  "empty_module = \<lparr>m_types = [], m_canonicalRecGroup = None, m_imports = [], m_functions = [], m_exports = [], m_tables = [],
     m_elements = [], m_globals = [], m_tags = [], m_declaredFuncRefs = [], m_funcOrdinalToPosition = [], m_memories = [],
     m_dataSegments = [], m_startFuncIdx = None\<rparr>"

definition calling_module :: wasm_module where
  "calling_module = empty_module\<lparr>m_types := [FuncType [] []],
     m_imports := [\<lparr>im_module = ''env'', im_name = ''f'', im_desc = ImportFunc 0\<rparr>],
     m_functions := [\<lparr>fn_name = ''g'', fn_typeIdx = 0, fn_locals = [], fn_body = [(CallOp ''call'' 0, None)]\<rparr>],
     m_exports := [\<lparr>ex_name = ''g'', ex_kind = FuncKind, ex_index = 1\<rparr>], m_funcOrdinalToPosition := [Some 0]\<rparr>"

definition called_module :: wasm_module where
  "called_module = empty_module\<lparr>m_types := [FuncType [] []],
     m_functions := [\<lparr>fn_name = ''f'', fn_typeIdx = 0, fn_locals = [], fn_body = [(Op ''nop'', None)]\<rparr>],
     m_exports := [\<lparr>ex_name = ''f'', ex_kind = FuncKind, ex_index = 0\<rparr>]\<rparr>"

text \<open>The bytes before the code section, the contents of that section, and the bytes behind it.\<close>

definition caller_head :: "byte list" where
  "caller_head = [0, 97, 115, 109, 1, 0, 0, 0, 1, 4, 1, 96, 0, 0, 2, 9, 1, 3, 101, 110, 118, 1, 102, 0, 0, 3, 2, 1, 0, 7, 5, 1, 1, 103, 0, 1]"

definition caller_code :: "byte list" where
  "caller_code = [1, 4, 0, 16, 0, 11]"

definition caller_tail :: "byte list" where
  "caller_tail = [0, 16, 10, 114, 101, 108, 111, 99, 46, 67, 79, 68, 69, 4, 1, 0, 4, 0,
     0, 20, 7, 108, 105, 110, 107, 105, 110, 103, 2, 8, 9, 2, 0, 16, 0, 0, 32, 1, 1, 103]"

definition caller_relocs :: "relocation list" where
  "caller_relocs = [\<lparr>rl_type = 0, rl_offset = 4, rl_symbolIndex = 0\<rparr>]"

definition caller_bytes :: "byte list" where
  "caller_bytes = caller_head @ [10, 6] @ caller_code @ caller_tail"

definition called_head :: "byte list" where
  "called_head = [0, 97, 115, 109, 1, 0, 0, 0, 1, 4, 1, 96, 0, 0, 3, 2, 1, 0, 7, 5, 1, 1, 102, 0, 0]"

definition called_code :: "byte list" where
  "called_code = [1, 3, 0, 1, 11]"

definition called_tail :: "byte list" where
  "called_tail = [0, 17, 7, 108, 105, 110, 107, 105, 110, 103, 2, 8, 6, 1, 0, 32, 0, 1, 102]"

definition called_bytes :: "byte list" where
  "called_bytes = called_head @ [10, 5] @ called_code @ called_tail"

definition read_or_empty :: "byte list \<Rightarrow> parsed_object" where
  "read_or_empty bs = (case parseObject ascii_decode ''o'' bs of Inr obj \<Rightarrow> obj | Inl _ \<Rightarrow> empty_object ''o'')"

lemma emitObject_stages:
  assumes "rseq [put_bytes [0x00, 0x61, 0x73, 0x6d], put_bytes [0x01, 0x00, 0x00, 0x00],
      each (\<lambda>(c, sid, content). section_if c sid content) (object_sections utf8 (snd (symbol_table m)) m)] new_encoder = Inr e1"
    and "m_functions m \<noteq> []" and "object_code (snd (symbol_table m)) (m_functions m) (new_encoder, []) = Inr (code, relocs)"
    and "rseq [put_byte 10, put_u32 (int (length (finish code))), put_bytes (finish code)] e1 = Inr e2"
    and "rseq [section_if (relocs \<noteq> [] \<and> m_functions m \<noteq> []) 0
         (reloc_section utf8 (length (filter fst (object_sections utf8 (snd (symbol_table m)) m))) relocs),
       put_section 0 (linking_section utf8 (fst (symbol_table m)))] e2 = Inr e3"
  shows "emitObject utf8 m = Inr (finish e3)"
  using assms unfolding emitObject_def object_code_section_def Let_def case_prod_unfold
  by (simp del: rseq_simps)

lemma caller_stages:
  "rseq [put_bytes [0x00, 0x61, 0x73, 0x6d], put_bytes [0x01, 0x00, 0x00, 0x00],
     each (\<lambda>(c, sid, content). section_if c sid content) (object_sections ascii_encode (snd (symbol_table calling_module)) calling_module)] new_encoder
     = Inr (written caller_head)"
  "m_functions calling_module \<noteq> []"
  "object_code (snd (symbol_table calling_module)) (m_functions calling_module) (new_encoder, []) = Inr (written caller_code, caller_relocs)"
  "rseq [put_byte 10, put_u32 (int (length (finish (written caller_code)))), put_bytes (finish (written caller_code))] (written caller_head)
     = Inr (written (caller_head @ [10, 6] @ caller_code))"
  "rseq [section_if (caller_relocs \<noteq> [] \<and> m_functions calling_module \<noteq> []) 0
       (reloc_section ascii_encode (length (filter fst (object_sections ascii_encode (snd (symbol_table calling_module)) calling_module))) caller_relocs),
     put_section 0 (linking_section ascii_encode (fst (symbol_table calling_module)))] (written (caller_head @ [10, 6] @ caller_code))
     = Inr (written caller_bytes)"
  "finish (written caller_bytes) = caller_bytes"
  by code_simp+

lemma called_stages:
  "rseq [put_bytes [0x00, 0x61, 0x73, 0x6d], put_bytes [0x01, 0x00, 0x00, 0x00],
     each (\<lambda>(c, sid, content). section_if c sid content) (object_sections ascii_encode (snd (symbol_table called_module)) called_module)] new_encoder
     = Inr (written called_head)"
  "m_functions called_module \<noteq> []"
  "object_code (snd (symbol_table called_module)) (m_functions called_module) (new_encoder, []) = Inr (written called_code, [])"
  "rseq [put_byte 10, put_u32 (int (length (finish (written called_code)))), put_bytes (finish (written called_code))] (written called_head)
     = Inr (written (called_head @ [10, 5] @ called_code))"
  "rseq [section_if (([] :: relocation list) \<noteq> [] \<and> m_functions called_module \<noteq> []) 0
       (reloc_section ascii_encode (length (filter fst (object_sections ascii_encode (snd (symbol_table called_module)) called_module))) []),
     put_section 0 (linking_section ascii_encode (fst (symbol_table called_module)))] (written (called_head @ [10, 5] @ called_code))
     = Inr (written called_bytes)"
  "finish (written called_bytes) = called_bytes"
  by code_simp+

lemma emitted_bytes:
  "emitObject ascii_encode calling_module = Inr caller_bytes" "emitObject ascii_encode called_module = Inr called_bytes"
  using emitObject_stages [OF caller_stages(1-5)] emitObject_stages [OF called_stages(1-5)]
  by (simp_all only: caller_stages(6) called_stages(6))

lemma parsed_bytes:
  "parseObject ascii_decode ''o'' caller_bytes = Inr (read_or_empty caller_bytes)"
  "parseObject ascii_decode ''o'' called_bytes = Inr (read_or_empty called_bytes)"
proof -
  have "case parseObject ascii_decode ''o'' caller_bytes of Inr bs \<Rightarrow> True | Inl _ \<Rightarrow> False"
    "case parseObject ascii_decode ''o'' called_bytes of Inr bs \<Rightarrow> True | Inl _ \<Rightarrow> False" by code_simp+
  then show "parseObject ascii_decode ''o'' caller_bytes = Inr (read_or_empty caller_bytes)"
    "parseObject ascii_decode ''o'' called_bytes = Inr (read_or_empty called_bytes)"
    by (auto simp: read_or_empty_def split: sum.splits)
qed

lemma sample_names:
  "\<forall>s\<in>set (written_names calling_module). ascii_decode (ascii_encode s) = s"
  "\<forall>s\<in>set (written_names called_module). ascii_decode (ascii_encode s) = s"
  by code_simp+

theorem symbol_table_sound_witness:
  "handles_ok calling_module \<and> functions_ok calling_module (fst (symbol_table calling_module)) (snd (symbol_table calling_module))
    \<and> funcIdxToSymIdx (snd (symbol_table calling_module)) (STABLE_FUNC_BASE + 0) = Some 1"
proof -
  have h: "handles_ok calling_module" by code_simp
  have "funcIdxToSymIdx (snd (symbol_table calling_module)) (STABLE_FUNC_BASE + 0) = Some 1" by code_simp
  then show ?thesis
    using symbol_table_sound [OF h, of "fst (symbol_table calling_module)" "snd (symbol_table calling_module)"] h by simp
qed

text \<open>
  C4. Whenever the reader accepts an object file that \<open>emitObject\<close> wrote, it finds exactly the symbols of the
  symbol table and exactly the relocations of the code section, with one loss: the name of an
  undefined symbol, which the writer leaves out and the reader replaces by the empty string.
\<close>

theorem emitObject_read_back:
  assumes "emitObject utf8 m = Inr bs" and "\<forall>s\<in>set (written_names m). dec (utf8 s) = s"
    and "parseObject dec nm bs = Inr obj"
  shows "\<exists>relocs. object_relocs m = Inr relocs \<and> obj_symbols obj = map read_symbol (fst (symbol_table m))
     \<and> obj_relocations obj = (if relocs = [] then [] else [(''reloc.CODE'', map read_reloc relocs)])"
  using assms by (rule emitObject_metadata)

theorem emitObject_read_back_witness:
  "obj_symbols (read_or_empty caller_bytes) = map read_symbol (fst (symbol_table calling_module))
    \<and> map sym_name (obj_symbols (read_or_empty caller_bytes)) = ['''', ''g'']"
proof -
  have "map (sym_name \<circ> read_symbol) (fst (symbol_table calling_module)) = ['''', ''g'']" by code_simp
  then show ?thesis using emitObject_read_back [OF emitted_bytes(1) sample_names(1) parsed_bytes(1)] by auto
qed

section \<open>Linking object files\<close>

text \<open>The object \<open>obj\<close> was read from what the object writer made of \<open>m\<close>.\<close>

definition read_from :: "(string \<Rightarrow> byte list) \<Rightarrow> (byte list \<Rightarrow> string) \<Rightarrow> parsed_object \<Rightarrow> bool" where
  "read_from utf8 dec obj \<longleftrightarrow> (\<exists>m bs nm. emitObject utf8 m = Inr bs \<and> (\<forall>s\<in>set (written_names m). dec (utf8 s) = s)
     \<and> parseObject dec nm bs = Inr obj)"

lemma read_from_needs: "read_from utf8 dec obj \<Longrightarrow> sm \<in> set (obj_symbols obj) \<Longrightarrow> \<not> needs_resolution sm"
  by (auto simp: read_from_def needs_resolution_def read_symbol_def dest!: emitObject_metadata split: if_splits)

lemma unresolved_empty:
  assumes "\<forall>obj\<in>set objects. read_from utf8 dec obj"
  shows "resolved (resolveSymbols objects) = Map.empty"
proof (rule ext)
  fix k :: "nat \<times> nat"
  obtain i s where k: "k = (i, s)" by fastforce
  have "\<not> needs_resolution sm" if "symbol_at objects i s sm" for sm
    using that assms read_from_needs [of utf8 dec "objects ! i" sm] by (auto simp: symbol_at_def)
  then show "resolved (resolveSymbols objects) k = None"
    using resolved_iff [of objects i s] unfolding k by (metis not_Some_eq)
qed

lemma no_unresolved_error:
  assumes "\<forall>obj\<in>set objects. read_from utf8 dec obj"
  shows "errors (resolveSymbols objects) = duplicate_errors objects (definedSymbols objects)"
proof -
  have "\<not> needs_resolution sm" if "(i, s, sm) \<in> set (all_symbols objects)" for i s sm
    using that assms read_from_needs [of utf8 dec "objects ! i" sm] by (auto simp: in_all_symbols symbol_at_def)
  then show ?thesis by (auto simp: errors_resolveSymbols filter_empty_conv)
qed

text \<open>
  C27. Among object files of the project's own writer the resolver resolves no symbol at all, even when an import of
  one is exported by another, and reports no unresolved one: its only errors are duplicates.
\<close>

theorem own_objects_unresolved:
  assumes "\<forall>obj\<in>set objects. read_from utf8 dec obj"
  shows "resolved (resolveSymbols objects) = Map.empty
    \<and> errors (resolveSymbols objects) = duplicate_errors objects (definedSymbols objects)"
  using unresolved_empty [OF assms] no_unresolved_error [OF assms] by simp

lemma sample_read_from:
  "read_from ascii_encode ascii_decode (read_or_empty caller_bytes)"
  "read_from ascii_encode ascii_decode (read_or_empty called_bytes)"
  using emitted_bytes sample_names parsed_bytes unfolding read_from_def by blast+

theorem own_objects_unresolved_witness:
  "resolved (resolveSymbols [read_or_empty caller_bytes, read_or_empty called_bytes]) = Map.empty
    \<and> errors (resolveSymbols [read_or_empty caller_bytes, read_or_empty called_bytes]) = []"
proof -
  have "duplicate_errors [read_or_empty caller_bytes, read_or_empty called_bytes]
      (definedSymbols [read_or_empty caller_bytes, read_or_empty called_bytes]) = []" by code_simp
  with own_objects_unresolved [of "[read_or_empty caller_bytes, read_or_empty called_bytes]" ascii_encode ascii_decode]
  show ?thesis using sample_read_from by simp
qed

end
