(* ===== verification/SourceMap.thy ===== *)
theory SourceMap
  imports Prelude "HOL-Library.Word"
begin

unbundle bit_operations_syntax

text \<open>
  The source-map writer of \<open>src/src/emit/sourcemap.ts\<close>: Base64 VLQ numbers (the 32-bit shifts of
  JavaScript are those of \<open>32 word\<close>, its numbers are integers), the decoder of a mappings string and
  \<open>generateSourceMap\<close>. A number survives the encoding exactly when its magnitude is below \<open>2^31\<close>, and a
  consumer that adds up the deltas of a map reads back the entries it was made from.
\<close>

section \<open>Base64 VLQ\<close>

datatype sourcemap_error = InvalidCharacter char

definition BASE64_CHARS :: string where
  "BASE64_CHARS = ''ABCDEFGHIJKLMNOPQRSTUVWXYZabcdefghijklmnopqrstuvwxyz0123456789+/''"

function vlq_digits :: "32 word \<Rightarrow> string" where
  "vlq_digits vlq =
     (let digit = vlq AND 0x1f; vlq' = drop_bit 5 vlq;
          digit' = (if vlq' > 0 then digit OR 0x20 else digit)
      in BASE64_CHARS ! unat digit' # (if vlq' > 0 then vlq_digits vlq' else []))"
  by pat_completeness auto

text \<open>\<open>String.prototype.indexOf\<close> of one character, none for \<open>-1\<close>.\<close>

definition digit_of :: "char \<Rightarrow> nat option" where
  "digit_of c = (let i = length (takeWhile (\<lambda>d. d \<noteq> c) BASE64_CHARS) in if i < length BASE64_CHARS then Some i else None)"

fun decode_loop :: "string \<Rightarrow> 32 word \<Rightarrow> nat \<Rightarrow> sourcemap_error + (32 word \<times> string)" where
  "decode_loop [] vlq shift = Inr (vlq, [])"
| "decode_loop (c # cs) vlq shift =
     (case digit_of c of
        None \<Rightarrow> Inl (InvalidCharacter c)
      | Some digit \<Rightarrow>
          let vlq' = vlq OR push_bit (shift mod 32) (of_nat digit AND 0x1f) in
          if (of_nat digit AND 0x20 :: 32 word) \<noteq> 0 then decode_loop cs vlq' (shift + 5) else Inr (vlq', cs))"

definition decodeVLQ :: "string \<Rightarrow> sourcemap_error + (int \<times> string)" where
  "decodeVLQ encoded = rbind (decode_loop encoded 0 0) (\<lambda>(vlq, rest).
     let value = uint (drop_bit 1 vlq) in Inr (if vlq AND 1 = 1 then - value else value, rest))"

termination vlq_digits
proof (relation "measure unat")
  fix vlq x xa xb :: "32 word"
  assume "xa = drop_bit 5 vlq" and "xa > 0"
  then have "vlq \<noteq> 0" by auto
  then have "unat vlq div 2 ^ 5 < unat vlq" by (simp add: unat_gt_0)
  moreover have "unat (drop_bit 5 vlq) = unat vlq div 2 ^ 5"
    unfolding unat_drop_bit_eq by (simp add: drop_bit_eq_div)
  ultimately show "(xa, vlq) \<in> measure unat" using \<open>xa = _\<close> by simp
qed simp

declare vlq_digits.simps [simp del]

definition encodeVLQ :: "int \<Rightarrow> string" where
  "encodeVLQ value =
     vlq_digits (if value < 0 then push_bit 1 (word_of_int (- value)) OR 1 else push_bit 1 (word_of_int value))"

lemma digit_of_BASE64: "d < 64 \<Longrightarrow> digit_of (BASE64_CHARS ! d) = Some d"
proof -
  have "\<forall>d\<in>set [0..<64]. digit_of (BASE64_CHARS ! d) = Some d" by code_simp
  then show "d < 64 \<Longrightarrow> digit_of (BASE64_CHARS ! d) = Some d" by simp
qed

lemma vlq_low: "unat (v AND 0x1f :: 32 word) < 32"
  using word_and_le1 [of v "0x1f"] by (simp add: word_le_nat_alt)

lemma vlq_continued: "(v AND 0x1f) OR 0x20 = (v AND 0x1f) + (0x20 :: 32 word)"
proof -
  have "(v AND 0x1f) AND 0x20 = (0 :: 32 word)" by (simp add: and.assoc)
  then show ?thesis using word_plus_and_or [of "v AND 0x1f" "0x20"] by simp
qed


text \<open>One digit read back: its five bits, and whether another one follows.\<close>

lemma digit_read:
  assumes "d = (if more then (v AND 0x1f) OR 0x20 else v AND 0x1f :: 32 word)"
  shows "digit_of (BASE64_CHARS ! unat d) = Some (unat d)" and "of_nat (unat d) AND 0x1f = v AND (0x1f :: 32 word)"
    and "(of_nat (unat d) AND 0x20 \<noteq> (0 :: 32 word)) = more"
proof -
  have "unat d < 64" using assms vlq_low [of v] by (auto simp: vlq_continued unat_word_ariths)
  then show "digit_of (BASE64_CHARS ! unat d) = Some (unat d)" by (rule digit_of_BASE64)
  show "of_nat (unat d) AND 0x1f = v AND (0x1f :: 32 word)"
    unfolding assms by (simp add: bit.conj_disj_distrib2 and.assoc)
  show "(of_nat (unat d) AND 0x20 \<noteq> (0 :: 32 word)) = more"
    unfolding assms by (simp add: bit.conj_disj_distrib2 and.assoc)
qed

lemma decode_vlq_digits:
  "shift < 32 \<Longrightarrow> drop_bit (32 - shift) v = 0 \<Longrightarrow> decode_loop (vlq_digits v @ rest) acc shift = Inr (acc OR push_bit shift v, rest)"
proof (induction v arbitrary: shift acc rule: vlq_digits.induct)
  case (1 v)
  have m: "shift mod 32 = shift" using "1.prems"(1) by simp
  have low: "(0x1f :: 32 word) = mask 5" by (simp add: mask_eq_exp_minus_1)
  have split: "push_bit shift v = push_bit shift (v AND mask 5) OR push_bit (shift + 5) (drop_bit 5 v)" by (rule push_bit_split_word)
  show ?case
  proof (cases "drop_bit 5 v = 0")
    case True
    then show ?thesis
      using digit_read [of _ False v, OF refl] split by (simp add: vlq_digits.simps [of v] Let_def m low)
  next
    case False
    have s: "shift + 5 < 32 \<and> drop_bit (32 - (shift + 5)) (drop_bit 5 v) = 0"
    proof (cases "shift + 5 < 32")
      case True
      then have "32 - (shift + 5) + 5 = 32 - shift" by simp
      then show ?thesis using True "1.prems"(2) by (simp add: drop_bit_drop_bit add.commute)
    next
      case c: False
      then have "drop_bit 5 v = drop_bit (5 - (32 - shift)) (drop_bit (32 - shift) v)"
        using "1.prems"(1) by (simp add: drop_bit_drop_bit)
      then show ?thesis using False "1.prems"(2) by simp
    qed
    have "decode_loop (vlq_digits v @ rest) acc shift = decode_loop (vlq_digits (drop_bit 5 v) @ rest) (acc OR push_bit shift (v AND mask 5)) (shift + 5)"
      using False digit_read [of _ True v, OF refl]
      by (simp add: vlq_digits.simps [of v] Let_def m low word_gt_0)
    also have "\<dots> = Inr ((acc OR push_bit shift (v AND mask 5)) OR push_bit (shift + 5) (drop_bit 5 v), rest)"
      by (rule "1.IH" [OF refl refl refl]) (use False s in \<open>auto simp: word_gt_0 simp del: drop_bit_drop_bit\<close>)
    finally show ?thesis unfolding split by (simp add: or.assoc)
  qed
qed

lemma push_bit_1_word:
  assumes "b = 0 \<or> b = (1 :: 32 word)"
  shows "drop_bit 1 (push_bit 1 w OR b) = take_bit 31 (w :: 32 word)" and "(push_bit 1 w OR b) AND 1 = b"
proof -
  have b: "bit b n \<longleftrightarrow> n = 0 \<and> b = 1" for n using assms by (auto simp: bit_1_iff)
  have p: "bit (push_bit 1 w) n \<longleftrightarrow> 1 \<le> n \<and> n < 32 \<and> bit w (n - 1)" for n
    by (simp only: bit_push_bit_iff possible_bit_word) auto
  show "drop_bit 1 (push_bit 1 w OR b) = take_bit 31 w"
    by (rule bit_word_eqI) (simp only: bit_drop_bit_eq comp_def bit_or_iff p b bit_take_bit_iff, auto)
  show "(push_bit 1 w OR b) AND 1 = b"
    by (rule bit_word_eqI) (simp only: bit_and_iff bit_or_iff p b bit_1_iff, auto)
qed

lemma decode_encodeVLQ:
  "decodeVLQ (encodeVLQ v @ rest) = Inr (if v < 0 then - (- v mod 2 ^ 31) else v mod 2 ^ 31, rest)"
proof -
  have u: "uint (take_bit 31 (word_of_int n :: 32 word)) = n mod 2 ^ 31" for n
    unfolding unsigned_take_bit_eq unsigned_of_int by (simp add: take_bit_eq_mod mod_mod_cancel)
  have d: "decode_loop (vlq_digits w @ rest) 0 0 = Inr (w, rest)" for w
    using decode_vlq_digits [of 0 w rest 0] by simp
  show ?thesis
    using push_bit_1_word [of 0 "word_of_int v"] push_bit_1_word [of 1 "word_of_int (- v)"]
    by (simp add: decodeVLQ_def encodeVLQ_def d u Let_def del: of_int_minus word_of_int_minus)
qed

text \<open>
  C29. A number written as Base64 VLQ and read back in front of any text is the number itself exactly when
  its magnitude is below \<open>2^31\<close>; the shift of a larger one drops its upper bits.
\<close>

theorem vlq_roundtrip:
  "decodeVLQ (encodeVLQ v @ rest) = Inr (v, rest) \<longleftrightarrow> \<bar>v\<bar> < 2 ^ 31"
proof -
  have "n mod 2 ^ 31 = n \<longleftrightarrow> n < 2 ^ 31" if "0 \<le> n" for n :: int
    using that by (metis mod_pos_pos_trivial pos_mod_bound zero_less_numeral zero_less_power)
  then show ?thesis unfolding decode_encodeVLQ by auto
qed

section \<open>Mappings\<close>

text \<open>\<open>String.prototype.split\<close> at a one-character separator.\<close>

fun split_at :: "char \<Rightarrow> string \<Rightarrow> string list" where
  "split_at sep [] = [[]]"
| "split_at sep (c # s) = (if c = sep then [] # split_at sep s else (c # hd (split_at sep s)) # tl (split_at sep s))"

lemma decode_loop_shorter: "decode_loop s vlq shift = Inr (v, rest) \<Longrightarrow> s \<noteq> [] \<Longrightarrow> length rest < length s"
proof (induction s vlq shift rule: decode_loop.induct)
  case (2 c cs vlq shift)
  then show ?case by (cases "cs = []") (fastforce simp: Let_def split: option.splits if_splits)+
qed simp

lemma decodeVLQ_shorter: "decodeVLQ s = Inr (v, rest) \<Longrightarrow> s \<noteq> [] \<Longrightarrow> length rest < length s"
  by (auto simp: decodeVLQ_def Let_def dest: decode_loop_shorter)

function decode_segment :: "string \<Rightarrow> sourcemap_error + int list" where
  "decode_segment remaining =
     (if remaining = [] then Inr []
      else rbind (decodeVLQ remaining) (\<lambda>(value, rest). rbind (decode_segment rest) (\<lambda>values. Inr (value # values))))"
  by pat_completeness auto
termination
  by (relation "measure length") (auto dest: decodeVLQ_shorter)

declare decode_segment.simps [simp del]

definition decode_line :: "string \<Rightarrow> sourcemap_error + int list list" where
  "decode_line line =
     (if line = [] then Inr []
      else rbind (rmap decode_segment (split_at CHR '','' line)) (\<lambda>segments. Inr (filter (\<lambda>values. values \<noteq> []) segments)))"

definition decodeMappings :: "string \<Rightarrow> sourcemap_error + int list list list" where
  "decodeMappings mappings = rmap decode_line (split_at CHR '';'' mappings)"

section \<open>Writing a source map\<close>

record source_entry =
  wasmOffset :: int
  src_file :: string
  src_line :: int
  src_column :: int

record source_map =
  sm_sources :: "string list"
  sm_sourcesContent :: "string option list"
  sm_mappings :: string

definition add_source :: "source_entry \<Rightarrow> (string \<rightharpoonup> nat) \<times> string list \<Rightarrow> (string \<rightharpoonup> nat) \<times> string list" where
  "add_source e = (\<lambda>(index, sources).
     if index (src_file e) = None then (index(src_file e \<mapsto> length sources), sources @ [src_file e]) else (index, sources))"

text \<open>The values of the previous segment: byte offset, source, line and column.\<close>

type_synonym position = "int \<times> int \<times> int \<times> int"

definition segment_values :: "(string \<rightharpoonup> nat) \<Rightarrow> source_entry \<Rightarrow> position" where
  "segment_values index e = (wasmOffset e, int (the (index (src_file e))), src_line e, src_column e)"

fun segments_from :: "(string \<rightharpoonup> nat) \<Rightarrow> position \<Rightarrow> source_entry list \<Rightarrow> string list" where
  "segments_from index prev [] = []"
| "segments_from index (prevOffset, prevIdx, prevLine, prevCol) (e # es) =
     (let srcIdx = int (the (index (src_file e))) in
      (encodeVLQ (wasmOffset e - prevOffset) @ encodeVLQ (srcIdx - prevIdx)
        @ encodeVLQ (src_line e - prevLine) @ encodeVLQ (src_column e - prevCol))
      # segments_from index (wasmOffset e, srcIdx, src_line e, src_column e) es)"

definition generateSourceMap :: "source_entry list \<Rightarrow> (string \<rightharpoonup> string) \<Rightarrow> source_map" where
  "generateSourceMap entries sourcesContent =
     (if entries = [] then \<lparr>sm_sources = [], sm_sourcesContent = [], sm_mappings = []\<rparr>
      else let sorted_entries = sort_key wasmOffset entries;
               (index, sources) = fold add_source sorted_entries (Map.empty, []) in
        \<lparr>sm_sources = sources, sm_sourcesContent = map sourcesContent sources,
         sm_mappings = join_with CHR '','' (segments_from index (0, 0, 0, 0) sorted_entries)\<rparr>)"

section \<open>What a consumer of the map reads\<close>

text \<open>Adding up the deltas of the segments; each has to have four values.\<close>

fun positions :: "position \<Rightarrow> int list list \<Rightarrow> position list option" where
  "positions prev [] = Some []"
| "positions (o', i, l, c) ([dO, dI, dL, dC] # segments) =
     map_option (\<lambda>ps. (o' + dO, i + dI, l + dL, c + dC) # ps) (positions (o' + dO, i + dI, l + dL, c + dC) segments)"
| "positions prev (segment # segments) = None"

definition read_back :: "source_map \<Rightarrow> source_entry list option" where
  "read_back sm =
     (case decodeMappings (sm_mappings sm) of
        Inr [segments] \<Rightarrow> map_option (map (\<lambda>(o', i, l, c).
          \<lparr>wasmOffset = o', src_file = sm_sources sm ! nat i, src_line = l, src_column = c\<rparr>)) (positions (0, 0, 0, 0) segments)
      | _ \<Rightarrow> None)"

lemma split_at_not_Nil [simp]: "split_at sep s \<noteq> []"
  by (induction s) auto

lemma split_at_append: "sep \<notin> set s \<Longrightarrow> split_at sep (s @ t) = (s @ hd (split_at sep t)) # tl (split_at sep t)"
  by (induction s) auto

lemma split_at_alone: "sep \<notin> set s \<Longrightarrow> split_at sep s = [s]"
  using split_at_append [of sep s "[]"] by simp

lemma split_at_join: "ss \<noteq> [] \<Longrightarrow> \<forall>s\<in>set ss. sep \<notin> set s \<Longrightarrow> split_at sep (join_with sep ss) = ss"
  by (induction sep ss rule: join_with.induct) (auto simp: split_at_alone split_at_append)

lemma set_join_with: "set (join_with sep ss) \<subseteq> insert sep (\<Union> (set ` set ss))"
  by (induction sep ss rule: join_with.induct) auto

lemma set_vlq_digits: "set (vlq_digits v) \<subseteq> set BASE64_CHARS"
proof (induction v rule: vlq_digits.induct)
  case (1 v)
  have "unat (v AND 0x1f) < length BASE64_CHARS" "unat ((v AND 0x1f) OR 0x20) < length BASE64_CHARS"
    using vlq_low [of v] by (simp_all add: vlq_continued unat_word_ariths BASE64_CHARS_def)
  then show ?case using 1 by (subst vlq_digits.simps) (auto simp: Let_def)
qed

lemma set_encodeVLQ: "set (encodeVLQ v) \<subseteq> set BASE64_CHARS"
  unfolding encodeVLQ_def by (rule set_vlq_digits)

lemma separators: "CHR '','' \<notin> set BASE64_CHARS" "CHR '';'' \<notin> set BASE64_CHARS"
  by code_simp+

lemma encodeVLQ_not_Nil [simp]: "encodeVLQ v \<noteq> []"
  unfolding encodeVLQ_def by (subst vlq_digits.simps) (simp add: Let_def)

lemma decode_segment_VLQ:
  "\<bar>v\<bar> < 2 ^ 31 \<Longrightarrow> decode_segment (encodeVLQ v @ rest) = rbind (decode_segment rest) (\<lambda>values. Inr (v # values))"
  using decode_encodeVLQ [of v rest] by (subst decode_segment.simps) auto

text \<open>The bounds under which every delta fits.\<close>

definition fits_position :: "position \<Rightarrow> bool" where
  "fits_position = (\<lambda>(o', i, l, c). list_all (\<lambda>v. 0 \<le> v \<and> v < 2 ^ 31) [o', i, l, c])"

fun deltas :: "position \<Rightarrow> position list \<Rightarrow> int list list" where
  "deltas prev [] = []"
| "deltas (o', i, l, c) ((o2, i2, l2, c2) # ps) = [o2 - o', i2 - i, l2 - l, c2 - c] # deltas (o2, i2, l2, c2) ps"

lemma decode_segments_from:
  assumes "fits_position prev" and "\<forall>e\<in>set es. fits_position (segment_values index e)"
  shows "rmap decode_segment (segments_from index prev es) = Inr (deltas prev (map (segment_values index) es))"
  using assms
proof (induction index prev es rule: segments_from.induct)
  case (2 index o' i l c e es)
  have d: "\<bar>x - y\<bar> < 2 ^ 31" if "0 \<le> x" "x < 2 ^ 31" "0 \<le> y" "y < 2 ^ 31" for x y :: int using that by simp
  have b: "\<bar>wasmOffset e - o'\<bar> < 2 ^ 31" "\<bar>int (the (index (src_file e))) - i\<bar> < 2 ^ 31" "\<bar>src_line e - l\<bar> < 2 ^ 31"
    "\<bar>src_column e - c\<bar> < 2 ^ 31"
    using "2.prems" by (auto simp: fits_position_def segment_values_def intro!: d)
  have "decode_segment (encodeVLQ (src_column e - c)) = Inr [src_column e - c]"
    using decode_segment_VLQ [OF b(4), of "[]"] by (simp add: decode_segment.simps [of "[]"])
  then have "decode_segment (encodeVLQ (wasmOffset e - o') @ encodeVLQ (int (the (index (src_file e))) - i)
      @ encodeVLQ (src_line e - l) @ encodeVLQ (src_column e - c))
      = Inr [wasmOffset e - o', int (the (index (src_file e))) - i, src_line e - l, src_column e - c]"
    unfolding decode_segment_VLQ [OF b(1)] decode_segment_VLQ [OF b(2)] decode_segment_VLQ [OF b(3)] by simp
  then show ?case using 2 by (simp add: segment_values_def Let_def)
qed simp

lemma positions_deltas: "positions prev (deltas prev ps) = Some ps"
  by (induction prev ps rule: deltas.induct) auto

text \<open>The index of a file is its place in the list of sources.\<close>

definition indexed :: "(string \<rightharpoonup> nat) \<times> string list \<Rightarrow> bool" where
  "indexed = (\<lambda>(index, sources). \<forall>f i. index f = Some i \<longrightarrow> i < length sources \<and> sources ! i = f)"

lemma add_source_indexed:
  assumes "indexed st"
  shows "indexed (add_source e st) \<and> src_file e \<in> dom (fst (add_source e st)) \<and> dom (fst st) \<subseteq> dom (fst (add_source e st))
    \<and> length (snd (add_source e st)) \<le> Suc (length (snd st))"
  using assms by (cases st) (fastforce simp: add_source_def indexed_def nth_append)

lemma fold_add_source:
  "indexed st \<Longrightarrow> indexed (fold add_source es st) \<and> src_file ` set es \<union> dom (fst st) \<subseteq> dom (fst (fold add_source es st))
    \<and> length (snd (fold add_source es st)) \<le> length es + length (snd st)"
proof (induction es arbitrary: st)
  case (Cons e es)
  note a = add_source_indexed [OF Cons.prems, of e]
  note ih = Cons.IH [OF conjunct1 [OF a]]
  let ?dom = "dom (fst (fold add_source es (add_source e st)))"
  have "dom (fst st) \<subseteq> ?dom" and "src_file e \<in> ?dom" and "src_file ` set es \<subseteq> ?dom" using a ih by blast+
  then have "src_file ` set (e # es) \<union> dom (fst st) \<subseteq> ?dom" by simp
  moreover have "length (snd (fold add_source es (add_source e st))) \<le> length (e # es) + length (snd st)" using a ih by simp
  ultimately show ?case using ih by simp
qed simp

definition entry_fits :: "source_entry \<Rightarrow> bool" where
  "entry_fits e \<longleftrightarrow> list_all (\<lambda>v. 0 \<le> v \<and> v < 2 ^ 31) [wasmOffset e, src_line e, src_column e]"

lemma read_back_generate:
  assumes "list_all entry_fits entries" and "int (length entries) < 2 ^ 31"
  shows "read_back (generateSourceMap entries contents) = Some (sort_key wasmOffset entries)"
proof (cases "entries = []")
  case True
  then show ?thesis by (simp add: generateSourceMap_def read_back_def decodeMappings_def decode_line_def)
next
  case False
  let ?es = "sort_key wasmOffset entries"
  obtain index sources where st: "fold add_source ?es (Map.empty, []) = (index, sources)" by fastforce
  have ix: "indexed (index, sources)" "src_file ` set ?es \<subseteq> dom index" "length sources \<le> length entries"
    using fold_add_source [of "(Map.empty, [])" ?es] st by (auto simp: indexed_def)
  have place: "the (index (src_file e)) < length sources \<and> sources ! the (index (src_file e)) = src_file e" if "e \<in> set ?es" for e
  proof -
    from ix(2) that obtain i where "index (src_file e) = Some i" by auto
    with ix(1) show ?thesis by (simp add: indexed_def)
  qed
  let ?segments = "segments_from index (0, 0, 0, 0) ?es"
  have seg: "\<forall>s\<in>set (segments_from index prev es). set s \<subseteq> set BASE64_CHARS \<and> s \<noteq> []" for prev es
    by (induction index prev es rule: segments_from.induct) (auto simp: Let_def dest: subsetD [OF set_encodeVLQ])
  have ne: "?segments \<noteq> []" using False by (cases ?es) (auto simp: Let_def dest: arg_cong [where f = length])
  have "set (join_with CHR '','' ?segments) \<subseteq> insert CHR '','' (set BASE64_CHARS)"
    using set_join_with [of "CHR '',''" ?segments] seg [of "(0, 0, 0, 0)" ?es] by blast
  then have "CHR '';'' \<notin> set (join_with CHR '','' ?segments)" using separators by (auto dest: subsetD)
  then have "decodeMappings (join_with CHR '','' ?segments) = rbind (decode_line (join_with CHR '','' ?segments)) (\<lambda>y. Inr [y])"
    by (simp add: decodeMappings_def split_at_alone)
  moreover have "split_at CHR '','' (join_with CHR '','' ?segments) = ?segments"
    using seg [of "(0, 0, 0, 0)" ?es] separators(1) by (intro split_at_join ne) blast
  moreover have "join_with CHR '','' ?segments \<noteq> []"
  proof
    assume "join_with CHR '','' ?segments = []"
    with calculation(2) have "?segments = [[]]" by simp
    with seg [of "(0, 0, 0, 0)" ?es] show False by simp
  qed
  moreover have "\<forall>e\<in>set ?es. fits_position (segment_values index e)"
    using assms place ix(3) by (fastforce simp: list_all_iff entry_fits_def fits_position_def segment_values_def)
  then have "rmap decode_segment ?segments = Inr (deltas (0, 0, 0, 0) (map (segment_values index) ?es))"
    by (intro decode_segments_from) (simp add: fits_position_def)
  moreover have "filter (\<lambda>values. values \<noteq> []) (deltas prev ps) = deltas prev ps" for prev ps
    by (induction prev ps rule: deltas.induct) auto
  ultimately have "decodeMappings (join_with CHR '','' ?segments) = Inr [deltas (0, 0, 0, 0) (map (segment_values index) ?es)]"
    by (simp add: decode_line_def)
  then show ?thesis
    using False place by (auto simp: generateSourceMap_def read_back_def st positions_deltas segment_values_def intro!: map_idI)
qed

text \<open>
  C28. A source map is read back: a consumer that decodes the mappings and adds up the deltas finds the
  entries in the order of their byte offsets, each with its own file, line and column, whenever these
  numbers and the number of entries are below \<open>2^31\<close>.
\<close>

theorem sourcemap_roundtrip:
  assumes "list_all entry_fits entries" and "int (length entries) < 2 ^ 31"
  shows "read_back (generateSourceMap entries contents) = Some (sort_key wasmOffset entries)"
  using assms by (rule read_back_generate)

definition sample_entries :: "source_entry list" where
  "sample_entries = [\<lparr>wasmOffset = 70, src_file = ''b.ts'', src_line = 3, src_column = 1\<rparr>,
     \<lparr>wasmOffset = 8, src_file = ''a.ts'', src_line = 12, src_column = 40\<rparr>,
     \<lparr>wasmOffset = 90, src_file = ''a.ts'', src_line = 2, src_column = 0\<rparr>]"

theorem sourcemap_roundtrip_witness:
  "sm_mappings (generateSourceMap sample_entries Map.empty) = ''QAYwC,8DCTvC,oBDDD''
   \<and> read_back (generateSourceMap sample_entries Map.empty) = Some (sort_key wasmOffset sample_entries)"
proof -
  have "sm_mappings (generateSourceMap sample_entries Map.empty) = ''QAYwC,8DCTvC,oBDDD''" by code_simp
  moreover have "list_all entry_fits sample_entries" by code_simp
  moreover have "int (length sample_entries) < 2 ^ 31" by (simp add: sample_entries_def)
  ultimately show ?thesis using sourcemap_roundtrip by blast
qed

end
