(* ===== verification/SourceMapWhole.thy ===== *)
theory SourceMapWhole
  imports BinaryEmit SourceMap
begin

text \<open>
  Compilation with a source map, the emit step of \<open>src/src/compiler.ts\<close>: the binary emitter, the map made
  from its entries, and the section that names the map. Shown: whoever reads the map back finds, for every
  instruction of a function body with a source position, the offset at which its bytes start in the
  finished file, and its position.
\<close>

definition emitSourceMappingURLSection :: "(string \<Rightarrow> byte list) \<Rightarrow> string \<Rightarrow> wasm_emitter" where
  "emitSourceMappingURLSection utf8 url =
     put_section 0 (rseq [put_name utf8 ''sourceMappingURL'', put_name utf8 url])"

definition flat_entry :: "source_map_entry \<Rightarrow> source_entry" where
  "flat_entry entry =
     \<lparr>wasmOffset = int (sme_wasmOffset entry), src_file = sp_file (sme_sourcePos entry),
      src_line = sp_line (sme_sourcePos entry), src_column = sp_column (sme_sourcePos entry)\<rparr>"

definition compile_with_source_map ::
    "bool \<Rightarrow> (string \<Rightarrow> byte list) \<Rightarrow> (string \<rightharpoonup> string) \<Rightarrow> string \<Rightarrow> wasm_module \<Rightarrow> emit_error + (byte list \<times> source_map)" where
  "compile_with_source_map skip utf8 sourcesContent url m =
     rbind (emitBinaryWithSourceMap skip utf8 m) (\<lambda>(binary, entries).
     rbind (emitSourceMappingURLSection utf8 url new_encoder) (\<lambda>urlSection.
       Inr (binary @ finish urlSection, generateSourceMap (map flat_entry entries) sourcesContent)))"

definition position_fits :: "source_pos \<Rightarrow> bool" where
  "position_fits p \<longleftrightarrow> 0 \<le> sp_line p \<and> sp_line p < 2 ^ 31 \<and> 0 \<le> sp_column p \<and> sp_column p < 2 ^ 31"

text \<open>The position of a marked instruction, and the entry of a source map that records it.\<close>

definition mark_position :: "marked_instr \<Rightarrow> source_pos" where
  "mark_position = (\<lambda>(ctx, i, p). p)"

definition recorded :: "byte list \<Rightarrow> marked_instr \<Rightarrow> source_entry \<Rightarrow> bool" where
  "recorded bytes k entry \<longleftrightarrow>
     points_in bytes k (nat (wasmOffset entry))
       \<lparr>sp_file = src_file entry, sp_line = src_line entry, sp_column = src_column entry\<rparr>"

lemma points_in_bound: "points_in bytes k off pos \<Longrightarrow> off \<le> length bytes \<and> pos = mark_position k"
  by (cases k) (auto simp: points_in_def starts_at_def mark_position_def)

lemma source_pos_eta [simp]: "\<lparr>sp_file = sp_file p, sp_line = sp_line p, sp_column = sp_column p\<rparr> = (p :: source_pos)"
  by (cases p) simp

lemma list_all2_set_right: "list_all2 P xs ys \<Longrightarrow> y \<in> set ys \<Longrightarrow> \<exists>x\<in>set xs. P x y"
  by (induction rule: list_all2_induct) auto

lemma compiled_source_map:
  assumes "compile_with_source_map skip utf8 sourcesContent url m = Inr (bytes, sm)"
    and "int (length bytes) < 2 ^ 31" and "int (length (module_marks (module_ctx skip m) m)) < 2 ^ 31"
    and "list_all (\<lambda>k. position_fits (mark_position k)) (module_marks (module_ctx skip m) m)"
  shows "\<exists>entries. read_back sm = Some (sort_key wasmOffset entries)
    \<and> list_all2 (recorded bytes) (module_marks (module_ctx skip m) m) entries"
proof -
  let ?marks = "module_marks (module_ctx skip m) m"
  obtain binary entries s where e: "emitBinaryWithSourceMap skip utf8 m = Inr (binary, entries)"
    and bytes: "bytes = binary @ finish s" and sm: "sm = generateSourceMap (map flat_entry entries) sourcesContent"
    using assms(1) by (auto simp: compile_with_source_map_def rbind_Inr_iff)
  have "list_all2 (\<lambda>k entry. points_in binary k (sme_wasmOffset entry) (sme_sourcePos entry)) ?marks entries"
    by (rule emitted_entries) (use e in \<open>simp add: emitBinaryWithSourceMap_def\<close>)
  then have pts: "list_all2 (\<lambda>k entry. points_in bytes k (sme_wasmOffset entry) (sme_sourcePos entry)) ?marks entries"
    unfolding bytes by (rule list_all2_mono) (use points_in_append [of binary _ _ _ "[]"] in simp)
  have "entry_fits (flat_entry entry)" if "entry \<in> set entries" for entry
  proof -
    obtain k where "k \<in> set ?marks" "points_in bytes k (sme_wasmOffset entry) (sme_sourcePos entry)"
      using list_all2_set_right [OF pts \<open>entry \<in> set entries\<close>] by blast
    then have "sme_wasmOffset entry \<le> length bytes" "position_fits (sme_sourcePos entry)"
      using points_in_bound [of bytes k "sme_wasmOffset entry" "sme_sourcePos entry"] assms(4) by (simp_all add: list_all_iff)
    with assms(2) show ?thesis by (simp add: entry_fits_def flat_entry_def position_fits_def)
  qed
  then have "read_back sm = Some (sort_key wasmOffset (map flat_entry entries))"
    unfolding sm by (intro read_back_generate)
      (use assms(3) list_all2_lengthD [OF pts] in \<open>auto simp: list_all_iff\<close>)
  moreover have "list_all2 (recorded bytes) ?marks (map flat_entry entries)"
    using pts by (simp add: list_all2_map2 recorded_def flat_entry_def)
  ultimately show ?thesis by blast
qed

text \<open>
  C3. The source map of a compilation leads back to the code: decoding it gives one entry for each
  instruction with a source position that stands at the top level of a function body, in the order of their
  offsets, with the position of that instruction and the offset at which its bytes start in the finished file.
  An instruction nested in a block, loop, if or try gets no entry, with a position or without: the emitter
  collects positions in the loop over the body only. Hypotheses: the binary, the number of entries and the lines
  and columns stay below \<open>2 ^ 31\<close>, the range that the 32-bit shifts of the encoding keep.
\<close>

theorem compile_source_map:
  assumes "compile_with_source_map skip utf8 sourcesContent url m = Inr (bytes, sm)"
    and "int (length bytes) < 2 ^ 31" and "int (length (module_marks (module_ctx skip m) m)) < 2 ^ 31"
    and "list_all (\<lambda>k. position_fits (mark_position k)) (module_marks (module_ctx skip m) m)"
  shows "\<exists>entries. read_back sm = Some (sort_key wasmOffset entries)
    \<and> list_all2 (recorded bytes) (module_marks (module_ctx skip m) m) entries"
  using assms by (rule compiled_source_map)

lemma marked_marks:
  "map mark_position (module_marks (module_ctx False marked_module) marked_module)
    = [\<lparr>sp_file = ''a.ts'', sp_line = 1, sp_column = 0\<rparr>, \<lparr>sp_file = ''a.ts'', sp_line = 2, sp_column = 0\<rparr>]"
  by (simp add: module_marks_def marked_module_def marks_of_def mark_position_def at_line_def)

lemma marked_url:
  "\<exists>s. emitSourceMappingURLSection ascii ''m'' new_encoder = Inr s \<and> length (finish s) = 21"
proof -
  have "map_sum id (\<lambda>s. length (finish s)) (emitSourceMappingURLSection ascii ''m'' new_encoder) = Inr 21" by code_simp
  then show ?thesis by (cases "emitSourceMappingURLSection ascii ''m'' new_encoder") auto
qed

theorem compile_source_map_witness:
  "\<exists>bytes sm entries. compile_with_source_map False ascii Map.empty ''m'' marked_module = Inr (bytes, sm)
    \<and> read_back sm = Some (sort_key wasmOffset entries)
    \<and> list_all2 (recorded bytes) (module_marks (module_ctx False marked_module) marked_module) entries"
proof -
  obtain s where s: "emitSourceMappingURLSection ascii ''m'' new_encoder = Inr s" "length (finish s) = 21"
    using marked_url by blast
  define binary where "binary = marked_head @ [10, 14] @ marked_code @ marked_names"
  obtain entries where e: "emitBinaryWithSourceMap False ascii marked_module = Inr (binary, entries)"
    using marked_emits binary_def by simp
  then have c: "compile_with_source_map False ascii Map.empty ''m'' marked_module
      = Inr (binary @ finish s, generateSourceMap (map flat_entry entries) Map.empty)"
    by (simp add: compile_with_source_map_def s)
  have len: "int (length (binary @ finish s)) < 2 ^ 31"
    by (simp add: binary_def s marked_head_def marked_code_def marked_names_def)
  have "length (module_marks (module_ctx False marked_module) marked_module) = 2"
    using arg_cong [OF marked_marks, of length] by simp
  then have n: "int (length (module_marks (module_ctx False marked_module) marked_module)) < 2 ^ 31" by simp
  have "list_all position_fits (map mark_position (module_marks (module_ctx False marked_module) marked_module))"
    unfolding marked_marks by (simp add: position_fits_def)
  then have p: "list_all (\<lambda>k. position_fits (mark_position k)) (module_marks (module_ctx False marked_module) marked_module)"
    by (simp add: list_all_iff)
  show ?thesis using compile_source_map [OF c len n p] c by blast
qed

end
