(* ===== verification/RegexBytecode.thy ===== *)
theory RegexBytecode
  imports Prelude
begin

text \<open>
  The instruction set of the standalone regular-expression engine,
  \<open>src/src/codegen/regex/bytecode.ts\<close>: the opcodes with their stable numbers, the compiled
  program and the flag bits. A program is the flat list of numbers the source emits, three per
  instruction.
\<close>

section \<open>Opcodes\<close>

datatype re_op =
    CHAR_op | ANY | CLASS | SPLIT | JMP | SAVE | MATCH | BOL | EOL | CHARI | WBOUND | BACKREF
  | LOOKAROUND | PROGRESS | CLEAR | CPCLASS

fun op_code :: "re_op \<Rightarrow> nat" where
  "op_code CHAR_op = 0"
| "op_code ANY = 1"
| "op_code CLASS = 2"
| "op_code SPLIT = 3"
| "op_code JMP = 4"
| "op_code SAVE = 5"
| "op_code MATCH = 6"
| "op_code BOL = 7"
| "op_code EOL = 8"
| "op_code CHARI = 9"
| "op_code WBOUND = 10"
| "op_code BACKREF = 11"
| "op_code LOOKAROUND = 12"
| "op_code PROGRESS = 13"
| "op_code CLEAR = 14"
| "op_code CPCLASS = 15"

definition all_ops :: "re_op list" where
  "all_ops = [CHAR_op, ANY, CLASS, SPLIT, JMP, SAVE, MATCH, BOL, EOL, CHARI, WBOUND, BACKREF,
     LOOKAROUND, PROGRESS, CLEAR, CPCLASS]"

definition op_of :: "nat \<Rightarrow> re_op option" where
  "op_of n = find (\<lambda>p. op_code p = n) all_ops"

type_synonym re_instr = "re_op \<times> nat \<times> nat"

definition INSTR_WIDTH :: nat where
  "INSTR_WIDTH = 3"

record compiled_regex =
  cr_prog :: "nat list"
  cr_classTable :: "nat list"
  cr_nGroups :: nat
  cr_nScratch :: nat
  cr_flags :: nat
  cr_groupNames :: "(codeunit list \<times> nat) list"

section \<open>Flags\<close>

definition RE_FLAG_G :: nat where "RE_FLAG_G = 1"
definition RE_FLAG_I :: nat where "RE_FLAG_I = 2"
definition RE_FLAG_M :: nat where "RE_FLAG_M = 4"
definition RE_FLAG_S :: nat where "RE_FLAG_S = 8"
definition RE_FLAG_U :: nat where "RE_FLAG_U = 16"
definition RE_FLAG_Y :: nat where "RE_FLAG_Y = 32"
definition RE_FLAG_D :: nat where "RE_FLAG_D = 64"
definition RE_FLAG_V :: nat where "RE_FLAG_V = 128"

lemmas re_flag_consts = RE_FLAG_G_def RE_FLAG_I_def RE_FLAG_M_def RE_FLAG_S_def RE_FLAG_U_def
  RE_FLAG_Y_def RE_FLAG_D_def RE_FLAG_V_def

text \<open>
  \<open>RegexUnsupportedError\<close> and \<open>RepeatTooLargeError\<close>, with what their message says (the parser's with
  the fixed part of the message). \<open>OutOfFuel\<close> is no exception of the source: it marks a recursion
  cut short in the model, and is shown not to occur.
\<close>

datatype regex_error =
    UnknownFlag char
  | DuplicateFlag char
  | Unsupported string
  | RepeatTooLarge nat int
  | OutOfFuel

definition flag_bit :: "char \<Rightarrow> nat option" where
  "flag_bit ch =
     (if ch = CHR ''g'' then Some RE_FLAG_G
      else if ch = CHR ''i'' then Some RE_FLAG_I
      else if ch = CHR ''m'' then Some RE_FLAG_M
      else if ch = CHR ''s'' then Some RE_FLAG_S
      else if ch = CHR ''u'' then Some RE_FLAG_U
      else if ch = CHR ''y'' then Some RE_FLAG_Y
      else if ch = CHR ''d'' then Some RE_FLAG_D
      else if ch = CHR ''v'' then Some RE_FLAG_V
      else None)"

fun parse_flags_loop :: "string \<Rightarrow> nat \<Rightarrow> regex_error + nat" where
  "parse_flags_loop [] bits = Inr bits"
| "parse_flags_loop (ch # flags) bits =
     (case flag_bit ch of
        None \<Rightarrow> Inl (UnknownFlag ch)
      | Some bt \<Rightarrow>
          if bits AND bt \<noteq> 0 then Inl (DuplicateFlag ch)
          else parse_flags_loop flags (bits OR bt))"

definition parseFlags :: "string \<Rightarrow> regex_error + nat" where
  "parseFlags flags = parse_flags_loop flags 0"

section \<open>Reading a flat program back\<close>

definition flatten :: "re_instr list \<Rightarrow> nat list" where
  "flatten instrs = concat (map (\<lambda>(p, a, b). [op_code p, a, b]) instrs)"

text \<open>
  \<open>prog[3 pc], prog[3 pc + 1], prog[3 pc + 2]\<close>. Past the end, and for a number that is no opcode,
  the switch of the interpreter takes its default branch: no instruction.
\<close>

definition fetch :: "nat list \<Rightarrow> nat \<Rightarrow> re_instr option" where
  "fetch prog pc =
     (if 3 * pc + 2 < length prog
      then map_option (\<lambda>p. (p, prog ! (3 * pc + 1), prog ! (3 * pc + 2))) (op_of (prog ! (3 * pc)))
      else None)"

lemma op_of_op_code [simp]: "op_of (op_code p) = Some p"
  by (cases p) (simp_all add: op_of_def all_ops_def)

lemma op_of_Some: "op_of n = Some p \<Longrightarrow> op_code p = n"
  by (auto simp: op_of_def find_Some_iff)

lemma op_code_inject: "op_code p = op_code q \<longleftrightarrow> p = q"
  by (metis op_of_op_code option.inject)

lemma length_flatten [simp]: "length (flatten instrs) = 3 * length instrs"
  by (induction instrs) (auto simp: flatten_def)

lemma flatten_nth:
  "pc < length instrs \<Longrightarrow> flatten instrs ! (3 * pc) = op_code (fst (instrs ! pc))
     \<and> flatten instrs ! (3 * pc + 1) = fst (snd (instrs ! pc))
     \<and> flatten instrs ! (3 * pc + 2) = snd (snd (instrs ! pc))"
proof (induction instrs arbitrary: pc)
  case (Cons i instrs)
  obtain p a b where i: "i = (p, a, b)" by (cases i)
  show ?case
  proof (cases pc)
    case 0
    then show ?thesis by (simp add: flatten_def i)
  next
    case (Suc k)
    have "flatten (i # instrs) = op_code p # a # b # flatten instrs" by (simp add: flatten_def i)
    with Cons Suc show ?thesis by simp
  qed
qed simp

lemma fetch_flatten: "fetch (flatten instrs) pc = (if pc < length instrs then Some (instrs ! pc) else None)"
  using flatten_nth [of pc instrs] by (auto simp: fetch_def)

text \<open>Each flag letter has a bit of its own.\<close>

lemma flag_bit_inject: "flag_bit c = Some b \<Longrightarrow> flag_bit d = Some b \<Longrightarrow> c = d"
  by (auto simp: flag_bit_def re_flag_consts split: if_splits)

lemma flag_bits: "flag_bit c = Some b \<Longrightarrow> \<exists>k. b = 2 ^ k"
proof -
  assume "flag_bit c = Some b"
  then have "b \<in> {2 ^ 0, 2 ^ 1, 2 ^ 2, 2 ^ 3, 2 ^ 4, 2 ^ 5, 2 ^ 6, 2 ^ 7}"
    by (simp add: flag_bit_def re_flag_consts split: if_splits)
  then show ?thesis by blast
qed

definition flags_record :: "nat \<Rightarrow> char set \<Rightarrow> bool" where
  "flags_record bits seen \<longleftrightarrow> (\<forall>c b. flag_bit c = Some b \<longrightarrow> (bits AND b \<noteq> 0 \<longleftrightarrow> c \<in> seen))"

lemma flags_record_insert:
  assumes "flags_record bits seen" and c: "flag_bit c = Some b"
  shows "flags_record (bits OR b) (insert c seen)"
  unfolding flags_record_def
proof (intro allI impI)
  fix d e
  assume d: "flag_bit d = Some e"
  obtain k l where k: "b = 2 ^ k" and l: "e = 2 ^ l" using flag_bits c d by blast
  have n: "(bits AND e \<noteq> 0) = (d \<in> seen)" using assms(1) d by (simp add: flags_record_def)
  have "((bits OR b) AND e \<noteq> 0) = (bit bits l \<or> k = l)"
    unfolding k l using and_exp_eq_0_iff_not_bit [of "bits OR 2 ^ k" l] by (auto simp: bit_or_iff bit_exp_iff)
  also have "\<dots> = (d \<in> seen \<or> d = c)"
    using n and_exp_eq_0_iff_not_bit [of bits l] flag_bit_inject [OF c] d k l by (auto simp: c)
  finally show "((bits OR b) AND e \<noteq> 0) = (d \<in> insert c seen)" by auto
qed

lemma parse_flags_loop_spec:
  "flags_record bits seen \<Longrightarrow> case parse_flags_loop s bits of
      Inr bits' \<Rightarrow> distinct s \<and> set s \<inter> seen = {} \<and> (\<forall>c\<in>set s. flag_bit c \<noteq> None) \<and> flags_record bits' (set s \<union> seen)
    | Inl e \<Rightarrow> \<not> (distinct s \<and> set s \<inter> seen = {} \<and> (\<forall>c\<in>set s. flag_bit c \<noteq> None))"
proof (induction s arbitrary: bits seen)
  case (Cons c s)
  show ?case
  proof (cases "flag_bit c")
    case (Some b)
    have dup: "(bits AND b \<noteq> 0) = (c \<in> seen)" using Cons.prems Some by (simp add: flags_record_def)
    show ?thesis
    proof (cases "c \<in> seen")
      case False
      with Cons.IH [OF flags_record_insert [OF Cons.prems Some]] Some dup show ?thesis
        by (auto split: sum.splits)
    qed (use Some dup in simp)
  qed simp
qed simp

text \<open>
  \<open>parseFlags\<close> accepts exactly the strings of distinct known flag letters, and the result has
  the bit of a letter set exactly when the letter occurs.
\<close>

theorem parseFlags_spec:
  "case parseFlags s of
      Inr bits \<Rightarrow> distinct s \<and> (\<forall>c\<in>set s. flag_bit c \<noteq> None)
        \<and> (\<forall>c b. flag_bit c = Some b \<longrightarrow> (bits AND b \<noteq> 0 \<longleftrightarrow> c \<in> set s))
    | Inl e \<Rightarrow> \<not> (distinct s \<and> (\<forall>c\<in>set s. flag_bit c \<noteq> None))"
  using parse_flags_loop_spec [of 0 "{}" s]
  by (auto simp: parseFlags_def flags_record_def split: sum.splits)

theorem parseFlags_spec_witness: "parseFlags ''giu'' = Inr 19 \<and> (19 :: nat) AND RE_FLAG_I \<noteq> 0"
proof -
  have p: "parseFlags ''giu'' = Inr 19" by code_simp
  moreover have "flag_bit (CHR ''i'') = Some RE_FLAG_I" by (simp add: flag_bit_def)
  ultimately show ?thesis using parseFlags_spec [of "''giu''"] by auto
qed

end
