(* ===== verification/RegexVM.thy ===== *)
theory RegexVM
  imports RegexBytecode
begin

text \<open>
  The backtracking interpreter of \<open>src/src/codegen/regex/vm.ts\<close>: \<open>runAt\<close> (one anchored attempt,
  with nested attempts for lookarounds) and \<open>search\<close>. A subject is the list of its UTF-16 code
  units; positions and capture slots are integers; \<open>charCodeAt\<close> outside the subject is
  \<open>NaN\<close>, here \<open>None\<close>, and compares false with everything. Every exit of the source is a value of
  \<open>vm_result\<close>: a match, no match, the step-limit \<open>RangeError\<close>, the host's stack overflow of
  unboundedly nested lookarounds (\<open>depth\<close>), and a back-reference to a slot the capture array does
  not have.
\<close>

section \<open>Limits\<close>

definition REGEX_STEP_CAP :: int where "REGEX_STEP_CAP = 1000000"
definition REGEX_STEP_CAP_PER_UNIT :: int where "REGEX_STEP_CAP_PER_UNIT = 50"
definition REGEX_STEP_CAP_LEN_SATURATION :: int where "REGEX_STEP_CAP_LEN_SATURATION = 20000000"

definition regexStepBudget :: "int \<Rightarrow> int" where
  "regexStepBudget n = REGEX_STEP_CAP + REGEX_STEP_CAP_PER_UNIT * min n REGEX_STEP_CAP_LEN_SATURATION"

section \<open>Character tests\<close>

type_synonym subject = "codeunit list"
type_synonym caps = "int list"
type_synonym frame = "nat \<times> int \<times> caps"

definition charCodeAt :: "subject \<Rightarrow> int \<Rightarrow> codeunit option" where
  "charCodeAt s i = (if 0 \<le> i \<and> i < int (length s) then Some (s ! nat i) else None)"

text \<open>Comparisons of numbers that may be \<open>NaN\<close> or \<open>undefined\<close> are false.\<close>

definition num_lt :: "nat option \<Rightarrow> nat option \<Rightarrow> bool" where
  "num_lt x y = (case (x, y) of (Some a, Some b) \<Rightarrow> a < b | _ \<Rightarrow> False)"

definition num_eq :: "nat option \<Rightarrow> nat option \<Rightarrow> bool" where
  "num_eq x y = (case (x, y) of (Some a, Some b) \<Rightarrow> a = b | _ \<Rightarrow> False)"

definition in_span :: "nat \<Rightarrow> nat \<Rightarrow> nat option \<Rightarrow> bool" where
  "in_span lo hi c = (case c of Some u \<Rightarrow> lo \<le> u \<and> u \<le> hi | None \<Rightarrow> False)"

definition tab_at :: "nat list \<Rightarrow> int \<Rightarrow> nat option" where
  "tab_at tab i = (if 0 \<le> i \<and> i < int (length tab) then Some (tab ! nat i) else None)"

function class_loop :: "nat list \<Rightarrow> nat \<Rightarrow> nat option \<Rightarrow> int \<Rightarrow> int \<Rightarrow> bool" where
  "class_loop tab off c loIndex hiIndex =
     (if loIndex \<le> hiIndex then
        let mid = loIndex + (hiIndex - loIndex) div 2;
            p = int off + 1 + 2 * mid;
            lo = tab_at tab p;
            hi = tab_at tab (p + 1)
        in if num_lt c lo then class_loop tab off c loIndex (mid - 1)
           else if num_lt hi c then class_loop tab off c (mid + 1) hiIndex
           else True
      else False)"
  by pat_completeness auto
termination
  by (relation "measure (\<lambda>(tab, off, c, l, h). nat (h - l + 1))") auto

declare class_loop.simps [simp del]

definition classMatch :: "nat list \<Rightarrow> nat \<Rightarrow> nat option \<Rightarrow> bool \<Rightarrow> bool" where
  "classMatch tab off c negated =
     (let inside = (case tab_at tab (int off) of
                      None \<Rightarrow> False
                    | Some rangeCount \<Rightarrow> class_loop tab off c 0 (int rangeCount - 1))
      in if negated then \<not> inside else inside)"

definition asciiFold :: "nat \<Rightarrow> nat" where
  "asciiFold code = (if 0x41 \<le> code \<and> code \<le> 0x5a then code + 0x20 else code)"

definition isLineTerminator :: "nat option \<Rightarrow> bool" where
  "isLineTerminator c \<longleftrightarrow> c = Some 0x0a \<or> c = Some 0x0d \<or> c = Some 0x2028 \<or> c = Some 0x2029"

definition isWordChar :: "nat option \<Rightarrow> bool" where
  "isWordChar c \<longleftrightarrow> in_span 0x30 0x39 c \<or> in_span 0x41 0x5a c \<or> c = Some 0x5f \<or> in_span 0x61 0x7a c"

section \<open>One instruction\<close>

record vm_env =
  env_prog :: "nat list"
  env_classTable :: "nat list"
  env_input :: subject

text \<open>
  What one instruction does: the threads to go on with, in order (none is a failure, two is a
  \<open>SPLIT\<close>), acceptance, the default branch, a nested attempt, or a back-reference out of range.
\<close>

datatype vm_action =
    Threads "frame list"
  | Accept caps
  | Halt
  | Look nat bool bool
  | BadSlot

definition inBounds :: "subject \<Rightarrow> int \<Rightarrow> int \<Rightarrow> bool" where
  "inBounds s dir sp = (if dir > 0 then sp < int (length s) else sp > 0)"

definition unit_at :: "subject \<Rightarrow> int \<Rightarrow> int \<Rightarrow> nat option" where
  "unit_at s dir sp = charCodeAt s (if dir > 0 then sp else sp - 1)"

text \<open>
  The code point \<open>CPCLASS\<close> looks at and its width in units; \<open>None\<close> when the position splits a
  surrogate pair.
\<close>

definition pair_value :: "nat \<Rightarrow> nat \<Rightarrow> nat" where
  "pair_value lead trail = 0x10000 + (lead - 0xd800) * 0x400 + (trail - 0xdc00)"

definition is_lead :: "nat option \<Rightarrow> bool" where "is_lead c = in_span 0xd800 0xdbff c"
definition is_trail :: "nat option \<Rightarrow> bool" where "is_trail c = in_span 0xdc00 0xdfff c"

definition code_point_at :: "subject \<Rightarrow> int \<Rightarrow> int \<Rightarrow> (nat option \<times> int) option" where
  "code_point_at s dir sp =
     (let c = unit_at s dir sp; n = int (length s) in
      if dir > 0 \<and> is_lead c \<and> sp + 1 < n then
        let trail = charCodeAt s (sp + 1) in
        if is_trail trail then Some (Some (pair_value (the c) (the trail)), 2) else Some (c, 1)
      else if dir > 0 \<and> is_trail c \<and> sp > 0 \<and> is_lead (charCodeAt s (sp - 1)) then None
      else if dir < 0 \<and> is_trail c \<and> sp > 1 then
        let lead = charCodeAt s (sp - 2) in
        if is_lead lead then Some (Some (pair_value (the lead) (the c)), 2) else Some (c, 1)
      else if dir < 0 \<and> is_lead c \<and> sp < n \<and> is_trail (charCodeAt s sp) then None
      else Some (c, 1))"

definition backref_same :: "subject \<Rightarrow> bool \<Rightarrow> int \<Rightarrow> int \<Rightarrow> int \<Rightarrow> bool" where
  "backref_same s fold_case gs base blen =
     list_all (\<lambda>j.
       let c1 = charCodeAt s (gs + int j); c2 = charCodeAt s (base + int j) in
       if fold_case then num_eq (map_option asciiFold c1) (map_option asciiFold c2) else num_eq c1 c2)
       [0..<nat blen]"

definition clear_slots :: "nat \<Rightarrow> nat \<Rightarrow> caps \<Rightarrow> caps" where
  "clear_slots a b caps = fold (\<lambda>i c. c[i := - 1]) [a..<Suc b] caps"

definition advance_if :: "bool \<Rightarrow> nat \<Rightarrow> int \<Rightarrow> caps \<Rightarrow> vm_action" where
  "advance_if ok pc sp caps = Threads (if ok then [(pc + 1, sp, caps)] else [])"

fun exec_op :: "vm_env \<Rightarrow> int \<Rightarrow> re_op \<Rightarrow> nat \<Rightarrow> nat \<Rightarrow> nat \<Rightarrow> int \<Rightarrow> caps \<Rightarrow> vm_action" where
  "exec_op env dir CHAR_op a b pc sp caps =
     advance_if (inBounds (env_input env) dir sp \<and> num_eq (unit_at (env_input env) dir sp) (Some a)) pc (sp + dir) caps"
| "exec_op env dir CHARI a b pc sp caps =
     advance_if (inBounds (env_input env) dir sp
       \<and> num_eq (map_option asciiFold (unit_at (env_input env) dir sp)) (Some a)) pc (sp + dir) caps"
| "exec_op env dir ANY a b pc sp caps =
     advance_if (inBounds (env_input env) dir sp
       \<and> (a \<noteq> 0 \<or> \<not> isLineTerminator (unit_at (env_input env) dir sp))) pc (sp + dir) caps"
| "exec_op env dir CLASS a b pc sp caps =
     advance_if (inBounds (env_input env) dir sp
       \<and> classMatch (env_classTable env) a (unit_at (env_input env) dir sp) (b \<noteq> 0)) pc (sp + dir) caps"
| "exec_op env dir CPCLASS a b pc sp caps =
     (if \<not> inBounds (env_input env) dir sp then Threads []
      else case code_point_at (env_input env) dir sp of
        None \<Rightarrow> Threads []
      | Some (cp, width) \<Rightarrow>
          advance_if (classMatch (env_classTable env) a cp (b \<noteq> 0)) pc (sp + dir * width) caps)"
| "exec_op env dir SPLIT a b pc sp caps = Threads [(a, sp, caps), (b, sp, caps)]"
| "exec_op env dir JMP a b pc sp caps = Threads [(a, sp, caps)]"
| "exec_op env dir SAVE a b pc sp caps = Threads [(pc + 1, sp, caps[a := sp])]"
| "exec_op env dir BOL a b pc sp caps =
     advance_if (sp = 0 \<or> a \<noteq> 0 \<and> isLineTerminator (charCodeAt (env_input env) (sp - 1))) pc sp caps"
| "exec_op env dir EOL a b pc sp caps =
     advance_if (sp = int (length (env_input env)) \<or> a \<noteq> 0 \<and> isLineTerminator (charCodeAt (env_input env) sp)) pc sp caps"
| "exec_op env dir WBOUND a b pc sp caps =
     (let is_before = (if sp > 0 then isWordChar (charCodeAt (env_input env) (sp - 1)) else False);
          is_after = (if sp < int (length (env_input env)) then isWordChar (charCodeAt (env_input env) sp) else False);
          boundary = (is_before \<noteq> is_after)
      in advance_if (if a \<noteq> 0 then \<not> boundary else boundary) pc sp caps)"
| "exec_op env dir BACKREF a b pc sp caps =
     (if 2 * a + 1 < length caps then
        let gs = caps ! (2 * a); ge = caps ! (2 * a + 1) in
        if gs < 0 \<or> ge < 0 then Threads [(pc + 1, sp, caps)]
        else
          let blen = ge - gs in
          if (if dir > 0 then sp + blen > int (length (env_input env)) else sp - blen < 0) then Threads []
          else advance_if (backref_same (env_input env) (b \<noteq> 0) gs (if dir > 0 then sp else sp - blen) blen)
                 pc (sp + dir * blen) caps
      else BadSlot)"
| "exec_op env dir LOOKAROUND a b pc sp caps = Look a (b AND 1 \<noteq> 0) (b AND 2 \<noteq> 0)"
| "exec_op env dir PROGRESS a b pc sp caps = advance_if (\<not> (a < length caps \<and> sp = caps ! a)) pc sp caps"
| "exec_op env dir CLEAR a b pc sp caps = Threads [(pc + 1, sp, clear_slots a b caps)]"
| "exec_op env dir MATCH a b pc sp caps = Accept caps"

definition action :: "vm_env \<Rightarrow> int \<Rightarrow> frame \<Rightarrow> vm_action" where
  "action env dir = (\<lambda>(pc, sp, caps).
     case fetch (env_prog env) pc of
       None \<Rightarrow> Halt
     | Some (p, a, b) \<Rightarrow> exec_op env dir p a b pc sp caps)"

section \<open>The interpreter loop\<close>

datatype vm_result = Matched caps | NoMatch | StepLimit | StackOverflow | BadCapture

text \<open>
  The loop of \<open>runAt\<close>. The current thread and the backtrack stack are one list of frames: a
  failed thread is dropped and the next one popped. \<open>budget\<close> is \<open>stepBudget\<close>, which every nested
  attempt gets afresh; \<open>depth\<close> bounds the nesting of attempts.
\<close>

definition look_threads :: "bool \<Rightarrow> frame \<Rightarrow> caps option \<Rightarrow> frame list" where
  "look_threads negated = (\<lambda>(pc, sp, caps) sub.
     case sub of
       Some c \<Rightarrow> if negated then [] else [(pc + 1, sp, c)]
     | None \<Rightarrow> if negated then [(pc + 1, sp, caps)] else [])"

function vm_loop :: "vm_env \<Rightarrow> int \<Rightarrow> nat \<Rightarrow> int \<Rightarrow> int \<Rightarrow> frame list \<Rightarrow> vm_result" where
  "vm_loop env budget depth dir steps [] = NoMatch"
| "vm_loop env budget depth dir steps (thread # stack) =
     (if steps + 1 > budget then StepLimit
      else case action env dir thread of
        Threads fs \<Rightarrow> vm_loop env budget depth dir (steps + 1) (fs @ stack)
      | Accept c \<Rightarrow> Matched c
      | Halt \<Rightarrow> NoMatch
      | BadSlot \<Rightarrow> BadCapture
      | Look subPc negated behind \<Rightarrow>
          (if depth = 0 then StackOverflow
           else case vm_loop env budget (depth - 1) (if behind then - 1 else 1) 0 [(subPc, snd thread)] of
             Matched c \<Rightarrow> vm_loop env budget depth dir (steps + 1) (look_threads negated thread (Some c) @ stack)
           | NoMatch \<Rightarrow> vm_loop env budget depth dir (steps + 1) (look_threads negated thread None @ stack)
           | r \<Rightarrow> r))"
  by pat_completeness auto
termination
  by (relation "inv_image (less_than <*lex*> less_than) (\<lambda>(env, budget, depth, dir, steps, fs). (depth, nat (budget - steps)))") auto

declare vm_loop.simps [simp del]

definition fresh_caps :: "nat \<Rightarrow> caps" where
  "fresh_caps n = replicate n (- 1)"

definition runAt ::
    "nat \<Rightarrow> nat list \<Rightarrow> nat list \<Rightarrow> nat \<Rightarrow> subject \<Rightarrow> int \<Rightarrow> nat \<Rightarrow> int \<Rightarrow> caps option \<Rightarrow> nat \<Rightarrow> vm_result" where
  "runAt depth prog classTable nGroups input startIdx entryPc dir capsIn nScratch =
     (let nSlots = 2 * nGroups + nScratch;
          initCaps = (case capsIn of Some c \<Rightarrow> c | None \<Rightarrow> fresh_caps nSlots)
      in vm_loop \<lparr>env_prog = prog, env_classTable = classTable, env_input = input\<rparr>
           (regexStepBudget (int (length input))) depth dir 0 [(entryPc, startIdx, initCaps)])"

function search_loop :: "(int \<Rightarrow> vm_result) \<Rightarrow> int \<Rightarrow> bool \<Rightarrow> int \<Rightarrow> vm_result" where
  "search_loop attempt n sticky i =
     (if i \<le> n then
        (case attempt i of
           NoMatch \<Rightarrow> if sticky then NoMatch else search_loop attempt n sticky (i + 1)
         | r \<Rightarrow> r)
      else NoMatch)"
  by pat_completeness auto
termination
  by (relation "measure (\<lambda>(attempt, n, sticky, i). nat (n + 1 - i))") auto

declare search_loop.simps [simp del]

definition search ::
    "nat \<Rightarrow> nat list \<Rightarrow> nat list \<Rightarrow> nat \<Rightarrow> subject \<Rightarrow> int \<Rightarrow> bool \<Rightarrow> nat \<Rightarrow> vm_result" where
  "search depth prog classTable nGroups input startIdx sticky nScratch =
     search_loop (\<lambda>i. runAt depth prog classTable nGroups input i 0 1 None nScratch)
       (int (length input)) sticky (max 0 startIdx)"

section \<open>Complete runs\<close>

text \<open>
  The runs that end by themselves, without budget or depth: \<open>ev env dir fs r\<close> when the threads
  \<open>fs\<close> lead to the result \<open>r\<close>.
\<close>

inductive ev :: "vm_env \<Rightarrow> int \<Rightarrow> frame list \<Rightarrow> caps option \<Rightarrow> bool" for env where
  ev_nil: "ev env dir [] None"
| ev_threads: "action env dir f = Threads fs \<Longrightarrow> ev env dir (fs @ S) r \<Longrightarrow> ev env dir (f # S) r"
| ev_accept: "action env dir f = Accept c \<Longrightarrow> ev env dir (f # S) (Some c)"
| ev_halt: "action env dir f = Halt \<Longrightarrow> ev env dir (f # S) None"
| ev_look: "action env dir f = Look a neg beh \<Longrightarrow> ev env (if beh then - 1 else 1) [(a, snd f)] sub
     \<Longrightarrow> ev env dir (look_threads neg f sub @ S) r \<Longrightarrow> ev env dir (f # S) r"

definition result_of :: "caps option \<Rightarrow> vm_result" where
  "result_of r = (case r of Some c \<Rightarrow> Matched c | None \<Rightarrow> NoMatch)"

lemma result_of_simps [simp]: "result_of (Some c) = Matched c" "result_of None = NoMatch"
  by (simp_all add: result_of_def)

lemma result_of_inject [simp]: "result_of r = result_of r' \<longleftrightarrow> r = r'"
  by (cases r; cases r') simp_all

lemma look_result:
  "(case result_of sub of Matched c \<Rightarrow> f (Some c) | NoMatch \<Rightarrow> f None | StepLimit \<Rightarrow> x | StackOverflow \<Rightarrow> y | BadCapture \<Rightarrow> z)
     = f sub"
  by (cases sub) simp_all

lemma vm_loop_look:
  assumes "action env dir f = Look a neg beh"
    and "vm_loop env budget depth (if beh then - 1 else 1) 0 [(a, snd f)] = result_of sub" and "steps + 1 \<le> budget"
  shows "vm_loop env budget (Suc depth) dir steps (f # S)
    = vm_loop env budget (Suc depth) dir (steps + 1) (look_threads neg f sub @ S)"
proof -
  define sdir where "sdir = (if beh then - 1 else 1 :: int)"
  have s: "vm_loop env budget depth sdir 0 [(a, snd f)] = result_of sub" using assms(2) by (simp add: sdir_def)
  show ?thesis
    using assms(1,3) by (subst vm_loop.simps(2)) (cases sub; simp add: sdir_def [symmetric] s)
qed

text \<open>With enough budget and depth the interpreter computes the result of the complete run.\<close>

lemma ev_vm_loop:
  assumes "ev env dir fs r"
  shows "\<exists>n d. \<forall>budget depth steps. n \<le> budget \<longrightarrow> n \<le> budget - steps \<longrightarrow> d \<le> depth
     \<longrightarrow> vm_loop env budget depth dir steps fs = result_of r"
  using assms
proof induction
  case (ev_nil dir)
  show ?case by (intro exI [of _ 0]) (simp add: vm_loop.simps)
next
  case (ev_threads dir f fs S r)
  then obtain n d where "\<forall>budget depth steps. n \<le> budget \<longrightarrow> n \<le> budget - steps \<longrightarrow> d \<le> depth
     \<longrightarrow> vm_loop env budget depth dir steps (fs @ S) = result_of r" by blast
  with ev_threads.hyps(1) show ?case
    by (intro exI [of _ "max 0 n + 1"] exI [of _ d]) (auto simp: vm_loop.simps)
next
  case (ev_accept dir f c S)
  then show ?case by (intro exI [of _ 1] exI [of _ 0]) (auto simp: vm_loop.simps)
next
  case (ev_halt dir f S)
  then show ?case by (intro exI [of _ 1] exI [of _ 0]) (auto simp: vm_loop.simps)
next
  case (ev_look dir f a neg beh sub S r)
  obtain n d where 1: "\<forall>budget depth steps. n \<le> budget \<longrightarrow> n \<le> budget - steps \<longrightarrow> d \<le> depth
     \<longrightarrow> vm_loop env budget depth (if beh then - 1 else 1) steps [(a, snd f)] = result_of sub"
    using ev_look.IH(1) by blast
  obtain n' d' where 2: "\<forall>budget depth steps. n' \<le> budget \<longrightarrow> n' \<le> budget - steps \<longrightarrow> d' \<le> depth
     \<longrightarrow> vm_loop env budget depth dir steps (look_threads neg f sub @ S) = result_of r"
    using ev_look.IH(2) by blast
  have "vm_loop env budget depth dir steps (f # S) = result_of r"
    if b: "max 0 (max n n') + 1 \<le> budget" "max 0 (max n n') + 1 \<le> budget - steps" and dp: "Suc (max d d') \<le> depth"
    for budget depth steps
  proof -
    obtain k where k: "depth = Suc k" using dp by (cases depth) simp_all
    have s: "vm_loop env budget k (if beh then - 1 else 1) 0 [(a, snd f)] = result_of sub"
      using 1 b dp k by simp
    have t: "vm_loop env budget depth dir (steps + 1) (look_threads neg f sub @ S) = result_of r"
      using 2 b dp by simp
    show ?thesis
      using vm_loop_look [OF ev_look.hyps(1) s] b t k by simp
  qed
  then show ?case by blast
qed

text \<open>With any budget and depth it computes that result or reports that they ran out.\<close>

lemma ev_vm_loop_any:
  assumes "ev env dir fs r"
  shows "vm_loop env budget depth dir steps fs \<in> {result_of r, StepLimit, StackOverflow}"
  using assms
proof (induction arbitrary: depth steps)
  case (ev_threads dir f fs S r)
  then show ?case by (simp add: vm_loop.simps(2))
next
  case (ev_look dir f a neg beh sub S r)
  define sdir where "sdir = (if beh then - 1 else 1 :: int)"
  have s: "vm_loop env budget (depth - 1) sdir 0 [(a, snd f)] \<in> {result_of sub, StepLimit, StackOverflow}"
    unfolding sdir_def by (rule ev_look.IH(1))
  have t: "vm_loop env budget depth dir (steps + 1) (look_threads neg f sub @ S) \<in> {result_of r, StepLimit, StackOverflow}"
    by (rule ev_look.IH(2))
  show ?case
    using s t ev_look.hyps(1)
    by (subst vm_loop.simps(2)) (cases sub; auto simp: sdir_def [symmetric])
qed (simp_all add: vm_loop.simps)

lemma ev_deterministic: "ev env dir fs r \<Longrightarrow> ev env dir fs r' \<Longrightarrow> r = r'"
proof -
  assume "ev env dir fs r" and "ev env dir fs r'"
  then obtain n d n' d' where
    1: "\<forall>budget depth steps. n \<le> budget \<longrightarrow> n \<le> budget - steps \<longrightarrow> d \<le> depth
     \<longrightarrow> vm_loop env budget depth dir steps fs = result_of r" and
    2: "\<forall>budget depth steps. n' \<le> budget \<longrightarrow> n' \<le> budget - steps \<longrightarrow> d' \<le> depth
     \<longrightarrow> vm_loop env budget depth dir steps fs = result_of r'"
    by (metis ev_vm_loop)
  have "vm_loop env (max n n') (max d d') dir 0 fs = result_of r" using 1 by simp
  moreover have "vm_loop env (max n n') (max d d') dir 0 fs = result_of r'" using 2 by simp
  ultimately show ?thesis by simp
qed

section \<open>Classes\<close>

text \<open>The class table holds at \<open>off\<close> the count and the bounds of \<open>ranges\<close>.\<close>

definition class_at :: "nat list \<Rightarrow> nat \<Rightarrow> ranges \<Rightarrow> bool" where
  "class_at tab off rs \<longleftrightarrow> off < length tab \<and> tab ! off = length rs
     \<and> (\<forall>i < length rs. off + 2 + 2 * i < length tab
          \<and> tab ! (off + 1 + 2 * i) = fst (rs ! i) \<and> tab ! (off + 2 + 2 * i) = snd (rs ! i))"

definition in_ranges :: "ranges \<Rightarrow> nat \<Rightarrow> bool" where
  "in_ranges rs c \<longleftrightarrow> (\<exists>(lo, hi) \<in> set rs. lo \<le> c \<and> c \<le> hi)"

text \<open>Sorted and disjoint, as binary search needs it.\<close>

definition ranges_sorted :: "ranges \<Rightarrow> bool" where
  "ranges_sorted rs \<longleftrightarrow> sorted_wrt (\<lambda>x y. fst x \<le> fst y \<and> snd x < fst y \<and> snd x \<le> snd y) rs"

lemma in_ranges_nth: "in_ranges rs c \<longleftrightarrow> (\<exists>i < length rs. fst (rs ! i) \<le> c \<and> c \<le> snd (rs ! i))"
  by (force simp: in_ranges_def in_set_conv_nth)

lemma class_loop_correct:
  assumes "class_at tab off rs" and "ranges_sorted rs"
  shows "0 \<le> l \<Longrightarrow> h < int (length rs) \<Longrightarrow>
    class_loop tab off (Some c) l h \<longleftrightarrow> (\<exists>i. l \<le> int i \<and> int i \<le> h \<and> fst (rs ! i) \<le> c \<and> c \<le> snd (rs ! i))"
proof (induction "nat (h - l + 1)" arbitrary: l h rule: less_induct)
  case less
  show ?case
  proof (cases "l \<le> h")
    case False
    then show ?thesis by (subst class_loop.simps) auto
  next
    case True
    define m where "m = nat (l + (h - l) div 2)"
    have m: "int m = l + (h - l) div 2" "l \<le> int m" "int m \<le> h" "m < length rs"
      using True less.prems by (auto simp: m_def)
    have at: "tab_at tab (int off + 1 + 2 * int m) = Some (fst (rs ! m))"
      "tab_at tab (int off + 1 + 2 * int m + 1) = Some (snd (rs ! m))"
      using assms(1) m(4) by (auto simp: class_at_def tab_at_def nat_add_distrib nat_mult_distrib)
    have sorted: "fst (rs ! i) \<le> fst (rs ! j) \<and> snd (rs ! i) < fst (rs ! j) \<and> snd (rs ! i) \<le> snd (rs ! j)"
      if "i < j" "j < length rs" for i j
      using assms(2) that by (auto simp: ranges_sorted_def sorted_wrt_iff_nth_less)
    have unf: "class_loop tab off (Some c) l h =
       (if c < fst (rs ! m) then class_loop tab off (Some c) l (int m - 1)
        else if snd (rs ! m) < c then class_loop tab off (Some c) (int m + 1) h else True)"
      using True
      by (subst class_loop.simps) (simp only: m(1) [symmetric] at num_lt_def Let_def if_True prod.case option.case)
    consider "c < fst (rs ! m)" | "\<not> c < fst (rs ! m)" "snd (rs ! m) < c" | "fst (rs ! m) \<le> c" "c \<le> snd (rs ! m)"
      by linarith
    then show ?thesis
    proof cases
      case 1
      have "class_loop tab off (Some c) l (int m - 1) \<longleftrightarrow>
          (\<exists>i. l \<le> int i \<and> int i \<le> int m - 1 \<and> fst (rs ! i) \<le> c \<and> c \<le> snd (rs ! i))"
        by (rule less.hyps) (use m less.prems in auto)
      moreover have "i < m" if "fst (rs ! i) \<le> c" "int i \<le> h" for i
      proof (rule ccontr)
        assume "\<not> i < m"
        then have "fst (rs ! m) \<le> fst (rs ! i)" using sorted [of m i] that less.prems by (cases "m = i") auto
        with 1 that show False by simp
      qed
      ultimately have "class_loop tab off (Some c) l (int m - 1) \<longleftrightarrow>
          (\<exists>i. l \<le> int i \<and> int i \<le> h \<and> fst (rs ! i) \<le> c \<and> c \<le> snd (rs ! i))"
        using m(3) by fastforce
      with 1 show ?thesis by (simp add: unf)
    next
      case 2
      have "class_loop tab off (Some c) (int m + 1) h \<longleftrightarrow>
          (\<exists>i. int m + 1 \<le> int i \<and> int i \<le> h \<and> fst (rs ! i) \<le> c \<and> c \<le> snd (rs ! i))"
        by (rule less.hyps) (use m less.prems in auto)
      moreover have "int m + 1 \<le> int i" if "c \<le> snd (rs ! i)" "int i \<le> h" for i
      proof (rule ccontr)
        assume "\<not> int m + 1 \<le> int i"
        then have "snd (rs ! i) \<le> snd (rs ! m)" using sorted [of i m] that m by (cases "m = i") auto
        with 2 that show False by simp
      qed
      moreover have "l \<le> int i" if "int m + 1 \<le> int i" for i using m(2) that by simp
      ultimately have "class_loop tab off (Some c) (int m + 1) h \<longleftrightarrow>
          (\<exists>i. l \<le> int i \<and> int i \<le> h \<and> fst (rs ! i) \<le> c \<and> c \<le> snd (rs ! i))"
        by blast
      with 2 show ?thesis by (simp add: unf)
    next
      case 3
      then have "\<exists>i. l \<le> int i \<and> int i \<le> h \<and> fst (rs ! i) \<le> c \<and> c \<le> snd (rs ! i)"
        using m(2,3) by blast
      with 3 show ?thesis by (simp add: unf)
    qed
  qed
qed

lemma classMatch_correct:
  assumes "class_at tab off rs" and "ranges_sorted rs"
  shows "classMatch tab off (Some c) neg \<longleftrightarrow> (in_ranges rs c \<noteq> neg)"
proof -
  have "tab_at tab (int off) = Some (length rs)" using assms(1) by (simp add: class_at_def tab_at_def)
  moreover have "class_loop tab off (Some c) 0 (int (length rs) - 1) = in_ranges rs c"
    using class_loop_correct [OF assms, of 0 "int (length rs) - 1" c] by (auto simp: in_ranges_nth)
  ultimately show ?thesis by (simp add: classMatch_def Let_def)
qed

end
