(* ===== verification/JsString.thy ===== *)
theory JsString
  imports RegexVM
begin

text \<open>
  JavaScript strings as the regular-expression front end uses them: lists of UTF-16 code units, the
  methods of \<open>String.prototype\<close> the parser calls (\<open>startsWith\<close>, \<open>indexOf\<close>, \<open>includes\<close>, \<open>slice\<close>,
  \<open>codePointAt\<close>, \<open>Array.from\<close>), numerals in a radix, and \<open>Array.prototype.reduce\<close> over operations
  that may throw.
\<close>

type_synonym jsstring = "codeunit list"

abbreviation ch :: "char \<Rightarrow> codeunit" where
  "ch c \<equiv> of_char c"

abbreviation backslash :: codeunit where
  "backslash \<equiv> ch (CHR 0x5C)"

definition js :: "string \<Rightarrow> jsstring" where
  "js s = map of_char s"

definition char_at :: "'a list \<Rightarrow> nat \<Rightarrow> 'a option" where
  "char_at s i = (if i < length s then Some (s ! i) else None)"

definition slice_of :: "'a list \<Rightarrow> nat \<Rightarrow> nat \<Rightarrow> 'a list" where
  "slice_of s a b = take (b - a) (drop a s)"

definition startsWith :: "jsstring \<Rightarrow> jsstring \<Rightarrow> nat \<Rightarrow> bool" where
  "startsWith s t i \<longleftrightarrow> take (length t) (drop i s) = t"

definition includes_str :: "jsstring \<Rightarrow> jsstring \<Rightarrow> bool" where
  "includes_str s t \<longleftrightarrow> list_ex (startsWith s t) [0..<Suc (length s)]"

definition indexOf :: "jsstring \<Rightarrow> codeunit \<Rightarrow> nat \<Rightarrow> nat option" where
  "indexOf s c i =
     (let w = takeWhile (\<lambda>u. u \<noteq> c) (drop i s) in
      if i + length w < length s then Some (i + length w) else None)"

section \<open>Code points\<close>

definition fromCodePoint :: "nat \<Rightarrow> jsstring" where
  "fromCodePoint cp =
     (if cp > 0xffff then [0xd800 + (cp - 0x10000) div 0x400, 0xdc00 + (cp - 0x10000) mod 0x400] else [cp])"

fun codePoints :: "jsstring \<Rightarrow> nat list" where
  "codePoints (u # v # s) =
     (if is_lead (Some u) \<and> is_trail (Some v) then pair_value u v # codePoints s else u # codePoints (v # s))"
| "codePoints [u] = [u]"
| "codePoints [] = []"

definition codePointAt :: "jsstring \<Rightarrow> nat \<Rightarrow> nat option" where
  "codePointAt s i =
     (case char_at s i of None \<Rightarrow> None
      | Some u \<Rightarrow> (case char_at s (Suc i) of
          Some v \<Rightarrow> Some (if is_lead (Some u) \<and> is_trail (Some v) then pair_value u v else u)
        | None \<Rightarrow> Some u))"

section \<open>Numerals\<close>

definition is_digit :: "nat \<Rightarrow> bool" where
  "is_digit c \<longleftrightarrow> 0x30 \<le> c \<and> c \<le> 0x39"

definition is_hex :: "nat \<Rightarrow> bool" where
  "is_hex c \<longleftrightarrow> is_digit c \<or> 0x61 \<le> c \<and> c \<le> 0x66 \<or> 0x41 \<le> c \<and> c \<le> 0x46"

definition digit_value :: "nat \<Rightarrow> nat" where
  "digit_value c = (if is_digit c then c - 0x30 else if 0x61 \<le> c then c - 0x57 else c - 0x37)"

definition parseInt :: "nat \<Rightarrow> nat list \<Rightarrow> nat" where
  "parseInt radix s = foldl (\<lambda>v c. v * radix + digit_value c) 0 s"

definition hex_number :: "nat list \<Rightarrow> bool" where
  "hex_number s \<longleftrightarrow> s \<noteq> [] \<and> list_all is_hex s"

definition digit_unit :: "nat \<Rightarrow> codeunit" where
  "digit_unit d = (if d < 10 then 0x30 + d else 0x57 + d)"

fun show_radix :: "nat \<Rightarrow> nat \<Rightarrow> jsstring" where
  "show_radix r n = (if r < 2 \<or> n < r then [digit_unit n] else show_radix r (n div r) @ [digit_unit (n mod r)])"

declare show_radix.simps [simp del]

definition join :: "codeunit \<Rightarrow> jsstring list \<Rightarrow> jsstring" where
  "join sep ss = (case ss of [] \<Rightarrow> [] | s # r \<Rightarrow> s @ concat (map (\<lambda>t. sep # t) r))"

section \<open>Facts\<close>

lemma digit_value_unit: "d < 36 \<Longrightarrow> digit_value (digit_unit d) = d"
  by (simp add: digit_value_def digit_unit_def is_digit_def)

lemma parseInt_snoc: "parseInt r (s @ [c]) = parseInt r s * r + digit_value c"
  by (simp add: parseInt_def)

text \<open>Numerals read back.\<close>

lemma parseInt_show_radix: "2 \<le> r \<Longrightarrow> r \<le> 36 \<Longrightarrow> parseInt r (show_radix r n) = n"
proof (induction r n rule: show_radix.induct)
  case (1 r n)
  show ?case
  proof (cases "n < r")
    case True
    then show ?thesis using "1.prems" by (subst show_radix.simps) (simp add: parseInt_def digit_value_unit)
  next
    case False
    moreover have "parseInt r (show_radix r (n div r)) = n div r" using "1.IH" "1.prems" False by simp
    moreover have "n mod r < 36" using "1.prems" mod_less_divisor [of r n] by linarith
    ultimately show ?thesis
      using "1.prems" by (subst show_radix.simps) (simp add: parseInt_snoc digit_value_unit)
  qed
qed

lemma show_radix_inject: "2 \<le> r \<Longrightarrow> r \<le> 36 \<Longrightarrow> show_radix r m = show_radix r n \<longleftrightarrow> m = n"
  by (metis parseInt_show_radix)

lemma set_show_radix: "2 \<le> r \<Longrightarrow> set (show_radix r n) \<subseteq> digit_unit ` {..<r}"
proof (induction r n rule: show_radix.induct)
  case (1 r n)
  then show ?case by (subst show_radix.simps) auto
qed

lemma show_radix_not_Nil [simp]: "show_radix r n \<noteq> []"
  by (subst show_radix.simps) simp

lemma digits_not_in_show_radix:
  "2 \<le> r \<Longrightarrow> r \<le> 36 \<Longrightarrow> c \<in> set (show_radix r n) \<Longrightarrow> 0x30 \<le> c \<and> c \<le> 0x39 \<or> 0x61 \<le> c \<and> c \<le> 0x7a"
  using set_show_radix [of r n] by (auto simp: digit_unit_def split: if_splits)

lemma join_simps [simp]:
  "join sep [] = []" "join sep [s] = s" "join sep (s # t # r) = s @ sep # join sep (t # r)"
  by (simp_all add: join_def)

lemma append_sep_inject:
  "sep \<notin> set s \<Longrightarrow> sep \<notin> set t \<Longrightarrow> s @ sep # x = t @ sep # y \<longleftrightarrow> s = t \<and> x = y"
proof (induction s arbitrary: t)
  case Nil
  then show ?case by (cases t) auto
next
  case (Cons a s)
  then show ?case by (cases t) auto
qed

lemma join_inject:
  assumes "\<forall>s\<in>set ss. sep \<notin> set s \<and> s \<noteq> []" and "\<forall>s\<in>set ts. sep \<notin> set s \<and> s \<noteq> []"
  shows "join sep ss = join sep ts \<longleftrightarrow> ss = ts"
  using assms
proof (induction ss arbitrary: ts rule: induct_list012)
  case 1
  then show ?case by (cases ts rule: remdups_adj.cases) auto
next
  case (2 s)
  then show ?case by (cases ts rule: remdups_adj.cases) auto
next
  case (3 s s' ss)
  show ?case
  proof (cases ts rule: remdups_adj.cases)
    case (3 t t' ts')
    then show ?thesis using "3.prems" "3.IH"(2) [of "t' # ts'"] append_sep_inject [of sep s t] by auto
  qed (use "3.prems" in auto)
qed

lemma char_at_Some: "char_at s i = Some c \<longleftrightarrow> i < length s \<and> s ! i = c"
  by (auto simp: char_at_def)

lemma char_at_None: "char_at s i = None \<longleftrightarrow> length s \<le> i"
  by (auto simp: char_at_def)

section \<open>Results that are not cut short\<close>

named_theorems clean_intros "operations that never run out of fuel"

definition clean :: "regex_error + 'a \<Rightarrow> bool" where
  "clean m \<longleftrightarrow> m \<noteq> Inl OutOfFuel"

lemma clean_simps [simp]:
  "clean (Inr x)" "clean (Inl (Unsupported s))" "\<not> clean (Inl OutOfFuel)"
  by (simp_all add: clean_def)

lemma clean_rbind [clean_intros]: "clean m \<Longrightarrow> (\<And>x. m = Inr x \<Longrightarrow> clean (f x)) \<Longrightarrow> clean (rbind m f)"
  by (cases m) (auto simp: clean_def)

lemma clean_rmap [clean_intros]: "(\<And>x. x \<in> set xs \<Longrightarrow> clean (f x)) \<Longrightarrow> clean (rmap f xs)"
  by (induction xs) (auto intro!: clean_rbind)

lemma clean_if [clean_intros]: "(b \<Longrightarrow> clean m) \<Longrightarrow> (\<not> b \<Longrightarrow> clean m') \<Longrightarrow> clean (if b then m else m')"
  by simp

lemma clean_option [clean_intros]:
  "(x = None \<Longrightarrow> clean m) \<Longrightarrow> (\<And>y. x = Some y \<Longrightarrow> clean (f y)) \<Longrightarrow> clean (case x of None \<Rightarrow> m | Some y \<Rightarrow> f y)"
  by (cases x) simp_all

lemma clean_prod [clean_intros]: "(\<And>a b. x = (a, b) \<Longrightarrow> clean (f a b)) \<Longrightarrow> clean (case x of (a, b) \<Rightarrow> f a b)"
  by (cases x) simp

lemma clean_let [clean_intros]: "(\<And>y. y = x \<Longrightarrow> clean (f y)) \<Longrightarrow> clean (let y = x in f y)"
  by simp

end
