(* ===== verification/CaseFold.thy ===== *)
theory CaseFold
  imports RegexVM "HOL-Library.AList" "HOL-Library.Product_Lexorder"
begin

text \<open>
  Non-Unicode case folding, \<open>src/src/codegen/regex/casefold.ts\<close>. The host's
  \<open>String.prototype.toUpperCase\<close> on a one-unit string is the parameter \<open>upper\<close>: the code units of
  the result. The equivalence classes the source caches are built by the same passes, and the
  class a fold yields is shown to be the set of units with the same canonical form.
\<close>

section \<open>Merging ranges\<close>

text \<open>
  One step of the merging loop shared by \<open>coalesce\<close> and by \<open>addClass\<close> of \<open>compile.ts\<close>: extend
  the last range or append a new one.
\<close>

definition push_range :: "nat \<times> nat \<Rightarrow> ranges \<Rightarrow> ranges" where
  "push_range = (\<lambda>(lo, hi) out.
     if out \<noteq> [] \<and> lo \<le> snd (last out) + 1
     then butlast out @ [(fst (last out), max (snd (last out)) hi)]
     else out @ [(lo, hi)])"

definition coalesce :: "ranges \<Rightarrow> ranges" where
  "coalesce rs = fold push_range (sort (filter (\<lambda>(a, b). a \<le> b) rs)) []"

definition unitsToRanges :: "nat list \<Rightarrow> ranges" where
  "unitsToRanges units = coalesce (map (\<lambda>u. (u, u)) units)"

section \<open>Equivalence classes\<close>

definition canonicalizeLegacy :: "(nat \<Rightarrow> nat list) \<Rightarrow> nat \<Rightarrow> nat" where
  "canonicalizeLegacy upper ch =
     (let u = upper ch in
      if length u \<noteq> 1 then ch
      else let cu = hd u in if ch \<ge> 128 \<and> cu < 128 then ch else cu)"

definition all_units :: "nat list" where
  "all_units = [0..<0x10000]"

definition add_unit :: "(nat \<Rightarrow> nat list) \<Rightarrow> nat \<Rightarrow> (nat \<times> nat list) list \<Rightarrow> (nat \<times> nat list) list" where
  "add_unit upper ch m =
     (let c = canonicalizeLegacy upper ch;
          arr = (case map_of m c of None \<Rightarrow> [] | Some l \<Rightarrow> l)
      in AList.update c (arr @ [ch]) m)"

definition byCanon :: "(nat \<Rightarrow> nat list) \<Rightarrow> (nat \<times> nat list) list" where
  "byCanon upper = fold (add_unit upper) all_units []"

definition equivMap :: "(nat \<Rightarrow> nat list) \<Rightarrow> (nat \<times> nat list) list" where
  "equivMap upper = concat (map (\<lambda>(c, arr). if length arr \<le> 1 then [] else map (\<lambda>u. (u, arr)) arr) (byCanon upper))"

definition casedUnits :: "(nat \<Rightarrow> nat list) \<Rightarrow> nat list" where
  "casedUnits upper = sort (map fst (equivMap upper))"

definition foldCharUnitsLegacy :: "(nat \<Rightarrow> nat list) \<Rightarrow> nat \<Rightarrow> nat list" where
  "foldCharUnitsLegacy upper code =
     (case map_of (equivMap upper) code of Some eq \<Rightarrow> eq | None \<Rightarrow> [code])"

definition foldClassRangesLegacy :: "(nat \<Rightarrow> nat list) \<Rightarrow> ranges \<Rightarrow> ranges" where
  "foldClassRangesLegacy upper rs =
     (let extra = concat (map (\<lambda>u. if in_ranges rs u
                                   then map (\<lambda>p. (p, p)) (the (map_of (equivMap upper) u)) else [])
                           (casedUnits upper))
      in coalesce (rs @ extra))"

section \<open>Merging keeps the members\<close>

definition ranges_ok :: "ranges \<Rightarrow> bool" where
  "ranges_ok rs \<longleftrightarrow> list_all (\<lambda>(lo, hi). lo \<le> hi) rs"

lemma in_ranges_append: "in_ranges (xs @ ys) c \<longleftrightarrow> in_ranges xs c \<or> in_ranges ys c"
  and in_ranges_Cons: "in_ranges (x # xs) c \<longleftrightarrow> fst x \<le> c \<and> c \<le> snd x \<or> in_ranges xs c"
  and in_ranges_Nil [simp]: "\<not> in_ranges [] c"
  by (auto simp: in_ranges_def)

lemma push_range_all:
  assumes s: "ranges_sorted out" and ok: "ranges_ok out" and lh: "lo \<le> hi" and le: "\<forall>r\<in>set out. fst r \<le> lo"
  shows "ranges_sorted (push_range (lo, hi) out) \<and> ranges_ok (push_range (lo, hi) out)
    \<and> (\<forall>r\<in>set (push_range (lo, hi) out). fst r \<le> lo)
    \<and> in_ranges (push_range (lo, hi) out) c = (in_ranges out c \<or> lo \<le> c \<and> c \<le> hi)"
proof (cases "out \<noteq> [] \<and> lo \<le> snd (last out) + 1")
  case True
  define a b front where "a = fst (last out)" and "b = snd (last out)" and "front = butlast out"
  have out: "out = front @ [(a, b)]" using True by (simp add: a_def b_def front_def)
  have ab: "a \<le> b" "a \<le> lo" using ok le by (auto simp: out ranges_ok_def)
  have p: "push_range (lo, hi) out = front @ [(a, max b hi)]"
    using True by (simp add: push_range_def a_def b_def front_def)
  show ?thesis
    unfolding p using s ok le ab True lh
    by (auto simp: out ranges_sorted_def sorted_wrt_append ranges_ok_def in_ranges_append in_ranges_Cons max_def)
next
  case False
  have p: "push_range (lo, hi) out = out @ [(lo, hi)]"
    using False by (auto simp: push_range_def)
  have "snd r < lo" if "r \<in> set out" for r
  proof -
    from that obtain front l where out: "out = front @ [l]" by (cases out rule: rev_cases) auto
    then have "snd r \<le> snd l" using s that by (auto simp: ranges_sorted_def sorted_wrt_append)
    with False out show ?thesis by auto
  qed
  then show ?thesis
    unfolding p using s ok le lh
    by (fastforce simp: ranges_sorted_def sorted_wrt_append ranges_ok_def in_ranges_append in_ranges_Cons)
qed

lemmas push_range_props = push_range_all [THEN conjunct1] push_range_all [THEN conjunct2, THEN conjunct1]
  push_range_all [THEN conjunct2, THEN conjunct2, THEN conjunct1]
  push_range_all [THEN conjunct2, THEN conjunct2, THEN conjunct2]

lemma fold_push_range:
  assumes "ranges_sorted out" and "ranges_ok out" and "ranges_ok rs" and "sorted rs"
    and "\<forall>r\<in>set out. \<forall>q\<in>set rs. fst r \<le> fst q"
  shows "ranges_sorted (fold push_range rs out) \<and> ranges_ok (fold push_range rs out)
    \<and> (\<forall>c. in_ranges (fold push_range rs out) c \<longleftrightarrow> in_ranges out c \<or> in_ranges rs c)"
  using assms
proof (induction rs arbitrary: out)
  case (Cons x rs)
  obtain lo hi where x: "x = (lo, hi)" by (cases x)
  have lh: "lo \<le> hi" using Cons.prems(3) by (simp add: x ranges_ok_def)
  have le: "\<forall>r\<in>set out. fst r \<le> lo" using Cons.prems(5) by (auto simp: x)
  note p = push_range_props [OF Cons.prems(1,2) lh le]
  have "fst r \<le> fst q" if "r \<in> set (push_range (lo, hi) out)" "q \<in> set rs" for r q
  proof -
    have "lo \<le> fst q" using Cons.prems(4) that(2) by (auto simp: x less_eq_prod_def)
    with p(3) that(1) show ?thesis by fastforce
  qed
  then have "ranges_sorted (fold push_range rs (push_range (lo, hi) out))
      \<and> ranges_ok (fold push_range rs (push_range (lo, hi) out))
      \<and> (\<forall>c. in_ranges (fold push_range rs (push_range (lo, hi) out)) c
            \<longleftrightarrow> in_ranges (push_range (lo, hi) out) c \<or> in_ranges rs c)"
    using Cons.prems(3,4) by (intro Cons.IH p) (auto simp: ranges_ok_def)
  then show ?case using p(4) by (auto simp: x in_ranges_Cons)
qed simp

lemma in_ranges_sort: "in_ranges (sort rs) c = in_ranges rs c"
  by (simp add: in_ranges_def)

lemma ranges_sorted_Nil [simp]: "ranges_sorted []" and ranges_ok_Nil [simp]: "ranges_ok []"
  by (simp_all add: ranges_sorted_def ranges_ok_def)

lemma coalesce_props:
  "ranges_sorted (coalesce rs)" "ranges_ok (coalesce rs)" "in_ranges (coalesce rs) c \<longleftrightarrow> in_ranges rs c"
proof -
  let ?f = "filter (\<lambda>(a, b). a \<le> b) rs"
  have "ranges_ok (sort ?f)" by (auto simp: ranges_ok_def list_all_iff)
  then have "ranges_sorted (coalesce rs) \<and> ranges_ok (coalesce rs) \<and> (\<forall>c. in_ranges (coalesce rs) c = in_ranges (sort ?f) c)"
    using fold_push_range [of "[]" "sort ?f"] by (simp add: coalesce_def)
  moreover have "in_ranges (sort ?f) c = in_ranges rs c" by (fastforce simp: in_ranges_def)
  ultimately show "ranges_sorted (coalesce rs)" "ranges_ok (coalesce rs)" "in_ranges (coalesce rs) c \<longleftrightarrow> in_ranges rs c"
    by simp_all
qed

lemma in_ranges_units: "in_ranges (map (\<lambda>u. (u, u)) us) c \<longleftrightarrow> c \<in> set us"
  by (auto simp: in_ranges_def)

lemma in_ranges_concat_map: "in_ranges (concat (map f xs)) c \<longleftrightarrow> (\<exists>x \<in> set xs. in_ranges (f x) c)"
  by (auto simp: in_ranges_def)

lemma in_unitsToRanges: "in_ranges (unitsToRanges us) c \<longleftrightarrow> c \<in> set us"
  by (simp add: unitsToRanges_def coalesce_props in_ranges_units)

section \<open>The classes are those of the canonical form\<close>

abbreviation same_canon :: "(nat \<Rightarrow> nat list) \<Rightarrow> nat \<Rightarrow> nat \<Rightarrow> bool" where
  "same_canon upper u v \<equiv> canonicalizeLegacy upper u = canonicalizeLegacy upper v"

lemma fold_add_unit:
  "(case map_of (fold (add_unit upper) us m) c of None \<Rightarrow> [] | Some l \<Rightarrow> l) =
     (case map_of m c of None \<Rightarrow> [] | Some l \<Rightarrow> l) @ filter (\<lambda>u. canonicalizeLegacy upper u = c) us"
  by (induction us arbitrary: m) (auto simp: add_unit_def Let_def update_conv' split: option.splits)

lemma distinct_fold_add_unit:
  "distinct (map fst m) \<Longrightarrow> distinct (map fst (fold (add_unit upper) us m))"
  by (induction us arbitrary: m) (auto simp: add_unit_def Let_def distinct_update)

lemma byCanon_entry:
  assumes "(c, arr) \<in> set (byCanon upper)"
  shows "arr = filter (\<lambda>u. canonicalizeLegacy upper u = c) all_units"
proof -
  have d: "distinct (map fst (byCanon upper))" unfolding byCanon_def by (rule distinct_fold_add_unit) simp
  have "map_of (byCanon upper) c = Some arr" using d assms by (rule map_of_is_SomeI)
  then show ?thesis using fold_add_unit [where us = all_units and m = "[]" and c = c and upper = upper]
    by (simp add: byCanon_def [symmetric])
qed

lemma byCanon_present:
  assumes "u \<in> set all_units"
  shows "(canonicalizeLegacy upper u, filter (\<lambda>v. same_canon upper v u) all_units) \<in> set (byCanon upper)"
proof -
  let ?c = "canonicalizeLegacy upper u"
  have ne: "filter (\<lambda>v. same_canon upper v u) all_units \<noteq> []"
    using assms by (auto simp: filter_empty_conv)
  have "(case map_of (byCanon upper) ?c of None \<Rightarrow> [] | Some l \<Rightarrow> l) = filter (\<lambda>v. same_canon upper v u) all_units"
    using fold_add_unit [where us = all_units and m = "[]" and c = ?c and upper = upper] by (simp add: byCanon_def)
  with ne have "map_of (byCanon upper) ?c = Some (filter (\<lambda>v. same_canon upper v u) all_units)"
    by (auto split: option.splits)
  then show ?thesis by (rule map_of_SomeD)
qed

lemma equivMap_entry:
  "(u, arr) \<in> set (equivMap upper) \<longleftrightarrow>
     u \<in> set all_units \<and> arr = filter (\<lambda>v. same_canon upper v u) all_units \<and> 1 < length arr"
proof
  assume "(u, arr) \<in> set (equivMap upper)"
  then obtain c where "(c, arr) \<in> set (byCanon upper)" "1 < length arr" "u \<in> set arr"
    by (auto simp: equivMap_def split: if_splits)
  then show "u \<in> set all_units \<and> arr = filter (\<lambda>v. same_canon upper v u) all_units \<and> 1 < length arr"
    by (auto dest: byCanon_entry)
next
  assume a: "u \<in> set all_units \<and> arr = filter (\<lambda>v. same_canon upper v u) all_units \<and> 1 < length arr"
  then have "(canonicalizeLegacy upper u, arr) \<in> set (byCanon upper)" using byCanon_present by simp
  moreover have "u \<in> set arr" using a by simp
  ultimately show "(u, arr) \<in> set (equivMap upper)" using a by (force simp: equivMap_def)
qed

lemma equivMap_lookup:
  "map_of (equivMap upper) u =
     (if u \<in> set all_units \<and> 1 < length (filter (\<lambda>v. same_canon upper v u) all_units)
      then Some (filter (\<lambda>v. same_canon upper v u) all_units) else None)"
proof (cases "map_of (equivMap upper) u")
  case None
  then have "\<forall>arr. (u, arr) \<notin> set (equivMap upper)" by (auto simp: map_of_eq_None_iff image_iff)
  with None show ?thesis by (auto simp: equivMap_entry)
next
  case (Some arr)
  then have "(u, arr) \<in> set (equivMap upper)" by (rule map_of_SomeD)
  with Some show ?thesis by (auto simp: equivMap_entry)
qed

lemma in_casedUnits:
  "u \<in> set (casedUnits upper) \<longleftrightarrow> u \<in> set all_units \<and> 1 < length (filter (\<lambda>v. same_canon upper v u) all_units)"
proof -
  have "u \<in> set (casedUnits upper) \<longleftrightarrow> (\<exists>arr. (u, arr) \<in> set (equivMap upper))"
    by (force simp: casedUnits_def)
  then show ?thesis by (simp add: equivMap_entry)
qed

lemma alone_in_class:
  assumes "u \<in> set all_units" "\<not> 1 < length (filter (\<lambda>v. same_canon upper v u) all_units)"
    and "v \<in> set all_units" "same_canon upper v u"
  shows "v = u"
proof -
  let ?f = "filter (\<lambda>v. same_canon upper v u) all_units"
  have "u \<in> set ?f" "v \<in> set ?f" using assms by auto
  moreover have "length ?f \<le> 1" using assms(2) by simp
  ultimately show ?thesis by (cases ?f) auto
qed

lemma in_all_units: "u \<in> set all_units \<longleftrightarrow> u < 0x10000"
  by (simp add: all_units_def)

lemma set_foldCharUnitsLegacy:
  assumes "code < 0x10000"
  shows "set (foldCharUnitsLegacy upper code)
    = {u. u < 0x10000 \<and> canonicalizeLegacy upper u = canonicalizeLegacy upper code}"
proof (cases "1 < length (filter (\<lambda>v. same_canon upper v code) all_units)")
  case True
  with assms have "foldCharUnitsLegacy upper code = filter (\<lambda>v. same_canon upper v code) all_units"
    by (simp add: foldCharUnitsLegacy_def equivMap_lookup in_all_units)
  then show ?thesis by (auto simp: in_all_units)
next
  case False
  with assms have "foldCharUnitsLegacy upper code = [code]"
    by (simp add: foldCharUnitsLegacy_def equivMap_lookup)
  moreover have "u = code" if "u < 0x10000" "same_canon upper u code" for u
    using alone_in_class [of code upper u] False assms that by (simp add: in_all_units)
  ultimately show ?thesis using assms by auto
qed

lemma in_foldClassRangesLegacy:
  assumes "c < 0x10000"
  shows "in_ranges (foldClassRangesLegacy upper rs) c \<longleftrightarrow>
    in_ranges rs c \<or> (\<exists>m < 0x10000. in_ranges rs m \<and> canonicalizeLegacy upper m = canonicalizeLegacy upper c)"
proof -
  let ?e = "concat (map (\<lambda>u. if in_ranges rs u then map (\<lambda>p. (p, p)) (the (map_of (equivMap upper) u)) else [])
      (casedUnits upper))"
  have e: "in_ranges ?e c \<longleftrightarrow> (\<exists>u \<in> set (casedUnits upper). in_ranges rs u \<and> c \<in> set (the (map_of (equivMap upper) u)))"
    unfolding in_ranges_concat_map by (auto simp: in_ranges_units)
  have "in_ranges ?e c \<Longrightarrow> \<exists>m < 0x10000. in_ranges rs m \<and> same_canon upper m c"
    unfolding e by (auto simp: in_casedUnits equivMap_lookup in_all_units)
  moreover have "in_ranges rs c \<or> in_ranges ?e c" if m: "m < 0x10000" "in_ranges rs m" "same_canon upper m c" for m
  proof (cases "1 < length (filter (\<lambda>v. same_canon upper v m) all_units)")
    case True
    then have "m \<in> set (casedUnits upper)" "c \<in> set (the (map_of (equivMap upper) m))"
      using m assms by (auto simp: in_casedUnits equivMap_lookup in_all_units)
    with m show ?thesis unfolding e by blast
  next
    case False
    have "c = m"
      by (rule alone_in_class [OF _ False]) (use m assms in \<open>auto simp only: in_all_units\<close>)
    with m(2) show ?thesis by simp
  qed
  ultimately show ?thesis
    by (auto simp: foldClassRangesLegacy_def Let_def coalesce_props in_ranges_append)
qed

text \<open>
  For a code unit, \<open>foldCharUnitsLegacy\<close> returns exactly the code units with the same
  canonical form.
\<close>

theorem foldCharUnitsLegacy_spec:
  assumes "code < 0x10000"
  shows "set (foldCharUnitsLegacy upper code)
    = {u. u < 0x10000 \<and> canonicalizeLegacy upper u = canonicalizeLegacy upper code}"
  using assms by (rule set_foldCharUnitsLegacy)

text \<open>
  C38. \<open>foldClassRangesLegacy\<close> returns sorted disjoint ranges, and a code unit is in them exactly
  when some code unit of the class has the same canonical form.
\<close>

theorem foldClassRangesLegacy_spec:
  assumes "c < 0x10000"
  shows "ranges_sorted (foldClassRangesLegacy upper rs)
    \<and> (in_ranges (foldClassRangesLegacy upper rs) c \<longleftrightarrow>
        in_ranges rs c \<or> (\<exists>m < 0x10000. in_ranges rs m \<and> canonicalizeLegacy upper m = canonicalizeLegacy upper c))"
  using in_foldClassRangesLegacy [OF assms] by (simp add: foldClassRangesLegacy_def Let_def coalesce_props)

definition ascii_upper :: "nat \<Rightarrow> nat list" where
  "ascii_upper c = (if 0x61 \<le> c \<and> c \<le> 0x7a then [c - 0x20] else [c])"

lemma canon_ascii_upper: "canonicalizeLegacy ascii_upper u = (if 0x61 \<le> u \<and> u \<le> 0x7a then u - 0x20 else u)"
  by (simp add: canonicalizeLegacy_def ascii_upper_def)

theorem foldCharUnitsLegacy_spec_witness: "set (foldCharUnitsLegacy ascii_upper 0x6b) = {0x4b, 0x6b}"
proof -
  have "u < 0x10000 \<and> canonicalizeLegacy ascii_upper u = canonicalizeLegacy ascii_upper 0x6b \<longleftrightarrow> u \<in> {0x4b, 0x6b}" for u
    unfolding canon_ascii_upper by (cases "0x61 \<le> u \<and> u \<le> 0x7a") auto
  then show ?thesis using foldCharUnitsLegacy_spec [of "0x6b" ascii_upper] by auto
qed

theorem foldClassRangesLegacy_spec_witness:
  "in_ranges (foldClassRangesLegacy ascii_upper [(0x61, 0x63)]) 0x42"
proof -
  have "in_ranges [(0x61, 0x63)] (0x62 :: nat)" by (simp add: in_ranges_Cons)
  moreover have "canonicalizeLegacy ascii_upper 0x62 = canonicalizeLegacy ascii_upper 0x42"
    by (simp add: canon_ascii_upper)
  ultimately have "\<exists>m < 0x10000. in_ranges [(0x61, 0x63)] m
      \<and> canonicalizeLegacy ascii_upper m = canonicalizeLegacy ascii_upper 0x42"
    by (intro exI [of _ "0x62"]) simp
  then show ?thesis
    using foldClassRangesLegacy_spec [of "0x42" ascii_upper "[(0x61, 0x63)]"] by simp
qed

end
