(* ===== verification/UnicodeSets.thy ===== *)
theory UnicodeSets
  imports JsString CaseFold
begin

text \<open>
  Sets of code points as range lists and finite sets of strings: \<open>complementRanges\<close> of
  \<open>src/src/codegen/regex/parse.ts\<close> and the set algebra of
  \<open>src/src/codegen/regex/unicode-string-properties.ts\<close>. Every operation is shown to compute the set
  operation it is named after and to keep the representation invariant.
\<close>

section \<open>Ranges\<close>

fun complement_loop :: "ranges \<Rightarrow> nat \<Rightarrow> ranges" where
  "complement_loop [] from = (if from \<le> 0xffff then [(from, 0xffff)] else [])"
| "complement_loop ((lo, hi) # rs) from =
     (if lo > from then [(from, lo - 1)] else []) @ complement_loop rs (max from (hi + 1))"

definition complementRanges :: "ranges \<Rightarrow> ranges" where
  "complementRanges rs = complement_loop (sort_key fst rs) 0"

definition codePointRanges :: "nat list \<Rightarrow> ranges" where
  "codePointRanges cps = fold push_range (map (\<lambda>cp. (cp, cp)) (sort cps)) []"

definition singletonRanges :: "nat list \<Rightarrow> ranges" where
  "singletonRanges cps = fold push_range (map (\<lambda>cp. (cp, cp)) (sort cps)) []"

definition unionRanges :: "ranges \<Rightarrow> ranges \<Rightarrow> ranges" where
  "unionRanges left right = fold push_range (sort (left @ right)) []"

fun intersectRanges :: "ranges \<Rightarrow> ranges \<Rightarrow> ranges" where
  "intersectRanges ((leftLo, leftHi) # left) ((rightLo, rightHi) # right) =
     (let lo = max leftLo rightLo; hi = min leftHi rightHi in
      (if lo \<le> hi then [(lo, hi)] else []) @
      (if leftHi < rightHi then intersectRanges left ((rightLo, rightHi) # right)
       else intersectRanges ((leftLo, leftHi) # left) right))"
| "intersectRanges [] right = []"
| "intersectRanges left [] = []"

text \<open>
  The inner loop of \<open>subtractRanges\<close> over the right ranges from \<open>scan\<close> on, then the remainder of the
  left range.
\<close>

fun subtract_scan :: "ranges \<Rightarrow> nat \<Rightarrow> nat \<Rightarrow> ranges" where
  "subtract_scan [] cursor leftHi = (if cursor \<le> leftHi then [(cursor, leftHi)] else [])"
| "subtract_scan ((rightLo, rightHi) # right) cursor leftHi =
     (if rightLo \<le> leftHi then
        (if rightLo > cursor then [(cursor, min leftHi (rightLo - 1))] else []) @
        (let cursor' = max cursor (rightHi + 1) in
         if cursor' > leftHi then [] else subtract_scan right cursor' leftHi)
      else if cursor \<le> leftHi then [(cursor, leftHi)] else [])"

fun subtractRanges :: "ranges \<Rightarrow> ranges \<Rightarrow> ranges" where
  "subtractRanges [] right = []"
| "subtractRanges ((leftLo, leftHi) # left) right =
     (let right' = dropWhile (\<lambda>r. snd r < leftLo) right in
      subtract_scan right' leftLo leftHi @ subtractRanges left right')"

section \<open>Finite sets of strings\<close>

record unicode_string_set =
  us_ranges :: ranges
  us_strings :: "(jsstring \<times> nat list) list"

definition sequenceKey :: "nat list \<Rightarrow> jsstring" where
  "sequenceKey sequence = join (ch CHR '','') (map (show_radix 10) sequence)"

definition add_sequence :: "nat list \<Rightarrow> nat list \<times> (jsstring \<times> nat list) list \<Rightarrow> nat list \<times> (jsstring \<times> nat list) list" where
  "add_sequence sequence = (\<lambda>(singles, strings).
     if length sequence = 1 then (singles @ [hd sequence], strings)
     else (singles, AList.update (sequenceKey sequence) sequence strings))"

definition fromSequences :: "nat list list \<Rightarrow> unicode_string_set" where
  "fromSequences sequences =
     (let (singles, strings) = fold add_sequence sequences ([], []) in
      \<lparr>us_ranges = singletonRanges singles, us_strings = strings\<rparr>)"

definition union_sets :: "unicode_string_set \<Rightarrow> unicode_string_set \<Rightarrow> unicode_string_set" where
  "union_sets left right =
     \<lparr>us_ranges = unionRanges (us_ranges left) (us_ranges right),
      us_strings = fold (\<lambda>(k, s). AList.update k s) (us_strings left @ us_strings right) []\<rparr>"

definition intersect_sets :: "unicode_string_set \<Rightarrow> unicode_string_set \<Rightarrow> unicode_string_set" where
  "intersect_sets left right =
     \<lparr>us_ranges = intersectRanges (us_ranges left) (us_ranges right),
      us_strings = fold (\<lambda>(k, s) strings. if map_of (us_strings right) k \<noteq> None then AList.update k s strings else strings)
        (us_strings left) []\<rparr>"

definition subtract_sets :: "unicode_string_set \<Rightarrow> unicode_string_set \<Rightarrow> unicode_string_set" where
  "subtract_sets left right =
     \<lparr>us_ranges = subtractRanges (us_ranges left) (us_ranges right),
      us_strings = fold (\<lambda>(k, s). AList.delete k) (us_strings right) (us_strings left)\<rparr>"

section \<open>Ranges compute sets\<close>

text \<open>Sorted, disjoint, non-empty ranges: what every operation returns and what two of them need.\<close>

definition cp_ranges :: "ranges \<Rightarrow> bool" where
  "cp_ranges rs \<longleftrightarrow> ranges_sorted rs \<and> ranges_ok rs"

lemma cp_ranges_Nil [simp]: "cp_ranges []"
  by (simp add: cp_ranges_def)

lemma cp_ranges_Cons:
  "cp_ranges ((lo, hi) # rs) \<longleftrightarrow> lo \<le> hi \<and> (\<forall>r\<in>set rs. hi < fst r) \<and> cp_ranges rs"
  by (fastforce simp: cp_ranges_def ranges_sorted_def ranges_ok_def list_all_iff)

lemma cp_ranges_append:
  "cp_ranges (xs @ ys) \<longleftrightarrow> cp_ranges xs \<and> cp_ranges ys \<and> (\<forall>x\<in>set xs. \<forall>y\<in>set ys. snd x < fst y)"
proof (induction xs)
  case (Cons x xs)
  then show ?case by (cases x) (simp add: cp_ranges_Cons ball_Un, blast)
qed simp

lemma cp_ranges_member: "cp_ranges rs \<Longrightarrow> r \<in> set rs \<Longrightarrow> fst r \<le> snd r"
  by (auto simp: cp_ranges_def ranges_ok_def list_all_iff)

lemma cp_rangesI_fold:
  assumes "ranges_ok rs" and "sorted rs"
  shows "cp_ranges (fold push_range rs [])" and "in_ranges (fold push_range rs []) c = in_ranges rs c"
  using fold_push_range [OF _ _ assms, of "[]"] by (simp_all add: cp_ranges_def)

lemma sorted_singles: "sorted (map (\<lambda>cp. (cp, cp)) (sort cps :: nat list))"
  by (simp add: sorted_map less_eq_prod_def sorted_wrt_mono_rel [of _ "(\<le>)"])

lemma codePointRanges_props:
  "cp_ranges (codePointRanges cps)" "in_ranges (codePointRanges cps) c \<longleftrightarrow> c \<in> set cps"
  using cp_rangesI_fold [OF _ sorted_singles [of cps]]
  by (auto simp: codePointRanges_def ranges_ok_def list_all_iff in_ranges_units)

lemma singletonRanges_props:
  "cp_ranges (singletonRanges cps)" "in_ranges (singletonRanges cps) c \<longleftrightarrow> c \<in> set cps"
  using codePointRanges_props by (simp_all add: singletonRanges_def codePointRanges_def)

lemma unionRanges_props:
  assumes "ranges_ok left" and "ranges_ok right"
  shows "cp_ranges (unionRanges left right)"
    and "in_ranges (unionRanges left right) c \<longleftrightarrow> in_ranges left c \<or> in_ranges right c"
proof -
  have ok: "ranges_ok (sort (left @ right))" using assms by (simp add: ranges_ok_def list_all_iff ball_Un)
  show "cp_ranges (unionRanges left right)"
    and "in_ranges (unionRanges left right) c \<longleftrightarrow> in_ranges left c \<or> in_ranges right c"
    using cp_rangesI_fold [OF ok] by (simp_all add: unionRanges_def in_ranges_sort in_ranges_append)
qed

lemma in_ranges_bound: "\<forall>r\<in>set rs. n < fst r \<Longrightarrow> in_ranges rs c \<Longrightarrow> n < c"
  by (fastforce simp: in_ranges_def)

lemma intersectRanges_bound:
  "r \<in> set (intersectRanges left right) \<Longrightarrow> (\<exists>l\<in>set left. fst l \<le> fst r) \<and> (\<exists>q\<in>set right. fst q \<le> fst r)"
  by (induction left right rule: intersectRanges.induct) (auto simp: Let_def split: if_splits)

lemma intersectRanges_props:
  assumes "cp_ranges left" and "cp_ranges right"
  shows "cp_ranges (intersectRanges left right) \<and> (in_ranges (intersectRanges left right) c \<longleftrightarrow> in_ranges left c \<and> in_ranges right c)"
  using assms
proof (induction left right rule: intersectRanges.induct)
  case (1 ll lh left rl rh right)
  let ?l = "(ll, lh) # left" and ?r = "(rl, rh) # right"
  note l = "1.prems"(1) [unfolded cp_ranges_Cons] and r = "1.prems"(2) [unfolded cp_ranges_Cons]
  have lb: "in_ranges left c \<Longrightarrow> lh < c" and rb: "in_ranges right c \<Longrightarrow> rh < c"
    using l r by (auto dest: in_ranges_bound)
  show ?case
  proof (cases "lh < rh")
    case True
    have IH: "cp_ranges (intersectRanges left ?r)" "in_ranges (intersectRanges left ?r) c \<longleftrightarrow> in_ranges left c \<and> in_ranges ?r c"
      using "1.IH"(1) [OF refl refl True] l "1.prems"(2) by simp_all
    have "\<forall>q\<in>set (intersectRanges left ?r). lh < fst q" using intersectRanges_bound [of _ left ?r] l by fastforce
    then show ?thesis using True IH lb rb by (auto simp: Let_def cp_ranges_Cons in_ranges_Cons)
  next
    case False
    have IH: "cp_ranges (intersectRanges ?l right)" "in_ranges (intersectRanges ?l right) c \<longleftrightarrow> in_ranges ?l c \<and> in_ranges right c"
      using "1.IH"(2) [OF refl refl False] r "1.prems"(1) by simp_all
    have "\<forall>q\<in>set (intersectRanges ?l right). rh < fst q" using intersectRanges_bound [of _ ?l right] r by fastforce
    then show ?thesis using False IH lb rb by (auto simp: Let_def cp_ranges_Cons in_ranges_Cons)
  qed
qed simp_all

lemma subtract_scan_props:
  assumes "cp_ranges right"
  shows "cp_ranges (subtract_scan right cursor leftHi)
    \<and> (\<forall>r\<in>set (subtract_scan right cursor leftHi). cursor \<le> fst r \<and> snd r \<le> leftHi)
    \<and> (in_ranges (subtract_scan right cursor leftHi) c \<longleftrightarrow> cursor \<le> c \<and> c \<le> leftHi \<and> \<not> in_ranges right c)"
  using assms
proof (induction right cursor leftHi rule: subtract_scan.induct)
  case (1 cursor leftHi)
  then show ?case by (auto simp: cp_ranges_Cons in_ranges_Cons)
next
  case (2 rl rh right cursor leftHi)
  note r = "2.prems" [unfolded cp_ranges_Cons]
  have rb: "in_ranges right c \<Longrightarrow> rh < c" using r by (auto dest: in_ranges_bound)
  show ?case
  proof (cases "rl \<le> leftHi \<and> max cursor (rh + 1) \<le> leftHi")
    case True
    let ?s = "subtract_scan right (max cursor (rh + 1)) leftHi"
    have IH: "cp_ranges ?s" "\<forall>r\<in>set ?s. max cursor (rh + 1) \<le> fst r \<and> snd r \<le> leftHi"
      "in_ranges ?s c \<longleftrightarrow> max cursor (rh + 1) \<le> c \<and> c \<le> leftHi \<and> \<not> in_ranges right c"
      using "2.IH" [OF conjunct1 [OF True] refl] True r by (simp_all add: not_less del: max.bounded_iff)
    show ?thesis
      using True IH r rb by (auto simp: Let_def cp_ranges_Cons in_ranges_Cons dest: bspec)
  next
    case False
    then show ?thesis using r rb by (auto simp: Let_def cp_ranges_Cons in_ranges_Cons)
  qed
qed

lemma in_ranges_dropWhile:
  assumes "\<not> in_ranges (takeWhile P rs) c"
  shows "in_ranges (dropWhile P rs) c = in_ranges rs c"
  using assms in_ranges_append [of "takeWhile P rs" "dropWhile P rs" c] by simp

lemma cp_ranges_dropWhile: "cp_ranges rs \<Longrightarrow> cp_ranges (dropWhile P rs)"
  using cp_ranges_append [of "takeWhile P rs" "dropWhile P rs"] by simp

lemma subtractRanges_props:
  assumes "cp_ranges left" and "cp_ranges right"
  shows "cp_ranges (subtractRanges left right)
    \<and> (\<forall>r\<in>set (subtractRanges left right). \<exists>l\<in>set left. fst l \<le> fst r)
    \<and> (in_ranges (subtractRanges left right) c \<longleftrightarrow> in_ranges left c \<and> \<not> in_ranges right c)"
  using assms
proof (induction left right rule: subtractRanges.induct)
  case (2 ll lh left right)
  let ?r = "dropWhile (\<lambda>r. snd r < ll) right"
  note l = "2.prems"(1) [unfolded cp_ranges_Cons] and r = cp_ranges_dropWhile [OF "2.prems"(2), of "\<lambda>r. snd r < ll"]
  have lb: "in_ranges left c \<Longrightarrow> lh < c" using l by (auto dest: in_ranges_bound)
  have same: "in_ranges ?r c = in_ranges right c" if "ll \<le> c"
    by (rule in_ranges_dropWhile) (use that in \<open>fastforce simp: in_ranges_def dest: set_takeWhileD\<close>)
  note S = subtract_scan_props [OF r, of ll lh]
  have IH: "cp_ranges (subtractRanges left ?r)" "\<forall>q\<in>set (subtractRanges left ?r). \<exists>l\<in>set left. fst l \<le> fst q"
    "in_ranges (subtractRanges left ?r) c \<longleftrightarrow> in_ranges left c \<and> \<not> in_ranges ?r c"
    using "2.IH" [OF refl] l r by simp_all
  have "snd x < fst y" if "x \<in> set (subtract_scan ?r ll lh)" "y \<in> set (subtractRanges left ?r)" for x y
    using S that IH(2) l by fastforce
  moreover have "\<exists>l\<in>set ((ll, lh) # left). fst l \<le> fst q" if "q \<in> set (subtract_scan ?r ll lh @ subtractRanges left ?r)" for q
    using S that IH(2) by fastforce
  moreover have "in_ranges (subtract_scan ?r ll lh @ subtractRanges left ?r) c \<longleftrightarrow> in_ranges ((ll, lh) # left) c \<and> \<not> in_ranges right c"
    using S [where c = c] IH(3) same lb l by (auto simp: in_ranges_append in_ranges_Cons)
  ultimately show ?case using S IH(1) by (simp add: Let_def cp_ranges_append)
qed simp

lemma complement_loop_props:
  assumes "sorted (map fst rs)" and "ranges_ok rs" and "\<forall>r\<in>set rs. snd r \<le> 0xffff" and "from \<le> 0x10000"
  shows "cp_ranges (complement_loop rs from) \<and> (\<forall>r\<in>set (complement_loop rs from). from \<le> fst r \<and> snd r \<le> 0xffff)
    \<and> (in_ranges (complement_loop rs from) c \<longleftrightarrow> from \<le> c \<and> c \<le> 0xffff \<and> \<not> in_ranges rs c)"
  using assms
proof (induction rs "from" rule: complement_loop.induct)
  case (2 lo hi rs "from")
  define t where "t = complement_loop rs (max from (hi + 1))"
  have b: "lo \<le> hi" "hi \<le> 0xffff" "\<forall>r\<in>set rs. lo \<le> fst r" using "2.prems" by (auto simp: ranges_ok_def)
  have IH: "cp_ranges t" "\<forall>r\<in>set t. max from (hi + 1) \<le> fst r \<and> snd r \<le> 0xffff"
    "in_ranges t c \<longleftrightarrow> max from (hi + 1) \<le> c \<and> c \<le> 0xffff \<and> \<not> in_ranges rs c"
    using "2.IH" "2.prems" by (auto simp: ranges_ok_def t_def)
  have m: "from \<le> x \<and> hi < x \<and> y \<le> 0xffff" if "(x, y) \<in> set t" for x y using IH(2) that by fastforce
  have "in_ranges rs c \<Longrightarrow> lo \<le> c" using b(3) by (fastforce simp: in_ranges_def)
  then show ?case
    unfolding complement_loop.simps t_def [symmetric] using IH(1,3) b by (auto simp: cp_ranges_Cons in_ranges_Cons dest!: m)
qed (auto simp: cp_ranges_Cons in_ranges_Cons)

lemma complementRanges_cp:
  assumes "ranges_ok rs" and "\<forall>r\<in>set rs. snd r \<le> 0xffff"
  shows "cp_ranges (complementRanges rs) \<and> (\<forall>c. in_ranges (complementRanges rs) c \<longleftrightarrow> c \<le> 0xffff \<and> \<not> in_ranges rs c)"
proof -
  have "ranges_ok (sort_key fst rs)" "\<forall>r\<in>set (sort_key fst rs). snd r \<le> 0xffff" "in_ranges (sort_key fst rs) c = in_ranges rs c" for c
    using assms by (simp_all add: ranges_ok_def list_all_iff in_ranges_def)
  with complement_loop_props [of "sort_key fst rs" 0] show ?thesis by (simp add: complementRanges_def)
qed

text \<open>
  C36. \<open>complementRanges\<close> returns sorted, disjoint ranges of UTF-16 code units whose members are exactly
  the units outside the given ranges, in whatever order those are listed and however they overlap.
\<close>

theorem complementRanges_correct:
  assumes "ranges_ok rs" and "\<forall>r\<in>set rs. snd r \<le> 0xffff"
  shows "cp_ranges (complementRanges rs) \<and> (\<forall>c. in_ranges (complementRanges rs) c \<longleftrightarrow> c \<le> 0xffff \<and> \<not> in_ranges rs c)"
  using assms by (rule complementRanges_cp)

section \<open>Sets of strings compute sets\<close>

text \<open>The strings a set denotes: its code points as strings of length one, and its other strings.\<close>

definition members :: "unicode_string_set \<Rightarrow> nat list set" where
  "members S = {[c] | c. in_ranges (us_ranges S) c} \<union> snd ` set (us_strings S)"

definition keyed :: "(jsstring \<times> nat list) list \<Rightarrow> bool" where
  "keyed ss \<longleftrightarrow> distinct (map fst ss) \<and> list_all (\<lambda>(k, s). k = sequenceKey s \<and> length s \<noteq> 1) ss"

definition us_inv :: "unicode_string_set \<Rightarrow> bool" where
  "us_inv S \<longleftrightarrow> cp_ranges (us_ranges S) \<and> keyed (us_strings S)"

lemma sequenceKey_inject [simp]: "sequenceKey s = sequenceKey t \<longleftrightarrow> s = t"
proof -
  have "inj (show_radix 10)" by (simp add: inj_def show_radix_inject)
  moreover have "ch CHR '','' \<notin> set (show_radix 10 n)" for n using digits_not_in_show_radix [of 10 "ch CHR '',''" n] by auto
  ultimately show ?thesis unfolding sequenceKey_def by (subst join_inject) (auto simp: inj_map_eq_map)
qed

lemma keyed_Nil [simp]: "keyed []"
  by (simp add: keyed_def)

lemma keyed_update:
  assumes "keyed ss" and "length s \<noteq> 1"
  shows "keyed (AList.update (sequenceKey s) s ss)"
    and "set (AList.update (sequenceKey s) s ss) = insert (sequenceKey s, s) (set ss)"
proof -
  show set: "set (AList.update (sequenceKey s) s ss) = insert (sequenceKey s, s) (set ss)"
    using assms(1) by (induction ss) (auto simp: keyed_def)
  show "keyed (AList.update (sequenceKey s) s ss)"
    using assms distinct_update [of ss "sequenceKey s" s] set by (auto simp: keyed_def list_all_iff)
qed

lemma keyedD: "keyed ss \<Longrightarrow> (k, s) \<in> set ss \<Longrightarrow> k = sequenceKey s \<and> length s \<noteq> 1"
  by (auto simp: keyed_def list_all_iff)

lemma fold_update_keyed:
  assumes "keyed acc" and "\<forall>(k, s)\<in>set ss. k = sequenceKey s \<and> length s \<noteq> 1"
  shows "keyed (fold (\<lambda>(k, s) strings. if P k then AList.update k s strings else strings) ss acc)
    \<and> set (fold (\<lambda>(k, s) strings. if P k then AList.update k s strings else strings) ss acc) = set acc \<union> {x \<in> set ss. P (fst x)}"
  using assms
proof (induction ss arbitrary: acc)
  case (Cons x ss)
  obtain s where x: "x = (sequenceKey s, s)" "length s \<noteq> 1" using Cons.prems by (cases x) auto
  show ?case
    using Cons.IH [of acc] Cons.IH [OF keyed_update(1) [OF Cons.prems(1) x(2)]] Cons.prems keyed_update(2) [OF Cons.prems(1) x(2)]
    by (auto simp: x(1))
qed simp

lemma keyed_delete: "keyed ss \<Longrightarrow> keyed (AList.delete k ss)"
  by (auto simp: keyed_def AList.delete_eq list_all_iff distinct_map_filter)

lemma fold_delete_keyed:
  "keyed acc \<Longrightarrow> keyed (fold (\<lambda>(k, s). AList.delete k) ss acc)
    \<and> set (fold (\<lambda>(k, s). AList.delete k) ss acc) = {x \<in> set acc. fst x \<notin> fst ` set ss}"
proof (induction ss arbitrary: acc)
  case (Cons x ss)
  obtain k s where x: "x = (k, s)" by (cases x)
  have "set (AList.delete k acc) = {y \<in> set acc. fst y \<noteq> k}" by (auto simp: AList.delete_eq)
  then show ?case using Cons.IH [OF keyed_delete [OF Cons.prems, of k]] by (auto simp: x)
qed simp

lemma union_sets_keyed:
  assumes "ranges_ok (us_ranges left)" and "ranges_ok (us_ranges right)" and "keyed (us_strings left)" and "keyed (us_strings right)"
  shows "us_inv (union_sets left right)" and "members (union_sets left right) = members left \<union> members right"
proof -
  have k: "\<forall>(k, s)\<in>set (us_strings left @ us_strings right). k = sequenceKey s \<and> length s \<noteq> 1"
    using assms by (auto dest: keyedD)
  note f = fold_update_keyed [OF keyed_Nil k, of "\<lambda>_. True"]
  show "us_inv (union_sets left right)"
    using assms f unionRanges_props(1) by (simp add: us_inv_def union_sets_def cp_ranges_def)
  show "members (union_sets left right) = members left \<union> members right"
    using assms f unionRanges_props(2) by (auto simp: members_def union_sets_def image_Un)
qed

lemma union_sets_members:
  assumes "us_inv left" and "us_inv right"
  shows "us_inv (union_sets left right)" and "members (union_sets left right) = members left \<union> members right"
  using assms union_sets_keyed [of left right] by (simp_all add: us_inv_def cp_ranges_def)

lemma same_key:
  assumes "keyed l" and "keyed r" and "(k, s) \<in> set l"
  shows "k \<in> fst ` set r \<longleftrightarrow> s \<in> snd ` set r"
  using assms by (force dest: keyedD)

lemma members_split: "us_inv S \<Longrightarrow> s \<in> members S \<longleftrightarrow> (if length s = 1 then in_ranges (us_ranges S) (hd s) else s \<in> snd ` set (us_strings S))"
proof -
  assume "us_inv S"
  then have "[c] \<notin> snd ` set (us_strings S)" for c using keyedD [of "us_strings S" _ "[c]"] by (auto simp: us_inv_def)
  then show ?thesis by (cases s) (auto simp: members_def)
qed

lemma keyed_inter:
  assumes "keyed l" and "keyed r" and "set l' = {x \<in> set l. (fst x \<in> fst ` set r) = b}"
  shows "s \<in> snd ` set l' \<longleftrightarrow> s \<in> snd ` set l \<and> (s \<in> snd ` set r) = b"
proof -
  have "s \<in> snd ` set l' \<longleftrightarrow> (\<exists>k. (k, s) \<in> set l \<and> (k \<in> fst ` set r) = b)"
    unfolding assms(3) by (auto simp: image_iff)
  also have "\<dots> \<longleftrightarrow> (\<exists>k. (k, s) \<in> set l \<and> (s \<in> snd ` set r) = b)"
    using same_key [OF assms(1,2)] by blast
  finally show ?thesis by force
qed

lemma intersect_sets_members:
  assumes "us_inv left" and "us_inv right"
  shows "us_inv (intersect_sets left right)" and "members (intersect_sets left right) = members left \<inter> members right"
proof -
  have k: "\<forall>(k, s)\<in>set (us_strings left). k = sequenceKey s \<and> length s \<noteq> 1"
    using assms by (auto simp: us_inv_def dest: keyedD)
  note f = fold_update_keyed [OF keyed_Nil k, of "\<lambda>k. map_of (us_strings right) k \<noteq> None"]
  show i: "us_inv (intersect_sets left right)"
    using assms f intersectRanges_props by (simp add: us_inv_def intersect_sets_def)
  have "x \<in> snd ` set (us_strings (intersect_sets left right)) \<longleftrightarrow> x \<in> snd ` set (us_strings left) \<and> x \<in> snd ` set (us_strings right)" for x
    using keyed_inter [of "us_strings left" "us_strings right" "us_strings (intersect_sets left right)" True x] f assms
    by (simp add: intersect_sets_def us_inv_def map_of_eq_None_iff)
  then show "members (intersect_sets left right) = members left \<inter> members right"
    using assms intersectRanges_props [of "us_ranges left" "us_ranges right"] i
    by (intro set_eqI) (simp add: members_split [OF i] members_split [OF assms(1)] members_split [OF assms(2)] us_inv_def, simp add: intersect_sets_def)
qed

lemma subtract_sets_members:
  assumes "us_inv left" and "us_inv right"
  shows "us_inv (subtract_sets left right)" and "members (subtract_sets left right) = members left - members right"
proof -
  note f = fold_delete_keyed [of "us_strings left" "us_strings right"]
  show i: "us_inv (subtract_sets left right)"
    using assms f subtractRanges_props by (simp add: us_inv_def subtract_sets_def)
  have "x \<in> snd ` set (us_strings (subtract_sets left right)) \<longleftrightarrow> x \<in> snd ` set (us_strings left) \<and> x \<notin> snd ` set (us_strings right)" for x
    using keyed_inter [of "us_strings left" "us_strings right" "us_strings (subtract_sets left right)" False x] f assms
    by (simp add: subtract_sets_def us_inv_def)
  then show "members (subtract_sets left right) = members left - members right"
    using assms subtractRanges_props [of "us_ranges left" "us_ranges right"] i
    by (intro set_eqI) (simp add: members_split [OF i] members_split [OF assms(1)] members_split [OF assms(2)] us_inv_def, simp add: subtract_sets_def)
qed

lemma fold_add_sequence:
  assumes "keyed strings"
  shows "case fold add_sequence sequences (singles, strings) of (singles', strings') \<Rightarrow> keyed strings'
    \<and> set singles' = set singles \<union> {c. [c] \<in> set sequences}
    \<and> snd ` set strings' = snd ` set strings \<union> {s \<in> set sequences. length s \<noteq> 1}"
  using assms
proof (induction sequences arbitrary: singles strings)
  case (Cons s sequences)
  show ?case
  proof (cases "length s = 1")
    case True
    then obtain c where s: "s = [c]" by (cases s) auto
    have "keyed (snd (fold add_sequence sequences (singles @ [c], strings)))
      \<and> set (fst (fold add_sequence sequences (singles @ [c], strings))) = set (singles @ [c]) \<union> {c. [c] \<in> set sequences}
      \<and> snd ` set (snd (fold add_sequence sequences (singles @ [c], strings))) = snd ` set strings \<union> {s \<in> set sequences. length s \<noteq> 1}"
      using Cons.IH [OF Cons.prems, of "singles @ [c]"] by (simp add: split_def)
    moreover have "add_sequence s (singles, strings) = (singles @ [c], strings)" by (simp add: add_sequence_def s)
    ultimately show ?thesis by (auto simp: split_def s)
  next
    case False
    let ?u = "AList.update (sequenceKey s) s strings"
    have "keyed (snd (fold add_sequence sequences (singles, ?u)))
      \<and> set (fst (fold add_sequence sequences (singles, ?u))) = set singles \<union> {c. [c] \<in> set sequences}
      \<and> snd ` set (snd (fold add_sequence sequences (singles, ?u))) = snd ` set ?u \<union> {s \<in> set sequences. length s \<noteq> 1}"
      using Cons.IH [OF keyed_update(1) [OF Cons.prems False], of singles] by (simp add: split_def)
    moreover have "add_sequence s (singles, strings) = (singles, ?u)" using False by (simp add: add_sequence_def)
    ultimately show ?thesis using False keyed_update(2) [OF Cons.prems False] by (auto simp: split_def)
  qed
qed simp

lemma fromSequences_members: "us_inv (fromSequences sequences)" "members (fromSequences sequences) = set sequences"
proof -
  obtain singles strings where f: "fold add_sequence sequences ([], []) = (singles, strings)"
    by (cases "fold add_sequence sequences ([], [])")
  note p = fold_add_sequence [OF keyed_Nil, of "[]" sequences, unfolded f prod.case]
  have r: "us_ranges (fromSequences sequences) = singletonRanges singles" "us_strings (fromSequences sequences) = strings"
    by (simp_all add: fromSequences_def f)
  show i: "us_inv (fromSequences sequences)" using p singletonRanges_props by (simp add: us_inv_def r)
  have "s \<in> members (fromSequences sequences) \<longleftrightarrow> s \<in> set sequences" for s
    unfolding members_split [OF i] r using p singletonRanges_props(2) by (cases s) auto
  then show "members (fromSequences sequences) = set sequences" by blast
qed

text \<open>
  What a representation of finite sets promises to the evaluator of set expressions, and what
  \<open>Array.prototype.reduce\<close> over it then computes.
\<close>

locale set_algebra =
  fixes inv :: "'r \<Rightarrow> bool" and abs :: "'r \<Rightarrow> 'a set"
    and un :: "'r \<Rightarrow> 'r \<Rightarrow> 'r" and it :: "'r \<Rightarrow> 'r \<Rightarrow> 'r" and df :: "'r \<Rightarrow> 'r \<Rightarrow> 'r"
  assumes un_inv: "inv l \<Longrightarrow> inv r \<Longrightarrow> inv (un l r)" and un_abs: "inv l \<Longrightarrow> inv r \<Longrightarrow> abs (un l r) = abs l \<union> abs r"
    and it_inv: "inv l \<Longrightarrow> inv r \<Longrightarrow> inv (it l r)" and it_abs: "inv l \<Longrightarrow> inv r \<Longrightarrow> abs (it l r) = abs l \<inter> abs r"
    and df_inv: "inv l \<Longrightarrow> inv r \<Longrightarrow> inv (df l r)" and df_abs: "inv l \<Longrightarrow> inv r \<Longrightarrow> abs (df l r) = abs l - abs r"
begin

lemma reduce_un:
  "inv l \<Longrightarrow> \<forall>r\<in>set rs. inv r \<Longrightarrow> inv (foldl un l rs) \<and> abs (foldl un l rs) = abs l \<union> (\<Union>r\<in>set rs. abs r)"
  by (induction rs arbitrary: l) (auto simp: un_inv un_abs)

lemma reduce_it:
  "inv l \<Longrightarrow> \<forall>r\<in>set rs. inv r \<Longrightarrow> inv (foldl it l rs) \<and> abs (foldl it l rs) = abs l \<inter> (\<Inter>r\<in>set rs. abs r)"
  by (induction rs arbitrary: l) (auto simp: it_inv it_abs)

lemma reduce_df:
  "inv l \<Longrightarrow> \<forall>r\<in>set rs. inv r \<Longrightarrow> inv (foldl df l rs) \<and> abs (foldl df l rs) = abs l - (\<Union>r\<in>set rs. abs r)"
  by (induction rs arbitrary: l) (auto simp: df_inv df_abs)

end

interpretation strings: set_algebra us_inv members union_sets intersect_sets subtract_sets
  by unfold_locales
    (simp_all add: union_sets_members intersect_sets_members subtract_sets_members)

text \<open>
  C35. The set algebra on finite string sets is exact: union, intersection and subtraction of two
  well-formed sets are well formed (sorted disjoint ranges, one key per string, no string of length
  one) and denote the union, intersection and difference of the sets of strings.
\<close>

theorem string_set_algebra:
  assumes "us_inv l" and "us_inv r"
  shows "us_inv (union_sets l r) \<and> members (union_sets l r) = members l \<union> members r
   \<and> us_inv (intersect_sets l r) \<and> members (intersect_sets l r) = members l \<inter> members r
   \<and> us_inv (subtract_sets l r) \<and> members (subtract_sets l r) = members l - members r"
  using assms by (simp add: strings.un_inv strings.un_abs strings.it_inv strings.it_abs strings.df_inv strings.df_abs)

section \<open>Concrete sets\<close>

theorem complementRanges_correct_witness:
  "complementRanges [(0x61, 0x7a), (0x30, 0x39)] = [(0, 0x2f), (0x3a, 0x60), (0x7b, 0xffff)]
   \<and> cp_ranges (complementRanges [(0x61, 0x7a), (0x30, 0x39)])
   \<and> (\<forall>c. in_ranges (complementRanges [(0x61, 0x7a), (0x30, 0x39)]) c \<longleftrightarrow> c \<le> 0xffff \<and> \<not> in_ranges [(0x61, 0x7a), (0x30, 0x39)] c)"
proof -
  have "complementRanges [(0x61, 0x7a), (0x30, 0x39)] = [(0, 0x2f), (0x3a, 0x60), (0x7b, 0xffff)]"
    by (simp add: complementRanges_def)
  moreover have "ranges_ok [(0x61, 0x7a), (0x30, 0x39)]" by (simp add: ranges_ok_def)
  ultimately show ?thesis using complementRanges_correct [of "[(0x61, 0x7a), (0x30, 0x39)]"] by simp
qed

definition sample_left :: unicode_string_set where
  "sample_left = fromSequences [[97], [98], [99, 100], []]"

definition sample_right :: unicode_string_set where
  "sample_right = fromSequences [[98], [99, 100]]"

theorem string_set_algebra_witness:
  "subtract_sets sample_left sample_right = \<lparr>us_ranges = [(97, 97)], us_strings = [([], [])]\<rparr>
   \<and> members (subtract_sets sample_left sample_right) = members sample_left - members sample_right"
proof -
  have "subtract_sets sample_left sample_right = \<lparr>us_ranges = [(97, 97)], us_strings = [([], [])]\<rparr>" by code_simp
  moreover have "us_inv sample_left" "us_inv sample_right" by (simp_all add: sample_left_def sample_right_def fromSequences_members)
  ultimately show ?thesis using string_set_algebra [of sample_left sample_right] by simp
qed

end
