(* ===== verification/UnicodeClass.thy ===== *)
theory UnicodeClass
  imports UnicodeSets
begin

text \<open>
  Code-point classes resolved at compile time: the host enumeration and the string disjunctions of
  \<open>src/src/codegen/regex/unicode.ts\<close>, and the evaluator of \<open>v\<close>-mode classes with strings of
  \<open>src/src/codegen/regex/unicode-string-properties.ts\<close>. The compile-time \<open>RegExp\<close> and the generated
  property tables are parameters, bundled in a record.
\<close>

section \<open>What the host provides\<close>

record host_regexp =
  hr_matchAll :: "jsstring \<Rightarrow> jsstring list"
  hr_test :: "jsstring \<Rightarrow> bool"

text \<open>\<open>new RegExp(source, flags)\<close> (none when it throws) and \<open>UNICODE_STRING_PROPERTY_DATA\<close>.\<close>

record host =
  h_RegExp :: "jsstring \<Rightarrow> jsstring \<Rightarrow> host_regexp option"
  h_property_data :: "jsstring \<Rightarrow> jsstring"

section \<open>Enumeration of a class\<close>

definition surrogates :: "nat list" where
  "surrogates = [0xd800..<0xe000]"

definition scalars :: "nat list" where
  "scalars = filter (\<lambda>cp. \<not> (0xd800 \<le> cp \<and> cp \<le> 0xdfff)) [0..<0x110000]"

definition getAllCodePointsString :: jsstring where
  "getAllCodePointsString = concat (map fromCodePoint scalars)"

definition push_next :: "nat \<Rightarrow> ranges \<Rightarrow> ranges" where
  "push_next cp out =
     (if out \<noteq> [] \<and> cp = snd (last out) + 1 then butlast out @ [(fst (last out), cp)]
      else out @ [(cp, cp)])"

definition toRanges :: "nat list \<Rightarrow> ranges" where
  "toRanges sorted_cps = fold push_next sorted_cps []"

definition scan_match :: "jsstring \<Rightarrow> regex_error + nat" where
  "scan_match m =
     (case codePointAt m 0 of
        Some cp \<Rightarrow> if length m \<noteq> (if cp > 0xffff then 2 else 1)
          then Inl (Unsupported ''class source matched a multi-code-point string'') else Inr cp
      | None \<Rightarrow> Inl (Unsupported ''class source matched a multi-code-point string''))"

definition enumerateClassRanges :: "host \<Rightarrow> jsstring \<Rightarrow> jsstring \<Rightarrow> regex_error + ranges" where
  "enumerateClassRanges host source flagStr =
     (if includes_str source (backslash # js ''q{'')
      then Inl (Unsupported ''string disjunction matches strings, not code points'')
      else case (h_RegExp host source (ch CHR ''g'' # flagStr), h_RegExp host (js ''^(?:'' @ source @ js '')$'') flagStr) of
          (Some scanRe, Some probeRe) \<Rightarrow>
            rbind (rmap scan_match (hr_matchAll scanRe getAllCodePointsString)) (\<lambda>matched.
              Inr (toRanges (sort (matched @ filter (\<lambda>cp. hr_test probeRe [cp]) surrogates))))
        | _ \<Rightarrow> Inl (Unsupported ''host rejected class source''))"

definition codePointSource :: "nat \<Rightarrow> jsstring" where
  "codePointSource cp = backslash # js ''u{'' @ show_radix 16 cp @ js ''}''"

section \<open>String disjunctions\<close>

text \<open>A hexadecimal number of exactly \<open>n\<close> digits at index \<open>i\<close>.\<close>

definition hex_at :: "nat \<Rightarrow> nat list \<Rightarrow> nat \<Rightarrow> nat option" where
  "hex_at n s i =
     (let w = take n (drop i s) in
      if length w = n \<and> list_all is_hex w then Some (parseInt 16 w) else None)"

definition brace_end :: "nat list \<Rightarrow> nat \<Rightarrow> nat" where
  "brace_end s i = i + length (takeWhile (\<lambda>c. c \<noteq> ch CHR ''}'') (drop i s))"

text \<open>
  The escapes of \<open>parseStringDisjunction\<close>: \<open>i\<close> is the index after the escaped character \<open>e\<close>; the result
  is the code point and the index to continue at.
\<close>

definition disjunction_unicode_escape :: "nat list \<Rightarrow> nat \<Rightarrow> regex_error + (nat \<times> nat)" where
  "disjunction_unicode_escape cps i =
     (if char_at cps i = Some (ch CHR ''{'') then
        let j = brace_end cps (i + 1); hex = slice_of cps (i + 1) j in
        if char_at cps j \<noteq> Some (ch CHR ''}'') \<or> \<not> hex_number hex then Inl (Unsupported ''bad u escape'')
        else if parseInt 16 hex > 0x10ffff then Inl (Unsupported ''u escape out of range'')
        else Inr (parseInt 16 hex, j + 1)
      else case hex_at 4 cps i of
          None \<Rightarrow> Inl (Unsupported ''bad u escape'')
        | Some cp \<Rightarrow>
            if is_lead (Some cp) \<and> char_at cps (i + 4) = Some backslash \<and> char_at cps (i + 5) = Some (ch CHR ''u'')
              \<and> char_at cps (i + 6) \<noteq> Some (ch CHR ''{'')
            then case hex_at 4 cps (i + 6) of
                Some trail \<Rightarrow> if is_trail (Some trail) then Inr (pair_value cp trail, i + 10) else Inr (cp, i + 4)
              | None \<Rightarrow> Inr (cp, i + 4)
            else Inr (cp, i + 4))"

definition is_control_letter :: "nat \<Rightarrow> bool" where
  "is_control_letter l \<longleftrightarrow> 0x41 \<le> l \<and> l \<le> 0x5a \<or> 0x61 \<le> l \<and> l \<le> 0x7a"

definition disjunction_escape :: "nat list \<Rightarrow> nat \<Rightarrow> nat \<Rightarrow> regex_error + (nat \<times> nat)" where
  "disjunction_escape cps e i =
     (if e = ch CHR ''n'' then Inr (0x0a, i)
      else if e = ch CHR ''r'' then Inr (0x0d, i)
      else if e = ch CHR ''t'' then Inr (0x09, i)
      else if e = ch CHR ''f'' then Inr (0x0c, i)
      else if e = ch CHR ''v'' then Inr (0x0b, i)
      else if e = ch CHR ''b'' then Inr (0x08, i)
      else if e = ch CHR ''0'' then
        (case char_at cps i of
           Some d \<Rightarrow> if is_digit d then Inl (Unsupported ''legacy octal escape'') else Inr (0, i)
         | None \<Rightarrow> Inr (0, i))
      else if e = ch CHR ''x'' then
        (case hex_at 2 cps i of
           Some v \<Rightarrow> Inr (v, i + 2)
         | None \<Rightarrow> Inl (Unsupported ''bad x escape''))
      else if e = ch CHR ''u'' then disjunction_unicode_escape cps i
      else if e = ch CHR ''c'' then
        (case char_at cps i of
           Some l \<Rightarrow> if is_control_letter l then Inr (l mod 32, i + 1) else Inl (Unsupported ''c without a control letter'')
         | None \<Rightarrow> Inl (Unsupported ''c without a control letter''))
      else Inr (e, i))"

lemma disjunction_unicode_escape_advances: "disjunction_unicode_escape cps i = Inr (cp, j) \<Longrightarrow> i \<le> j"
  by (auto simp: disjunction_unicode_escape_def Let_def brace_end_def split: if_splits option.splits)

lemma disjunction_escape_advances: "disjunction_escape cps e i = Inr (cp, j) \<Longrightarrow> i \<le> j"
  by (auto simp: disjunction_escape_def disjunction_unicode_escape_advances split: if_splits option.splits)

function disjunction_loop :: "nat list \<Rightarrow> nat \<Rightarrow> nat list list \<Rightarrow> nat list \<Rightarrow> regex_error + nat list list" where
  "disjunction_loop cps i operands cur =
     (case char_at cps i of
        None \<Rightarrow> Inr (operands @ [cur])
      | Some c \<Rightarrow>
          if c = ch CHR ''|'' then disjunction_loop cps (i + 1) (operands @ [cur]) []
          else if c = backslash then
            (case char_at cps (i + 1) of
               None \<Rightarrow> Inl (Unsupported ''trailing escape'')
             | Some e \<Rightarrow> rbind (disjunction_escape cps e (i + 2)) (\<lambda>(cp, j). disjunction_loop cps j operands (cur @ [cp])))
          else if c = ch CHR ''}'' then Inl (Unsupported ''unexpected brace in disjunction body'')
          else disjunction_loop cps (i + 1) operands (cur @ [c]))"
  by pat_completeness auto
termination
  by (relation "measure (\<lambda>(cps, i, operands, cur). length cps - i)")
    (auto simp: char_at_Some dest!: disjunction_escape_advances)

declare disjunction_loop.simps [simp del]

definition parseStringDisjunction :: "jsstring \<Rightarrow> regex_error + nat list list" where
  "parseStringDisjunction qBody = disjunction_loop (codePoints qBody) 0 [] []"

section \<open>Properties of strings\<close>

definition PROPERTY_NAMES :: "jsstring list" where
  "PROPERTY_NAMES = map js [''Basic_Emoji'', ''Emoji_Keycap_Sequence'', ''RGI_Emoji'', ''RGI_Emoji_Flag_Sequence'',
     ''RGI_Emoji_Modifier_Sequence'', ''RGI_Emoji_Tag_Sequence'', ''RGI_Emoji_ZWJ_Sequence'']"

definition isUnicodeStringPropertyName :: "jsstring \<Rightarrow> bool" where
  "isUnicodeStringPropertyName name \<longleftrightarrow> name \<in> set PROPERTY_NAMES"

fun split_str :: "codeunit \<Rightarrow> jsstring \<Rightarrow> jsstring list" where
  "split_str sep [] = [[]]"
| "split_str sep (c # s) =
     (if c = sep then [] # split_str sep s else (c # hd (split_str sep s)) # tl (split_str sep s))"

definition decodeProperty :: "host \<Rightarrow> jsstring \<Rightarrow> unicode_string_set" where
  "decodeProperty host name =
     fromSequences (map (\<lambda>item. map (parseInt 36) (split_str (ch CHR ''.'') item))
       (split_str (ch CHR '','') (h_property_data host name)))"

definition unicodeStringProperty :: "host \<Rightarrow> jsstring \<Rightarrow> unicode_string_set" where
  "unicodeStringProperty host name =
     (if name = js ''RGI_Emoji'' then
        let parts = map (decodeProperty host) (filter (\<lambda>part. part \<noteq> js ''RGI_Emoji'') PROPERTY_NAMES)
        in foldl union_sets (hd parts) (tl parts)
      else decodeProperty host name)"

definition hasUnicodeStringSetSyntax :: "jsstring \<Rightarrow> bool" where
  "hasUnicodeStringSetSyntax source \<longleftrightarrow>
     includes_str source (backslash # js ''q{'')
     \<or> list_ex (\<lambda>name. includes_str source (backslash # js ''p{'' @ name @ js ''}'')) PROPERTY_NAMES"

definition unicodeStringPropertyEscape :: "host \<Rightarrow> jsstring \<Rightarrow> unicode_string_set option" where
  "unicodeStringPropertyEscape host source =
     (let name = takeWhile (\<lambda>c. c \<noteq> ch CHR ''}'') (drop 3 source) in
      if startsWith source (backslash # js ''p{'') 0 \<and> name \<noteq> [] \<and> drop (3 + length name) source = js ''}''
        \<and> isUnicodeStringPropertyName name
      then Some (unicodeStringProperty host name) else None)"

section \<open>Scanning class source\<close>

definition q_at :: "jsstring \<Rightarrow> nat \<Rightarrow> bool" where
  "q_at source i \<longleftrightarrow> char_at source (i + 1) = Some (ch CHR ''q'') \<and> char_at source (i + 2) = Some (ch CHR ''{'')"

function findClosingBrace :: "jsstring \<Rightarrow> nat \<Rightarrow> regex_error + nat" where
  "findClosingBrace source index =
     (if index < length source then
        if source ! index \<noteq> backslash then
          if source ! index = ch CHR ''}'' then Inr index else findClosingBrace source (index + 1)
        else if char_at source (index + 1) = Some (ch CHR ''u'') \<and> char_at source (index + 2) = Some (ch CHR ''{'') then
          findClosingBrace source (brace_end source (index + 3) + 1)
        else findClosingBrace source (index + 2)
      else Inl (Unsupported ''unterminated string disjunction''))"
  by pat_completeness auto
termination
  by (relation "measure (\<lambda>(source, index). length source - index)") (auto simp: brace_end_def)

declare findClosingBrace.simps [simp del]

lemma findClosingBrace_bounds:
  "findClosingBrace source index = Inr j \<Longrightarrow> index \<le> j \<and> j < length source \<and> source ! j = ch CHR ''}''"
proof (induction source index rule: findClosingBrace.induct)
  case (1 source index)
  then show ?case
    by (auto simp: findClosingBrace.simps [of source index] brace_end_def split: if_splits)
qed

function closing_class :: "jsstring \<Rightarrow> nat \<Rightarrow> nat \<Rightarrow> regex_error + nat" where
  "closing_class source depth index =
     (if index < length source then
        if source ! index = backslash then
          if q_at source index
          then rbind (findClosingBrace source (index + 3)) (\<lambda>j. closing_class source depth (j + 1))
          else closing_class source depth (index + 2)
        else if source ! index = ch CHR ''['' then closing_class source (depth + 1) (index + 1)
        else if source ! index = ch CHR '']'' then
          if depth - 1 = 0 then Inr index else closing_class source (depth - 1) (index + 1)
        else closing_class source depth (index + 1)
      else Inl (Unsupported ''unterminated nested v-mode class''))"
  by pat_completeness auto
termination
  by (relation "measure (\<lambda>(source, depth, index). length source - index)") (auto dest!: findClosingBrace_bounds)

declare closing_class.simps [simp del]

definition findClosingClass :: "jsstring \<Rightarrow> nat \<Rightarrow> regex_error + nat" where
  "findClosingClass source start = closing_class source 1 (start + 1)"

lemma closing_class_bounds:
  "closing_class source depth index = Inr j \<Longrightarrow> index \<le> j \<and> j < length source \<and> source ! j = ch CHR '']''"
proof (induction source depth index rule: closing_class.induct)
  case (1 source depth index)
  then show ?case
    by (auto simp: closing_class.simps [of source depth index] split: if_splits dest: findClosingBrace_bounds)
      (frule findClosingBrace_bounds, simp)
qed

lemma findClosingClass_bounds:
  "findClosingClass source start = Inr j \<Longrightarrow> start < j \<and> j < length source \<and> source ! j = ch CHR '']''"
  by (auto simp: findClosingClass_def dest!: closing_class_bounds)

lemma indexOf_bounds: "indexOf s c i = Some j \<Longrightarrow> i \<le> j \<and> j < length s"
  by (auto simp: indexOf_def Let_def split: if_splits)

text \<open>\<open>splitTopLevel\<close>; the operator has two characters.\<close>

function split_loop :: "jsstring \<Rightarrow> jsstring \<Rightarrow> nat \<Rightarrow> nat \<Rightarrow> jsstring list \<Rightarrow> regex_error + (jsstring list \<times> nat)" where
  "split_loop source oper index start parts =
     (if index < length source then
        if source ! index = backslash then
          if q_at source index then
            rbind (findClosingBrace source (index + 3)) (\<lambda>j. split_loop source oper (j + 1) start parts)
          else if char_at source (index + 1) \<in> {Some (ch CHR ''p''), Some (ch CHR ''P'')}
              \<and> char_at source (index + 2) = Some (ch CHR ''{'') then
            (case indexOf source (ch CHR ''}'') (index + 3) of
               None \<Rightarrow> Inl (Unsupported ''unterminated Unicode property escape'')
             | Some j \<Rightarrow> split_loop source oper (j + 1) start parts)
          else split_loop source oper (index + 2) start parts
        else if source ! index = ch CHR ''['' then
          rbind (findClosingClass source index) (\<lambda>j. split_loop source oper (j + 1) start parts)
        else if startsWith source oper index then
          split_loop source oper (index + 2) (index + 2) (parts @ [slice_of source start index])
        else split_loop source oper (index + 1) start parts
      else Inr (parts, start))"
  by pat_completeness auto
termination
  by (relation "measure (\<lambda>(source, oper, index, start, parts). length source - index)")
    (auto dest!: findClosingBrace_bounds findClosingClass_bounds indexOf_bounds)

declare split_loop.simps [simp del]

definition splitTopLevel :: "jsstring \<Rightarrow> jsstring \<Rightarrow> regex_error + jsstring list option" where
  "splitTopLevel source oper =
     rbind (split_loop source oper 0 0 []) (\<lambda>(parts, start).
       Inr (if parts = [] then None else Some (parts @ [drop start source])))"

section \<open>Evaluating a class with strings\<close>

definition flushOrdinary :: "host \<Rightarrow> jsstring \<Rightarrow> unicode_string_set \<Rightarrow> jsstring \<Rightarrow> regex_error + unicode_string_set" where
  "flushOrdinary host flagStr result ordinary =
     (if ordinary = [] then Inr result
      else rbind (enumerateClassRanges host (js ''['' @ ordinary @ js '']'') flagStr)
        (\<lambda>rs. Inr (union_sets result \<lparr>us_ranges = rs, us_strings = []\<rparr>)))"

text \<open>The index of the brace that closes a property escape starting at the index, if there is one.\<close>

definition property_end :: "jsstring \<Rightarrow> nat \<Rightarrow> nat option" where
  "property_end source index =
     (if startsWith source (backslash # js ''p{'') index \<or> startsWith source (backslash # js ''P{'') index
      then indexOf source (ch CHR ''}'') (index + 3) else None)"

text \<open>One turn of the loop of \<open>evalUnionBody\<close>: the next index, the set and the pending ordinary source.\<close>

definition union_step ::
  "(jsstring \<Rightarrow> regex_error + unicode_string_set) \<Rightarrow> host \<Rightarrow> jsstring \<Rightarrow> jsstring \<Rightarrow> nat \<Rightarrow> unicode_string_set \<Rightarrow> jsstring
   \<Rightarrow> regex_error + (nat \<times> unicode_string_set \<times> jsstring)" where
  "union_step evalClass host flagStr source index result ordinary =
     (if source ! index = ch CHR ''['' then
        rbind (flushOrdinary host flagStr result ordinary) (\<lambda>result.
        rbind (findClosingClass source index) (\<lambda>j.
        rbind (evalClass (slice_of source index (j + 1))) (\<lambda>nested.
          Inr (j + 1, union_sets result nested, []))))
      else if startsWith source (backslash # js ''q{'') index then
        rbind (flushOrdinary host flagStr result ordinary) (\<lambda>result.
        rbind (findClosingBrace source (index + 3)) (\<lambda>j.
        rbind (parseStringDisjunction (slice_of source (index + 3) j)) (\<lambda>operands.
          Inr (j + 1, union_sets result (fromSequences operands), []))))
      else case property_end source index of
          Some j \<Rightarrow>
            (case unicodeStringPropertyEscape host (slice_of source index (j + 1)) of
               Some property \<Rightarrow>
                 rbind (flushOrdinary host flagStr result ordinary) (\<lambda>result. Inr (j + 1, union_sets result property, []))
             | None \<Rightarrow> Inr (j + 1, result, ordinary @ slice_of source index (j + 1)))
        | None \<Rightarrow>
            if source ! index = backslash then Inr (index + 2, result, ordinary @ slice_of source index (index + 2))
            else let cp = the (codePointAt source index) in
              Inr (index + (if cp > 0xffff then 2 else 1), result, ordinary @ fromCodePoint cp))"

lemma property_end_bounds: "property_end source index = Some j \<Longrightarrow> index < j \<and> j < length source"
  by (auto simp: property_end_def dest!: indexOf_bounds split: if_splits)

lemma union_step_advances:
  "union_step evalClass host flagStr source index result ordinary = Inr (j, result', ordinary') \<Longrightarrow> index < j"
  by (auto simp: union_step_def Let_def split: if_splits option.splits
      dest!: findClosingBrace_bounds findClosingClass_bounds property_end_bounds)

function union_loop ::
  "(jsstring \<Rightarrow> regex_error + unicode_string_set) \<Rightarrow> host \<Rightarrow> jsstring \<Rightarrow> jsstring \<Rightarrow> nat \<Rightarrow> unicode_string_set \<Rightarrow> jsstring
   \<Rightarrow> regex_error + unicode_string_set" where
  "union_loop evalClass host flagStr source index result ordinary =
     (if index < length source
      then rbind (union_step evalClass host flagStr source index result ordinary)
        (\<lambda>(index, result, ordinary). union_loop evalClass host flagStr source index result ordinary)
      else flushOrdinary host flagStr result ordinary)"
  by pat_completeness auto
termination
  by (relation "measure (\<lambda>(evalClass, host, flagStr, source, index, result, ordinary). length source - index)")
    (auto dest!: union_step_advances)

declare union_loop.simps [simp del]

definition evalUnionBody ::
  "(jsstring \<Rightarrow> regex_error + unicode_string_set) \<Rightarrow> host \<Rightarrow> jsstring \<Rightarrow> jsstring \<Rightarrow> regex_error + unicode_string_set" where
  "evalUnionBody evalClass host flagStr source =
     union_loop evalClass host flagStr source 0 \<lparr>us_ranges = [], us_strings = []\<rparr> []"

text \<open>The first argument bounds the nesting of classes.\<close>

primrec eval_class :: "nat \<Rightarrow> host \<Rightarrow> jsstring \<Rightarrow> jsstring \<Rightarrow> regex_error + unicode_string_set" where
  "eval_class 0 host flagStr source = Inl OutOfFuel"
| "eval_class (Suc n) host flagStr source =
     (if \<not> (startsWith source (js ''['') 0 \<and> source \<noteq> [] \<and> last source = ch CHR '']'')
      then Inl (Unsupported ''expected a complete v-mode class'')
      else let body = slice_of source 1 (length source - 1) in
        if startsWith body (js ''^'') 0 then Inl (Unsupported ''negated v-mode class may not contain strings'')
        else
          rbind (splitTopLevel body (js ''&&'')) (\<lambda>intersections. case intersections of
            Some parts \<Rightarrow> rbind (rmap (evalUnionBody (eval_class n host flagStr) host flagStr) parts)
              (\<lambda>sets. Inr (foldl intersect_sets (hd sets) (tl sets)))
          | None \<Rightarrow> rbind (splitTopLevel body (js ''--'')) (\<lambda>differences. case differences of
              Some parts \<Rightarrow> rbind (rmap (evalUnionBody (eval_class n host flagStr) host flagStr) parts)
                (\<lambda>sets. Inr (foldl subtract_sets (hd sets) (tl sets)))
            | None \<Rightarrow> evalUnionBody (eval_class n host flagStr) host flagStr body)))"

definition evaluateUnicodeStringClass :: "host \<Rightarrow> jsstring \<Rightarrow> jsstring \<Rightarrow> regex_error + unicode_string_set" where
  "evaluateUnicodeStringClass host source flagStr = eval_class (Suc (length source)) host flagStr source"

section \<open>Enumeration is exact\<close>

lemma push_next_props:
  assumes "ranges_ok out"
  shows "ranges_ok (push_next cp out) \<and> (in_ranges (push_next cp out) c \<longleftrightarrow> in_ranges out c \<or> c = cp)"
proof (cases "out \<noteq> [] \<and> cp = snd (last out) + 1")
  case True
  then obtain front a b where out: "out = front @ [(a, b)]" "cp = b + 1" by (cases out rule: rev_cases) auto
  then show ?thesis
    using assms by (auto simp: push_next_def ranges_ok_def in_ranges_append in_ranges_Cons)
next
  case False
  then have "push_next cp out = out @ [(cp, cp)]" by (auto simp: push_next_def)
  then show ?thesis using assms by (auto simp: ranges_ok_def in_ranges_append in_ranges_Cons)
qed

lemma fold_push_next:
  "ranges_ok out \<Longrightarrow> ranges_ok (fold push_next cps out) \<and> (in_ranges (fold push_next cps out) c \<longleftrightarrow> in_ranges out c \<or> c \<in> set cps)"
proof (induction cps arbitrary: out)
  case (Cons cp cps)
  then show ?case using Cons.IH [of "push_next cp out"] push_next_props [of out cp] by auto
qed simp

lemma toRanges_props: "ranges_ok (toRanges cps)" "in_ranges (toRanges cps) c \<longleftrightarrow> c \<in> set cps"
  using fold_push_next [of "[]" cps] by (simp_all add: toRanges_def)

lemma enumerateClassRanges_ok: "enumerateClassRanges host source flagStr = Inr rs \<Longrightarrow> ranges_ok rs"
  by (auto simp: enumerateClassRanges_def toRanges_props split: if_splits option.splits)

text \<open>What the ES specification says of a class that matches single code points, under \<open>u\<close> or \<open>v\<close>.\<close>

definition class_matches :: "(nat \<Rightarrow> bool) \<Rightarrow> host_regexp \<Rightarrow> host_regexp \<Rightarrow> bool" where
  "class_matches P scanRe probeRe \<longleftrightarrow>
     hr_matchAll scanRe getAllCodePointsString
       = map fromCodePoint (filter P scalars)
     \<and> (\<forall>cp. 0xd800 \<le> cp \<and> cp \<le> 0xdfff \<longrightarrow> hr_test probeRe [cp] = P cp)"

lemma set_surrogates: "set surrogates = {0xd800..<0xe000}"
  unfolding surrogates_def set_upt ..

lemma set_scalars: "set scalars = {0..0x10ffff} - {0xd800..0xdfff}"
  unfolding scalars_def set_filter set_upt by auto

lemma pair_value_split: "0x10000 \<le> cp \<Longrightarrow> cp \<le> 0x10ffff \<Longrightarrow>
    is_lead (Some (0xd800 + (cp - 0x10000) div 0x400)) \<and> is_trail (Some (0xdc00 + (cp - 0x10000) mod 0x400))
    \<and> pair_value (0xd800 + (cp - 0x10000) div 0x400) (0xdc00 + (cp - 0x10000) mod 0x400) = cp"
proof -
  assume a: "0x10000 \<le> cp" "cp \<le> 0x10ffff"
  then have "(cp - 0x10000) div 0x400 < 0x400" by (simp add: less_mult_imp_div_less)
  moreover have "(cp - 0x10000) mod 0x400 < 0x400" by simp
  moreover have "(cp - 0x10000) div 0x400 * 0x400 + (cp - 0x10000) mod 0x400 = cp - 0x10000" by simp
  ultimately show ?thesis using a by (auto simp: is_lead_def is_trail_def in_span_def pair_value_def)
qed

lemma scan_match_fromCodePoint: "cp \<le> 0x10ffff \<Longrightarrow> scan_match (fromCodePoint cp) = Inr cp"
  using pair_value_split [of cp] by (auto simp: scan_match_def codePointAt_def char_at_def fromCodePoint_def)

lemma rmap_map_Inr: "(\<And>x. x \<in> set xs \<Longrightarrow> f (g x) = Inr x) \<Longrightarrow> rmap f (map g xs) = Inr xs"
  by (induction xs) auto

text \<open>
  C33. When the host compiles a class and matches with it exactly the code points of a set, the
  enumeration returns ranges whose members are exactly that set, lone surrogates included.
\<close>

theorem enumerateClassRanges_exact:
  assumes "h_RegExp host source (ch CHR ''g'' # flagStr) = Some scanRe"
    and "h_RegExp host (js ''^(?:'' @ source @ js '')$'') flagStr = Some probeRe"
    and "class_matches P scanRe probeRe" and "\<not> includes_str source (backslash # js ''q{'')"
  shows "\<exists>rs. enumerateClassRanges host source flagStr = Inr rs \<and> ranges_ok rs
    \<and> (\<forall>cp. in_ranges rs cp \<longleftrightarrow> cp \<le> 0x10ffff \<and> P cp)"
proof -
  let ?scan = "filter P scalars"
  let ?rs = "toRanges (sort (?scan @ filter (\<lambda>cp. hr_test probeRe [cp]) surrogates))"
  have "rmap scan_match (hr_matchAll scanRe getAllCodePointsString) = Inr ?scan"
    using assms(3) unfolding class_matches_def by (auto simp: set_scalars intro!: rmap_map_Inr scan_match_fromCodePoint)
  then have "enumerateClassRanges host source flagStr = Inr ?rs"
    using assms(1,2,4) by (simp add: enumerateClassRanges_def)
  moreover have "in_ranges ?rs cp \<longleftrightarrow> cp \<le> 0x10ffff \<and> P cp" for cp
  proof -
    have "hr_test probeRe [cp] = P cp" if "0xd800 \<le> cp" "cp < 0xe000"
      using assms(3) that by (simp add: class_matches_def)
    then show ?thesis unfolding toRanges_props by (auto simp: set_scalars set_surrogates)
  qed
  ultimately show ?thesis using toRanges_props(1) by blast
qed

section \<open>Evaluation ends, with a well-formed set\<close>

lemma us_inv_empty [simp]: "us_inv \<lparr>us_ranges = [], us_strings = []\<rparr>"
  by (simp add: us_inv_def)

lemma us_inv_foldl_union: "us_inv S \<Longrightarrow> \<forall>T\<in>set Ts. us_inv T \<Longrightarrow> us_inv (foldl union_sets S Ts)"
  using strings.reduce_un by blast

lemma us_inv_property: "us_inv (unicodeStringProperty host name)"
  by (simp add: unicodeStringProperty_def Let_def PROPERTY_NAMES_def decodeProperty_def fromSequences_members js_def
      strings.un_inv)

lemma us_inv_property_escape: "unicodeStringPropertyEscape host source = Some S \<Longrightarrow> us_inv S"
  by (auto simp: unicodeStringPropertyEscape_def Let_def us_inv_property split: if_splits)

lemma us_inv_flush: "flushOrdinary host flagStr S ordinary = Inr T \<Longrightarrow> us_inv S \<Longrightarrow> us_inv T"
  using union_sets_keyed(1) [of S]
  by (auto simp: flushOrdinary_def us_inv_def cp_ranges_def dest!: enumerateClassRanges_ok split: if_splits)

lemma us_inv_union_step:
  assumes "\<And>s S. evalClass s = Inr S \<Longrightarrow> us_inv S"
    and "union_step evalClass host flagStr source index S ordinary = Inr (j, T, ordinary')" and "us_inv S"
  shows "us_inv T"
  using assms(2,3)
  by (auto simp: union_step_def Let_def intro!: strings.un_inv split: if_splits option.splits
      intro: us_inv_flush us_inv_property_escape fromSequences_members assms(1))

lemma us_inv_union_loop:
  assumes "\<And>s S. evalClass s = Inr S \<Longrightarrow> us_inv S"
  shows "union_loop evalClass host flagStr source index S ordinary = Inr T \<Longrightarrow> us_inv S \<Longrightarrow> us_inv T"
  using assms
proof (induction evalClass host flagStr source index S ordinary rule: union_loop.induct)
  case (1 evalClass host flagStr source index S ordinary)
  show ?case
  proof (cases "index < length source")
    case True
    then obtain j U ord where s: "union_step evalClass host flagStr source index S ordinary = Inr (j, U, ord)"
      and l: "union_loop evalClass host flagStr source j U ord = Inr T"
      using "1.prems"(1) by (subst (asm) union_loop.simps) auto
    show ?thesis
      using "1.IH" [OF True s refl refl l] us_inv_union_step [OF "1.prems"(3) s "1.prems"(2)] "1.prems"(3) by simp
  next
    case False
    then show ?thesis using "1.prems"(1,2) by (subst (asm) union_loop.simps) (auto dest: us_inv_flush)
  qed
qed

lemma us_inv_eval_class: "eval_class n host flagStr source = Inr S \<Longrightarrow> us_inv S"
proof (induction n arbitrary: source S)
  case (Suc n)
  have body: "us_inv T" if "evalUnionBody (eval_class n host flagStr) host flagStr s = Inr T" for s T
    using us_inv_union_loop [OF Suc.IH that [unfolded evalUnionBody_def]] by simp
  have parts: "us_inv (hd sets) \<and> (\<forall>r\<in>set (tl sets). us_inv r)"
    if "rmap (evalUnionBody (eval_class n host flagStr) host flagStr) parts = Inr sets" "parts \<noteq> []" for parts sets
  proof -
    have "sets \<noteq> []" using rmap_length [OF that(1)] that(2) by auto
    then show ?thesis using rmap_set [OF that(1)] body by (metis hd_in_set list.set_sel(2))
  qed
  show ?case
    using Suc.prems strings.reduce_it strings.reduce_df parts body
    by (auto simp: Let_def splitTopLevel_def split: if_splits option.splits)
qed simp

lemma clean_scan_match [clean_intros]: "clean (scan_match m)"
  by (simp add: scan_match_def split: option.split)

lemma clean_enumerate [clean_intros]: "clean (enumerateClassRanges host source flagStr)"
  by (auto simp: enumerateClassRanges_def intro!: clean_intros split: option.split)

lemma clean_disjunction_escape [clean_intros]: "clean (disjunction_escape cps e i)"
  by (simp add: disjunction_escape_def disjunction_unicode_escape_def Let_def split: option.split)

lemma clean_disjunction_loop: "clean (disjunction_loop cps i operands cur)"
proof (induction cps i operands cur rule: disjunction_loop.induct)
  case (1 cps i operands cur)
  then show ?case
    by (subst disjunction_loop.simps) (auto intro!: clean_intros split: option.split)
qed

lemma clean_parseStringDisjunction [clean_intros]: "clean (parseStringDisjunction s)"
  by (simp add: parseStringDisjunction_def clean_disjunction_loop)

lemma clean_findClosingBrace [clean_intros]: "clean (findClosingBrace source index)"
proof (induction source index rule: findClosingBrace.induct)
  case (1 source index)
  then show ?case by (subst findClosingBrace.simps) (auto intro!: clean_intros)
qed

lemma clean_closing_class: "clean (closing_class source depth index)"
proof (induction source depth index rule: closing_class.induct)
  case (1 source depth index)
  then show ?case by (subst closing_class.simps) (auto intro!: clean_intros)
qed

lemma clean_findClosingClass [clean_intros]: "clean (findClosingClass source start)"
  by (simp add: findClosingClass_def clean_closing_class)

lemma clean_split_loop: "clean (split_loop source oper index start parts)"
proof (induction source oper index start parts rule: split_loop.induct)
  case (1 source oper index start parts)
  then show ?case by (subst split_loop.simps) (auto intro!: clean_intros split: option.split)
qed

lemma clean_splitTopLevel [clean_intros]: "clean (splitTopLevel source oper)"
  by (auto simp: splitTopLevel_def clean_split_loop intro!: clean_intros)

lemma clean_flush [clean_intros]: "clean (flushOrdinary host flagStr S ordinary)"
  by (auto simp: flushOrdinary_def intro!: clean_intros)

lemma slice_of_length: "length (slice_of s i j) \<le> length s"
  by (simp add: slice_of_def)

lemma clean_union_loop:
  assumes "\<And>s. length s \<le> length source \<Longrightarrow> clean (evalClass s)"
  shows "clean (union_loop evalClass host flagStr source index S ordinary)"
  using assms
proof (induction evalClass host flagStr source index S ordinary rule: union_loop.induct)
  case (1 evalClass host flagStr source index S ordinary)
  have "clean (union_step evalClass host flagStr source index S ordinary)"
    using "1.prems" slice_of_length
    by (auto simp: union_step_def Let_def intro!: clean_intros split: option.split)
  then show ?case
    using "1.IH" "1.prems" by (subst union_loop.simps) (auto intro!: clean_intros)
qed

lemma split_loop_parts:
  "split_loop source oper index start parts = Inr (parts', start')
   \<Longrightarrow> \<forall>part\<in>set parts. length part \<le> length source \<Longrightarrow> \<forall>part\<in>set parts'. length part \<le> length source"
proof (induction source oper index start parts rule: split_loop.induct)
  case (1 source oper index start parts)
  then show ?case
    using slice_of_length [of source start index]
    by (auto simp: split_loop.simps [of source oper index start parts] split: if_splits option.splits)
qed

lemma splitTopLevel_parts:
  "splitTopLevel source oper = Inr (Some parts) \<Longrightarrow> part \<in> set parts \<Longrightarrow> length part \<le> length source"
  by (auto simp: splitTopLevel_def dest!: split_loop_parts split: if_splits)

lemma clean_evalUnionBody:
  "(\<And>s. length s \<le> length source \<Longrightarrow> clean (evalClass s)) \<Longrightarrow> clean (evalUnionBody evalClass host flagStr source)"
  by (simp add: evalUnionBody_def clean_union_loop)

lemma clean_eval_class: "length source < n \<Longrightarrow> clean (eval_class n host flagStr source)"
proof (induction n arbitrary: source)
  case (Suc n)
  let ?body = "slice_of source 1 (length source - 1)"
  have "clean (evalUnionBody (eval_class n host flagStr) host flagStr s)" if "source \<noteq> []" "length s \<le> length ?body" for s
    using that Suc by (intro clean_evalUnionBody Suc.IH) (cases source, auto simp: slice_of_def)
  then show ?case
    by (auto simp: Let_def intro!: clean_intros split: option.split dest: splitTopLevel_parts)
qed simp

text \<open>
  C34. The evaluator of \<open>v\<close>-mode classes with strings always ends, however deep classes nest, and the
  set it returns is well formed: sorted disjoint ranges, every other string once and under its key.
\<close>

theorem evaluateUnicodeStringClass_total:
  "clean (evaluateUnicodeStringClass host source flagStr)
   \<and> (\<forall>S. evaluateUnicodeStringClass host source flagStr = Inr S \<longrightarrow> us_inv S)"
  using us_inv_eval_class by (auto simp: evaluateUnicodeStringClass_def simp del: eval_class.simps intro!: clean_eval_class)

section \<open>A concrete host\<close>

text \<open>A host whose every regular expression matches the digits \<open>0\<close> to \<open>9\<close>, one character at a time.\<close>

definition digit_host :: host where
  "digit_host = \<lparr>h_RegExp = (\<lambda>source flags.
       Some \<lparr>hr_matchAll = (\<lambda>s. map fromCodePoint (filter is_digit scalars)), hr_test = (\<lambda>s. s \<noteq> [] \<and> is_digit (hd s))\<rparr>),
     h_property_data = (\<lambda>name. [])\<rparr>"

text \<open>Hosts that reject every source, without and with a property of strings.\<close>

definition table_host :: host where
  "table_host = \<lparr>h_RegExp = (\<lambda>source flags. None), h_property_data = (\<lambda>name. js ''2p.2q.2r,2s'')\<rparr>"

definition no_host :: host where
  "no_host = \<lparr>h_RegExp = (\<lambda>source flags. None), h_property_data = (\<lambda>name. [])\<rparr>"

theorem enumerateClassRanges_exact_witness:
  "\<exists>rs. enumerateClassRanges digit_host (js ''[0-9]'') (js ''u'') = Inr rs \<and> ranges_ok rs
    \<and> (\<forall>cp. in_ranges rs cp \<longleftrightarrow> cp \<le> 0x10ffff \<and> is_digit cp)"
proof (rule enumerateClassRanges_exact)
  let ?re = "\<lparr>hr_matchAll = (\<lambda>s. map fromCodePoint (filter is_digit scalars)), hr_test = (\<lambda>s. s \<noteq> [] \<and> is_digit (hd s))\<rparr>"
  show "h_RegExp digit_host (js ''[0-9]'') (ch CHR ''g'' # js ''u'') = Some ?re"
    "h_RegExp digit_host (js ''^(?:'' @ js ''[0-9]'' @ js '')$'') (js ''u'') = Some ?re"
    by (simp_all add: digit_host_def)
  show "class_matches is_digit ?re ?re" by (simp add: class_matches_def)
  show "\<not> includes_str (js ''[0-9]'') (backslash # js ''q{'')" by code_simp
qed

definition sample_class :: jsstring where
  "sample_class = [ch CHR ''['', backslash] @ js ''p{Basic_Emoji}]''"

theorem evaluateUnicodeStringClass_total_witness:
  "\<exists>S. evaluateUnicodeStringClass table_host sample_class (js ''v'') = Inr S
     \<and> us_ranges S = [(0x64, 0x64)] \<and> us_strings S = [(js ''97,98,99'', js ''abc'')] \<and> us_inv S"
proof -
  have "evaluateUnicodeStringClass table_host sample_class (js ''v'')
      = Inr \<lparr>us_ranges = [(0x64, 0x64)], us_strings = [(js ''97,98,99'', js ''abc'')]\<rparr>"
    by code_simp
  then show ?thesis using evaluateUnicodeStringClass_total [of table_host sample_class "js ''v''"] by auto
qed

end
