(* ===== verification/RegexAst.thy ===== *)
theory RegexAst
  imports CaseFold
begin

text \<open>
  The syntax trees of \<open>src/src/codegen/regex/parse.ts\<close> (\<open>ReNode\<close>, \<open>ParsedRegex\<close>) and the
  analyses of \<open>src/src/codegen/regex/compile.ts\<close> on them: \<open>canMatchEmpty\<close>, \<open>captureSpan\<close>,
  \<open>reverseNode\<close>, the ASCII folds and the code points of the dot.
\<close>

datatype re_node =
    RChar nat
  | RAny
  | RClass ranges bool
  | RCpClass ranges bool
  | RBol
  | REol
  | RWordBoundary bool
  | RBackref nat
  | RLookaround re_node (negated: bool) (behind: bool)
  | RModGroup nat nat re_node
  | RUDot
  | RConcat "re_node list"
  | RAlt "re_node list"
  | RStar re_node bool
  | RPlus re_node bool
  | ROpt re_node bool
  | RRepeat re_node nat int bool
  | RGroup re_node int "codeunit list option"

record parsed_regex =
  pr_root :: re_node
  pr_numCaptures :: nat
  pr_groupNames :: "(codeunit list \<times> nat) list"

primrec canMatchEmpty :: "re_node \<Rightarrow> bool" where
  "canMatchEmpty (RChar c) = False"
| "canMatchEmpty RAny = False"
| "canMatchEmpty RUDot = False"
| "canMatchEmpty (RClass rs neg) = False"
| "canMatchEmpty (RCpClass rs neg) = False"
| "canMatchEmpty (RBackref i) = True"
| "canMatchEmpty RBol = True"
| "canMatchEmpty REol = True"
| "canMatchEmpty (RWordBoundary neg) = True"
| "canMatchEmpty (RLookaround n neg beh) = True"
| "canMatchEmpty (RStar n g) = True"
| "canMatchEmpty (ROpt n g) = True"
| "canMatchEmpty (RPlus n g) = canMatchEmpty n"
| "canMatchEmpty (RRepeat n mn mx g) = (mn = 0 \<or> canMatchEmpty n)"
| "canMatchEmpty (RGroup n i nm) = canMatchEmpty n"
| "canMatchEmpty (RModGroup ad rm n) = canMatchEmpty n"
| "canMatchEmpty (RConcat ps) = list_all (\<lambda>b. b) (map canMatchEmpty ps)"
| "canMatchEmpty (RAlt ps) = list_ex (\<lambda>b. b) (map canMatchEmpty ps)"

text \<open>The capture indices \<open>captureSpan\<close> visits, in its order; lookaround bodies are not entered.\<close>

primrec visit_captures :: "re_node \<Rightarrow> nat list" where
  "visit_captures (RChar c) = []"
| "visit_captures RAny = []"
| "visit_captures RUDot = []"
| "visit_captures (RClass rs neg) = []"
| "visit_captures (RCpClass rs neg) = []"
| "visit_captures (RBackref i) = []"
| "visit_captures RBol = []"
| "visit_captures REol = []"
| "visit_captures (RWordBoundary neg) = []"
| "visit_captures (RLookaround n neg beh) = []"
| "visit_captures (RStar n g) = visit_captures n"
| "visit_captures (ROpt n g) = visit_captures n"
| "visit_captures (RPlus n g) = visit_captures n"
| "visit_captures (RRepeat n mn mx g) = visit_captures n"
| "visit_captures (RGroup n i nm) = (if i \<ge> 0 then [nat i] else []) @ visit_captures n"
| "visit_captures (RModGroup ad rm n) = visit_captures n"
| "visit_captures (RConcat ps) = concat (map visit_captures ps)"
| "visit_captures (RAlt ps) = concat (map visit_captures ps)"

definition captureSpan :: "re_node \<Rightarrow> (nat \<times> nat) option" where
  "captureSpan n = (case visit_captures n of
     [] \<Rightarrow> None
   | i # is \<Rightarrow> Some (fold min is i, fold max is i))"

primrec reverseNode :: "re_node \<Rightarrow> re_node" where
  "reverseNode (RChar c) = RChar c"
| "reverseNode RAny = RAny"
| "reverseNode RUDot = RUDot"
| "reverseNode (RClass rs neg) = RClass rs neg"
| "reverseNode (RCpClass rs neg) = RCpClass rs neg"
| "reverseNode (RBackref i) = RBackref i"
| "reverseNode RBol = RBol"
| "reverseNode REol = REol"
| "reverseNode (RWordBoundary neg) = RWordBoundary neg"
| "reverseNode (RLookaround n neg beh) = RLookaround n neg beh"
| "reverseNode (RStar n g) = RStar (reverseNode n) g"
| "reverseNode (ROpt n g) = ROpt (reverseNode n) g"
| "reverseNode (RPlus n g) = RPlus (reverseNode n) g"
| "reverseNode (RRepeat n mn mx g) = RRepeat (reverseNode n) mn mx g"
| "reverseNode (RGroup n i nm) = RGroup (reverseNode n) i nm"
| "reverseNode (RModGroup ad rm n) = RModGroup ad rm (reverseNode n)"
| "reverseNode (RConcat ps) = RConcat (rev (map reverseNode ps))"
| "reverseNode (RAlt ps) = RAlt (map reverseNode ps)"

definition dotCpRanges :: "bool \<Rightarrow> ranges" where
  "dotCpRanges dotAll =
     (if dotAll then [(0, 0x10ffff)]
      else [(0, 0x09), (0x0b, 0x0c), (0x0e, 0x2027), (0x202a, 0x10ffff)])"

definition foldClassRangesAscii :: "ranges \<Rightarrow> ranges" where
  "foldClassRangesAscii rs = concat (map (\<lambda>(lo, hi).
     let uLo = max lo 0x41; uHi = min hi 0x5a; lLo = max lo 0x61; lHi = min hi 0x7a in
     [(lo, hi)] @ (if uLo \<le> uHi then [(uLo + 0x20, uHi + 0x20)] else [])
       @ (if lLo \<le> lHi then [(lLo - 0x20, lHi - 0x20)] else [])) rs)"

section \<open>Reversal\<close>

lemma canMatchEmpty_reverse [simp]: "canMatchEmpty (reverseNode n) = canMatchEmpty n"
proof (induction n)
  case (RConcat ps)
  then show ?case by (simp add: list_all_iff image_iff)
next
  case (RAlt ps)
  then show ?case by (simp add: list_ex_iff image_iff)
qed simp_all

lemma set_visit_captures_reverse: "set (visit_captures (reverseNode n)) = set (visit_captures n)"
  by (induction n) auto

lemma fold_min_Min: "fold min xs (x :: nat) = Min (set (x # xs))"
  by (rule Min.set_eq_fold [symmetric])

lemma fold_max_Max: "fold max xs (x :: nat) = Max (set (x # xs))"
  by (rule Max.set_eq_fold [symmetric])

lemma captureSpan_alt:
  "captureSpan n = (if visit_captures n = [] then None
     else Some (Min (set (visit_captures n)), Max (set (visit_captures n))))"
  by (cases "visit_captures n") (simp_all add: captureSpan_def fold_min_Min fold_max_Max del: List.list.set)

lemma captureSpan_reverse [simp]: "captureSpan (reverseNode n) = captureSpan n"
  using set_visit_captures_reverse [of n] unfolding captureSpan_alt by (metis set_empty)

lemma reverse_reverse [simp]: "reverseNode (reverseNode n) = n"
  by (induction n) (auto simp: rev_map [symmetric] map_idI)

text \<open>
  Reversing an expression twice gives it back, and reversal changes neither whether it can
  match the empty string nor which captures a quantifier over it clears.
\<close>

theorem reverseNode_involutive:
  "reverseNode (reverseNode n) = n \<and> canMatchEmpty (reverseNode n) = canMatchEmpty n
   \<and> captureSpan (reverseNode n) = captureSpan n"
  by simp

section \<open>ASCII folding\<close>

lemma in_foldClassRangesAscii:
  "in_ranges (foldClassRangesAscii rs) c \<longleftrightarrow> (\<exists>m. in_ranges rs m \<and> asciiFold m = asciiFold c)"
proof -
  have one: "in_ranges ([(lo, hi)] @ (if max lo 0x41 \<le> min hi 0x5a then [(max lo 0x41 + 0x20, min hi 0x5a + 0x20)] else [])
       @ (if max lo 0x61 \<le> min hi 0x7a then [(max lo 0x61 - 0x20, min hi 0x7a - 0x20)] else [])) c
     \<longleftrightarrow> (\<exists>m. lo \<le> m \<and> m \<le> hi \<and> asciiFold m = asciiFold c)" (is "?l = ?r") for lo hi
  proof
    assume ?l
    then consider "lo \<le> c \<and> c \<le> hi"
      | "max lo 0x41 \<le> min hi 0x5a" "max lo 0x41 + 0x20 \<le> c" "c \<le> min hi 0x5a + 0x20"
      | "max lo 0x61 \<le> min hi 0x7a" "max lo 0x61 - 0x20 \<le> c" "c \<le> min hi 0x7a - 0x20"
      unfolding in_ranges_append by (auto simp only: in_ranges_Cons in_ranges_Nil fst_conv snd_conv split: if_splits)
    then show ?r
    proof cases
      case 2
      then have "lo \<le> c - 0x20" "c - 0x20 \<le> hi" "0x61 \<le> c" "c \<le> 0x7a" by linarith+
      then show ?thesis by (intro exI [of _ "c - 0x20"]) (auto simp: asciiFold_def)
    next
      case 3
      then have "lo \<le> c + 0x20" "c + 0x20 \<le> hi" "0x41 \<le> c" "c \<le> 0x5a" by linarith+
      then show ?thesis by (intro exI [of _ "c + 0x20"]) (auto simp: asciiFold_def)
    qed auto
  next
    assume ?r
    then obtain m where m: "lo \<le> m" "m \<le> hi" "asciiFold m = asciiFold c" by blast
    then consider "m = c" | "m = c + 0x20" "0x41 \<le> c" "c \<le> 0x5a" | "c = m + 0x20" "0x41 \<le> m" "m \<le> 0x5a"
      by (auto simp: asciiFold_def split: if_splits)
    then show ?l using m(1,2) by cases (auto simp: in_ranges_append in_ranges_Cons)
  qed
  have split: "(\<exists>m. in_ranges rs m \<and> asciiFold m = asciiFold c)
      \<longleftrightarrow> (\<exists>(lo, hi) \<in> set rs. \<exists>m. lo \<le> m \<and> m \<le> hi \<and> asciiFold m = asciiFold c)"
    by (auto simp: in_ranges_def; blast)
  show ?thesis
    unfolding foldClassRangesAscii_def in_ranges_concat_map split
    by (intro bex_cong refl) (simp only: split_def Let_def one)
qed

lemma foldClassRangesAscii_ok: "ranges_ok rs \<Longrightarrow> ranges_ok (foldClassRangesAscii rs)"
  by (fastforce simp: foldClassRangesAscii_def ranges_ok_def list_all_iff Let_def split: if_splits)

end
