(* ===== verification/RegexCompile.thy ===== *)
theory RegexCompile
  imports RegexAst
begin

text \<open>
  The bytecode emitter of \<open>src/src/codegen/regex/compile.ts\<close>: class \<open>Emitter\<close> as a record passed
  through every call, \<open>compileNode\<close> by recursion on the syntax tree, the literal-alternation trie,
  the expansion of counted repetition, the queue of lookaround bodies and \<open>compileParsed\<close>. The
  parameter \<open>upper\<close> is the host's \<open>toUpperCase\<close> (theory \<open>CaseFold\<close>).
\<close>

section \<open>State\<close>

definition MAX_REPEAT_EXPANSION :: int where
  "MAX_REPEAT_EXPANSION = 1000"

record pending_sub =
  ps_node :: re_node
  ps_patchPc :: nat
  ps_reversed :: bool
  ps_caseInsensitive :: bool
  ps_dotAll :: bool
  ps_multiline :: bool

record emitter =
  em_instrs :: "re_instr list"
  em_classTable :: "nat list"
  em_caseInsensitive :: bool
  em_dotAll :: bool
  em_multiline :: bool
  em_unicode :: bool
  em_reversed :: bool
  em_pendingSubs :: "pending_sub list"
  em_scratchCount :: nat
  em_scratchBase :: nat

definition new_emitter :: "bool \<Rightarrow> bool \<Rightarrow> bool \<Rightarrow> bool \<Rightarrow> emitter" where
  "new_emitter ci da ml un = \<lparr>em_instrs = [], em_classTable = [], em_caseInsensitive = ci, em_dotAll = da,
     em_multiline = ml, em_unicode = un, em_reversed = False, em_pendingSubs = [], em_scratchCount = 0,
     em_scratchBase = 0\<rparr>"

definition here :: "emitter \<Rightarrow> nat" where
  "here em = length (em_instrs em)"

definition emit :: "re_op \<Rightarrow> nat \<Rightarrow> nat \<Rightarrow> emitter \<Rightarrow> emitter" where
  "emit p a b em = em\<lparr>em_instrs := em_instrs em @ [(p, a, b)]\<rparr>"

definition patchA :: "nat \<Rightarrow> nat \<Rightarrow> emitter \<Rightarrow> emitter" where
  "patchA pc a em = em\<lparr>em_instrs := (em_instrs em)[pc := (fst (em_instrs em ! pc), a, snd (snd (em_instrs em ! pc)))]\<rparr>"

definition patchB :: "nat \<Rightarrow> nat \<Rightarrow> emitter \<Rightarrow> emitter" where
  "patchB pc b em = em\<lparr>em_instrs := (em_instrs em)[pc := (fst (em_instrs em ! pc), fst (snd (em_instrs em ! pc)), b)]\<rparr>"

definition setScratchBase :: "nat \<Rightarrow> emitter \<Rightarrow> emitter" where
  "setScratchBase base em = em\<lparr>em_scratchBase := base\<rparr>"

definition allocScratch :: "emitter \<Rightarrow> nat \<times> emitter" where
  "allocScratch em = (em_scratchBase em + em_scratchCount em, em\<lparr>em_scratchCount := em_scratchCount em + 1\<rparr>)"

definition emitClearForBody :: "re_node \<Rightarrow> emitter \<Rightarrow> emitter" where
  "emitClearForBody body em = (case captureSpan body of
     None \<Rightarrow> em
   | Some (lo, hi) \<Rightarrow> emit CLEAR (2 * lo) (2 * hi + 1) em)"

definition normalize_ranges :: "ranges \<Rightarrow> ranges" where
  "normalize_ranges rs = fold push_range (sort rs) []"

definition addClass :: "ranges \<Rightarrow> emitter \<Rightarrow> nat \<times> emitter" where
  "addClass rs em =
     (let normalized = normalize_ranges rs in
      (length (em_classTable em),
       em\<lparr>em_classTable := em_classTable em @ [length normalized] @ concat (map (\<lambda>(lo, hi). [lo, hi]) normalized)\<rparr>))"

section \<open>Literal alternations\<close>

fun literalCodes :: "re_node \<Rightarrow> nat list option" where
  "literalCodes (RChar c) = Some [c]"
| "literalCodes (RConcat ps) =
     (if list_all (\<lambda>p. case p of RChar c \<Rightarrow> True | _ \<Rightarrow> False) ps
      then Some (map (\<lambda>p. case p of RChar c \<Rightarrow> c | _ \<Rightarrow> 0) ps) else None)"
| "literalCodes _ = None"

datatype branch = Eps | Grp nat "nat list list"

text \<open>\<open>idxByChar\<close> maps a first code unit to the branch that collects its suffixes.\<close>

definition add_literal :: "nat list \<Rightarrow> branch list \<times> (nat \<rightharpoonup> nat) \<Rightarrow> branch list \<times> (nat \<rightharpoonup> nat)" where
  "add_literal l = (\<lambda>(branches, idxByChar).
     case l of
       [] \<Rightarrow> (branches @ [Eps], Map.empty)
     | c # suffix \<Rightarrow>
         (case idxByChar c of
            Some gi \<Rightarrow> (branches[gi := (case branches ! gi of Grp d ss \<Rightarrow> Grp d (ss @ [suffix]) | Eps \<Rightarrow> Eps)], idxByChar)
          | None \<Rightarrow> (branches @ [Grp c [suffix]], idxByChar(c \<mapsto> length branches))))"

definition literal_branches :: "nat list list \<Rightarrow> branch list" where
  "literal_branches lits = fst (fold add_literal lits ([], Map.empty))"

text \<open>Every suffix a branch collects comes from a literal that starts with the branch's unit.\<close>

definition branch_from :: "nat list list \<Rightarrow> branch \<Rightarrow> bool" where
  "branch_from lits b = (case b of Eps \<Rightarrow> True | Grp c ss \<Rightarrow> ss \<noteq> [] \<and> (\<forall>s\<in>set ss. c # s \<in> set lits))"

lemma branch_from_mono: "branch_from lits b \<Longrightarrow> set lits \<subseteq> set lits' \<Longrightarrow> branch_from lits' b"
  by (auto simp: branch_from_def split: branch.splits)

lemma fold_add_literal_from:
  "\<forall>b\<in>set (fst st). branch_from all b \<Longrightarrow> \<forall>c i. snd st c = Some i \<longrightarrow> i < length (fst st) \<and> (\<exists>ss. fst st ! i = Grp c ss)
   \<Longrightarrow> set lits \<subseteq> set all \<Longrightarrow> \<forall>b\<in>set (fst (fold add_literal lits st)). branch_from all b"
proof (induction lits arbitrary: st)
  case (Cons l lits)
  obtain bs m where st: "st = (bs, m)" by (cases st)
  have "(\<forall>b\<in>set (fst (add_literal l st)). branch_from all b)
     \<and> (\<forall>c i. snd (add_literal l st) c = Some i \<longrightarrow> i < length (fst (add_literal l st)) \<and> (\<exists>ss. fst (add_literal l st) ! i = Grp c ss))"
  proof (cases l)
    case Nil
    with Cons.prems st show ?thesis by (auto simp: add_literal_def branch_from_def)
  next
    case l: (Cons c suffix)
    show ?thesis
    proof (cases "m c")
      case None
      with Cons.prems st l show ?thesis
        by (auto simp: add_literal_def branch_from_def nth_append less_Suc_eq)
    next
      case (Some gi)
      then obtain ss where gi: "gi < length bs" "bs ! gi = Grp c ss" using Cons.prems(2) st by auto
      have "branch_from all (Grp c ss)" using Cons.prems(1) st gi nth_mem by fastforce
      then have "branch_from all (Grp c (ss @ [suffix]))" using Cons.prems(3) l by (auto simp: branch_from_def)
      with Cons.prems st l Some gi show ?thesis
        by (fastforce simp: add_literal_def nth_list_update dest: set_update_subset_insert [THEN subsetD])
    qed
  qed
  then show ?case
    using Cons.IH [of "add_literal l st"] Cons.prems(3) by simp
qed simp

lemma literal_branches_from: "b \<in> set (literal_branches lits) \<Longrightarrow> branch_from lits b"
  using fold_add_literal_from [of "([], Map.empty)" lits lits] by (auto simp: literal_branches_def)

definition max_length :: "nat list list \<Rightarrow> nat" where
  "max_length lits = Max (insert 0 (set (map length lits)))"

lemma max_length_branch:
  assumes "Grp c ss \<in> set (literal_branches lits)"
  shows "max_length ss < max_length lits"
proof -
  have b: "ss \<noteq> []" "\<And>s. s \<in> set ss \<Longrightarrow> c # s \<in> set lits"
    using literal_branches_from [OF assms] by (auto simp: branch_from_def)
  have le: "length l \<le> max_length lits" if "l \<in> set lits" for l
    using that by (auto simp: max_length_def)
  have "length s < max_length lits" if "s \<in> set ss" for s using le [OF b(2) [OF that]] by simp
  moreover have "0 < max_length lits" using b le by (cases ss) fastforce+
  ultimately show ?thesis by (auto simp: max_length_def [of ss])
qed

text \<open>The emission loop over the branches; \<open>rec\<close> emits a group with several suffixes.\<close>

definition emit_chars :: "nat list \<Rightarrow> emitter \<Rightarrow> emitter" where
  "emit_chars codes = fold (\<lambda>c. emit CHAR_op c 0) codes"

definition emit_branch :: "(nat list list \<Rightarrow> emitter \<Rightarrow> emitter) \<Rightarrow> branch \<Rightarrow> emitter \<Rightarrow> emitter" where
  "emit_branch rec b em = (case b of
     Eps \<Rightarrow> em
   | Grp c ss \<Rightarrow>
       let em = emit CHAR_op c 0 em in
       if length ss = 1 then emit_chars (hd ss) em else rec ss em)"

fun branch_loop :: "(nat list list \<Rightarrow> emitter \<Rightarrow> emitter) \<Rightarrow> branch list \<Rightarrow> nat list \<Rightarrow> emitter \<Rightarrow> nat list \<times> emitter" where
  "branch_loop rec [] jmpEnds em = (jmpEnds, em)"
| "branch_loop rec [b] jmpEnds em = (jmpEnds, emit_branch rec b em)"
| "branch_loop rec (b # b' # bs) jmpEnds em =
     (let split = here em;
          em = emit SPLIT 0 0 em;
          em = patchA split (here em) em;
          em = emit_branch rec b em;
          j = here em;
          em = emit JMP 0 0 em;
          em = patchB split (here em) em
      in branch_loop rec (b' # bs) (jmpEnds @ [j]) em)"

definition patch_all :: "nat list \<Rightarrow> emitter \<Rightarrow> emitter" where
  "patch_all jmpEnds em = (let end_pc = here em in fold (\<lambda>j. patchA j end_pc) jmpEnds em)"

lemma emit_branch_cong:
  "(\<And>c ss em. b = Grp c ss \<Longrightarrow> f ss em = g ss em) \<Longrightarrow> emit_branch f b em = emit_branch g b em"
  by (cases b) (simp_all add: emit_branch_def Let_def)

lemma branch_loop_same:
  "(\<And>c ss em. Grp c ss \<in> set bs \<Longrightarrow> f ss em = g ss em) \<Longrightarrow> branch_loop f bs js em = branch_loop g bs js em"
proof (induction bs arbitrary: js em)
  case (Cons b bs)
  have e: "emit_branch f b e = emit_branch g b e" for e
    by (rule emit_branch_cong) (use Cons.prems in auto)
  have "branch_loop f bs js' e = branch_loop g bs js' e" for js' e
    by (rule Cons.IH) (use Cons.prems in auto)
  with e show ?case by (cases bs) (simp_all add: Let_def)
qed simp

lemma branch_loop_cong [fundef_cong]:
  "bs = bs' \<Longrightarrow> js = js' \<Longrightarrow> em = em' \<Longrightarrow> (\<And>c ss em. Grp c ss \<in> set bs' \<Longrightarrow> f ss em = g ss em)
   \<Longrightarrow> branch_loop f bs js em = branch_loop g bs' js' em'"
  by hypsubst (rule branch_loop_same)

function emitLitAltGrouped :: "nat list list \<Rightarrow> emitter \<Rightarrow> emitter" where
  "emitLitAltGrouped lits em =
     (case branch_loop emitLitAltGrouped (literal_branches lits) [] em of (jmpEnds, em) \<Rightarrow> patch_all jmpEnds em)"
  by pat_completeness auto
termination
  by (relation "measure (\<lambda>(lits, em). max_length lits)") (simp_all add: max_length_branch)

declare emitLitAltGrouped.simps [simp del]

text \<open>\<open>None\<close> when the alternation does not qualify (\<open>return false\<close>).\<close>

definition tryEmitLiteralAltTrie :: "re_node list \<Rightarrow> emitter \<Rightarrow> emitter option" where
  "tryEmitLiteralAltTrie options em =
     (if em_caseInsensitive em then None
      else if length options < 4 then None
      else if list_all (\<lambda>p. literalCodes p \<noteq> None \<and> literalCodes p \<noteq> Some []) options
      then Some (emitLitAltGrouped (map (\<lambda>p. the (literalCodes p)) options) em)
      else None)"

section \<open>Compiling a node\<close>

type_synonym emission = "emitter \<Rightarrow> regex_error + emitter"

fun alt_loop :: "emission list \<Rightarrow> nat list \<Rightarrow> emitter \<Rightarrow> regex_error + (nat list \<times> emitter)" where
  "alt_loop [] jmpEnds em = Inr (jmpEnds, em)"
| "alt_loop [c] jmpEnds em = rbind (c em) (\<lambda>em. Inr (jmpEnds, em))"
| "alt_loop (c # c' # cs) jmpEnds em =
     (let split = here em;
          em = emit SPLIT 0 0 em;
          em = patchA split (here em) em
      in rbind (c em) (\<lambda>em.
        let j = here em;
            em = emit JMP 0 0 em;
            em = patchB split (here em) em
        in alt_loop (c' # cs) (jmpEnds @ [j]) em))"

definition compile_alt :: "re_node list \<Rightarrow> emission list \<Rightarrow> emission" where
  "compile_alt options cs em = (case tryEmitLiteralAltTrie options em of
     Some em \<Rightarrow> Inr em
   | None \<Rightarrow> rbind (alt_loop cs [] em) (\<lambda>(jmpEnds, em). Inr (patch_all jmpEnds em)))"

text \<open>Set the two targets of a \<open>SPLIT\<close>: the body first when greedy, the exit first when lazy.\<close>

definition patch_split :: "nat \<Rightarrow> bool \<Rightarrow> nat \<Rightarrow> nat \<Rightarrow> emitter \<Rightarrow> emitter" where
  "patch_split pc greedy body exit_pc em =
     (if greedy then patchB pc exit_pc (patchA pc body em) else patchB pc body (patchA pc exit_pc em))"

definition compile_star :: "re_node \<Rightarrow> bool \<Rightarrow> emission \<Rightarrow> emission" where
  "compile_star n greedy c em =
     (let (guard, em) = (if canMatchEmpty n then (let (g, em) = allocScratch em in (Some g, em)) else (None, em));
          em = (case guard of Some g \<Rightarrow> emit SAVE g 0 em | None \<Rightarrow> em);
          l1 = here em;
          em = emit SPLIT 0 0 em;
          bodyStart = here em;
          em = emitClearForBody n em
      in rbind (c em) (\<lambda>em.
        let em = (case guard of Some g \<Rightarrow> emit PROGRESS g 0 em | None \<Rightarrow> em);
            em = emit JMP (case guard of Some _ \<Rightarrow> l1 - 1 | None \<Rightarrow> l1) 0 em
        in Inr (patch_split l1 greedy bodyStart (here em) em)))"

definition compile_plus :: "re_node \<Rightarrow> bool \<Rightarrow> emission \<Rightarrow> emission" where
  "compile_plus n greedy c em =
     (if canMatchEmpty n then
        let em = snd (allocScratch em) in
        rbind (c (emitClearForBody n em)) (compile_star n greedy c)
      else
        let l1 = here em in
        rbind (c (emitClearForBody n em)) (\<lambda>em.
          let split = here em;
              em = emit SPLIT 0 0 em
          in Inr (patch_split split greedy l1 (here em) em)))"

definition compile_opt :: "bool \<Rightarrow> emission \<Rightarrow> emission" where
  "compile_opt greedy c em =
     (let split = here em;
          em = emit SPLIT 0 0 em;
          bodyStart = here em
      in rbind (c em) (\<lambda>em. Inr (patch_split split greedy bodyStart (here em) em)))"

definition compileRepeat :: "re_node \<Rightarrow> nat \<Rightarrow> int \<Rightarrow> bool \<Rightarrow> emission \<Rightarrow> emission" where
  "compileRepeat n mn mx greedy c em =
     (if mx \<noteq> - 1 \<and> (mx > MAX_REPEAT_EXPANSION \<or> int mn > MAX_REPEAT_EXPANSION) then Inl (RepeatTooLarge mn mx)
      else rbind (rseq (replicate mn c) em) (\<lambda>em.
        if mx = - 1 then compile_star n greedy c em
        else rseq (replicate (nat (mx - int mn)) (compile_opt greedy c)) em))"

definition compile_group :: "int \<Rightarrow> emission \<Rightarrow> emission" where
  "compile_group capIndex c em =
     (if capIndex < 0 then c em
      else
        let k = nat capIndex;
            first = (if em_reversed em then 2 * k + 1 else 2 * k);
            second = (if em_reversed em then 2 * k else 2 * k + 1)
        in rbind (c (emit SAVE first 0 em)) (\<lambda>em. Inr (emit SAVE second 0 em)))"

definition set_modes :: "bool \<Rightarrow> bool \<Rightarrow> bool \<Rightarrow> emitter \<Rightarrow> emitter" where
  "set_modes ci da ml em = em\<lparr>em_caseInsensitive := ci, em_dotAll := da, em_multiline := ml\<rparr>"

definition apply_modifier :: "nat \<Rightarrow> nat \<Rightarrow> nat \<Rightarrow> bool \<Rightarrow> bool" where
  "apply_modifier ad rm flag cur =
     (let cur = (if ad AND flag \<noteq> 0 then True else cur) in if rm AND flag \<noteq> 0 then False else cur)"

definition compile_modgroup :: "nat \<Rightarrow> nat \<Rightarrow> emission \<Rightarrow> emission" where
  "compile_modgroup ad rm c em =
     rbind (c (set_modes (apply_modifier ad rm RE_FLAG_I (em_caseInsensitive em))
                         (apply_modifier ad rm RE_FLAG_S (em_dotAll em))
                         (apply_modifier ad rm RE_FLAG_M (em_multiline em)) em))
       (\<lambda>em'. Inr (set_modes (em_caseInsensitive em) (em_dotAll em) (em_multiline em) em'))"

definition queue_lookaround :: "re_node \<Rightarrow> bool \<Rightarrow> bool \<Rightarrow> emitter \<Rightarrow> emitter" where
  "queue_lookaround n neg beh em =
     (let pc = here em;
          em = emit LOOKAROUND 0 ((if neg then 1 else 0) OR (if beh then 2 else 0)) em
      in em\<lparr>em_pendingSubs := em_pendingSubs em @
           [\<lparr>ps_node = (if beh then reverseNode n else n), ps_patchPc = pc, ps_reversed = beh,
             ps_caseInsensitive = em_caseInsensitive em, ps_dotAll = em_dotAll em,
             ps_multiline = em_multiline em\<rparr>]\<rparr>)"

definition emit_class :: "re_op \<Rightarrow> ranges \<Rightarrow> bool \<Rightarrow> emitter \<Rightarrow> emitter" where
  "emit_class p rs neg em = (let (off, em) = addClass rs em in emit p off (if neg then 1 else 0) em)"

definition compile_char :: "(nat \<Rightarrow> nat list) \<Rightarrow> nat \<Rightarrow> emitter \<Rightarrow> emitter" where
  "compile_char upper code em =
     (if \<not> em_caseInsensitive em then emit CHAR_op code 0 em
      else if em_unicode em then emit CHARI (asciiFold code) 0 em
      else
        let units = foldCharUnitsLegacy upper code in
        if length units = 1 then emit CHAR_op (hd units) 0 em
        else emit_class CLASS (unitsToRanges units) False em)"

definition class_ranges :: "(nat \<Rightarrow> nat list) \<Rightarrow> ranges \<Rightarrow> emitter \<Rightarrow> ranges" where
  "class_ranges upper rs em =
     (if em_caseInsensitive em
      then (if em_unicode em then foldClassRangesAscii rs else foldClassRangesLegacy upper rs)
      else rs)"

primrec compileNode :: "(nat \<Rightarrow> nat list) \<Rightarrow> re_node \<Rightarrow> emission" where
  "compileNode upper (RChar code) = (\<lambda>em. Inr (compile_char upper code em))"
| "compileNode upper RAny = (\<lambda>em. Inr (emit ANY (if em_dotAll em then 1 else 0) 0 em))"
| "compileNode upper RUDot = (\<lambda>em. Inr (emit_class CPCLASS (dotCpRanges (em_dotAll em)) False em))"
| "compileNode upper (RClass rs neg) = (\<lambda>em. Inr (emit_class CLASS (class_ranges upper rs em) neg em))"
| "compileNode upper (RCpClass rs neg) = (\<lambda>em. Inr (emit_class CPCLASS rs neg em))"
| "compileNode upper RBol = (\<lambda>em. Inr (emit BOL (if em_multiline em then 1 else 0) 0 em))"
| "compileNode upper REol = (\<lambda>em. Inr (emit EOL (if em_multiline em then 1 else 0) 0 em))"
| "compileNode upper (RWordBoundary neg) = (\<lambda>em. Inr (emit WBOUND (if neg then 1 else 0) 0 em))"
| "compileNode upper (RBackref i) = (\<lambda>em. Inr (emit BACKREF i (if em_caseInsensitive em then 1 else 0) em))"
| "compileNode upper (RLookaround n neg beh) = (\<lambda>em. Inr (queue_lookaround n neg beh em))"
| "compileNode upper (RModGroup ad rm n) = compile_modgroup ad rm (compileNode upper n)"
| "compileNode upper (RConcat ps) = rseq (map (compileNode upper) ps)"
| "compileNode upper (RAlt ps) = compile_alt ps (map (compileNode upper) ps)"
| "compileNode upper (RStar n g) = compile_star n g (compileNode upper n)"
| "compileNode upper (RPlus n g) = compile_plus n g (compileNode upper n)"
| "compileNode upper (ROpt n g) = compile_opt g (compileNode upper n)"
| "compileNode upper (RRepeat n mn mx g) = compileRepeat n mn mx g (compileNode upper n)"
| "compileNode upper (RGroup n i nm) = compile_group i (compileNode upper n)"

section \<open>Emission only adds\<close>

text \<open>
  The number of sub-programs a node asks for, counting those its lookaround bodies ask for in
  turn: what \<open>drainPendingSubs\<close> has to emit.
\<close>

primrec look_weight :: "re_node \<Rightarrow> nat" where
  "look_weight (RChar c) = 0"
| "look_weight RAny = 0"
| "look_weight RUDot = 0"
| "look_weight (RClass rs neg) = 0"
| "look_weight (RCpClass rs neg) = 0"
| "look_weight (RBackref i) = 0"
| "look_weight RBol = 0"
| "look_weight REol = 0"
| "look_weight (RWordBoundary neg) = 0"
| "look_weight (RLookaround n neg beh) = Suc (look_weight n)"
| "look_weight (RStar n g) = look_weight n"
| "look_weight (ROpt n g) = look_weight n"
| "look_weight (RPlus n g) = (if canMatchEmpty n then 2 * look_weight n else look_weight n)"
| "look_weight (RRepeat n mn mx g) = (mn + (if mx = - 1 then 1 else nat (mx - int mn))) * look_weight n"
| "look_weight (RGroup n i nm) = look_weight n"
| "look_weight (RModGroup ad rm n) = look_weight n"
| "look_weight (RConcat ps) = sum_list (map look_weight ps)"
| "look_weight (RAlt ps) = sum_list (map look_weight ps)"

definition pend_weight :: "pending_sub list \<Rightarrow> nat" where
  "pend_weight ps = sum_list (map (\<lambda>p. Suc (look_weight (ps_node p))) ps)"

lemma pend_weight_simps [simp]:
  "pend_weight [] = 0" "pend_weight (p # ps) = Suc (look_weight (ps_node p)) + pend_weight ps"
  "pend_weight (ps @ qs) = pend_weight ps + pend_weight qs"
  by (simp_all add: pend_weight_def)

lemma look_weight_reverse [simp]: "look_weight (reverseNode n) = look_weight n"
proof (induction n)
  case (RConcat ps)
  then have e: "map (\<lambda>p. look_weight (reverseNode p)) ps = map look_weight ps" by simp
  have "look_weight (reverseNode (RConcat ps)) = sum_list (rev (map (\<lambda>p. look_weight (reverseNode p)) ps))"
    by (simp add: rev_map comp_def)
  then show ?case by (simp only: sum_list_rev e look_weight.simps)
next
  case (RAlt ps)
  then have e: "map (\<lambda>p. look_weight (reverseNode p)) ps = map look_weight ps" by simp
  show ?case by (simp add: comp_def e)
qed simp_all

definition same_modes :: "emitter \<Rightarrow> emitter \<Rightarrow> bool" where
  "same_modes em em' \<longleftrightarrow> em_caseInsensitive em' = em_caseInsensitive em \<and> em_dotAll em' = em_dotAll em
     \<and> em_multiline em' = em_multiline em \<and> em_unicode em' = em_unicode em \<and> em_reversed em' = em_reversed em
     \<and> em_scratchBase em' = em_scratchBase em"

text \<open>
  \<open>grown em em' w\<close>: \<open>em'\<close> is \<open>em\<close> with instructions, classes, scratch slots and pending
  lookarounds of total weight \<open>w\<close> added.
\<close>

definition queued :: "pending_sub list \<Rightarrow> nat \<Rightarrow> emitter \<Rightarrow> bool" where
  "queued np lo em \<longleftrightarrow> distinct (map ps_patchPc np)
     \<and> (\<forall>p\<in>set np. lo \<le> ps_patchPc p \<and> ps_patchPc p < here em \<and> fst (em_instrs em ! ps_patchPc p) = LOOKAROUND)"

definition grown :: "emitter \<Rightarrow> emitter \<Rightarrow> nat \<Rightarrow> bool" where
  "grown em em' w \<longleftrightarrow>
     (\<exists>ni. em_instrs em' = em_instrs em @ ni) \<and> (\<exists>nc. em_classTable em' = em_classTable em @ nc)
     \<and> (\<exists>np. em_pendingSubs em' = em_pendingSubs em @ np \<and> pend_weight np = w \<and> queued np (here em) em')
     \<and> em_scratchCount em \<le> em_scratchCount em' \<and> same_modes em em'"

lemma grown_refl: "grown em em 0"
  by (simp add: grown_def same_modes_def queued_def)

lemma grownE:
  assumes "grown em em' w"
  obtains ni nc np where "em_instrs em' = em_instrs em @ ni" "em_classTable em' = em_classTable em @ nc"
    "em_pendingSubs em' = em_pendingSubs em @ np" "pend_weight np = w" "queued np (here em) em'"
    "em_scratchCount em \<le> em_scratchCount em'" "same_modes em em'"
  using assms unfolding grown_def by blast

lemma grownI:
  "em_instrs em' = em_instrs em @ ni \<Longrightarrow> em_classTable em' = em_classTable em @ nc \<Longrightarrow> em_pendingSubs em' = em_pendingSubs em @ np
   \<Longrightarrow> pend_weight np = w \<Longrightarrow> queued np (here em) em' \<Longrightarrow> em_scratchCount em \<le> em_scratchCount em' \<Longrightarrow> same_modes em em'
   \<Longrightarrow> grown em em' w"
  unfolding grown_def by blast

lemma queued_mono:
  "queued np lo em \<Longrightarrow> here em \<le> here em' \<Longrightarrow> (\<And>pc. pc < here em \<Longrightarrow> fst (em_instrs em' ! pc) = fst (em_instrs em ! pc))
   \<Longrightarrow> queued np lo em'"
  unfolding queued_def by fastforce

lemma queued_append:
  "queued np lo em \<Longrightarrow> queued nq mid em \<Longrightarrow> \<forall>p\<in>set np. ps_patchPc p < mid \<Longrightarrow> lo \<le> mid \<Longrightarrow> queued (np @ nq) lo em"
  unfolding queued_def by fastforce

lemma grown_trans: "grown em em1 w1 \<Longrightarrow> grown em1 em2 w2 \<Longrightarrow> grown em em2 (w1 + w2)"
proof -
  assume "grown em em1 w1" and "grown em1 em2 w2"
  then obtain ni nc np ni' nc' np' where
    1: "em_instrs em1 = em_instrs em @ ni" "em_classTable em1 = em_classTable em @ nc"
      "em_pendingSubs em1 = em_pendingSubs em @ np" "pend_weight np = w1" "queued np (here em) em1"
      "em_scratchCount em \<le> em_scratchCount em1" "same_modes em em1"
    and 2: "em_instrs em2 = em_instrs em1 @ ni'" "em_classTable em2 = em_classTable em1 @ nc'"
      "em_pendingSubs em2 = em_pendingSubs em1 @ np'" "pend_weight np' = w2" "queued np' (here em1) em2"
      "em_scratchCount em1 \<le> em_scratchCount em2" "same_modes em1 em2"
    by (elim grownE) blast
  have "queued np (here em) em2"
    using 1(5) by (rule queued_mono) (simp_all add: here_def 2(1) nth_append)
  then have q: "queued (np @ np') (here em) em2"
    using 2(5) by (rule queued_append) (use 1(5) in \<open>auto simp: queued_def here_def 1(1)\<close>)
  show "grown em em2 (w1 + w2)"
    by (rule grownI [where ni = "ni @ ni'" and nc = "nc @ nc'" and np = "np @ np'"])
      (use 1 2 q in \<open>auto simp: same_modes_def\<close>)
qed

lemma grown_here: "grown em em' w \<Longrightarrow> here em \<le> here em'"
  by (auto simp: grown_def here_def)

lemma emit_fields [simp]:
  "em_instrs (emit p a b em) = em_instrs em @ [(p, a, b)]" "em_classTable (emit p a b em) = em_classTable em"
  "em_pendingSubs (emit p a b em) = em_pendingSubs em" "em_scratchCount (emit p a b em) = em_scratchCount em"
  "em_caseInsensitive (emit p a b em) = em_caseInsensitive em" "em_dotAll (emit p a b em) = em_dotAll em"
  "em_multiline (emit p a b em) = em_multiline em" "em_unicode (emit p a b em) = em_unicode em"
  "em_reversed (emit p a b em) = em_reversed em" "em_scratchBase (emit p a b em) = em_scratchBase em"
  "here (emit p a b em) = Suc (here em)"
  by (simp_all add: emit_def here_def)

lemma patch_fields [simp]:
  "em_classTable (patchA pc a em) = em_classTable em" "em_classTable (patchB pc a em) = em_classTable em"
  "em_pendingSubs (patchA pc a em) = em_pendingSubs em" "em_pendingSubs (patchB pc a em) = em_pendingSubs em"
  "em_scratchCount (patchA pc a em) = em_scratchCount em" "em_scratchCount (patchB pc a em) = em_scratchCount em"
  "em_scratchBase (patchA pc a em) = em_scratchBase em" "em_scratchBase (patchB pc a em) = em_scratchBase em"
  "here (patchA pc a em) = here em" "here (patchB pc a em) = here em"
  "same_modes e (patchA pc a em) = same_modes e em" "same_modes e (patchB pc a em) = same_modes e em"
  by (simp_all add: patchA_def patchB_def here_def same_modes_def)

text \<open>Changes to the instructions after \<open>here em\<close> that keep their opcodes.\<close>

lemma grown_change:
  assumes "grown em em' w"
    and "em_classTable em'' = em_classTable em' @ nc'" "em_pendingSubs em'' = em_pendingSubs em'"
    and "em_scratchCount em' \<le> em_scratchCount em''" "same_modes em' em''"
    and "take (here em) (em_instrs em'') = em_instrs em" "here em' \<le> here em''"
    and "\<And>pc. pc < here em' \<Longrightarrow> fst (em_instrs em'' ! pc) = fst (em_instrs em' ! pc)"
  shows "grown em em'' w"
proof -
  obtain ni nc np where 1: "em_instrs em' = em_instrs em @ ni" "em_classTable em' = em_classTable em @ nc"
    "em_pendingSubs em' = em_pendingSubs em @ np" "pend_weight np = w" "queued np (here em) em'"
    "em_scratchCount em \<le> em_scratchCount em'" "same_modes em em'"
    using assms(1) by (rule grownE)
  have "em_instrs em'' = em_instrs em @ drop (here em) (em_instrs em'')"
    using assms(6) append_take_drop_id [of "here em" "em_instrs em''"] by simp
  moreover have "queued np (here em) em''"
    using 1(5) assms(7,8) by (rule queued_mono)
  ultimately show ?thesis
    by (rule_tac grownI [where nc = "nc @ nc'" and np = np]) (use 1 assms in \<open>auto simp: same_modes_def\<close>)
qed

lemma grown_prefix: "grown em em' w \<Longrightarrow> take (here em) (em_instrs em') = em_instrs em \<and> here em \<le> here em'"
  by (auto simp: here_def elim: grownE)

lemma grown_emit:
  assumes "grown em em' w"
  shows "grown em (emit p a b em') w"
  by (rule grown_change [where nc' = "[]", OF assms])
    (use grown_prefix [OF assms] in \<open>auto simp: same_modes_def here_def nth_append\<close>)

lemma patched_op: "fst (xs[pc := (fst (xs ! pc), y)] ! i) = fst (xs ! i)"
  by (cases "pc = i"; cases "pc < length xs") (simp_all add: list_update_beyond)

lemma grown_patchA:
  assumes "grown em em' w" and "here em \<le> pc"
  shows "grown em (patchA pc a em') w"
  by (rule grown_change [where nc' = "[]", OF assms(1)])
    (use grown_prefix [OF assms(1)] assms(2) in \<open>auto simp: patchA_def here_def same_modes_def patched_op\<close>)

lemma grown_patchB:
  assumes "grown em em' w" and "here em \<le> pc"
  shows "grown em (patchB pc a em') w"
  by (rule grown_change [where nc' = "[]", OF assms(1)])
    (use grown_prefix [OF assms(1)] assms(2) in \<open>auto simp: patchB_def here_def same_modes_def patched_op\<close>)

lemma grown_patch_split: "grown em em' w \<Longrightarrow> here em \<le> pc \<Longrightarrow> grown em (patch_split pc g x y em') w"
  by (simp add: patch_split_def grown_patchA grown_patchB)

lemma grown_fold_patchA: "grown em em' w \<Longrightarrow> \<forall>j\<in>set js. here em \<le> j \<Longrightarrow> grown em (fold (\<lambda>j. patchA j x) js em') w"
  by (induction js arbitrary: em') (auto intro: grown_patchA)

lemma grown_patch_all: "grown em em' w \<Longrightarrow> \<forall>j\<in>set js. here em \<le> j \<Longrightarrow> grown em (patch_all js em') w"
  by (simp add: patch_all_def Let_def grown_fold_patchA)

lemma grown_clear: "grown em em' w \<Longrightarrow> grown em (emitClearForBody n em') w"
  by (simp add: emitClearForBody_def grown_emit split: option.split)

lemma grown_class:
  assumes "grown em em' w"
  shows "grown em (emit_class p rs neg em') w"
proof -
  let ?n = "normalize_ranges rs"
  have "grown em (em'\<lparr>em_classTable := em_classTable em' @ [length ?n] @ concat (map (\<lambda>(lo, hi). [lo, hi]) ?n)\<rparr>) w"
    by (rule grown_change [where nc' = "[length ?n] @ concat (map (\<lambda>(lo, hi). [lo, hi]) ?n)", OF assms])
      (use grown_prefix [OF assms] in \<open>auto simp: same_modes_def here_def\<close>)
  then show ?thesis by (simp add: emit_class_def addClass_def Let_def grown_emit)
qed

lemma grown_alloc:
  assumes "grown em em' w"
  shows "grown em (snd (allocScratch em')) w"
  by (rule grown_change [where nc' = "[]", OF assms])
    (use grown_prefix [OF assms] in \<open>auto simp: allocScratch_def same_modes_def here_def\<close>)

lemma here_le_patched [simp]: "here (patch_split pc g x y em) = here em" "here (patch_all js em) = here em"
proof -
  show "here (patch_split pc g x y em) = here em" by (simp add: patch_split_def)
  have "here (fold (\<lambda>j. patchA j e) js em) = here em" for e by (induction js arbitrary: em) simp_all
  then show "here (patch_all js em) = here em" by (simp add: patch_all_def Let_def)
qed

subsection \<open>The trie\<close>

lemma grown_chars: "grown em em' w \<Longrightarrow> grown em (emit_chars cs em') w"
  unfolding emit_chars_def by (induction cs arbitrary: em') (auto intro: grown_emit)

lemma grown_branch:
  assumes "\<And>c ss em. b = Grp c ss \<Longrightarrow> grown em (rec ss em) 0" and "grown em em' 0"
  shows "grown em (emit_branch rec b em') 0"
proof (cases b)
  case Eps
  with assms(2) show ?thesis by (simp add: emit_branch_def)
next
  case (Grp c ss)
  have "grown em (emit CHAR_op c 0 em') 0" using assms(2) by (rule grown_emit)
  with assms(1) [OF Grp] grown_trans [of em "emit CHAR_op c 0 em'" 0 _ 0] show ?thesis
    by (simp add: emit_branch_def Grp Let_def grown_chars)
qed

lemma grown_branch_loop:
  assumes "\<And>c ss em. Grp c ss \<in> set bs \<Longrightarrow> grown em (rec ss em) 0"
    and "grown em em' 0" and "\<forall>j\<in>set js. here em \<le> j"
  shows "grown em (snd (branch_loop rec bs js em')) 0 \<and> (\<forall>j\<in>set (fst (branch_loop rec bs js em')). here em \<le> j)"
  using assms
proof (induction rec bs js em' rule: branch_loop.induct)
  case (2 rec b js em')
  then show ?case by (simp add: grown_branch)
next
  case (3 rec b b' bs js em')
  let ?e1 = "emit_branch rec b (patchA (here em') (here (emit SPLIT 0 0 em')) (emit SPLIT 0 0 em'))"
  let ?e2 = "patchB (here em') (here (emit JMP 0 0 ?e1)) (emit JMP 0 0 ?e1)"
  have h: "here em \<le> here em'" using "3.prems"(2) by (rule grown_here)
  have 1: "grown em ?e1 0"
  proof (rule grown_branch)
    show "grown e (rec ss e) 0" if "b = Grp c ss" for c ss e
      using "3.prems"(1) [of c ss e] that by simp
  qed (use "3.prems"(2) h in \<open>simp add: grown_patchA grown_emit\<close>)
  have 2: "grown em ?e2 0" using 1 h by (intro grown_patchB grown_emit)
  have "grown em (snd (branch_loop rec (b' # bs) (js @ [here ?e1]) ?e2)) 0
     \<and> (\<forall>j\<in>set (fst (branch_loop rec (b' # bs) (js @ [here ?e1]) ?e2)). here em \<le> j)"
  proof (rule "3.IH" [OF refl refl refl refl refl refl refl])
    show "grown e (rec ss e) 0" if "Grp c ss \<in> set (b' # bs)" for c ss e
      using "3.prems"(1) [of c ss e] that by auto
  qed (use 2 "3.prems"(3) grown_here [OF 1] in auto)
  then show ?case by (simp add: Let_def)
qed simp

lemma grown_literals: "grown em (emitLitAltGrouped lits em) 0"
proof (induction lits em rule: emitLitAltGrouped.induct)
  case (1 lits em)
  obtain js em' where bl: "branch_loop emitLitAltGrouped (literal_branches lits) [] em = (js, em')" by fastforce
  have "grown em em' 0 \<and> (\<forall>j\<in>set js. here em \<le> j)"
    using grown_branch_loop [of "literal_branches lits" emitLitAltGrouped em em "[]"] 1 grown_refl bl by auto
  then show ?case by (subst emitLitAltGrouped.simps) (simp add: bl grown_patch_all)
qed

subsection \<open>Nodes\<close>

definition grows :: "emission \<Rightarrow> nat \<Rightarrow> bool" where
  "grows c w \<longleftrightarrow> (\<forall>em em'. c em = Inr em' \<longrightarrow> grown em em' w)"

lemma growsI: "(\<And>em em'. c em = Inr em' \<Longrightarrow> grown em em' w) \<Longrightarrow> grows c w"
  by (simp add: grows_def)

lemma growsD: "grows c w \<Longrightarrow> c em = Inr em' \<Longrightarrow> grown em em' w"
  by (simp add: grows_def)

lemma grows_after: "grows c w \<Longrightarrow> c em1 = Inr em2 \<Longrightarrow> grown em em1 0 \<Longrightarrow> grown em em2 w"
  using grown_trans [of em em1 0 em2 w] by (simp add: growsD)

lemma grows_rseq:
  "list_all2 grows cs ws \<Longrightarrow> grows (rseq cs) (sum_list ws)"
proof (induction rule: list_all2_induct)
  case Nil
  show ?case by (rule growsI) (simp add: grown_refl)
next
  case (Cons c cs w ws)
  show ?case
    by (rule growsI) (auto intro: grown_trans growsD [OF Cons(1)] growsD [OF Cons(3)])
qed

lemma grown_alt_loop:
  "list_all2 grows cs ws \<Longrightarrow> alt_loop cs js em' = Inr (js', em'') \<Longrightarrow> grown em em' w0 \<Longrightarrow> \<forall>j\<in>set js. here em \<le> j
   \<Longrightarrow> grown em em'' (w0 + sum_list ws) \<and> (\<forall>j\<in>set js'. here em \<le> j)"
proof (induction cs js em' arbitrary: ws w0 rule: alt_loop.induct)
  case (2 c js em')
  then obtain w where w: "ws = [w]" "grows c w" by (auto simp: list_all2_Cons1)
  then have "grown em' em'' w" using "2.prems"(2) by (auto intro: growsD)
  with "2.prems" w show ?case by (auto intro: grown_trans)
next
  case (3 c c' cs js em')
  obtain w ws' where ws: "ws = w # ws'" "grows c w" "list_all2 grows (c' # cs) ws'"
    using "3.prems"(1) by (auto simp: list_all2_Cons1)
  define e0 where "e0 = patchA (here em') (here (emit SPLIT 0 0 em')) (emit SPLIT 0 0 em')"
  from "3.prems"(2) obtain e1 where e1: "c e0 = Inr e1"
    by (auto simp: Let_def e0_def)
  define e2 where "e2 = patchB (here em') (here (emit JMP 0 0 e1)) (emit JMP 0 0 e1)"
  have l: "alt_loop (c' # cs) (js @ [here e1]) e2 = Inr (js', em'')"
    using "3.prems"(2) e1 by (simp add: Let_def e0_def e2_def)
  have h: "here em \<le> here em'" using "3.prems"(3) by (rule grown_here)
  have "grown em e0 w0" using "3.prems"(3) h by (simp add: e0_def grown_patchA grown_emit)
  then have 1: "grown em e1 (w0 + w)" using growsD [OF ws(2) e1] by (rule grown_trans)
  then have 2: "grown em e2 (w0 + w)" using h by (simp add: e2_def grown_patchB grown_emit)
  have "grown em em'' ((w0 + w) + sum_list ws') \<and> (\<forall>j\<in>set js'. here em \<le> j)"
    by (rule "3.IH" [OF refl refl refl e1 [unfolded e0_def] refl refl refl ws(3) l [unfolded e2_def] 2 [unfolded e2_def]])
      (use "3.prems"(4) grown_here [OF 1] in auto)
  then show ?case by (simp add: ws(1) add.assoc)
qed auto

lemma literalCodes_weight: "literalCodes p \<noteq> None \<Longrightarrow> look_weight p = 0"
proof (cases p)
  case (RConcat ps)
  assume "literalCodes p \<noteq> None"
  then have l: "list_all (\<lambda>p. case p of RChar c \<Rightarrow> True | _ \<Rightarrow> False) ps" using RConcat by (auto split: if_splits)
  have "look_weight q = 0" if "q \<in> set ps" for q
    using bspec [OF l [unfolded list_all_iff] that] by (cases q) simp_all
  then show ?thesis using RConcat by (simp add: sum_list_eq_0_iff)
qed simp_all

lemma trie_weight: "tryEmitLiteralAltTrie ps em = Some em' \<Longrightarrow> sum_list (map look_weight ps) = 0"
  by (auto simp: tryEmitLiteralAltTrie_def list_all_iff sum_list_eq_0_iff literalCodes_weight split: if_splits)

lemma trie_grown: "tryEmitLiteralAltTrie ps em = Some em' \<Longrightarrow> grown em em' 0"
  by (auto simp: tryEmitLiteralAltTrie_def grown_literals split: if_splits)

lemma grows_alt:
  assumes "list_all2 grows cs (map look_weight ps)"
  shows "grows (compile_alt ps cs) (sum_list (map look_weight ps))"
proof (rule growsI)
  fix em em'
  assume c: "compile_alt ps cs em = Inr em'"
  show "grown em em' (sum_list (map look_weight ps))"
  proof (cases "tryEmitLiteralAltTrie ps em")
    case None
    then obtain js em1 where l: "alt_loop cs [] em = Inr (js, em1)" and e: "em' = patch_all js em1"
      using c by (auto simp: compile_alt_def)
    show ?thesis using grown_alt_loop [OF assms l grown_refl] by (simp add: e grown_patch_all)
  next
    case (Some em1)
    then have "em1 = em'" using c by (simp add: compile_alt_def)
    then show ?thesis unfolding trie_weight [OF Some] using trie_grown [OF Some] by simp
  qed
qed

lemma grows_star: "grows c w \<Longrightarrow> grows (compile_star n g c) w"
proof (rule growsI)
  fix em em'
  assume c: "grows c w" and s: "compile_star n g c em = Inr em'"
  define e0 where "e0 = (if canMatchEmpty n then emit SAVE (fst (allocScratch em)) 0 (snd (allocScratch em)) else em)"
  define e1 where "e1 = emitClearForBody n (emit SPLIT 0 0 e0)"
  have g0: "grown em e0 0" by (simp add: e0_def grown_emit grown_alloc grown_refl)
  have g1: "grown em e1 0" unfolding e1_def using g0 by (intro grown_clear grown_emit)
  obtain e2 p x where e2: "c e1 = Inr e2"
    and r: "em' = patch_split (here e0) g (Suc (here e0)) x
      (emit JMP p 0 (if canMatchEmpty n then emit PROGRESS (fst (allocScratch em)) 0 e2 else e2))"
    using s by (cases "canMatchEmpty n") (auto simp: compile_star_def Let_def e0_def e1_def split: prod.splits)
  have g2: "grown em e2 w" using c e2 g1 by (rule grows_after)
  show "grown em em' w" using g2 grown_here [OF g0] by (simp add: r grown_patch_split grown_emit)
qed

lemma grows_plus: "grows c w \<Longrightarrow> grows (compile_plus n g c) (if canMatchEmpty n then 2 * w else w)"
proof (rule growsI)
  fix em em'
  assume c: "grows c w" and s: "compile_plus n g c em = Inr em'"
  show "grown em em' (if canMatchEmpty n then 2 * w else w)"
  proof (cases "canMatchEmpty n")
    case True
    obtain e1 where e1: "c (emitClearForBody n (snd (allocScratch em))) = Inr e1" "compile_star n g c e1 = Inr em'"
      using s True by (auto simp: compile_plus_def Let_def)
    have "grown em e1 w" using c e1(1) by (rule grows_after) (intro grown_clear grown_alloc grown_refl)
    from grown_trans [OF this growsD [OF grows_star [OF c] e1(2)]] True show ?thesis by (simp add: mult_2)
  next
    case False
    obtain e1 x where e1: "c (emitClearForBody n em) = Inr e1" "em' = patch_split (here e1) g (here em) x (emit SPLIT 0 0 e1)"
      using s False by (auto simp: compile_plus_def Let_def)
    have "grown em e1 w" using c e1(1) by (rule grows_after) (intro grown_clear grown_refl)
    with False show ?thesis using grown_here [of em e1 w] by (simp add: e1(2) grown_patch_split grown_emit)
  qed
qed

lemma grows_opt: "grows c w \<Longrightarrow> grows (compile_opt g c) w"
proof (rule growsI)
  fix em em'
  assume c: "grows c w" and s: "compile_opt g c em = Inr em'"
  obtain e1 x y where e1: "c (emit SPLIT 0 0 em) = Inr e1" "em' = patch_split (here em) g x y e1"
    using s by (auto simp: compile_opt_def Let_def)
  have "grown em e1 w" using c e1(1) by (rule grows_after) (intro grown_emit grown_refl)
  then show "grown em em' w" by (simp add: e1(2) grown_patch_split)
qed

lemma grows_copies: "grows c w \<Longrightarrow> grows (rseq (replicate k c)) (k * w)"
  using grows_rseq [of "replicate k c" "replicate k w"] by (simp add: list_all2_conv_all_nth sum_list_replicate)

lemma grows_repeat:
  "grows c w \<Longrightarrow> grows (compileRepeat n mn mx g c) ((mn + (if mx = - 1 then 1 else nat (mx - int mn))) * w)"
proof (rule growsI)
  fix em em'
  assume c: "grows c w" and s: "compileRepeat n mn mx g c em = Inr em'"
  obtain e1 where e1: "rseq (replicate mn c) em = Inr e1"
    and t: "(if mx = - 1 then compile_star n g c e1 else rseq (replicate (nat (mx - int mn)) (compile_opt g c)) e1) = Inr em'"
    using s by (auto simp: compileRepeat_def split: if_splits)
  have 1: "grown em e1 (mn * w)" using grows_copies [OF c] e1 by (rule growsD)
  have 2: "grown e1 em' ((if mx = - 1 then 1 else nat (mx - int mn)) * w)"
    using t growsD [OF grows_star [OF c]] growsD [OF grows_copies [OF grows_opt [OF c]]] by (auto split: if_splits)
  show "grown em em' ((mn + (if mx = - 1 then 1 else nat (mx - int mn))) * w)"
    using grown_trans [OF 1 2] by (simp add: distrib_right)
qed

lemma grows_group: "grows c w \<Longrightarrow> grows (compile_group i c) w"
proof (rule growsI)
  fix em em'
  assume c: "grows c w" and s: "compile_group i c em = Inr em'"
  show "grown em em' w"
  proof (cases "i < 0")
    case True
    with c s show ?thesis by (simp add: compile_group_def growsD)
  next
    case False
    then obtain x y e1 where e1: "c (emit SAVE x 0 em) = Inr e1" "em' = emit SAVE y 0 e1"
      using s by (auto simp: compile_group_def Let_def)
    have "grown em e1 w" using c e1(1) by (rule grows_after) (intro grown_emit grown_refl)
    then show ?thesis by (simp add: e1(2) grown_emit)
  qed
qed

lemma grows_modgroup: "grows c w \<Longrightarrow> grows (compile_modgroup ad rm c) w"
  by (rule growsI) (auto simp: compile_modgroup_def grown_def same_modes_def set_modes_def queued_def here_def dest!: growsD)

lemma grows_compileNode: "grows (compileNode upper n) (look_weight n)"
proof (induction n)
  case (RConcat ps)
  then have "list_all2 grows (map (compileNode upper) ps) (map look_weight ps)"
    by (simp add: list_all2_conv_all_nth)
  then show ?case by (simp add: grows_rseq)
next
  case (RAlt ps)
  then have "list_all2 grows (map (compileNode upper) ps) (map look_weight ps)"
    by (simp add: list_all2_conv_all_nth)
  then show ?case by (simp add: grows_alt)
next
  case (RLookaround n neg beh)
  show ?case
    by (rule growsI)
      (auto simp: queue_lookaround_def Let_def grown_def same_modes_def queued_def here_def nth_append)
next
  case (RChar c)
  show ?case
    by (rule growsI) (auto simp: compile_char_def Let_def intro!: grown_emit grown_class grown_refl)
next
  case (RPlus n g)
  then show ?case using grows_plus by simp
next
  case (RRepeat n mn mx g)
  then show ?case using grows_repeat by simp
qed (auto simp: grows_star grows_opt grows_group grows_modgroup
       intro!: growsI grown_emit grown_class grown_refl)

section \<open>Sub-programs and whole programs\<close>

text \<open>
  One turn of the loop of \<open>drainPendingSubs\<close>: the first pending body is compiled at the end of the
  program, under the modes it was queued with.
\<close>

definition drain_one :: "(nat \<Rightarrow> nat list) \<Rightarrow> pending_sub \<Rightarrow> pending_sub list \<Rightarrow> emission" where
  "drain_one upper sub rest em =
     (let em1 = patchA (ps_patchPc sub) (here em) (em\<lparr>em_pendingSubs := rest\<rparr>)
      in rbind (compileNode upper (ps_node sub)
           (set_modes (ps_caseInsensitive sub) (ps_dotAll sub) (ps_multiline sub) (em1\<lparr>em_reversed := ps_reversed sub\<rparr>)))
         (\<lambda>em2. Inr (set_modes (em_caseInsensitive em) (em_dotAll em) (em_multiline em)
            ((emit MATCH 0 0 em2)\<lparr>em_reversed := em_reversed em\<rparr>))))"

lemma drain_one_weight:
  assumes "drain_one upper sub rest em = Inr em'"
  shows "pend_weight (em_pendingSubs em') = look_weight (ps_node sub) + pend_weight rest"
proof -
  obtain e1 e2 where "compileNode upper (ps_node sub) e1 = Inr e2" "em_pendingSubs e1 = rest"
    "em_pendingSubs em' = em_pendingSubs e2"
    using assms by (auto simp: drain_one_def Let_def set_modes_def)
  with growsD [OF grows_compileNode this(1)] show ?thesis by (auto simp: grown_def)
qed

function drainPendingSubs :: "(nat \<Rightarrow> nat list) \<Rightarrow> emission" where
  "drainPendingSubs upper em = (case em_pendingSubs em of
     [] \<Rightarrow> Inr em
   | sub # rest \<Rightarrow> rbind (drain_one upper sub rest em) (drainPendingSubs upper))"
  by pat_completeness auto
termination
  by (relation "measure (\<lambda>(upper, em). pend_weight (em_pendingSubs em))") (auto simp: drain_one_weight)

declare drainPendingSubs.simps [simp del]

definition finish_prog :: "emitter \<Rightarrow> nat list" where
  "finish_prog em = flatten (em_instrs em)"

definition compileParsed :: "(nat \<Rightarrow> nat list) \<Rightarrow> parsed_regex \<Rightarrow> nat \<Rightarrow> regex_error + compiled_regex" where
  "compileParsed upper parsed flags =
     (let caseInsensitive = (flags AND RE_FLAG_I \<noteq> 0);
          dotAll = (flags AND RE_FLAG_S \<noteq> 0);
          multiline = (flags AND RE_FLAG_M \<noteq> 0);
          unicode = (flags AND (RE_FLAG_U OR RE_FLAG_V) \<noteq> 0);
          nGroups = pr_numCaptures parsed + 1;
          em = setScratchBase (2 * nGroups) (new_emitter caseInsensitive dotAll multiline unicode)
      in rbind (compileNode upper (pr_root parsed) (emit SAVE 0 0 em)) (\<lambda>em.
         rbind (drainPendingSubs upper (emit MATCH 0 0 (emit SAVE 1 0 em))) (\<lambda>em.
           Inr \<lparr>cr_prog = finish_prog em, cr_classTable = em_classTable em, cr_nGroups = nGroups,
                cr_nScratch = em_scratchCount em, cr_flags = flags, cr_groupNames = pr_groupNames parsed\<rparr>)))"

end
