(* ===== verification/RegexParse.thy ===== *)
theory RegexParse
  imports UnicodeClass RegexCompile "HOL-Library.List_Lexorder"
begin

text \<open>
  The pattern parser, \<open>src/src/codegen/regex/parse.ts\<close>: the pre-scan of the groups and the recursive
  descent. A parser state is a record with the fields of the class \<open>Parser\<close>; every method takes the
  state and returns a result and the next state, or the exception. Methods that recurse through
  \<open>parseAlternation\<close> take it as an argument; the recursion is then on the nesting depth of groups,
  and the loops of \<open>parseConcat\<close> and \<open>parseAlternation\<close> are bounded by the remaining source.
\<close>

section \<open>Tables\<close>

definition DIGIT :: ranges where
  "DIGIT = [(0x30, 0x39)]"

definition WORD :: ranges where
  "WORD = [(0x30, 0x39), (0x41, 0x5a), (0x5f, 0x5f), (0x61, 0x7a)]"

definition SPACE :: ranges where
  "SPACE = [(0x09, 0x0d), (0x20, 0x20), (0xa0, 0xa0), (0x1680, 0x1680), (0x2000, 0x200a),
     (0x2028, 0x2029), (0x202f, 0x202f), (0x205f, 0x205f), (0x3000, 0x3000), (0xfeff, 0xfeff)]"

definition NOT_DIGIT :: ranges where "NOT_DIGIT = complementRanges DIGIT"
definition NOT_WORD :: ranges where "NOT_WORD = complementRanges WORD"
definition NOT_SPACE :: ranges where "NOT_SPACE = complementRanges SPACE"

section \<open>Group names and the pre-scan\<close>

text \<open>One turn of the loop of \<open>decodeGroupName\<close>: the next index and the units appended.\<close>

definition decode_name_step :: "jsstring \<Rightarrow> nat \<Rightarrow> regex_error + (nat \<times> jsstring)" where
  "decode_name_step raw i =
     (if raw ! i \<noteq> backslash then Inr (i + 1, [raw ! i])
      else if char_at raw (i + 1) \<noteq> Some (ch CHR ''u'') then Inl (Unsupported ''invalid escape in group name'')
      else if char_at raw (i + 2) = Some (ch CHR ''{'') then
        (case indexOf raw (ch CHR ''}'') (i + 3) of
           None \<Rightarrow> Inl (Unsupported ''unterminated Unicode escape in group name'')
         | Some close \<Rightarrow>
             let digits = slice_of raw (i + 3) close; cp = parseInt 16 digits in
             if \<not> hex_number digits then Inl (Unsupported ''invalid Unicode escape in group name'')
             else if cp > 0x10ffff then Inl (Unsupported ''group-name code point out of range'')
             else Inr (close + 1, fromCodePoint cp))
      else (case hex_at 4 raw (i + 2) of
          None \<Rightarrow> Inl (Unsupported ''invalid Unicode escape in group name'')
        | Some v \<Rightarrow> Inr (i + 6, [v])))"

lemma decode_name_step_advances: "decode_name_step raw i = Inr (j, w) \<Longrightarrow> i < j"
  by (auto simp: decode_name_step_def Let_def dest!: indexOf_bounds split: if_splits option.splits)

function decode_name_loop :: "jsstring \<Rightarrow> nat \<Rightarrow> jsstring \<Rightarrow> regex_error + jsstring" where
  "decode_name_loop raw i out =
     (if i < length raw then rbind (decode_name_step raw i) (\<lambda>(j, w). decode_name_loop raw j (out @ w)) else Inr out)"
  by pat_completeness auto
termination
  by (relation "measure (\<lambda>(raw, i, out). length raw - i)") (auto dest!: decode_name_step_advances)

declare decode_name_loop.simps [simp del]

definition decodeGroupName :: "jsstring \<Rightarrow> regex_error + jsstring" where
  "decodeGroupName raw = decode_name_loop raw 0 []"

text \<open>The raw name of a group: the source from \<open>j\<close> up to the next \<open>>\<close>.\<close>

definition raw_name :: "jsstring \<Rightarrow> nat \<Rightarrow> jsstring" where
  "raw_name src j = takeWhile (\<lambda>c. c \<noteq> ch CHR ''>'') (drop j src)"

definition add_name :: "jsstring \<Rightarrow> nat \<Rightarrow> (jsstring \<times> nat) list \<Rightarrow> (jsstring \<times> nat) list" where
  "add_name name count names = (if map_of names name = None then names @ [(name, count)] else names)"

text \<open>What one opening parenthesis adds to the count and to the names.\<close>

definition scan_paren :: "jsstring \<Rightarrow> nat \<Rightarrow> nat \<Rightarrow> (jsstring \<times> nat) list \<Rightarrow> regex_error + (nat \<times> (jsstring \<times> nat) list)" where
  "scan_paren src i count names =
     (if char_at src (i + 1) = Some (ch CHR ''?'') then
        if char_at src (i + 2) = Some (ch CHR ''<'') \<and> char_at src (i + 3) \<noteq> Some (ch CHR ''='')
          \<and> char_at src (i + 3) \<noteq> Some (ch CHR ''!'')
        then rbind (decodeGroupName (raw_name src (i + 3))) (\<lambda>name. Inr (count + 1, add_name name (count + 1) names))
        else Inr (count, names)
      else Inr (count + 1, names))"

function scan_loop :: "jsstring \<Rightarrow> nat \<Rightarrow> bool \<Rightarrow> nat \<Rightarrow> (jsstring \<times> nat) list \<Rightarrow> regex_error + (nat \<times> (jsstring \<times> nat) list)" where
  "scan_loop src i inClass count names =
     (if i < length src then
        if src ! i = backslash then scan_loop src (i + 2) inClass count names
        else if inClass then scan_loop src (i + 1) (src ! i \<noteq> ch CHR '']'') count names
        else if src ! i = ch CHR ''['' then scan_loop src (i + 1) True count names
        else if src ! i = ch CHR ''('' then
          rbind (scan_paren src i count names) (\<lambda>(count, names). scan_loop src (i + 1) inClass count names)
        else scan_loop src (i + 1) inClass count names
      else Inr (count, names))"
  by pat_completeness auto
termination
  by (relation "measure (\<lambda>(src, i, inClass, count, names). length src - i)") auto

declare scan_loop.simps [simp del]

definition scanGroups :: "jsstring \<Rightarrow> regex_error + (nat \<times> (jsstring \<times> nat) list)" where
  "scanGroups src = scan_loop src 0 False 0 []"

section \<open>The parser state\<close>

record parser =
  p_src :: jsstring
  p_pos :: nat
  p_numCaptures :: nat
  p_totalCaptures :: nat
  p_groupNames :: "(jsstring \<times> nat) list"
  p_unicode :: bool
  p_vMode :: bool
  p_iState :: bool

type_synonym 'a parse = "parser \<Rightarrow> regex_error + ('a \<times> parser)"

definition new_parser :: "jsstring \<Rightarrow> nat \<Rightarrow> regex_error + parser" where
  "new_parser src flags =
     rbind (scanGroups src) (\<lambda>(count, names).
       Inr \<lparr>p_src = src, p_pos = 0, p_numCaptures = 0, p_totalCaptures = count, p_groupNames = names,
            p_unicode = (flags AND (RE_FLAG_U OR RE_FLAG_V) \<noteq> 0), p_vMode = (flags AND RE_FLAG_V \<noteq> 0),
            p_iState = (flags AND RE_FLAG_I \<noteq> 0)\<rparr>)"

definition peek :: "parser \<Rightarrow> codeunit option" where
  "peek p = char_at (p_src p) (p_pos p)"

definition advance :: "nat \<Rightarrow> parser \<Rightarrow> parser" where
  "advance k p = p\<lparr>p_pos := p_pos p + k\<rparr>"

definition next_unit :: "codeunit parse" where
  "next_unit p = (case peek p of
     None \<Rightarrow> Inl (Unsupported ''unexpected end of pattern'')
   | Some c \<Rightarrow> Inr (c, advance 1 p))"

definition eof :: "parser \<Rightarrow> bool" where
  "eof p \<longleftrightarrow> length (p_src p) \<le> p_pos p"

text \<open>\<open>while (peek() !== undefined && P(peek())) acc += next()\<close>\<close>

definition read_while :: "(codeunit \<Rightarrow> bool) \<Rightarrow> parser \<Rightarrow> jsstring \<times> parser" where
  "read_while P p = (let w = takeWhile P (drop (p_pos p) (p_src p)) in (w, advance (length w) p))"

section \<open>Code-point atoms\<close>

definition enumFlags :: "parser \<Rightarrow> jsstring" where
  "enumFlags p = (if p_vMode p then js ''v'' else js ''u'') @ (if p_iState p then js ''i'' else [])"

definition cpClass :: "ranges \<Rightarrow> re_node" where
  "cpClass rs = RCpClass rs False"

definition uEnum :: "host \<Rightarrow> parser \<Rightarrow> jsstring \<Rightarrow> regex_error + re_node" where
  "uEnum host p source = rbind (enumerateClassRanges host source (enumFlags p)) (\<lambda>rs. Inr (cpClass rs))"

definition uChar :: "host \<Rightarrow> parser \<Rightarrow> nat \<Rightarrow> regex_error + re_node" where
  "uChar host p cp =
     (if p_iState p then rbind (enumerateClassRanges host (codePointSource cp) (enumFlags p)) (\<lambda>rs. Inr (cpClass rs))
      else if cp > 0xffff then
        Inr (RConcat [RChar (0xd800 + (cp - 0x10000) div 0x400), RChar (0xdc00 + (cp - 0x10000) mod 0x400)])
      else if 0xd800 \<le> cp \<and> cp \<le> 0xdfff then Inr (cpClass [(cp, cp)])
      else Inr (RChar cp))"

section \<open>Finite string sets as alternations\<close>

datatype unicode_trie = UTrie bool "(nat \<times> unicode_trie) list"

definition newUnicodeStringTrieNode :: unicode_trie where
  "newUnicodeStringTrieNode = UTrie False []"

fun insertUnicodeString :: "unicode_trie \<Rightarrow> nat list \<Rightarrow> unicode_trie" where
  "insertUnicodeString (UTrie terminal children) [] = UTrie True children"
| "insertUnicodeString (UTrie terminal children) (cp # sequence) =
     UTrie terminal (AList.update cp
       (insertUnicodeString (case map_of children cp of None \<Rightarrow> newUnicodeStringTrieNode | Some child \<Rightarrow> child) sequence)
       children)"

lemma child_size [termination_simp]: "(cp, child) \<in> set children \<Longrightarrow> size child < Suc (size_list (size_prod (\<lambda>x. 0) size) children)"
  by (induction children) auto

fun unicodeStringTrieSignature :: "unicode_trie \<Rightarrow> jsstring" where
  "unicodeStringTrieSignature (UTrie terminal children) =
     (if terminal then js ''1'' else js ''0'') @ js ''['' @
     join (ch CHR '','') (sort (map (\<lambda>(cp, child). show_radix 36 cp @ js '':'' @ unicodeStringTrieSignature child) children))
     @ js '']''"

definition uStringTrieHead :: "host \<Rightarrow> parser \<Rightarrow> nat list \<Rightarrow> regex_error + re_node" where
  "uStringTrieHead host p cps =
     (if length cps = 1 then uChar host p (hd cps)
      else if p_iState p then
        rbind (enumerateClassRanges host (js ''['' @ concat (map codePointSource cps) @ js '']'') (enumFlags p)) (\<lambda>rs. Inr (cpClass rs))
      else Inr (cpClass (codePointRanges cps)))"

text \<open>The map \<open>groups\<close>: children with the same signature share the first one's continuation.\<close>

definition add_child ::
  "nat \<times> jsstring \<times> 'a \<Rightarrow> (jsstring \<times> nat list \<times> 'a) list \<Rightarrow> (jsstring \<times> nat list \<times> 'a) list" where
  "add_child = (\<lambda>(cp, sig, tail) groups.
     (case map_of groups sig of
        None \<Rightarrow> groups @ [(sig, [cp], tail)]
      | Some (cps, tail') \<Rightarrow> AList.update sig (cps @ [cp], tail') groups))"

definition trie_branch :: "host \<Rightarrow> parser \<Rightarrow> jsstring \<times> nat list \<times> (regex_error + re_node) \<Rightarrow> regex_error + re_node" where
  "trie_branch host p = (\<lambda>(sig, cps, tail).
     rbind (uStringTrieHead host p cps) (\<lambda>head. rbind tail (\<lambda>t. Inr
       (case t of RConcat parts \<Rightarrow> if parts = [] then head else RConcat (head # parts)
        | _ \<Rightarrow> RConcat [head, t]))))"

definition one_of :: "re_node list \<Rightarrow> re_node" where
  "one_of options = (case options of [] \<Rightarrow> cpClass [] | [n] \<Rightarrow> n | _ \<Rightarrow> RAlt options)"

fun uStringTrieNode :: "host \<Rightarrow> parser \<Rightarrow> unicode_trie \<Rightarrow> regex_error + re_node" where
  "uStringTrieNode host p (UTrie terminal children) =
     rbind (rmap (trie_branch host p) (fold add_child
         (map (\<lambda>(cp, child). (cp, unicodeStringTrieSignature child, uStringTrieNode host p child)) children) []))
       (\<lambda>options. Inr (one_of (options @ (if terminal then [RConcat []] else []))))"

definition uStringTrieBranches :: "host \<Rightarrow> parser \<Rightarrow> unicode_trie \<Rightarrow> regex_error + re_node list" where
  "uStringTrieBranches host p = (\<lambda>(UTrie terminal children) \<Rightarrow>
     rmap (trie_branch host p) (fold add_child
       (map (\<lambda>(cp, child). (cp, unicodeStringTrieSignature child, uStringTrieNode host p child)) children) []))"

definition uStringSet :: "host \<Rightarrow> parser \<Rightarrow> unicode_string_set \<Rightarrow> regex_error + re_node" where
  "uStringSet host p S =
     (let root = fold (\<lambda>(k, sequence) root. insertUnicodeString root sequence) (us_strings S) newUnicodeStringTrieNode
      in rbind (uStringTrieBranches host p root) (\<lambda>options. Inr (one_of
           (options @ (if us_ranges S \<noteq> [] then [cpClass (us_ranges S)] else [])
             @ (case root of UTrie terminal _ \<Rightarrow> if terminal then [RConcat []] else [])))))"

section \<open>Classes with string disjunctions\<close>

text \<open>The inner loop over the body of \<open>\q{...}\<close>: the index of its closing brace, or past the end.\<close>

function q_body_end :: "jsstring \<Rightarrow> nat \<Rightarrow> nat" where
  "q_body_end body j =
     (if j < length body \<and> body ! j \<noteq> ch CHR ''}'' then
        if body ! j = backslash then
          if char_at body (j + 1) = Some (ch CHR ''u'') \<and> char_at body (j + 2) = Some (ch CHR ''{'')
          then q_body_end body (brace_end body (j + 3) + 1)
          else q_body_end body (j + 2)
        else q_body_end body (j + 1)
      else j)"
  by pat_completeness auto
termination
  by (relation "measure (\<lambda>(body, j). length body - j)") (auto simp: brace_end_def)

declare q_body_end.simps [simp del]

lemma q_body_end_ge: "j \<le> q_body_end body j"
proof (induction body j rule: q_body_end.induct)
  case (1 body j)
  then show ?case by (auto simp: q_body_end.simps [of body j] brace_end_def)
qed

function q_spans_loop :: "jsstring \<Rightarrow> nat \<Rightarrow> int \<Rightarrow> (nat \<times> nat) list \<Rightarrow> regex_error + (nat \<times> nat) list" where
  "q_spans_loop body i depth qSpans =
     (if i < length body then
        if body ! i = backslash then
          if q_at body i then
            let j = q_body_end body (i + 3) in
            if char_at body j \<noteq> Some (ch CHR ''}'') then Inl (Unsupported ''unterminated q'')
            else q_spans_loop body (j + 1) depth (if depth = 0 then qSpans @ [(i, j)] else qSpans)
          else q_spans_loop body (i + 2) depth qSpans
        else if body ! i = ch CHR ''['' then q_spans_loop body (i + 1) (depth + 1) qSpans
        else if body ! i = ch CHR '']'' then q_spans_loop body (i + 1) (depth - 1) qSpans
        else if depth = 0 \<and> (startsWith body (js ''&&'') i \<or> startsWith body (js ''--'') i)
        then Inl (Unsupported ''string disjunction inside a v-mode set operation'')
        else q_spans_loop body (i + 1) depth qSpans
      else Inr qSpans)"
  by pat_completeness auto

lemma q_body_end_gt: "i < q_body_end body (i + 3)"
  using q_body_end_ge [of "i + 3" body] by simp

termination q_spans_loop
  by (relation "measure (\<lambda>(body, i, depth, qSpans). length body - i)")
    (use q_body_end_gt in \<open>auto simp: less_Suc_eq intro!: diff_less_mono2\<close>)

declare q_spans_loop.simps [simp del]

text \<open>
  A span \<open>(i, j)\<close> covers the source from the backslash at \<open>i\<close> to the brace at \<open>j\<close>: \<open>bodyStart\<close> is
  \<open>i + 3\<close>, \<open>bodyEnd\<close> is \<open>j\<close> and \<open>full\<close> is \<open>[i, j + 1]\<close>.
\<close>

definition operand_arm :: "host \<Rightarrow> parser \<Rightarrow> nat list \<Rightarrow> regex_error + (nat \<times> re_node)" where
  "operand_arm host p cps =
     (if cps = [] then Inr (0, RConcat [])
      else rbind (rmap (\<lambda>cp. if p_iState p
             then rbind (enumerateClassRanges host (codePointSource cp) (enumFlags p)) (\<lambda>rs. Inr (cpClass rs))
             else uChar host p cp) cps)
        (\<lambda>parts. Inr (length cps, if length parts = 1 then hd parts else RConcat parts)))"

definition span_arms :: "host \<Rightarrow> parser \<Rightarrow> jsstring \<Rightarrow> nat \<times> nat \<Rightarrow> regex_error + (nat \<times> re_node) list" where
  "span_arms host p body = (\<lambda>(i, j).
     rbind (parseStringDisjunction (slice_of body (i + 3) j)) (rmap (operand_arm host p)))"

fun residual_source :: "jsstring \<Rightarrow> nat \<Rightarrow> (nat \<times> nat) list \<Rightarrow> jsstring" where
  "residual_source body prev [] = drop prev body"
| "residual_source body prev ((i, j) # spans) = slice_of body prev i @ residual_source body (j + 1) spans"

definition PROPERTY_OF_STRINGS_RE_test :: "jsstring \<Rightarrow> bool" where
  "PROPERTY_OF_STRINGS_RE_test s \<longleftrightarrow>
     list_ex (\<lambda>name. includes_str s (backslash # js ''p{'' @ name @ js ''}'') \<or> includes_str s (backslash # js ''P{'' @ name @ js ''}''))
       PROPERTY_NAMES"

definition residual_arm :: "host \<Rightarrow> parser \<Rightarrow> jsstring \<Rightarrow> regex_error + (nat \<times> re_node) list" where
  "residual_arm host p residual =
     (if residual = [] then Inr []
      else rbind (enumerateClassRanges host (js ''['' @ residual @ js '']'') (enumFlags p)) (\<lambda>rs.
        if rs \<noteq> [] then Inr [(1, cpClass rs)]
        else if PROPERTY_OF_STRINGS_RE_test residual
        then Inl (Unsupported ''v-mode class mixes q with a property-of-strings member'')
        else Inr []))"

definition uEnumClassWithStrings :: "host \<Rightarrow> parser \<Rightarrow> jsstring \<Rightarrow> regex_error + re_node" where
  "uEnumClassWithStrings host p source =
     (let body = slice_of source 1 (length source - 1) in
      if startsWith body (js ''^'') 0 then Inl (Unsupported ''negated v-mode class with q strings'')
      else rbind (q_spans_loop body 0 0 []) (\<lambda>qSpans.
        if qSpans = [] then uEnum host p source
        else
          rbind (rmap (span_arms host p body) qSpans) (\<lambda>arms.
          rbind (residual_arm host p (residual_source body 0 qSpans)) (\<lambda>arm.
            Inr (one_of (map snd (sort_key (\<lambda>a. - int (fst a)) (concat arms @ arm))))))))"

text \<open>The index after the bracket that closes a class; in \<open>v\<close> mode classes nest.\<close>

function class_end :: "bool \<Rightarrow> jsstring \<Rightarrow> nat \<Rightarrow> nat \<Rightarrow> nat option" where
  "class_end vMode src i depth =
     (if i < length src then
        if src ! i = backslash then class_end vMode src (i + 2) depth
        else if vMode \<and> src ! i = ch CHR ''['' then class_end vMode src (i + 1) (depth + 1)
        else if src ! i = ch CHR '']'' then
          if \<not> vMode \<or> depth - 1 = 0 then Some (i + 1) else class_end vMode src (i + 1) (depth - 1)
        else class_end vMode src (i + 1) depth
      else None)"
  by pat_completeness auto
termination
  by (relation "measure (\<lambda>(vMode, src, i, depth). length src - i)") auto

declare class_end.simps [simp del]

definition extractClassSource :: "jsstring parse" where
  "extractClassSource p =
     (case class_end (p_vMode p) (p_src p) (p_pos p + 1) 1 of
        None \<Rightarrow> Inl (Unsupported ''unterminated character class'')
      | Some j \<Rightarrow> Inr (slice_of (p_src p) (p_pos p) j, p\<lparr>p_pos := j\<rparr>))"

section \<open>Escapes\<close>

primrec octal_loop :: "nat \<Rightarrow> nat \<Rightarrow> parser \<Rightarrow> nat \<times> parser" where
  "octal_loop 0 v p = (v, p)"
| "octal_loop (Suc n) v p =
     (case peek p of
        Some d \<Rightarrow> if 0x30 \<le> d \<and> d \<le> 0x37 \<and> v * 8 + (d - 0x30) \<le> 0xff
          then octal_loop n (v * 8 + (d - 0x30)) (advance 1 p) else (v, p)
      | None \<Rightarrow> (v, p))"

definition parseLegacyOctal :: "parser \<Rightarrow> nat \<times> parser" where
  "parseLegacyOctal p = octal_loop 3 0 p"

definition parse_control_escape :: "bool \<Rightarrow> nat parse" where
  "parse_control_escape inClass p =
     (case peek p of
        Some l \<Rightarrow>
          if is_control_letter l \<or> inClass \<and> \<not> p_unicode p \<and> (is_digit l \<or> l = ch CHR ''_'')
          then Inr (l mod 32, advance 1 p)
          else if \<not> p_unicode p then Inr (0x5c, p\<lparr>p_pos := p_pos p - 1\<rparr>)
          else Inl (Unsupported ''c without a control letter'')
      | None \<Rightarrow>
          if \<not> p_unicode p then Inr (0x5c, p\<lparr>p_pos := p_pos p - 1\<rparr>)
          else Inl (Unsupported ''c without a control letter''))"

definition parseEscapedCodeUnit :: "bool \<Rightarrow> nat parse" where
  "parseEscapedCodeUnit inClass p = rbind (next_unit p) (\<lambda>(e, p).
     if e = ch CHR ''n'' then Inr (0x0a, p)
     else if e = ch CHR ''r'' then Inr (0x0d, p)
     else if e = ch CHR ''t'' then Inr (0x09, p)
     else if e = ch CHR ''f'' then Inr (0x0c, p)
     else if e = ch CHR ''v'' then Inr (0x0b, p)
     else if 0x30 \<le> e \<and> e \<le> 0x37 then Inr (parseLegacyOctal (p\<lparr>p_pos := p_pos p - 1\<rparr>))
     else if e = ch CHR ''8'' \<or> e = ch CHR ''9'' then Inr (e, p)
     else if e = ch CHR ''c'' then parse_control_escape inClass p
     else if e = ch CHR ''x'' then
       (case hex_at 2 (p_src p) (p_pos p) of
          Some v \<Rightarrow> Inr (v, advance 2 p)
        | None \<Rightarrow> if \<not> p_unicode p then Inr (0x78, p) else Inl (Unsupported ''bad x escape''))
     else if e = ch CHR ''u'' then
       if peek p = Some (ch CHR ''{'') then Inl (Unsupported ''u code-point escape'')
       else (case hex_at 4 (p_src p) (p_pos p) of
          Some v \<Rightarrow> Inr (v, advance 4 p)
        | None \<Rightarrow> if \<not> p_unicode p then Inr (0x75, p) else Inl (Unsupported ''bad u escape''))
     else Inr (e, p))"

definition readHex4 :: "nat parse" where
  "readHex4 p =
     (if length (take 4 (drop (p_pos p) (p_src p))) < 4 then Inl (Unsupported ''unexpected end of pattern'')
      else case hex_at 4 (p_src p) (p_pos p) of
          None \<Rightarrow> Inl (Unsupported ''bad u escape'')
        | Some v \<Rightarrow> Inr (v, advance 4 p))"

text \<open>The body of the \<open>try\<close>: the code point of a surrogate pair, unless something in it throws.\<close>

definition trail_escape :: "host \<Rightarrow> nat \<Rightarrow> parser \<Rightarrow> (re_node \<times> parser) option" where
  "trail_escape host lead p =
     (if is_lead (Some lead) \<and> startsWith (p_src p) (backslash # js ''u'') (p_pos p) then
        (case readHex4 (advance 2 p) of
           Inr (trail, p') \<Rightarrow>
             if is_trail (Some trail) then
               (case uChar host p' (pair_value lead trail) of Inr node \<Rightarrow> Some (node, p') | Inl _ \<Rightarrow> None)
             else None
         | Inl _ \<Rightarrow> None)
      else None)"

definition parseUnicodeEscapeTail :: "host \<Rightarrow> re_node parse" where
  "parseUnicodeEscapeTail host p =
     (if peek p = Some (ch CHR ''u'') then
        let p = advance 1 p in
        if peek p = Some (ch CHR ''{'') then
          let (hex, p) = read_while (\<lambda>c. c \<noteq> ch CHR ''}'') (advance 1 p) in
          if peek p \<noteq> Some (ch CHR ''}'') \<or> \<not> hex_number hex then Inl (Unsupported ''bad u escape'')
          else if parseInt 16 hex > 0x10ffff then Inl (Unsupported ''u escape out of code-point range'')
          else rbind (uChar host p (parseInt 16 hex)) (\<lambda>node. Inr (node, advance 1 p))
        else rbind (readHex4 p) (\<lambda>(lead, p).
          case trail_escape host lead p of
            Some r \<Rightarrow> Inr r
          | None \<Rightarrow> rbind (uChar host p lead) (\<lambda>node. Inr (node, p)))
      else rbind (parseEscapedCodeUnit False p) (\<lambda>(v, p). rbind (uChar host p v) (\<lambda>node. Inr (node, p))))"

definition backrefNode :: "parser \<Rightarrow> nat \<Rightarrow> regex_error + re_node" where
  "backrefNode p index =
     (if p_unicode p \<and> p_iState p then Inl (Unsupported ''backreference under u+i Canonicalize folding'')
      else Inr (RBackref index))"

definition extractPropertyEscapeSource :: "jsstring parse" where
  "extractPropertyEscapeSource p = rbind (next_unit p) (\<lambda>(letter, p).
     if peek p \<noteq> Some (ch CHR ''{'') then Inl (Unsupported ''p must be followed by a brace in u/v mode'')
     else let (body, p) = read_while (\<lambda>c. c \<noteq> ch CHR ''}'') (advance 1 p) in
       if peek p \<noteq> Some (ch CHR ''}'') then Inl (Unsupported ''unterminated property escape'')
       else Inr (backslash # letter # js ''{'' @ body @ js ''}'', advance 1 p))"

definition is_shorthand :: "codeunit \<Rightarrow> bool" where
  "is_shorthand e \<longleftrightarrow> e \<in> set (js ''dDwWsS'')"

definition shorthand_atom :: "codeunit \<Rightarrow> re_node" where
  "shorthand_atom e =
     (if e = ch CHR ''d'' then RClass DIGIT False
      else if e = ch CHR ''D'' then RClass DIGIT True
      else if e = ch CHR ''w'' then RClass WORD False
      else if e = ch CHR ''W'' then RClass WORD True
      else if e = ch CHR ''s'' then RClass SPACE False
      else RClass SPACE True)"

text \<open>\<open>\1\<close> to \<open>\9\<close>, and longer numbers: a back-reference, an octal escape or the digit itself.\<close>

definition parse_decimal_escape :: "codeunit \<Rightarrow> re_node parse" where
  "parse_decimal_escape e p =
     (let (digits, p') = read_while is_digit p; v = parseInt 10 digits in
      if 1 \<le> v \<and> v \<le> p_totalCaptures p then rbind (backrefNode p' v) (\<lambda>node. Inr (node, p'))
      else if p_unicode p then Inl (Unsupported ''invalid decimal escape in u/v mode'')
      else if e \<ge> ch CHR ''8'' then Inr (RChar e, advance 1 p)
      else let (v, p') = parseLegacyOctal p in Inr (RChar v, p'))"

definition parse_named_backref :: "re_node parse" where
  "parse_named_backref p =
     (if p_groupNames p = [] then
        if p_unicode p then Inl (Unsupported ''k without a named group in u/v mode'')
        else Inr (RChar 0x6b, advance 1 p)
      else
        let p = advance 1 p in
        if peek p \<noteq> Some (ch CHR ''<'') then Inl (Unsupported ''k must be followed by a name'')
        else
          let (rawName, p) = read_while (\<lambda>c. c \<noteq> ch CHR ''>'') (advance 1 p) in
          if peek p \<noteq> Some (ch CHR ''>'') then Inl (Unsupported ''unterminated named back-reference'')
          else rbind (decodeGroupName rawName) (\<lambda>name.
            case map_of (p_groupNames p) name of
              None \<Rightarrow> Inl (Unsupported ''reference to an undeclared group'')
            | Some idx \<Rightarrow> rbind (backrefNode p idx) (\<lambda>node. Inr (node, advance 1 p))))"

definition parse_property_escape :: "host \<Rightarrow> re_node parse" where
  "parse_property_escape host p =
     (if p_unicode p then rbind (extractPropertyEscapeSource p) (\<lambda>(source, p).
        rbind (case (if p_vMode p then unicodeStringPropertyEscape host source else None) of
            None \<Rightarrow> uEnum host p source
          | Some stringSet \<Rightarrow> uStringSet host p stringSet) (\<lambda>node. Inr (node, p)))
      else Inl (Unsupported ''Unicode property escape''))"

definition parseEscapeAtom :: "host \<Rightarrow> re_node parse" where
  "parseEscapeAtom host p =
     (let p = advance 1 p in
      case peek p of
        None \<Rightarrow> Inl (Unsupported ''trailing escape'')
      | Some e \<Rightarrow>
          if is_shorthand e then
            if p_unicode p then rbind (uEnum host p [backslash, e]) (\<lambda>node. Inr (node, advance 1 p))
            else Inr (shorthand_atom e, advance 1 p)
          else if e = ch CHR ''b'' \<or> e = ch CHR ''B'' then
            if p_unicode p \<and> p_iState p then Inl (Unsupported ''b with the u+i Unicode word characters'')
            else Inr (RWordBoundary (e = ch CHR ''B''), advance 1 p)
          else if ch CHR ''1'' \<le> e \<and> e \<le> ch CHR ''9'' then parse_decimal_escape e p
          else if e = ch CHR ''k'' then parse_named_backref p
          else if e = ch CHR ''p'' \<or> e = ch CHR ''P'' then parse_property_escape host p
          else if p_unicode p then parseUnicodeEscapeTail host p
          else rbind (parseEscapedCodeUnit False p) (\<lambda>(v, p). Inr (RChar v, p)))"

section \<open>Character classes outside the code-point modes\<close>

datatype class_member = MChar nat | MShorthand ranges

definition parseClassMember :: "class_member parse" where
  "parseClassMember p =
     (if peek p = Some backslash then
        let p = advance 1 p; e = peek p in
        if e = Some (ch CHR ''d'') then Inr (MShorthand DIGIT, advance 1 p)
        else if e = Some (ch CHR ''w'') then Inr (MShorthand WORD, advance 1 p)
        else if e = Some (ch CHR ''s'') then Inr (MShorthand SPACE, advance 1 p)
        else if e = Some (ch CHR ''D'') then Inr (MShorthand NOT_DIGIT, advance 1 p)
        else if e = Some (ch CHR ''W'') then Inr (MShorthand NOT_WORD, advance 1 p)
        else if e = Some (ch CHR ''S'') then Inr (MShorthand NOT_SPACE, advance 1 p)
        else if e = Some (ch CHR ''b'') then Inr (MChar 0x08, advance 1 p)
        else if e = Some (ch CHR ''p'') \<or> e = Some (ch CHR ''P'') then Inl (Unsupported ''Unicode property escape'')
        else rbind (parseEscapedCodeUnit True p) (\<lambda>(v, p). Inr (MChar v, p))
      else rbind (next_unit p) (\<lambda>(c, p). Inr (MChar c, p)))"

text \<open>Whether a \<open>-\<close> at the cursor stands between two members.\<close>

definition dash_between :: "parser \<Rightarrow> bool" where
  "dash_between p \<longleftrightarrow> peek p = Some (ch CHR ''-'') \<and> char_at (p_src p) (p_pos p + 1) \<noteq> Some (ch CHR '']'')
     \<and> char_at (p_src p) (p_pos p + 1) \<noteq> None"

text \<open>One turn of the loop of \<open>parseClass\<close>: the ranges one member, or a range of two, adds.\<close>

definition parse_class_item :: "ranges parse" where
  "parse_class_item p = rbind (parseClassMember p) (\<lambda>(member, p). case member of
     MShorthand rs \<Rightarrow>
       if dash_between p then Inr (rs @ [(0x2d, 0x2d)], advance 1 p) else Inr (rs, p)
   | MChar lo \<Rightarrow>
       if dash_between p then
         rbind (parseClassMember (advance 1 p)) (\<lambda>(hiMember, p). case hiMember of
           MShorthand rs \<Rightarrow> Inr ([(lo, lo), (0x2d, 0x2d)] @ rs, p)
         | MChar hi \<Rightarrow> if hi < lo then Inl (Unsupported ''class range out of order'') else Inr ([(lo, hi)], p))
       else Inr ([(lo, lo)], p))"

primrec class_items :: "nat \<Rightarrow> ranges parse" where
  "class_items 0 p = Inl OutOfFuel"
| "class_items (Suc n) p =
     (if eof p \<or> peek p = Some (ch CHR '']'') then Inr ([], p)
      else rbind (parse_class_item p) (\<lambda>(rs, p). rbind (class_items n p) (\<lambda>(rs', p). Inr (rs @ rs', p))))"

definition rest_length :: "parser \<Rightarrow> nat" where
  "rest_length p = length (p_src p) - p_pos p"

definition parseClass :: "re_node parse" where
  "parseClass p =
     (let p = advance 1 p; negated = (peek p = Some (ch CHR ''^'')); p = (if negated then advance 1 p else p) in
      rbind (class_items (Suc (rest_length p)) p) (\<lambda>(rs, p).
        if peek p \<noteq> Some (ch CHR '']'') then Inl (Unsupported ''unterminated character class'')
        else Inr (RClass rs negated, advance 1 p)))"

section \<open>Quantifiers\<close>

definition consumeLazy :: "parser \<Rightarrow> bool \<times> parser" where
  "consumeLazy p = (if peek p = Some (ch CHR ''?'') then (False, advance 1 p) else (True, p))"

definition tryParseBraceQuantifier :: "(nat \<times> int) option parse" where
  "tryParseBraceQuantifier p =
     (if peek p \<noteq> Some (ch CHR ''{'') then Inr (None, p)
      else
        let (minStr, p) = read_while is_digit (advance 1 p) in
        if minStr = [] then Inr (None, p)
        else
          let mn = parseInt 10 minStr;
              (mx, p) = (if peek p = Some (ch CHR '','') then
                  let (maxStr, p) = read_while is_digit (advance 1 p)
                  in (if maxStr = [] then - 1 else int (parseInt 10 maxStr), p)
                else (int mn, p))
          in if peek p \<noteq> Some (ch CHR ''}'') then Inr (None, p)
             else if mx \<noteq> - 1 \<and> mx < int mn then Inl (Unsupported ''quantifier max < min'')
             else Inr (Some (mn, mx), advance 1 p))"

definition is_assertion :: "re_node \<Rightarrow> bool" where
  "is_assertion n = (case n of RBol \<Rightarrow> True | REol \<Rightarrow> True | RWordBoundary _ \<Rightarrow> True | _ \<Rightarrow> False)"

definition is_lookaround :: "re_node \<Rightarrow> bool" where
  "is_lookaround n = (case n of RLookaround _ _ _ \<Rightarrow> True | _ \<Rightarrow> False)"

definition quantify :: "re_node \<Rightarrow> codeunit \<Rightarrow> bool \<Rightarrow> re_node" where
  "quantify atom c greedy =
     (if is_lookaround atom then (if c = ch CHR ''+'' then atom else ROpt atom greedy)
      else if c = ch CHR ''*'' then RStar atom greedy
      else if c = ch CHR ''+'' then RPlus atom greedy
      else ROpt atom greedy)"

definition quantify_braces :: "re_node \<Rightarrow> nat \<Rightarrow> int \<Rightarrow> bool \<Rightarrow> re_node" where
  "quantify_braces atom mn mx greedy =
     (if is_lookaround atom then
        (if mx = 0 then RConcat [] else if mn \<ge> 1 then atom else ROpt atom greedy)
      else RRepeat atom mn mx greedy)"

definition parse_quantifier :: "re_node \<Rightarrow> re_node parse" where
  "parse_quantifier atom p =
     (case peek p of
        Some c \<Rightarrow>
          if c \<in> set (js ''*+?'') then
            if is_assertion atom then Inl (Unsupported ''nothing to repeat'')
            else let (greedy, p) = consumeLazy (advance 1 p) in Inr (quantify atom c greedy, p)
          else if c = ch CHR ''{'' then
            rbind (tryParseBraceQuantifier p) (\<lambda>(bounds, p'). case bounds of
              None \<Rightarrow> Inr (atom, p)
            | Some (mn, mx) \<Rightarrow>
                if is_assertion atom then Inl (Unsupported ''nothing to repeat'')
                else let (greedy, p') = consumeLazy p' in Inr (quantify_braces atom mn mx greedy, p'))
          else Inr (atom, p)
      | None \<Rightarrow> Inr (atom, p))"

section \<open>Groups\<close>

definition modifier_bit :: "codeunit \<Rightarrow> regex_error + nat" where
  "modifier_bit c =
     (if c = ch CHR ''i'' then Inr RE_FLAG_I
      else if c = ch CHR ''m'' then Inr RE_FLAG_M
      else if c = ch CHR ''s'' then Inr RE_FLAG_S
      else Inl (Unsupported ''invalid regexp modifier''))"

definition add_modifier :: "nat \<Rightarrow> codeunit \<Rightarrow> nat \<Rightarrow> regex_error + nat" where
  "add_modifier seen c acc = rbind (modifier_bit c) (\<lambda>b.
     if (seen OR acc) AND b \<noteq> 0 then Inl (Unsupported ''duplicate regexp modifier'') else Inr (acc OR b))"

definition parseModifiers :: "(nat \<times> nat) parse" where
  "parseModifiers p =
     (let (w, p) = read_while (\<lambda>c. c \<noteq> ch CHR ''-'' \<and> c \<noteq> ch CHR '':'') p in
      rbind (rfold (add_modifier 0) w 0) (\<lambda>added.
      let (w', p) = (if peek p = Some (ch CHR ''-'') then read_while (\<lambda>c. c \<noteq> ch CHR '':'') (advance 1 p) else ([], p)) in
      rbind (rfold (add_modifier added) w' 0) (\<lambda>removed.
        if peek p \<noteq> Some (ch CHR '':'') then Inl (Unsupported ''unterminated regexp modifier group'')
        else if added = 0 \<and> removed = 0 then Inl (Unsupported ''empty regexp modifier group'')
        else Inr ((added, removed), advance 1 p))))"

datatype group_kind =
    Capture nat "jsstring option"
  | NonCapture
  | Lookaround bool bool
  | Modifiers nat nat

text \<open>The opening of a group, up to its body.\<close>

definition parse_named_group :: "group_kind parse" where
  "parse_named_group p =
     (let (rawName, p) = read_while (\<lambda>c. c \<noteq> ch CHR ''>'') p in
      if peek p \<noteq> Some (ch CHR ''>'') then Inl (Unsupported ''unterminated group name'')
      else rbind (decodeGroupName rawName) (\<lambda>name.
        let capIndex = p_numCaptures p + 1; p = (advance 1 p)\<lparr>p_numCaptures := capIndex\<rparr> in
        if map_of (p_groupNames p) name \<noteq> Some capIndex then Inl (Unsupported ''duplicate capture group name'')
        else Inr (Capture capIndex (Some name), p)))"

definition parse_group_open :: "group_kind parse" where
  "parse_group_open p =
     (let p = advance 1 p in
      if peek p = Some (ch CHR ''?'') then
        let p = advance 1 p; t = peek p in
        if t = Some (ch CHR '':'') then Inr (NonCapture, advance 1 p)
        else if t = Some (ch CHR ''<'') then
          let p = advance 1 p; after = peek p in
          if after = Some (ch CHR ''='') \<or> after = Some (ch CHR ''!'')
          then Inr (Lookaround (after = Some (ch CHR ''!'')) True, advance 1 p)
          else parse_named_group p
        else if t = Some (ch CHR ''='') \<or> t = Some (ch CHR ''!'')
        then Inr (Lookaround (t = Some (ch CHR ''!'')) False, advance 1 p)
        else if t \<in> Some ` set (js ''-ims'')
        then rbind (parseModifiers p) (\<lambda>((added, removed), p). Inr (Modifiers added removed, p))
        else Inl (Unsupported ''unsupported group form'')
      else Inr (Capture (p_numCaptures p + 1) None, p\<lparr>p_numCaptures := p_numCaptures p + 1\<rparr>))"

definition group_iState :: "group_kind \<Rightarrow> bool \<Rightarrow> bool" where
  "group_iState g i = (case g of
     Modifiers added removed \<Rightarrow> (i \<or> added AND RE_FLAG_I \<noteq> 0) \<and> \<not> removed AND RE_FLAG_I \<noteq> 0
   | _ \<Rightarrow> i)"

definition group_node :: "group_kind \<Rightarrow> re_node \<Rightarrow> re_node" where
  "group_node g inner = (case g of
     Capture capIndex name \<Rightarrow> RGroup inner (int capIndex) name
   | NonCapture \<Rightarrow> RGroup inner (- 1) None
   | Lookaround neg beh \<Rightarrow> RLookaround inner neg beh
   | Modifiers added removed \<Rightarrow> RModGroup added removed inner)"

definition parseGroup :: "re_node parse \<Rightarrow> re_node parse" where
  "parseGroup alternation p = rbind (parse_group_open p) (\<lambda>(g, p).
     let savedI = p_iState p in
     rbind (alternation (p\<lparr>p_iState := group_iState g savedI\<rparr>)) (\<lambda>(inner, p).
       let p = p\<lparr>p_iState := savedI\<rparr> in
       if peek p \<noteq> Some (ch CHR '')'') then Inl (Unsupported ''unterminated group'')
       else Inr (group_node g inner, advance 1 p)))"

section \<open>Atoms, terms, alternatives\<close>

definition parse_unicode_class :: "host \<Rightarrow> re_node parse" where
  "parse_unicode_class host p = rbind (extractClassSource p) (\<lambda>(classSrc, p).
     rbind (if p_vMode p \<and> hasUnicodeStringSetSyntax classSrc then
              if includes_str classSrc (backslash # js ''q{'') \<and> \<not> includes_str classSrc (backslash # js ''p{'')
                \<and> \<not> includes_str classSrc (js ''&&'') \<and> \<not> includes_str classSrc (js ''--'')
              then uEnumClassWithStrings host p classSrc
              else rbind (evaluateUnicodeStringClass host classSrc (enumFlags p)) (uStringSet host p)
            else uEnum host p classSrc) (\<lambda>node. Inr (node, p)))"

definition parse_literal :: "host \<Rightarrow> codeunit \<Rightarrow> re_node parse" where
  "parse_literal host c p =
     (if p_unicode p then
        let cp = the (codePointAt (p_src p) (p_pos p)); p = advance (if cp > 0xffff then 2 else 1) p in
        rbind (uChar host p cp) (\<lambda>node. Inr (node, p))
      else Inr (RChar c, advance 1 p))"

definition parseAtom :: "host \<Rightarrow> re_node parse \<Rightarrow> re_node parse" where
  "parseAtom host alternation p =
     (case peek p of
        None \<Rightarrow> Inl (Unsupported ''unexpected end of pattern'')
      | Some c \<Rightarrow>
          if c = ch CHR ''('' then parseGroup alternation p
          else if c = ch CHR ''['' then (if p_unicode p then parse_unicode_class host p else parseClass p)
          else if c = ch CHR ''.'' then Inr (if p_unicode p then RUDot else RAny, advance 1 p)
          else if c = ch CHR ''^'' then Inr (RBol, advance 1 p)
          else if c = ch CHR ''$'' then Inr (REol, advance 1 p)
          else if c = backslash then parseEscapeAtom host p
          else if c \<in> set (js ''*+?'') then Inl (Unsupported ''nothing to repeat'')
          else parse_literal host c p)"

definition parseQuantified :: "host \<Rightarrow> re_node parse \<Rightarrow> re_node parse" where
  "parseQuantified host alternation p = rbind (parseAtom host alternation p) (\<lambda>(atom, p). parse_quantifier atom p)"

primrec concat_loop :: "nat \<Rightarrow> re_node parse \<Rightarrow> re_node list parse" where
  "concat_loop 0 quantified p = Inl OutOfFuel"
| "concat_loop (Suc n) quantified p =
     (if eof p \<or> peek p = Some (ch CHR ''|'') \<or> peek p = Some (ch CHR '')'') then Inr ([], p)
      else rbind (quantified p) (\<lambda>(node, p). rbind (concat_loop n quantified p) (\<lambda>(nodes, p). Inr (node # nodes, p))))"

definition parseConcat :: "host \<Rightarrow> re_node parse \<Rightarrow> re_node parse" where
  "parseConcat host alternation p =
     rbind (concat_loop (Suc (rest_length p)) (parseQuantified host alternation) p) (\<lambda>(parts, p).
       Inr (case parts of [node] \<Rightarrow> node | _ \<Rightarrow> RConcat parts, p))"

primrec alternatives_loop :: "nat \<Rightarrow> re_node parse \<Rightarrow> re_node list parse" where
  "alternatives_loop 0 concatenation p = Inl OutOfFuel"
| "alternatives_loop (Suc n) concatenation p =
     (if peek p = Some (ch CHR ''|'') then
        rbind (concatenation (advance 1 p)) (\<lambda>(node, p).
        rbind (alternatives_loop n concatenation p) (\<lambda>(nodes, p). Inr (node # nodes, p)))
      else Inr ([], p))"

primrec parseAlternation :: "nat \<Rightarrow> host \<Rightarrow> re_node parse" where
  "parseAlternation 0 host p = Inl OutOfFuel"
| "parseAlternation (Suc depth) host p =
     rbind (parseConcat host (parseAlternation depth host) p) (\<lambda>(node, p).
     rbind (alternatives_loop (Suc (rest_length p)) (parseConcat host (parseAlternation depth host)) p) (\<lambda>(nodes, p).
       Inr (if nodes = [] then node else RAlt (node # nodes), p)))"

definition parse_whole :: "host \<Rightarrow> re_node parse" where
  "parse_whole host p = rbind (parseAlternation (Suc (length (p_src p))) host p) (\<lambda>(node, p).
     if \<not> eof p then Inl (Unsupported ''unexpected character'') else Inr (node, p))"

definition parsePattern :: "host \<Rightarrow> jsstring \<Rightarrow> nat \<Rightarrow> regex_error + parsed_regex" where
  "parsePattern host pattern flags =
     rbind (new_parser pattern flags) (\<lambda>p. rbind (parse_whole host p) (\<lambda>(root, p).
       Inr \<lparr>pr_root = root, pr_numCaptures = p_numCaptures p, pr_groupNames = p_groupNames p\<rparr>))"

definition compilePattern :: "(nat \<Rightarrow> nat list) \<Rightarrow> host \<Rightarrow> jsstring \<Rightarrow> nat \<Rightarrow> regex_error + compiled_regex" where
  "compilePattern upper host pattern flags =
     rbind (parsePattern host pattern flags) (\<lambda>parsed. compileParsed upper parsed flags)"

end
