(* ===== verification/RegexSem.thy ===== *)
theory RegexSem
  imports RegexCompile
begin

text \<open>
  What a syntax tree means, independent of bytecode: \<open>sem\<close> gives, for a position and the captures
  so far, the ordered list of ways the expression can match, each with the position it ends at and
  its captures. The order is the order of preference (alternatives from left to right, greedy
  repetition longest first). A matcher is total; \<open>None\<close> marks the states no match attempt should
  reach: a position outside the subject, an alternation without alternatives, a back-reference to a group the pattern does not have, or
  to one whose recorded end precedes its start.
\<close>

section \<open>Matchers\<close>

type_synonym mstate = "int \<times> caps"
type_synonym matcher = "mstate \<Rightarrow> mstate list option"

fun flat :: "matcher \<Rightarrow> mstate list \<Rightarrow> mstate list option" where
  "flat f [] = Some []"
| "flat f (x # xs) = Option.bind (f x) (\<lambda>ys. map_option ((@) ys) (flat f xs))"

definition m_skip :: matcher where
  "m_skip st = Some [st]"

definition m_seq :: "matcher \<Rightarrow> matcher \<Rightarrow> matcher" where
  "m_seq f g st = Option.bind (f st) (flat g)"

primrec m_seqs :: "matcher list \<Rightarrow> matcher" where
  "m_seqs [] = m_skip"
| "m_seqs (f # fs) = m_seq f (m_seqs fs)"

definition m_or :: "matcher \<Rightarrow> matcher \<Rightarrow> matcher" where
  "m_or f g st = Option.bind (f st) (\<lambda>xs. map_option ((@) xs) (g st))"

fun m_alts :: "matcher list \<Rightarrow> matcher" where
  "m_alts [] = (\<lambda>st. None)"
| "m_alts [f] = f"
| "m_alts (f # g # fs) = m_or f (m_alts (g # fs))"

definition m_opt :: "bool \<Rightarrow> matcher \<Rightarrow> matcher" where
  "m_opt greedy f = (if greedy then m_or f m_skip else m_or m_skip f)"

text \<open>An iteration that ends where it began does not count.\<close>

definition m_moving :: "matcher \<Rightarrow> matcher" where
  "m_moving f st = map_option (filter (\<lambda>x. fst x \<noteq> fst st)) (f st)"

primrec m_iter :: "bool \<Rightarrow> matcher \<Rightarrow> nat \<Rightarrow> matcher" where
  "m_iter greedy f 0 = (\<lambda>st. None)"
| "m_iter greedy f (Suc k) = m_opt greedy (m_seq (m_moving f) (m_iter greedy f k))"

definition remaining :: "subject \<Rightarrow> bool \<Rightarrow> int \<Rightarrow> nat" where
  "remaining s back sp = nat (if back then sp else int (length s) - sp)"

text \<open>Each iteration uses up input, so as many as there is input left, and one to stop, are enough.\<close>

definition m_star :: "subject \<Rightarrow> bool \<Rightarrow> bool \<Rightarrow> matcher \<Rightarrow> matcher" where
  "m_star s back greedy f st = m_iter greedy f (Suc (remaining s back (fst st))) st"

definition m_save :: "nat \<Rightarrow> matcher" where
  "m_save a = (\<lambda>(sp, caps). Some [(sp, caps[a := sp])])"

definition m_clear :: "re_node \<Rightarrow> matcher" where
  "m_clear n = (\<lambda>(sp, caps). Some [(sp, case captureSpan n of
     None \<Rightarrow> caps | Some (lo, hi) \<Rightarrow> clear_slots (2 * lo) (2 * hi + 1) caps)])"

definition m_group :: "bool \<Rightarrow> int \<Rightarrow> matcher \<Rightarrow> matcher" where
  "m_group back i f =
     (if i < 0 then f
      else m_seq (m_save (if back then 2 * nat i + 1 else 2 * nat i))
             (m_seq f (m_save (if back then 2 * nat i else 2 * nat i + 1))))"

definition m_look :: "bool \<Rightarrow> matcher \<Rightarrow> matcher" where
  "m_look neg f st = map_option (\<lambda>outs.
     case outs of
       [] \<Rightarrow> if neg then [st] else []
     | st' # _ \<Rightarrow> if neg then [] else [(fst st, snd st')]) (f st)"

definition dir_of :: "bool \<Rightarrow> int" where
  "dir_of back = (if back then - 1 else 1)"

definition in_subject :: "subject \<Rightarrow> int \<Rightarrow> bool" where
  "in_subject s sp \<longleftrightarrow> 0 \<le> sp \<and> sp \<le> int (length s)"

definition m_unit :: "subject \<Rightarrow> bool \<Rightarrow> (nat \<Rightarrow> bool) \<Rightarrow> matcher" where
  "m_unit s back ok = (\<lambda>(sp, caps).
     if in_subject s sp then
       Some (case unit_at s (dir_of back) sp of
               None \<Rightarrow> [] | Some u \<Rightarrow> if ok u then [(sp + dir_of back, caps)] else [])
     else None)"

definition m_point :: "subject \<Rightarrow> bool \<Rightarrow> (nat \<Rightarrow> bool) \<Rightarrow> matcher" where
  "m_point s back ok = (\<lambda>(sp, caps).
     if in_subject s sp then
       Some (if unit_at s (dir_of back) sp = None then []
             else case code_point_at s (dir_of back) sp of
               Some (Some cp, width) \<Rightarrow> if ok cp then [(sp + dir_of back * width, caps)] else []
             | _ \<Rightarrow> [])
     else None)"

definition m_test :: "(int \<Rightarrow> bool) \<Rightarrow> matcher" where
  "m_test ok st = Some (if ok (fst st) then [st] else [])"

definition at_bol :: "subject \<Rightarrow> bool \<Rightarrow> int \<Rightarrow> bool" where
  "at_bol s ml sp \<longleftrightarrow> sp = 0 \<or> ml \<and> isLineTerminator (charCodeAt s (sp - 1))"

definition at_eol :: "subject \<Rightarrow> bool \<Rightarrow> int \<Rightarrow> bool" where
  "at_eol s ml sp \<longleftrightarrow> sp = int (length s) \<or> ml \<and> isLineTerminator (charCodeAt s sp)"

definition at_boundary :: "subject \<Rightarrow> int \<Rightarrow> bool" where
  "at_boundary s sp \<longleftrightarrow> isWordChar (charCodeAt s (sp - 1)) \<noteq> isWordChar (charCodeAt s sp)"

definition m_backref :: "subject \<Rightarrow> bool \<Rightarrow> bool \<Rightarrow> nat \<Rightarrow> matcher" where
  "m_backref s back ci i = (\<lambda>(sp, caps).
     if in_subject s sp \<and> 2 * i + 1 < length caps then
       let gs = caps ! (2 * i); ge = caps ! (2 * i + 1) in
       if gs < 0 \<or> ge < 0 then Some [(sp, caps)]
       else if ge < gs then None
       else
         let base = (if back then sp - (ge - gs) else sp) in
         Some (if 0 \<le> base \<and> base + (ge - gs) \<le> int (length s) \<and> backref_same s ci gs base (ge - gs)
               then [(sp + dir_of back * (ge - gs), caps)] else [])
     else None)"

section \<open>Which characters an atom accepts\<close>

definition char_ok :: "(nat \<Rightarrow> nat list) \<Rightarrow> bool \<Rightarrow> bool \<Rightarrow> nat \<Rightarrow> nat \<Rightarrow> bool" where
  "char_ok upper unicode ci code u \<longleftrightarrow>
     u = code
     \<or> ci \<and> (if unicode then asciiFold u = asciiFold code
             else code < 0x10000 \<and> canonicalizeLegacy upper u = canonicalizeLegacy upper code)"

definition class_ok :: "(nat \<Rightarrow> nat list) \<Rightarrow> bool \<Rightarrow> bool \<Rightarrow> ranges \<Rightarrow> nat \<Rightarrow> bool" where
  "class_ok upper unicode ci rs u \<longleftrightarrow>
     in_ranges rs u
     \<or> ci \<and> (\<exists>(lo, hi) \<in> set rs. \<exists>m \<in> {lo..hi}.
          if unicode then asciiFold m = asciiFold u
          else m < 0x10000 \<and> canonicalizeLegacy upper m = canonicalizeLegacy upper u)"

section \<open>Syntax trees\<close>

record modes =
  md_caseInsensitive :: bool
  md_dotAll :: bool
  md_multiline :: bool

definition modify :: "nat \<Rightarrow> nat \<Rightarrow> modes \<Rightarrow> modes" where
  "modify ad rm md = \<lparr>md_caseInsensitive = apply_modifier ad rm RE_FLAG_I (md_caseInsensitive md),
     md_dotAll = apply_modifier ad rm RE_FLAG_S (md_dotAll md),
     md_multiline = apply_modifier ad rm RE_FLAG_M (md_multiline md)\<rparr>"

primrec sem :: "(nat \<Rightarrow> nat list) \<Rightarrow> bool \<Rightarrow> subject \<Rightarrow> re_node \<Rightarrow> modes \<Rightarrow> bool \<Rightarrow> matcher" where
  "sem upper un s (RChar c) = (\<lambda>md back. m_unit s back (char_ok upper un (md_caseInsensitive md) c))"
| "sem upper un s RAny = (\<lambda>md back. m_unit s back (\<lambda>u. md_dotAll md \<or> \<not> isLineTerminator (Some u)))"
| "sem upper un s RUDot = (\<lambda>md back. m_point s back (\<lambda>u. u \<le> 0x10ffff \<and> (md_dotAll md \<or> \<not> isLineTerminator (Some u))))"
| "sem upper un s (RClass rs neg) = (\<lambda>md back. m_unit s back (\<lambda>u. class_ok upper un (md_caseInsensitive md) rs u \<noteq> neg))"
| "sem upper un s (RCpClass rs neg) = (\<lambda>md back. m_point s back (\<lambda>u. in_ranges rs u \<noteq> neg))"
| "sem upper un s RBol = (\<lambda>md back. m_test (at_bol s (md_multiline md)))"
| "sem upper un s REol = (\<lambda>md back. m_test (at_eol s (md_multiline md)))"
| "sem upper un s (RWordBoundary neg) = (\<lambda>md back. m_test (\<lambda>sp. at_boundary s sp \<noteq> neg))"
| "sem upper un s (RBackref i) = (\<lambda>md back. m_backref s back (md_caseInsensitive md) i)"
| "sem upper un s (RLookaround n neg beh) = (\<lambda>md back. m_look neg (sem upper un s n md beh))"
| "sem upper un s (RModGroup ad rm n) = (\<lambda>md back. sem upper un s n (modify ad rm md) back)"
| "sem upper un s (RConcat ps) = (\<lambda>md back.
     m_seqs (let fs = map (\<lambda>f. f md back) (map (sem upper un s) ps) in if back then rev fs else fs))"
| "sem upper un s (RAlt ps) = (\<lambda>md back. m_alts (map (\<lambda>f. f md back) (map (sem upper un s) ps)))"
| "sem upper un s (RStar n g) = (\<lambda>md back. m_star s back g (m_seq (m_clear n) (sem upper un s n md back)))"
| "sem upper un s (RPlus n g) = (\<lambda>md back.
     let f = m_seq (m_clear n) (sem upper un s n md back) in m_seq f (m_star s back g f))"
| "sem upper un s (ROpt n g) = (\<lambda>md back. m_opt g (sem upper un s n md back))"
| "sem upper un s (RRepeat n mn mx g) = (\<lambda>md back.
     let f = sem upper un s n md back in
     m_seqs (replicate mn f @
       (if mx = - 1 then [m_star s back g (m_seq (m_clear n) f)] else replicate (nat (mx - int mn)) (m_opt g f))))"
| "sem upper un s (RGroup n i nm) = (\<lambda>md back. m_group back i (sem upper un s n md back))"

section \<open>Direction\<close>

text \<open>
  \<open>moves back strict f\<close>: every outcome of \<open>f\<close> lies in the direction of matching, and strictly
  so when \<open>strict\<close>, and has as many capture slots as there were.
\<close>

definition moves :: "bool \<Rightarrow> bool \<Rightarrow> matcher \<Rightarrow> bool" where
  "moves back strict f \<longleftrightarrow> (\<forall>st outs st'. f st = Some outs \<longrightarrow> st' \<in> set outs \<longrightarrow>
     length (snd st') = length (snd st)
     \<and> (if strict then 0 < dir_of back * (fst st' - fst st) else 0 \<le> dir_of back * (fst st' - fst st)))"

lemma movesI:
  "(\<And>st outs st'. f st = Some outs \<Longrightarrow> st' \<in> set outs \<Longrightarrow> length (snd st') = length (snd st)
     \<and> (if strict then 0 < dir_of back * (fst st' - fst st) else 0 \<le> dir_of back * (fst st' - fst st)))
   \<Longrightarrow> moves back strict f"
  unfolding moves_def by blast

lemma movesD:
  "moves back strict f \<Longrightarrow> f st = Some outs \<Longrightarrow> st' \<in> set outs \<Longrightarrow> length (snd st') = length (snd st)
     \<and> (if strict then 0 < dir_of back * (fst st' - fst st) else 0 \<le> dir_of back * (fst st' - fst st))"
  unfolding moves_def by blast

lemma moves_weaken: "moves back strict f \<Longrightarrow> (strict' \<longrightarrow> strict) \<Longrightarrow> moves back strict' f"
  unfolding moves_def by (fastforce split: if_splits)

lemma flat_SomeD: "flat f xs = Some ys \<Longrightarrow> y \<in> set ys \<Longrightarrow> \<exists>x\<in>set xs. \<exists>zs. f x = Some zs \<and> y \<in> set zs"
  by (induction xs arbitrary: ys) (auto simp: bind_eq_Some_conv)

lemma moves_seq:
  assumes "moves back b1 f" and "moves back b2 g"
  shows "moves back (b1 \<or> b2) (m_seq f g)"
proof (rule movesI)
  fix st outs st'
  assume "m_seq f g st = Some outs" and "st' \<in> set outs"
  then obtain xs x zs where "f st = Some xs" "x \<in> set xs" "g x = Some zs" "st' \<in> set zs"
    by (auto simp: m_seq_def bind_eq_Some_conv dest!: flat_SomeD)
  with movesD [OF assms(1), of st xs x] movesD [OF assms(2), of x zs st']
  show "length (snd st') = length (snd st) \<and>
      (if b1 \<or> b2 then 0 < dir_of back * (fst st' - fst st) else 0 \<le> dir_of back * (fst st' - fst st))"
    by (auto simp: dir_of_def split: if_splits)
qed

lemma moves_skip: "moves back False m_skip"
  by (auto simp: moves_def m_skip_def)

lemma moves_seqs:
  "list_all2 (moves back) bs fs \<Longrightarrow> moves back (list_ex (\<lambda>b. b) bs) (m_seqs fs)"
  by (induction rule: list_all2_induct) (simp_all add: moves_skip moves_seq)

lemma moves_or: "moves back b1 f \<Longrightarrow> moves back b2 g \<Longrightarrow> moves back (b1 \<and> b2) (m_or f g)"
  unfolding moves_def m_or_def by (fastforce simp: bind_eq_Some_conv split: if_splits)

lemma moves_alts:
  "list_all2 (moves back) bs fs \<Longrightarrow> bs \<noteq> [] \<Longrightarrow> moves back (list_all (\<lambda>b. b) bs) (m_alts fs)"
proof (induction bs arbitrary: fs)
  case (Cons b bs)
  then obtain f fs' where fs: "fs = f # fs'" "moves back b f" "list_all2 (moves back) bs fs'"
    by (auto simp: list_all2_Cons1)
  show ?case
  proof (cases bs)
    case Nil
    with fs show ?thesis by simp
  next
    case bs: (Cons b' bs')
    with fs obtain g gs where g: "fs' = g # gs" by (auto simp: list_all2_Cons1)
    have "moves back (list_all (\<lambda>b. b) bs) (m_alts fs')" using Cons.IH fs(3) bs by simp
    with fs g show ?thesis by (simp add: moves_or)
  qed
qed simp

lemma moves_opt: "moves back b f \<Longrightarrow> moves back False (m_opt g f)"
  unfolding m_opt_def
  using moves_or [of "back" b f False m_skip] moves_or [of "back" False m_skip b f] moves_skip by simp

lemma moves_moving: "moves back b f \<Longrightarrow> moves back True (m_moving f)"
  unfolding moves_def m_moving_def by (fastforce simp: dir_of_def split: if_splits)

lemma moves_iter: "moves back b f \<Longrightarrow> moves back False (m_iter g f k)"
proof (induction k)
  case (Suc k)
  then show ?case
    using moves_opt [OF moves_seq [OF moves_moving [OF Suc.prems] Suc.IH [OF Suc.prems]]] by simp
qed (simp add: moves_def)

lemma moves_star: "moves back b f \<Longrightarrow> moves back False (m_star s back g f)"
  using moves_iter unfolding moves_def m_star_def by blast

lemma length_clear_slots [simp]: "length (clear_slots a b c) = length c"
proof -
  have "length (fold (\<lambda>i c. c[i := - 1]) is c) = length c" for "is" :: "nat list"
    by (induction "is" arbitrary: c) simp_all
  then show ?thesis by (simp add: clear_slots_def)
qed

lemma moves_save: "moves back False (m_save a)" and moves_clear: "moves back False (m_clear n)"
  by (auto simp: moves_def m_save_def m_clear_def split: option.split)

lemma moves_group: "moves back b f \<Longrightarrow> moves back b (m_group back' i f)"
  using moves_seq [OF moves_save moves_seq [OF _ moves_save]] by (simp add: m_group_def)

lemma moves_look: "moves back' b f \<Longrightarrow> moves back False (m_look neg f)"
  unfolding moves_def m_look_def by (fastforce split: list.splits if_splits)

lemma moves_unit: "moves back True (m_unit s back ok)"
  by (auto simp: moves_def m_unit_def dir_of_def split: if_splits option.splits)

lemma code_point_width: "code_point_at s d sp = Some (cp, w) \<Longrightarrow> w = 1 \<or> w = 2"
  by (auto simp: code_point_at_def Let_def split: if_splits)

lemma moves_point: "moves back True (m_point s back ok)"
  by (auto simp: moves_def m_point_def dir_of_def dest!: code_point_width [OF sym] split: if_splits option.splits)

lemma moves_test: "moves back False (m_test ok)"
  by (auto simp: moves_def m_test_def split: if_splits)

lemma moves_backref: "moves back False (m_backref s back ci i)"
  by (auto simp: moves_def m_backref_def dir_of_def Let_def split: if_splits)

lemma moves_repeat:
  assumes "moves back b f"
  shows "moves back (0 < mn \<and> b) (m_seqs (replicate mn f @
     (if c then [m_star s back g (m_seq (m_clear n) f)] else replicate k (m_opt g f))))"
proof -
  let ?t = "if c then [m_star s back g (m_seq (m_clear n) f)] else replicate k (m_opt g f)"
  have "list_all2 (moves back) (replicate (length ?t) False) ?t"
    using moves_opt [OF assms] moves_star [OF moves_seq [OF moves_clear assms]]
    by (simp add: list_all2_conv_all_nth)
  moreover have "list_all2 (moves back) (replicate mn b) (replicate mn f)"
    using assms by (simp add: list_all2_conv_all_nth)
  ultimately have "moves back (list_ex (\<lambda>b. b) (replicate mn b @ replicate (length ?t) False)) (m_seqs (replicate mn f @ ?t))"
    by (intro moves_seqs list_all2_appendI)
  then show ?thesis by (rule moves_weaken) (auto simp: list_ex_iff)
qed

text \<open>What \<open>canMatchEmpty\<close> rules out does not happen.\<close>

lemma moves_sem: "moves back (\<not> canMatchEmpty n) (sem upper un s n md back)"
proof (induction n arbitrary: md "back")
  case (RConcat ps)
  let ?fs = "map (\<lambda>p. sem upper un s p md back) ps" and ?bs = "map (\<lambda>p. \<not> canMatchEmpty p) ps"
  have "list_all2 (moves back) ?bs ?fs" using RConcat by (simp add: list_all2_conv_all_nth)
  then have "moves back (list_ex (\<lambda>b. b) (if back then rev ?bs else ?bs)) (m_seqs (if back then rev ?fs else ?fs))"
    by (intro moves_seqs) (cases "back"; simp add: list_all2_rev)
  then have "moves back (\<not> canMatchEmpty (RConcat ps)) (m_seqs (if back then rev ?fs else ?fs))"
    by (rule moves_weaken) (auto simp: list_all_iff list_ex_iff)
  then show ?case by (simp only: sem.simps Let_def map_map comp_def)
next
  case (RAlt ps)
  let ?fs = "map (\<lambda>p. sem upper un s p md back) ps" and ?bs = "map (\<lambda>p. \<not> canMatchEmpty p) ps"
  have l: "list_all2 (moves back) ?bs ?fs" using RAlt by (simp add: list_all2_conv_all_nth)
  show ?case
  proof (cases "ps = []")
    case True
    then show ?thesis by (simp add: moves_def)
  next
    case False
    then have "moves back (list_all (\<lambda>b. b) ?bs) (m_alts ?fs)" using l by (intro moves_alts) simp_all
    then show ?thesis
      by (simp add: Let_def comp_def) (rule moves_weaken, assumption, auto simp: list_all_iff list_ex_iff)
  qed
next
  case (RStar n g)
  show ?case using moves_star [OF moves_seq [OF moves_clear RStar]] by simp
next
  case (RPlus n g)
  then show ?case
    using moves_seq [OF moves_seq [OF moves_clear RPlus] moves_star [OF moves_seq [OF moves_clear RPlus]]]
    by (simp add: Let_def)
next
  case (ROpt n g)
  show ?case using moves_opt [OF ROpt] by simp
next
  case (RRepeat n mn mx g)
  show ?case using moves_repeat [OF RRepeat] by (simp add: Let_def)
next
  case (RLookaround n neg beh)
  show ?case using moves_look [OF RLookaround] by simp
qed (simp_all add: moves_unit moves_point moves_test moves_backref moves_group)

end
