(* ===== verification/RegexRun.thy ===== *)
theory RegexRun
  imports RegexSem
begin

text \<open>
  Stretches of bytecode that realise a matcher: started at their first instruction the interpreter
  goes through exactly the outcomes of the matcher, in order, at the instruction after the
  stretch. One rule per construct of \<open>compile.ts\<close>; theory \<open>RegexCorrect\<close> shows that the emitter
  produces what these rules ask for.
\<close>

section \<open>Programs and views\<close>

record rx =
  rx_instrs :: "re_instr list"
  rx_tab :: "nat list"
  rx_input :: subject
  rx_real :: nat
  rx_slots :: nat

abbreviation env_of :: "rx \<Rightarrow> vm_env" where
  "env_of x \<equiv> \<lparr>env_prog = flatten (rx_instrs x), env_classTable = rx_tab x, env_input = rx_input x\<rparr>"

definition at :: "rx \<Rightarrow> nat \<Rightarrow> re_instr \<Rightarrow> bool" where
  "at x pc i \<longleftrightarrow> pc < length (rx_instrs x) \<and> rx_instrs x ! pc = i"

lemma action_at: "at x pc (p, a, b) \<Longrightarrow> action (env_of x) dir (pc, sp, c) = exec_op (env_of x) dir p a b pc sp c"
  by (simp add: action_def fetch_flatten at_def)

text \<open>A thread of the interpreter seen without the scratch slots.\<close>

definition view :: "rx \<Rightarrow> mstate \<Rightarrow> mstate" where
  "view x = (\<lambda>(sp, c). (sp, take (rx_real x) c))"

lemma view_Pair [simp]: "view x (sp, c) = (sp, take (rx_real x) c)"
  by (simp add: view_def)

lemma fst_view [simp]: "fst (view x o') = fst o'" and snd_view [simp]: "snd (view x o') = take (rx_real x) (snd o')"
  by (cases o'; simp)+

text \<open>The number of slots and the scratch slots below \<open>lo\<close> are as before.\<close>

definition kept :: "rx \<Rightarrow> nat \<Rightarrow> caps \<Rightarrow> caps \<Rightarrow> bool" where
  "kept x lo c c' \<longleftrightarrow> length c' = length c \<and> (\<forall>i. rx_real x \<le> i \<and> i < lo \<longrightarrow> c' ! i = c ! i)"

lemma kept_refl [simp]: "kept x lo c c"
  by (simp add: kept_def)

lemma kept_trans: "kept x lo c c' \<Longrightarrow> kept x lo c' c'' \<Longrightarrow> kept x lo c c''"
  by (simp add: kept_def)

lemma kept_mono: "kept x lo c c' \<Longrightarrow> lo' \<le> lo \<Longrightarrow> kept x lo' c c'"
  by (simp add: kept_def)

abbreviation at_pc :: "nat \<Rightarrow> mstate list \<Rightarrow> frame list" where
  "at_pc pc outs \<equiv> map (Pair pc) outs"

definition leads :: "rx \<Rightarrow> bool \<Rightarrow> frame list \<Rightarrow> frame list \<Rightarrow> bool" where
  "leads x back fs gs \<longleftrightarrow> (\<forall>S r. ev (env_of x) (dir_of back) (gs @ S) r \<longrightarrow> ev (env_of x) (dir_of back) (fs @ S) r)"

lemma leads_refl [simp]: "leads x back fs fs"
  by (simp add: leads_def)

lemma leads_trans: "leads x back fs gs \<Longrightarrow> leads x back gs hs \<Longrightarrow> leads x back fs hs"
  by (simp add: leads_def)

lemma ev_tail:
  "ev env d (fs @ ys) r \<Longrightarrow> (\<And>r. ev env d ys r \<Longrightarrow> ev env d zs r) \<Longrightarrow> ev env d (fs @ zs) r"
proof (induction d "fs @ ys" r arbitrary: fs rule: ev.induct)
  case (ev_nil d)
  then show ?case by (auto intro: ev.ev_nil)
next
  case (ev_threads d f gs S r)
  show ?case
  proof (cases fs)
    case Nil
    with ev_threads show ?thesis using ev.ev_threads [of env d f gs S r] by simp
  next
    case (Cons f' fs')
    then have "f' = f" "S = fs' @ ys" using ev_threads.hyps(4) by auto
    with Cons ev_threads show ?thesis using ev_threads.hyps(3) [of "gs @ fs'"] by (auto intro: ev.ev_threads)
  qed
next
  case (ev_accept d f c S)
  then show ?case using ev.ev_accept [of env d f c] by (cases fs) auto
next
  case (ev_halt d f S)
  then show ?case using ev.ev_halt [of env d f] by (cases fs) auto
next
  case (ev_look d f a neg beh sub S r)
  show ?case
  proof (cases fs)
    case Nil
    with ev_look show ?thesis using ev.ev_look [of env d f a neg beh sub S r] by simp
  next
    case (Cons f' fs')
    then have "f' = f" "S = fs' @ ys" using ev_look.hyps(6) by auto
    with Cons ev_look show ?thesis
      using ev_look.hyps(5) [of "look_threads neg f sub @ fs'"] ev.ev_look [of env d f a neg beh sub "fs' @ zs" r] by simp
  qed
qed

lemma leads_append:
  assumes "leads x back fs gs" and "leads x back fs' gs'"
  shows "leads x back (fs @ fs') (gs @ gs')"
  unfolding leads_def
proof (intro allI impI)
  fix S r
  assume "ev (env_of x) (dir_of back) ((gs @ gs') @ S) r"
  then have "ev (env_of x) (dir_of back) (gs @ (gs' @ S)) r" by simp
  then have "ev (env_of x) (dir_of back) (gs @ (fs' @ S)) r"
    by (rule ev_tail) (use assms(2) in \<open>auto simp: leads_def\<close>)
  with assms(1) show "ev (env_of x) (dir_of back) ((fs @ fs') @ S) r" by (simp add: leads_def)
qed

lemma leads_step: "action (env_of x) (dir_of back) f = Threads gs \<Longrightarrow> leads x back [f] gs"
  by (simp add: leads_def ev_threads)

lemma leads_next: "action (env_of x) (dir_of back) f = Threads gs \<Longrightarrow> leads x back gs hs \<Longrightarrow> leads x back [f] hs"
  by (blast intro: leads_trans leads_step)

section \<open>Realising a matcher\<close>

definition realised :: "rx \<Rightarrow> bool \<Rightarrow> nat \<Rightarrow> frame \<Rightarrow> nat \<Rightarrow> mstate list \<Rightarrow> bool" where
  "realised x back lo f pc' outs \<longleftrightarrow> (\<exists>outs'. map (view x) outs' = outs \<and> (\<forall>o'\<in>set outs'. kept x lo (snd (snd f)) (snd o'))
     \<and> leads x back [f] (at_pc pc' outs'))"

definition realises :: "rx \<Rightarrow> bool \<Rightarrow> nat \<Rightarrow> matcher \<Rightarrow> nat \<Rightarrow> nat \<Rightarrow> bool" where
  "realises x back lo f pc pc' \<longleftrightarrow> (\<forall>sp c outs. length c = rx_slots x \<longrightarrow> f (view x (sp, c)) = Some outs
     \<longrightarrow> realised x back lo (pc, sp, c) pc' outs)"

lemma realisedI:
  "map (view x) outs' = outs \<Longrightarrow> (\<And>o'. o' \<in> set outs' \<Longrightarrow> kept x lo c (snd o')) \<Longrightarrow> leads x back [(pc, sp, c)] (at_pc pc' outs')
   \<Longrightarrow> realised x back lo (pc, sp, c) pc' outs"
  by (auto simp: realised_def)

lemma realisedE:
  assumes "realised x back lo (pc, sp, c) pc' outs"
  obtains outs' where "map (view x) outs' = outs" "\<And>o'. o' \<in> set outs' \<Longrightarrow> kept x lo c (snd o')"
    "leads x back [(pc, sp, c)] (at_pc pc' outs')"
  using assms by (auto simp: realised_def)

lemma realisesI:
  "(\<And>sp c outs. length c = rx_slots x \<Longrightarrow> f (sp, take (rx_real x) c) = Some outs \<Longrightarrow> realised x back lo (pc, sp, c) pc' outs)
   \<Longrightarrow> realises x back lo f pc pc'"
  by (simp add: realises_def)

lemma realisesD:
  "realises x back lo f pc pc' \<Longrightarrow> length c = rx_slots x \<Longrightarrow> f (sp, take (rx_real x) c) = Some outs
   \<Longrightarrow> realised x back lo (pc, sp, c) pc' outs"
  by (simp add: realises_def)

lemma realises_mono: "realises x back lo f pc pc' \<Longrightarrow> lo' \<le> lo \<Longrightarrow> realises x back lo' f pc pc'"
  by (fastforce simp: realises_def realised_def intro: kept_mono)

text \<open>One instruction that goes on to \<open>pc'\<close>.\<close>

lemma realised_step:
  assumes "action (env_of x) (dir_of back) (pc, sp, c) = Threads (at_pc pc' outs')"
    and "map (view x) outs' = outs" and "\<And>o'. o' \<in> set outs' \<Longrightarrow> kept x lo c (snd o')"
  shows "realised x back lo (pc, sp, c) pc' outs"
  using assms leads_step by (intro realisedI) auto

lemma realises_skip: "realises x back lo m_skip pc pc"
  by (rule realisesI, rule realisedI [where outs' = "[(sp, c)]" for sp c]) (auto simp: m_skip_def)

lemma realised_flat:
  assumes "realises x back lo g pc pc'"
  shows "flat g (map (view x) os) = Some outs \<Longrightarrow> \<forall>o'\<in>set os. length (snd o') = rx_slots x
    \<Longrightarrow> \<exists>outs'. map (view x) outs' = outs \<and> (\<forall>o'\<in>set outs'. \<exists>o''\<in>set os. kept x lo (snd o'') (snd o'))
      \<and> leads x back (at_pc pc os) (at_pc pc' outs')"
proof (induction os arbitrary: outs)
  case (Cons o' os)
  obtain sp c where o': "o' = (sp, c)" by (cases o')
  obtain ys zs where g: "g (view x o') = Some ys" "flat g (map (view x) os) = Some zs" "outs = ys @ zs"
    using Cons.prems(1) by (auto simp: bind_eq_Some_conv)
  obtain ys' where ys: "map (view x) ys' = ys" "\<And>o''. o'' \<in> set ys' \<Longrightarrow> kept x lo c (snd o'')"
    "leads x back [(pc, sp, c)] (at_pc pc' ys')"
    using realisesD [OF assms, of c sp ys] g(1) Cons.prems(2) by (auto simp: o' elim: realisedE)
  obtain zs' where zs: "map (view x) zs' = zs" "\<forall>o'\<in>set zs'. \<exists>o''\<in>set os. kept x lo (snd o'') (snd o')"
    "leads x back (at_pc pc os) (at_pc pc' zs')"
    using Cons.IH [OF g(2)] Cons.prems(2) by auto
  have "leads x back (at_pc pc (o' # os)) (at_pc pc' (ys' @ zs'))"
    using leads_append [OF ys(3) zs(3)] by (simp add: o')
  then show ?case using ys zs g(3) by (intro exI [of _ "ys' @ zs'"]) (auto simp: o')
qed simp

lemma realised_then:
  assumes "realised x back lo (pc, sp, c) pc1 outs1" and "realises x back lo g pc1 pc2"
    and "flat g outs1 = Some outs" and "length c = rx_slots x"
  shows "realised x back lo (pc, sp, c) pc2 outs"
proof -
  obtain os where os: "map (view x) os = outs1" "\<And>o'. o' \<in> set os \<Longrightarrow> kept x lo c (snd o')"
    "leads x back [(pc, sp, c)] (at_pc pc1 os)"
    using assms(1) by (blast elim: realisedE)
  have "\<forall>o'\<in>set os. length (snd o') = rx_slots x" using os(2) assms(4) by (simp add: kept_def)
  then obtain outs' where o': "map (view x) outs' = outs" "\<forall>o'\<in>set outs'. \<exists>o''\<in>set os. kept x lo (snd o'') (snd o')"
    "leads x back (at_pc pc1 os) (at_pc pc2 outs')"
    using realised_flat [OF assms(2), of os outs] assms(3) os(1) by auto
  show ?thesis
    by (rule realisedI [where outs' = outs']) (use o' os kept_trans leads_trans in blast)+
qed

lemma realises_seq:
  assumes "realises x back lo f pc pc1" and "realises x back lo g pc1 pc2"
  shows "realises x back lo (m_seq f g) pc pc2"
proof (rule realisesI)
  fix sp c outs
  assume l: "length c = rx_slots x" and s: "m_seq f g (sp, take (rx_real x) c) = Some outs"
  then obtain outs1 where 1: "f (sp, take (rx_real x) c) = Some outs1" "flat g outs1 = Some outs"
    by (auto simp: m_seq_def bind_eq_Some_conv)
  show "realised x back lo (pc, sp, c) pc2 outs"
    using realisesD [OF assms(1) l 1(1)] assms(2) 1(2) l by (rule realised_then)
qed

lemma realised_both:
  assumes "leads x back [(pc, sp, c)] [(pc1, sp, c'), (pc2, sp, c')]" and "kept x lo c c'"
    and "realised x back lo (pc1, sp, c') pc' outs1" and "realised x back lo (pc2, sp, c') pc' outs2"
  shows "realised x back lo (pc, sp, c) pc' (outs1 @ outs2)"
proof -
  obtain o1 where o1: "map (view x) o1 = outs1" "\<And>o'. o' \<in> set o1 \<Longrightarrow> kept x lo c' (snd o')"
    "leads x back [(pc1, sp, c')] (at_pc pc' o1)" using assms(3) by (blast elim: realisedE)
  obtain o2 where o2: "map (view x) o2 = outs2" "\<And>o'. o' \<in> set o2 \<Longrightarrow> kept x lo c' (snd o')"
    "leads x back [(pc2, sp, c')] (at_pc pc' o2)" using assms(4) by (blast elim: realisedE)
  have "leads x back [(pc1, sp, c'), (pc2, sp, c')] (at_pc pc' (o1 @ o2))"
    using leads_append [OF o1(3) o2(3)] by simp
  then show ?thesis
    by (intro realisedI [where outs' = "o1 @ o2"]) (use o1 o2 assms(1,2) kept_trans leads_trans in auto)
qed

lemma realises_or:
  assumes "at x pc (SPLIT, pc1, pc2)"
    and "realises x back lo f pc1 pc'" and "realises x back lo g pc2 pc'"
  shows "realises x back lo (m_or f g) pc pc'"
proof (rule realisesI)
  fix sp c outs
  assume l: "length c = rx_slots x" and s: "m_or f g (sp, take (rx_real x) c) = Some outs"
  then obtain o1 o2 where "f (sp, take (rx_real x) c) = Some o1" "g (sp, take (rx_real x) c) = Some o2" "outs = o1 @ o2"
    by (auto simp: m_or_def bind_eq_Some_conv)
  with l show "realised x back lo (pc, sp, c) pc' outs"
    using realised_both [OF leads_step, of x "back" pc sp c pc1 c pc2 lo pc' o1 o2] assms
    by (simp add: action_at [OF assms(1)] realisesD)
qed

lemma realises_jump:
  assumes "at x pc (JMP, pc', b)"
  shows "realises x back lo m_skip pc pc'"
proof (rule realisesI)
  fix sp c outs
  assume "m_skip (sp, take (rx_real x) c) = Some outs"
  then show "realised x back lo (pc, sp, c) pc' outs"
    by (intro realised_step [where outs' = "[(sp, c)]"]) (auto simp: action_at [OF assms] m_skip_def)
qed

lemma flat_skip [simp]: "flat m_skip xs = Some xs"
  by (induction xs) (simp_all add: m_skip_def)

lemma m_seq_skip [simp]: "m_seq f m_skip = f" and m_skip_seq [simp]: "m_seq m_skip f = f"
proof -
  show "m_seq f m_skip = f"
  proof (rule ext)
    fix st
    show "m_seq f m_skip st = f st" by (cases "f st") (simp_all add: m_seq_def)
  qed
  show "m_seq m_skip f = f"
  proof (rule ext)
    fix st
    show "m_seq m_skip f st = f st" by (cases "f st") (simp_all add: m_seq_def m_skip_def)
  qed
qed

lemma realises_jumped: "realises x back lo f pc pc1 \<Longrightarrow> at x pc1 (JMP, pc', b) \<Longrightarrow> realises x back lo f pc pc'"
  using realises_seq [OF _ realises_jump] by fastforce

lemma realises_opt:
  assumes "at x pc (SPLIT, if g then (pc1, pc') else (pc', pc1))" and "realises x back lo f pc1 pc'"
  shows "realises x back lo (m_opt g f) pc pc'"
  using assms realises_skip by (cases g) (auto simp: m_opt_def intro!: realises_or)

section \<open>Slots\<close>

lemma clear_slots_nth: "i < length c \<Longrightarrow> clear_slots a b c ! i = (if a \<le> i \<and> i \<le> b then - 1 else c ! i)"
proof -
  have "fold (\<lambda>i c. c[i := - 1]) js c ! i = (if i \<in> set js then - 1 else c ! i)" if "i < length c" for js and c :: caps
    using that by (induction js arbitrary: c) (auto simp: nth_list_update)
  then show "i < length c \<Longrightarrow> ?thesis" by (auto simp: clear_slots_def)
qed

lemma clear_slots_above: "b < i \<Longrightarrow> clear_slots a b c ! i = c ! i"
proof -
  have "fold (\<lambda>i c. c[i := - 1]) js c ! i = c ! i" if "i \<notin> set js" for js and c :: caps
    using that by (induction js arbitrary: c) auto
  then show "b < i \<Longrightarrow> ?thesis" by (simp add: clear_slots_def)
qed

lemma take_clear_slots: "take n (clear_slots a b c) = clear_slots a b (take n c)"
  by (rule nth_equalityI) (auto simp: clear_slots_nth)

lemma realises_save:
  assumes "at x pc (SAVE, a, b)" and "a < rx_real x"
  shows "realises x back lo (m_save a) pc (Suc pc)"
proof (rule realisesI)
  fix sp c outs
  assume "m_save a (sp, take (rx_real x) c) = Some outs"
  then show "realised x back lo (pc, sp, c) (Suc pc) outs"
    using assms(2)
    by (intro realised_step [where outs' = "[(sp, c[a := sp])]"])
      (auto simp: action_at [OF assms(1)] m_save_def kept_def take_update_swap)
qed

lemma realises_clear:
  assumes "\<And>l h. captureSpan n = Some (l, h) \<Longrightarrow> at x pc (CLEAR, 2 * l, 2 * h + 1) \<and> 2 * h + 1 < rx_real x \<and> pc' = Suc pc"
    and "captureSpan n = None \<Longrightarrow> pc' = pc"
  shows "realises x back lo (m_clear n) pc pc'"
proof (cases "captureSpan n")
  case None
  then have "m_clear n = m_skip" by (rule_tac ext) (auto simp: m_clear_def m_skip_def)
  then show ?thesis using realises_skip assms(2) None by simp
next
  case (Some lh)
  then obtain l h where lh: "captureSpan n = Some (l, h)" by (cases lh) simp
  then have a: "at x pc (CLEAR, 2 * l, 2 * h + 1)" "2 * h + 1 < rx_real x" "pc' = Suc pc" using assms(1) by auto
  show ?thesis
  proof (rule realisesI)
    fix sp c outs
    assume "length c = rx_slots x" and "m_clear n (sp, take (rx_real x) c) = Some outs"
    then show "realised x back lo (pc, sp, c) pc' outs"
      using a(2) unfolding a(3)
      by (intro realised_step [where outs' = "[(sp, clear_slots (2 * l) (2 * h + 1) c)]"])
        (auto simp: action_at [OF a(1)] m_clear_def lh kept_def take_clear_slots clear_slots_above)
  qed
qed

section \<open>Loops\<close>

text \<open>
  A loop head \<open>h\<close> that gives the two threads of a \<open>SPLIT\<close>, a body from \<open>bs\<close> back to \<open>h\<close> that
  realises the moving outcomes of \<open>f\<close>, and an exit: what the emitter makes of \<open>*\<close>, with or
  without the guard, and of the back edge of \<open>+\<close>.
\<close>

definition loop_head :: "rx \<Rightarrow> bool \<Rightarrow> nat \<Rightarrow> bool \<Rightarrow> matcher \<Rightarrow> nat \<Rightarrow> nat \<Rightarrow> bool" where
  "loop_head x back lo g f h exit_pc \<longleftrightarrow> (\<forall>sp c. length c = rx_slots x \<longrightarrow> (\<exists>bs c'.
     view x (sp, c') = view x (sp, c) \<and> kept x lo c c'
     \<and> leads x back [(h, sp, c)] (if g then [(bs, sp, c'), (exit_pc, sp, c')] else [(exit_pc, sp, c'), (bs, sp, c')])
     \<and> (\<forall>outs. m_moving f (view x (sp, c)) = Some outs \<longrightarrow> realised x back lo (bs, sp, c') h outs)))"

lemma realised_here: "realised x back lo (pc, sp, c) pc [view x (sp, c)]"
  by (rule realisedI [where outs' = "[(sp, c)]"]) simp_all

lemma realises_iter:
  assumes "loop_head x back lo g f h exit_pc"
  shows "realises x back lo (m_iter g f k) h exit_pc"
proof (induction k)
  case 0
  show ?case by (rule realisesI) simp
next
  case (Suc k)
  show ?case
  proof (rule realisesI)
    fix sp c outs
    assume l: "length c = rx_slots x" and s: "m_iter g f (Suc k) (sp, take (rx_real x) c) = Some outs"
    obtain bs c' where c': "view x (sp, c') = view x (sp, c)" "kept x lo c c'"
      and sp: "leads x back [(h, sp, c)] (if g then [(bs, sp, c'), (exit_pc, sp, c')] else [(exit_pc, sp, c'), (bs, sp, c')])"
      and b: "\<And>outs. m_moving f (view x (sp, c)) = Some outs \<Longrightarrow> realised x back lo (bs, sp, c') h outs"
      using assms l unfolding loop_head_def by metis
    obtain bo io where bo: "m_moving f (view x (sp, c)) = Some bo" "flat (m_iter g f k) bo = Some io"
      and outs: "outs = (if g then io @ [view x (sp, c)] else view x (sp, c) # io)"
      using s by (auto simp: m_opt_def m_or_def m_seq_def m_skip_def bind_eq_Some_conv split: if_splits)
    have "length c' = rx_slots x" using c'(2) l by (simp add: kept_def)
    then have r: "realised x back lo (bs, sp, c') exit_pc io"
      using realised_then [OF b [OF bo(1)] Suc.IH bo(2)] by simp
    have e: "realised x back lo (exit_pc, sp, c') exit_pc [view x (sp, c)]"
      using realised_here [of x "back" lo exit_pc sp c'] c'(1) by simp
    show "realised x back lo (h, sp, c) exit_pc outs"
      using realised_both [OF _ c'(2) r e, of h] realised_both [OF _ c'(2) e r, of h] sp outs by (cases g) auto
  qed
qed

lemma realises_star:
  assumes "loop_head x back lo g f h exit_pc"
  shows "realises x back lo (m_star s back g f) h exit_pc"
  using realises_iter [OF assms] unfolding realises_def m_star_def by blast

text \<open>Without a guard: the body always moves.\<close>

lemma loop_head_plain:
  assumes "at x h (SPLIT, if g then (bs, exit_pc) else (exit_pc, bs))" and "realises x back lo f bs h"
    and "moves b True f"
  shows "loop_head x back lo g f h exit_pc"
  unfolding loop_head_def
proof (intro allI impI exI conjI)
  fix sp :: int and c :: caps and outs
  assume l: "length c = rx_slots x"
  show "leads x back [(h, sp, c)] (if g then [(bs, sp, c), (exit_pc, sp, c)] else [(exit_pc, sp, c), (bs, sp, c)])"
    using assms(1) by (intro leads_step) (simp add: action_at split: if_splits)
  assume "m_moving f (view x (sp, c)) = Some outs"
  then obtain os where os: "f (view x (sp, c)) = Some os" "outs = filter (\<lambda>y. fst y \<noteq> sp) os"
    by (auto simp: m_moving_def)
  have "fst y \<noteq> sp" if "y \<in> set os" for y
    using movesD [OF assms(3) os(1) that] by (auto simp: dir_of_def split: if_splits)
  then have "outs = os" using os(2) by simp
  then show "realised x back lo (bs, sp, c) h outs" using realisesD [OF assms(2) l] os(1) by simp
qed simp_all

text \<open>With a guard: the slot \<open>a\<close> holds the position at the head, and the body keeps it.\<close>

lemma loop_head_guarded:
  assumes "at x h (SAVE, a, b)" and "rx_real x \<le> a" and "a < rx_slots x" and "lo \<le> a"
    and "at x (Suc h) (SPLIT, if g then (bs, exit_pc) else (exit_pc, bs))"
    and "realises x back (Suc a) f bs pe" and "at x pe (PROGRESS, a, b')" and "at x (Suc pe) (JMP, h, b'')"
  shows "loop_head x back lo g f h exit_pc"
  unfolding loop_head_def
proof (intro allI impI exI conjI)
  fix sp :: int and c :: caps and outs
  assume l: "length c = rx_slots x"
  let ?c = "c[a := sp]"
  show v: "view x (sp, ?c) = view x (sp, c)" using assms(2) by simp
  show k: "kept x lo c ?c" using assms(4) by (simp add: kept_def)
  show "leads x back [(h, sp, c)] (if g then [(bs, sp, ?c), (exit_pc, sp, ?c)] else [(exit_pc, sp, ?c), (bs, sp, ?c)])"
    by (rule leads_next, simp add: action_at [OF assms(1)], rule leads_step)
      (use assms(5) in \<open>simp add: action_at split: if_splits\<close>)
  assume "m_moving f (view x (sp, c)) = Some outs"
  then obtain os where os: "f (view x (sp, ?c)) = Some os" "outs = filter (\<lambda>y. fst y \<noteq> sp) os"
    using v by (auto simp: m_moving_def)
  obtain bo where bo: "map (view x) bo = os" "\<And>y. y \<in> set bo \<Longrightarrow> kept x (Suc a) ?c (snd y)"
    "leads x back [(bs, sp, ?c)] (at_pc pe bo)"
    using realisesD [OF assms(6), of ?c sp os] l os(1) by (auto elim: realisedE)
  have slot: "length (snd y) = rx_slots x \<and> snd y ! a = sp" if "y \<in> set bo" for y
    using bo(2) [OF that] l assms(2,3) by (simp add: kept_def)
  have step: "leads x back [(pe, y)] (at_pc h (filter (\<lambda>y. fst y \<noteq> sp) [y]))" if "y \<in> set bo" for y
  proof -
    have "action (env_of x) (dir_of back) (pe, y) = Threads (at_pc (Suc pe) (filter (\<lambda>y. fst y \<noteq> sp) [y]))"
      using slot [OF that] assms(3) by (cases y) (auto simp: action_at [OF assms(7)] advance_if_def)
    moreover have "leads x back [(Suc pe, y)] [(h, y)]"
      by (cases y) (rule leads_step, simp add: action_at [OF assms(8)])
    ultimately show ?thesis by (auto intro: leads_next leads_step)
  qed
  have "leads x back (at_pc pe ys) (at_pc h (filter (\<lambda>y. fst y \<noteq> sp) ys))" if "set ys \<subseteq> set bo" for ys
    using that
  proof (induction ys)
    case (Cons y ys)
    then show ?case using leads_append [OF step [of y] Cons.IH] by (auto split: if_splits)
  qed simp
  then have "leads x back [(bs, sp, ?c)] (at_pc h (filter (\<lambda>y. fst y \<noteq> sp) bo))"
    using bo(3) leads_trans by blast
  moreover have "map (view x) (filter (\<lambda>y. fst y \<noteq> sp) bo) = outs"
    by (simp add: os(2) bo(1) [symmetric] filter_map comp_def)
  ultimately show "realised x back lo (bs, sp, ?c) h outs"
    using bo(2) assms(4) by (intro realisedI [where outs' = "filter (\<lambda>y. fst y \<noteq> sp) bo"]) (auto intro!: kept_mono [where lo = "Suc a" and lo' = lo])
qed

section \<open>Atoms\<close>

lemma unit_at_inBounds:
  "in_subject s sp \<Longrightarrow> inBounds s (dir_of back) sp \<longleftrightarrow> unit_at s (dir_of back) sp \<noteq> None"
  by (auto simp: in_subject_def inBounds_def unit_at_def charCodeAt_def dir_of_def)

lemma unit_at_mem: "unit_at s d sp = Some u \<Longrightarrow> u \<in> set s"
  by (auto simp: unit_at_def charCodeAt_def split: if_splits)

lemma realises_unit:
  assumes "at x pc (p, a, b)"
    and "\<And>sp c. exec_op (env_of x) (dir_of back) p a b pc sp c =
      advance_if (inBounds (rx_input x) (dir_of back) sp \<and> test (unit_at (rx_input x) (dir_of back) sp)) pc (sp + dir_of back) c"
    and "\<And>u. u \<in> set (rx_input x) \<Longrightarrow> test (Some u) \<longleftrightarrow> ok u"
  shows "realises x back lo (m_unit (rx_input x) back ok) pc (Suc pc)"
proof (rule realisesI)
  fix sp c outs
  assume m: "m_unit (rx_input x) back ok (sp, take (rx_real x) c) = Some outs"
  let ?u = "unit_at (rx_input x) (dir_of back) sp"
  have i: "in_subject (rx_input x) sp" using m by (simp add: m_unit_def split: if_splits)
  define outs' where "outs' = (case ?u of None \<Rightarrow> [] | Some u \<Rightarrow> if ok u then [(sp + dir_of back, c)] else [])"
  have "action (env_of x) (dir_of back) (pc, sp, c) = Threads (at_pc (Suc pc) outs')"
    using unit_at_inBounds [OF i, of "back"] assms(3)
    by (cases ?u) (auto simp: action_at [OF assms(1)] assms(2) advance_if_def outs'_def unit_at_mem)
  moreover have "map (view x) outs' = outs"
    using m i by (cases ?u) (auto simp: m_unit_def outs'_def)
  moreover have "kept x lo c (snd o')" if "o' \<in> set outs'" for o'
    using that by (auto simp: outs'_def split: option.splits if_splits)
  ultimately show "realised x back lo (pc, sp, c) (Suc pc) outs" by (rule realised_step)
qed

lemma code_point_Some:
  assumes "unit_at s (dir_of back) sp = Some u" and "code_point_at s (dir_of back) sp = Some (cp, w)"
  shows "\<exists>v. cp = Some v"
  using assms(2) by (auto simp: code_point_at_def Let_def assms(1) split: if_splits)

lemma realises_point:
  assumes "at x pc (CPCLASS, a, b)" and "\<And>u. classMatch (rx_tab x) a (Some u) (0 < b) \<longleftrightarrow> ok u"
  shows "realises x back lo (m_point (rx_input x) back ok) pc (Suc pc)"
proof (rule realisesI)
  fix sp c outs
  assume m: "m_point (rx_input x) back ok (sp, take (rx_real x) c) = Some outs"
  let ?u = "unit_at (rx_input x) (dir_of back) sp" and ?p = "code_point_at (rx_input x) (dir_of back) sp"
  have i: "in_subject (rx_input x) sp" using m by (simp add: m_point_def split: if_splits)
  show "realised x back lo (pc, sp, c) (Suc pc) outs"
  proof (cases ?u)
    case None
    then have "outs = []" using m i by (simp add: m_point_def)
    then show ?thesis
      using None unit_at_inBounds [OF i, of "back"]
      by (intro realised_step [where outs' = "[]"]) (simp_all add: action_at [OF assms(1)])
  next
    case u: (Some u)
    have ib: "inBounds (rx_input x) (dir_of back) sp" using u unit_at_inBounds [OF i, of "back"] by simp
    show ?thesis
    proof (cases ?p)
      case None
      then have "outs = []" using m i u by (simp add: m_point_def)
      then show ?thesis
        using None ib by (intro realised_step [where outs' = "[]"]) (simp_all add: action_at [OF assms(1)])
    next
      case (Some cw)
      then obtain v w where p: "?p = Some (Some v, w)" using code_point_Some [OF u] by (cases cw) auto
      then have "outs = (if ok v then [(sp + dir_of back * w, take (rx_real x) c)] else [])"
        using m i u by (simp add: m_point_def)
      then show ?thesis
        using p ib
        by (intro realised_step [where outs' = "if ok v then [(sp + dir_of back * w, c)] else []"])
          (auto simp: action_at [OF assms(1)] assms(2) advance_if_def split: if_splits)
    qed
  qed
qed

lemma realises_test:
  assumes "at x pc (p, a, b)"
    and "\<And>sp c. exec_op (env_of x) (dir_of back) p a b pc sp c = advance_if (ok sp) pc sp c"
  shows "realises x back lo (m_test ok) pc (Suc pc)"
proof (rule realisesI)
  fix sp c outs
  assume "m_test ok (sp, take (rx_real x) c) = Some outs"
  then show "realised x back lo (pc, sp, c) (Suc pc) outs"
    by (intro realised_step [where outs' = "if ok sp then [(sp, c)] else []"])
      (auto simp: action_at [OF assms(1)] assms(2) advance_if_def m_test_def split: if_splits)
qed

lemma realises_backref:
  assumes "at x pc (BACKREF, i, b)" and "rx_real x \<le> rx_slots x"
  shows "realises x back lo (m_backref (rx_input x) back (0 < b) i) pc (Suc pc)"
proof (rule realisesI)
  fix sp c outs
  assume l: "length c = rx_slots x" and m: "m_backref (rx_input x) back (0 < b) i (sp, take (rx_real x) c) = Some outs"
  let ?gs = "c ! (2 * i)" and ?ge = "c ! (2 * i + 1)"
  have i: "2 * i + 1 < rx_real x" and sub: "in_subject (rx_input x) sp"
    using m l by (simp_all add: m_backref_def split: if_splits)
  then have n: "2 * i + 1 < length c" "2 * i < rx_real x" using assms(2) l by auto
  show "realised x back lo (pc, sp, c) (Suc pc) outs"
  proof (cases "?gs < 0 \<or> ?ge < 0")
    case True
    then have "outs = [view x (sp, c)]" using m i n l assms(2) sub by (simp add: m_backref_def Let_def)
    then show ?thesis
      using True n by (intro realised_step [where outs' = "[(sp, c)]"]) (simp_all add: action_at [OF assms(1)] Let_def)
  next
    case False
    then have w: "?gs \<le> ?ge" using m i n l by (simp add: m_backref_def Let_def split: if_splits)
    define base where "base = (if back then sp - (?ge - ?gs) else sp)"
    define hit where "hit \<longleftrightarrow> 0 \<le> base \<and> base + (?ge - ?gs) \<le> int (length (rx_input x))
       \<and> backref_same (rx_input x) (0 < b) ?gs base (?ge - ?gs)"
    have outs: "outs = (if hit then [(sp + dir_of back * (?ge - ?gs), take (rx_real x) c)] else [])"
      using m i n l False w sub by (auto simp: m_backref_def Let_def base_def hit_def)
    have "action (env_of x) (dir_of back) (pc, sp, c)
        = Threads (at_pc (Suc pc) (if hit then [(sp + dir_of back * (?ge - ?gs), c)] else []))"
      using False n w sub
      by (auto simp: action_at [OF assms(1)] Let_def advance_if_def base_def hit_def dir_of_def in_subject_def)
    then show ?thesis by (rule realised_step) (simp_all add: outs split: if_splits)
  qed
qed

section \<open>Lookarounds\<close>

text \<open>A sub-program: run on its own it ends with the first outcome of the matcher.\<close>

definition runs :: "rx \<Rightarrow> bool \<Rightarrow> nat \<Rightarrow> matcher \<Rightarrow> nat \<Rightarrow> bool" where
  "runs x back lo f entry \<longleftrightarrow> (\<forall>sp c outs. length c = rx_slots x \<longrightarrow> f (view x (sp, c)) = Some outs \<longrightarrow>
     (\<exists>r. ev (env_of x) (dir_of back) [(entry, sp, c)] r
       \<and> (case outs of [] \<Rightarrow> r = None | o' # _ \<Rightarrow> \<exists>c'. r = Some c' \<and> take (rx_real x) c' = snd o' \<and> kept x lo c c')))"

lemma runsD:
  assumes "runs x back lo f entry" and "length c = rx_slots x" and "f (sp, take (rx_real x) c) = Some outs"
  obtains r where "ev (env_of x) (dir_of back) [(entry, sp, c)] r"
    "case outs of [] \<Rightarrow> r = None | o' # _ \<Rightarrow> \<exists>c'. r = Some c' \<and> take (rx_real x) c' = snd o' \<and> kept x lo c c'"
  using assms unfolding runs_def by fastforce

lemma runs_mono:
  assumes "runs x back lo f entry" and "lo' \<le> lo"
  shows "runs x back lo' f entry"
  unfolding runs_def
proof (intro allI impI)
  fix sp c outs
  assume "length c = rx_slots x" and "f (view x (sp, c)) = Some outs"
  then obtain r where "ev (env_of x) (dir_of back) [(entry, sp, c)] r"
    and "case outs of [] \<Rightarrow> r = None | o' # _ \<Rightarrow> \<exists>c'. r = Some c' \<and> take (rx_real x) c' = snd o' \<and> kept x lo c c'"
    using assms(1) unfolding runs_def by blast
  then show "\<exists>r. ev (env_of x) (dir_of back) [(entry, sp, c)] r
     \<and> (case outs of [] \<Rightarrow> r = None | o' # _ \<Rightarrow> \<exists>c'. r = Some c' \<and> take (rx_real x) c' = snd o' \<and> kept x lo' c c')"
    using assms(2) by (intro exI [of _ r]) (auto split: list.splits intro: kept_mono)
qed

lemma runs_match:
  assumes "realises x back lo f entry pc" and "at x pc (MATCH, a, b)"
  shows "runs x back lo f entry"
  unfolding runs_def
proof (intro allI impI)
  fix sp c outs
  assume l: "length c = rx_slots x" and f: "f (view x (sp, c)) = Some outs"
  obtain os where os: "map (view x) os = outs" "\<And>o'. o' \<in> set os \<Longrightarrow> kept x lo c (snd o')"
    "leads x back [(entry, sp, c)] (at_pc pc os)"
    using realisedE [OF realisesD [OF assms(1) l f [unfolded view_Pair]]] by blast
  have m: "action (env_of x) (dir_of back) (pc, o') = Accept (snd o')" for o'
    by (cases o') (simp add: action_at [OF assms(2)])
  show "\<exists>r. ev (env_of x) (dir_of back) [(entry, sp, c)] r
     \<and> (case outs of [] \<Rightarrow> r = None | o' # _ \<Rightarrow> \<exists>c'. r = Some c' \<and> take (rx_real x) c' = snd o' \<and> kept x lo c c')"
  proof (cases os)
    case Nil
    then have "ev (env_of x) (dir_of back) (at_pc pc os @ []) None" by (simp add: ev_nil)
    then have "ev (env_of x) (dir_of back) [(entry, sp, c)] None" using os(3) unfolding leads_def by fastforce
    with Nil os(1) show ?thesis by auto
  next
    case (Cons o' os')
    then have "ev (env_of x) (dir_of back) (at_pc pc os @ []) (Some (snd o'))" by (simp add: ev_accept m)
    then have "ev (env_of x) (dir_of back) [(entry, sp, c)] (Some (snd o'))" using os(3) unfolding leads_def by fastforce
    moreover have "kept x lo c (snd o')" using os(2) [of o'] Cons by simp
    ultimately show ?thesis using Cons os(1) by (intro exI [of _ "Some (snd o')"]) auto
  qed
qed

lemma realises_look:
  assumes "at x pc (LOOKAROUND, entry, b)" and "b AND 1 \<noteq> 0 \<longleftrightarrow> neg" and "b AND 2 \<noteq> 0 \<longleftrightarrow> beh"
    and "runs x beh lo f entry"
  shows "realises x back lo (m_look neg f) pc (Suc pc)"
proof (rule realisesI)
  fix sp c outs
  assume l: "length c = rx_slots x" and s: "m_look neg f (sp, take (rx_real x) c) = Some outs"
  obtain os where os: "f (sp, take (rx_real x) c) = Some os"
    and outs: "outs = (case os of [] \<Rightarrow> if neg then [(sp, take (rx_real x) c)] else []
       | st' # _ \<Rightarrow> if neg then [] else [(sp, snd st')])"
    using s unfolding m_look_def fst_conv by blast
  obtain r where r: "ev (env_of x) (dir_of beh) [(entry, sp, c)] r"
    and r': "case os of [] \<Rightarrow> r = None | o' # _ \<Rightarrow> \<exists>c'. r = Some c' \<and> take (rx_real x) c' = snd o' \<and> kept x lo c c'"
    using assms(4) l os by (rule runsD)
  have a: "action (env_of x) (dir_of back) (pc, sp, c) = Look entry neg beh"
    using assms(2,3) by (simp add: action_at [OF assms(1)])
  have look: "leads x back [(pc, sp, c)] (look_threads neg (pc, sp, c) r)"
    unfolding leads_def using ev_look [OF a] r by (simp add: dir_of_def)
  define outs' where "outs' = map snd (look_threads neg (pc, sp, c) r)"
  have "look_threads neg (pc, sp, c) r = at_pc (Suc pc) outs'"
    by (auto simp: outs'_def look_threads_def split: option.splits)
  moreover have "map (view x) outs' = outs \<and> (\<forall>o'\<in>set outs'. kept x lo c (snd o'))"
    using r' by (auto simp: outs outs'_def look_threads_def split: list.splits)
  ultimately show "realised x back lo (pc, sp, c) (Suc pc) outs"
    using look by (intro realisedI [where outs' = outs']) auto
qed

end
