(* ===== verification/RegexTrie.thy ===== *)
theory RegexTrie
  imports RegexRun
begin

text \<open>
  Why the shared-prefix emission of a literal alternation keeps the order of preference: the
  branches of \<open>literal_branches\<close> have the outcomes of the literals, in the same order. A literal
  that joins an earlier branch passes over branches whose first unit differs from its own, of
  which none can match where it does.
\<close>

definition m_lit :: "subject \<Rightarrow> bool \<Rightarrow> nat list \<Rightarrow> matcher" where
  "m_lit s back codes = m_seqs (map (\<lambda>c. m_unit s back (\<lambda>u. u = c)) codes)"

definition m_branch :: "subject \<Rightarrow> bool \<Rightarrow> branch \<Rightarrow> matcher" where
  "m_branch s back b = (case b of
     Eps \<Rightarrow> m_skip
   | Grp c ss \<Rightarrow> m_seq (m_unit s back (\<lambda>u. u = c)) (m_alts (map (m_lit s back) ss)))"

lemma m_lit_simps [simp]:
  "m_lit s back [] = m_skip"
  "m_lit s back (c # cs) = m_seq (m_unit s back (\<lambda>u. u = c)) (m_lit s back cs)"
  by (simp_all add: m_lit_def)

lemma m_alts_Some_iff:
  "m_alts fs st = Some outs \<longleftrightarrow> fs \<noteq> [] \<and> (\<forall>f\<in>set fs. f st \<noteq> None) \<and> outs = concat (map (\<lambda>f. the (f st)) fs)"
proof (induction fs arbitrary: outs rule: m_alts.induct)
  case (3 f g fs)
  then show ?case by (cases "f st") (auto simp: m_or_def bind_eq_Some_conv)
qed auto

lemma unit_in_subject: "in_subject s sp \<Longrightarrow> unit_at s (dir_of back) sp = Some u \<Longrightarrow> in_subject s (sp + dir_of back)"
  by (auto simp: in_subject_def unit_at_def charCodeAt_def dir_of_def split: if_splits)

lemma m_seq_unit:
  assumes "in_subject s sp"
  shows "m_seq (m_unit s back (\<lambda>u. u = c)) f (sp, caps) =
    (if unit_at s (dir_of back) sp = Some c then f (sp + dir_of back, caps) else Some [])"
  using assms by (cases "f (sp + dir_of back, caps)") (auto simp: m_seq_def m_unit_def split: option.splits)

lemma m_lit_Some: "in_subject s sp \<Longrightarrow> \<exists>outs. m_lit s back l (sp, caps) = Some outs"
proof (induction l arbitrary: sp)
  case (Cons c l)
  then show ?case using unit_in_subject [OF Cons.prems, of "back"] by (simp add: m_seq_unit)
qed (simp add: m_skip_def)

text \<open>The literals a branch stands for.\<close>

definition expand :: "branch \<Rightarrow> nat list list" where
  "expand b = (case b of Eps \<Rightarrow> [[]] | Grp c ss \<Rightarrow> map ((#) c) ss)"

lemma m_branch_expand:
  assumes "in_subject s sp" and "branch_from lits b"
  shows "m_branch s back b (sp, caps) = Some (concat (map (\<lambda>l. the (m_lit s back l (sp, caps))) (expand b)))"
proof (cases b)
  case Eps
  then show ?thesis by (simp add: m_branch_def expand_def m_skip_def)
next
  case (Grp c ss)
  then have ss: "ss \<noteq> []" using assms(2) by (simp add: branch_from_def)
  show ?thesis
  proof (cases "unit_at s (dir_of back) sp = Some c")
    case True
    have "in_subject s (sp + dir_of back)" using assms(1) True by (rule unit_in_subject)
    then have "m_alts (map (m_lit s back) ss) (sp + dir_of back, caps)
        = Some (concat (map (\<lambda>l. the (m_lit s back l (sp + dir_of back, caps))) ss))"
      using ss m_lit_Some [of s "sp + dir_of back"] by (auto simp: m_alts_Some_iff comp_def)
    then show ?thesis using True by (simp add: m_branch_def expand_def Grp m_seq_unit [OF assms(1)] comp_def)
  next
    case False
    then show ?thesis by (simp add: m_branch_def expand_def Grp m_seq_unit [OF assms(1)] comp_def)
  qed
qed

text \<open>
  Branches collected so far: an indexed one starts with its unit, and after it come only branches
  that start with other units.
\<close>

definition trie_inv :: "branch list \<times> (nat \<rightharpoonup> nat) \<Rightarrow> bool" where
  "trie_inv st \<longleftrightarrow> (\<forall>c i. snd st c = Some i \<longrightarrow> i < length (fst st) \<and> (\<exists>ss. fst st ! i = Grp c ss)
     \<and> (\<forall>j. i < j \<and> j < length (fst st) \<longrightarrow> (\<exists>d ss. fst st ! j = Grp d ss \<and> d \<noteq> c)))"

lemma trie_invD:
  assumes "trie_inv (bs, m)" and "m c = Some i"
  obtains ss where "i < length bs" "bs ! i = Grp c ss" "\<And>j. i < j \<Longrightarrow> j < length bs \<Longrightarrow> \<exists>d us. bs ! j = Grp d us \<and> d \<noteq> c"
  using assms unfolding trie_inv_def fst_conv snd_conv by blast

lemma trie_inv_add: "trie_inv st \<Longrightarrow> trie_inv (add_literal l st)"
proof (cases l)
  case Nil
  then show ?thesis by (cases st) (simp add: trie_inv_def add_literal_def)
next
  case (Cons c suffix)
  assume inv: "trie_inv st"
  obtain bs m where st: "st = (bs, m)" by (cases st)
  show ?thesis
  proof (cases "m c")
    case None
    with inv Cons st show ?thesis
      by (fastforce simp: trie_inv_def add_literal_def nth_append less_Suc_eq)
  next
    case (Some gi)
    then obtain ss where "gi < length bs" "bs ! gi = Grp c ss" using inv st trie_invD by metis
    with inv Cons st Some show ?thesis
      by (fastforce simp: trie_inv_def add_literal_def nth_list_update)
  qed
qed

lemma concat_update:
  assumes "i < length xs" and "\<forall>j. i < j \<and> j < length xs \<longrightarrow> f (xs ! j) = [] \<or> e = []" and "f y = f (xs ! i) @ e"
  shows "concat (map f (xs[i := y])) = concat (map f xs) @ e"
proof -
  have d: "concat (map f (drop (Suc i) xs)) = [] \<or> e = []"
    using assms(2) by (auto simp: in_set_conv_nth)
  have "concat (map f (xs[i := y])) = concat (map f (take i xs)) @ f y @ concat (map f (drop (Suc i) xs))"
    using assms(1) by (simp add: upd_conv_take_nth_drop)
  also have "\<dots> = concat (map f (take i xs)) @ f (xs ! i) @ concat (map f (drop (Suc i) xs)) @ e"
    using d assms(3) by (elim disjE) (simp_all only: append_Nil append_Nil2 append_assoc)
  also have "\<dots> = concat (map f (take i xs @ xs ! i # drop (Suc i) xs)) @ e" by simp
  also have "take i xs @ xs ! i # drop (Suc i) xs = xs" using assms(1) by (rule id_take_nth_drop [symmetric])
  finally show ?thesis .
qed

lemma add_literal_outcomes:
  assumes "trie_inv st" and "\<And>c d t u. d \<noteq> c \<Longrightarrow> L (c # t) \<noteq> [] \<Longrightarrow> L (d # u) = []"
  shows "concat (map (\<lambda>b. concat (map L (expand b))) (fst (add_literal l st)))
    = concat (map (\<lambda>b. concat (map L (expand b))) (fst st)) @ L l"
proof (cases l)
  case Nil
  then show ?thesis by (cases st) (simp add: add_literal_def expand_def)
next
  case (Cons c suffix)
  obtain bs m where st: "st = (bs, m)" by (cases st)
  show ?thesis
  proof (cases "m c")
    case None
    with Cons st show ?thesis by (simp add: add_literal_def expand_def)
  next
    case (Some gi)
    then obtain ss where gi: "gi < length bs" "bs ! gi = Grp c ss"
      "\<forall>j. gi < j \<and> j < length bs \<longrightarrow> (\<exists>d us. bs ! j = Grp d us \<and> d \<noteq> c)"
      using assms(1) [unfolded st] by (metis trie_invD)
    have "concat (map (\<lambda>b. concat (map L (expand b))) (bs[gi := Grp c (ss @ [suffix])]))
        = concat (map (\<lambda>b. concat (map L (expand b))) bs) @ L (c # suffix)"
    proof (rule concat_update [OF gi(1)])
      show "\<forall>j. gi < j \<and> j < length bs \<longrightarrow> concat (map L (expand (bs ! j))) = [] \<or> L (c # suffix) = []"
        using gi(3) assms(2) [of _ c suffix] by (fastforce simp: expand_def)
    qed (simp add: gi(2) expand_def)
    then show ?thesis using Cons st Some gi(2) by (simp add: add_literal_def)
  qed
qed

lemma literal_branches_outcomes:
  assumes "\<And>c d t u. d \<noteq> c \<Longrightarrow> L (c # t) \<noteq> [] \<Longrightarrow> L (d # u) = []"
  shows "concat (map (\<lambda>b. concat (map L (expand b))) (literal_branches lits)) = concat (map L lits)"
proof -
  have "trie_inv st \<Longrightarrow> concat (map (\<lambda>b. concat (map L (expand b))) (fst (fold add_literal lits st)))
      = concat (map (\<lambda>b. concat (map L (expand b))) (fst st)) @ concat (map L lits)" for st
  proof (induction lits arbitrary: st)
    case (Cons l lits)
    then show ?case using add_literal_outcomes [where L = L, OF Cons.prems assms] by (simp add: trie_inv_add)
  qed simp
  from this [of "([], Map.empty)"] show ?thesis by (simp add: literal_branches_def trie_inv_def)
qed

lemma literal_branches_empty:
  "\<forall>l\<in>set lits. l = [] \<Longrightarrow> literal_branches lits = map (\<lambda>_. Eps) lits"
proof -
  have "\<forall>l\<in>set lits. l = [] \<Longrightarrow> fst (fold add_literal lits (bs, m)) = bs @ map (\<lambda>_. Eps) lits" for bs m
    by (induction lits arbitrary: bs m) (auto simp: add_literal_def)
  then show "\<forall>l\<in>set lits. l = [] \<Longrightarrow> ?thesis" by (simp add: literal_branches_def)
qed

lemma literal_branches_nonempty: "lits \<noteq> [] \<Longrightarrow> literal_branches lits \<noteq> []"
proof -
  have "fst st \<noteq> [] \<Longrightarrow> fst (fold add_literal lits st) \<noteq> []" for lits st
  proof (induction lits arbitrary: st)
    case (Cons l lits)
    have "fst (add_literal l st) \<noteq> []" using Cons.prems by (cases st) (auto simp: add_literal_def split: list.split option.split)
    then show ?case using Cons.IH by simp
  qed simp
  moreover have "fst (add_literal l ([], Map.empty)) \<noteq> []" for l by (simp add: add_literal_def split: list.split)
  ultimately show "lits \<noteq> [] \<Longrightarrow> ?thesis" by (cases lits) (simp_all add: literal_branches_def)
qed

text \<open>The two alternations agree.\<close>

lemma m_alts_branches:
  assumes "m_alts (map (m_lit s back) lits) (sp, caps) = Some outs"
  shows "m_alts (map (m_branch s back) (literal_branches lits)) (sp, caps) = Some outs"
proof (cases "in_subject s sp")
  case True
  let ?L = "\<lambda>l. the (m_lit s back l (sp, caps))"
  have ne: "lits \<noteq> []" and outs: "outs = concat (map ?L lits)"
    using assms by (auto simp: m_alts_Some_iff comp_def)
  have b: "m_branch s back b (sp, caps) = Some (concat (map ?L (expand b)))" if "b \<in> set (literal_branches lits)" for b
    using True literal_branches_from [OF that] by (rule m_branch_expand)
  have "concat (map (\<lambda>b. concat (map ?L (expand b))) (literal_branches lits)) = concat (map ?L lits)"
    by (rule literal_branches_outcomes) (simp add: m_seq_unit [OF True] split: if_splits)
  moreover have e: "map (\<lambda>b. the (m_branch s back b (sp, caps))) (literal_branches lits)
      = map (\<lambda>b. concat (map ?L (expand b))) (literal_branches lits)"
    by (rule map_cong) (simp_all add: b)
  ultimately have "outs = concat (map (\<lambda>b. the (m_branch s back b (sp, caps))) (literal_branches lits))"
    by (simp only: outs e)
  then show ?thesis
    using b literal_branches_nonempty [OF ne] by (simp only: m_alts_Some_iff map_map comp_def) auto
next
  case False
  have e: "l = []" if "l \<in> set lits" for l
    using assms that False by (cases l) (auto simp: m_alts_Some_iff m_seq_def m_unit_def)
  have m: "map (m_lit s back) lits = map (\<lambda>_. m_skip) lits"
    by (rule map_cong) (use e in \<open>metis m_lit_simps(1)\<close>)+
  have "literal_branches lits = map (\<lambda>_. Eps) lits"
    using e by (intro literal_branches_empty) simp
  then show ?thesis using assms [unfolded m] by (simp add: m_branch_def comp_def)
qed

end
