(* ===== verification/RegexCorrect.thy ===== *)
theory RegexCorrect
  imports RegexTrie
begin

text \<open>
  The emitter is correct: whatever program an emission ends up in, the instructions it added
  realise the meaning of the node it compiled. \<open>fits\<close> says that a finished program contains the
  instructions added between two emitter states; jumps out of a stretch are patched before it is
  complete and only the entry operand of a \<open>LOOKAROUND\<close> is filled in later, by
  \<open>drainPendingSubs\<close>.
\<close>

section \<open>Emissions in a finished program\<close>

definition same_instr :: "re_instr \<Rightarrow> re_instr \<Rightarrow> bool" where
  "same_instr i j \<longleftrightarrow> (if fst i = LOOKAROUND then fst j = LOOKAROUND \<and> snd (snd j) = snd (snd i) else j = i)"

record job =
  job_sub :: "pending_sub \<Rightarrow> matcher"
  job_input :: subject
  job_unicode :: bool
  job_real :: nat

definition fits :: "job \<Rightarrow> rx \<Rightarrow> emitter \<Rightarrow> emitter \<Rightarrow> bool" where
  "fits J x em em' \<longleftrightarrow>
     rx_input x = job_input J \<and> rx_real x = job_real J \<and> em_scratchBase em = job_real J \<and> em_unicode em = job_unicode J
     \<and> job_real J + em_scratchCount em' \<le> rx_slots x \<and> here em' \<le> length (rx_instrs x)
     \<and> (\<forall>pc. here em \<le> pc \<and> pc < here em' \<longrightarrow> same_instr (em_instrs em' ! pc) (rx_instrs x ! pc))
     \<and> (\<exists>extra. rx_tab x = em_classTable em' @ extra)
     \<and> (\<forall>sub\<in>set (drop (length (em_pendingSubs em)) (em_pendingSubs em')).
          runs x (ps_reversed sub) (job_real J + em_scratchCount em') (job_sub J sub) (fst (snd (rx_instrs x ! ps_patchPc sub))))"

definition keeps :: "nat \<Rightarrow> emitter \<Rightarrow> emitter \<Rightarrow> bool" where
  "keeps lo e e' \<longleftrightarrow> here e \<le> here e' \<and> (\<forall>pc. lo \<le> pc \<and> pc < here e \<longrightarrow> em_instrs e' ! pc = em_instrs e ! pc)
     \<and> (\<exists>nc. em_classTable e' = em_classTable e @ nc) \<and> (\<exists>np. em_pendingSubs e' = em_pendingSubs e @ np)
     \<and> em_scratchCount e \<le> em_scratchCount e'"

lemma keeps_refl: "keeps lo e e"
  by (simp add: keeps_def)

lemma keeps_trans: "keeps lo e e1 \<Longrightarrow> keeps lo e1 e2 \<Longrightarrow> keeps lo e e2"
  by (fastforce simp: keeps_def)

lemma keeps_mono: "keeps lo e e' \<Longrightarrow> lo \<le> lo' \<Longrightarrow> keeps lo' e e'"
  by (auto simp: keeps_def)

lemma keeps_emit: "keeps lo e e' \<Longrightarrow> keeps lo e (emit p a b e')"
  by (auto simp: keeps_def nth_append here_def)

lemma patchA_nth: "i < here e \<Longrightarrow> em_instrs (patchA pc a e) ! i =
    (if i = pc then (fst (em_instrs e ! pc), a, snd (snd (em_instrs e ! pc))) else em_instrs e ! i)"
  and patchB_nth: "i < here e \<Longrightarrow> em_instrs (patchB pc b e) ! i =
    (if i = pc then (fst (em_instrs e ! pc), fst (snd (em_instrs e ! pc)), b) else em_instrs e ! i)"
  by (auto simp: patchA_def patchB_def here_def nth_list_update)

lemma patch_split_nth: "i < here e \<Longrightarrow> em_instrs (patch_split pc g t y e) ! i =
    (if i = pc then (fst (em_instrs e ! pc), if g then (t, y) else (y, t)) else em_instrs e ! i)"
  by (auto simp: patch_split_def patchA_nth patchB_nth)

lemma keeps_patchA: "keeps lo e e' \<Longrightarrow> pc < lo \<or> here e \<le> pc \<Longrightarrow> keeps lo e (patchA pc a e')"
  by (auto simp: keeps_def patchA_nth)

lemma keeps_patchB: "keeps lo e e' \<Longrightarrow> pc < lo \<or> here e \<le> pc \<Longrightarrow> keeps lo e (patchB pc a e')"
  by (auto simp: keeps_def patchB_nth)

lemma keeps_patch_split: "keeps lo e e' \<Longrightarrow> pc < lo \<or> here e \<le> pc \<Longrightarrow> keeps lo e (patch_split pc g t y e')"
  by (simp add: patch_split_def keeps_patchA keeps_patchB)

lemma keeps_patch_all:
  "keeps lo e e' \<Longrightarrow> \<forall>j\<in>set js. j < lo \<or> here e \<le> j \<Longrightarrow> keeps lo e (patch_all js e')"
proof -
  have "keeps lo e e' \<Longrightarrow> \<forall>j\<in>set js. j < lo \<or> here e \<le> j \<Longrightarrow> keeps lo e (fold (\<lambda>j. patchA j t) js e')" for t
    by (induction js arbitrary: e') (auto intro: keeps_patchA)
  then show "keeps lo e e' \<Longrightarrow> \<forall>j\<in>set js. j < lo \<or> here e \<le> j \<Longrightarrow> keeps lo e (patch_all js e')"
    by (simp add: patch_all_def Let_def)
qed

lemma keeps_grown: "grown e e' w \<Longrightarrow> keeps lo e e'"
  by (auto simp: keeps_def here_def nth_append elim!: grownE)

lemma keeps_grown_trans: "keeps lo e e1 \<Longrightarrow> grown e1 e2 w \<Longrightarrow> keeps lo e e2"
  by (blast intro: keeps_trans keeps_grown)

text \<open>The stretch between two intermediate states of an emission is in the program too.\<close>

lemma fits_part:
  assumes "fits J x em e3" and "grown em e1 w1" and "grown e1 e2 w2" and "keeps (here e1) e2 e3"
  shows "fits J x e1 e2"
proof -
  obtain np1 where 1: "em_pendingSubs e1 = em_pendingSubs em @ np1" "here em \<le> here e1" "same_modes em e1"
    using assms(2) grown_here by (blast elim: grownE)
  obtain np2 where 2: "em_pendingSubs e2 = em_pendingSubs e1 @ np2"
    using assms(3) by (blast elim: grownE)
  obtain np3 nc3 where 3: "em_pendingSubs e3 = em_pendingSubs e2 @ np3" "em_classTable e3 = em_classTable e2 @ nc3"
    "em_scratchCount e2 \<le> em_scratchCount e3" "here e2 \<le> here e3"
    "\<forall>pc. here e1 \<le> pc \<and> pc < here e2 \<longrightarrow> em_instrs e3 ! pc = em_instrs e2 ! pc"
    using assms(4) unfolding keeps_def by blast
  have subs: "runs x (ps_reversed sub) (job_real J + em_scratchCount e2) (job_sub J sub) (fst (snd (rx_instrs x ! ps_patchPc sub)))"
    if "sub \<in> set np2" for sub
  proof (rule runs_mono)
    show "runs x (ps_reversed sub) (job_real J + em_scratchCount e3) (job_sub J sub) (fst (snd (rx_instrs x ! ps_patchPc sub)))"
      using assms(1) that by (auto simp: fits_def 1(1) 2 3(1))
  qed (use 3(3) in simp)
  have "same_instr (em_instrs e2 ! pc) (rx_instrs x ! pc)" if "here e1 \<le> pc" "pc < here e2" for pc
  proof -
    have "same_instr (em_instrs e3 ! pc) (rx_instrs x ! pc)" using assms(1) that 1(2) 3(4) by (simp add: fits_def)
    then show ?thesis using 3(5) that by simp
  qed
  then show ?thesis
    using assms(1) 1 3 subs by (auto simp: fits_def 2 same_modes_def)
qed

lemma fits_suffix:
  assumes "fits J x em e3" and "grown em e1 w" and "em_pendingSubs e3 = em_pendingSubs e1 @ np"
  shows "fits J x e1 e3"
proof -
  obtain np1 where "em_pendingSubs e1 = em_pendingSubs em @ np1" "here em \<le> here e1" "same_modes em e1"
    using assms(2) grown_here by (blast elim: grownE)
  then show ?thesis using assms(1) by (auto simp: fits_def assms(3) same_modes_def)
qed

lemma fits_at:
  assumes "fits J x em em'" and "here em \<le> pc" and "pc < here em'" and "em_instrs em' ! pc = i" and "fst i \<noteq> LOOKAROUND"
  shows "at x pc i"
  using assms by (auto simp: fits_def at_def same_instr_def)

section \<open>Correct emissions\<close>

definition modes_of :: "emitter \<Rightarrow> modes" where
  "modes_of em = \<lparr>md_caseInsensitive = em_caseInsensitive em, md_dotAll = em_dotAll em, md_multiline = em_multiline em\<rparr>"

abbreviation low :: "job \<Rightarrow> emitter \<Rightarrow> nat" where
  "low J em \<equiv> job_real J + em_scratchCount em"

definition compiles :: "job \<Rightarrow> emission \<Rightarrow> (modes \<Rightarrow> bool \<Rightarrow> matcher) \<Rightarrow> bool" where
  "compiles J c F \<longleftrightarrow> (\<forall>em em' x. c em = Inr em' \<longrightarrow> fits J x em em' \<longrightarrow>
     realises x (em_reversed em) (low J em) (F (modes_of em) (em_reversed em)) (here em) (here em'))"

lemma compilesI:
  "(\<And>em em' x. c em = Inr em' \<Longrightarrow> fits J x em em' \<Longrightarrow>
     realises x (em_reversed em) (low J em) (F (modes_of em) (em_reversed em)) (here em) (here em')) \<Longrightarrow> compiles J c F"
  by (simp add: compiles_def)

lemma compilesD:
  "compiles J c F \<Longrightarrow> c em = Inr em' \<Longrightarrow> fits J x em em' \<Longrightarrow>
     realises x (em_reversed em) (low J em) (F (modes_of em) (em_reversed em)) (here em) (here em')"
  by (simp add: compiles_def)

lemma grown_modes: "grown em em' w \<Longrightarrow> modes_of em' = modes_of em \<and> em_reversed em' = em_reversed em"
  by (auto simp: modes_of_def same_modes_def elim!: grownE)

lemma grown_low: "grown em em' w \<Longrightarrow> low J em \<le> low J em'"
  by (auto elim!: grownE)

text \<open>A part of an emission, at the place it has in the whole.\<close>

lemma compiles_part:
  assumes "compiles J c F" and "grows c w" and "c e1 = Inr e2" and "fits J x em e3" and "grown em e1 w1" and "keeps (here e1) e2 e3"
  shows "realises x (em_reversed em) (low J e1) (F (modes_of em) (em_reversed em)) (here e1) (here e2)"
  using compilesD [OF assms(1,3) fits_part [OF assms(4,5) growsD [OF assms(2,3)] assms(6)]] grown_modes [OF assms(5)] by simp

lemma compiles_seq:
  assumes "compiles J c F" and "compiles J d G" and "grows c w" and "grows d w'"
  shows "compiles J (\<lambda>em. rbind (c em) d) (\<lambda>md b. m_seq (F md b) (G md b))"
proof (rule compilesI)
  fix em em' x
  assume "rbind (c em) d = Inr em'" and f: "fits J x em em'"
  then obtain e1 where e: "c em = Inr e1" "d e1 = Inr em'" by auto
  have g: "grown em e1 w" "grown e1 em' w'" using assms(3,4) e growsD by blast+
  have "realises x (em_reversed em) (low J em) (F (modes_of em) (em_reversed em)) (here em) (here e1)"
    using assms(1,3) e(1) f grown_refl keeps_grown [OF g(2)] by (rule compiles_part)
  moreover have "realises x (em_reversed em) (low J e1) (G (modes_of em) (em_reversed em)) (here e1) (here em')"
    using assms(2,4) e(2) f g(1) keeps_refl by (rule compiles_part)
  then have "realises x (em_reversed em) (low J em) (G (modes_of em) (em_reversed em)) (here e1) (here em')"
    by (rule realises_mono) (rule grown_low [OF g(1)])
  ultimately show "realises x (em_reversed em) (low J em) (m_seq (F (modes_of em) (em_reversed em)) (G (modes_of em) (em_reversed em)))
      (here em) (here em')"
    by (rule realises_seq)
qed

lemma compiles_skip: "compiles J Inr (\<lambda>md b. m_skip)"
  by (rule compilesI) (auto intro: realises_skip)

lemma compiles_rseq:
  "list_all2 (compiles J) cs Fs \<Longrightarrow> \<forall>c\<in>set cs. \<exists>w. grows c w
   \<Longrightarrow> compiles J (rseq cs) (\<lambda>md b. m_seqs (map (\<lambda>F. F md b) Fs)) \<and> (\<exists>w. grows (rseq cs) w)"
proof (induction rule: list_all2_induct)
  case Nil
  have "rseq [] = (Inr :: emission)" by (rule ext) simp
  then show ?case using compiles_skip grows_rseq [of "[]" "[]"] by auto
next
  case (Cons c cs F Fs)
  then obtain w w' where w: "grows c w" "grows (rseq cs) w'" by auto
  have "rseq (c # cs) = (\<lambda>em. rbind (c em) (rseq cs))" by (rule ext) simp
  moreover have "grows (\<lambda>em. rbind (c em) (rseq cs)) (w + w')"
    using w by (auto intro!: growsI intro: grown_trans growsD)
  ultimately show ?case using compiles_seq [OF Cons.hyps(1) _ w] Cons by auto
qed

lemma compiles_cong:
  assumes "compiles J c F" and "\<And>md b st outs. G md b st = Some outs \<Longrightarrow> F md b st = Some outs"
  shows "compiles J c G"
  using assms unfolding compiles_def realises_def by (simp add: view_def)

section \<open>Atoms\<close>

lemma fits_emit_at:
  "fits J x em (emit p a b em') \<Longrightarrow> here em \<le> here em' \<Longrightarrow> p \<noteq> LOOKAROUND \<Longrightarrow> at x (here em') (p, a, b)"
  by (rule fits_at) (auto simp: here_def)

lemma compiles_emit:
  assumes "\<And>em x. at x (here em) (p em, a em, b em) \<Longrightarrow> rx_input x = job_input J \<Longrightarrow> em_unicode em = job_unicode J
      \<Longrightarrow> rx_real x \<le> rx_slots x
      \<Longrightarrow> realises x (em_reversed em) (low J em) (F (modes_of em) (em_reversed em)) (here em) (Suc (here em))"
    and "\<And>em. p em \<noteq> LOOKAROUND"
  shows "compiles J (\<lambda>em. Inr (emit (p em) (a em) (b em) em)) F"
proof (rule compilesI)
  fix em em' x
  assume e: "Inr (emit (p em) (a em) (b em) em) = (Inr em' :: regex_error + emitter)" and f: "fits J x em em'"
  then have "at x (here em) (p em, a em, b em)" using fits_emit_at [of J x em] assms(2) by auto
  moreover have "rx_real x \<le> rx_slots x" using f by (simp add: fits_def)
  ultimately show "realises x (em_reversed em) (low J em) (F (modes_of em) (em_reversed em)) (here em) (here em')"
    using assms(1) [of x em] f e by (auto simp: fits_def)
qed

lemma compiles_char_op: "compiles J (\<lambda>em. Inr (emit CHAR_op c 0 em)) (\<lambda>md b. m_unit (job_input J) b (\<lambda>u. u = c))"
proof (rule compiles_emit)
  fix em x
  assume a: "at x (here em) (CHAR_op, c, 0)" and i: "rx_input x = job_input J"
  show "realises x (em_reversed em) (low J em) (m_unit (job_input J) (em_reversed em) (\<lambda>u. u = c)) (here em) (Suc (here em))"
    unfolding i [symmetric]
    by (rule realises_unit [OF a, where test = "\<lambda>u. num_eq u (Some c)"]) (simp_all add: num_eq_def)
qed simp

lemma compiles_chari: "compiles J (\<lambda>em. Inr (emit CHARI (asciiFold c) 0 em)) (\<lambda>md b. m_unit (job_input J) b (\<lambda>u. asciiFold u = asciiFold c))"
proof (rule compiles_emit)
  fix em x
  assume a: "at x (here em) (CHARI, asciiFold c, 0)" and i: "rx_input x = job_input J"
  show "realises x (em_reversed em) (low J em) (m_unit (job_input J) (em_reversed em) (\<lambda>u. asciiFold u = asciiFold c)) (here em) (Suc (here em))"
    unfolding i [symmetric]
    by (rule realises_unit [OF a, where test = "\<lambda>u. num_eq (map_option asciiFold u) (Some (asciiFold c))"]) (simp_all add: num_eq_def)
qed simp

lemma compiles_any:
  "compiles J (\<lambda>em. Inr (emit ANY (if em_dotAll em then 1 else 0) 0 em))
     (\<lambda>md b. m_unit (job_input J) b (\<lambda>u. md_dotAll md \<or> \<not> isLineTerminator (Some u)))"
proof (rule compiles_emit)
  fix em x
  assume a: "at x (here em) (ANY, if em_dotAll em then 1 else 0, 0)" and i: "rx_input x = job_input J"
  show "realises x (em_reversed em) (low J em)
      (m_unit (job_input J) (em_reversed em) (\<lambda>u. md_dotAll (modes_of em) \<or> \<not> isLineTerminator (Some u))) (here em) (Suc (here em))"
    unfolding i [symmetric]
    by (rule realises_unit [OF a, where test = "\<lambda>u. em_dotAll em \<or> \<not> isLineTerminator u"]) (simp_all add: modes_of_def)
qed simp

lemma compiles_bol:
  "compiles J (\<lambda>em. Inr (emit BOL (if em_multiline em then 1 else 0) 0 em)) (\<lambda>md b. m_test (at_bol (job_input J) (md_multiline md)))"
  by (rule compiles_emit) (auto intro!: realises_test simp: at_bol_def modes_of_def)

lemma compiles_eol:
  "compiles J (\<lambda>em. Inr (emit EOL (if em_multiline em then 1 else 0) 0 em)) (\<lambda>md b. m_test (at_eol (job_input J) (md_multiline md)))"
  by (rule compiles_emit) (auto intro!: realises_test simp: at_eol_def modes_of_def)

lemma not_word_outside: "sp \<le> 0 \<Longrightarrow> \<not> isWordChar (charCodeAt s (sp - 1))" "int (length s) \<le> sp \<Longrightarrow> \<not> isWordChar (charCodeAt s sp)"
  by (auto simp: charCodeAt_def isWordChar_def in_span_def)

lemma compiles_wbound:
  "compiles J (\<lambda>em. Inr (emit WBOUND (if neg then 1 else 0) 0 em)) (\<lambda>md b. m_test (\<lambda>sp. at_boundary (job_input J) sp \<noteq> neg))"
  by (rule compiles_emit) (auto intro!: realises_test simp: at_boundary_def not_word_outside Let_def)

lemma compiles_backref:
  "compiles J (\<lambda>em. Inr (emit BACKREF i (if em_caseInsensitive em then 1 else 0) em))
     (\<lambda>md b. m_backref (job_input J) b (md_caseInsensitive md) i)"
proof (rule compiles_emit)
  fix em x
  assume a: "at x (here em) (BACKREF, i, if em_caseInsensitive em then 1 else 0)" and i: "rx_input x = job_input J"
    and s: "rx_real x \<le> rx_slots x"
  have "(0 < (if em_caseInsensitive em then 1 else 0 :: nat)) = em_caseInsensitive em" by simp
  then show "realises x (em_reversed em) (low J em) (m_backref (job_input J) (em_reversed em) (md_caseInsensitive (modes_of em)) i)
      (here em) (Suc (here em))"
    using realises_backref [OF a s, of "em_reversed em" "low J em"] by (simp only: i modes_of_def modes.simps)
qed simp

subsection \<open>Classes\<close>

lemma class_at_append: "class_at tab off rs \<Longrightarrow> class_at (tab @ extra) off rs"
  by (auto simp: class_at_def nth_append)

lemma class_at_added:
  "class_at (tab @ [length rs] @ concat (map (\<lambda>(lo, hi). [lo, hi]) rs)) (length tab) rs"
proof -
  let ?f = "concat (map (\<lambda>(lo, hi). [lo, hi]) rs)"
  have len: "length ?f = 2 * length rs" by (induction rs) auto
  have nth: "i < length rs \<Longrightarrow> ?f ! (2 * i) = fst (rs ! i) \<and> ?f ! (2 * i + 1) = snd (rs ! i)" for i
  proof (induction rs arbitrary: i)
    case (Cons r rs)
    then show ?case by (cases i) (auto split: prod.split)
  qed simp
  show ?thesis using len nth by (auto simp: class_at_def nth_append nth_Cons')
qed

lemma normalize_ranges_props:
  assumes "ranges_ok rs"
  shows "ranges_sorted (normalize_ranges rs)" "in_ranges (normalize_ranges rs) c \<longleftrightarrow> in_ranges rs c"
proof -
  have "ranges_ok (sort rs)" using assms by (simp add: ranges_ok_def list_all_iff)
  then have "ranges_sorted (fold push_range (sort rs) []) \<and> (\<forall>c. in_ranges (fold push_range (sort rs) []) c \<longleftrightarrow> in_ranges (sort rs) c)"
    using fold_push_range [of "[]" "sort rs"] by simp
  then show "ranges_sorted (normalize_ranges rs)" "in_ranges (normalize_ranges rs) c \<longleftrightarrow> in_ranges rs c"
    by (simp_all add: normalize_ranges_def in_ranges_sort)
qed

text \<open>An emitted class instruction finds its class in the finished table.\<close>

lemma emit_class_fits:
  assumes "fits J x em (emit_class p rs neg em)" and "ranges_ok rs" and "p \<noteq> LOOKAROUND"
  obtains off where "at x (here em) (p, off, if neg then 1 else 0)"
    "\<And>u. classMatch (rx_tab x) off (Some u) neg \<longleftrightarrow> in_ranges rs u \<noteq> neg"
proof
  let ?off = "length (em_classTable em)"
  let ?tab = "em_classTable em @ [length (normalize_ranges rs)] @ concat (map (\<lambda>(lo, hi). [lo, hi]) (normalize_ranges rs))"
  have e: "emit_class p rs neg em = emit p ?off (if neg then 1 else 0) (em\<lparr>em_classTable := ?tab\<rparr>)"
    by (simp add: emit_class_def addClass_def Let_def)
  have h: "here (em\<lparr>em_classTable := ?tab\<rparr>) = here em" by (simp add: here_def)
  show "at x (here em) (p, ?off, if neg then 1 else 0)"
    using fits_emit_at [OF assms(1) [unfolded e] _ assms(3)] unfolding h by blast
  obtain extra where "rx_tab x = ?tab @ extra" using assms(1) unfolding e fits_def by auto
  then have "class_at (rx_tab x) ?off (normalize_ranges rs)" using class_at_append [OF class_at_added] by metis
  then show "classMatch (rx_tab x) ?off (Some u) neg \<longleftrightarrow> in_ranges rs u \<noteq> neg" for u
    using classMatch_correct normalize_ranges_props [OF assms(2)] by simp
qed

lemma here_emit_class [simp]: "here (emit_class p rs neg em) = Suc (here em)"
  by (simp add: emit_class_def addClass_def Let_def) (simp add: here_def)

lemma compiles_class:
  assumes "\<And>em. em_unicode em = job_unicode J \<Longrightarrow> ranges_ok (R em)"
    and "\<And>em u. em_unicode em = job_unicode J \<Longrightarrow> u \<in> set (job_input J) \<Longrightarrow> in_ranges (R em) u \<longleftrightarrow> ok (modes_of em) u"
  shows "compiles J (\<lambda>em. Inr (emit_class CLASS (R em) neg em)) (\<lambda>md b. m_unit (job_input J) b (\<lambda>u. ok md u \<noteq> neg))"
proof (rule compilesI)
  fix em em' x
  assume "Inr (emit_class CLASS (R em) neg em) = (Inr em' :: regex_error + emitter)" and f: "fits J x em em'"
  then have em': "em' = emit_class CLASS (R em) neg em" by simp
  have i: "rx_input x = job_input J" and un: "em_unicode em = job_unicode J" using f by (simp_all add: fits_def)
  obtain off where a: "at x (here em) (CLASS, off, if neg then 1 else 0)"
    and m: "\<And>u. classMatch (rx_tab x) off (Some u) neg \<longleftrightarrow> in_ranges (R em) u \<noteq> neg"
    using f [unfolded em'] assms(1) [OF un] by (rule emit_class_fits) simp_all
  have "realises x (em_reversed em) (low J em) (m_unit (rx_input x) (em_reversed em) (\<lambda>u. ok (modes_of em) u \<noteq> neg)) (here em) (Suc (here em))"
    by (rule realises_unit [OF a, where test = "\<lambda>u. classMatch (rx_tab x) off u neg"])
      (use m assms(2) [OF un] i in auto)
  then show "realises x (em_reversed em) (low J em) (m_unit (job_input J) (em_reversed em) (\<lambda>u. ok (modes_of em) u \<noteq> neg)) (here em) (here em')"
    by (simp add: em' i)
qed

lemma compiles_cpclass:
  assumes "\<And>em. ranges_ok (R em)" and "\<And>em u. in_ranges (R em) u \<longleftrightarrow> ok (modes_of em) u"
  shows "compiles J (\<lambda>em. Inr (emit_class CPCLASS (R em) neg em)) (\<lambda>md b. m_point (job_input J) b (\<lambda>u. ok md u \<noteq> neg))"
proof (rule compilesI)
  fix em em' x
  assume "Inr (emit_class CPCLASS (R em) neg em) = (Inr em' :: regex_error + emitter)" and f: "fits J x em em'"
  then have em': "em' = emit_class CPCLASS (R em) neg em" by simp
  have i: "rx_input x = job_input J" using f by (simp add: fits_def)
  obtain off where a: "at x (here em) (CPCLASS, off, if neg then 1 else 0)"
    and m: "\<And>u. classMatch (rx_tab x) off (Some u) neg \<longleftrightarrow> in_ranges (R em) u \<noteq> neg"
    using f [unfolded em'] assms(1) by (rule emit_class_fits) simp_all
  have "realises x (em_reversed em) (low J em) (m_point (rx_input x) (em_reversed em) (\<lambda>u. ok (modes_of em) u \<noteq> neg)) (here em) (Suc (here em))"
    by (rule realises_point [OF a]) (use m assms(2) in auto)
  then show "realises x (em_reversed em) (low J em) (m_point (job_input J) (em_reversed em) (\<lambda>u. ok (modes_of em) u \<noteq> neg)) (here em) (here em')"
    by (simp add: em' i)
qed

section \<open>Constructs\<close>

lemma here_instrs: "length (em_instrs em) = here em"
  by (simp add: here_def)

lemma here_scratch [simp]: "here (em\<lparr>em_scratchCount := k\<rparr>) = here em"
  by (simp add: here_def)

lemma here_alloc [simp]: "here (snd (allocScratch em)) = here em" and fst_alloc: "fst (allocScratch em) = em_scratchBase em + em_scratchCount em"
  by (simp_all add: allocScratch_def here_def)

lemma compiles_opt:
  assumes "compiles J c F" and "grows c w"
  shows "compiles J (compile_opt g c) (\<lambda>md b. m_opt g (F md b))"
proof (rule compilesI)
  fix em em' x
  assume o: "compile_opt g c em = Inr em'" and f: "fits J x em em'"
  define e0 where "e0 = emit SPLIT 0 0 em"
  obtain e1 where e1: "c e0 = Inr e1" and em': "em' = patch_split (here em) g (here e0) (here e1) e1"
    using o by (auto simp: compile_opt_def Let_def e0_def)
  have g0: "grown em e0 0" by (simp add: e0_def grown_emit grown_refl)
  have g1: "grown e0 e1 w" using assms(2) e1 by (rule growsD)
  have h: "here e0 = Suc (here em)" "here e0 \<le> here e1" using grown_here [OF g1] by (simp_all add: e0_def)
  have body: "realises x (em_reversed em) (low J e0) (F (modes_of em) (em_reversed em)) (here e0) (here e1)"
    using assms e1 f g0 by (rule compiles_part) (simp add: em' keeps_patch_split keeps_refl h)
  have "em_instrs e1 ! here em = (SPLIT, 0, 0)"
    using keeps_grown [OF g1, of 0] by (simp add: keeps_def e0_def nth_append here_instrs)
  then have "at x (here em) (SPLIT, if g then (here e0, here e1) else (here e1, here e0))"
    using h by (intro fits_at [OF f]) (simp_all add: em' patch_split_nth)
  then show "realises x (em_reversed em) (low J em) (m_opt g (F (modes_of em) (em_reversed em))) (here em) (here em')"
    using realises_opt body by (simp add: em' e0_def)
qed

text \<open>The capture slots of a node, and of everything a quantifier over it clears, are real ones.\<close>

definition span_ok :: "nat \<Rightarrow> re_node \<Rightarrow> bool" where
  "span_ok N n \<longleftrightarrow> (\<forall>l h. captureSpan n = Some (l, h) \<longrightarrow> 2 * h + 1 < N)"

lemma fits_clear:
  assumes "fits J x em e3" and "span_ok (job_real J) n" and "grown em e0 w" and "keeps (here e0) (emitClearForBody n e0) e3"
  shows "realises x back lo (m_clear n) (here e0) (here (emitClearForBody n e0))"
proof (rule realises_clear)
  have f: "fits J x e0 (emitClearForBody n e0)"
    using assms(1,3) grown_clear [OF grown_refl] assms(4) by (rule fits_part)
  fix l h
  assume s: "captureSpan n = Some (l, h)"
  then have e: "emitClearForBody n e0 = emit CLEAR (2 * l) (2 * h + 1) e0" by (simp add: emitClearForBody_def)
  show "at x (here e0) (CLEAR, 2 * l, 2 * h + 1) \<and> 2 * h + 1 < rx_real x \<and> here (emitClearForBody n e0) = Suc (here e0)"
    using fits_emit_at [OF f [unfolded e]] s assms(1,2) by (auto simp: e span_ok_def fits_def)
qed (simp add: emitClearForBody_def)

text \<open>The body of a quantifier: the captures cleared, then the node.\<close>

lemma compiles_body:
  assumes "compiles J c F" and "grows c w" and "span_ok (job_real J) n" and "fits J x em e3" and "grown em e0 w0"
    and "c (emitClearForBody n e0) = Inr e1" and "keeps (here e0) e1 e3"
  shows "realises x (em_reversed em) (low J e0) (m_seq (m_clear n) (F (modes_of em) (em_reversed em))) (here e0) (here e1)"
proof (rule realises_seq)
  let ?e = "emitClearForBody n e0"
  have g: "grown e0 ?e 0" using grown_clear [OF grown_refl] .
  have g1: "grown ?e e1 w" using assms(2,6) by (rule growsD)
  have "keeps (here e0) ?e e3" using keeps_grown [OF g1] assms(7) by (rule keeps_trans)
  with assms(4,3,5) show "realises x (em_reversed em) (low J e0) (m_clear n) (here e0) (here ?e)" by (rule fits_clear)
  have "realises x (em_reversed em) (low J ?e) (F (modes_of em) (em_reversed em)) (here ?e) (here e1)"
    using assms(1,2,6,4) grown_trans [OF assms(5) g] keeps_mono [OF assms(7) grown_here [OF g]] by (rule compiles_part)
  moreover have "low J ?e = low J e0" by (simp add: emitClearForBody_def split: option.split)
  ultimately show "realises x (em_reversed em) (low J e0) (F (modes_of em) (em_reversed em)) (here ?e) (here e1)" by simp
qed

lemma compiles_star:
  assumes "compiles J c F" and "grows c w" and "span_ok (job_real J) n" and "\<And>md b. moves b (\<not> canMatchEmpty n) (F md b)"
  shows "compiles J (compile_star n g c) (\<lambda>md b. m_star (job_input J) b g (m_seq (m_clear n) (F md b)))"
proof (rule compilesI)
  fix em em' x
  assume s: "compile_star n g c em = Inr em'" and f: "fits J x em em'"
  let ?f = "m_seq (m_clear n) (F (modes_of em) (em_reversed em))"
  show "realises x (em_reversed em) (low J em) (m_star (job_input J) (em_reversed em) g ?f) (here em) (here em')"
  proof (cases "canMatchEmpty n")
    case False
    define e0 where "e0 = emit SPLIT 0 0 em"
    obtain e1 where e1: "c (emitClearForBody n e0) = Inr e1"
      and em': "em' = patch_split (here em) g (here e0) (Suc (here e1)) (emit JMP (here em) 0 e1)"
      using s False by (auto simp: compile_star_def Let_def e0_def)
    have g0: "grown em e0 0" by (simp add: e0_def grown_emit grown_refl)
    have g1: "grown e0 e1 w" using assms(2) e1 by (rule grows_after) (intro grown_clear grown_refl)
    have h: "here e0 = Suc (here em)" "here e0 \<le> here e1" using grown_here [OF g1] by (simp_all add: e0_def)
    have body: "realises x (em_reversed em) (low J e0) ?f (here e0) (here e1)"
      using assms(1-3) f g0 e1 by (rule compiles_body) (simp add: em' keeps_patch_split keeps_emit keeps_refl h)
    have i: "em_instrs e1 ! here em = (SPLIT, 0, 0)"
      using keeps_grown [OF g1, of 0] by (simp add: keeps_def e0_def nth_append here_instrs)
    have "at x (here em) (SPLIT, if g then (here e0, here em') else (here em', here e0))"
      using h i by (intro fits_at [OF f]) (simp_all add: em' patch_split_nth nth_append here_instrs)
    moreover have j: "at x (here e1) (JMP, here em, 0)"
      using h by (intro fits_at [OF f]) (simp_all add: em' patch_split_nth nth_append here_instrs)
    moreover have "realises x (em_reversed em) (low J em) ?f (here e0) (here em)"
      using realises_jumped [OF body j] by (simp add: e0_def)
    moreover have "moves (em_reversed em) True ?f"
      using moves_seq [OF moves_clear assms(4)] False by simp
    ultimately show ?thesis by (intro realises_star loop_head_plain)
  next
    case True
    define a where "a = em_scratchBase em + em_scratchCount em"
    define e0 where "e0 = emit SPLIT 0 0 (emit SAVE a 0 (snd (allocScratch em)))"
    obtain e1 where e1: "c (emitClearForBody n e0) = Inr e1"
      and em': "em' = patch_split (Suc (here em)) g (here e0) (Suc (Suc (here e1))) (emit JMP (here em) 0 (emit PROGRESS a 0 e1))"
      using s True by (auto simp: compile_star_def Let_def e0_def a_def allocScratch_def)
    have g0: "grown em e0 0" by (simp add: e0_def grown_emit grown_refl grown_alloc)
    have g1: "grown e0 e1 w" using assms(2) e1 by (rule grows_after) (intro grown_clear grown_refl)
    have h: "here e0 = Suc (Suc (here em))" "here e0 \<le> here e1" using grown_here [OF g1] by (simp_all add: e0_def)
    have r: "em_scratchBase em = job_real J" "rx_real x = job_real J" using f by (simp_all add: fits_def)
    have body: "realises x (em_reversed em) (low J e0) ?f (here e0) (here e1)"
      using assms(1-3) f g0 e1 by (rule compiles_body) (simp add: em' keeps_patch_split keeps_emit keeps_refl h)
    have l: "low J e0 = Suc a" by (simp add: e0_def allocScratch_def a_def r)
    have i: "em_instrs e1 ! Suc (here em) = (SPLIT, 0, 0)" "em_instrs e1 ! here em = (SAVE, a, 0)"
      using keeps_grown [OF g1, of 0] by (simp_all add: keeps_def e0_def nth_append here_instrs)
    have "em_scratchCount e1 \<le> em_scratchCount em'" by (simp add: em' patch_split_def)
    then have slot: "a < rx_slots x" using f l grown_low [OF g1, of J] by (simp add: fits_def em')
    have 1: "at x (here em) (SAVE, a, 0)"
      using h i by (intro fits_at [OF f]) (simp_all add: em' patch_split_nth nth_append here_instrs)
    have 2: "at x (Suc (here em)) (SPLIT, if g then (here e0, here em') else (here em', here e0))"
      using h i by (intro fits_at [OF f]) (simp_all add: em' patch_split_nth nth_append here_instrs)
    have 3: "at x (here e1) (PROGRESS, a, 0)"
      using h by (intro fits_at [OF f]) (simp_all add: em' patch_split_nth nth_append here_instrs)
    have 4: "at x (Suc (here e1)) (JMP, here em, 0)"
      using h by (intro fits_at [OF f]) (simp_all add: em' patch_split_nth nth_append here_instrs)
    show ?thesis
      using loop_head_guarded [OF 1 _ slot _ 2 body [unfolded l] 3 4, of "low J em"]
      by (intro realises_star) (simp add: a_def r)
  qed
qed

lemma compiles_plus:
  assumes "compiles J c F" and "grows c w" and "span_ok (job_real J) n" and "\<And>md b. moves b (\<not> canMatchEmpty n) (F md b)"
  shows "compiles J (compile_plus n g c)
    (\<lambda>md b. m_seq (m_seq (m_clear n) (F md b)) (m_star (job_input J) b g (m_seq (m_clear n) (F md b))))"
proof (rule compilesI)
  fix em em' x
  assume s: "compile_plus n g c em = Inr em'" and f: "fits J x em em'"
  let ?f = "m_seq (m_clear n) (F (modes_of em) (em_reversed em))"
  let ?star = "m_star (job_input J) (em_reversed em) g ?f"
  show "realises x (em_reversed em) (low J em) (m_seq ?f ?star) (here em) (here em')"
  proof (cases "canMatchEmpty n")
    case True
    define e0 where "e0 = snd (allocScratch em)"
    obtain e1 where e1: "c (emitClearForBody n e0) = Inr e1" and st: "compile_star n g c e1 = Inr em'"
      using s True by (auto simp: compile_plus_def Let_def e0_def)
    have g0: "grown em e0 0" by (simp add: e0_def grown_refl grown_alloc)
    have g1: "grown e0 e1 w" using assms(2) e1 by (rule grows_after) (intro grown_clear grown_refl)
    have g2: "grown e1 em' w" using grows_star [OF assms(2)] st by (rule growsD)
    have "realises x (em_reversed em) (low J e0) ?f (here e0) (here e1)"
      using assms(1-3) f g0 e1 keeps_grown [OF g2] by (rule compiles_body)
    then have 1: "realises x (em_reversed em) (low J em) ?f (here em) (here e1)"
      using realises_mono grown_low [OF g0, of J] by (simp add: e0_def)
    have "realises x (em_reversed em) (low J e1) ?star (here e1) (here em')"
      using compiles_star [OF assms] grows_star [OF assms(2)] st f grown_trans [OF g0 g1] keeps_refl by (rule compiles_part)
    then have "realises x (em_reversed em) (low J em) ?star (here e1) (here em')"
      by (rule realises_mono) (rule grown_low [OF grown_trans [OF g0 g1]])
    with 1 show ?thesis by (rule realises_seq)
  next
    case False
    obtain e1 where e1: "c (emitClearForBody n em) = Inr e1"
      and em': "em' = patch_split (here e1) g (here em) (Suc (here e1)) (emit SPLIT 0 0 e1)"
      using s False by (auto simp: compile_plus_def Let_def)
    have g1: "grown em e1 w" using assms(2) e1 by (rule grows_after) (intro grown_clear grown_refl)
    have body: "realises x (em_reversed em) (low J em) ?f (here em) (here e1)"
      using assms(1-3) f grown_refl e1 by (rule compiles_body) (simp add: em' keeps_patch_split keeps_emit keeps_refl)
    have "at x (here e1) (SPLIT, if g then (here em, here em') else (here em', here em))"
      using grown_here [OF g1] by (intro fits_at [OF f]) (simp_all add: em' patch_split_nth nth_append here_instrs)
    moreover have "moves (em_reversed em) True ?f"
      using moves_seq [OF moves_clear assms(4)] False by simp
    ultimately have "realises x (em_reversed em) (low J em) ?star (here e1) (here em')"
      using body by (intro realises_star loop_head_plain)
    with body show ?thesis by (rule realises_seq)
  qed
qed

lemma compiles_repeat:
  assumes "compiles J c F" and "grows c w" and "span_ok (job_real J) n" and "\<And>md b. moves b (\<not> canMatchEmpty n) (F md b)"
  shows "compiles J (compileRepeat n mn mx g c) (\<lambda>md b. m_seqs (replicate mn (F md b) @
       (if mx = - 1 then [m_star (job_input J) b g (m_seq (m_clear n) (F md b))] else replicate (nat (mx - int mn)) (m_opt g (F md b)))))"
proof -
  let ?star = "\<lambda>md b. m_star (job_input J) b g (m_seq (m_clear n) (F md b))"
  define cs where "cs = replicate mn c @ (if mx = - 1 then [compile_star n g c] else replicate (nat (mx - int mn)) (compile_opt g c))"
  define Fs where "Fs = replicate mn F @ (if mx = - 1 then [?star] else replicate (nat (mx - int mn)) (\<lambda>md b. m_opt g (F md b)))"
  have "list_all2 (compiles J) cs Fs"
    using assms compiles_star [OF assms, of g] compiles_opt [OF assms(1,2), of g]
    by (auto simp: cs_def Fs_def list_all2_conv_all_nth nth_append)
  moreover have "\<forall>c\<in>set cs. \<exists>w. grows c w"
    using assms(2) grows_star [OF assms(2), of n g] grows_opt [OF assms(2), of g] by (auto simp: cs_def)
  ultimately have r: "compiles J (rseq cs) (\<lambda>md b. m_seqs (map (\<lambda>F. F md b) Fs))" using compiles_rseq by blast
  have "compileRepeat n mn mx g c em = Inr em' \<Longrightarrow> rseq cs em = Inr em'" for em em'
    by (auto simp: compileRepeat_def cs_def rseq_def rfold_append split: if_splits)
  with r show ?thesis
    unfolding compiles_def by (fastforce simp: Fs_def)
qed

lemma compiles_group:
  assumes "compiles J c F" and "grows c w" and "2 * nat i + 1 < job_real J"
  shows "compiles J (compile_group i c) (\<lambda>md b. m_group b i (F md b))"
proof (cases "i < 0")
  case True
  then have "compile_group i c = c" by (rule_tac ext) (simp add: compile_group_def)
  with True assms(1) show ?thesis by (simp add: m_group_def)
next
  case False
  show ?thesis
  proof (rule compilesI)
    fix em em' x
    assume s: "compile_group i c em = Inr em'" and f: "fits J x em em'"
    define p q where "p = (if em_reversed em then 2 * nat i + 1 else 2 * nat i)" and "q = (if em_reversed em then 2 * nat i else 2 * nat i + 1)"
    define e0 where "e0 = emit SAVE p 0 em"
    obtain e1 where e1: "c e0 = Inr e1" and em': "em' = emit SAVE q 0 e1"
      using s False by (auto simp: compile_group_def Let_def e0_def p_def q_def)
    have g0: "grown em e0 0" by (simp add: e0_def grown_emit grown_refl)
    have g1: "grown e0 e1 w" using assms(2) e1 by (rule growsD)
    have h: "here e0 = Suc (here em)" "here e0 \<le> here e1" using grown_here [OF g1] by (simp_all add: e0_def)
    have r: "rx_real x = job_real J" using f by (simp add: fits_def)
    have "em_instrs e1 ! here em = (SAVE, p, 0)"
      using keeps_grown [OF g1, of 0] by (simp add: keeps_def e0_def nth_append here_instrs)
    then have "at x (here em) (SAVE, p, 0)" "at x (here e1) (SAVE, q, 0)"
      using h by (intro fits_at [OF f]; simp add: em' nth_append here_instrs)+
    then have sv: "realises x (em_reversed em) (low J em) (m_save p) (here em) (here e0)"
      "realises x (em_reversed em) (low J em) (m_save q) (here e1) (here em')"
      using assms(3) r h by (auto intro!: realises_save simp: p_def q_def em')
    have "realises x (em_reversed em) (low J e0) (F (modes_of em) (em_reversed em)) (here e0) (here e1)"
      using assms(1,2) e1 f g0 by (rule compiles_part) (simp add: em' keeps_emit keeps_refl)
    then have "realises x (em_reversed em) (low J em) (F (modes_of em) (em_reversed em)) (here e0) (here e1)"
      by (simp add: e0_def)
    from realises_seq [OF sv(1) realises_seq [OF this sv(2)]] False
    show "realises x (em_reversed em) (low J em) (m_group (em_reversed em) i (F (modes_of em) (em_reversed em))) (here em) (here em')"
      by (simp add: m_group_def p_def q_def)
  qed
qed

lemma compiles_modgroup:
  assumes "compiles J c F" and "grows c w"
  shows "compiles J (compile_modgroup ad rm c) (\<lambda>md b. F (modify ad rm md) b)"
proof (rule compilesI)
  fix em em' x
  assume s: "compile_modgroup ad rm c em = Inr em'" and f: "fits J x em em'"
  define e0 where "e0 = set_modes (apply_modifier ad rm RE_FLAG_I (em_caseInsensitive em))
     (apply_modifier ad rm RE_FLAG_S (em_dotAll em)) (apply_modifier ad rm RE_FLAG_M (em_multiline em)) em"
  obtain e1 where e1: "c e0 = Inr e1" and em': "em' = set_modes (em_caseInsensitive em) (em_dotAll em) (em_multiline em) e1"
    using s by (auto simp: compile_modgroup_def e0_def)
  have "fits J x e0 e1" using f by (simp add: fits_def em' e0_def set_modes_def here_def)
  from compilesD [OF assms(1) e1 this]
  show "realises x (em_reversed em) (low J em) (F (modify ad rm (modes_of em)) (em_reversed em)) (here em) (here em')"
    by (simp add: em' e0_def set_modes_def here_def modes_of_def modify_def)
qed

lemma compiles_lookaround:
  assumes "\<And>em. job_sub J \<lparr>ps_node = (if beh then reverseNode n else n), ps_patchPc = here em, ps_reversed = beh,
      ps_caseInsensitive = em_caseInsensitive em, ps_dotAll = em_dotAll em, ps_multiline = em_multiline em\<rparr> = F (modes_of em) beh"
  shows "compiles J (\<lambda>em. Inr (queue_lookaround n neg beh em)) (\<lambda>md b. m_look neg (F md beh))"
proof (rule compilesI)
  fix em em' x
  let ?b = "(if neg then 1 else 0) OR (if beh then 2 else 0) :: nat"
  let ?sub = "\<lparr>ps_node = (if beh then reverseNode n else n), ps_patchPc = here em, ps_reversed = beh,
      ps_caseInsensitive = em_caseInsensitive em, ps_dotAll = em_dotAll em, ps_multiline = em_multiline em\<rparr>"
  assume "Inr (queue_lookaround n neg beh em) = (Inr em' :: regex_error + emitter)" and f: "fits J x em em'"
  then have em': "em' = (emit LOOKAROUND 0 ?b em)\<lparr>em_pendingSubs := em_pendingSubs em @ [?sub]\<rparr>"
    by (simp add: queue_lookaround_def Let_def)
  have h: "here em' = Suc (here em)" by (simp add: em' here_def)
  have "same_instr (em_instrs em' ! here em) (rx_instrs x ! here em)" "here em < length (rx_instrs x)"
    using f h by (auto simp: fits_def)
  then obtain a where a: "at x (here em) (LOOKAROUND, a, ?b)"
    by (cases "rx_instrs x ! here em") (auto simp: em' at_def same_instr_def nth_append here_instrs)
  have "runs x beh (low J em') (job_sub J ?sub) (fst (snd (rx_instrs x ! here em)))"
    using f by (simp add: fits_def em')
  moreover have "fst (snd (rx_instrs x ! here em)) = a" using a by (simp add: at_def)
  ultimately have "runs x beh (low J em') (F (modes_of em) beh) a" using assms by simp
  then have "runs x beh (low J em) (F (modes_of em) beh) a" by (simp add: em')
  then have "realises x (em_reversed em) (low J em) (m_look neg (F (modes_of em) beh)) (here em) (Suc (here em))"
    by (intro realises_look [OF a]) simp_all
  then show "realises x (em_reversed em) (low J em) (m_look neg (F (modes_of em) beh)) (here em) (here em')"
    by (simp add: h)
qed

section \<open>Alternations\<close>

lemma patch_all_fields [simp]:
  "em_classTable (patch_all js em) = em_classTable em" "em_pendingSubs (patch_all js em) = em_pendingSubs em"
  "em_scratchCount (patch_all js em) = em_scratchCount em"
proof -
  have "em_classTable (fold (\<lambda>j. patchA j t) js em) = em_classTable em \<and> em_pendingSubs (fold (\<lambda>j. patchA j t) js em) = em_pendingSubs em
      \<and> em_scratchCount (fold (\<lambda>j. patchA j t) js em) = em_scratchCount em" for t
    by (induction js arbitrary: em) simp_all
  then show "em_classTable (patch_all js em) = em_classTable em" "em_pendingSubs (patch_all js em) = em_pendingSubs em"
    "em_scratchCount (patch_all js em) = em_scratchCount em"
    by (simp_all add: patch_all_def Let_def)
qed

lemma patch_all_nth:
  assumes "i < here em"
  shows "em_instrs (patch_all js em) ! i =
    (if i \<in> set js then (fst (em_instrs em ! i), here em, snd (snd (em_instrs em ! i))) else em_instrs em ! i)"
proof -
  have "i < here em \<Longrightarrow> em_instrs (fold (\<lambda>j. patchA j t) js em) ! i =
      (if i \<in> set js then (fst (em_instrs em ! i), t, snd (snd (em_instrs em ! i))) else em_instrs em ! i)" for t
    by (induction js arbitrary: em) (auto simp: patchA_nth)
  with assms show ?thesis by (simp add: patch_all_def Let_def)
qed

text \<open>The jumps an alternation leaves to patch are its own.\<close>

lemma alt_loop_jumps:
  assumes "alt_loop cs js em = Inr (js', em1)" and "\<forall>c\<in>set cs. \<exists>w. grows c w"
  shows "(\<exists>new. js' = js @ new \<and> (\<forall>j\<in>set new. here em \<le> j)) \<and> (\<exists>w. grown em em1 w)"
  using assms
proof (induction cs js em rule: alt_loop.induct)
  case (1 js em)
  then show ?case using grown_refl by auto
next
  case (2 c js em)
  then show ?case by (auto intro: growsD)
next
  case (3 c c' cs js em)
  define e0 where "e0 = patchA (here em) (here (emit SPLIT 0 0 em)) (emit SPLIT 0 0 em)"
  from "3.prems"(1) obtain e1 where e1: "c e0 = Inr e1" by (auto simp: Let_def e0_def)
  define e2 where "e2 = patchB (here em) (here (emit JMP 0 0 e1)) (emit JMP 0 0 e1)"
  have l: "alt_loop (c' # cs) (js @ [here e1]) e2 = Inr (js', em1)"
    using "3.prems"(1) e1 by (simp add: Let_def e0_def e2_def)
  obtain w where "grows c w" using "3.prems"(2) by auto
  then have g1: "grown em e1 w" using e1 by (rule grows_after) (simp add: e0_def grown_patchA grown_emit grown_refl)
  then have g2: "grown em e2 w" by (simp add: e2_def grown_patchB grown_emit)
  have "(\<exists>new. js' = (js @ [here e1]) @ new \<and> (\<forall>j\<in>set new. here e2 \<le> j)) \<and> (\<exists>w. grown e2 em1 w)"
    unfolding e2_def
    by (rule "3.IH" [OF refl refl refl e1 [unfolded e0_def] refl refl refl l [unfolded e2_def]]) (use "3.prems"(2) in auto)
  then obtain new w' where n: "js' = js @ here e1 # new" "\<forall>j\<in>set new. here e2 \<le> j" "grown e2 em1 w'" by auto
  have "\<forall>j\<in>set (here e1 # new). here em \<le> j"
    using n(2) grown_here [OF g1] grown_here [OF g2] by auto
  then show ?case using n(1) grown_trans [OF g2 n(3)] by blast
qed

lemma realises_alt_loop:
  assumes "alt_loop cs js em = Inr (js', em1)" and "list_all2 (compiles J) cs Fs" and "\<forall>c\<in>set cs. \<exists>w. grows c w"
    and "fits J x em (patch_all js' em1)" and "\<forall>j\<in>set js. j < here em" and "cs \<noteq> []"
  shows "realises x (em_reversed em) (low J em) (m_alts (map (\<lambda>F. F (modes_of em) (em_reversed em)) Fs)) (here em) (here em1)"
  using assms
proof (induction cs js em arbitrary: Fs rule: alt_loop.induct)
  case (2 c js em)
  then obtain F where F: "Fs = [F]" "compiles J c F" by (auto simp: list_all2_Cons1)
  obtain w where w: "grows c w" using "2.prems"(3) by auto
  have c: "c em = Inr em1" and js: "js' = js" using "2.prems"(1) by auto
  have "realises x (em_reversed em) (low J em) (F (modes_of em) (em_reversed em)) (here em) (here em1)"
    using F(2) w c "2.prems"(4) grown_refl
    by (rule compiles_part) (use "2.prems"(5) js in \<open>auto intro: keeps_patch_all keeps_refl\<close>)
  then show ?case by (simp add: F(1))
next
  case (3 c c' cs js em)
  obtain F G Gs where F: "Fs = F # G # Gs" "compiles J c F" "list_all2 (compiles J) (c' # cs) (G # Gs)"
    using "3.prems"(2) by (auto simp: list_all2_Cons1)
  define e0 where "e0 = patchA (here em) (here (emit SPLIT 0 0 em)) (emit SPLIT 0 0 em)"
  from "3.prems"(1) obtain e1 where e1: "c e0 = Inr e1" by (auto simp: Let_def e0_def)
  define e2 where "e2 = patchB (here em) (here (emit JMP 0 0 e1)) (emit JMP 0 0 e1)"
  have l: "alt_loop (c' # cs) (js @ [here e1]) e2 = Inr (js', em1)"
    using "3.prems"(1) e1 by (simp add: Let_def e0_def e2_def)
  obtain w where w: "grows c w" using "3.prems"(3) by auto
  have g0: "grown em e0 0" by (simp add: e0_def grown_patchA grown_emit grown_refl)
  have g1: "grown e0 e1 w" using w e1 by (rule growsD)
  have g2: "grown em e2 w" unfolding e2_def
    by (intro grown_patchB grown_emit) (use grown_trans [OF g0 g1] in simp_all)
  obtain new w' where n: "js' = js @ here e1 # new" "\<forall>j\<in>set new. here e2 \<le> j" "grown e2 em1 w'"
    using alt_loop_jumps [OF l] "3.prems"(3) by auto
  have h: "here e0 = Suc (here em)" "here e0 \<le> here e1" "here e2 = Suc (here e1)" "here e2 \<le> here em1"
    using grown_here [OF g1] grown_here [OF n(3)] by (simp_all add: e0_def e2_def)
  let ?E = "patch_all js' em1"
  have k2: "keeps 0 e2 em1" using n(3) by (rule keeps_grown)
  have i2: "em_instrs em1 ! pc = em_instrs e2 ! pc" if "pc < here e2" for pc using k2 that by (simp add: keeps_def)
  have i0: "em_instrs e1 ! here em = (SPLIT, here e0, 0)"
    using keeps_grown [OF g1, of 0] h(1) by (simp add: keeps_def e0_def patchA_nth nth_append here_instrs)
  have js': "here em \<notin> set js'" using n h "3.prems"(5) by auto
  have split: "at x (here em) (SPLIT, here e0, here e2)"
    using h i0 js' by (intro fits_at [OF "3.prems"(4)]) (simp_all add: patch_all_nth i2 e2_def patchB_nth nth_append here_instrs)
  have jump: "at x (here e1) (JMP, here em1, 0)"
    using h n(1) by (intro fits_at [OF "3.prems"(4)]) (simp_all add: patch_all_nth i2 e2_def patchB_nth nth_append here_instrs)
  have k: "keeps (here e0) e1 ?E"
  proof (rule keeps_patch_all)
    show "keeps (here e0) e1 em1"
      by (rule keeps_grown_trans [OF _ n(3)]) (simp add: e2_def keeps_patchB keeps_emit keeps_refl h)
    show "\<forall>j\<in>set js'. j < here e0 \<or> here e1 \<le> j" using n h "3.prems"(5) by auto
  qed
  have 1: "realises x (em_reversed em) (low J em) (F (modes_of em) (em_reversed em)) (here e0) (here e1)"
    using compiles_part [OF F(2) w e1 "3.prems"(4) g0 k] by (simp add: e0_def)
  obtain np where "em_pendingSubs ?E = em_pendingSubs e2 @ np" using n(3) by (auto elim: grownE)
  then have f2: "fits J x e2 ?E" using fits_suffix [OF "3.prems"(4) g2] by blast
  have "realises x (em_reversed e2) (low J e2) (m_alts (map (\<lambda>F. F (modes_of e2) (em_reversed e2)) (G # Gs))) (here e2) (here em1)"
    unfolding e2_def
    by (rule "3.IH" [OF refl refl refl e1 [unfolded e0_def] refl refl refl l [unfolded e2_def] F(3) _ f2 [unfolded e2_def]])
      (use "3.prems"(3,5) h in \<open>auto simp: e2_def\<close>)
  then have 2: "realises x (em_reversed em) (low J em) (m_alts (map (\<lambda>F. F (modes_of em) (em_reversed em)) (G # Gs))) (here e2) (here em1)"
    using grown_modes [OF g2] grown_low [OF g2, of J] realises_mono by fastforce
  show ?case using realises_or [OF split realises_jumped [OF 1 jump] 2] by (simp add: F(1))
qed simp

lemma compiles_alt_loop:
  assumes "list_all2 (compiles J) cs Fs" and "\<forall>c\<in>set cs. \<exists>w. grows c w"
  shows "compiles J (\<lambda>em. rbind (alt_loop cs [] em) (\<lambda>(js, em). Inr (patch_all js em))) (\<lambda>md b. m_alts (map (\<lambda>F. F md b) Fs))"
proof (rule compilesI)
  fix em em' x
  assume "rbind (alt_loop cs [] em) (\<lambda>(js, em). Inr (patch_all js em)) = Inr em'" and f: "fits J x em em'"
  then obtain js em1 where a: "alt_loop cs [] em = Inr (js, em1)" and em': "em' = patch_all js em1" by auto
  show "realises x (em_reversed em) (low J em) (m_alts (map (\<lambda>F. F (modes_of em) (em_reversed em)) Fs)) (here em) (here em')"
  proof (cases "cs = []")
    case True
    then show ?thesis using assms(1) by (auto intro: realisesI)
  next
    case False
    then show ?thesis using realises_alt_loop [OF a assms f [unfolded em']] by (simp add: em')
  qed
qed

subsection \<open>Literals\<close>

lemma branch_loop_alt_loop:
  "alt_loop (map (\<lambda>b em. Inr (emit_branch rec b em)) bs) js em = Inr (branch_loop rec bs js em)"
  by (induction rec bs js em rule: branch_loop.induct) (simp_all add: Let_def)

lemma compiles_chars:
  "compiles J (\<lambda>em. Inr (emit_chars codes em)) (\<lambda>md b. m_lit (job_input J) b codes) \<and> (\<exists>w. grows (\<lambda>em. Inr (emit_chars codes em)) w)"
proof -
  let ?cs = "map (\<lambda>c em. Inr (emit CHAR_op c 0 em) :: regex_error + emitter) codes"
  let ?Fs = "map (\<lambda>c (md :: modes) b. m_unit (job_input J) b (\<lambda>u. u = c)) codes"
  have "list_all2 (compiles J) ?cs ?Fs" using compiles_char_op by (simp add: list_all2_conv_all_nth)
  moreover have "\<forall>c\<in>set ?cs. \<exists>w. grows c w" by (auto intro!: exI [of _ 0] growsI grown_emit grown_refl)
  moreover have "rseq ?cs = (\<lambda>em. Inr (emit_chars codes em))"
  proof (rule ext)
    fix em
    show "rseq ?cs em = Inr (emit_chars codes em)" by (induction codes arbitrary: em) (simp_all add: emit_chars_def)
  qed
  ultimately show ?thesis using compiles_rseq [of J ?cs ?Fs] by (simp add: m_lit_def comp_def)
qed

lemma compiles_branch:
  assumes "\<And>c ss. b = Grp c ss \<Longrightarrow> compiles J (\<lambda>em. Inr (rec ss em)) (\<lambda>md b. m_alts (map (m_lit (job_input J) b) ss))"
    and "\<And>c ss em. b = Grp c ss \<Longrightarrow> grown em (rec ss em) 0"
  shows "compiles J (\<lambda>em. Inr (emit_branch rec b em)) (\<lambda>md bk. m_branch (job_input J) bk b)"
proof (cases b)
  case Eps
  then show ?thesis using compiles_skip by (simp add: emit_branch_def m_branch_def)
next
  case (Grp c ss)
  let ?tail = "\<lambda>em. Inr (if length ss = 1 then emit_chars (hd ss) em else rec ss em) :: regex_error + emitter"
  have e: "(\<lambda>em. Inr (emit_branch rec b em) :: regex_error + emitter) = (\<lambda>em. rbind (Inr (emit CHAR_op c 0 em)) ?tail)"
    by (rule ext) (simp add: emit_branch_def Grp Let_def)
  have "compiles J ?tail (\<lambda>md bk. m_alts (map (m_lit (job_input J) bk) ss)) \<and> (\<exists>w. grows ?tail w)"
  proof (cases "length ss = 1")
    case True
    then obtain s where "ss = [s]" by (cases ss) auto
    then show ?thesis using compiles_chars [of J s] by simp
  next
    case False
    then show ?thesis using assms(1) [OF Grp] growsI [of "\<lambda>em. Inr (rec ss em)" 0] assms(2) [OF Grp] by auto
  qed
  then obtain w where "compiles J ?tail (\<lambda>md bk. m_alts (map (m_lit (job_input J) bk) ss))" "grows ?tail w" by blast
  moreover have "grows (\<lambda>em. Inr (emit CHAR_op c 0 em)) 0" by (auto intro!: growsI grown_emit grown_refl)
  ultimately show ?thesis
    unfolding e using compiles_seq [OF compiles_char_op] by (auto simp: m_branch_def Grp)
qed

lemma compiles_literals:
  "compiles J (\<lambda>em. Inr (emitLitAltGrouped lits em)) (\<lambda>md b. m_alts (map (m_lit (job_input J) b) lits))"
proof (induction "max_length lits" arbitrary: lits rule: less_induct)
  case less
  let ?bs = "literal_branches lits"
  let ?cs = "map (\<lambda>b em. Inr (emit_branch emitLitAltGrouped b em) :: regex_error + emitter) ?bs"
  let ?Fs = "map (\<lambda>b (md :: modes) bk. m_branch (job_input J) bk b) ?bs"
  have "compiles J (\<lambda>em. Inr (emit_branch emitLitAltGrouped b em)) (\<lambda>md bk. m_branch (job_input J) bk b)" if "b \<in> set ?bs" for b
    using less.hyps that max_length_branch by (intro compiles_branch grown_literals) auto
  then have l: "list_all2 (compiles J) ?cs ?Fs" by (simp add: list_all2_conv_all_nth)
  have g: "\<forall>c\<in>set ?cs. \<exists>w. grows c w"
    by (auto intro!: exI [of _ 0] growsI grown_branch grown_literals grown_refl)
  have "(\<lambda>em. rbind (alt_loop ?cs [] em) (\<lambda>(js, em). Inr (patch_all js em))) = (\<lambda>em. Inr (emitLitAltGrouped lits em))"
    by (rule ext, subst emitLitAltGrouped.simps) (simp add: branch_loop_alt_loop split: prod.split)
  with compiles_alt_loop [OF l g]
  have "compiles J (\<lambda>em. Inr (emitLitAltGrouped lits em)) (\<lambda>md b. m_alts (map (m_branch (job_input J) b) ?bs))"
    by (simp add: comp_def)
  then show ?case by (rule compiles_cong) (metis m_alts_branches surj_pair)
qed

end
