(* ===== verification/RegexProgram.thy ===== *)
theory RegexProgram
  imports RegexCorrect
begin

text \<open>
  Whole programs: \<open>compileNode\<close> on every node, the sub-programs \<open>drainPendingSubs\<close> appends, and
  \<open>compileParsed\<close> with \<open>runAt\<close> and \<open>search\<close>.
\<close>

section \<open>Nodes as they are compiled\<close>

text \<open>
  In a lookbehind the compiler works on the reversed tree; its meaning is that of the tree as
  written, matched backwards.
\<close>

definition csem :: "(nat \<Rightarrow> nat list) \<Rightarrow> bool \<Rightarrow> subject \<Rightarrow> re_node \<Rightarrow> modes \<Rightarrow> bool \<Rightarrow> matcher" where
  "csem upper un s n md back = sem upper un s (if back then reverseNode n else n) md back"

lemma m_clear_reverse [simp]: "m_clear (reverseNode n) = m_clear n"
  by (simp add: m_clear_def)

lemma csem_simps [simp]:
  "csem upper un s (RChar c) md b = m_unit s b (char_ok upper un (md_caseInsensitive md) c)"
  "csem upper un s RAny md b = m_unit s b (\<lambda>u. md_dotAll md \<or> \<not> isLineTerminator (Some u))"
  "csem upper un s RUDot md b = m_point s b (\<lambda>u. u \<le> 0x10ffff \<and> (md_dotAll md \<or> \<not> isLineTerminator (Some u)))"
  "csem upper un s (RClass rs neg) md b = m_unit s b (\<lambda>u. class_ok upper un (md_caseInsensitive md) rs u \<noteq> neg)"
  "csem upper un s (RCpClass rs neg) md b = m_point s b (\<lambda>u. in_ranges rs u \<noteq> neg)"
  "csem upper un s RBol md b = m_test (at_bol s (md_multiline md))"
  "csem upper un s REol md b = m_test (at_eol s (md_multiline md))"
  "csem upper un s (RWordBoundary neg) md b = m_test (\<lambda>sp. at_boundary s sp \<noteq> neg)"
  "csem upper un s (RBackref i) md b = m_backref s b (md_caseInsensitive md) i"
  "csem upper un s (RLookaround n neg beh) md b = m_look neg (sem upper un s n md beh)"
  "csem upper un s (RModGroup ad rm n) md b = csem upper un s n (modify ad rm md) b"
  "csem upper un s (RConcat ps) md b = m_seqs (map (\<lambda>p. csem upper un s p md b) ps)"
  "csem upper un s (RAlt ps) md b = m_alts (map (\<lambda>p. csem upper un s p md b) ps)"
  "csem upper un s (RStar n g) md b = m_star s b g (m_seq (m_clear n) (csem upper un s n md b))"
  "csem upper un s (RPlus n g) md b = m_seq (m_seq (m_clear n) (csem upper un s n md b)) (m_star s b g (m_seq (m_clear n) (csem upper un s n md b)))"
  "csem upper un s (ROpt n g) md b = m_opt g (csem upper un s n md b)"
  "csem upper un s (RRepeat n mn mx g) md b = m_seqs (replicate mn (csem upper un s n md b) @
     (if mx = - 1 then [m_star s b g (m_seq (m_clear n) (csem upper un s n md b))]
      else replicate (nat (mx - int mn)) (m_opt g (csem upper un s n md b))))"
  "csem upper un s (RGroup n j nm) md b = m_group b j (csem upper un s n md b)"
  by (simp_all add: csem_def Let_def comp_def rev_map)

lemma moves_csem: "moves b (\<not> canMatchEmpty n) (csem upper un s n md b)"
  using moves_sem [of True "reverseNode n" upper un s md] moves_sem [of False n upper un s md] by (cases b) (simp_all add: csem_def)

text \<open>Every class has its bounds in order and every capture group has slots of its own.\<close>

primrec node_ok :: "nat \<Rightarrow> re_node \<Rightarrow> bool" where
  "node_ok k (RChar c) = True"
| "node_ok k RAny = True"
| "node_ok k RUDot = True"
| "node_ok k (RClass rs neg) = ranges_ok rs"
| "node_ok k (RCpClass rs neg) = ranges_ok rs"
| "node_ok k RBol = True"
| "node_ok k REol = True"
| "node_ok k (RWordBoundary neg) = True"
| "node_ok k (RBackref i) = True"
| "node_ok k (RLookaround n neg beh) = node_ok k n"
| "node_ok k (RModGroup ad rm n) = node_ok k n"
| "node_ok k (RConcat ps) = list_all (\<lambda>b. b) (map (node_ok k) ps)"
| "node_ok k (RAlt ps) = list_all (\<lambda>b. b) (map (node_ok k) ps)"
| "node_ok k (RStar n g) = node_ok k n"
| "node_ok k (RPlus n g) = node_ok k n"
| "node_ok k (ROpt n g) = node_ok k n"
| "node_ok k (RRepeat n mn mx g) = node_ok k n"
| "node_ok k (RGroup n i nm) = (i \<le> int k \<and> node_ok k n)"

lemma node_ok_reverse [simp]: "node_ok k (reverseNode n) = node_ok k n"
  by (induction n) (auto simp: list_all_iff)

lemma node_ok_captures: "node_ok k n \<Longrightarrow> i \<in> set (visit_captures n) \<Longrightarrow> i \<le> k"
  by (induction n) (auto simp: list_all_iff split: if_splits)

lemma node_ok_span: "node_ok k n \<Longrightarrow> span_ok (2 * (k + 1)) n"
proof -
  assume "node_ok k n"
  then have "Max (set (visit_captures n)) \<le> k" if "visit_captures n \<noteq> []"
    using that node_ok_captures Max_in [of "set (visit_captures n)"] by simp
  then show ?thesis by (fastforce simp: span_ok_def captureSpan_alt split: if_splits)
qed

section \<open>Character tests\<close>

lemma class_ok_iff:
  "class_ok upper un ci rs u \<longleftrightarrow> in_ranges rs u \<or> ci \<and> (\<exists>m. in_ranges rs m \<and>
     (if un then asciiFold m = asciiFold u else m < 0x10000 \<and> canonicalizeLegacy upper m = canonicalizeLegacy upper u))"
  by (fastforce simp: class_ok_def in_ranges_def)

lemma class_ranges_ok: "ranges_ok rs \<Longrightarrow> ranges_ok (class_ranges upper rs em)"
  by (simp add: class_ranges_def foldClassRangesAscii_ok foldClassRangesLegacy_def Let_def coalesce_props)

lemma in_class_ranges:
  assumes "u < 0x10000"
  shows "in_ranges (class_ranges upper rs em) u \<longleftrightarrow> class_ok upper (em_unicode em) (em_caseInsensitive em) rs u"
  using assms in_foldClassRangesLegacy [OF assms, of upper rs]
  by (auto simp: class_ranges_def class_ok_iff in_foldClassRangesAscii)

lemma in_dotCpRanges: "in_ranges (dotCpRanges da) u \<longleftrightarrow> u \<le> 0x10ffff \<and> (da \<or> \<not> isLineTerminator (Some u))"
  by (auto simp: dotCpRanges_def in_ranges_Cons isLineTerminator_def)

lemma dotCpRanges_ok: "ranges_ok (dotCpRanges da)"
  by (simp add: dotCpRanges_def ranges_ok_def)

lemma m_unit_cong: "(\<And>u. u \<in> set s \<Longrightarrow> ok u = ok' u) \<Longrightarrow> m_unit s b ok = m_unit s b ok'"
proof (rule ext)
  fix st
  assume ok: "\<And>u. u \<in> set s \<Longrightarrow> ok u = ok' u"
  show "m_unit s b ok st = m_unit s b ok' st"
    using ok [OF unit_at_mem] by (cases "unit_at s (dir_of b) (fst st)") (auto simp: m_unit_def split: prod.split)
qed

lemma char_ok_units:
  assumes "u < 0x10000"
  shows "char_ok upper False True c u \<longleftrightarrow> u \<in> set (foldCharUnitsLegacy upper c)"
proof (cases "c < 0x10000")
  case True
  then show ?thesis using set_foldCharUnitsLegacy [OF True, of upper] assms by (auto simp: char_ok_def)
next
  case False
  then have "foldCharUnitsLegacy upper c = [c]" by (simp add: foldCharUnitsLegacy_def equivMap_lookup in_all_units)
  with False show ?thesis by (simp add: char_ok_def)
qed

lemma compiles_char:
  assumes "\<forall>u\<in>set (job_input J). u < 0x10000"
  shows "compiles J (\<lambda>em. Inr (compile_char upper c em))
    (\<lambda>md b. m_unit (job_input J) b (char_ok upper (job_unicode J) (md_caseInsensitive md) c))"
proof (rule compilesI)
  fix em em' x
  let ?units = "foldCharUnitsLegacy upper c"
  assume i: "Inr (compile_char upper c em) = (Inr em' :: regex_error + emitter)" and f: "fits J x em em'"
  have un: "em_unicode em = job_unicode J" using f by (simp add: fits_def)
  consider (plain) "\<not> em_caseInsensitive em" | (ascii) "em_caseInsensitive em" "em_unicode em"
    | (one) "em_caseInsensitive em" "\<not> em_unicode em" "length ?units = 1"
    | (many) "em_caseInsensitive em" "\<not> em_unicode em" "length ?units \<noteq> 1" by blast
  then show "realises x (em_reversed em) (low J em)
      (m_unit (job_input J) (em_reversed em) (char_ok upper (job_unicode J) (md_caseInsensitive (modes_of em)) c)) (here em) (here em')"
  proof cases
    case plain
    then have e: "char_ok upper (job_unicode J) (md_caseInsensitive (modes_of em)) c = (\<lambda>u. u = c)"
      by (auto simp: char_ok_def modes_of_def)
    show ?thesis unfolding e using compilesD [OF compiles_char_op _ f] i plain by (simp add: compile_char_def)
  next
    case ascii
    then have e: "char_ok upper (job_unicode J) (md_caseInsensitive (modes_of em)) c = (\<lambda>u. asciiFold u = asciiFold c)"
      using un by (auto simp: char_ok_def modes_of_def)
    show ?thesis unfolding e using compilesD [OF compiles_chari _ f] i ascii by (simp add: compile_char_def)
  next
    case one
    then obtain v where v: "?units = [v]" by (cases ?units) auto
    have e: "m_unit (job_input J) (em_reversed em) (char_ok upper (job_unicode J) (md_caseInsensitive (modes_of em)) c)
        = m_unit (job_input J) (em_reversed em) (\<lambda>u. u = v)"
      by (rule m_unit_cong) (use assms one un char_ok_units [of _ upper c] v in \<open>auto simp: modes_of_def\<close>)
    show ?thesis unfolding e using compilesD [OF compiles_char_op _ f] i one v by (simp add: compile_char_def)
  next
    case many
    have e: "m_unit (job_input J) (em_reversed em) (char_ok upper (job_unicode J) (md_caseInsensitive (modes_of em)) c)
        = m_unit (job_input J) (em_reversed em) (\<lambda>u. (u \<in> set ?units) \<noteq> False)"
      by (rule m_unit_cong) (use assms many un char_ok_units [of _ upper c] in \<open>auto simp: modes_of_def\<close>)
    have "compiles J (\<lambda>em. Inr (emit_class CLASS (unitsToRanges ?units) False em))
        (\<lambda>md b. m_unit (job_input J) b (\<lambda>u. (u \<in> set ?units) \<noteq> False))"
      by (rule compiles_class [where ok = "\<lambda>md u. u \<in> set ?units"])
        (simp_all add: in_unitsToRanges, simp add: unitsToRanges_def coalesce_props)
    from compilesD [OF this _ f] show ?thesis unfolding e using i many by (simp add: compile_char_def)
  qed
qed

section \<open>compileNode\<close>

definition node_job :: "(nat \<Rightarrow> nat list) \<Rightarrow> bool \<Rightarrow> subject \<Rightarrow> nat \<Rightarrow> job" where
  "node_job upper un s k = \<lparr>job_sub = (\<lambda>p. csem upper un s (ps_node p)
       \<lparr>md_caseInsensitive = ps_caseInsensitive p, md_dotAll = ps_dotAll p, md_multiline = ps_multiline p\<rparr> (ps_reversed p)),
     job_input = s, job_unicode = un, job_real = 2 * (k + 1)\<rparr>"

lemma node_job_simps [simp]:
  "job_input (node_job upper un s k) = s" "job_unicode (node_job upper un s k) = un" "job_real (node_job upper un s k) = 2 * (k + 1)"
  "job_sub (node_job upper un s k) p = csem upper un s (ps_node p)
       \<lparr>md_caseInsensitive = ps_caseInsensitive p, md_dotAll = ps_dotAll p, md_multiline = ps_multiline p\<rparr> (ps_reversed p)"
  by (simp_all add: node_job_def)

lemma literal_csem:
  assumes "literalCodes p = Some codes" and "\<not> md_caseInsensitive md"
  shows "csem upper un s p md b = m_lit s b codes"
proof -
  have c: "char_ok upper un (md_caseInsensitive md) c = (\<lambda>u. u = c)" for c using assms(2) by (auto simp: char_ok_def)
  show ?thesis
  proof (cases p)
    case (RChar c)
    then have "codes = [c]" using assms(1) by simp
    with RChar show ?thesis by (simp add: c)
  next
    case (RConcat ps)
    then have ch: "list_all (\<lambda>p. case p of RChar c \<Rightarrow> True | _ \<Rightarrow> False) ps"
      and codes: "codes = map (\<lambda>p. case p of RChar c \<Rightarrow> c | _ \<Rightarrow> 0) ps"
      using assms(1) by (auto split: if_splits)
    have "csem upper un s q md b = m_unit s b (\<lambda>u. u = (case q of RChar c \<Rightarrow> c | _ \<Rightarrow> 0))" if "q \<in> set ps" for q
      using bspec [OF ch [unfolded list_all_iff] that] c by (cases q) simp_all
    then have "map (\<lambda>q. csem upper un s q md b) ps = map (\<lambda>c. m_unit s b (\<lambda>u. u = c)) codes"
      unfolding codes map_map comp_def by (intro map_cong) simp_all
    then show ?thesis by (simp only: RConcat csem_simps m_lit_def)
  qed (use assms(1) in simp_all)
qed

lemma compiles_alt:
  assumes "list_all2 (compiles (node_job upper un s k)) (map (compileNode upper) ps) (map (csem upper un s) ps)"
  shows "compiles (node_job upper un s k) (compile_alt ps (map (compileNode upper) ps)) (\<lambda>md b. m_alts (map (\<lambda>p. csem upper un s p md b) ps))"
proof (rule compilesI)
  let ?J = "node_job upper un s k"
  fix em em' x
  assume c: "compile_alt ps (map (compileNode upper) ps) em = Inr em'" and f: "fits ?J x em em'"
  show "realises x (em_reversed em) (low ?J em) (m_alts (map (\<lambda>p. csem upper un s p (modes_of em) (em_reversed em)) ps)) (here em) (here em')"
  proof (cases "tryEmitLiteralAltTrie ps em")
    case None
    have "\<forall>c\<in>set (map (compileNode upper) ps). \<exists>w. grows c w" using grows_compileNode by auto
    from compilesD [OF compiles_alt_loop [OF assms this] _ f] c None show ?thesis
      by (simp add: compile_alt_def comp_def)
  next
    case (Some e1)
    let ?lits = "map (\<lambda>p. the (literalCodes p)) ps"
    have ci: "\<not> em_caseInsensitive em" and l: "list_all (\<lambda>p. literalCodes p \<noteq> None \<and> literalCodes p \<noteq> Some []) ps"
      and e1: "e1 = emitLitAltGrouped ?lits em" and em': "em' = e1"
      using Some c by (auto simp: tryEmitLiteralAltTrie_def compile_alt_def split: if_splits)
    have m: "map (\<lambda>p. csem upper un s p (modes_of em) (em_reversed em)) ps = map (m_lit s (em_reversed em)) ?lits"
      unfolding map_map comp_def
      by (rule map_cong) (use l ci in \<open>auto simp: list_all_iff modes_of_def intro!: literal_csem\<close>)
    show ?thesis
      unfolding m using compilesD [OF compiles_literals [of ?J ?lits] _ f] by (simp add: em' e1)
  qed
qed

lemmas csem_fun = csem_simps [abs_def]

text \<open>Every node compiles to code that realises its meaning.\<close>

lemma compiles_node:
  assumes "\<forall>u\<in>set s. u < 0x10000"
  shows "node_ok k n \<Longrightarrow> compiles (node_job upper un s k) (compileNode upper n) (csem upper un s n)"
proof (induction n)
  let ?J = "node_job upper un s k"
  {
    case (RChar c)
    show ?case using compiles_char [of ?J upper c] assms by (simp add: csem_fun)
  next
    case RAny
    show ?case using compiles_any [of ?J] by (simp add: csem_fun)
  next
    case (RClass rs neg)
    have "in_ranges (class_ranges upper rs em) u \<longleftrightarrow> class_ok upper un (md_caseInsensitive (modes_of em)) rs u"
      if "em_unicode em = un" "u \<in> set s" for em u
      using in_class_ranges [of u upper rs em] assms that by (simp add: modes_of_def)
    then show ?case
      using compiles_class [of ?J "class_ranges upper rs" "\<lambda>md. class_ok upper un (md_caseInsensitive md) rs" neg]
        class_ranges_ok RClass by (simp add: csem_fun)
  next
    case (RCpClass rs neg)
    then show ?case using compiles_cpclass [of "\<lambda>em. rs" "\<lambda>md. in_ranges rs" ?J neg] by (simp add: csem_fun)
  next
    case RUDot
    show ?case
      using compiles_cpclass [of "\<lambda>em. dotCpRanges (em_dotAll em)"
          "\<lambda>md u. u \<le> 0x10ffff \<and> (md_dotAll md \<or> \<not> isLineTerminator (Some u))" ?J False]
      by (simp add: csem_fun dotCpRanges_ok in_dotCpRanges modes_of_def)
  next
    case RBol
    show ?case using compiles_bol [of ?J] by (simp add: csem_fun)
  next
    case REol
    show ?case using compiles_eol [of ?J] by (simp add: csem_fun)
  next
    case (RWordBoundary neg)
    show ?case using compiles_wbound [of ?J neg] by (simp add: csem_fun)
  next
    case (RBackref i)
    show ?case using compiles_backref [of ?J i] by (simp add: csem_fun)
  next
    case (RLookaround n neg beh)
    show ?case
      using compiles_lookaround [of ?J beh n "sem upper un s n" neg] by (simp add: csem_fun csem_def modes_of_def)
  next
    case (RModGroup ad rm n)
    then show ?case using compiles_modgroup [OF _ grows_compileNode] by (simp add: csem_fun)
  next
    case (RConcat ps)
    then have "list_all2 (compiles ?J) (map (compileNode upper) ps) (map (csem upper un s) ps)"
      by (simp add: list_all2_conv_all_nth list_all_iff)
    moreover have "\<forall>c\<in>set (map (compileNode upper) ps). \<exists>w. grows c w" using grows_compileNode by auto
    ultimately show ?case using compiles_rseq [of ?J "map (compileNode upper) ps"] by (fastforce simp: comp_def csem_fun)
  next
    case (RAlt ps)
    then have "list_all2 (compiles ?J) (map (compileNode upper) ps) (map (csem upper un s) ps)"
      by (simp add: list_all2_conv_all_nth list_all_iff)
    from compiles_alt [OF this] show ?case by (simp add: csem_fun)
  next
    case (RStar n g)
    then show ?case
      using compiles_star [OF _ grows_compileNode _ moves_csem, of ?J] node_ok_span [of k n] by (simp add: csem_fun)
  next
    case (RPlus n g)
    then show ?case
      using compiles_plus [OF _ grows_compileNode _ moves_csem, of ?J] node_ok_span [of k n] by (simp add: csem_fun)
  next
    case (ROpt n g)
    then show ?case using compiles_opt [OF _ grows_compileNode] by (simp add: csem_fun)
  next
    case (RRepeat n mn mx g)
    then show ?case
      using compiles_repeat [of ?J "compileNode upper n" "csem upper un s n" _ n mn mx g, OF _ grows_compileNode _ moves_csem]
        node_ok_span [of k n] by (simp add: csem_fun cong: if_cong)
  next
    case (RGroup n i nm)
    then have "nat i \<le> k" by (simp add: nat_le_iff)
    then have "2 * nat i + 1 < job_real ?J" by simp
    then show ?case using compiles_group [of ?J "compileNode upper n" "csem upper un s n", OF _ grows_compileNode] RGroup by (simp add: csem_fun)
  }
qed

section \<open>Sub-programs\<close>

text \<open>The queue holds only well-formed bodies.\<close>

definition queue_ok :: "nat \<Rightarrow> emitter \<Rightarrow> bool" where
  "queue_ok k em \<longleftrightarrow> (\<forall>p\<in>set (em_pendingSubs em). node_ok k (ps_node p))"

definition keeps_queue :: "nat \<Rightarrow> emission \<Rightarrow> bool" where
  "keeps_queue k c \<longleftrightarrow> (\<forall>em em'. c em = Inr em' \<longrightarrow> queue_ok k em \<longrightarrow> queue_ok k em')"

lemma keeps_queueD: "keeps_queue k c \<Longrightarrow> c em = Inr em' \<Longrightarrow> queue_ok k em \<Longrightarrow> queue_ok k em'"
  by (simp add: keeps_queue_def)

lemma queue_ok_simps [simp]:
  "queue_ok k (emit p a b em) = queue_ok k em" "queue_ok k (patchA pc a em) = queue_ok k em"
  "queue_ok k (patchB pc a em) = queue_ok k em" "queue_ok k (patch_split pc g t y em) = queue_ok k em"
  "queue_ok k (emitClearForBody n em) = queue_ok k em" "queue_ok k (patch_all js em) = queue_ok k em"
  "queue_ok k (snd (allocScratch em)) = queue_ok k em" "queue_ok k (emit_class q rs neg em) = queue_ok k em"
  "queue_ok k (set_modes ci da ml em) = queue_ok k em"
  by (simp_all add: queue_ok_def patch_split_def emitClearForBody_def allocScratch_def emit_class_def addClass_def Let_def
      set_modes_def split: option.split)

lemma keeps_queue_rseq: "\<forall>c\<in>set cs. keeps_queue k c \<Longrightarrow> keeps_queue k (rseq cs)"
  by (induction cs) (auto simp: keeps_queue_def)

lemma keeps_queue_alt_loop:
  "alt_loop cs js em = Inr (js', em') \<Longrightarrow> \<forall>c\<in>set cs. keeps_queue k c \<Longrightarrow> queue_ok k em \<Longrightarrow> queue_ok k em'"
proof (induction cs js em rule: alt_loop.induct)
  case (2 c js em)
  then show ?case by (auto dest: keeps_queueD)
next
  case (3 c c' cs js em)
  then show ?case by (fastforce simp: Let_def dest: keeps_queueD)
qed simp

lemma keeps_queue_star: "keeps_queue k c \<Longrightarrow> keeps_queue k (compile_star n g c)"
  unfolding keeps_queue_def
  by (intro allI impI; cases "canMatchEmpty n")
    (auto simp: compile_star_def Let_def split: prod.splits, (metis queue_ok_simps snd_conv)+)

lemma keeps_queue_opt: "keeps_queue k c \<Longrightarrow> keeps_queue k (compile_opt g c)"
  by (auto simp: keeps_queue_def compile_opt_def Let_def)

lemma keeps_queue_grown: "grown em em' 0 \<Longrightarrow> queue_ok k em \<Longrightarrow> queue_ok k em'"
  by (auto simp: queue_ok_def pend_weight_def elim!: grownE)

lemma keeps_queue_alt:
  "\<forall>c\<in>set cs. keeps_queue k c \<Longrightarrow> keeps_queue k (compile_alt ps cs)"
proof -
  assume c: "\<forall>c\<in>set cs. keeps_queue k c"
  have "queue_ok k em'" if "compile_alt ps cs em = Inr em'" "queue_ok k em" for em em'
    using that keeps_queue_alt_loop [OF _ c] trie_grown keeps_queue_grown
    by (cases "tryEmitLiteralAltTrie ps em") (fastforce simp: compile_alt_def)+
  then show "keeps_queue k (compile_alt ps cs)" by (simp add: keeps_queue_def)
qed

lemma keeps_queue_plus: "keeps_queue k c \<Longrightarrow> keeps_queue k (compile_plus n g c)"
  using keeps_queue_star [of k c n g]
  by (auto simp: keeps_queue_def compile_plus_def Let_def split: if_splits)

lemma keeps_queue_repeat: "keeps_queue k c \<Longrightarrow> keeps_queue k (compileRepeat n mn mx g c)"
proof -
  assume c: "keeps_queue k c"
  then have "keeps_queue k (rseq (replicate mn c))" "keeps_queue k (rseq (replicate (nat (mx - int mn)) (compile_opt g c)))"
    by (auto intro!: keeps_queue_rseq keeps_queue_opt)
  with keeps_queue_star [OF c, of n g] show "keeps_queue k (compileRepeat n mn mx g c)"
    by (auto simp: keeps_queue_def compileRepeat_def split: if_splits)
qed

lemma keeps_queue_node: "node_ok k n \<Longrightarrow> keeps_queue k (compileNode upper n)"
proof (induction n)
  case (RConcat ps)
  then show ?case using keeps_queue_rseq [of "map (compileNode upper) ps" k] by (simp add: list_all_iff)
next
  case (RAlt ps)
  then show ?case using keeps_queue_alt [of "map (compileNode upper) ps" k ps] by (simp add: list_all_iff)
next
  case (RLookaround n neg beh)
  then show ?case by (auto simp: keeps_queue_def queue_lookaround_def queue_ok_def Let_def)
next
  case (RGroup n i nm)
  then show ?case by (auto simp: keeps_queue_def compile_group_def Let_def split: if_splits)
next
  case (RModGroup ad rm n)
  then show ?case by (auto simp: keeps_queue_def compile_modgroup_def)
next
  case (RChar c)
  show ?case by (auto simp: keeps_queue_def compile_char_def Let_def)
qed (auto simp: keeps_queue_star keeps_queue_opt keeps_queue_plus keeps_queue_repeat intro: keeps_queue_def [THEN iffD2])

text \<open>One turn of the drain loop.\<close>

lemma drain_oneE:
  assumes "drain_one upper sub rest em = Inr em1"
  obtains e0 e2 where "compileNode upper (ps_node sub) e0 = Inr e2"
    "em_instrs e0 = (em_instrs em)[ps_patchPc sub := (fst (em_instrs em ! ps_patchPc sub), here em, snd (snd (em_instrs em ! ps_patchPc sub)))]"
    "em_pendingSubs e0 = rest" "em_classTable e0 = em_classTable em" "em_scratchCount e0 = em_scratchCount em"
    "em_scratchBase e0 = em_scratchBase em" "em_unicode e0 = em_unicode em" "em_reversed e0 = ps_reversed sub"
    "modes_of e0 = \<lparr>md_caseInsensitive = ps_caseInsensitive sub, md_dotAll = ps_dotAll sub, md_multiline = ps_multiline sub\<rparr>"
    "em_instrs em1 = em_instrs e2 @ [(MATCH, 0, 0)]" "em_pendingSubs em1 = em_pendingSubs e2" "em_classTable em1 = em_classTable e2"
    "em_scratchCount em1 = em_scratchCount e2" "em_scratchBase em1 = em_scratchBase e2" "em_unicode em1 = em_unicode e2"
  using assms
  by (auto simp: drain_one_def Let_def set_modes_def patchA_def here_def modes_of_def)

lemma drain_one_step:
  assumes d: "drain_one upper sub rest em = Inr em1" and p: "em_pendingSubs em = sub # rest" and q: "queued (em_pendingSubs em) 0 em"
  shows "queued (em_pendingSubs em1) 0 em1" "here em \<le> here em1"
    "\<And>pc. pc < here em \<Longrightarrow> em_instrs em1 ! pc = (if pc = ps_patchPc sub
       then (LOOKAROUND, here em, snd (snd (em_instrs em ! pc))) else em_instrs em ! pc)"
    "\<exists>nc. em_classTable em1 = em_classTable em @ nc" "em_scratchCount em \<le> em_scratchCount em1"
    "ps_patchPc sub \<notin> ps_patchPc ` set (em_pendingSubs em1)"
    "em_scratchBase em1 = em_scratchBase em" "em_unicode em1 = em_unicode em"
    "\<And>k. queue_ok k em \<Longrightarrow> queue_ok k em1"
    "\<And>p. p \<in> set (em_pendingSubs em1) \<Longrightarrow> ps_patchPc p < here em \<Longrightarrow> p \<in> set rest"
proof -
  obtain e0 e2 where c: "compileNode upper (ps_node sub) e0 = Inr e2"
    and e0: "em_instrs e0 = (em_instrs em)[ps_patchPc sub := (fst (em_instrs em ! ps_patchPc sub), here em, snd (snd (em_instrs em ! ps_patchPc sub)))]"
      "em_pendingSubs e0 = rest" "em_classTable e0 = em_classTable em" "em_scratchCount e0 = em_scratchCount em"
      "em_scratchBase e0 = em_scratchBase em" "em_unicode e0 = em_unicode em"
    and e1: "em_instrs em1 = em_instrs e2 @ [(MATCH, 0, 0)]" "em_pendingSubs em1 = em_pendingSubs e2" "em_classTable em1 = em_classTable e2"
      "em_scratchCount em1 = em_scratchCount e2" "em_scratchBase em1 = em_scratchBase e2" "em_unicode em1 = em_unicode e2"
    using d by (rule drain_oneE) blast
  have g: "grown e0 e2 (look_weight (ps_node sub))" using grows_compileNode c by (rule growsD)
  obtain ni nc np where 2: "em_instrs e2 = em_instrs e0 @ ni" "em_classTable e2 = em_classTable e0 @ nc"
    "em_pendingSubs e2 = em_pendingSubs e0 @ np" "queued np (here e0) e2" "em_scratchCount e0 \<le> em_scratchCount e2" "same_modes e0 e2"
    using g by (auto elim: grownE)
  have h: "here e0 = here em" "here em1 = Suc (here e2)" "here e0 \<le> here e2" by (simp_all add: here_def e0 e1 2(1))
  have sub: "ps_patchPc sub < here em" "fst (em_instrs em ! ps_patchPc sub) = LOOKAROUND" "ps_patchPc sub \<notin> ps_patchPc ` set rest"
    using q by (auto simp: queued_def p)
  have i: "em_instrs em1 ! pc = em_instrs e0 ! pc" if "pc < here e0" for pc
    using that by (simp add: e1(1) 2(1) nth_append here_def)
  show "here em \<le> here em1" using h by simp
  show n: "em_instrs em1 ! pc = (if pc = ps_patchPc sub then (LOOKAROUND, here em, snd (snd (em_instrs em ! pc))) else em_instrs em ! pc)"
    if "pc < here em" for pc
    using that i [of pc] sub h by (simp add: e0(1) nth_list_update here_def)
  have r: "queued rest 0 em1"
  proof -
    have "queued rest 0 em" using q by (simp add: queued_def p)
    then show ?thesis by (rule queued_mono) (use h n sub in auto)
  qed
  moreover have "queued np (here em) em1"
    using 2(4) unfolding h(1) by (rule queued_mono) (use h in \<open>auto simp: e1(1) nth_append here_def\<close>)
  moreover have np: "\<forall>p\<in>set rest. ps_patchPc p < here em" "\<forall>p\<in>set np. here em \<le> ps_patchPc p"
    using q 2(4) h by (auto simp: queued_def p)
  ultimately show "queued (em_pendingSubs em1) 0 em1"
    by (simp add: e1(2) 2(3) e0(2) queued_append)
  show "ps_patchPc sub \<notin> ps_patchPc ` set (em_pendingSubs em1)"
    using sub np by (fastforce simp: e1(2) 2(3) e0(2))
  show "\<exists>nc. em_classTable em1 = em_classTable em @ nc" "em_scratchCount em \<le> em_scratchCount em1"
    "em_scratchBase em1 = em_scratchBase em" "em_unicode em1 = em_unicode em"
    using e0 e1 2 by (auto simp: same_modes_def)
  show "queue_ok k em1" if "queue_ok k em" for k
    using keeps_queueD [OF keeps_queue_node c, of k] that by (simp add: queue_ok_def p e0(2) e1(2))
  show "p \<in> set rest" if "p \<in> set (em_pendingSubs em1)" "ps_patchPc p < here em" for p
    using that np(2) by (fastforce simp: e1(2) 2(3) e0(2))
qed

lemma drain_induct [consumes 1, case_names empty step]:
  assumes "drainPendingSubs upper em = Inr emF"
    and "\<And>em. em_pendingSubs em = [] \<Longrightarrow> P em em"
    and "\<And>em sub rest em1 emF. em_pendingSubs em = sub # rest \<Longrightarrow> drain_one upper sub rest em = Inr em1
      \<Longrightarrow> drainPendingSubs upper em1 = Inr emF \<Longrightarrow> P em1 emF \<Longrightarrow> P em emF"
  shows "P em emF"
  using assms(1)
proof (induction "pend_weight (em_pendingSubs em)" arbitrary: em rule: less_induct)
  case less
  show ?case
  proof (cases "em_pendingSubs em")
    case Nil
    with less.prems assms(2) show ?thesis by (simp add: drainPendingSubs.simps)
  next
    case (Cons sub rest)
    then obtain em1 where d: "drain_one upper sub rest em = Inr em1" "drainPendingSubs upper em1 = Inr emF"
      using less.prems by (auto simp: drainPendingSubs.simps [of upper em])
    have "P em1 emF" using less.hyps d(2) drain_one_weight [OF d(1)] Cons by simp
    with Cons d show ?thesis by (rule assms(3))
  qed
qed

lemma drain_grows:
  assumes "drainPendingSubs upper em = Inr emF" and "queued (em_pendingSubs em) 0 em"
  shows "here em \<le> here emF" "\<And>pc. pc < here em \<Longrightarrow> same_instr (em_instrs em ! pc) (em_instrs emF ! pc)"
    "\<And>pc. pc < here em \<Longrightarrow> pc \<notin> ps_patchPc ` set (em_pendingSubs em) \<Longrightarrow> em_instrs emF ! pc = em_instrs em ! pc"
    "\<exists>nc. em_classTable emF = em_classTable em @ nc" "em_scratchCount em \<le> em_scratchCount emF"
proof -
  have "queued (em_pendingSubs em) 0 em \<longrightarrow> here em \<le> here emF \<and> (\<forall>pc<here em. same_instr (em_instrs em ! pc) (em_instrs emF ! pc))
      \<and> (\<forall>pc<here em. pc \<notin> ps_patchPc ` set (em_pendingSubs em) \<longrightarrow> em_instrs emF ! pc = em_instrs em ! pc)
      \<and> (\<exists>nc. em_classTable emF = em_classTable em @ nc) \<and> em_scratchCount em \<le> em_scratchCount emF"
    using assms(1)
  proof (induction rule: drain_induct)
    case (empty em)
    then show ?case by (simp add: same_instr_def)
  next
    case (step em sub rest em1 emF)
    show ?case
    proof (intro impI)
      assume q: "queued (em_pendingSubs em) 0 em"
      note st = drain_one_step [OF step(2,1) q]
      have IH: "here em1 \<le> here emF" "\<forall>pc<here em1. same_instr (em_instrs em1 ! pc) (em_instrs emF ! pc)"
        "\<forall>pc<here em1. pc \<notin> ps_patchPc ` set (em_pendingSubs em1) \<longrightarrow> em_instrs emF ! pc = em_instrs em1 ! pc"
        "\<exists>nc. em_classTable emF = em_classTable em1 @ nc" "em_scratchCount em1 \<le> em_scratchCount emF"
        using step(4) st(1) by auto
      have "same_instr (em_instrs em ! pc) (em_instrs emF ! pc)" if "pc < here em" for pc
      proof -
        have "same_instr (em_instrs em1 ! pc) (em_instrs emF ! pc)" using IH(2) st(2) that by simp
        moreover have "fst (em_instrs em ! ps_patchPc sub) = LOOKAROUND" using q step(1) by (simp add: queued_def)
        ultimately show ?thesis using st(3) [OF that] by (auto simp: same_instr_def split: if_splits)
      qed
      moreover have "em_instrs emF ! pc = em_instrs em ! pc" if "pc < here em" "pc \<notin> ps_patchPc ` set (em_pendingSubs em)" for pc
      proof -
        have "pc \<notin> ps_patchPc ` set (em_pendingSubs em1)" using st(10) that step(1) by auto
        then show ?thesis using IH(3) st(2,3) that step(1) by auto
      qed
      ultimately show "here em \<le> here emF \<and> (\<forall>pc<here em. same_instr (em_instrs em ! pc) (em_instrs emF ! pc))
          \<and> (\<forall>pc<here em. pc \<notin> ps_patchPc ` set (em_pendingSubs em) \<longrightarrow> em_instrs emF ! pc = em_instrs em ! pc)
          \<and> (\<exists>nc. em_classTable emF = em_classTable em @ nc) \<and> em_scratchCount em \<le> em_scratchCount emF"
        using IH(1,4,5) st(2,4,5) by auto
    qed
  qed
  with assms(2) show "here em \<le> here emF" "\<And>pc. pc < here em \<Longrightarrow> same_instr (em_instrs em ! pc) (em_instrs emF ! pc)"
    "\<And>pc. pc < here em \<Longrightarrow> pc \<notin> ps_patchPc ` set (em_pendingSubs em) \<Longrightarrow> em_instrs emF ! pc = em_instrs em ! pc"
    "\<exists>nc. em_classTable emF = em_classTable em @ nc" "em_scratchCount em \<le> em_scratchCount emF"
    by auto
qed

text \<open>The finished program.\<close>

definition rx_of :: "subject \<Rightarrow> emitter \<Rightarrow> rx" where
  "rx_of s em = \<lparr>rx_instrs = em_instrs em, rx_tab = em_classTable em, rx_input = s, rx_real = em_scratchBase em,
     rx_slots = em_scratchBase em + em_scratchCount em\<rparr>"

lemma drain_fits:
  assumes "drainPendingSubs upper em1 = Inr emF" and "queued (em_pendingSubs em1) 0 em1"
    and "here e2 \<le> here em1" "\<And>pc. pc < here e2 \<Longrightarrow> em_instrs em1 ! pc = em_instrs e2 ! pc" "em_classTable em1 = em_classTable e2"
    and "em_scratchCount em1 = em_scratchCount e2" "em_scratchBase e0 = em_scratchBase emF" "em_unicode e0 = un"
    and "em_scratchBase emF = 2 * (k + 1)"
    and "\<And>p. p \<in> set (drop (length (em_pendingSubs e0)) (em_pendingSubs e2)) \<Longrightarrow>
      runs (rx_of s emF) (ps_reversed p) (2 * (k + 1) + em_scratchCount em1) (job_sub (node_job upper un s k) p)
        (fst (snd (em_instrs emF ! ps_patchPc p)))"
  shows "fits (node_job upper un s k) (rx_of s emF) e0 e2"
proof -
  note gr = drain_grows [OF assms(1,2)]
  have i: "same_instr (em_instrs e2 ! pc) (em_instrs emF ! pc)" if "pc < here e2" for pc
    using gr(2) [of pc] assms(3) assms(4) [OF that] that by simp
  show ?thesis
    unfolding fits_def using assms(3,5-10) gr(1,4,5) i by (auto simp: rx_of_def here_def)
qed

lemma drain_runs:
  assumes "drainPendingSubs upper em = Inr emF" and "\<forall>u\<in>set s. u < 0x10000"
  shows "queued (em_pendingSubs em) 0 em \<longrightarrow> queue_ok k em \<longrightarrow> em_unicode em = un \<longrightarrow> em_scratchBase em = 2 * (k + 1)
    \<longrightarrow> em_scratchBase emF = 2 * (k + 1) \<and> (\<forall>p\<in>set (em_pendingSubs em). runs (rx_of s emF) (ps_reversed p) (2 * (k + 1) + em_scratchCount em)
        (job_sub (node_job upper un s k) p) (fst (snd (em_instrs emF ! ps_patchPc p))))"
  using assms(1)
proof (induction rule: drain_induct)
  case (step em sub rest em1 emF)
  let ?J = "node_job upper un s k" and ?x = "rx_of s emF"
  show ?case
  proof (intro impI conjI)
    assume q: "queued (em_pendingSubs em) 0 em" and ok: "queue_ok k em" and un: "em_unicode em = un" and b: "em_scratchBase em = 2 * (k + 1)"
    note st = drain_one_step [OF step(2,1) q]
    have IH: "em_scratchBase emF = 2 * (k + 1)" "\<And>p. p \<in> set (em_pendingSubs em1) \<Longrightarrow> runs ?x (ps_reversed p)
        (2 * (k + 1) + em_scratchCount em1) (job_sub ?J p) (fst (snd (em_instrs emF ! ps_patchPc p)))"
      using step(4) st(1,7,8) st(9) [OF ok] un b by auto
    show "em_scratchBase emF = 2 * (k + 1)" by (rule IH)
    obtain e0 e2 where c: "compileNode upper (ps_node sub) e0 = Inr e2"
      and e0: "em_pendingSubs e0 = rest" "em_scratchCount e0 = em_scratchCount em" "em_scratchBase e0 = em_scratchBase em"
        "em_unicode e0 = em_unicode em" "em_reversed e0 = ps_reversed sub" "here e0 = here em"
        "modes_of e0 = \<lparr>md_caseInsensitive = ps_caseInsensitive sub, md_dotAll = ps_dotAll sub, md_multiline = ps_multiline sub\<rparr>"
      and e1: "em_instrs em1 = em_instrs e2 @ [(MATCH, 0, 0)]" "em_pendingSubs em1 = em_pendingSubs e2" "em_classTable em1 = em_classTable e2"
        "em_scratchCount em1 = em_scratchCount e2"
      using step(2) by (rule drain_oneE) (auto simp: here_def)
    have h: "here em1 = Suc (here e2)" by (simp add: here_def e1(1))
    have f: "fits ?J ?x e0 e2"
      by (rule drain_fits [OF step(3) st(1)])
        (use IH e0 e1 h un b in \<open>auto simp: nth_append here_def dest: in_set_dropD\<close>)
    have nok: "node_ok k (ps_node sub)" using ok step(1) by (simp add: queue_ok_def)
    have r: "realises ?x (ps_reversed sub) (2 * (k + 1) + em_scratchCount em) (job_sub ?J sub) (here em) (here e2)"
      using compilesD [OF compiles_node [OF assms(2) nok] c f] e0 by simp
    have "same_instr (em_instrs em1 ! here e2) (em_instrs emF ! here e2)" using drain_grows(2) [OF step(3) st(1)] h by simp
    then have m: "at ?x (here e2) (MATCH, 0, 0)"
      using drain_grows(1) [OF step(3) st(1)] h by (auto simp: at_def rx_of_def same_instr_def e1(1) nth_append here_def)
    have "fst (snd (em_instrs emF ! ps_patchPc sub)) = here em"
      using drain_grows(3) [OF step(3) st(1)] st(2,3,6) q step(1) by (auto simp: queued_def)
    with runs_match [OF r m]
    have s: "runs ?x (ps_reversed sub) (2 * (k + 1) + em_scratchCount em) (job_sub ?J sub) (fst (snd (em_instrs emF ! ps_patchPc sub)))"
      by simp
    have "set rest \<subseteq> set (em_pendingSubs em1)"
      using growsD [OF grows_compileNode c] by (auto simp: e1(2) e0(1) elim!: grownE)
    then have "runs ?x (ps_reversed p) (2 * (k + 1) + em_scratchCount em) (job_sub ?J p) (fst (snd (em_instrs emF ! ps_patchPc p)))"
      if "p \<in> set rest" for p
      using that runs_mono [OF IH(2) [of p]] st(5) by auto
    with s step(1) show "\<forall>p\<in>set (em_pendingSubs em). runs ?x (ps_reversed p) (2 * (k + 1) + em_scratchCount em)
        (job_sub ?J p) (fst (snd (em_instrs emF ! ps_patchPc p)))" by simp
  qed
qed simp

section \<open>Programs\<close>

definition flag_modes :: "nat \<Rightarrow> modes" where
  "flag_modes flags = \<lparr>md_caseInsensitive = (flags AND RE_FLAG_I \<noteq> 0), md_dotAll = (flags AND RE_FLAG_S \<noteq> 0),
     md_multiline = (flags AND RE_FLAG_M \<noteq> 0)\<rparr>"

definition flag_unicode :: "nat \<Rightarrow> bool" where
  "flag_unicode flags \<longleftrightarrow> flags AND (RE_FLAG_U OR RE_FLAG_V) \<noteq> 0"

text \<open>What an attempt at position \<open>i\<close> should give: all ways to match, the preferred one first.\<close>

definition match_outcomes :: "(nat \<Rightarrow> nat list) \<Rightarrow> parsed_regex \<Rightarrow> nat \<Rightarrow> subject \<Rightarrow> int \<Rightarrow> mstate list option" where
  "match_outcomes upper parsed flags s i =
     m_seq (m_save 0) (m_seq (sem upper (flag_unicode flags) s (pr_root parsed) (flag_modes flags) False) (m_save 1))
       (i, fresh_caps (2 * (pr_numCaptures parsed + 1)))"

definition parsed_ok :: "parsed_regex \<Rightarrow> bool" where
  "parsed_ok parsed \<longleftrightarrow> node_ok (pr_numCaptures parsed) (pr_root parsed)"

lemma compileParsed_runs:
  assumes "compileParsed upper parsed flags = Inr cr" and "parsed_ok parsed" and "\<forall>u\<in>set s. u < 0x10000"
    and "match_outcomes upper parsed flags s i = Some outs"
  obtains r where "ev \<lparr>env_prog = cr_prog cr, env_classTable = cr_classTable cr, env_input = s\<rparr> 1
      [(0, i, fresh_caps (2 * cr_nGroups cr + cr_nScratch cr))] r"
    "case outs of [] \<Rightarrow> r = None | st # _ \<Rightarrow> \<exists>c. r = Some c \<and> take (2 * cr_nGroups cr) c = snd st"
proof -
  let ?k = "pr_numCaptures parsed" and ?un = "flag_unicode flags"
  define e0 where "e0 = emit SAVE 0 0 (setScratchBase (2 * (?k + 1))
     (new_emitter (flags AND RE_FLAG_I \<noteq> 0) (flags AND RE_FLAG_S \<noteq> 0) (flags AND RE_FLAG_M \<noteq> 0) ?un))"
  obtain e1 emF where c: "compileNode upper (pr_root parsed) e0 = Inr e1"
    and d: "drainPendingSubs upper (emit MATCH 0 0 (emit SAVE 1 0 e1)) = Inr emF"
    and cr: "cr_prog cr = flatten (em_instrs emF)" "cr_classTable cr = em_classTable emF" "cr_nGroups cr = ?k + 1"
      "cr_nScratch cr = em_scratchCount emF"
    using assms(1) by (auto simp: compileParsed_def Let_def e0_def flag_unicode_def finish_prog_def)
  let ?e3 = "emit MATCH 0 0 (emit SAVE 1 0 e1)"
  have e0: "em_instrs e0 = [(SAVE, 0, 0)]" "em_pendingSubs e0 = []" "em_scratchBase e0 = 2 * (?k + 1)" "em_unicode e0 = ?un"
    "em_reversed e0 = False" "modes_of e0 = flag_modes flags" "em_scratchCount e0 = 0"
    by (simp_all add: e0_def setScratchBase_def new_emitter_def flag_modes_def modes_of_def)
  have g: "grown e0 e1 (look_weight (pr_root parsed))" using grows_compileNode c by (rule growsD)
  obtain ni where e1: "em_instrs e1 = (SAVE, 0, 0) # ni" "queued (em_pendingSubs e1) 1 e1" "same_modes e0 e1"
    using g e0 by (auto simp: here_def elim!: grownE)
  have q: "queued (em_pendingSubs ?e3) 0 ?e3"
    using e1(2) by (auto simp: queued_def nth_append here_def)
  have "queue_ok ?k e0" using e0(2) by (simp add: queue_ok_def)
  then have "queue_ok ?k ?e3"
    using keeps_queueD [OF keeps_queue_node c] assms(2) by (simp add: parsed_ok_def)
  then have runs: "em_scratchBase emF = 2 * (?k + 1)" "\<forall>p\<in>set (em_pendingSubs ?e3). runs (rx_of s emF) (ps_reversed p)
      (2 * (?k + 1) + em_scratchCount ?e3) (job_sub (node_job upper ?un s ?k) p) (fst (snd (em_instrs emF ! ps_patchPc p)))"
    using drain_runs [OF d assms(3), of ?k ?un] q e0 e1(3) by (auto simp: same_modes_def)
  have f: "fits (node_job upper ?un s ?k) (rx_of s emF) e0 e1"
    by (rule drain_fits [OF d q]) (use runs e0 in \<open>auto simp: nth_append here_def\<close>)
  have body: "realises (rx_of s emF) False (2 * (?k + 1)) (sem upper ?un s (pr_root parsed) (flag_modes flags) False) 1 (here e1)"
    using compilesD [OF compiles_node [OF assms(3), of ?k] c f] assms(2) e0
    by (simp add: parsed_ok_def csem_def here_def)
  have i: "at (rx_of s emF) pc (em_instrs ?e3 ! pc)" if "pc < here ?e3" "fst (em_instrs ?e3 ! pc) \<noteq> LOOKAROUND" for pc
    using drain_grows(1,2) [OF d q] that by (fastforce simp: at_def rx_of_def same_instr_def here_def)
  have "at (rx_of s emF) 0 (SAVE, 0, 0)" using i [of 0] by (simp add: nth_append e1(1))
  moreover have "at (rx_of s emF) (here e1) (SAVE, 1, 0)" "at (rx_of s emF) (Suc (here e1)) (MATCH, 0, 0)"
    using i [of "here e1"] i [of "Suc (here e1)"] by (simp_all add: nth_append here_instrs)
  ultimately have a: "at (rx_of s emF) 0 (SAVE, 0, 0)" "at (rx_of s emF) (here e1) (SAVE, 1, 0)"
    "at (rx_of s emF) (Suc (here e1)) (MATCH, 0, 0)" .
  have real: "rx_real (rx_of s emF) = 2 * (?k + 1)" by (simp add: rx_of_def runs(1))
  have sv: "realises (rx_of s emF) False (2 * (?k + 1)) (m_save 0) 0 1"
    "realises (rx_of s emF) False (2 * (?k + 1)) (m_save 1) (here e1) (Suc (here e1))"
    using realises_save [OF a(1)] realises_save [OF a(2)] real by simp_all
  let ?m = "m_seq (m_save 0) (m_seq (sem upper ?un s (pr_root parsed) (flag_modes flags) False) (m_save 1))"
  let ?c = "fresh_caps (2 * (?k + 1) + em_scratchCount emF)"
  have run: "runs (rx_of s emF) False (2 * (?k + 1)) ?m 0"
    using realises_seq [OF sv(1) realises_seq [OF body sv(2)]] a(3) by (rule runs_match)
  have l: "length ?c = rx_slots (rx_of s emF)" by (simp add: rx_of_def fresh_caps_def runs(1))
  have m: "?m (i, take (rx_real (rx_of s emF)) ?c) = Some outs"
    using assms(4) unfolding real match_outcomes_def by (simp add: fresh_caps_def)
  obtain r where r: "ev (env_of (rx_of s emF)) (dir_of False) [(0, i, ?c)] r"
    "case outs of [] \<Rightarrow> r = None | o' # _ \<Rightarrow> \<exists>c'. r = Some c' \<and> take (rx_real (rx_of s emF)) c' = snd o'
       \<and> kept (rx_of s emF) (2 * (?k + 1)) ?c c'"
    using run l m by (rule runsD)
  show thesis
  proof (rule that)
    show "ev \<lparr>env_prog = cr_prog cr, env_classTable = cr_classTable cr, env_input = s\<rparr> 1
        [(0, i, fresh_caps (2 * cr_nGroups cr + cr_nScratch cr))] r"
      using r(1) by (simp add: cr rx_of_def dir_of_def)
    show "case outs of [] \<Rightarrow> r = None | st # _ \<Rightarrow> \<exists>c. r = Some c \<and> take (2 * cr_nGroups cr) c = snd st"
      using r(2) unfolding real cr by (auto split: list.splits)
  qed
qed

text \<open>What a result reports of a list of outcomes: the first one, or that there is none.\<close>

definition reports :: "nat \<Rightarrow> mstate list \<Rightarrow> vm_result \<Rightarrow> bool" where
  "reports nGroups outs r = (case outs of [] \<Rightarrow> r = NoMatch | st # _ \<Rightarrow> (case r of Matched c \<Rightarrow> take (2 * nGroups) c = snd st | _ \<Rightarrow> False))"

lemma reports_result_of:
  "(case outs of [] \<Rightarrow> r = None | st # _ \<Rightarrow> \<exists>c. r = Some c \<and> take (2 * n) c = snd st) \<Longrightarrow> reports n outs (result_of r)"
  by (auto simp: reports_def split: list.splits)

lemma attempt_correct:
  assumes "compileParsed upper parsed flags = Inr cr" and "parsed_ok parsed" and "\<forall>u\<in>set s. u < 0x10000"
    and "match_outcomes upper parsed flags s i = Some outs"
  shows "reports (cr_nGroups cr) outs (runAt depth (cr_prog cr) (cr_classTable cr) (cr_nGroups cr) s i 0 1 None (cr_nScratch cr))
    \<or> runAt depth (cr_prog cr) (cr_classTable cr) (cr_nGroups cr) s i 0 1 None (cr_nScratch cr) \<in> {StepLimit, StackOverflow}"
proof -
  obtain r where ev: "ev \<lparr>env_prog = cr_prog cr, env_classTable = cr_classTable cr, env_input = s\<rparr> 1
      [(0, i, fresh_caps (2 * cr_nGroups cr + cr_nScratch cr))] r"
    and r: "case outs of [] \<Rightarrow> r = None | st # _ \<Rightarrow> \<exists>c. r = Some c \<and> take (2 * cr_nGroups cr) c = snd st"
    using assms by (rule compileParsed_runs)
  show ?thesis
    using ev_vm_loop_any [OF ev, of "regexStepBudget (int (length s))" depth 0] reports_result_of [OF r]
    by (auto simp: runAt_def Let_def)
qed

lemma attempt_completes:
  assumes "compileParsed upper parsed flags = Inr cr" and "parsed_ok parsed" and "\<forall>u\<in>set s. u < 0x10000"
    and "match_outcomes upper parsed flags s i = Some outs"
  shows "\<exists>n d. \<forall>budget depth. n \<le> budget \<longrightarrow> d \<le> depth \<longrightarrow> reports (cr_nGroups cr) outs
    (vm_loop \<lparr>env_prog = cr_prog cr, env_classTable = cr_classTable cr, env_input = s\<rparr> budget depth 1 0
      [(0, i, fresh_caps (2 * cr_nGroups cr + cr_nScratch cr))])"
proof -
  obtain r where ev: "ev \<lparr>env_prog = cr_prog cr, env_classTable = cr_classTable cr, env_input = s\<rparr> 1
      [(0, i, fresh_caps (2 * cr_nGroups cr + cr_nScratch cr))] r"
    and r: "case outs of [] \<Rightarrow> r = None | st # _ \<Rightarrow> \<exists>c. r = Some c \<and> take (2 * cr_nGroups cr) c = snd st"
    using assms by (rule compileParsed_runs)
  obtain n d where "\<forall>budget depth steps. n \<le> budget \<longrightarrow> n \<le> budget - steps \<longrightarrow> d \<le> depth
     \<longrightarrow> vm_loop \<lparr>env_prog = cr_prog cr, env_classTable = cr_classTable cr, env_input = s\<rparr> budget depth 1 steps
      [(0, i, fresh_caps (2 * cr_nGroups cr + cr_nScratch cr))] = result_of r"
    using ev_vm_loop [OF ev] by blast
  then have "\<forall>budget depth. n \<le> budget \<longrightarrow> d \<le> depth
     \<longrightarrow> vm_loop \<lparr>env_prog = cr_prog cr, env_classTable = cr_classTable cr, env_input = s\<rparr> budget depth 1 0
      [(0, i, fresh_caps (2 * cr_nGroups cr + cr_nScratch cr))] = result_of r"
    by simp
  with reports_result_of [OF r] show ?thesis by metis
qed

text \<open>
  With enough budget and nesting depth the interpreter's loop ends, and with that outcome: a
  compiled pattern never loops.
\<close>

theorem regex_attempt_completes:
  assumes "compileParsed upper parsed flags = Inr cr" and "parsed_ok parsed" and "\<forall>u\<in>set s. u < 0x10000"
    and "match_outcomes upper parsed flags s i = Some outs"
  shows "\<exists>n d. \<forall>budget depth. n \<le> budget \<longrightarrow> d \<le> depth \<longrightarrow> reports (cr_nGroups cr) outs
    (vm_loop \<lparr>env_prog = cr_prog cr, env_classTable = cr_classTable cr, env_input = s\<rparr> budget depth 1 0
      [(0, i, fresh_caps (2 * cr_nGroups cr + cr_nScratch cr))])"
  using assms by (rule attempt_completes)

end
