(* ===== verification/RegexTotal.thy ===== *)
theory RegexTotal
  imports RegexProgram
begin

text \<open>
  Which patterns always have a meaning: those whose groups have distinct numbers and in which no
  group refers back to itself. For them \<open>sem\<close> is never \<open>None\<close>, so every attempt of the compiled
  program ends. A group under a counted repetition that refers to itself is the one case left out:
  there a stale end can precede the new start, as the last section shows on the compiled program.
\<close>

section \<open>Patterns without self-references\<close>

primrec all_groups :: "re_node \<Rightarrow> nat list" where
  "all_groups (RChar c) = []"
| "all_groups RAny = []"
| "all_groups RUDot = []"
| "all_groups (RClass rs neg) = []"
| "all_groups (RCpClass rs neg) = []"
| "all_groups RBol = []"
| "all_groups REol = []"
| "all_groups (RWordBoundary neg) = []"
| "all_groups (RBackref i) = []"
| "all_groups (RLookaround n neg beh) = all_groups n"
| "all_groups (RModGroup ad rm n) = all_groups n"
| "all_groups (RConcat ps) = concat (map all_groups ps)"
| "all_groups (RAlt ps) = concat (map all_groups ps)"
| "all_groups (RStar n g) = all_groups n"
| "all_groups (RPlus n g) = all_groups n"
| "all_groups (ROpt n g) = all_groups n"
| "all_groups (RRepeat n mn mx g) = all_groups n"
| "all_groups (RGroup n i nm) = (if i \<ge> 0 then [nat i] else []) @ all_groups n"

primrec refs_ok :: "nat \<Rightarrow> re_node \<Rightarrow> nat list \<Rightarrow> bool" where
  "refs_ok k (RChar c) = (\<lambda>opens. True)"
| "refs_ok k RAny = (\<lambda>opens. True)"
| "refs_ok k RUDot = (\<lambda>opens. True)"
| "refs_ok k (RClass rs neg) = (\<lambda>opens. True)"
| "refs_ok k (RCpClass rs neg) = (\<lambda>opens. True)"
| "refs_ok k RBol = (\<lambda>opens. True)"
| "refs_ok k REol = (\<lambda>opens. True)"
| "refs_ok k (RWordBoundary neg) = (\<lambda>opens. True)"
| "refs_ok k (RBackref i) = (\<lambda>opens. i \<le> k \<and> i \<notin> set opens)"
| "refs_ok k (RLookaround n neg beh) = refs_ok k n"
| "refs_ok k (RModGroup ad rm n) = refs_ok k n"
| "refs_ok k (RConcat ps) = (\<lambda>opens. list_all (\<lambda>f. f opens) (map (refs_ok k) ps))"
| "refs_ok k (RAlt ps) = (\<lambda>opens. ps \<noteq> [] \<and> list_all (\<lambda>f. f opens) (map (refs_ok k) ps))"
| "refs_ok k (RStar n g) = refs_ok k n"
| "refs_ok k (RPlus n g) = refs_ok k n"
| "refs_ok k (ROpt n g) = refs_ok k n"
| "refs_ok k (RRepeat n mn mx g) = refs_ok k n"
| "refs_ok k (RGroup n i nm) = (\<lambda>opens. if i < 0 then refs_ok k n opens
     else nat i \<notin> set (all_groups n) \<and> refs_ok k n (nat i # opens))"

section \<open>Slots of other groups\<close>

text \<open>A matcher leaves a slot outside \<open>G\<close> as it is, or clears it.\<close>

definition frames :: "nat set \<Rightarrow> matcher \<Rightarrow> bool" where
  "frames G f \<longleftrightarrow> (\<forall>st outs st' j. f st = Some outs \<longrightarrow> st' \<in> set outs \<longrightarrow> j div 2 \<notin> G \<longrightarrow> j < length (snd st)
     \<longrightarrow> snd st' ! j = snd st ! j \<or> snd st' ! j = - 1)"

lemma framesI:
  "(\<And>st outs st' j. f st = Some outs \<Longrightarrow> st' \<in> set outs \<Longrightarrow> j div 2 \<notin> G \<Longrightarrow> j < length (snd st)
     \<Longrightarrow> snd st' ! j = snd st ! j \<or> snd st' ! j = - 1) \<Longrightarrow> frames G f"
  unfolding frames_def by blast

lemma framesD:
  "frames G f \<Longrightarrow> f st = Some outs \<Longrightarrow> st' \<in> set outs \<Longrightarrow> j div 2 \<notin> G \<Longrightarrow> j < length (snd st)
     \<Longrightarrow> snd st' ! j = snd st ! j \<or> snd st' ! j = - 1"
  unfolding frames_def by blast

lemma frames_mono: "frames G f \<Longrightarrow> G \<subseteq> H \<Longrightarrow> frames H f"
  unfolding frames_def by blast

lemma frames_seq:
  assumes "frames G f" and "frames G g" and "moves b c f"
  shows "frames G (m_seq f g)"
proof (rule framesI)
  fix st outs st' and j :: nat
  assume "m_seq f g st = Some outs" "st' \<in> set outs" and j: "j div 2 \<notin> G" "j < length (snd st)"
  then obtain xs y zs where x: "f st = Some xs" "y \<in> set xs" "g y = Some zs" "st' \<in> set zs"
    by (auto simp: m_seq_def bind_eq_Some_conv dest!: flat_SomeD)
  have "length (snd y) = length (snd st)" using movesD [OF assms(3) x(1,2)] by simp
  then show "snd st' ! j = snd st ! j \<or> snd st' ! j = - 1"
    using framesD [OF assms(1) x(1,2)] framesD [OF assms(2) x(3,4)] j by metis
qed

lemma frames_same: "(\<And>st outs st'. f st = Some outs \<Longrightarrow> st' \<in> set outs \<Longrightarrow> snd st' = snd st) \<Longrightarrow> frames G f"
  unfolding frames_def by metis

lemma frames_skip: "frames G m_skip"
  by (rule frames_same) (auto simp: m_skip_def)

lemma frames_or: "frames G f \<Longrightarrow> frames G g \<Longrightarrow> frames G (m_or f g)"
  unfolding frames_def m_or_def by (fastforce simp: bind_eq_Some_conv)

lemma frames_opt: "frames G f \<Longrightarrow> frames G (m_opt g f)"
  by (simp add: m_opt_def frames_or frames_skip)

lemma frames_alts: "\<forall>f\<in>set fs. frames G f \<Longrightarrow> frames G (m_alts fs)"
proof (induction fs rule: m_alts.induct)
  case 1
  show ?case by (simp add: frames_def)
qed (simp_all add: frames_or)

lemma frames_seqs: "\<forall>f\<in>set fs. frames G f \<and> moves b False f \<Longrightarrow> frames G (m_seqs fs)"
  by (induction fs) (auto simp: frames_skip intro: frames_seq)

lemma frames_moving: "frames G f \<Longrightarrow> frames G (m_moving f)"
  unfolding frames_def m_moving_def by fastforce

lemma frames_iter: "frames G f \<Longrightarrow> moves b c f \<Longrightarrow> frames G (m_iter g f k)"
proof (induction k)
  case (Suc k)
  have "frames G (m_seq (m_moving f) (m_iter g f k))"
    using frames_moving [OF Suc.prems(1)] Suc.IH [OF Suc.prems] moves_moving [OF Suc.prems(2)] by (rule frames_seq)
  then show ?case by (simp add: frames_opt)
qed (simp add: frames_def)

lemma frames_star: "frames G f \<Longrightarrow> moves b c f \<Longrightarrow> frames G (m_star s b g f)"
  using frames_iter unfolding frames_def m_star_def by blast

lemma frames_clear: "frames G (m_clear n)"
  by (rule framesI) (auto simp: m_clear_def clear_slots_nth split: option.splits)

lemma frames_save: "a div 2 \<in> G \<Longrightarrow> frames G (m_save a)"
proof (rule framesI)
  fix st outs st' and j :: nat
  assume "a div 2 \<in> G" "m_save a st = Some outs" "st' \<in> set outs" "j div 2 \<notin> G"
  then show "snd st' ! j = snd st ! j \<or> snd st' ! j = - 1" by (cases "a = j"; cases st) (auto simp: m_save_def)
qed

lemma frames_group:
  assumes "frames G f" and "moves b c f" and "i \<ge> 0 \<Longrightarrow> nat i \<in> G"
  shows "frames G (m_group b i f)"
  using assms frames_seq [OF frames_save frames_seq [OF assms(1) frames_save assms(2)] moves_save]
  by (auto simp: m_group_def)

lemma frames_look: "frames G f \<Longrightarrow> frames G (m_look neg f)"
  unfolding frames_def m_look_def by (fastforce split: list.splits if_splits)

lemma moves_sem_weak: "moves b False (sem upper un s n md b)"
  using moves_sem by (rule moves_weaken) simp

lemma frames_sem: "frames (set (all_groups n)) (sem upper un s n md b)"
proof (induction n arbitrary: md b)
  case (RConcat ps)
  let ?fs = "map (\<lambda>p. sem upper un s p md b) ps"
  have "frames (set (all_groups (RConcat ps))) (sem upper un s p md b)" if "p \<in> set ps" for p
    by (rule frames_mono [OF RConcat [OF that]]) (use that in auto)
  then have "\<forall>f\<in>set ?fs. frames (set (all_groups (RConcat ps))) f \<and> moves b False f"
    by (auto intro!: moves_sem_weak)
  then have "frames (set (all_groups (RConcat ps))) (m_seqs (if b then rev ?fs else ?fs))"
    by (intro frames_seqs [where b = b]) auto
  then show ?case by (simp only: sem.simps Let_def map_map comp_def)
next
  case (RAlt ps)
  have "frames (set (all_groups (RAlt ps))) (sem upper un s p md b)" if "p \<in> set ps" for p
    by (rule frames_mono [OF RAlt [OF that]]) (use that in auto)
  then show ?case by (auto intro!: frames_alts)
next
  case (RStar n g)
  then show ?case
    using frames_star [OF frames_seq [OF frames_clear _ moves_clear] moves_seq [OF moves_clear moves_sem]] by simp
next
  case (RPlus n g)
  have f: "frames (set (all_groups n)) (m_seq (m_clear n) (sem upper un s n md b))"
    using frames_clear RPlus moves_clear by (rule frames_seq)
  have a: "moves b (False \<or> \<not> canMatchEmpty n) (m_seq (m_clear n) (sem upper un s n md b))"
    using moves_clear moves_sem by (rule moves_seq)
  show ?case using frames_seq [OF f frames_star [OF f a] a] by (simp add: Let_def)
next
  case (RRepeat n mn mx g)
  let ?f = "sem upper un s n md b"
  have f: "frames (set (all_groups n)) (m_seq (m_clear n) ?f)"
    using frames_clear RRepeat moves_clear by (rule frames_seq)
  have a: "moves b (False \<or> \<not> canMatchEmpty n) (m_seq (m_clear n) ?f)"
    using moves_clear moves_sem by (rule moves_seq)
  show ?case
    using RRepeat frames_star [OF f a] frames_opt [OF RRepeat]
    by (auto simp: Let_def intro!: frames_seqs [where b = b] moves_sem_weak moves_star [OF a] moves_opt [OF moves_sem])
next
  case (RGroup n i nm)
  have "frames (set (all_groups (RGroup n i nm))) (sem upper un s n md b)" by (rule frames_mono [OF RGroup]) auto
  from frames_group [OF this moves_sem, of i] show ?case by simp
next
  case (RLookaround n neg beh)
  then show ?case by (simp add: frames_look)
next
  case (ROpt n g)
  then show ?case by (simp add: frames_opt)
qed (auto intro!: frames_same simp: m_unit_def m_point_def m_test_def m_backref_def Let_def split: if_splits option.splits)

section \<open>Totality\<close>

text \<open>
  A valid state: inside the subject, and every group that is not being matched has no end before
  its start.
\<close>

definition valid :: "subject \<Rightarrow> nat \<Rightarrow> nat list \<Rightarrow> mstate \<Rightarrow> bool" where
  "valid s k opens st \<longleftrightarrow> in_subject s (fst st) \<and> length (snd st) = 2 * (k + 1)
     \<and> (\<forall>j\<le>k. j \<notin> set opens \<longrightarrow> snd st ! (2 * j) < 0 \<or> snd st ! (2 * j + 1) < 0 \<or> snd st ! (2 * j) \<le> snd st ! (2 * j + 1))"

definition always :: "subject \<Rightarrow> nat \<Rightarrow> nat list \<Rightarrow> matcher \<Rightarrow> bool" where
  "always s k opens f \<longleftrightarrow> (\<forall>st. valid s k opens st \<longrightarrow> (\<exists>outs. f st = Some outs \<and> (\<forall>st'\<in>set outs. valid s k opens st')))"

lemma always_I:
  "(\<And>st. valid s k opens st \<Longrightarrow> \<exists>outs. f st = Some outs \<and> (\<forall>st'\<in>set outs. valid s k opens st')) \<Longrightarrow> always s k opens f"
  unfolding always_def by blast

lemma always_D:
  assumes "always s k opens f" and "valid s k opens st"
  obtains outs where "f st = Some outs" "\<And>st'. st' \<in> set outs \<Longrightarrow> valid s k opens st'"
  using assms unfolding always_def by blast

lemma flat_total:
  "\<forall>x\<in>set xs. \<exists>ys. f x = Some ys \<and> (\<forall>y\<in>set ys. P y) \<Longrightarrow> \<exists>outs. flat f xs = Some outs \<and> (\<forall>y\<in>set outs. P y)"
  by (induction xs) fastforce+

lemma total_seq: "always s k opens f \<Longrightarrow> always s k opens g \<Longrightarrow> always s k opens (m_seq f g)"
proof (rule always_I)
  fix st
  assume f: "always s k opens f" and g: "always s k opens g" and v: "valid s k opens st"
  obtain xs where xs: "f st = Some xs" "\<And>st'. st' \<in> set xs \<Longrightarrow> valid s k opens st'" using f v by (rule always_D) blast
  have "\<exists>outs. flat g xs = Some outs \<and> (\<forall>y\<in>set outs. valid s k opens y)"
    by (rule flat_total) (use xs(2) g in \<open>auto simp: always_def\<close>)
  then show "\<exists>outs. m_seq f g st = Some outs \<and> (\<forall>st'\<in>set outs. valid s k opens st')" by (simp add: m_seq_def xs(1))
qed

lemma total_skip: "always s k opens m_skip"
  by (rule always_I) (simp add: m_skip_def)

lemma total_seqs: "\<forall>f\<in>set fs. always s k opens f \<Longrightarrow> always s k opens (m_seqs fs)"
  by (induction fs) (simp_all add: total_skip total_seq)

lemma total_or: "always s k opens f \<Longrightarrow> always s k opens g \<Longrightarrow> always s k opens (m_or f g)"
  unfolding always_def m_or_def by fastforce

lemma total_opt: "always s k opens f \<Longrightarrow> always s k opens (m_opt g f)"
  by (simp add: m_opt_def total_or total_skip)

lemma total_alts: "\<forall>f\<in>set fs. always s k opens f \<Longrightarrow> fs \<noteq> [] \<Longrightarrow> always s k opens (m_alts fs)"
  by (induction fs rule: m_alts.induct) (simp_all add: total_or)

text \<open>The fuel of a loop lasts: every iteration uses up input.\<close>

lemma remaining_less:
  "in_subject s sp \<Longrightarrow> in_subject s sp' \<Longrightarrow> 0 < dir_of b * (sp' - sp) \<Longrightarrow> remaining s b sp' < remaining s b sp"
  by (auto simp: remaining_def dir_of_def in_subject_def split: if_splits)

lemma total_iter:
  assumes "always s k opens f" and "moves b c f"
  shows "valid s k opens st \<Longrightarrow> remaining s b (fst st) < m
    \<Longrightarrow> \<exists>outs. m_iter g f m st = Some outs \<and> (\<forall>st'\<in>set outs. valid s k opens st')"
proof (induction m arbitrary: st)
  case (Suc m)
  obtain xs where xs: "f st = Some xs" "\<And>st'. st' \<in> set xs \<Longrightarrow> valid s k opens st'" using assms(1) Suc.prems(1) by (rule always_D) blast
  let ?ys = "filter (\<lambda>y. fst y \<noteq> fst st) xs"
  have m: "m_moving f st = Some ?ys" by (simp add: m_moving_def xs(1))
  have "\<exists>outs. m_iter g f m y = Some outs \<and> (\<forall>st'\<in>set outs. valid s k opens st')" if y: "y \<in> set ?ys" for y
  proof (rule Suc.IH)
    show "valid s k opens y" using xs(2) y by simp
    have "0 < dir_of b * (fst y - fst st)" using movesD [OF moves_moving [OF assms(2)] m y] by simp
    then have "remaining s b (fst y) < remaining s b (fst st)"
      using \<open>valid s k opens y\<close> Suc.prems(1) by (intro remaining_less) (auto simp: valid_def)
    then show "remaining s b (fst y) < m" using Suc.prems(2) by simp
  qed
  then have "\<exists>outs. flat (m_iter g f m) ?ys = Some outs \<and> (\<forall>y\<in>set outs. valid s k opens y)"
    by (intro flat_total ballI)
  then obtain zs where "m_seq (m_moving f) (m_iter g f m) st = Some zs" "\<forall>y\<in>set zs. valid s k opens y"
    by (auto simp: m_seq_def m)
  then show ?case using Suc.prems(1) by (auto simp: m_opt_def m_or_def m_skip_def)
qed simp

lemma total_star: "always s k opens f \<Longrightarrow> moves b c f \<Longrightarrow> always s k opens (m_star s b g f)"
proof (rule always_I)
  fix st
  assume "always s k opens f" "moves b c f" "valid s k opens st"
  from total_iter [OF this lessI] show "\<exists>outs. m_star s b g f st = Some outs \<and> (\<forall>st'\<in>set outs. valid s k opens st')"
    by (simp only: m_star_def)
qed

lemma total_clear: "always s k opens (m_clear n)"
proof (rule always_I)
  fix st
  assume v: "valid s k opens st"
  obtain sp c where st: "st = (sp, c)" by (cases st)
  have "valid s k opens (sp, clear_slots a b c)" for a b
    using v by (auto simp: valid_def st clear_slots_nth)
  with v show "\<exists>outs. m_clear n st = Some outs \<and> (\<forall>st'\<in>set outs. valid s k opens st')"
    by (auto simp: m_clear_def st split: option.split)
qed

lemma total_same:
  assumes "\<And>sp c. in_subject s sp \<Longrightarrow> length c = 2 * (k + 1) \<Longrightarrow> valid s k opens (sp, c)
    \<Longrightarrow> \<exists>outs. f (sp, c) = Some outs \<and> (\<forall>st'\<in>set outs. in_subject s (fst st') \<and> snd st' = c)"
  shows "always s k opens f"
proof (rule always_I)
  fix st
  assume v: "valid s k opens st"
  then obtain outs where "f st = Some outs" "\<forall>st'\<in>set outs. in_subject s (fst st') \<and> snd st' = snd st"
    using assms [of "fst st" "snd st"] by (auto simp: valid_def)
  with v show "\<exists>outs. f st = Some outs \<and> (\<forall>st'\<in>set outs. valid s k opens st')"
    by (auto simp: valid_def)
qed

lemma total_unit: "always s k opens (m_unit s b ok)"
  by (rule total_same) (auto simp: m_unit_def intro: unit_in_subject [OF _ sym] split: option.split)

lemma point_in_subject:
  "in_subject s sp \<Longrightarrow> unit_at s (dir_of b) sp \<noteq> None \<Longrightarrow> code_point_at s (dir_of b) sp = Some (cp, w) \<Longrightarrow> in_subject s (sp + dir_of b * w)"
  by (auto simp: code_point_at_def Let_def in_subject_def dir_of_def unit_at_def charCodeAt_def split: if_splits)

lemma total_point: "always s k opens (m_point s b ok)"
  by (rule total_same) (auto simp: m_point_def intro!: point_in_subject [OF _ _ sym] split: option.split)

lemma total_test: "always s k opens (m_test ok)"
  by (rule total_same) (auto simp: m_test_def)

lemma total_backref:
  assumes "i \<le> k" and "i \<notin> set opens"
  shows "always s k opens (m_backref s b ci i)"
proof (rule total_same)
  fix sp c
  assume i: "in_subject s sp" and l: "length c = 2 * (k + 1)" and v: "valid s k opens (sp, c)"
  have "c ! (2 * i) < 0 \<or> c ! (2 * i + 1) < 0 \<or> c ! (2 * i) \<le> c ! (2 * i + 1)" using v assms by (auto simp: valid_def)
  then show "\<exists>outs. m_backref s b ci i (sp, c) = Some outs \<and> (\<forall>st'\<in>set outs. in_subject s (fst st') \<and> snd st' = c)"
    using i l assms(1) by (auto simp: m_backref_def Let_def in_subject_def dir_of_def)
qed

lemma total_look:
  assumes "always s k opens f"
  shows "always s k opens (m_look neg f)"
proof (rule always_I)
  fix st
  assume v: "valid s k opens st"
  obtain xs where xs: "f st = Some xs" "\<And>st'. st' \<in> set xs \<Longrightarrow> valid s k opens st'" using assms v by (rule always_D) blast
  have "valid s k opens (fst st, snd st')" if "st' \<in> set xs" for st'
    using xs(2) [OF that] v by (simp add: valid_def)
  with v xs(1) show "\<exists>outs. m_look neg f st = Some outs \<and> (\<forall>st'\<in>set outs. valid s k opens st')"
    by (cases xs) (auto simp: m_look_def)
qed

lemma valid_saved: "valid s k (i # opens) (sp, c) \<Longrightarrow> a = 2 * i \<or> a = 2 * i + 1 \<Longrightarrow> valid s k (i # opens) (sp, c[a := v])"
  by (auto simp: valid_def nth_list_update)

lemma valid_open: "valid s k opens st \<Longrightarrow> valid s k (i # opens) st"
  by (simp add: valid_def)

lemma valid_close:
  assumes "valid s k (i # opens) (sp, c)"
    and "i \<le> k \<Longrightarrow> c ! (2 * i) < 0 \<or> c ! (2 * i + 1) < 0 \<or> c ! (2 * i) \<le> c ! (2 * i + 1)"
  shows "valid s k opens (sp, c)"
  using assms unfolding valid_def by auto

lemma total_group:
  assumes f: "always s k (nat i # opens) f" and a: "moves b st0 f" and fr: "frames G f" "nat i \<notin> G" and i: "0 \<le> i"
  shows "always s k opens (m_group b i f)"
proof (rule always_I)
  fix st
  assume v: "valid s k opens st"
  obtain sp c where st: "st = (sp, c)" by (cases st)
  define p q where "p = (if b then 2 * nat i + 1 else 2 * nat i)" and "q = (if b then 2 * nat i else 2 * nat i + 1)"
  have v1: "valid s k (nat i # opens) (sp, c[p := sp])"
    using valid_saved [OF valid_open [OF v [unfolded st]]] by (simp add: p_def)
  then obtain xs where xs: "f (sp, c[p := sp]) = Some xs" "\<And>st'. st' \<in> set xs \<Longrightarrow> valid s k (nat i # opens) st'"
    using f by (auto elim: always_D)
  have "valid s k opens (sp', c'[q := sp'])" if x: "(sp', c') \<in> set xs" for sp' c'
  proof (rule valid_close)
    have v2: "valid s k (nat i # opens) (sp', c')" using xs(2) x by simp
    then show "valid s k (nat i # opens) (sp', c'[q := sp'])" by (rule valid_saved) (simp add: q_def)
    assume k: "nat i \<le> k"
    have l: "length c = 2 * (k + 1)" "length c' = 2 * (k + 1)" using v v2 by (simp_all add: valid_def st)
    have "c' ! p = sp \<or> c' ! p = - 1"
      using framesD [OF fr(1) xs(1) x, of p] fr(2) k l by (auto simp: p_def)
    moreover have "0 \<le> dir_of b * (sp' - sp)"
      using movesD [OF a xs(1) x] by (simp split: if_splits)
    ultimately show "c'[q := sp'] ! (2 * nat i) < 0 \<or> c'[q := sp'] ! (2 * nat i + 1) < 0 \<or> c'[q := sp'] ! (2 * nat i) \<le> c'[q := sp'] ! (2 * nat i + 1)"
      using k l by (cases b) (auto simp: p_def q_def dir_of_def)
  qed
  moreover have "m_group b i f st = Some (map (\<lambda>(sp, c). (sp, c[q := sp])) xs)"
  proof -
    have "flat (m_save q) ys = Some (map (\<lambda>(sp, c). (sp, c[q := sp])) ys)" for ys
      by (induction ys) (auto simp: m_save_def)
    then have "m_seq (m_save p) (m_seq f (m_save q)) st = Some (map (\<lambda>(sp, c). (sp, c[q := sp])) xs)"
      by (simp add: m_seq_def m_save_def [of p] st xs(1))
    then show ?thesis using i by (simp add: m_group_def p_def q_def)
  qed
  ultimately show "\<exists>outs. m_group b i f st = Some outs \<and> (\<forall>st'\<in>set outs. valid s k opens st')" by auto
qed

lemma total_sem: "refs_ok k n opens \<Longrightarrow> always s k opens (sem upper un s n md b)"
proof (induction n arbitrary: opens md b)
  case (RConcat ps)
  then have "\<forall>f\<in>set (map (\<lambda>p. sem upper un s p md b) ps). always s k opens f" by (auto simp: list_all_iff)
  then have "always s k opens (m_seqs (if b then rev (map (\<lambda>p. sem upper un s p md b) ps) else map (\<lambda>p. sem upper un s p md b) ps))"
    by (intro total_seqs) auto
  then show ?case by (simp only: sem.simps Let_def map_map comp_def)
next
  case (RAlt ps)
  then show ?case by (auto simp: list_all_iff intro!: total_alts)
next
  case (RStar n g)
  then show ?case
    using total_star [OF total_seq [OF total_clear] moves_seq [OF moves_clear moves_sem]] by simp
next
  case (RPlus n g)
  then have "always s k opens (m_seq (m_clear n) (sem upper un s n md b))" by (simp add: total_seq total_clear)
  then show ?case
    using total_seq total_star [OF _ moves_seq [OF moves_clear moves_sem]] by (simp add: Let_def)
next
  case (RRepeat n mn mx g)
  then have f: "always s k opens (sem upper un s n md b)" by simp
  then have "always s k opens (m_star s b g (m_seq (m_clear n) (sem upper un s n md b)))"
    using total_star [OF total_seq [OF total_clear f] moves_seq [OF moves_clear moves_sem]] by simp
  with f show ?case by (auto simp: Let_def intro!: total_seqs total_opt)
next
  case (RGroup n i nm)
  show ?case
  proof (cases "i < 0")
    case True
    then show ?thesis using RGroup by (simp add: m_group_def)
  next
    case False
    then show ?thesis
      using RGroup total_group [OF _ moves_sem frames_sem, of s k i opens] by simp
  qed
next
  case (RLookaround n neg beh)
  then show ?case by (simp add: total_look)
qed (simp_all add: total_unit total_point total_test total_backref total_opt)

section \<open>Compiled programs end\<close>

definition parsed_total :: "parsed_regex \<Rightarrow> bool" where
  "parsed_total parsed \<longleftrightarrow> parsed_ok parsed \<and> 0 \<notin> set (all_groups (pr_root parsed)) \<and> refs_ok (pr_numCaptures parsed) (pr_root parsed) [0]"

lemma match_outcomes_total:
  assumes "parsed_total parsed" and "in_subject s i"
  shows "\<exists>outs. match_outcomes upper parsed flags s i = Some outs"
proof -
  let ?k = "pr_numCaptures parsed"
  have "always s ?k [] (m_group False 0 (sem upper (flag_unicode flags) s (pr_root parsed) (flag_modes flags) False))"
    using assms(1) total_sem frames_sem
    by (intro total_group [where G = "set (all_groups (pr_root parsed))"]) (auto simp: parsed_total_def intro: moves_sem)
  moreover have "valid s ?k [] (i, fresh_caps (2 * (?k + 1)))"
    using assms(2) by (auto simp: valid_def fresh_caps_def nth_Cons split: nat.split)
  ultimately show ?thesis by (auto simp: match_outcomes_def m_group_def elim: always_D)
qed

lemma compiled_ends:
  assumes "compileParsed upper parsed flags = Inr cr" and "parsed_total parsed" and "\<forall>u\<in>set s. u < 0x10000" and "in_subject s i"
  shows "\<exists>outs n d. match_outcomes upper parsed flags s i = Some outs \<and> (\<forall>budget depth. n \<le> budget \<longrightarrow> d \<le> depth \<longrightarrow>
    reports (cr_nGroups cr) outs (vm_loop \<lparr>env_prog = cr_prog cr, env_classTable = cr_classTable cr, env_input = s\<rparr> budget depth 1 0
      [(0, i, fresh_caps (2 * cr_nGroups cr + cr_nScratch cr))]))"
proof -
  obtain outs where o: "match_outcomes upper parsed flags s i = Some outs" using match_outcomes_total [OF assms(2,4)] by blast
  have "parsed_ok parsed" using assms(2) by (simp add: parsed_total_def)
  from attempt_completes [OF assms(1) this assms(3) o] o show ?thesis by blast
qed

text \<open>
  C37. A pattern in which no group refers to itself: whatever the subject and the position, its
  attempt has a definite set of outcomes and the compiled program, given enough budget and nesting
  depth, ends and reports the preferred one.
\<close>

theorem regex_terminates:
  assumes "compileParsed upper parsed flags = Inr cr" and "parsed_total parsed" and "\<forall>u\<in>set s. u < 0x10000" and "in_subject s i"
  shows "\<exists>outs n d. match_outcomes upper parsed flags s i = Some outs \<and> (\<forall>budget depth. n \<le> budget \<longrightarrow> d \<le> depth \<longrightarrow>
    reports (cr_nGroups cr) outs (vm_loop \<lparr>env_prog = cr_prog cr, env_classTable = cr_classTable cr, env_input = s\<rparr> budget depth 1 0
      [(0, i, fresh_caps (2 * cr_nGroups cr + cr_nScratch cr))]))"
  using assms by (rule compiled_ends)

end
