(* ===== verification/RegexSearch.thy ===== *)
theory RegexSearch
  imports RegexTotal
begin

text \<open>
  \<open>search\<close> on a compiled pattern finds the leftmost match, and three small patterns on which the
  program the compiler produces departs from what the comments of the source promise.
\<close>

section \<open>Leftmost match\<close>

lemma search_loop_cases:
  assumes "\<And>i. start \<le> i \<Longrightarrow> i \<le> n \<Longrightarrow> reports k (outs i) (attempt i) \<or> attempt i \<in> {StepLimit, StackOverflow}"
  shows "case search_loop attempt n sticky start of
      NoMatch \<Rightarrow> (\<forall>i. start \<le> i \<and> i \<le> n \<and> (sticky \<longrightarrow> i = start) \<longrightarrow> outs i = [])
    | Matched c \<Rightarrow> (\<exists>i. start \<le> i \<and> i \<le> n \<and> (sticky \<longrightarrow> i = start) \<and> (\<forall>j. start \<le> j \<and> j < i \<longrightarrow> outs j = [])
        \<and> (\<exists>st rest. outs i = st # rest \<and> take (2 * k) c = snd st))
    | StepLimit \<Rightarrow> True | StackOverflow \<Rightarrow> True | BadCapture \<Rightarrow> False"
  using assms
proof (induction attempt n sticky start rule: search_loop.induct)
  case (1 attempt n sticky i)
  show ?case
  proof (cases "i \<le> n")
    case False
    then show ?thesis by (auto simp: search_loop.simps)
  next
    case True
    then consider (limit) "attempt i \<in> {StepLimit, StackOverflow}" | (report) "reports k (outs i) (attempt i)"
      using "1.prems" [of i] by auto
    then show ?thesis
    proof cases
      case limit
      with True show ?thesis by (auto simp: search_loop.simps)
    next
      case report
      show ?thesis
      proof (cases "outs i")
        case (Cons st rest)
        with report obtain c where "attempt i = Matched c" "take (2 * k) c = snd st"
          by (auto simp: reports_def split: vm_result.splits)
        moreover have "search_loop attempt n sticky i = Matched c" using True calculation(1) by (simp add: search_loop.simps)
        moreover have "\<forall>j. i \<le> j \<and> j < i \<longrightarrow> outs j = []" by auto
        ultimately show ?thesis using True Cons by (simp only: vm_result.case) blast
      next
        case Nil
        with report have a: "attempt i = NoMatch" by (simp add: reports_def)
        show ?thesis
        proof (cases sticky)
          case s: True
          with True a Nil show ?thesis by (auto simp: search_loop.simps)
        next
          case s: False
          have IH: "case search_loop attempt n sticky (i + 1) of
              NoMatch \<Rightarrow> (\<forall>j. i + 1 \<le> j \<and> j \<le> n \<and> (sticky \<longrightarrow> j = i + 1) \<longrightarrow> outs j = [])
            | Matched c \<Rightarrow> (\<exists>j. i + 1 \<le> j \<and> j \<le> n \<and> (sticky \<longrightarrow> j = i + 1) \<and> (\<forall>l. i + 1 \<le> l \<and> l < j \<longrightarrow> outs l = [])
                \<and> (\<exists>st rest. outs j = st # rest \<and> take (2 * k) c = snd st))
            | StepLimit \<Rightarrow> True | StackOverflow \<Rightarrow> True | BadCapture \<Rightarrow> False"
            using "1.IH" [OF True a s] "1.prems" by simp
          have e: "search_loop attempt n sticky i = search_loop attempt n sticky (i + 1)"
            using True a s by (subst search_loop.simps) simp
          have l: "(i \<le> j) = (j = i \<or> i + 1 \<le> j)" for j by auto
          show ?thesis
            using IH s Nil unfolding e
            by (cases "search_loop attempt n sticky (i + 1)") (auto simp: l)
        qed
      qed
    qed
  qed
qed

lemma search_correct:
  assumes "compileParsed upper parsed flags = Inr cr" and "parsed_total parsed" and "\<forall>u\<in>set s. u < 0x10000"
  shows "case search depth (cr_prog cr) (cr_classTable cr) (cr_nGroups cr) s start sticky (cr_nScratch cr) of
      NoMatch \<Rightarrow> (\<forall>i. max 0 start \<le> i \<and> i \<le> int (length s) \<and> (sticky \<longrightarrow> i = max 0 start)
        \<longrightarrow> match_outcomes upper parsed flags s i = Some [])
    | Matched c \<Rightarrow> (\<exists>i. max 0 start \<le> i \<and> i \<le> int (length s) \<and> (sticky \<longrightarrow> i = max 0 start)
        \<and> (\<forall>j. max 0 start \<le> j \<and> j < i \<longrightarrow> match_outcomes upper parsed flags s j = Some [])
        \<and> (\<exists>st rest. match_outcomes upper parsed flags s i = Some (st # rest) \<and> take (2 * cr_nGroups cr) c = snd st))
    | StepLimit \<Rightarrow> True | StackOverflow \<Rightarrow> True | BadCapture \<Rightarrow> False"
proof -
  let ?n = "int (length s)" and ?start = "max 0 start"
  define outs where "outs i = the (match_outcomes upper parsed flags s i)" for i
  have some: "match_outcomes upper parsed flags s i = Some (outs i)" if "?start \<le> i" "i \<le> ?n" for i
    using match_outcomes_total [OF assms(2), of s i upper flags] that by (auto simp: outs_def in_subject_def)
  have ok: "parsed_ok parsed" using assms(2) by (simp add: parsed_total_def)
  have "case search_loop (\<lambda>i. runAt depth (cr_prog cr) (cr_classTable cr) (cr_nGroups cr) s i 0 1 None (cr_nScratch cr)) ?n sticky ?start of
      NoMatch \<Rightarrow> (\<forall>i. ?start \<le> i \<and> i \<le> ?n \<and> (sticky \<longrightarrow> i = ?start) \<longrightarrow> outs i = [])
    | Matched c \<Rightarrow> (\<exists>i. ?start \<le> i \<and> i \<le> ?n \<and> (sticky \<longrightarrow> i = ?start) \<and> (\<forall>j. ?start \<le> j \<and> j < i \<longrightarrow> outs j = [])
        \<and> (\<exists>st rest. outs i = st # rest \<and> take (2 * cr_nGroups cr) c = snd st))
    | StepLimit \<Rightarrow> True | StackOverflow \<Rightarrow> True | BadCapture \<Rightarrow> False"
    by (rule search_loop_cases) (rule attempt_correct [OF assms(1) ok assms(3) some])
  then show ?thesis
    unfolding search_def using some by (auto split: vm_result.splits)
qed

text \<open>
  C13. \<open>search\<close> on a compiled pattern without self-references returns the preferred outcome at the
  leftmost position, from the start index on, where the pattern matches (only the start index
  itself when sticky); it returns no match exactly when there is none; otherwise it stops with one
  of the two limit errors.
\<close>

theorem regex_search_correct:
  assumes "compileParsed upper parsed flags = Inr cr" and "parsed_total parsed" and "\<forall>u\<in>set s. u < 0x10000"
  shows "case search depth (cr_prog cr) (cr_classTable cr) (cr_nGroups cr) s start sticky (cr_nScratch cr) of
      NoMatch \<Rightarrow> (\<forall>i. max 0 start \<le> i \<and> i \<le> int (length s) \<and> (sticky \<longrightarrow> i = max 0 start)
        \<longrightarrow> match_outcomes upper parsed flags s i = Some [])
    | Matched c \<Rightarrow> (\<exists>i. max 0 start \<le> i \<and> i \<le> int (length s) \<and> (sticky \<longrightarrow> i = max 0 start)
        \<and> (\<forall>j. max 0 start \<le> j \<and> j < i \<longrightarrow> match_outcomes upper parsed flags s j = Some [])
        \<and> (\<exists>st rest. match_outcomes upper parsed flags s i = Some (st # rest) \<and> take (2 * cr_nGroups cr) c = snd st))
    | StepLimit \<Rightarrow> True | StackOverflow \<Rightarrow> True | BadCapture \<Rightarrow> False"
  using assms by (rule search_correct)

section \<open>Concrete patterns\<close>

text \<open>\<open>(a*)(?=b)b\<close>, and the subject \<open>aab\<close>.\<close>

definition sample_regex :: parsed_regex where
  "sample_regex = \<lparr>pr_root = RConcat [RGroup (RStar (RChar 97) True) 1 None, RLookaround (RChar 98) False False, RChar 98],
     pr_numCaptures = 1, pr_groupNames = []\<rparr>"

definition sample_compiled :: compiled_regex where
  "sample_compiled = (case compileParsed ascii_upper sample_regex 0 of Inr cr \<Rightarrow> cr)"

lemma sample_compiles: "compileParsed ascii_upper sample_regex 0 = Inr sample_compiled"
  by code_simp

lemma sample_total: "parsed_total sample_regex"
  by code_simp

lemma sample_outcomes: "match_outcomes ascii_upper sample_regex 0 [97, 97, 98] 0 = Some [(3, [0, 3, 0, 2])]"
  by code_simp

theorem regex_attempt_completes_witness:
  "\<exists>n d. \<forall>budget depth. n \<le> budget \<longrightarrow> d \<le> depth \<longrightarrow> reports (cr_nGroups sample_compiled) [(3, [0, 3, 0, 2])]
    (vm_loop \<lparr>env_prog = cr_prog sample_compiled, env_classTable = cr_classTable sample_compiled, env_input = [97, 97, 98]\<rparr> budget depth 1 0
      [(0, 0, fresh_caps (2 * cr_nGroups sample_compiled + cr_nScratch sample_compiled))])"
proof -
  have "parsed_ok sample_regex" by code_simp
  then show ?thesis by (rule regex_attempt_completes [OF sample_compiles _ _ sample_outcomes]) simp
qed

theorem regex_terminates_witness:
  "\<exists>outs n d. match_outcomes ascii_upper sample_regex 0 [97, 97, 98] 1 = Some outs \<and> (\<forall>budget depth. n \<le> budget \<longrightarrow> d \<le> depth \<longrightarrow>
    reports (cr_nGroups sample_compiled) outs
    (vm_loop \<lparr>env_prog = cr_prog sample_compiled, env_classTable = cr_classTable sample_compiled, env_input = [97, 97, 98]\<rparr> budget depth 1 0
      [(0, 1, fresh_caps (2 * cr_nGroups sample_compiled + cr_nScratch sample_compiled))]))"
  by (rule regex_terminates [OF sample_compiles sample_total]) (simp_all add: in_subject_def)

theorem regex_search_correct_witness:
  "search 5 (cr_prog sample_compiled) (cr_classTable sample_compiled) (cr_nGroups sample_compiled) [99, 97, 98] 0 False (cr_nScratch sample_compiled)
     = Matched [1, 3, 1, 2] \<and> (\<exists>i. 0 \<le> i \<and> i \<le> 3 \<and> (\<forall>j. 0 \<le> j \<and> j < i \<longrightarrow> match_outcomes ascii_upper sample_regex 0 [99, 97, 98] j = Some [])
        \<and> (\<exists>st rest. match_outcomes ascii_upper sample_regex 0 [99, 97, 98] i = Some (st # rest) \<and> [1, 3, 1, 2] = snd st))"
proof -
  have r: "search 5 (cr_prog sample_compiled) (cr_classTable sample_compiled) (cr_nGroups sample_compiled) [99, 97, 98] 0 False
      (cr_nScratch sample_compiled) = Matched [1, 3, 1, 2]" by code_simp
  have n: "cr_nGroups sample_compiled = 2" by code_simp
  show ?thesis
    using regex_search_correct [OF sample_compiles sample_total, where s = "[99, 97, 98]" and depth = 5 and start = 0 and sticky = False] unfolding r by (auto simp: n)
qed

text \<open>The captures a compiled pattern reports for its first match.\<close>

definition first_match :: "re_node \<Rightarrow> nat \<Rightarrow> subject \<Rightarrow> vm_result" where
  "first_match n k s = (case compileParsed ascii_upper \<lparr>pr_root = n, pr_numCaptures = k, pr_groupNames = []\<rparr> 0 of
     Inl e \<Rightarrow> BadCapture
   | Inr cr \<Rightarrow> search 5 (cr_prog cr) (cr_classTable cr) (cr_nGroups cr) s 0 False (cr_nScratch cr))"

text \<open>
  \<open>(?:(a)|b){2}\<close> on \<open>ab\<close>: the second repetition does not enter the group, but the capture of the
  first stays, since \<open>compileRepeat\<close> emits no \<open>CLEAR\<close>; the same body under \<open>*\<close> has it cleared.
\<close>

theorem counted_repeat_keeps_captures:
  "first_match (RRepeat (RAlt [RGroup (RChar 97) 1 None, RChar 98]) 2 2 True) 1 [97, 98] = Matched [0, 2, 0, 1]
   \<and> first_match (RStar (RAlt [RGroup (RChar 97) 1 None, RChar 98]) True) 1 [97, 98] = Matched [0, 2, - 1, - 1]"
  by code_simp

text \<open>
  \<open>(?:(ab\1)c){2}\<close> on \<open>abcabc\<close>: in the second repetition the group's new start is stored while its
  old end remains, the back-reference takes a negative length and moves backwards, and the match
  is lost.
\<close>

theorem stale_backreference_fails:
  "first_match (RRepeat (RConcat [RGroup (RConcat [RChar 97, RChar 98, RBackref 1]) 1 None, RChar 99]) 2 2 True) 1
     [97, 98, 99, 97, 98, 99] = NoMatch"
  by code_simp

text \<open>
  \<open>(a*)?\<close> on \<open>b\<close>: the optional group takes part with the empty string, since \<open>?\<close> has no
  empty-iteration guard; under \<open>*\<close> the guard rejects it.
\<close>

theorem optional_matches_empty:
  "first_match (ROpt (RGroup (RStar (RChar 97) True) 1 None) True) 1 [98] = Matched [0, 0, 0, 0]"
  by code_simp

end
