(* ===== verification/RegexParseOk.thy ===== *)
theory RegexParseOk
  imports RegexParse RegexSearch
begin

text \<open>
  What the parser promises to the compiler: it ends on every source, it numbers the groups in the
  order of their opening parentheses, every range it builds is non-empty, and every back-reference
  names a group the pre-scan counted.
\<close>

section \<open>Well-formed trees\<close>

text \<open>Ranges are in order, alternations have options, and references are numbers up to \<open>k\<close>.\<close>

primrec wf_node :: "nat \<Rightarrow> re_node \<Rightarrow> bool" where
  "wf_node k (RChar c) = True"
| "wf_node k RAny = True"
| "wf_node k RUDot = True"
| "wf_node k (RClass rs neg) = ranges_ok rs"
| "wf_node k (RCpClass rs neg) = ranges_ok rs"
| "wf_node k RBol = True"
| "wf_node k REol = True"
| "wf_node k (RWordBoundary neg) = True"
| "wf_node k (RBackref i) = (1 \<le> i \<and> i \<le> k)"
| "wf_node k (RLookaround n neg beh) = wf_node k n"
| "wf_node k (RModGroup ad rm n) = wf_node k n"
| "wf_node k (RConcat ps) = list_all (\<lambda>b. b) (map (wf_node k) ps)"
| "wf_node k (RAlt ps) = (ps \<noteq> [] \<and> list_all (\<lambda>b. b) (map (wf_node k) ps))"
| "wf_node k (RStar n g) = wf_node k n"
| "wf_node k (RPlus n g) = wf_node k n"
| "wf_node k (ROpt n g) = wf_node k n"
| "wf_node k (RRepeat n mn mx g) = wf_node k n"
| "wf_node k (RGroup n i nm) = wf_node k n"

lemma wf_node_ok: "wf_node k n \<Longrightarrow> \<forall>i\<in>set (all_groups n). i \<le> m \<Longrightarrow> node_ok m n"
proof (induction n)
  case (RGroup n i nm)
  then show ?case by (cases "i \<ge> 0") auto
qed (auto simp: list_all_iff)

text \<open>The groups of a tree are numbered upwards, from above \<open>lo\<close> to at most \<open>hi\<close>.\<close>

definition numbered :: "nat \<Rightarrow> nat \<Rightarrow> nat list \<Rightarrow> bool" where
  "numbered lo hi is \<longleftrightarrow> sorted_wrt (<) is \<and> set is \<subseteq> {lo<..hi}"

lemma numbered_Nil [simp]: "numbered lo hi []"
  by (simp add: numbered_def)

lemma numbered_mono: "numbered lo hi is \<Longrightarrow> lo' \<le> lo \<Longrightarrow> hi \<le> hi' \<Longrightarrow> numbered lo' hi' is"
  by (auto simp: numbered_def)

lemma numbered_append:
  "numbered lo m is \<Longrightarrow> numbered m hi ks \<Longrightarrow> lo \<le> m \<Longrightarrow> m \<le> hi \<Longrightarrow> numbered lo hi (is @ ks)"
  by (fastforce simp: numbered_def sorted_wrt_append)

lemma numbered_Cons: "numbered (Suc k) hi is \<Longrightarrow> Suc k \<le> hi \<Longrightarrow> numbered k hi (Suc k # is)"
  by (fastforce simp: numbered_def)

section \<open>Steps of the parser\<close>

text \<open>Only the cursor moved, forwards and within the source.\<close>

definition went :: "parser \<Rightarrow> parser \<Rightarrow> bool" where
  "went p p' \<longleftrightarrow> p' = p\<lparr>p_pos := p_pos p'\<rparr> \<and> p_pos p \<le> p_pos p' \<and> p_pos p' \<le> length (p_src p)"

text \<open>The cursor moved and groups were counted.\<close>

definition grew :: "parser \<Rightarrow> parser \<Rightarrow> bool" where
  "grew p p' \<longleftrightarrow> p' = p\<lparr>p_pos := p_pos p', p_numCaptures := p_numCaptures p'\<rparr> \<and> p_pos p \<le> p_pos p'
     \<and> p_pos p' \<le> length (p_src p) \<and> p_numCaptures p \<le> p_numCaptures p'"

lemma grew_fields:
  "grew p p' \<Longrightarrow> p_src p' = p_src p \<and> p_totalCaptures p' = p_totalCaptures p \<and> p_groupNames p' = p_groupNames p
    \<and> p_unicode p' = p_unicode p \<and> p_vMode p' = p_vMode p \<and> p_iState p' = p_iState p"
  unfolding grew_def by (metis (no_types, lifting) parser.ext_inject parser.surjective parser.update_convs(2,3))

lemma went_grew: "went p p' \<Longrightarrow> grew p p'"
  unfolding went_def grew_def by (cases p; cases p') simp

lemma went_refl: "p_pos p \<le> length (p_src p) \<Longrightarrow> went p p"
  by (simp add: went_def)

lemma went_trans: "went p q \<Longrightarrow> went q r \<Longrightarrow> went p r"
  unfolding went_def by (cases p; cases q; cases r) auto

lemma grew_trans: "grew p q \<Longrightarrow> grew q r \<Longrightarrow> grew p r"
  unfolding grew_def by (cases p; cases q; cases r) auto

lemma peek_Some: "peek p = Some c \<longleftrightarrow> p_pos p < length (p_src p) \<and> p_src p ! p_pos p = c"
  by (simp add: peek_def char_at_Some)

lemma peek_None: "peek p = None \<longleftrightarrow> length (p_src p) \<le> p_pos p"
  by (simp add: peek_def char_at_None)

lemma advance_fields [simp]:
  "p_pos (advance k p) = p_pos p + k" "p_src (advance k p) = p_src p" "p_numCaptures (advance k p) = p_numCaptures p"
  "p_totalCaptures (advance k p) = p_totalCaptures p" "p_groupNames (advance k p) = p_groupNames p"
  "p_unicode (advance k p) = p_unicode p" "p_vMode (advance k p) = p_vMode p" "p_iState (advance k p) = p_iState p"
  by (simp_all add: advance_def)

lemma advance_advance [simp]: "advance j (advance k p) = advance (k + j) p"
  by (simp add: advance_def)

lemma pos_advance [simp]: "(advance k p)\<lparr>p_pos := i\<rparr> = p\<lparr>p_pos := i\<rparr>" "p\<lparr>p_pos := p_pos p\<rparr> = p"
  by (simp_all add: advance_def)

lemma went_advance_iff [simp]: "went p (advance k p) \<longleftrightarrow> p_pos p + k \<le> length (p_src p)"
  by (auto simp: went_def)

lemma went_same [simp]: "went p p \<longleftrightarrow> p_pos p \<le> length (p_src p)"
  by (simp add: went_def)

lemma went_advance: "p_pos p + k \<le> length (p_src p) \<Longrightarrow> went p (advance k p)"
  by (simp add: went_def advance_def)

lemma went_peek: "peek p = Some c \<Longrightarrow> went p (advance 1 p)"
  by (rule went_advance) (simp add: peek_Some)

lemma went_next: "next_unit p = Inr (c, p') \<Longrightarrow> peek p = Some c \<and> p' = advance 1 p"
  by (auto simp: next_unit_def split: option.splits)

lemma read_while_went: "read_while P p = (w, p') \<Longrightarrow> p_pos p \<le> length (p_src p) \<Longrightarrow> went p p' \<and> p_pos p' = p_pos p + length w"
  using length_takeWhile_le [of P "drop (p_pos p) (p_src p)"]
  by (auto simp: read_while_def Let_def intro!: went_advance)

lemma hex_at_bound: "hex_at n s i = Some v \<Longrightarrow> i + n \<le> length s \<or> n = 0"
  by (auto simp: hex_at_def Let_def split: if_splits)

lemma octal_loop_went: "octal_loop n v p = (v', p') \<Longrightarrow> p_pos p \<le> length (p_src p) \<Longrightarrow> went p p'"
proof (induction n arbitrary: v p)
  case (Suc n)
  show ?case
  proof (cases "peek p")
    case None
    with Suc.prems show ?thesis by (simp add: went_refl)
  next
    case (Some d)
    have w: "went p (advance 1 p)" using Some by (rule went_peek)
    have "went p p'" if "octal_loop n u (advance 1 p) = (v', p')" for u
      using went_trans [OF w Suc.IH [OF that]] Some by (simp add: peek_Some)
    then show ?thesis using Suc.prems Some by (auto split: if_splits)
  qed
qed (simp add: went_refl)

lemma parseLegacyOctal_went: "parseLegacyOctal p = (v, p') \<Longrightarrow> p_pos p \<le> length (p_src p) \<Longrightarrow> went p p'"
  unfolding parseLegacyOctal_def by (rule octal_loop_went)

lemma parse_control_escape_went:
  "parse_control_escape inClass (advance 1 p) = Inr (v, p') \<Longrightarrow> peek p = Some c \<Longrightarrow> went p p'"
  by (auto simp: parse_control_escape_def peek_Some split: option.splits if_splits)

lemma escaped_cases:
  assumes "parseEscapedCodeUnit inClass p = Inr (v, p')"
  shows "\<exists>c. peek p = Some c \<and>
    (p' = advance 1 p \<or> (48 \<le> c \<and> c \<le> 55 \<and> parseLegacyOctal p = (v, p'))
      \<or> (c = ch CHR ''c'' \<and> parse_control_escape inClass (advance 1 p) = Inr (v, p'))
      \<or> (hex_at 2 (p_src p) (Suc (p_pos p)) \<noteq> None \<and> p' = advance 3 p)
      \<or> (hex_at 4 (p_src p) (Suc (p_pos p)) \<noteq> None \<and> p' = advance 5 p))"
proof -
  obtain c where c: "peek p = Some c" using assms by (auto simp: parseEscapedCodeUnit_def dest: went_next)
  then have n: "next_unit p = Inr (c, advance 1 p)" by (simp add: next_unit_def)
  show ?thesis
    using assms c by (simp add: parseEscapedCodeUnit_def n numeral_3_eq_3 eq_commute [of p'] split: if_splits option.splits)
qed

lemma parseEscapedCodeUnit_went:
  assumes "parseEscapedCodeUnit inClass p = Inr (v, p')"
  shows "went p p'"
proof -
  obtain c where c: "peek p = Some c"
    and k: "p' = advance 1 p \<or> (48 \<le> c \<and> c \<le> 55 \<and> parseLegacyOctal p = (v, p'))
      \<or> (c = ch CHR ''c'' \<and> parse_control_escape inClass (advance 1 p) = Inr (v, p'))
      \<or> (hex_at 2 (p_src p) (Suc (p_pos p)) \<noteq> None \<and> p' = advance 3 p)
      \<or> (hex_at 4 (p_src p) (Suc (p_pos p)) \<noteq> None \<and> p' = advance 5 p)"
    using escaped_cases [OF assms] by blast
  have "went p (advance 1 p)" using c by (rule went_peek)
  with k show ?thesis
    using parse_control_escape_went [OF _ c] parseLegacyOctal_went [of p v p'] c
      hex_at_bound [of 4 "p_src p" "Suc (p_pos p)"] hex_at_bound [of 2 "p_src p" "Suc (p_pos p)"]
    by (auto simp: peek_Some)
qed

lemma class_end_bound: "class_end v src i depth = Some j \<Longrightarrow> i < j \<and> j \<le> length src"
proof (induction v src i depth rule: class_end.induct)
  case (1 v src i depth)
  then show ?case by (auto simp: class_end.simps [of v src i depth] split: if_splits)
qed

lemma extractClassSource_went:
  "extractClassSource p = Inr (s, p') \<Longrightarrow> went p p' \<and> p_pos p < p_pos p'"
  by (auto simp: extractClassSource_def went_def dest!: class_end_bound split: option.splits)

lemma extractPropertyEscapeSource_went:
  assumes "extractPropertyEscapeSource p = Inr (s, p')"
  shows "went p p'"
proof -
  obtain c where c: "peek p = Some c" "next_unit p = Inr (c, advance 1 p)"
    using assms went_next by (fastforce simp: extractPropertyEscapeSource_def rbind_Inr_iff)
  then obtain w q where r: "read_while (\<lambda>c. c \<noteq> ch CHR ''}'') (advance 1 (advance 1 p)) = (w, q)"
    and q: "peek (advance 1 p) = Some (ch CHR ''{'')" "peek q = Some (ch CHR ''}'')" "p' = advance 1 q"
    using assms by (auto simp: extractPropertyEscapeSource_def split: if_splits prod.splits)
  have "went p (advance 1 p)" "went (advance 1 p) (advance 1 (advance 1 p))" using c q went_peek by blast+
  moreover have "went (advance 1 (advance 1 p)) q" using read_while_went [OF r] q(1) by (simp add: peek_Some)
  moreover have "went q p'" using q(2,3) went_peek by blast
  ultimately show ?thesis by (blast intro: went_trans)
qed

section \<open>Code-point atoms\<close>

definition plain :: "nat \<Rightarrow> re_node \<Rightarrow> bool" where
  "plain k n \<longleftrightarrow> wf_node k n \<and> all_groups n = []"

lemma plain_simps [simp]:
  "plain k (RChar c)" "plain k RAny" "plain k RUDot" "plain k RBol" "plain k REol" "plain k (RWordBoundary neg)"
  "plain k (RClass rs neg) \<longleftrightarrow> ranges_ok rs" "plain k (RCpClass rs neg) \<longleftrightarrow> ranges_ok rs"
  "plain k (RBackref i) \<longleftrightarrow> 1 \<le> i \<and> i \<le> k"
  "plain k (RConcat ps) \<longleftrightarrow> list_all (plain k) ps" "plain k (RAlt ps) \<longleftrightarrow> ps \<noteq> [] \<and> list_all (plain k) ps"
  by (auto simp: plain_def list_all_iff)

lemma plain_cpClass [simp]: "plain k (cpClass rs) \<longleftrightarrow> ranges_ok rs"
  by (simp add: cpClass_def)

lemma plain_uEnum: "uEnum host p s = Inr n \<Longrightarrow> plain k n"
  by (auto simp: uEnum_def dest: enumerateClassRanges_ok)

lemma plain_uChar: "uChar host p cp = Inr n \<Longrightarrow> plain k n"
  by (auto simp: uChar_def ranges_ok_def dest: enumerateClassRanges_ok split: if_splits)

lemma plain_head: "uStringTrieHead host p cps = Inr n \<Longrightarrow> plain k n"
  using codePointRanges_props(1) [of cps]
  by (auto simp: uStringTrieHead_def cp_ranges_def dest: enumerateClassRanges_ok plain_uChar split: if_splits)

lemma plain_branch: "trie_branch host p (sig, cps, tail) = Inr n \<Longrightarrow> (\<And>t. tail = Inr t \<Longrightarrow> plain k t) \<Longrightarrow> plain k n"
  by (fastforce simp: trie_branch_def dest: plain_head split: re_node.splits if_splits)

lemma plain_one_of: "list_all (plain k) ns \<Longrightarrow> plain k (one_of ns)"
  by (auto simp: one_of_def ranges_ok_def split: list.split)

lemma update_tail: "(snd \<circ> snd) ` set (AList.update k (c, t) xs) \<subseteq> insert t ((snd \<circ> snd) ` set xs)"
  by (induction xs) auto

lemma add_child_tails: "(snd \<circ> snd) ` set (add_child (cp, sig, tail) groups) \<subseteq> insert tail ((snd \<circ> snd) ` set groups)"
proof (cases "map_of groups sig")
  case (Some x)
  then have "snd x \<in> (snd \<circ> snd) ` set groups" by (force dest: map_of_SomeD)
  moreover have "add_child (cp, sig, tail) groups = AList.update sig (fst x @ [cp], snd x) groups"
    using Some by (simp add: add_child_def split_def)
  ultimately show ?thesis
    using update_tail [of sig "fst x @ [cp]" "snd x" groups] by (metis insert_absorb subset_insertI2)
qed (auto simp: add_child_def)

lemma fold_add_child_tails:
  "(snd \<circ> snd) ` set (fold add_child cs groups) \<subseteq> (snd \<circ> snd) ` set cs \<union> (snd \<circ> snd) ` set groups"
proof (induction cs arbitrary: groups)
  case (Cons c cs)
  have "(snd \<circ> snd) ` set (add_child c groups) \<subseteq> insert (snd (snd c)) ((snd \<circ> snd) ` set groups)"
    using add_child_tails [of "fst c" "fst (snd c)" "snd (snd c)" groups] by simp
  with Cons.IH [of "add_child c groups"] show ?case by auto
qed simp

lemma plain_branches:
  assumes "rmap (trie_branch host p) (fold add_child cs []) = Inr ns"
    and "\<And>cp sig n. (cp, sig, Inr n) \<in> set cs \<Longrightarrow> plain k n"
  shows "list_all (plain k) ns"
  unfolding list_all_iff
proof
  fix n
  assume "n \<in> set ns"
  then obtain sig cps tail where x: "(sig, cps, tail) \<in> set (fold add_child cs [])" "trie_branch host p (sig, cps, tail) = Inr n"
    using rmap_set [OF assms(1)] by (metis prod_cases3)
  have "tail \<in> (snd \<circ> snd) ` set cs" using fold_add_child_tails [of cs "[]"] x(1) by force
  then show "plain k n" using plain_branch [OF x(2)] assms(2) by force
qed

lemma plain_trie: "uStringTrieNode host p t = Inr n \<Longrightarrow> plain k n"
proof (induction host p t arbitrary: n rule: uStringTrieNode.induct)
  case (1 host p terminal children)
  obtain ns where ns: "rmap (trie_branch host p) (fold add_child
      (map (\<lambda>(cp, child). (cp, unicodeStringTrieSignature child, uStringTrieNode host p child)) children) []) = Inr ns"
    and n: "n = one_of (ns @ (if terminal then [RConcat []] else []))"
    using "1.prems" by auto
  have "list_all (plain k) ns" by (rule plain_branches [OF ns]) (use "1.IH" in fastforce)
  then show ?case unfolding n by (intro plain_one_of) simp
qed

lemma plain_uStringSet:
  assumes "uStringSet host p S = Inr n" and "ranges_ok (us_ranges S)"
  shows "plain k n"
proof -
  obtain terminal children ns where ns: "rmap (trie_branch host p) (fold add_child
      (map (\<lambda>(cp, child). (cp, unicodeStringTrieSignature child, uStringTrieNode host p child)) children) []) = Inr ns"
    and n: "n = one_of (ns @ (if us_ranges S \<noteq> [] then [cpClass (us_ranges S)] else []) @ (if terminal then [RConcat []] else []))"
    using assms(1) by (auto simp: uStringSet_def uStringTrieBranches_def Let_def split: unicode_trie.splits)
  have "list_all (plain k) ns" by (rule plain_branches [OF ns]) (auto dest!: plain_trie [OF sym])
  then show ?thesis unfolding n using assms(2) by (intro plain_one_of) simp
qed

lemma rmap_all: "rmap f xs = Inr ys \<Longrightarrow> (\<And>x y. f x = Inr y \<Longrightarrow> P y) \<Longrightarrow> list_all P ys"
  using rmap_set by (fastforce simp: list_all_iff)

lemma plain_operand_arm: "operand_arm host p cps = Inr x \<Longrightarrow> plain k (snd x)"
proof (cases "cps = []")
  case False
  assume "operand_arm host p cps = Inr x"
  with False obtain parts where r: "rmap (\<lambda>cp. if p_iState p
      then rbind (enumerateClassRanges host (codePointSource cp) (enumFlags p)) (\<lambda>rs. Inr (cpClass rs)) else uChar host p cp) cps = Inr parts"
    and x: "snd x = (if length parts = 1 then hd parts else RConcat parts)"
    by (auto simp: operand_arm_def)
  have "list_all (plain k) parts"
    by (rule rmap_all [OF r]) (auto dest: enumerateClassRanges_ok plain_uChar split: if_splits)
  then show ?thesis unfolding x by (cases parts) auto
qed (auto simp: operand_arm_def)

lemma plain_span_arms: "span_arms host p body x = Inr arms \<Longrightarrow> list_all (\<lambda>a. plain k (snd a)) arms"
  by (auto simp: span_arms_def split: prod.splits elim!: rmap_all dest: plain_operand_arm)

lemma plain_residual: "residual_arm host p r = Inr arms \<Longrightarrow> list_all (\<lambda>a. plain k (snd a)) arms"
  using enumerateClassRanges_ok [of host "js ''['' @ r @ js '']''" "enumFlags p"]
  by (auto simp: residual_arm_def split: if_splits)

lemma plain_uEnumClassWithStrings:
  assumes "uEnumClassWithStrings host p s = Inr n"
  shows "plain k n"
proof (cases "uEnum host p s = Inr n")
  case True
  then show ?thesis by (rule plain_uEnum)
next
  case False
  then obtain body spans arms arm where a: "rmap (span_arms host p body) spans = Inr arms"
    and r: "residual_arm host p (residual_source body 0 spans) = Inr arm"
    and n: "n = one_of (map snd (sort_key (\<lambda>a. - int (fst a)) (concat arms @ arm)))"
    using assms by (auto simp: uEnumClassWithStrings_def Let_def split: if_splits)
  have "list_all (list_all (\<lambda>a. plain k (snd a))) arms" by (rule rmap_all [OF a]) (rule plain_span_arms)
  then show ?thesis
    unfolding n using plain_residual [OF r, of k] by (intro plain_one_of) (auto simp: list_all_iff)
qed

section \<open>What a parse yields\<close>

definition parser_ok :: "parser \<Rightarrow> bool" where
  "parser_ok p \<longleftrightarrow> p_pos p \<le> length (p_src p) \<and> list_all (\<lambda>u. u < 0x10000) (p_src p) \<and> (\<forall>(nm, i)\<in>set (p_groupNames p). 1 \<le> i \<and> i \<le> p_totalCaptures p)"

definition yields :: "parser \<Rightarrow> re_node list \<Rightarrow> parser \<Rightarrow> bool" where
  "yields p ns p' \<longleftrightarrow> grew p p' \<and> list_all (wf_node (p_totalCaptures p)) ns
     \<and> numbered (p_numCaptures p) (p_numCaptures p') (concat (map all_groups ns))"

lemma grew_ok: "grew p p' \<Longrightarrow> parser_ok p \<Longrightarrow> parser_ok p'"
  using grew_fields [of p p'] by (auto simp: parser_ok_def grew_def)

lemma yields_grew: "yields p ns p' \<Longrightarrow> grew p p'"
  by (simp add: yields_def)

lemma yields_Nil: "parser_ok p \<Longrightarrow> yields p [] p"
  by (simp add: yields_def parser_ok_def went_grew)

lemma yields_Cons:
  assumes "yields p [n] q" and "yields q ns r"
  shows "yields p (n # ns) r"
  using assms grew_trans [of p q r] grew_fields [of p q]
  by (auto simp: yields_def grew_def intro!: numbered_append [of "p_numCaptures p" "p_numCaptures q"])

lemma yields_plain: "went p p' \<Longrightarrow> plain (p_totalCaptures p) n \<Longrightarrow> yields p [n] p'"
  by (simp add: yields_def plain_def went_grew)

lemma yields_wrap:
  assumes "yields p ns p'" and "all_groups m = concat (map all_groups ns)"
    and "list_all (wf_node (p_totalCaptures p)) ns \<Longrightarrow> wf_node (p_totalCaptures p) m"
  shows "yields p [m] p'"
  using assms by (simp add: yields_def)

lemma yields_then:
  assumes "yields p ns q" and "went q r"
  shows "yields p ns r"
proof -
  have "p_numCaptures r = p_numCaptures q" using assms(2) unfolding went_def by (metis parser.select_convs(3) parser.surjective parser.update_convs(2))
  then show ?thesis using assms grew_trans [OF _ went_grew [OF assms(2)]] by (simp add: yields_def)
qed

definition consumes :: "re_node parse \<Rightarrow> bool" where
  "consumes f \<longleftrightarrow> (\<forall>p n p'. parser_ok p \<longrightarrow> f p = Inr (n, p') \<longrightarrow> yields p [n] p' \<and> p_pos p < p_pos p')"

definition proceeds :: "re_node parse \<Rightarrow> bool" where
  "proceeds f \<longleftrightarrow> (\<forall>p n p'. parser_ok p \<longrightarrow> f p = Inr (n, p') \<longrightarrow> yields p [n] p')"

lemma consumesD: "consumes f \<Longrightarrow> parser_ok p \<Longrightarrow> f p = Inr (n, p') \<Longrightarrow> yields p [n] p' \<and> p_pos p < p_pos p'"
  by (simp add: consumes_def)

lemma proceedsD: "proceeds f \<Longrightarrow> parser_ok p \<Longrightarrow> f p = Inr (n, p') \<Longrightarrow> yields p [n] p'"
  by (simp add: proceeds_def)

section \<open>Escapes yield atoms\<close>

lemma went_fields:
  "went p p' \<Longrightarrow> p_src p' = p_src p \<and> p_totalCaptures p' = p_totalCaptures p \<and> p_groupNames p' = p_groupNames p
     \<and> p_numCaptures p' = p_numCaptures p \<and> p_pos p \<le> p_pos p' \<and> p_pos p' \<le> length (p_src p)"
  using grew_fields [OF went_grew, of p p'] unfolding went_def
  by (metis parser.select_convs(3) parser.surjective parser.update_convs(2))

lemma ok_pos: "parser_ok p \<Longrightarrow> p_pos p \<le> length (p_src p)"
  by (simp add: parser_ok_def)

lemma backref_plain: "backrefNode p i = Inr n \<Longrightarrow> 1 \<le> i \<Longrightarrow> i \<le> k \<Longrightarrow> plain k n"
  by (auto simp: backrefNode_def split: if_splits)

lemma parse_decimal_escape_yields:
  assumes "parse_decimal_escape e p = Inr (n, p')" and "parser_ok p" and "peek p = Some c"
  shows "went p p' \<and> plain (p_totalCaptures p) n"
proof -
  obtain w q where r: "read_while is_digit p = (w, q)" by (cases "read_while is_digit p")
  have "went p q" using read_while_went [OF r] assms(2) by (simp add: ok_pos)
  moreover have "went p (snd (parseLegacyOctal p))" using parseLegacyOctal_went [of p] assms(2) by (metis ok_pos prod.collapse)
  ultimately show ?thesis
    using assms(1,3) by (auto simp: parse_decimal_escape_def r Let_def peek_Some split: if_splits prod.splits dest: backref_plain)
qed

lemma parse_named_backref_yields:
  assumes "parse_named_backref p = Inr (n, p')" and "parser_ok p" and "peek p = Some c"
  shows "went p p' \<and> plain (p_totalCaptures p) n"
proof (cases "p_groupNames p = []")
  case True
  then show ?thesis using assms by (auto simp: parse_named_backref_def peek_Some split: if_splits)
next
  case False
  obtain w q where r: "read_while (\<lambda>c. c \<noteq> ch CHR ''>'') (advance 1 (advance 1 p)) = (w, q)"
    by (cases "read_while (\<lambda>c. c \<noteq> ch CHR ''>'') (advance 1 (advance 1 p))")
  obtain name idx where q: "peek (advance 1 p) = Some (ch CHR ''<'')" "peek q = Some (ch CHR ''>'')" "p' = advance 1 q"
    "map_of (p_groupNames q) name = Some idx" "backrefNode q idx = Inr n"
    using assms(1) False r by (auto simp: parse_named_backref_def Let_def split: if_splits option.splits)
  have "went p (advance 1 (advance 1 p))" using q(1) by (simp add: peek_Some)
  moreover have "went (advance 1 (advance 1 p)) q" using read_while_went [OF r] q(1) by (simp add: peek_Some)
  moreover have "went q p'" using q(2,3) went_peek by blast
  ultimately have w: "went p q" "went p p'" by (blast intro: went_trans)+
  have "1 \<le> idx \<and> idx \<le> p_totalCaptures p"
    using went_fields [OF w(1)] map_of_SomeD [OF q(4)] assms(2) by (auto simp: parser_ok_def)
  then show ?thesis using w(2) backref_plain [OF q(5)] by simp
qed

lemma us_inv_ranges: "us_inv S \<Longrightarrow> ranges_ok (us_ranges S)"
  by (simp add: us_inv_def cp_ranges_def)

lemma parse_property_escape_yields:
  assumes "parse_property_escape host p = Inr (n, p')"
  shows "went p p' \<and> plain k n"
proof -
  obtain s where e: "extractPropertyEscapeSource p = Inr (s, p')"
    and n: "(case (if p_vMode p' then unicodeStringPropertyEscape host s else None) of
            None \<Rightarrow> uEnum host p' s | Some S \<Rightarrow> uStringSet host p' S) = Inr n"
    using assms by (auto simp: parse_property_escape_def split: if_splits)
  have "plain k n"
    using n plain_uStringSet us_inv_ranges [OF us_inv_property_escape]
    by (auto split: option.splits if_splits dest: plain_uEnum)
  then show ?thesis using extractPropertyEscapeSource_went [OF e] by simp
qed

lemma readHex4_went: "readHex4 p = Inr (v, p') \<Longrightarrow> p' = advance 4 p \<and> went p p' \<and> p_pos p + 4 \<le> length (p_src p)"
  by (auto simp: readHex4_def dest: hex_at_bound split: if_splits option.splits)

lemma startsWith_length: "startsWith s t i \<Longrightarrow> t = [] \<or> i + length t \<le> length s"
proof -
  assume "startsWith s t i"
  then have "length (take (length t) (drop i s)) = length t" by (simp add: startsWith_def)
  then show ?thesis by (cases "i \<le> length s") auto
qed

lemma trail_escape_yields: "trail_escape host lead p = Some (n, p') \<Longrightarrow> went p p' \<and> plain k n"
  by (auto simp: trail_escape_def dest!: readHex4_went startsWith_length dest: plain_uChar
      split: if_splits sum.splits)

lemma parseUnicodeEscapeTail_yields:
  assumes "parseUnicodeEscapeTail host p = Inr (n, p')" and "peek p = Some c"
  shows "went p p' \<and> plain k n"
proof (cases "peek p = Some (ch CHR ''u'')")
  case False
  then show ?thesis
    using assms by (auto simp: parseUnicodeEscapeTail_def dest!: parseEscapedCodeUnit_went dest: plain_uChar)
next
  case u: True
  have w1: "went p (advance 1 p)" using u by (rule went_peek)
  show ?thesis
  proof (cases "peek (advance 1 p) = Some (ch CHR ''{'')")
    case True
    obtain w q where r: "read_while (\<lambda>c. c \<noteq> ch CHR ''}'') (advance 1 (advance 1 p)) = (w, q)"
      by (cases "read_while (\<lambda>c. c \<noteq> ch CHR ''}'') (advance 1 (advance 1 p))")
    have q: "peek q = Some (ch CHR ''}'')" "uChar host q (parseInt 16 w) = Inr n" "p' = advance 1 q"
      using assms(1) u True r by (auto simp: parseUnicodeEscapeTail_def Let_def split: if_splits)
    have "went (advance 1 p) (advance 1 (advance 1 p))" using True by (rule went_peek)
    moreover have "went (advance 1 (advance 1 p)) q" using read_while_went [OF r] True by (simp add: peek_Some)
    moreover have "went q p'" using q(1,3) went_peek by blast
    ultimately show ?thesis using w1 plain_uChar [OF q(2)] by (blast intro: went_trans)
  next
    case False
    then obtain lead q where h: "readHex4 (advance 1 p) = Inr (lead, q)"
      and t: "(case trail_escape host lead q of Some r \<Rightarrow> Inr r | None \<Rightarrow> rbind (uChar host q lead) (\<lambda>node. Inr (node, q))) = Inr (n, p')"
      using assms(1) u by (auto simp: parseUnicodeEscapeTail_def Let_def)
    have w: "went p q" using went_trans [OF w1] readHex4_went [OF h] by blast
    show ?thesis
    proof (cases "trail_escape host lead q")
      case None
      then show ?thesis using t w by (auto dest: plain_uChar)
    next
      case (Some r)
      then have "trail_escape host lead q = Some (n, p')" using t by simp
      then show ?thesis using trail_escape_yields went_trans [OF w] by blast
    qed
  qed
qed

lemma tables_ok: "ranges_ok DIGIT" "ranges_ok WORD" "ranges_ok SPACE"
  by (simp_all add: DIGIT_def WORD_def SPACE_def ranges_ok_def)

lemma complements_ok: "ranges_ok NOT_DIGIT" "ranges_ok NOT_WORD" "ranges_ok NOT_SPACE"
  using complementRanges_cp [OF tables_ok(1)] complementRanges_cp [OF tables_ok(2)] complementRanges_cp [OF tables_ok(3)]
  by (simp_all add: NOT_DIGIT_def NOT_WORD_def NOT_SPACE_def cp_ranges_def DIGIT_def WORD_def SPACE_def)

lemma plain_shorthand: "plain k (shorthand_atom e)"
  by (simp add: shorthand_atom_def tables_ok)

lemma parseEscapeAtom_went:
  assumes "parseEscapeAtom host p = Inr (n, p')" and "parser_ok p" and "peek p = Some c"
  shows "went p p' \<and> plain (p_totalCaptures p) n \<and> p_pos p < p_pos p'"
proof -
  let ?q = "advance 1 p"
  have w1: "went p ?q" using assms(3) by (rule went_peek)
  then have ok: "parser_ok ?q" using grew_ok [OF went_grew] assms(2) by blast
  obtain e where e: "peek ?q = Some e" using assms(1) by (auto simp: parseEscapeAtom_def Let_def split: option.splits)
  have w2: "went ?q (advance 1 ?q)" using e by (rule went_peek)
  have "went ?q p' \<and> plain (p_totalCaptures p) n"
    using assms(1) e w2 parse_decimal_escape_yields [OF _ ok e, of e n p'] parse_named_backref_yields [OF _ ok e, of n p']
      parse_property_escape_yields [of host ?q n p' "p_totalCaptures p"] parseUnicodeEscapeTail_yields [OF _ e, of host n p' "p_totalCaptures p"]
      plain_shorthand [of "p_totalCaptures p"] plain_uEnum [of host ?q _ n "p_totalCaptures p"]
    by (auto simp: parseEscapeAtom_def Let_def split: if_splits dest!: parseEscapedCodeUnit_went simp del: advance_advance)
  then show ?thesis
    using went_trans [OF w1, of p'] went_fields [of ?q p'] by auto
qed

section \<open>Classes yield atoms\<close>

lemma parseClassMember_went:
  assumes "parseClassMember p = Inr (m, p')"
  shows "went p p' \<and> p_pos p < p_pos p' \<and> (case m of MShorthand rs \<Rightarrow> ranges_ok rs | MChar c \<Rightarrow> True)"
proof (cases "peek p = Some backslash")
  case True
  have w1: "went p (advance 1 p)" using True by (rule went_peek)
  have e: "went p q \<and> p_pos p < p_pos q" if "parseEscapedCodeUnit True (advance 1 p) = Inr (v, q)" for v q
    using went_trans [OF w1 parseEscapedCodeUnit_went [OF that]] went_fields [OF parseEscapedCodeUnit_went [OF that]] by auto
  have s: "p_pos p + 2 \<le> length (p_src p)" if "peek (advance 1 p) = Some x" for x using that by (simp add: peek_Some)
  show ?thesis
  proof (cases "\<exists>v q. parseEscapedCodeUnit True (advance 1 p) = Inr (v, q) \<and> m = MChar v \<and> p' = q")
    case True
    then show ?thesis using e by auto
  next
    case False
    then show ?thesis
      using assms \<open>peek p = Some backslash\<close> s
      by (auto simp: parseClassMember_def Let_def tables_ok complements_ok split: if_splits)
  qed
next
  case False
  then show ?thesis using assms by (auto simp: parseClassMember_def peek_Some dest!: went_next)
qed

lemma parse_class_item_went:
  assumes "parse_class_item p = Inr (rs, p')"
  shows "went p p' \<and> p_pos p < p_pos p' \<and> ranges_ok rs"
proof -
  obtain m q where m: "parseClassMember p = Inr (m, q)" using assms by (auto simp: parse_class_item_def)
  note w = parseClassMember_went [OF m]
  have d: "went q (advance 1 q)" if "dash_between q" using that by (auto simp: dash_between_def peek_Some)
  have d': "went p (advance 1 q)" if "dash_between q" using d [OF that] w by (blast intro: went_trans)
  have h: "went p r \<and> p_pos p < p_pos r \<and> (case x of MShorthand rs \<Rightarrow> ranges_ok rs | MChar c \<Rightarrow> True)"
    if "dash_between q" "parseClassMember (advance 1 q) = Inr (x, r)" for x r
    using parseClassMember_went [OF that(2)] went_trans [OF d' [OF that(1)]] w by auto
  show ?thesis
    using assms m w d' by (fastforce simp: parse_class_item_def ranges_ok_def split: class_member.splits if_splits dest!: h)
qed

lemma class_items_went:
  "class_items k p = Inr (rs, p') \<Longrightarrow> p_pos p \<le> length (p_src p) \<Longrightarrow> went p p' \<and> ranges_ok rs"
proof (induction k arbitrary: p rs)
  case (Suc k)
  show ?case
  proof (cases "eof p \<or> peek p = Some (ch CHR '']'')")
    case True
    then show ?thesis using Suc.prems by (auto simp: went_refl)
  next
    case False
    then obtain xs q ys where i: "parse_class_item p = Inr (xs, q)" "class_items k q = Inr (ys, p')" "rs = xs @ ys"
      using Suc.prems by auto
    note w = parse_class_item_went [OF i(1)]
    have "went q p' \<and> ranges_ok ys" using Suc.IH [OF i(2)] w went_fields [of p q] by simp
    then show ?thesis using w i(3) by (auto intro: went_trans simp: ranges_ok_def)
  qed
qed simp

lemma parseClass_went:
  assumes "parseClass p = Inr (n, p')" and "peek p = Some c"
  shows "went p p' \<and> plain k n \<and> p_pos p < p_pos p'"
proof -
  let ?neg = "peek (advance 1 p) = Some (ch CHR ''^'')"
  define q where "q = (if ?neg then advance 1 (advance 1 p) else advance 1 p)"
  have wq: "went p q \<and> p_pos p < p_pos q" using assms(2) by (auto simp: q_def peek_Some)
  obtain rs r where r: "class_items (Suc (rest_length q)) q = Inr (rs, r)" "peek r = Some (ch CHR '']'')"
    "n = RClass rs ?neg" "p' = advance 1 r"
    using assms(1) by (auto simp: parseClass_def Let_def q_def split: if_splits simp del: class_items.simps advance_advance)
  note w = class_items_went [OF r(1)]
  have "went q r" "ranges_ok rs" using w wq went_fields [of p q] by auto
  moreover have "went r p'" using r(2,4) went_peek by blast
  ultimately have "went p p'" "went q p'" using wq by (blast intro: went_trans)+
  then show ?thesis using \<open>ranges_ok rs\<close> wq r(3) went_fields [of q p'] by auto
qed

lemma parse_unicode_class_went:
  assumes "parse_unicode_class host p = Inr (n, p')"
  shows "went p p' \<and> plain k n \<and> p_pos p < p_pos p'"
proof -
  obtain s where e: "extractClassSource p = Inr (s, p')"
    using assms by (auto simp: parse_unicode_class_def)
  have "plain k n"
    using assms e us_inv_eval_class [THEN us_inv_ranges]
    by (auto simp: parse_unicode_class_def evaluateUnicodeStringClass_def split: if_splits simp del: eval_class.simps
        dest: plain_uEnum plain_uEnumClassWithStrings plain_uStringSet)
  then show ?thesis using extractClassSource_went [OF e] by simp
qed

section \<open>Quantifiers\<close>

lemma consumeLazy_went: "consumeLazy p = (g, p') \<Longrightarrow> p_pos p \<le> length (p_src p) \<Longrightarrow> went p p'"
  by (auto simp: consumeLazy_def peek_Some split: if_splits)

lemma tryParseBraceQuantifier_went:
  assumes "tryParseBraceQuantifier p = Inr (Some (mn, mx), p')"
  shows "went p p'"
proof -
  obtain w q where r: "read_while is_digit (advance 1 p) = (w, q)" by (cases "read_while is_digit (advance 1 p)")
  obtain w' q' where r': "read_while is_digit (advance 1 q) = (w', q')" by (cases "read_while is_digit (advance 1 q)")
  have b: "peek p = Some (ch CHR ''{'')" using assms by (auto simp: tryParseBraceQuantifier_def split: if_splits)
  have wq: "went p q" using went_trans [OF went_peek [OF b]] read_while_went [OF r] b by (auto simp: peek_Some)
  have wq': "went p q'" if "peek q = Some (ch CHR '','')"
    using went_trans [OF wq went_trans [OF went_peek [OF that]]] read_while_went [OF r'] that by (auto simp: peek_Some)
  have "p' = advance 1 q \<and> peek q = Some (ch CHR ''}'')
      \<or> p' = advance 1 q' \<and> peek q = Some (ch CHR '','') \<and> peek q' = Some (ch CHR ''}'')"
    using assms b r r' by (auto simp: tryParseBraceQuantifier_def Let_def split: if_splits simp del: advance_advance)
  then show ?thesis using wq wq' went_peek went_trans by blast
qed

lemma yields_quantify: "yields p [n] q \<Longrightarrow> yields p [quantify n c g] q"
  by (auto simp: quantify_def intro: yields_wrap)

lemma yields_drop: "yields p ns q \<Longrightarrow> yields p [RConcat []] q"
  by (simp add: yields_def)

lemma yields_quantify_braces: "yields p [n] q \<Longrightarrow> yields p [quantify_braces n mn mx g] q"
  by (auto simp: quantify_braces_def intro: yields_wrap yields_drop)

lemma grew_pos: "grew p q \<Longrightarrow> p_pos q \<le> length (p_src q)"
  using grew_fields [of p q] by (simp add: grew_def)

lemma parse_quantifier_went:
  assumes "parse_quantifier atom q = Inr (n, p')" and q: "p_pos q \<le> length (p_src q)"
  shows "went q p' \<and> (n = atom \<or> (\<exists>c g. n = quantify atom c g) \<or> (\<exists>mn mx g. n = quantify_braces atom mn mx g))"
proof (cases "peek q")
  case None
  then show ?thesis using assms by (simp add: parse_quantifier_def)
next
  case (Some c)
  consider (same) "n = atom" "p' = q"
    | (simple) g where "consumeLazy (advance 1 q) = (g, p')" "n = quantify atom c g"
    | (braces) mn mx r g where "tryParseBraceQuantifier q = Inr (Some (mn, mx), r)" "consumeLazy r = (g, p')" "n = quantify_braces atom mn mx g"
    using assms(1) Some by (auto simp: parse_quantifier_def split: if_splits option.splits prod.splits)
  then show ?thesis
  proof cases
    case same
    then show ?thesis using q by simp
  next
    case simple
    have "went q p'" using went_trans [OF went_peek [OF Some]] consumeLazy_went [OF simple(1)] Some by (simp add: peek_Some)
    then show ?thesis using simple(2) by blast
  next
    case braces
    have r: "went q r" using braces(1) by (rule tryParseBraceQuantifier_went)
    then have "went r p'" using consumeLazy_went [OF braces(2)] went_fields by simp
    with r have "went q p'" by (rule went_trans)
    then show ?thesis using braces(3) by blast
  qed
qed

lemma parse_quantifier_yields:
  assumes "parse_quantifier atom q = Inr (n, p')" and "yields p [atom] q"
  shows "yields p [n] p' \<and> p_pos q \<le> p_pos p'"
proof -
  note q = parse_quantifier_went [OF assms(1) grew_pos [OF yields_grew [OF assms(2)]]]
  then have "yields p [n] q" using assms(2) yields_quantify yields_quantify_braces by blast
  then show ?thesis using q yields_then went_fields by blast
qed

lemma parse_quantifier_grew: "parse_quantifier atom q = Inr (n, p') \<Longrightarrow> p_pos q \<le> length (p_src q) \<Longrightarrow> grew q p'"
  using parse_quantifier_went went_grew by blast

section \<open>Groups\<close>

text \<open>Opening a group moves the cursor and counts the group if it captures.\<close>

definition opens :: "parser \<Rightarrow> group_kind \<Rightarrow> parser \<Rightarrow> bool" where
  "opens p g q \<longleftrightarrow> grew p q \<and> p_pos p < p_pos q
     \<and> (case g of Capture i nm \<Rightarrow> i = Suc (p_numCaptures p) \<and> p_numCaptures q = i | _ \<Rightarrow> p_numCaptures q = p_numCaptures p)"

lemma opens_went: "went p q \<Longrightarrow> p_pos p < p_pos q \<Longrightarrow> (\<And>i nm. g \<noteq> Capture i nm) \<Longrightarrow> opens p g q"
  using went_fields [of p q] by (auto simp: opens_def went_grew split: group_kind.split)

lemma opens_capture: "went p q \<Longrightarrow> p_pos p < p_pos q \<Longrightarrow> opens p (Capture (Suc (p_numCaptures p)) nm) (q\<lparr>p_numCaptures := Suc (p_numCaptures p)\<rparr>)"
  by (cases p; cases q) (auto simp: opens_def went_def grew_def)

lemma parseModifiers_went:
  assumes "parseModifiers p = Inr (m, p')" and "p_pos p \<le> length (p_src p)"
  shows "went p p'"
proof -
  obtain w q where r: "read_while (\<lambda>c. c \<noteq> ch CHR ''-'' \<and> c \<noteq> ch CHR '':'') p = (w, q)"
    by (cases "read_while (\<lambda>c. c \<noteq> ch CHR ''-'' \<and> c \<noteq> ch CHR '':'') p")
  obtain w' q' where r': "read_while (\<lambda>c. c \<noteq> ch CHR '':'') (advance 1 q) = (w', q')"
    by (cases "read_while (\<lambda>c. c \<noteq> ch CHR '':'') (advance 1 q)")
  have wq: "went p q" using read_while_went [OF r assms(2)] by simp
  have wq': "went p q'" if "peek q = Some (ch CHR ''-'')"
    using went_trans [OF wq went_trans [OF went_peek [OF that]]] read_while_went [OF r'] that by (auto simp: peek_Some)
  have "(p' = advance 1 q \<and> peek q = Some (ch CHR '':'')) \<or> (p' = advance 1 q' \<and> peek q' = Some (ch CHR '':'') \<and> peek q = Some (ch CHR ''-''))"
    using assms(1) r r' by (auto simp: parseModifiers_def Let_def split: if_splits prod.splits)
  then show ?thesis using wq wq' went_peek went_trans by blast
qed

lemma parse_named_group_opens:
  assumes "parse_named_group q = Inr (g, p')" and "went p q" and "p_pos p < p_pos q"
  shows "opens p g p'"
proof -
  obtain w r where r: "read_while (\<lambda>c. c \<noteq> ch CHR ''>'') q = (w, r)" by (cases "read_while (\<lambda>c. c \<noteq> ch CHR ''>'') q")
  have wr: "went q r" using read_while_went [OF r] went_fields [OF assms(2)] by simp
  obtain name where n: "peek r = Some (ch CHR ''>'')" "g = Capture (Suc (p_numCaptures r)) (Some name)"
    "p' = (advance 1 r)\<lparr>p_numCaptures := Suc (p_numCaptures r)\<rparr>"
    using assms(1) r by (auto simp: parse_named_group_def Let_def split: if_splits)
  have "went p (advance 1 r)" using went_trans [OF assms(2) went_trans [OF wr went_peek [OF n(1)]]] .
  moreover have "p_numCaptures r = p_numCaptures p" "p_pos q \<le> p_pos r" using went_fields [OF assms(2)] went_fields [OF wr] by simp_all
  ultimately show ?thesis using opens_capture [of p "advance 1 r"] assms(3) n(2,3) by simp
qed

lemma parse_group_open_opens:
  assumes "parse_group_open p = Inr (g, p')" and "peek p = Some c"
  shows "opens p g p'"
proof -
  let ?q = "advance 1 p"
  have w1: "went p ?q" using assms(2) by (rule went_peek)
  show ?thesis
  proof (cases "peek ?q = Some (ch CHR ''?'')")
    case False
    then show ?thesis using assms(1) opens_capture [OF w1] by (auto simp: parse_group_open_def Let_def)
  next
    case True
    let ?r = "advance 1 ?q"
    have w2: "went p ?r" using went_trans [OF w1 went_peek [OF True]] .
    have more: "went p (advance 1 ?r)" if "peek ?r = Some x" for x using went_trans [OF w2 went_peek [OF that]] .
    have named: "opens p g p'" if "parse_named_group (advance 1 ?r) = Inr (g, p')" "peek ?r = Some x" for x
      using parse_named_group_opens [OF that(1) more [OF that(2)]] by simp
    have look: "went p (advance 1 (advance 1 ?r))" if "peek (advance 1 ?r) = Some x" for x
      using that by (simp add: peek_Some)
    have mods: "opens p (Modifiers a b) p'" if "parseModifiers ?r = Inr ((a, b), p')" for a b
      using went_trans [OF w2 parseModifiers_went [OF that]] went_fields [OF parseModifiers_went [OF that]] went_fields [OF w2]
      by (intro opens_went) auto
    show ?thesis
      using assms(1) True more look named mods
      by (auto simp: parse_group_open_def Let_def split: if_splits intro: opens_went simp del: advance_advance)
  qed
qed

lemma iState_pos [simp]: "p\<lparr>p_iState := b\<rparr>\<lparr>p_iState := p_iState p\<rparr> = p"
  by simp

lemma yields_iState:
  assumes "yields (q\<lparr>p_iState := i\<rparr>) ns r"
  shows "yields q ns (r\<lparr>p_iState := p_iState q\<rparr>)"
  using assms unfolding yields_def grew_def by (cases q; cases r) auto

lemma yields_group:
  assumes "opens p g q" and "yields q [n] r"
  shows "yields p [group_node g n] r"
proof -
  have g: "grew p r" using assms grew_trans by (auto simp: opens_def yields_def)
  have f: "p_totalCaptures q = p_totalCaptures p" using assms(1) grew_fields by (auto simp: opens_def)
  have c: "p_numCaptures q \<le> p_numCaptures r" using assms(2) by (simp add: yields_def grew_def)
  show ?thesis
    using assms g f c numbered_Cons [of "p_numCaptures p" "p_numCaptures r" "all_groups n"]
    by (cases g) (auto simp: yields_def opens_def group_node_def nat_add_distrib)
qed

lemma parseGroup_yields:
  assumes "proceeds alternation" and "parser_ok p" and "parseGroup alternation p = Inr (n, p')" and "peek p = Some c"
  shows "yields p [n] p' \<and> p_pos p < p_pos p'"
proof -
  obtain g q inner r where q: "parse_group_open p = Inr (g, q)"
    and r: "alternation (q\<lparr>p_iState := group_iState g (p_iState q)\<rparr>) = Inr (inner, r)"
    and c: "peek (r\<lparr>p_iState := p_iState q\<rparr>) = Some (ch CHR '')'')"
    and n: "n = group_node g inner" and p': "p' = advance 1 (r\<lparr>p_iState := p_iState q\<rparr>)"
    using assms(3) by (auto simp: parseGroup_def Let_def split: if_splits)
  note o = parse_group_open_opens [OF q assms(4)]
  have "parser_ok q" using o grew_ok assms(2) by (auto simp: opens_def)
  then have "parser_ok (q\<lparr>p_iState := i\<rparr>)" for i by (simp add: parser_ok_def)
  then have y: "yields q [inner] (r\<lparr>p_iState := p_iState q\<rparr>)" using proceedsD [OF assms(1) _ r] yields_iState by blast
  have "yields p [n] p'" unfolding n p' using yields_then [OF yields_group [OF o y] went_peek [OF c]] .
  moreover have "p_pos p < p_pos q" "p_pos q \<le> p_pos r" using o y by (auto simp: opens_def yields_def grew_def)
  ultimately show ?thesis by (simp add: p')
qed

section \<open>The descent\<close>

lemma codePointAt_astral:
  assumes "codePointAt s i = Some cp" and "0xffff < cp" and "list_all (\<lambda>u. u < 0x10000) s"
  shows "i + 2 \<le> length s"
proof (cases "Suc i < length s")
  case False
  then have "i < length s" "cp = s ! i" using assms(1) by (auto simp: codePointAt_def char_at_def split: if_splits)
  then show ?thesis using assms(2,3) by (auto simp: list_all_length)
qed simp

lemma parse_literal_went:
  assumes "parse_literal host c p = Inr (n, p')" and "peek p = Some c" and "parser_ok p"
  shows "went p p' \<and> plain k n \<and> p_pos p < p_pos p'"
proof (cases "p_unicode p")
  case True
  obtain cp where cp: "codePointAt (p_src p) (p_pos p) = Some cp"
    using assms(2) by (cases "char_at (p_src p) (Suc (p_pos p))") (auto simp: codePointAt_def peek_def)
  have w: "went p (advance (if 0xffff < cp then 2 else 1) p)"
    using codePointAt_astral [OF cp] assms(2,3) by (auto simp: parser_ok_def peek_Some)
  show ?thesis
    using assms(1) True cp w by (auto simp: parse_literal_def Let_def dest: plain_uChar split: if_splits)
next
  case False
  then show ?thesis using assms(1) went_peek [OF assms(2)] by (auto simp: parse_literal_def)
qed

lemma consumes_atom:
  assumes "proceeds alternation"
  shows "consumes (parseAtom host alternation)"
  unfolding consumes_def
proof (intro allI impI)
  fix p n p'
  assume ok: "parser_ok p" and a: "parseAtom host alternation p = Inr (n, p')"
  then obtain c where c: "peek p = Some c" by (auto simp: parseAtom_def split: option.splits)
  have "yields p [m] (advance 1 p)" if "plain (p_totalCaptures p) m" for m using yields_plain [OF went_peek [OF c] that] .
  then show "yields p [n] p' \<and> p_pos p < p_pos p'"
    using a c parseGroup_yields [OF assms ok _ c] parse_unicode_class_went [of host p] parseClass_went [OF _ c]
      parseEscapeAtom_went [OF _ ok c] parse_literal_went [OF _ c ok] yields_plain [of p p' n]
    by (auto simp: parseAtom_def split: if_splits)
qed

lemma consumes_quantified: "proceeds alternation \<Longrightarrow> consumes (parseQuantified host alternation)"
proof -
  assume "proceeds alternation"
  note a = consumes_atom [OF this, of host]
  show ?thesis
    unfolding consumes_def
  proof (intro allI impI)
    fix p n p'
    assume ok: "parser_ok p" and q: "parseQuantified host alternation p = Inr (n, p')"
    then obtain atom r where "parseAtom host alternation p = Inr (atom, r)" "parse_quantifier atom r = Inr (n, p')"
      by (auto simp: parseQuantified_def)
    then show "yields p [n] p' \<and> p_pos p < p_pos p'" using consumesD [OF a ok] parse_quantifier_yields by fastforce
  qed
qed

lemma yields_concat_loop:
  "consumes f \<Longrightarrow> parser_ok p \<Longrightarrow> concat_loop k f p = Inr (ns, p') \<Longrightarrow> yields p ns p'"
proof (induction k arbitrary: p ns)
  case (Suc k)
  show ?case
  proof (cases "eof p \<or> peek p = Some (ch CHR ''|'') \<or> peek p = Some (ch CHR '')'')")
    case True
    then show ?thesis using Suc.prems yields_Nil by auto
  next
    case False
    then obtain n q ms where q: "f p = Inr (n, q)" "concat_loop k f q = Inr (ms, p')" "ns = n # ms"
      using Suc.prems by auto
    have "yields p [n] q" using consumesD [OF Suc.prems(1,2) q(1)] by simp
    moreover have "yields q ms p'"
      using Suc.IH [OF Suc.prems(1) _ q(2)] grew_ok [OF yields_grew Suc.prems(2)] calculation by blast
    ultimately show ?thesis unfolding q(3) by (rule yields_Cons)
  qed
qed simp

lemma proceeds_concat: "proceeds alternation \<Longrightarrow> proceeds (parseConcat host alternation)"
  unfolding proceeds_def [of "parseConcat host alternation"]
proof (intro allI impI)
  fix p n p'
  assume a: "proceeds alternation" and ok: "parser_ok p" and q: "parseConcat host alternation p = Inr (n, p')"
  then obtain parts where l: "concat_loop (Suc (rest_length p)) (parseQuantified host alternation) p = Inr (parts, p')"
    and n: "n = (case parts of [node] \<Rightarrow> node | _ \<Rightarrow> RConcat parts)"
    by (auto simp: parseConcat_def simp del: concat_loop.simps)
  have y: "yields p parts p'" using yields_concat_loop [OF consumes_quantified [OF a] ok l] .
  then have "yields p [RConcat parts] p'" by (rule yields_wrap) (auto simp: list_all_iff)
  with y show "yields p [n] p'" unfolding n by (auto split: list.split)
qed

lemma yields_alternatives_loop:
  "proceeds f \<Longrightarrow> parser_ok p \<Longrightarrow> alternatives_loop k f p = Inr (ns, p') \<Longrightarrow> yields p ns p'"
proof (induction k arbitrary: p ns)
  case (Suc k)
  show ?case
  proof (cases "peek p = Some (ch CHR ''|'')")
    case False
    then show ?thesis using Suc.prems yields_Nil by auto
  next
    case True
    then obtain n q ms where q: "f (advance 1 p) = Inr (n, q)" "alternatives_loop k f q = Inr (ms, p')" "ns = n # ms"
      using Suc.prems by auto
    have w: "went p (advance 1 p)" using True by (rule went_peek)
    then have ok: "parser_ok (advance 1 p)" using grew_ok [OF went_grew] Suc.prems(2) by blast
    have y: "yields (advance 1 p) [n] q" using proceedsD [OF Suc.prems(1) ok q(1)] .
    have "yields q ms p'" using Suc.IH [OF Suc.prems(1) _ q(2)] grew_ok [OF yields_grew ok] y by blast
    with y have "yields (advance 1 p) ns p'" unfolding q(3) by (rule yields_Cons)
    then show ?thesis using grew_trans [OF went_grew [OF w]] by (simp add: yields_def)
  qed
qed simp

lemma proceeds_alternation: "proceeds (parseAlternation depth host)"
proof (induction depth)
  case (Suc depth)
  note c = proceeds_concat [OF Suc, of host]
  show ?case
    unfolding proceeds_def
  proof (intro allI impI)
    fix p n p'
    assume ok: "parser_ok p" and a: "parseAlternation (Suc depth) host p = Inr (n, p')"
    then obtain m q ms where q: "parseConcat host (parseAlternation depth host) p = Inr (m, q)"
      "alternatives_loop (Suc (rest_length q)) (parseConcat host (parseAlternation depth host)) q = Inr (ms, p')"
      "n = (if ms = [] then m else RAlt (m # ms))"
      by (auto simp del: alternatives_loop.simps)
    have y: "yields p [m] q" using proceedsD [OF c ok q(1)] .
    then have "yields q ms p'" using yields_alternatives_loop [OF c _ q(2)] grew_ok [OF yields_grew ok] by blast
    with y have l: "yields p (m # ms) p'" by (rule yields_Cons)
    then have "yields p [RAlt (m # ms)] p'" by (rule yields_wrap) (auto simp: list_all_iff)
    with l show "yields p [n] p'" by (auto simp: q(3))
  qed
qed (simp add: proceeds_def)

section \<open>The descent ends\<close>

lemma clean_decode_loop: "clean (decode_name_loop raw i out)"
proof (induction raw i out rule: decode_name_loop.induct)
  case (1 raw i out)
  moreover have "clean (decode_name_step raw i)" by (auto simp: decode_name_step_def Let_def intro!: clean_intros)
  ultimately show ?case by (subst decode_name_loop.simps) (auto intro!: clean_intros)
qed

lemma clean_decodeGroupName [clean_intros]: "clean (decodeGroupName raw)"
  by (simp add: decodeGroupName_def clean_decode_loop)

lemma clean_scan_loop: "clean (scan_loop src i inClass count names)"
proof (induction src i inClass count names rule: scan_loop.induct)
  case (1 src i inClass count names)
  have "clean (scan_paren src i count names)" by (auto simp: scan_paren_def intro!: clean_intros)
  with 1 show ?case by (subst scan_loop.simps) (auto intro!: clean_intros)
qed

lemma clean_next [clean_intros]: "clean (next_unit p)"
  by (simp add: next_unit_def split: option.split)

lemma clean_uChar [clean_intros]: "clean (uChar host p cp)"
  by (auto simp: uChar_def intro!: clean_intros)

lemma clean_uEnum [clean_intros]: "clean (uEnum host p s)"
  by (auto simp: uEnum_def intro!: clean_intros)

lemma clean_branches:
  assumes "\<And>cp sig tail. (cp, sig, tail) \<in> set cs \<Longrightarrow> clean tail"
  shows "clean (rmap (trie_branch host p) (fold add_child cs []))"
proof (rule clean_rmap)
  fix x
  assume "x \<in> set (fold add_child cs [])"
  then have "snd (snd x) \<in> (snd \<circ> snd) ` set cs" using fold_add_child_tails [of cs "[]"] by force
  then have "clean (snd (snd x))" using assms by force
  moreover have "clean (uStringTrieHead host p (fst (snd x)))" by (auto simp: uStringTrieHead_def intro!: clean_intros)
  ultimately show "clean (trie_branch host p x)" by (auto simp: trie_branch_def split_def intro!: clean_rbind)
qed

lemma clean_trie: "clean (uStringTrieNode host p t)"
proof (induction host p t rule: uStringTrieNode.induct)
  case (1 host p terminal children)
  then show ?case by (auto intro!: clean_rbind clean_branches)
qed

lemma clean_uStringSet [clean_intros]: "clean (uStringSet host p S)"
  by (auto simp: uStringSet_def uStringTrieBranches_def Let_def clean_trie intro!: clean_rbind clean_branches split: unicode_trie.split)

lemma clean_q_spans: "clean (q_spans_loop body i depth spans)"
proof (induction body i depth spans rule: q_spans_loop.induct)
  case (1 body i depth spans)
  then show ?case by (subst q_spans_loop.simps) (auto simp: Let_def intro!: clean_intros)
qed

lemma clean_uEnumClassWithStrings [clean_intros]: "clean (uEnumClassWithStrings host p s)"
  by (auto simp: uEnumClassWithStrings_def span_arms_def operand_arm_def residual_arm_def clean_q_spans Let_def split_def
      intro!: clean_intros)

lemma clean_escaped [clean_intros]: "clean (parseEscapedCodeUnit inClass p)"
  by (auto simp: parseEscapedCodeUnit_def parse_control_escape_def intro!: clean_intros split: option.split)

lemma clean_extractProperty [clean_intros]: "clean (extractPropertyEscapeSource p)"
  by (auto simp: extractPropertyEscapeSource_def Let_def split_def intro!: clean_intros)

lemma clean_extractClass [clean_intros]: "clean (extractClassSource p)"
  by (simp add: extractClassSource_def split: option.split)

lemma clean_readHex4 [clean_intros]: "clean (readHex4 p)"
  by (simp add: readHex4_def split: option.split)

lemma clean_unicodeTail [clean_intros]: "clean (parseUnicodeEscapeTail host p)"
  by (auto simp: parseUnicodeEscapeTail_def Let_def split_def intro!: clean_intros)

lemma clean_backref [clean_intros]: "clean (backrefNode p i)"
  by (simp add: backrefNode_def)

lemma clean_escapeAtom [clean_intros]: "clean (parseEscapeAtom host p)"
  by (auto simp: parseEscapeAtom_def parse_decimal_escape_def parse_named_backref_def parse_property_escape_def Let_def split_def
      intro!: clean_intros)

lemma clean_member [clean_intros]: "clean (parseClassMember p)"
  by (auto simp: parseClassMember_def Let_def intro!: clean_intros)

lemma clean_item [clean_intros]: "clean (parse_class_item p)"
  by (auto simp: parse_class_item_def intro!: clean_intros split: class_member.split)

lemma clean_class_items: "rest_length p < k \<Longrightarrow> clean (class_items k p)"
proof (induction k arbitrary: p)
  case (Suc k)
  have "clean (class_items k q)" if "\<not> eof p" "parse_class_item p = Inr (rs, q)" for rs q
    using parse_class_item_went [OF that(2)] went_fields [of p q] that(1) Suc.prems
    by (intro Suc.IH) (auto simp: rest_length_def eof_def)
  then show ?case by (auto intro!: clean_intros)
qed simp

lemma clean_parseClass [clean_intros]: "clean (parseClass p)"
  by (auto simp: parseClass_def Let_def clean_class_items intro!: clean_intros simp del: class_items.simps)

lemma clean_quantifier [clean_intros]: "clean (parse_quantifier atom p)"
  by (auto simp: parse_quantifier_def tryParseBraceQuantifier_def Let_def split_def intro!: clean_intros)

lemma clean_rfold: "(\<And>x s. clean (f x s)) \<Longrightarrow> clean (rfold f xs s)"
  by (induction xs arbitrary: s) (auto intro!: clean_rbind)

lemma clean_modifiers [clean_intros]: "clean (parseModifiers p)"
proof -
  have "clean (add_modifier seen c acc)" for seen c acc
    by (auto simp: add_modifier_def modifier_bit_def intro!: clean_intros)
  then show ?thesis by (auto simp: parseModifiers_def Let_def split_def intro!: clean_intros clean_rfold)
qed

lemma clean_groupOpen [clean_intros]: "clean (parse_group_open p)"
  by (auto simp: parse_group_open_def parse_named_group_def Let_def split_def intro!: clean_intros)

lemma clean_unicodeClass [clean_intros]: "clean (parse_unicode_class host p)"
  by (auto simp: parse_unicode_class_def evaluateUnicodeStringClass_def intro!: clean_intros clean_eval_class simp del: eval_class.simps)

lemma rest_length_less: "grew p q \<Longrightarrow> p_pos p < p_pos q \<Longrightarrow> rest_length q < rest_length p"
  using grew_fields [of p q] by (auto simp: rest_length_def grew_def)

lemma clean_parseGroup:
  assumes "\<And>q. parser_ok q \<Longrightarrow> rest_length q < rest_length p \<Longrightarrow> clean (alternation q)" and "parser_ok p" and "peek p = Some c"
  shows "clean (parseGroup alternation p)"
proof -
  have "clean (alternation (q\<lparr>p_iState := i\<rparr>))" if "parse_group_open p = Inr (g, q)" for g q i
  proof -
    have o: "opens p g q" using that assms(3) by (rule parse_group_open_opens)
    then have "parser_ok (q\<lparr>p_iState := i\<rparr>)" "rest_length (q\<lparr>p_iState := i\<rparr>) < rest_length p"
      using grew_ok [of p q] rest_length_less [of p q] assms(2) by (auto simp: opens_def parser_ok_def rest_length_def)
    then show ?thesis by (rule assms(1))
  qed
  then show ?thesis by (auto simp: parseGroup_def Let_def intro!: clean_intros)
qed

lemma clean_parseQuantified:
  assumes "\<And>q. parser_ok q \<Longrightarrow> rest_length q < rest_length p \<Longrightarrow> clean (alternation q)" and "parser_ok p"
  shows "clean (parseQuantified host alternation p)"
proof -
  have "clean (parseAtom host alternation p)"
    using clean_parseGroup [OF assms(1,2)]
    by (auto simp: parseAtom_def parse_literal_def Let_def intro!: clean_intros split: option.split)
  then show ?thesis by (auto simp: parseQuantified_def intro!: clean_intros)
qed

lemma clean_concat_loop:
  assumes "consumes f" and "\<And>q. parser_ok q \<Longrightarrow> rest_length q \<le> m \<Longrightarrow> clean (f q)"
  shows "parser_ok p \<Longrightarrow> rest_length p < k \<Longrightarrow> rest_length p \<le> m \<Longrightarrow> clean (concat_loop k f p)"
proof (induction k arbitrary: p)
  case (Suc k)
  have "clean (concat_loop k f q)" if "f p = Inr (n, q)" for n q
  proof -
    have y: "yields p [n] q" "p_pos p < p_pos q" using consumesD [OF assms(1) Suc.prems(1) that] by simp_all
    then show ?thesis
      using Suc.IH [of q] Suc.prems grew_ok [OF yields_grew [OF y(1)]] rest_length_less [OF yields_grew [OF y(1)] y(2)] by simp
  qed
  then show ?case using assms(2) Suc.prems by (auto intro!: clean_intros)
qed simp

lemma clean_alternatives_loop:
  assumes "proceeds f" and "\<And>q. parser_ok q \<Longrightarrow> rest_length q \<le> m \<Longrightarrow> clean (f q)"
  shows "parser_ok p \<Longrightarrow> rest_length p < k \<Longrightarrow> rest_length p \<le> m \<Longrightarrow> clean (alternatives_loop k f p)"
proof (induction k arbitrary: p)
  case (Suc k)
  have "clean (f (advance 1 p)) \<and> (\<forall>n q. f (advance 1 p) = Inr (n, q) \<longrightarrow> clean (alternatives_loop k f q))"
    if "peek p = Some (ch CHR ''|'')"
  proof -
    have w: "went p (advance 1 p)" using that by (rule went_peek)
    have ok: "parser_ok (advance 1 p)" using grew_ok [OF went_grew [OF w]] Suc.prems(1) .
    have l: "rest_length (advance 1 p) < rest_length p" using rest_length_less [OF went_grew [OF w]] by simp
    have "clean (alternatives_loop k f q)" if "f (advance 1 p) = Inr (n, q)" for n q
    proof -
      have g: "grew (advance 1 p) q" using proceedsD [OF assms(1) ok that] by (rule yields_grew)
      then have "rest_length q \<le> rest_length (advance 1 p)" using grew_fields [OF g] by (auto simp: rest_length_def grew_def)
      then show ?thesis using Suc.IH [OF grew_ok [OF g ok]] Suc.prems l by simp
    qed
    then show ?thesis using assms(2) [OF ok] l Suc.prems by simp
  qed
  then show ?case by (auto intro!: clean_intros)
qed simp

lemma clean_alternation: "parser_ok p \<Longrightarrow> rest_length p < depth \<Longrightarrow> clean (parseAlternation depth host p)"
proof (induction depth arbitrary: p)
  case (Suc depth)
  let ?alt = "parseAlternation depth host"
  have c: "clean (parseConcat host ?alt q)" if "parser_ok q" "rest_length q \<le> rest_length p" for q
  proof -
    have "clean (concat_loop (Suc (rest_length q)) (parseQuantified host ?alt) q)"
      using that Suc.prems
      by (intro clean_concat_loop [where m = "rest_length q"] consumes_quantified proceeds_alternation clean_parseQuantified Suc.IH) auto
    then show ?thesis by (auto simp: parseConcat_def intro!: clean_rbind simp del: concat_loop.simps)
  qed
  have "clean (alternatives_loop (Suc (rest_length q)) (parseConcat host ?alt) q)"
    if "parseConcat host ?alt p = Inr (n, q)" for n q
  proof -
    have g: "grew p q" using proceedsD [OF proceeds_concat [OF proceeds_alternation] Suc.prems(1) that] by (rule yields_grew)
    then have "rest_length q \<le> rest_length p" using grew_fields [OF g] by (auto simp: rest_length_def grew_def)
    then show ?thesis
      using grew_ok [OF g Suc.prems(1)]
      by (intro clean_alternatives_loop [where m = "rest_length q"] proceeds_concat proceeds_alternation c) auto
  qed
  then show ?case using c [OF Suc.prems(1)] by (auto intro!: clean_rbind simp del: alternatives_loop.simps)
qed simp

section \<open>Whole patterns\<close>

definition names_ok :: "nat \<Rightarrow> (jsstring \<times> nat) list \<Rightarrow> bool" where
  "names_ok k names \<longleftrightarrow> (\<forall>(nm, i)\<in>set names. 1 \<le> i \<and> i \<le> k)"

lemma scan_paren_names:
  "scan_paren src i count names = Inr (count', names') \<Longrightarrow> names_ok count names \<Longrightarrow> names_ok count' names'"
  by (fastforce simp: scan_paren_def add_name_def names_ok_def split: if_splits)

lemma scan_loop_names:
  "scan_loop src i inClass count names = Inr (count', names') \<Longrightarrow> names_ok count names \<Longrightarrow> names_ok count' names'"
proof (induction src i inClass count names rule: scan_loop.induct)
  case (1 src i inClass count names)
  then show ?case
    by (auto simp: scan_loop.simps [of src i inClass count names] split: if_splits) (use scan_paren_names in blast)
qed

lemma new_parser_ok:
  assumes "new_parser pattern flags = Inr p" and "\<forall>u\<in>set pattern. u < 0x10000"
  shows "parser_ok p" and "p_numCaptures p = 0" and "p_pos p = 0" and "p_src p = pattern"
    and "scanGroups pattern = Inr (p_totalCaptures p, p_groupNames p)"
proof -
  obtain count names where s: "scanGroups pattern = Inr (count, names)"
    and p: "p_src p = pattern" "p_pos p = 0" "p_numCaptures p = 0" "p_totalCaptures p = count" "p_groupNames p = names"
    using assms(1) by (auto simp: new_parser_def)
  have "names_ok count names" using scan_loop_names [OF s [unfolded scanGroups_def]] by (simp add: names_ok_def)
  then show "parser_ok p" using assms(2) p by (simp add: parser_ok_def names_ok_def list_all_iff)
  show "p_numCaptures p = 0" "p_pos p = 0" "p_src p = pattern" "scanGroups pattern = Inr (p_totalCaptures p, p_groupNames p)"
    using p s by simp_all
qed

lemma parsePattern_ends:
  assumes "\<forall>u\<in>set pattern. u < 0x10000"
  shows "parsePattern host pattern flags \<noteq> Inl OutOfFuel"
proof -
  have "clean (parse_whole host p)" if "new_parser pattern flags = Inr p" for p
    using clean_alternation [OF new_parser_ok(1) [OF that assms]] new_parser_ok(3,4) [OF that assms]
    by (auto simp: parse_whole_def rest_length_def intro!: clean_intros simp del: parseAlternation.simps)
  moreover have "clean (new_parser pattern flags)"
    by (auto simp: new_parser_def scanGroups_def clean_scan_loop intro!: clean_intros)
  ultimately have "clean (parsePattern host pattern flags)" by (auto simp: parsePattern_def intro!: clean_intros)
  then show ?thesis by (simp add: clean_def)
qed

lemma parsePattern_cases:
  assumes "parsePattern host pattern flags = Inr parsed" and "\<forall>u\<in>set pattern. u < 0x10000"
  obtains p p' where "new_parser pattern flags = Inr p" and "parser_ok p" and "yields p [pr_root parsed] p'"
    and "pr_numCaptures parsed = p_numCaptures p'" and "pr_groupNames parsed = p_groupNames p"
    and "parseAlternation (Suc (length pattern)) host p = Inr (pr_root parsed, p')" and "eof p'"
proof -
  obtain p p' where n: "new_parser pattern flags = Inr p" and w: "parse_whole host p = Inr (pr_root parsed, p')"
    and c: "pr_numCaptures parsed = p_numCaptures p'" "pr_groupNames parsed = p_groupNames p'"
    using assms(1) by (auto simp: parsePattern_def)
  note ok = new_parser_ok [OF n assms(2)]
  have a: "parseAlternation (Suc (length pattern)) host p = Inr (pr_root parsed, p')" and e: "eof p'"
    using w ok(4) by (auto simp: parse_whole_def split: if_splits simp del: parseAlternation.simps)
  have y: "yields p [pr_root parsed] p'" using proceedsD [OF proceeds_alternation ok(1) a] .
  then have "p_groupNames p' = p_groupNames p" using grew_fields [OF yields_grew] by blast
  then show thesis using that [OF n ok(1) y] a e c by simp
qed

lemma parsePattern_shape:
  assumes "parsePattern host pattern flags = Inr parsed" and "\<forall>u\<in>set pattern. u < 0x10000"
  shows "\<exists>count. scanGroups pattern = Inr (count, pr_groupNames parsed) \<and> parsed_ok parsed
    \<and> sorted_wrt (<) (all_groups (pr_root parsed)) \<and> set (all_groups (pr_root parsed)) \<subseteq> {1..pr_numCaptures parsed}
    \<and> wf_node count (pr_root parsed) \<and> names_ok count (pr_groupNames parsed)"
proof -
  obtain p p' where n: "new_parser pattern flags = Inr p" "parser_ok p" and y: "yields p [pr_root parsed] p'"
    and c: "pr_numCaptures parsed = p_numCaptures p'" "pr_groupNames parsed = p_groupNames p"
    using parsePattern_cases [OF assms] by metis
  note ok = new_parser_ok [OF n(1) assms(2)]
  have "wf_node (p_totalCaptures p) (pr_root parsed)" "numbered 0 (pr_numCaptures parsed) (all_groups (pr_root parsed))"
    using y ok(2) c by (auto simp: yields_def)
  moreover then have "parsed_ok parsed" by (auto simp: parsed_ok_def numbered_def intro!: wf_node_ok)
  moreover have "names_ok (p_totalCaptures p) (pr_groupNames parsed)" using n(2) c by (simp add: parser_ok_def names_ok_def)
  ultimately show ?thesis using ok(5) c(2) by (auto simp: numbered_def intro!: exI [of _ "p_totalCaptures p"])
qed

text \<open>
  C24. The parser ends on every source text and for every host: each loop consumes source, and groups
  cannot nest deeper than the source is long, so the fuel of its loops and its recursion never runs out.
\<close>

theorem parsePattern_terminates:
  "\<forall>u\<in>set pattern. u < 0x10000 \<Longrightarrow> parsePattern host pattern flags \<noteq> Inl OutOfFuel"
  by (rule parsePattern_ends)

text \<open>
  C15. What the parser returns is well formed: the groups that remain in the tree carry increasing
  numbers between 1 and the number of captures, all ranges are in order, every alternation has an
  option, every back-reference is a number between 1 and the pre-scanned group count, and so is the
  number of every name.
\<close>

theorem parsePattern_ok:
  assumes "parsePattern host pattern flags = Inr parsed" and "\<forall>u\<in>set pattern. u < 0x10000"
  shows "\<exists>count. scanGroups pattern = Inr (count, pr_groupNames parsed) \<and> parsed_ok parsed
    \<and> sorted_wrt (<) (all_groups (pr_root parsed)) \<and> set (all_groups (pr_root parsed)) \<subseteq> {1..pr_numCaptures parsed}
    \<and> wf_node count (pr_root parsed) \<and> names_ok count (pr_groupNames parsed)"
  using assms by (rule parsePattern_shape)

section \<open>A concrete pattern\<close>

text \<open>\<open>(?<n>a|[^b-d])\k<n>{2,}?\<close>\<close>

definition sample_source :: jsstring where
  "sample_source = js ''(?<n>a|[^b-d])'' @ [backslash] @ js ''k<n>{2,}?''"

definition sample_parsed :: parsed_regex where
  "sample_parsed = (case parsePattern no_host sample_source 0 of Inr parsed \<Rightarrow> parsed)"

lemma sample_parses: "parsePattern no_host sample_source 0 = Inr sample_parsed"
  by code_simp

lemma sample_units: "\<forall>u\<in>set sample_source. u < 0x10000"
  by (simp add: sample_source_def js_def)

theorem parsePattern_terminates_witness:
  "parsePattern no_host sample_source 0 \<noteq> Inl OutOfFuel"
  by (rule parsePattern_terminates [OF sample_units])

theorem parsePattern_ok_witness:
  "\<exists>count. scanGroups sample_source = Inr (count, pr_groupNames sample_parsed) \<and> parsed_ok sample_parsed
    \<and> sorted_wrt (<) (all_groups (pr_root sample_parsed)) \<and> set (all_groups (pr_root sample_parsed)) \<subseteq> {1..pr_numCaptures sample_parsed}
    \<and> wf_node count (pr_root sample_parsed) \<and> names_ok count (pr_groupNames sample_parsed)"
  by (rule parsePattern_ok [OF sample_parses sample_units])

end
