(* ===== verification/RegexScan.thy ===== *)
theory RegexScan
  imports RegexParseOk
begin

text \<open>
  The pre-scan and the descent agree: on a source whose group names and property names are plain, and
  outside \<open>v\<close> mode, \<open>scanGroups\<close> counts exactly the groups the parser numbers. With that, every
  pattern the compiler accepts satisfies the hypotheses of the compiler's correctness theorems.
\<close>

section \<open>Passing a stretch of source\<close>

text \<open>
  The scan, started at \<open>i\<close> inside or outside a class, comes to \<open>j\<close> in the same mode, having counted
  \<open>k\<close> groups.
\<close>

definition scans :: "jsstring \<Rightarrow> bool \<Rightarrow> nat \<Rightarrow> nat \<Rightarrow> nat \<Rightarrow> bool" where
  "scans src b i j k \<longleftrightarrow> (\<forall>count names r. scan_loop src i b count names = Inr r
     \<longrightarrow> (\<exists>names'. scan_loop src j b (count + k) names' = Inr r))"

definition inert :: "codeunit \<Rightarrow> bool" where
  "inert c \<longleftrightarrow> c \<noteq> backslash \<and> c \<noteq> ch CHR ''['' \<and> c \<noteq> ch CHR '']'' \<and> c \<noteq> ch CHR ''(''"

lemma scans_refl: "scans src b i i 0"
  by (auto simp: scans_def)

lemma scans_trans: "scans src b i j k \<Longrightarrow> scans src b j l m \<Longrightarrow> scans src b i l (k + m)"
  unfolding scans_def by (metis add.assoc)

lemma scans_trans0: "scans src b i j 0 \<Longrightarrow> scans src b j l m \<Longrightarrow> scans src b i l m"
  using scans_trans [of src b i j 0 l m] by simp

lemma scans_step: "(\<And>count names. scan_loop src i b count names = scan_loop src j b count names) \<Longrightarrow> scans src b i j 0"
  by (auto simp: scans_def)

lemma scan_loop_past: "length src \<le> i \<Longrightarrow> scan_loop src i b count names = Inr (count, names)"
  by (subst scan_loop.simps) simp

lemma scan_loop_inert: "i < length src \<Longrightarrow> inert (src ! i) \<Longrightarrow> scan_loop src i b count names = scan_loop src (Suc i) b count names"
  by (subst scan_loop.simps) (auto simp: inert_def)

lemma scan_loop_escape: "i < length src \<Longrightarrow> src ! i = backslash \<Longrightarrow> scan_loop src i b count names = scan_loop src (i + 2) b count names"
  by (subst scan_loop.simps) simp

lemma scans_span:
  assumes "i \<le> j" and "\<And>m. i \<le> m \<Longrightarrow> m < j \<Longrightarrow> m < length src \<Longrightarrow> inert (src ! m)"
  shows "scans src b i j 0"
  using assms
proof (induction "j - i" arbitrary: i)
  case (Suc n)
  have "scans src b i (Suc i) 0"
  proof (cases "i < length src")
    case True
    then show ?thesis using Suc.prems Suc.hyps(2) by (intro scans_step scan_loop_inert) auto
  next
    case False
    then show ?thesis by (intro scans_step) (simp add: scan_loop_past)
  qed
  moreover have "scans src b (Suc i) j 0" using Suc by auto
  ultimately show ?case by (rule scans_trans0)
qed (simp add: scans_refl)

lemma scans_inert: "inert (src ! i) \<Longrightarrow> scans src b i (Suc i) 0"
  by (rule scans_span) (auto simp: less_Suc_eq)

lemma scans_outside: "src ! i \<notin> {backslash, ch CHR ''['', ch CHR ''(''} \<Longrightarrow> scans src False i (Suc i) 0"
proof (cases "i < length src")
  case True
  assume "src ! i \<notin> {backslash, ch CHR ''['', ch CHR ''(''}"
  with True show ?thesis by (intro scans_step) (subst scan_loop.simps, auto)
next
  case False
  then show ?thesis by (intro scans_step) (simp add: scan_loop_past)
qed

text \<open>A backslash and what an escape takes after it.\<close>

lemma scans_escape:
  assumes "i < length src" and "src ! i = backslash" and "i < j"
    and "\<And>m. i + 2 \<le> m \<Longrightarrow> m < j \<Longrightarrow> m < length src \<Longrightarrow> inert (src ! m)"
    and "j = Suc i \<Longrightarrow> Suc i < length src \<Longrightarrow> inert (src ! Suc i)"
  shows "scans src b i j 0"
proof (cases "j = Suc i")
  case True
  have "scan_loop src (Suc i) b count names = scan_loop src (i + 2) b count names" for count names
    using assms(5) [OF True] scan_loop_inert [of "Suc i" src b] scan_loop_past [of src] by (cases "Suc i < length src") auto
  then show ?thesis using True by (intro scans_step) (simp add: scan_loop_escape [OF assms(1,2)])
next
  case False
  have "scans src b i (i + 2) 0" by (rule scans_step) (rule scan_loop_escape [OF assms(1,2)])
  moreover have "scans src b (i + 2) j 0" using False assms(3,4) by (intro scans_span) auto
  ultimately show ?thesis by (rule scans_trans0)
qed

lemma inert_digit: "is_digit c \<Longrightarrow> inert c"
  by (auto simp: is_digit_def inert_def)

lemma inert_hex: "is_hex c \<Longrightarrow> inert c"
  by (auto simp: is_hex_def is_digit_def inert_def)

lemma inert_control: "is_control_letter c \<Longrightarrow> inert c"
  by (auto simp: is_control_letter_def inert_def)

lemma hex_at_inert: "hex_at n s i = Some v \<Longrightarrow> i \<le> m \<Longrightarrow> m < i + n \<Longrightarrow> inert (s ! m)"
proof -
  assume h: "hex_at n s i = Some v" and m: "i \<le> m" "m < i + n"
  then have "length (take n (drop i s)) = n" "list_all is_hex (take n (drop i s))" by (auto simp: hex_at_def Let_def split: if_splits)
  then have "\<forall>d<n. is_hex (s ! (i + d))" by (auto simp: list_all_length)
  moreover obtain d where "m = i + d" "d < n" using m by (metis add_less_cancel_left le_Suc_ex)
  ultimately show ?thesis by (auto intro: inert_hex)
qed

lemma takeWhile_drop_nth:
  "d < length (takeWhile P (drop j s)) \<Longrightarrow> takeWhile P (drop j s) ! d = s ! (j + d) \<and> j + d < length s"
  using length_takeWhile_le [of P "drop j s"] by (subst takeWhile_nth) auto

lemma read_while_unit:
  assumes "read_while P p = (w, q)" and "p_pos p \<le> m" and "m < p_pos q"
  shows "P (p_src p ! m)"
proof -
  obtain d where d: "m = p_pos p + d" "d < length (takeWhile P (drop (p_pos p) (p_src p)))"
    using assms by (auto simp: read_while_def Let_def dest!: le_Suc_ex)
  then have "takeWhile P (drop (p_pos p) (p_src p)) ! d = p_src p ! m" using takeWhile_drop_nth by blast
  then show ?thesis using nth_mem [OF d(2)] by (auto dest: set_takeWhileD)
qed

text \<open>The cursor moves over a stretch the scan passes, counting the groups the parser counts.\<close>

definition synced :: "parser \<Rightarrow> parser \<Rightarrow> bool" where
  "synced p p' \<longleftrightarrow> scans (p_src p) False (p_pos p) (p_pos p') (p_numCaptures p' - p_numCaptures p)"

lemma synced_trans: "grew p q \<Longrightarrow> grew q r \<Longrightarrow> synced p q \<Longrightarrow> synced q r \<Longrightarrow> synced p r"
  using grew_fields [of p q] scans_trans [of "p_src p" False "p_pos p" "p_pos q" "p_numCaptures q - p_numCaptures p"]
  by (fastforce simp: synced_def grew_def)

lemma synced_went: "went p q \<Longrightarrow> scans (p_src p) False (p_pos p) (p_pos q) 0 \<Longrightarrow> synced p q"
  using went_fields [of p q] by (simp add: synced_def)

section \<open>Escapes and classes\<close>

lemma octal_loop_inert:
  "octal_loop n v p = (v', p') \<Longrightarrow> p_pos p \<le> m \<Longrightarrow> m < p_pos p' \<Longrightarrow> inert (p_src p ! m)"
proof (induction n arbitrary: v p)
  case (Suc n)
  show ?case
  proof (cases "peek p")
    case None
    then show ?thesis using Suc.prems by simp
  next
    case (Some d)
    have "inert d" if "48 \<le> d" "d \<le> 55" using that by (auto simp: inert_def)
    moreover have "inert (p_src p ! m)" if "octal_loop n u (advance 1 p) = (v', p')" "p_pos p \<noteq> m" for u
      using Suc.IH [OF that(1)] Suc.prems(2,3) that(2) by simp
    ultimately show ?thesis using Suc.prems Some by (cases "m = p_pos p") (auto simp: peek_Some split: if_splits)
  qed
qed simp

text \<open>After the escaped character itself only inert units are taken; or the character is left.\<close>

lemma control_inert:
  assumes "parse_control_escape inClass (advance 1 p) = Inr (v, p')" and "p_pos p < length (p_src p)"
  shows "p_pos p' = p_pos p \<or> p_pos p' = p_pos p + 2 \<and> inert (p_src p ! Suc (p_pos p))"
proof -
  have "inert l" if "is_control_letter l \<or> is_digit l \<or> l = ch CHR ''_''" for l
    using that inert_control inert_digit by (auto simp: inert_def)
  then show ?thesis
    using assms by (auto simp: parse_control_escape_def peek_Some split: option.splits if_splits)
qed

lemma octal_inert:
  assumes "parseLegacyOctal p = (u, q)" and "peek p = Some c" and "48 \<le> c" and "c \<le> 55"
  shows "p_pos p < p_pos q" and "p_pos p < m \<Longrightarrow> m < p_pos q \<Longrightarrow> inert (p_src p ! m)"
proof -
  have three: "(3 :: nat) = Suc 2" by simp
  have "octal_loop (Suc 2) 0 p = (u, q)" using assms(1) unfolding parseLegacyOctal_def three .
  then have l: "octal_loop 2 (c - 48) (advance 1 p) = (u, q)"
    unfolding octal_loop.simps assms(2) option.case using assms(3,4) by (auto split: if_splits)
  show "p_pos p < p_pos q" using went_fields [OF octal_loop_went [OF l]] assms(2) by (auto simp: peek_Some)
  show "p_pos p < m \<Longrightarrow> m < p_pos q \<Longrightarrow> inert (p_src p ! m)" using octal_loop_inert [OF l] by auto
qed

lemma escaped_inert:
  assumes "parseEscapedCodeUnit inClass p = Inr (v, p')"
  shows "p_pos p' = p_pos p \<and> peek p = Some (ch CHR ''c'')
    \<or> p_pos p < p_pos p' \<and> (\<forall>m. p_pos p < m \<longrightarrow> m < p_pos p' \<longrightarrow> inert (p_src p ! m))"
proof -
  obtain c where c: "peek p = Some c"
    and k: "p' = advance 1 p \<or> (48 \<le> c \<and> c \<le> 55 \<and> parseLegacyOctal p = (v, p'))
      \<or> (c = ch CHR ''c'' \<and> parse_control_escape inClass (advance 1 p) = Inr (v, p'))
      \<or> (hex_at 2 (p_src p) (Suc (p_pos p)) \<noteq> None \<and> p' = advance 3 p)
      \<or> (hex_at 4 (p_src p) (Suc (p_pos p)) \<noteq> None \<and> p' = advance 5 p)"
    using escaped_cases [OF assms] by blast
  from k show ?thesis
  proof (elim disjE conjE)
    assume "c = ch CHR ''c''" "parse_control_escape inClass (advance 1 p) = Inr (v, p')"
    then show ?thesis using control_inert [of inClass p v p'] c by (auto simp: peek_Some less_Suc_eq)
  next
    assume "48 \<le> c" "c \<le> 55" "parseLegacyOctal p = (v, p')"
    then show ?thesis using octal_inert [OF _ c] by blast
  next
    assume "hex_at 2 (p_src p) (Suc (p_pos p)) \<noteq> None" "p' = advance 3 p"
    then show ?thesis using hex_at_inert [of 2 "p_src p" "Suc (p_pos p)"] by auto
  next
    assume "hex_at 4 (p_src p) (Suc (p_pos p)) \<noteq> None" "p' = advance 5 p"
    then show ?thesis using hex_at_inert [of 4 "p_src p" "Suc (p_pos p)"] by auto
  qed auto
qed

lemma scans_escaped:
  assumes "parseEscapedCodeUnit inClass (advance 1 p) = Inr (v, p')" and "peek p = Some backslash"
  shows "scans (p_src p) b (p_pos p) (p_pos p') 0"
proof (rule scans_escape)
  show "p_pos p < length (p_src p)" "p_src p ! p_pos p = backslash" using assms(2) by (auto simp: peek_Some)
  note e = escaped_inert [OF assms(1)]
  show "p_pos p < p_pos p'" using e by auto
  show "inert (p_src p ! m)" if "p_pos p + 2 \<le> m" "m < p_pos p'" for m using e that by auto
  show "inert (p_src p ! Suc (p_pos p))" if "p_pos p' = Suc (p_pos p)" using e that by (auto simp: peek_Some inert_def)
qed

lemma scans_short_escape: "peek p = Some backslash \<Longrightarrow> scans (p_src p) b (p_pos p) (p_pos p + 2) 0"
  by (rule scans_escape) (auto simp: peek_Some)

lemma scans_member:
  assumes "parseClassMember p = Inr (m, p')" and "peek p \<noteq> Some (ch CHR '']'')"
  shows "scans (p_src p) True (p_pos p) (p_pos p') 0"
proof (cases "peek p = Some backslash")
  case True
  consider v where "parseEscapedCodeUnit True (advance 1 p) = Inr (v, p')" | "p' = advance 2 p"
    using assms(1) True by (auto simp: parseClassMember_def Let_def split: if_splits)
  then show ?thesis using scans_escaped [OF _ True] scans_short_escape [OF True] by cases auto
next
  case False
  have i: "scan_loop (p_src p) (p_pos p) True count names = scan_loop (p_src p) (Suc (p_pos p)) True count names"
    if "p_src p ! p_pos p \<noteq> ch CHR '']''" "p_src p ! p_pos p \<noteq> backslash" "p_pos p < length (p_src p)" for count names
    using that by (subst scan_loop.simps) simp
  have "p' = advance 1 p" using assms(1) False by (auto simp: parseClassMember_def dest!: went_next)
  then show ?thesis using assms False i by (auto simp: parseClassMember_def peek_Some dest!: went_next intro!: scans_step)
qed

lemma scans_item:
  assumes "parse_class_item p = Inr (rs, p')" and "peek p \<noteq> Some (ch CHR '']'')"
  shows "scans (p_src p) True (p_pos p) (p_pos p') 0"
proof -
  obtain m q where m: "parseClassMember p = Inr (m, q)" using assms by (auto simp: parse_class_item_def)
  note w = parseClassMember_went [OF m]
  have src: "p_src q = p_src p" using w went_fields by blast
  note s = scans_member [OF m assms(2)]
  have d: "scans (p_src p) True (p_pos p) (p_pos q + 1) 0" if "dash_between q"
    using scans_trans0 [OF s scans_inert [of "p_src p" "p_pos q"]] that src by (auto simp: dash_between_def peek_Some inert_def)
  have h: "scans (p_src p) True (p_pos p) (p_pos r) 0" if "dash_between q" "parseClassMember (advance 1 q) = Inr (x, r)" for x r
    using scans_trans0 [OF d [OF that(1)]] scans_member [OF that(2)] that(1) src by (auto simp: dash_between_def peek_def)
  show ?thesis
    using assms(1) m s d h by (auto simp: parse_class_item_def split: class_member.splits if_splits)
qed

lemma scans_class_items:
  "class_items k p = Inr (rs, p') \<Longrightarrow> scans (p_src p) True (p_pos p) (p_pos p') 0"
proof (induction k arbitrary: p rs)
  case (Suc k)
  show ?case
  proof (cases "eof p \<or> peek p = Some (ch CHR '']'')")
    case True
    then show ?thesis using Suc.prems by (auto simp: scans_refl)
  next
    case False
    then obtain xs q ys where i: "parse_class_item p = Inr (xs, q)" "class_items k q = Inr (ys, p')"
      using Suc.prems by auto
    have "p_src q = p_src p" using parse_class_item_went [OF i(1)] went_fields by blast
    then show ?thesis using scans_trans0 [OF scans_item [OF i(1)]] Suc.IH [OF i(2)] False by auto
  qed
qed simp

text \<open>From the opening bracket of a class to behind its closing one.\<close>

lemma scans_class:
  assumes "i < length src" and "src ! i = ch CHR ''[''" and "scans src True (Suc i) j 0" and "j < length src" and "src ! j = ch CHR '']''"
  shows "scans src False i (Suc j) 0"
proof -
  have "scan_loop src i False count names = scan_loop src (Suc i) True count names" for count names
    using assms(1,2) by (subst scan_loop.simps) simp
  moreover have "scan_loop src j True count names = scan_loop src (Suc j) False count names" for count names
    using assms(4,5) by (subst scan_loop.simps) simp
  ultimately show ?thesis using assms(3) by (simp add: scans_def)
qed

lemma synced_parseClass:
  assumes "parseClass p = Inr (n, p')" and "peek p = Some (ch CHR ''['')"
  shows "scans (p_src p) False (p_pos p) (p_pos p') 0"
proof -
  let ?neg = "peek (advance 1 p) = Some (ch CHR ''^'')"
  define q where "q = (if ?neg then advance 1 (advance 1 p) else advance 1 p)"
  obtain rs r where r: "class_items (Suc (rest_length q)) q = Inr (rs, r)" "peek r = Some (ch CHR '']'')" "p' = advance 1 r"
    using assms(1) by (auto simp: parseClass_def Let_def q_def split: if_splits simp del: class_items.simps advance_advance)
  have q: "p_src q = p_src p" "p_pos q \<le> length (p_src q)" using assms(2) by (auto simp: q_def peek_Some)
  have "p_src r = p_src q" using class_items_went [OF r(1) q(2)] went_fields by blast
  moreover have "scans (p_src p) True (Suc (p_pos p)) (p_pos q) 0"
    using scans_inert [of "p_src p" "Suc (p_pos p)"] by (auto simp: q_def scans_refl peek_Some inert_def)
  ultimately have "scans (p_src p) True (Suc (p_pos p)) (p_pos r) 0"
    using scans_class_items [OF r(1)] q(1) by (auto intro: scans_trans0)
  then show ?thesis
    using scans_class [of "p_pos p" "p_src p" "p_pos r"] assms(2) r(2,3) \<open>p_src r = p_src q\<close> q(1) by (auto simp: peek_Some)
qed

lemma scans_class_end:
  "class_end False src i depth = Some j \<Longrightarrow> scan_loop src i True count names = scan_loop src j False count names"
proof (induction False src i depth rule: class_end.induct)
  case (1 src i depth)
  then show ?case
    by (auto simp: class_end.simps [of False src i depth] scan_loop.simps [of src i True] split: if_splits)
qed

lemma synced_unicode_class:
  assumes "extractClassSource p = Inr (s, p')" and "peek p = Some (ch CHR ''['')" and "\<not> p_vMode p"
  shows "scans (p_src p) False (p_pos p) (p_pos p') 0"
proof -
  have e: "class_end False (p_src p) (Suc (p_pos p)) 1 = Some (p_pos p')"
    using assms(1,3) by (auto simp: extractClassSource_def split: option.splits)
  show ?thesis
    by (rule scans_step) (subst scan_loop.simps, use assms(2) scans_class_end [OF e] in \<open>auto simp: peek_Some\<close>)
qed

section \<open>Plain sources\<close>

text \<open>
  Where the scan could lose its way: the name of a group or of a named reference, and the name of a
  Unicode property, contain no parenthesis and no bracket (property names no backslash either). The
  names ES admits are of this form.
\<close>

definition plain_name :: "jsstring \<Rightarrow> bool" where
  "plain_name raw = list_all (\<lambda>c. c = backslash \<or> inert c) raw"

definition plain_at :: "jsstring \<Rightarrow> nat \<Rightarrow> bool" where
  "plain_at src i \<longleftrightarrow>
     (startsWith src (js ''(?<'') i \<and> char_at src (i + 3) \<noteq> Some (ch CHR ''='') \<and> char_at src (i + 3) \<noteq> Some (ch CHR ''!'')
        \<longrightarrow> plain_name (raw_name src (i + 3)))
     \<and> (startsWith src (backslash # js ''k<'') i \<longrightarrow> plain_name (raw_name src (i + 3)))
     \<and> (startsWith src (backslash # js ''p{'') i \<or> startsWith src (backslash # js ''P{'') i
        \<longrightarrow> list_all inert (takeWhile (\<lambda>c. c \<noteq> ch CHR ''}'') (drop (i + 3) src)))"

definition plain_source :: "jsstring \<Rightarrow> bool" where
  "plain_source src \<longleftrightarrow> list_all (plain_at src) [0..<length src]"

lemma plain_sourceD: "plain_source src \<Longrightarrow> i < length src \<Longrightarrow> plain_at src i"
  by (simp add: plain_source_def list_all_iff)

lemma startsWith3:
  assumes "i + 2 < length src" and "src ! i = a" and "src ! Suc i = b" and "src ! (i + 2) = c"
  shows "startsWith src [a, b, c] i"
proof -
  have "drop i src = a # b # c # drop (i + 3) src"
    using assms by (metis Cons_nth_drop_Suc Suc_lessD add_2_eq_Suc' add_Suc_right numeral_3_eq_3 numeral_2_eq_2 add.commute plus_1_eq_Suc)
  then show ?thesis by (simp add: startsWith_def)
qed

lemma takeWhile_stop: "length (takeWhile P xs) < length xs \<Longrightarrow> \<not> P (xs ! length (takeWhile P xs))"
  by (rule nth_length_takeWhile)

lemma indexOf_char: "indexOf s c i = Some j \<Longrightarrow> s ! j = c"
  using takeWhile_stop [of "\<lambda>u. u \<noteq> c" "drop i s"] by (auto simp: indexOf_def Let_def split: if_splits)

lemma decode_name_step_inert:
  assumes "decode_name_step raw i = Inr (j, w)" and "i < length raw"
  shows "j \<le> length raw \<and> (if raw ! i = backslash then i + 2 \<le> j \<and> (\<forall>m. i + 2 \<le> m \<longrightarrow> m < j \<longrightarrow> inert (raw ! m)) else j = Suc i)"
proof (cases "raw ! i = backslash \<and> char_at raw (i + 2) = Some (ch CHR ''{'')")
  case True
  then obtain close where c: "indexOf raw (ch CHR ''}'') (i + 3) = Some close" "hex_number (slice_of raw (i + 3) close)"
    and j: "j = close + 1"
    using assms(1) by (auto simp: decode_name_step_def Let_def split: if_splits option.splits)
  note cb = indexOf_bounds [OF c(1)]
  have "inert (raw ! m)" if m: "i + 2 \<le> m" "m < j" for m
  proof -
    consider "m = i + 2" | "m = close" | "i + 3 \<le> m \<and> m < close" using m j by linarith
    then show ?thesis
    proof cases
      case 3
      then obtain d where "m = i + 3 + d" "d < close - (i + 3)" by (metis add_diff_inverse_nat less_diff_conv2 not_le add.commute less_diff_conv)
      moreover then have "is_hex (raw ! (i + 3 + d))"
        using c(2) cb by (auto simp: hex_number_def list_all_length slice_of_def)
      ultimately show ?thesis by (simp add: inert_hex)
    qed (use True indexOf_char [OF c(1)] in \<open>auto simp: inert_def char_at_Some\<close>)
  qed
  then show ?thesis using True cb j by simp
next
  case False
  then show ?thesis
    using assms hex_at_bound [of 4 raw "i + 2"] hex_at_inert [of 4 raw "i + 2"]
    by (auto simp: decode_name_step_def split: if_splits option.splits)
qed

lemma scans_name:
  assumes "\<And>m. m < length raw \<Longrightarrow> a + m < length src \<and> src ! (a + m) = raw ! m" and "plain_name raw"
  shows "decode_name_loop raw i out = Inr nm \<Longrightarrow> i \<le> length raw \<Longrightarrow> scans src False (a + i) (a + length raw) 0"
  using assms
proof (induction raw i out rule: decode_name_loop.induct)
  case (1 raw i out)
  show ?case
  proof (cases "i < length raw")
    case False
    then show ?thesis using "1.prems"(2) by (simp add: scans_refl)
  next
    case i: True
    then obtain j w where s: "decode_name_step raw i = Inr (j, w)" and l: "decode_name_loop raw j (out @ w) = Inr nm"
      using "1.prems"(1) by (subst (asm) decode_name_loop.simps) auto
    note d = decode_name_step_inert [OF s i]
    have "inert (src ! m)" if "a + i + 2 \<le> m" "m < a + j" "raw ! i = backslash" for m
      using d that "1.prems"(3) [of "m - a"] by (auto dest: spec [of _ "m - a"])
    moreover have "raw ! i \<noteq> backslash \<Longrightarrow> inert (raw ! i)"
      using "1.prems"(4) i by (auto simp: plain_name_def list_all_length)
    ultimately have "scans src False (a + i) (a + j) 0"
      using d "1.prems"(3) [OF i] by (cases "raw ! i = backslash") (auto intro!: scans_inert scans_escape)
    moreover have "scans src False (a + j) (a + length raw) 0"
      using "1.IH" [OF i s refl l] d "1.prems"(3,4) by simp
    ultimately show ?thesis by (rule scans_trans0)
  qed
qed

lemma raw_name_nth: "m < length (raw_name src j) \<Longrightarrow> j + m < length src \<and> src ! (j + m) = raw_name src j ! m"
  unfolding raw_name_def using takeWhile_drop_nth by metis

lemma scans_raw_name:
  "decodeGroupName (raw_name src j) = Inr nm \<Longrightarrow> plain_name (raw_name src j) \<Longrightarrow> scans src False j (j + length (raw_name src j)) 0"
  using scans_name [OF raw_name_nth, of src j 0 "[]" nm] by (simp add: decodeGroupName_def)

section \<open>Atoms\<close>

definition calm :: "parser \<Rightarrow> bool" where
  "calm p \<longleftrightarrow> plain_source (p_src p) \<and> \<not> p_vMode p"

lemma grew_calm: "grew p q \<Longrightarrow> calm p \<Longrightarrow> calm q"
  using grew_fields [of p q] by (simp add: calm_def)

text \<open>A backslash, one more character, and a run of inert ones.\<close>

lemma scans_escape_run:
  assumes "peek p = Some backslash" and "p_pos p + 2 \<le> j" and "\<And>m. p_pos p + 2 \<le> m \<Longrightarrow> m < j \<Longrightarrow> m < length (p_src p) \<Longrightarrow> inert (p_src p ! m)"
  shows "scans (p_src p) b (p_pos p) j 0"
  using assms by (intro scans_escape) (auto simp: peek_Some)

lemma scans_decimal:
  assumes "parse_decimal_escape e (advance 1 p) = Inr (n, p')" and "peek p = Some backslash"
    and "peek (advance 1 p) = Some e" and "ch CHR ''1'' \<le> e" "e \<le> ch CHR ''9''"
  shows "scans (p_src p) False (p_pos p) (p_pos p') 0"
proof -
  let ?q = "advance 1 p"
  obtain w r where r: "read_while is_digit ?q = (w, r)" by (cases "read_while is_digit ?q")
  have l: "1 \<le> length w" using r assms(3-5) by (auto simp: read_while_def Let_def peek_Some is_digit_def Cons_nth_drop_Suc [symmetric] Suc_le_eq)
  have wr: "p_pos r = p_pos p + 1 + length w" using read_while_went [OF r] assms(3) by (simp add: peek_Some)
  have "scans (p_src p) False (p_pos p) (p_pos r) 0"
    using l wr read_while_unit [OF r] by (intro scans_escape_run [OF assms(2)] inert_digit) auto
  moreover have "scans (p_src p) False (p_pos p) (p_pos q) 0" if "parseLegacyOctal ?q = (v, q)" "e \<le> 55" for v q
    using octal_inert [OF that(1) assms(3)] assms(4) that(2) by (intro scans_escape_run [OF assms(2)]) auto
  ultimately show ?thesis
    using assms(1) r scans_short_escape [OF assms(2), of False]
    by (auto simp: parse_decimal_escape_def Let_def split: if_splits prod.splits)
qed

lemma scans_named_backref:
  assumes "parse_named_backref (advance 1 p) = Inr (n, p')" and "peek p = Some backslash"
    and "peek (advance 1 p) = Some (ch CHR ''k'')" and "plain_source (p_src p)"
  shows "scans (p_src p) False (p_pos p) (p_pos p') 0"
proof (cases "p_groupNames p = []")
  case True
  then show ?thesis
    using assms(1) scans_short_escape [OF assms(2), of False] by (auto simp: parse_named_backref_def split: if_splits)
next
  case False
  let ?q = "advance 3 p"
  obtain w r where r: "read_while (\<lambda>c. c \<noteq> ch CHR ''>'') ?q = (w, r)" by (cases "read_while (\<lambda>c. c \<noteq> ch CHR ''>'') ?q")
  then have w: "w = raw_name (p_src p) (p_pos p + 3)" "r = advance (length w) ?q"
    by (auto simp: read_while_def Let_def raw_name_def)
  obtain name where q: "peek (advance 2 p) = Some (ch CHR ''<'')" "peek r = Some (ch CHR ''>'')" "p' = advance 1 r" "decodeGroupName w = Inr name"
    using assms(1) False r by (auto simp: parse_named_backref_def Let_def numeral_2_eq_2 numeral_3_eq_3 split: if_splits option.splits)
  have st: "startsWith (p_src p) (backslash # js ''k<'') (p_pos p)"
    using startsWith3 [of "p_pos p" "p_src p"] assms(2,3) q(1) by (simp add: peek_Some js_def)
  have "plain_name (raw_name (p_src p) (p_pos p + 3))"
    using plain_sourceD [OF assms(4)] st assms(2) by (simp add: plain_at_def peek_Some)
  then have "scans (p_src p) False (p_pos p + 3) (p_pos p + 3 + length w) 0" using scans_raw_name q(4) w(1) by simp
  moreover have "scans (p_src p) False (p_pos p) (p_pos p + 3) 0"
    using q(1) by (intro scans_escape_run [OF assms(2)]) (auto simp: peek_Some inert_def less_Suc_eq numeral_3_eq_3)
  ultimately have "scans (p_src p) False (p_pos p) (p_pos p + 3 + length w) 0" using scans_trans0 by blast
  moreover have "scans (p_src p) False (p_pos p + 3 + length w) (Suc (p_pos p + 3 + length w)) 0"
    using q(2) w(2) by (intro scans_inert) (simp add: peek_Some inert_def add.assoc)
  moreover have "p_pos p' = Suc (p_pos p + 3 + length w)" using q(3) w(2) by simp
  ultimately show ?thesis using scans_trans0 by metis
qed

lemma scans_property:
  assumes "extractPropertyEscapeSource (advance 1 p) = Inr (s, p')" and "peek p = Some backslash"
    and "peek (advance 1 p) = Some e" "e = ch CHR ''p'' \<or> e = ch CHR ''P''" and "plain_source (p_src p)"
  shows "scans (p_src p) False (p_pos p) (p_pos p') 0"
proof -
  let ?q = "advance 3 p"
  obtain w r where r: "read_while (\<lambda>c. c \<noteq> ch CHR ''}'') ?q = (w, r)" by (cases "read_while (\<lambda>c. c \<noteq> ch CHR ''}'') ?q")
  then have w: "w = takeWhile (\<lambda>c. c \<noteq> ch CHR ''}'') (drop (p_pos p + 3) (p_src p))" "r = advance (length w) ?q"
    by (auto simp: read_while_def Let_def)
  have q: "peek (advance 2 p) = Some (ch CHR ''{'')" "peek r = Some (ch CHR ''}'')" "p' = advance 1 r"
    using assms(1,3) r by (auto simp: extractPropertyEscapeSource_def next_unit_def Let_def numeral_2_eq_2 numeral_3_eq_3 split: if_splits)
  have st: "startsWith (p_src p) [backslash, e, ch CHR ''{''] (p_pos p)"
    using startsWith3 [of "p_pos p" "p_src p"] assms(2,3) q(1) by (simp add: peek_Some)
  then have "list_all inert w" using plain_sourceD [OF assms(5)] assms(2,4) w(1) by (auto simp: plain_at_def peek_Some js_def)
  then have "inert (p_src p ! m)" if m: "p_pos p + 3 \<le> m" "m < p_pos p + 3 + length w" for m
  proof -
    obtain d where d: "m = p_pos p + 3 + d" using m(1) le_Suc_ex by blast
    then have d2: "d < length w" using m(2) by simp
    with d have "w ! d = p_src p ! m" using takeWhile_drop_nth [of d "\<lambda>c. c \<noteq> ch CHR ''}''"] w(1) by metis
    then show ?thesis using \<open>list_all inert w\<close> d2 by (metis list_all_length)
  qed
  moreover have "inert (p_src p ! (p_pos p + 2))" "inert (p_src p ! (p_pos p + 3 + length w))"
    using q(1,2) w(2) by (auto simp: peek_Some inert_def add.assoc)
  ultimately have "inert (p_src p ! m)" if "p_pos p + 2 \<le> m" "m < p_pos p + 4 + length w" for m
    using that by (cases "m = p_pos p + 2"; cases "m = p_pos p + 3 + length w") auto
  then show ?thesis using q(3) w(2) by (intro scans_escape_run [OF assms(2)]) auto
qed

lemma scans_hex4:
  assumes "readHex4 (advance 2 p) = Inr (v, q)" and "peek p = Some backslash"
  shows "scans (p_src p) False (p_pos p) (p_pos q) 0"
proof -
  have q: "q = advance 4 (advance 2 p)" using readHex4_went [OF assms(1)] by simp
  obtain x where "hex_at 4 (p_src p) (p_pos p + 2) = Some x" using assms(1) by (auto simp: readHex4_def split: if_splits option.splits)
  then show ?thesis using hex_at_inert [of 4 "p_src p" "p_pos p + 2"] by (intro scans_escape_run [OF assms(2)]) (auto simp: q)
qed

lemma scans_unicode_tail:
  assumes "parseUnicodeEscapeTail host (advance 1 p) = Inr (n, p')" and "peek p = Some backslash"
  shows "scans (p_src p) False (p_pos p) (p_pos p') 0"
proof (cases "peek (advance 1 p) = Some (ch CHR ''u'')")
  case False
  then show ?thesis using assms scans_escaped [OF _ assms(2)] by (auto simp: parseUnicodeEscapeTail_def)
next
  case u: True
  show ?thesis
  proof (cases "peek (advance 2 p) = Some (ch CHR ''{'')")
    case True
    let ?q = "advance 3 p"
    obtain w r where r: "read_while (\<lambda>c. c \<noteq> ch CHR ''}'') ?q = (w, r)" by (cases "read_while (\<lambda>c. c \<noteq> ch CHR ''}'') ?q")
    have q: "peek r = Some (ch CHR ''}'')" "hex_number w" "p' = advance 1 r"
      using assms(1) u True r by (auto simp: parseUnicodeEscapeTail_def Let_def numeral_2_eq_2 numeral_3_eq_3 split: if_splits)
    have w: "w = takeWhile (\<lambda>c. c \<noteq> ch CHR ''}'') (drop (p_pos p + 3) (p_src p))" "r = advance (length w) ?q"
      using r by (auto simp: read_while_def Let_def)
    have "inert (p_src p ! m)" if m: "p_pos p + 2 \<le> m" "m < p_pos p'" for m
    proof -
      have e: "p_pos p' = p_pos p + 4 + length w" using q(3) w(2) by simp
      consider "m = p_pos p + 2" | "m = p_pos p + 3 + length w" | "p_pos p + 3 \<le> m \<and> m < p_pos p + 3 + length w"
        using m e by linarith
      then show ?thesis
      proof cases
        case 3
        then obtain d where d: "m = p_pos p + 3 + d" using le_Suc_ex by blast
        then have d2: "d < length w" using 3 by simp
        have "w ! d = p_src p ! m" using takeWhile_drop_nth [of d "\<lambda>c. c \<noteq> ch CHR ''}''"] w(1) d d2 by metis
        then show ?thesis using q(2) d2 inert_hex by (metis hex_number_def list_all_length)
      qed (use True q(1) w(2) in \<open>auto simp: peek_Some inert_def add.assoc\<close>)
    qed
    then show ?thesis using q(3) w(2) by (intro scans_escape_run [OF assms(2)]) auto
  next
    case False
    then obtain lead q where h: "readHex4 (advance 2 p) = Inr (lead, q)"
      and t: "(case trail_escape host lead q of Some r \<Rightarrow> Inr r | None \<Rightarrow> rbind (uChar host q lead) (\<lambda>node. Inr (node, q))) = Inr (n, p')"
      using assms(1) u by (auto simp: parseUnicodeEscapeTail_def Let_def numeral_2_eq_2)
    note s = scans_hex4 [OF h assms(2)]
    have src: "p_src q = p_src p" using readHex4_went [OF h] by simp
    show ?thesis
    proof (cases "trail_escape host lead q")
      case None
      then show ?thesis using t s by auto
    next
      case (Some r)
      then have tr: "trail_escape host lead q = Some (n, p')" using t by simp
      then obtain v where v: "readHex4 (advance 2 q) = Inr (v, p')" and st: "startsWith (p_src q) (backslash # js ''u'') (p_pos q)"
        by (auto simp: trail_escape_def split: if_splits sum.splits)
      have "peek q = Some backslash"
        using st startsWith_length [OF st] by (auto simp: startsWith_def peek_Some js_def take_Suc_conv_app_nth Cons_nth_drop_Suc [symmetric])
      then show ?thesis using scans_trans0 [OF s] scans_hex4 [OF v] src by simp
    qed
  qed
qed

lemma synced_escape:
  assumes "parseEscapeAtom host p = Inr (n, p')" and "peek p = Some backslash" and "calm p"
  shows "scans (p_src p) False (p_pos p) (p_pos p') 0"
proof -
  let ?q = "advance 1 p"
  obtain e where e: "peek ?q = Some e" using assms(1) by (auto simp: parseEscapeAtom_def Let_def split: option.splits)
  have src: "plain_source (p_src p)" using assms(3) by (simp add: calm_def)
  consider "p' = advance 2 p" | "parse_decimal_escape e ?q = Inr (n, p')" "ch CHR ''1'' \<le> e" "e \<le> ch CHR ''9''"
    | "parse_named_backref ?q = Inr (n, p')" "e = ch CHR ''k''"
    | "parse_property_escape host ?q = Inr (n, p')" "e = ch CHR ''p'' \<or> e = ch CHR ''P''"
    | "parseUnicodeEscapeTail host ?q = Inr (n, p')" | v where "parseEscapedCodeUnit False ?q = Inr (v, p')"
    using assms(1) e by (auto simp: parseEscapeAtom_def Let_def numeral_2_eq_2 split: if_splits)
  then show ?thesis
  proof cases
    case 1
    then show ?thesis using scans_short_escape [OF assms(2)] by simp
  next
    case 2
    then show ?thesis using scans_decimal assms(2) e by blast
  next
    case 3
    then show ?thesis using scans_named_backref assms(2) e src by blast
  next
    case 4
    then obtain s where "extractPropertyEscapeSource ?q = Inr (s, p')" by (auto simp: parse_property_escape_def split: if_splits)
    then show ?thesis using scans_property assms(2) e src 4 by blast
  next
    case 5
    then show ?thesis using scans_unicode_tail assms(2) by blast
  next
    case 6
    then show ?thesis using scans_escaped assms(2) by blast
  qed
qed

lemma synced_literal:
  assumes "parse_literal host c p = Inr (n, p')" and "peek p = Some c" and "c \<notin> {backslash, ch CHR ''['', ch CHR ''(''}"
    and "parser_ok p"
  shows "scans (p_src p) False (p_pos p) (p_pos p') 0"
proof -
  have s: "scans (p_src p) False (p_pos p) (Suc (p_pos p)) 0" using assms(2,3) by (intro scans_outside) (simp add: peek_Some)
  show ?thesis
  proof (cases "p' = advance 1 p")
    case True
    then show ?thesis using s by simp
  next
    case False
    obtain cp where cp: "codePointAt (p_src p) (p_pos p) = Some cp"
      using assms(2) by (cases "char_at (p_src p) (Suc (p_pos p))") (auto simp: codePointAt_def peek_def)
    have p': "p' = advance 2 p" "0xffff < cp" using assms(1) False cp by (auto simp: parse_literal_def Let_def split: if_splits)
    have "inert (p_src p ! Suc (p_pos p))"
    proof (cases "char_at (p_src p) (Suc (p_pos p))")
      case (Some v)
      then have "is_trail (Some v)"
        using cp p'(2) assms(2,4) unfolding peek_def codePointAt_def
        by (auto simp: char_at_Some [of _ "p_pos p"] parser_ok_def list_all_length split: if_splits)
      then show ?thesis using Some by (auto simp: char_at_Some is_trail_def in_span_def inert_def)
    next
      case None
      then have "cp = c" using cp assms(2) by (simp add: codePointAt_def peek_def)
      then show ?thesis using p'(2) assms(2,4) by (auto simp: parser_ok_def list_all_length peek_Some)
    qed
    then show ?thesis using scans_trans0 [OF s scans_inert] p'(1) by simp
  qed
qed

section \<open>Groups\<close>

lemma scans_open:
  assumes "i < length src" and "src ! i = ch CHR ''(''"
    and "\<And>count names c' n'. scan_paren src i count names = Inr (c', n') \<Longrightarrow> c' = count + k"
  shows "scans src False i (Suc i) k"
proof -
  have "scan_loop src i False count names = rbind (scan_paren src i count names) (\<lambda>(c, n). scan_loop src (Suc i) False c n)"
    for count names
    using assms(1,2) by (subst scan_loop.simps) simp
  then show ?thesis using assms(3) by (auto simp: scans_def)
qed

lemma modifiers_inert: "rfold (add_modifier seen) w acc = Inr r \<Longrightarrow> c \<in> set w \<Longrightarrow> inert c"
proof (induction w arbitrary: acc)
  case (Cons x w)
  obtain acc' where a: "add_modifier seen x acc = Inr acc'" "rfold (add_modifier seen) w acc' = Inr r"
    using Cons.prems(1) by auto
  have "inert x" using a(1) by (auto simp: add_modifier_def modifier_bit_def inert_def split: if_splits)
  with Cons.IH [OF a(2)] Cons.prems(2) show ?case by auto
qed simp

lemma read_while_set: "read_while P p = (w, q) \<Longrightarrow> p_pos p \<le> m \<Longrightarrow> m < p_pos q \<Longrightarrow> p_src p ! m \<in> set w"
proof -
  assume a: "read_while P p = (w, q)" "p_pos p \<le> m" "m < p_pos q"
  then obtain d where d: "m = p_pos p + d" using le_Suc_ex by blast
  then have l: "d < length (takeWhile P (drop (p_pos p) (p_src p)))" using a by (auto simp: read_while_def Let_def)
  show ?thesis using takeWhile_drop_nth [OF l] nth_mem [OF l] a(1) d by (auto simp: read_while_def Let_def)
qed

lemma scans_modifiers:
  assumes "parseModifiers p = Inr (m, p')" and "p_pos p \<le> length (p_src p)"
  shows "scans (p_src p) False (p_pos p) (p_pos p') 0"
proof -
  obtain w q where r: "read_while (\<lambda>c. c \<noteq> ch CHR ''-'' \<and> c \<noteq> ch CHR '':'') p = (w, q)"
    by (cases "read_while (\<lambda>c. c \<noteq> ch CHR ''-'' \<and> c \<noteq> ch CHR '':'') p")
  obtain w' q' where r': "read_while (\<lambda>c. c \<noteq> ch CHR '':'') (advance 1 q) = (w', q')"
    by (cases "read_while (\<lambda>c. c \<noteq> ch CHR '':'') (advance 1 q)")
  obtain added where f: "rfold (add_modifier 0) w 0 = Inr added" using assms(1) r by (auto simp: parseModifiers_def Let_def)
  note wq = read_while_went [OF r assms(2)]
  have src: "p_src q = p_src p" using wq went_fields by blast
  have s: "scans (p_src p) False (p_pos p) (p_pos q) 0"
    using read_while_set [OF r] modifiers_inert [OF f] wq by (intro scans_span) auto
  have c: "scans (p_src p) False (p_pos x) (p_pos (advance 1 x)) 0" if "p_src x = p_src p" "peek x = Some d" "inert d" for x d
    using that scans_inert [of "p_src p" "p_pos x"] by (simp add: peek_Some)
  have i: "inert (ch CHR '':'')" "inert (ch CHR ''-'')" by (simp_all add: inert_def)
  consider "p' = advance 1 q" "peek q = Some (ch CHR '':'')"
    | removed where "peek q = Some (ch CHR ''-'')" "rfold (add_modifier added) w' 0 = Inr removed" "p' = advance 1 q'" "peek q' = Some (ch CHR '':'')"
    using assms(1) r r' f by (auto simp: parseModifiers_def Let_def split: if_splits)
  then show ?thesis
  proof cases
    case 1
    then show ?thesis using scans_trans0 [OF s c [OF src _ i(1)]] by blast
  next
    case 2
    have wq': "went (advance 1 q) q' \<and> p_pos q' = p_pos (advance 1 q) + length w'"
      using read_while_went [OF r'] 2(1) by (simp add: peek_Some)
    then have "p_src q' = p_src p" using went_fields src by (metis advance_fields(2))
    moreover have "scans (p_src p) False (p_pos (advance 1 q)) (p_pos q') 0"
      using read_while_set [OF r'] modifiers_inert [OF 2(2)] wq' src by (intro scans_span) auto
    ultimately show ?thesis
      using scans_trans0 [OF s scans_trans0 [OF c [OF src 2(1) i(2)] scans_trans0 [OF _ c [OF _ 2(4) i(1)]]]] 2(3) by blast
  qed
qed

lemma went_captures: "went p q \<Longrightarrow> p_numCaptures q = p_numCaptures p"
  using went_fields by blast

lemma scans_group_open:
  assumes "parse_group_open p = Inr (g, q)" and "peek p = Some (ch CHR ''('')" and "plain_source (p_src p)"
  shows "scans (p_src p) False (p_pos p) (p_pos q) (p_numCaptures q - p_numCaptures p)"
proof -
  let ?src = "p_src p" and ?i = "p_pos p"
  have i: "?i < length ?src" "?src ! ?i = ch CHR ''(''" using assms(2) by (auto simp: peek_Some)
  note opn = scans_open [OF i]
  show ?thesis
  proof (cases "peek (advance 1 p) = Some (ch CHR ''?'')")
    case False
    then have c: "char_at ?src (?i + 1) \<noteq> Some (ch CHR ''?'')" by (simp add: peek_def)
    have "scans ?src False ?i (Suc ?i) 1" by (rule opn) (use c in \<open>auto simp: scan_paren_def\<close>)
    moreover have "q = (advance 1 p)\<lparr>p_numCaptures := p_numCaptures p + 1\<rparr>"
      using assms(1) False by (auto simp: parse_group_open_def Let_def)
    ultimately show ?thesis by simp
  next
    case True
    then have c1: "char_at ?src (?i + 1) = Some (ch CHR ''?'')" by (simp add: peek_def)
    obtain t where t: "peek (advance 2 p) = Some t"
      using assms(1) True by (cases "peek (advance 2 p)") (auto simp: parse_group_open_def Let_def numeral_2_eq_2 split: if_splits)
    then have c2: "char_at ?src (?i + 2) = Some t" by (simp add: peek_def)
    have plain0: "scans ?src False ?i (?i + 2) 0"
      if "t \<noteq> ch CHR ''<'' \<or> char_at ?src (?i + 3) \<in> {Some (ch CHR ''=''), Some (ch CHR ''!'')}"
    proof -
      have "scans ?src False ?i (Suc ?i) 0"
        by (rule opn) (use c1 c2 that in \<open>auto simp: scan_paren_def split: if_splits\<close>)
      then show ?thesis using scans_trans0 scans_inert [of ?src "Suc ?i" False] c1 by (fastforce simp: char_at_Some inert_def)
    qed
    have step: "scans ?src False j (Suc j) 0" if "char_at ?src j = Some d" "inert d" for j d
      using that scans_inert [of ?src j] by (simp add: char_at_Some)
    show ?thesis
    proof (cases "t = ch CHR ''<''")
      case lt: False
      consider "q = advance 3 p" "inert t" | m where "parseModifiers (advance 2 p) = Inr (m, q)"
        using assms(1) True t lt by (auto simp: parse_group_open_def Let_def inert_def numeral_2_eq_2 numeral_3_eq_3 split: if_splits)
      then show ?thesis
      proof cases
        case 1
        then show ?thesis using scans_trans0 [OF plain0 step [OF c2]] lt by (simp add: numeral_3_eq_3 numeral_2_eq_2)
      next
        case 2
        have l: "p_pos (advance 2 p) \<le> length (p_src (advance 2 p))" using t by (simp add: peek_Some)
        have "p_numCaptures q = p_numCaptures p" using went_captures [OF parseModifiers_went [OF 2 l]] by simp
        then show ?thesis using scans_trans0 [OF plain0] scans_modifiers [OF 2 l] lt by simp
      qed
    next
      case lt: True
      show ?thesis
      proof (cases "char_at ?src (?i + 3) \<in> {Some (ch CHR ''=''), Some (ch CHR ''!'')}")
        case look: True
        then have "q = advance 4 p"
          using assms(1) True t lt by (auto simp: parse_group_open_def Let_def peek_def numeral_2_eq_2 numeral_3_eq_3 eval_nat_numeral split: if_splits)
        moreover obtain d where d: "char_at ?src (?i + 3) = Some d" "inert d" using look by (auto simp: inert_def)
        moreover have "scans ?src False (?i + 2) (?i + 3) 0" using step [OF c2] lt by (simp add: inert_def numeral_3_eq_3 numeral_2_eq_2)
        ultimately show ?thesis using scans_trans0 [OF plain0 scans_trans0 [OF _ step [OF d]]] look by (simp add: add.commute)
      next
        case name: False
        have n: "parse_named_group (advance 3 p) = Inr (g, q)"
          using assms(1) True t lt name by (auto simp: parse_group_open_def Let_def peek_def numeral_2_eq_2 numeral_3_eq_3 split: if_splits)
        obtain w r where r: "read_while (\<lambda>c. c \<noteq> ch CHR ''>'') (advance 3 p) = (w, r)"
          by (cases "read_while (\<lambda>c. c \<noteq> ch CHR ''>'') (advance 3 p)")
        then have w: "w = raw_name ?src (?i + 3)" "r = advance (length w) (advance 3 p)"
          by (auto simp: read_while_def Let_def raw_name_def)
        obtain nm where nm: "decodeGroupName w = Inr nm" "peek r = Some (ch CHR ''>'')"
          "q = (advance 1 r)\<lparr>p_numCaptures := Suc (p_numCaptures r)\<rparr>"
          using n r by (auto simp: parse_named_group_def Let_def split: if_splits)
        have "startsWith ?src (js ''(?<'') ?i"
          using startsWith3 [of ?i ?src] i c1 c2 lt by (simp add: char_at_Some js_def)
        then have "plain_name w" using plain_sourceD [OF assms(3) i(1)] name w(1) by (auto simp: plain_at_def)
        then have s3: "scans ?src False (?i + 3) (?i + 3 + length w) 0" using scans_raw_name nm(1) w(1) by simp
        have s1: "scans ?src False ?i (Suc ?i) 1"
          by (rule opn) (use c1 c2 lt name in \<open>auto simp: scan_paren_def\<close>)
        have s2: "scans ?src False (Suc ?i) (?i + 3) 0"
          using scans_trans0 [of ?src False "Suc ?i" "?i + 2" "?i + 3" 0] step [OF c1] step [OF c2] lt
          by (simp add: inert_def numeral_3_eq_3 numeral_2_eq_2)
        have s4: "scans ?src False (?i + 3 + length w) (Suc (?i + 3 + length w)) 0"
          using step [of "?i + 3 + length w"] nm(2) w(2) by (simp add: peek_def inert_def add.assoc)
        have "p_numCaptures q - p_numCaptures p = 1" "p_pos q = Suc (?i + 3 + length w)" using nm(3) w(2) by simp_all
        then show ?thesis
          using scans_trans [OF s1 scans_trans0 [OF s2 scans_trans0 [OF s3 s4]]] by simp
      qed
    qed
  qed
qed

section \<open>The descent keeps in step with the scan\<close>

definition follows :: "re_node parse \<Rightarrow> bool" where
  "follows f \<longleftrightarrow> (\<forall>p n p'. parser_ok p \<longrightarrow> calm p \<longrightarrow> f p = Inr (n, p') \<longrightarrow> synced p p')"

lemma followsD: "follows f \<Longrightarrow> parser_ok p \<Longrightarrow> calm p \<Longrightarrow> f p = Inr (n, p') \<Longrightarrow> synced p p'"
  by (simp add: follows_def)

lemma synced_refl: "synced p p"
  by (simp add: synced_def scans_refl)

lemma synced_unit: "peek p = Some c \<Longrightarrow> inert c \<Longrightarrow> synced p (advance 1 p)"
  using scans_inert [of "p_src p" "p_pos p"] by (simp add: synced_def peek_Some)

lemma synced_span:
  assumes "went p q" and "\<And>m. p_pos p \<le> m \<Longrightarrow> m < p_pos q \<Longrightarrow> inert (p_src p ! m)"
  shows "synced p q"
  using assms went_fields [OF assms(1)] by (intro synced_went scans_span) auto

lemma went_synced_trans: "went p q \<Longrightarrow> went q r \<Longrightarrow> synced p q \<Longrightarrow> synced q r \<Longrightarrow> synced p r"
  by (rule synced_trans [OF went_grew went_grew])

lemma synced_parseGroup:
  assumes "follows alternation" and "proceeds alternation" and "parser_ok p" and "calm p"
    and "parseGroup alternation p = Inr (n, p')" and "peek p = Some (ch CHR ''('')"
  shows "synced p p'"
proof -
  obtain g q inner r where q: "parse_group_open p = Inr (g, q)"
    and r: "alternation (q\<lparr>p_iState := group_iState g (p_iState q)\<rparr>) = Inr (inner, r)"
    and c: "peek (r\<lparr>p_iState := p_iState q\<rparr>) = Some (ch CHR '')'')"
    and p': "p' = advance 1 (r\<lparr>p_iState := p_iState q\<rparr>)"
    using assms(5) by (auto simp: parseGroup_def Let_def split: if_splits)
  let ?q = "q\<lparr>p_iState := group_iState g (p_iState q)\<rparr>" and ?r = "r\<lparr>p_iState := p_iState q\<rparr>"
  have g: "grew p q" using parse_group_open_opens [OF q assms(6)] by (simp add: opens_def)
  have ok: "parser_ok ?q" "calm ?q" using grew_ok [OF g assms(3)] grew_calm [OF g assms(4)] by (simp_all add: parser_ok_def calm_def)
  have s1: "synced p q" using scans_group_open [OF q assms(6)] assms(4) by (simp add: synced_def calm_def)
  have s2: "synced q ?r" using followsD [OF assms(1) ok r] by (simp add: synced_def)
  have g2: "grew q ?r" using yields_iState [OF proceedsD [OF assms(2) ok(1) r]] by (simp add: yields_def)
  have "synced ?r p'" unfolding p' using c by (rule synced_unit) (simp add: inert_def)
  moreover have "grew ?r p'" unfolding p' using went_grew [OF went_peek [OF c]] .
  ultimately show ?thesis using synced_trans [OF grew_trans [OF g g2] _ synced_trans [OF g g2 s1 s2]] by blast
qed

lemma follows_atom:
  assumes "follows alternation" and "proceeds alternation"
  shows "follows (parseAtom host alternation)"
  unfolding follows_def
proof (intro allI impI)
  fix p n p'
  assume ok: "parser_ok p" "calm p" and a: "parseAtom host alternation p = Inr (n, p')"
  then obtain c where c: "peek p = Some c" by (auto simp: parseAtom_def split: option.splits)
  consider "c = ch CHR ''(''" "parseGroup alternation p = Inr (n, p')"
    | "c = ch CHR ''[''" "p_unicode p" "parse_unicode_class host p = Inr (n, p')"
    | "c = ch CHR ''[''" "parseClass p = Inr (n, p')"
    | "c \<in> set (js ''.^$'')" "p' = advance 1 p"
    | "c = backslash" "parseEscapeAtom host p = Inr (n, p')"
    | "c \<notin> {backslash, ch CHR ''['', ch CHR ''(''}" "parse_literal host c p = Inr (n, p')"
    using a c by (auto simp: parseAtom_def js_def split: if_splits)
  then show "synced p p'"
  proof cases
    case 1
    then show ?thesis using synced_parseGroup [OF assms ok] c by blast
  next
    case 2
    then obtain s where e: "extractClassSource p = Inr (s, p')" by (auto simp: parse_unicode_class_def)
    then have "scans (p_src p) False (p_pos p) (p_pos p') 0" using synced_unicode_class 2(1) c ok(2) by (simp add: calm_def)
    then show ?thesis using synced_went extractClassSource_went [OF e] by blast
  next
    case 3
    then show ?thesis using synced_went parseClass_went [OF 3(2) c] synced_parseClass [OF 3(2)] c by blast
  next
    case 4
    then have "inert c" by (auto simp: js_def inert_def)
    then show ?thesis using 4(2) synced_unit [OF c] by blast
  next
    case 5
    then show ?thesis using synced_went parseEscapeAtom_went [OF 5(2) ok(1) c] synced_escape [OF 5(2)] c ok(2) by blast
  next
    case 6
    then show ?thesis using synced_went parse_literal_went [OF 6(2) c ok(1)] synced_literal [OF 6(2) c 6(1) ok(1)] by blast
  qed
qed

lemma consumeLazy_synced: "consumeLazy p = (g, p') \<Longrightarrow> synced p p'"
  using synced_unit [of p "ch CHR ''?''"] by (auto simp: consumeLazy_def synced_refl inert_def split: if_splits)

lemma tryParseBraceQuantifier_synced:
  assumes "tryParseBraceQuantifier p = Inr (Some (mn, mx), p')"
  shows "synced p p'"
proof -
  obtain w q where r: "read_while is_digit (advance 1 p) = (w, q)" by (cases "read_while is_digit (advance 1 p)")
  obtain w' q' where r': "read_while is_digit (advance 1 q) = (w', q')" by (cases "read_while is_digit (advance 1 q)")
  have b: "peek p = Some (ch CHR ''{'')" using assms by (auto simp: tryParseBraceQuantifier_def split: if_splits)
  have i: "inert (ch CHR ''{'')" "inert (ch CHR '','')" "inert (ch CHR ''}'')" by (simp_all add: inert_def)
  have digits: "went (advance 1 x) y \<and> synced (advance 1 x) y" if "read_while is_digit (advance 1 x) = (v, y)" "peek x = Some d" for x v y d
  proof -
    have w: "went (advance 1 x) y" using read_while_went [OF that(1)] that(2) by (simp add: peek_Some)
    moreover have "synced (advance 1 x) y" using w read_while_unit [OF that(1)] by (intro synced_span inert_digit) auto
    ultimately show ?thesis ..
  qed
  have unit: "went x (advance 1 x) \<and> synced x (advance 1 x)" if "peek x = Some d" "inert d" for x d
    using that went_peek synced_unit by blast
  have sq: "went p q \<and> synced p q"
    using unit [OF b i(1)] digits [OF r b] went_trans went_synced_trans by blast
  have sq': "went p q' \<and> synced p q'" if c: "peek q = Some (ch CHR '','')"
    using sq unit [OF c i(2)] digits [OF r' c] went_trans went_synced_trans by meson
  have "p' = advance 1 q \<and> peek q = Some (ch CHR ''}'')
      \<or> p' = advance 1 q' \<and> peek q = Some (ch CHR '','') \<and> peek q' = Some (ch CHR ''}'')"
    using assms b r r' by (auto simp: tryParseBraceQuantifier_def Let_def split: if_splits simp del: advance_advance)
  then show ?thesis using sq sq' unit [OF _ i(3)] went_synced_trans by meson
qed

lemma parse_quantifier_synced:
  assumes "parse_quantifier atom q = Inr (n, p')" and "p_pos q \<le> length (p_src q)"
  shows "synced q p'"
proof (cases "peek q")
  case None
  then show ?thesis using assms by (simp add: parse_quantifier_def synced_refl)
next
  case (Some c)
  consider (same) "p' = q"
    | (simple) g where "consumeLazy (advance 1 q) = (g, p')" "c \<in> set (js ''*+?'')"
    | (braces) mn mx r g where "tryParseBraceQuantifier q = Inr (Some (mn, mx), r)" "consumeLazy r = (g, p')"
    using assms(1) Some by (auto simp: parse_quantifier_def split: if_splits option.splits prod.splits)
  then show ?thesis
  proof cases
    case same
    then show ?thesis by (simp add: synced_refl)
  next
    case simple
    have "synced q (advance 1 q)" by (rule synced_unit [OF Some]) (use simple(2) in \<open>auto simp: js_def inert_def\<close>)
    moreover have "went (advance 1 q) p'" using consumeLazy_went [OF simple(1)] Some by (simp add: peek_Some)
    ultimately show ?thesis using consumeLazy_synced [OF simple(1)] went_peek [OF Some] went_synced_trans by blast
  next
    case braces
    have r: "went q r" using braces(1) by (rule tryParseBraceQuantifier_went)
    then have "went r p'" using consumeLazy_went [OF braces(2)] went_fields by simp
    then show ?thesis
      using r tryParseBraceQuantifier_synced [OF braces(1)] consumeLazy_synced [OF braces(2)] went_synced_trans by blast
  qed
qed

lemma follows_quantified:
  assumes "follows alternation" and "proceeds alternation"
  shows "follows (parseQuantified host alternation)"
  unfolding follows_def
proof (intro allI impI)
  fix p n p'
  assume ok: "parser_ok p" "calm p" and q: "parseQuantified host alternation p = Inr (n, p')"
  then obtain atom r where a: "parseAtom host alternation p = Inr (atom, r)" and k: "parse_quantifier atom r = Inr (n, p')"
    by (auto simp: parseQuantified_def)
  have g: "grew p r" using consumesD [OF consumes_atom [OF assms(2)] ok(1) a] yields_grew by blast
  have "grew r p'" using parse_quantifier_grew [OF k grew_pos [OF g]] .
  then show "synced p p'"
    using synced_trans [OF g] followsD [OF follows_atom [OF assms] ok a] parse_quantifier_synced [OF k grew_pos [OF g]] by blast
qed

lemma synced_concat_loop:
  assumes "follows f" and "consumes f"
  shows "parser_ok p \<Longrightarrow> calm p \<Longrightarrow> concat_loop k f p = Inr (ns, p') \<Longrightarrow> synced p p'"
proof (induction k arbitrary: p ns)
  case (Suc k)
  show ?case
  proof (cases "eof p \<or> peek p = Some (ch CHR ''|'') \<or> peek p = Some (ch CHR '')'')")
    case True
    then show ?thesis using Suc.prems by (auto simp: synced_refl)
  next
    case False
    then obtain n q ms where q: "f p = Inr (n, q)" "concat_loop k f q = Inr (ms, p')" using Suc.prems by auto
    have g: "grew p q" using consumesD [OF assms(2) Suc.prems(1) q(1)] yields_grew by blast
    note ok = grew_ok [OF g Suc.prems(1)] grew_calm [OF g Suc.prems(2)]
    have "grew q p'" using yields_concat_loop [OF assms(2) ok(1) q(2)] by (rule yields_grew)
    then show ?thesis using synced_trans [OF g _ followsD [OF assms(1) Suc.prems(1,2) q(1)] Suc.IH [OF ok q(2)]] by blast
  qed
qed simp

lemma follows_concat:
  assumes "follows alternation" and "proceeds alternation"
  shows "follows (parseConcat host alternation)"
  unfolding follows_def
  using synced_concat_loop [OF follows_quantified [OF assms, of host] consumes_quantified [OF assms(2)]]
  by (auto simp: parseConcat_def simp del: concat_loop.simps)

lemma synced_alternatives_loop:
  assumes "follows f" and "proceeds f"
  shows "parser_ok p \<Longrightarrow> calm p \<Longrightarrow> alternatives_loop k f p = Inr (ns, p') \<Longrightarrow> synced p p'"
proof (induction k arbitrary: p ns)
  case (Suc k)
  show ?case
  proof (cases "peek p = Some (ch CHR ''|'')")
    case False
    then show ?thesis using Suc.prems by (auto simp: synced_refl)
  next
    case True
    then obtain n q ms where q: "f (advance 1 p) = Inr (n, q)" "alternatives_loop k f q = Inr (ms, p')" using Suc.prems by auto
    have g1: "grew p (advance 1 p)" using went_grew [OF went_peek [OF True]] .
    note ok1 = grew_ok [OF g1 Suc.prems(1)] grew_calm [OF g1 Suc.prems(2)]
    have g2: "grew (advance 1 p) q" using proceedsD [OF assms(2) ok1(1) q(1)] by (rule yields_grew)
    note ok2 = grew_ok [OF g2 ok1(1)] grew_calm [OF g2 ok1(2)]
    have g3: "grew q p'" using yields_alternatives_loop [OF assms(2) ok2(1) q(2)] by (rule yields_grew)
    have "synced p (advance 1 p)" using True by (rule synced_unit) (simp add: inert_def)
    then show ?thesis
      using synced_trans [OF g1 grew_trans [OF g2 g3] _ synced_trans [OF g2 g3 followsD [OF assms(1) ok1 q(1)] Suc.IH [OF ok2 q(2)]]] by blast
  qed
qed simp

lemma follows_alternation: "follows (parseAlternation depth host)"
proof (induction depth)
  case (Suc depth)
  note f = follows_concat [OF Suc proceeds_alternation, of host] and c = proceeds_concat [OF proceeds_alternation, of host depth host]
  show ?case
    unfolding follows_def
  proof (intro allI impI)
    fix p n p'
    assume ok: "parser_ok p" "calm p" and a: "parseAlternation (Suc depth) host p = Inr (n, p')"
    then obtain m q ms where q: "parseConcat host (parseAlternation depth host) p = Inr (m, q)"
      "alternatives_loop (Suc (rest_length q)) (parseConcat host (parseAlternation depth host)) q = Inr (ms, p')"
      by (auto simp del: alternatives_loop.simps)
    have g: "grew p q" using proceedsD [OF c ok(1) q(1)] by (rule yields_grew)
    note ok' = grew_ok [OF g ok(1)] grew_calm [OF g ok(2)]
    have "grew q p'" using yields_alternatives_loop [OF c ok'(1) q(2)] by (rule yields_grew)
    then show "synced p p'" using synced_trans [OF g _ followsD [OF f ok q(1)] synced_alternatives_loop [OF f c ok' q(2)]] by blast
  qed
qed (simp add: follows_def)

end
