(* ===== verification/RegexWhole.thy ===== *)
theory RegexWhole
  imports RegexScan
begin

text \<open>
  From source text to match. On a plain source outside \<open>v\<close> mode the pre-scan counts exactly the groups
  the descent numbers, so that a pattern in which no group refers to itself meets the hypotheses of the
  compiler's theorems, and \<open>compilePattern\<close> followed by \<open>search\<close> is correct and complete as a whole.
\<close>

section \<open>The pre-scan counts what the descent numbers\<close>

lemma scan_agrees:
  assumes "parsePattern host pattern flags = Inr parsed" and "\<forall>u\<in>set pattern. u < 0x10000"
    and "plain_source pattern" and "flags AND RE_FLAG_V = 0"
  shows "scanGroups pattern = Inr (pr_numCaptures parsed, pr_groupNames parsed)"
proof -
  obtain p p' where n: "new_parser pattern flags = Inr p" and ok: "parser_ok p" and y: "yields p [pr_root parsed] p'"
    and c: "pr_numCaptures parsed = p_numCaptures p'" "pr_groupNames parsed = p_groupNames p"
    and a: "parseAlternation (Suc (length pattern)) host p = Inr (pr_root parsed, p')" and e: "eof p'"
    using parsePattern_cases [OF assms(1,2)] .
  note p = new_parser_ok [OF n assms(2)]
  have "calm p" using n assms(3,4) by (auto simp: new_parser_def calm_def)
  then have "scans pattern False 0 (p_pos p') (p_numCaptures p')"
    using followsD [OF follows_alternation ok _ a] p by (simp add: synced_def)
  moreover have "p_src p' = pattern" using grew_fields [OF yields_grew [OF y]] p(4) by simp
  with e have "length pattern \<le> p_pos p'" by (simp add: eof_def)
  ultimately obtain names where "Inr (p_totalCaptures p, p_groupNames p) = (Inr (p_numCaptures p', names) :: regex_error + _)"
    using p(5) by (fastforce simp: scans_def scanGroups_def scan_loop_past)
  with p(5) c show ?thesis by simp
qed

text \<open>
  C31. The group count and the names of the pre-scan, which forward references and the numbering of
  back-references rest on, are those of the descent.
\<close>

theorem scanGroups_agrees:
  assumes "parsePattern host pattern flags = Inr parsed" and "\<forall>u\<in>set pattern. u < 0x10000"
    and "plain_source pattern" and "flags AND RE_FLAG_V = 0"
  shows "scanGroups pattern = Inr (pr_numCaptures parsed, pr_groupNames parsed)"
  using assms by (rule scan_agrees)

section \<open>Patterns without self-references\<close>

primrec self_free :: "re_node \<Rightarrow> nat list \<Rightarrow> bool" where
  "self_free (RChar c) = (\<lambda>opens. True)"
| "self_free RAny = (\<lambda>opens. True)"
| "self_free RUDot = (\<lambda>opens. True)"
| "self_free (RClass rs neg) = (\<lambda>opens. True)"
| "self_free (RCpClass rs neg) = (\<lambda>opens. True)"
| "self_free RBol = (\<lambda>opens. True)"
| "self_free REol = (\<lambda>opens. True)"
| "self_free (RWordBoundary neg) = (\<lambda>opens. True)"
| "self_free (RBackref i) = (\<lambda>opens. i \<notin> set opens)"
| "self_free (RLookaround n neg beh) = self_free n"
| "self_free (RModGroup ad rm n) = self_free n"
| "self_free (RConcat ps) = (\<lambda>opens. list_all (\<lambda>f. f opens) (map self_free ps))"
| "self_free (RAlt ps) = (\<lambda>opens. list_all (\<lambda>f. f opens) (map self_free ps))"
| "self_free (RStar n g) = self_free n"
| "self_free (RPlus n g) = self_free n"
| "self_free (ROpt n g) = self_free n"
| "self_free (RRepeat n mn mx g) = self_free n"
| "self_free (RGroup n i nm) = (\<lambda>opens. self_free n (if i < 0 then opens else nat i # opens))"

lemma sorted_wrt_concat: "sorted_wrt R (concat xss) \<Longrightarrow> xs \<in> set xss \<Longrightarrow> sorted_wrt R xs"
  by (induction xss) (auto simp: sorted_wrt_append)

lemma refs_ok_wf: "wf_node k n \<Longrightarrow> sorted_wrt (<) (all_groups n) \<Longrightarrow> self_free n os \<Longrightarrow> refs_ok k n os"
proof (induction n arbitrary: os)
  case (RConcat ps)
  then show ?case using sorted_wrt_concat [of "(<)" "map all_groups ps"] by (fastforce simp: list_all_iff)
next
  case (RAlt ps)
  then show ?case using sorted_wrt_concat [of "(<)" "map all_groups ps"] by (fastforce simp: list_all_iff)
next
  case (RGroup n i nm)
  then show ?case by (cases "i < 0") auto
qed auto

lemma parsed_total_source:
  assumes "parsePattern host pattern flags = Inr parsed" and "\<forall>u\<in>set pattern. u < 0x10000"
    and "plain_source pattern" and "flags AND RE_FLAG_V = 0" and "self_free (pr_root parsed) []"
  shows "parsed_total parsed"
proof -
  have s: "parsed_ok parsed" "sorted_wrt (<) (all_groups (pr_root parsed))" "set (all_groups (pr_root parsed)) \<subseteq> {1..pr_numCaptures parsed}"
    "wf_node (pr_numCaptures parsed) (pr_root parsed)"
    using parsePattern_shape [OF assms(1,2)] scan_agrees [OF assms(1-4)] by auto
  have "self_free n (os @ [0])" if "wf_node k n" "self_free n os" for k n os
    using that
  proof (induction n arbitrary: os)
    case (RGroup n i nm)
    then show ?case using RGroup.IH [of "nat i # os"] by (auto split: if_splits)
  qed (auto simp: list_all_iff)
  from this [OF s(4) assms(5)] have "refs_ok (pr_numCaptures parsed) (pr_root parsed) [0]" using refs_ok_wf [OF s(4,2)] by simp
  with s(1,3) show ?thesis by (auto simp: parsed_total_def)
qed

section \<open>Source text to match\<close>

lemma compilePattern_cases:
  assumes "compilePattern upper host pattern flags = Inr cr"
  obtains parsed where "parsePattern host pattern flags = Inr parsed" and "compileParsed upper parsed flags = Inr cr"
  using assms by (auto simp: compilePattern_def)

text \<open>
  C14. A source the compiler accepts, without the \<open>v\<close> flag, whose group and property names are plain
  (\<open>plain_source\<close>) and whose tree has no group that refers to itself: \<open>search\<close> on its compiled program
  finds the preferred outcome, by the semantics of the parsed tree, at the leftmost position where it matches,
  and none exactly when no position matches; otherwise it stops at a limit. The last condition
  leaves out patterns such as that of \<open>stale_backreference_fails\<close>.
\<close>

theorem compilePattern_search:
  assumes "compilePattern upper host pattern flags = Inr cr" and "\<forall>u\<in>set pattern. u < 0x10000"
    and "plain_source pattern" and "flags AND RE_FLAG_V = 0" and "\<forall>u\<in>set s. u < 0x10000"
    and "\<And>parsed. parsePattern host pattern flags = Inr parsed \<Longrightarrow> self_free (pr_root parsed) []"
  shows "\<exists>parsed. parsePattern host pattern flags = Inr parsed \<and>
    (case search depth (cr_prog cr) (cr_classTable cr) (cr_nGroups cr) s start sticky (cr_nScratch cr) of
      NoMatch \<Rightarrow> (\<forall>i. max 0 start \<le> i \<and> i \<le> int (length s) \<and> (sticky \<longrightarrow> i = max 0 start)
        \<longrightarrow> match_outcomes upper parsed flags s i = Some [])
    | Matched c \<Rightarrow> (\<exists>i. max 0 start \<le> i \<and> i \<le> int (length s) \<and> (sticky \<longrightarrow> i = max 0 start)
        \<and> (\<forall>j. max 0 start \<le> j \<and> j < i \<longrightarrow> match_outcomes upper parsed flags s j = Some [])
        \<and> (\<exists>st rest. match_outcomes upper parsed flags s i = Some (st # rest) \<and> take (2 * cr_nGroups cr) c = snd st))
    | StepLimit \<Rightarrow> True | StackOverflow \<Rightarrow> True | BadCapture \<Rightarrow> False)"
proof -
  obtain parsed where p: "parsePattern host pattern flags = Inr parsed" and c: "compileParsed upper parsed flags = Inr cr"
    using compilePattern_cases [OF assms(1)] .
  have "parsed_total parsed" using parsed_total_source [OF p assms(2-4) assms(6) [OF p]] .
  then show ?thesis using search_correct [OF c _ assms(5)] p by blast
qed

text \<open>
  C32. The same source, under the same three conditions (no \<open>v\<close> flag, plain names, no group that refers to
  itself), at any position of any subject: with enough budget and nesting depth the compiled program ends and
  reports the preferred outcome.
\<close>

theorem compilePattern_attempt:
  assumes "compilePattern upper host pattern flags = Inr cr" and "\<forall>u\<in>set pattern. u < 0x10000"
    and "plain_source pattern" and "flags AND RE_FLAG_V = 0" and "\<forall>u\<in>set s. u < 0x10000" and "in_subject s i"
    and "\<And>parsed. parsePattern host pattern flags = Inr parsed \<Longrightarrow> self_free (pr_root parsed) []"
  shows "\<exists>parsed outs n d. parsePattern host pattern flags = Inr parsed \<and> match_outcomes upper parsed flags s i = Some outs
    \<and> (\<forall>budget depth. n \<le> budget \<longrightarrow> d \<le> depth \<longrightarrow>
      reports (cr_nGroups cr) outs (vm_loop \<lparr>env_prog = cr_prog cr, env_classTable = cr_classTable cr, env_input = s\<rparr> budget depth 1 0
        [(0, i, fresh_caps (2 * cr_nGroups cr + cr_nScratch cr))]))"
proof -
  obtain parsed where p: "parsePattern host pattern flags = Inr parsed" and c: "compileParsed upper parsed flags = Inr cr"
    using compilePattern_cases [OF assms(1)] .
  have "parsed_total parsed" using parsed_total_source [OF p assms(2-4) assms(7) [OF p]] .
  then show ?thesis using compiled_ends [OF c _ assms(5,6)] p by blast
qed

section \<open>A concrete pattern\<close>

lemma sample_plain: "plain_source sample_source"
  by code_simp

theorem scanGroups_agrees_witness: "scanGroups sample_source = Inr (1, [(js ''n'', 1)])"
proof -
  have "pr_numCaptures sample_parsed = 1" "pr_groupNames sample_parsed = [(js ''n'', 1)]" by code_simp+
  then show ?thesis using scanGroups_agrees [OF sample_parses sample_units sample_plain] by simp
qed

definition sample_program :: compiled_regex where
  "sample_program = (case compilePattern ascii_upper no_host sample_source 0 of Inr cr \<Rightarrow> cr)"

lemma sample_program_compiles: "compilePattern ascii_upper no_host sample_source 0 = Inr sample_program"
  by code_simp

lemma sample_self_free: "parsePattern no_host sample_source 0 = Inr parsed \<Longrightarrow> self_free (pr_root parsed) []"
proof -
  assume "parsePattern no_host sample_source 0 = Inr parsed"
  then have "parsed = sample_parsed" by (simp add: sample_parses)
  moreover have "self_free (pr_root sample_parsed) []" by code_simp
  ultimately show ?thesis by simp
qed

theorem compilePattern_search_witness:
  "search 5 (cr_prog sample_program) (cr_classTable sample_program) (cr_nGroups sample_program) (js ''bxxxx'') 0 False (cr_nScratch sample_program)
     = Matched [1, 4, 1, 2, 4] \<and> (\<exists>parsed i st rest. parsePattern no_host sample_source 0 = Inr parsed
       \<and> match_outcomes ascii_upper parsed 0 (js ''bxxxx'') i = Some (st # rest) \<and> snd st = [1, 4, 1, 2])"
proof -
  have r: "search 5 (cr_prog sample_program) (cr_classTable sample_program) (cr_nGroups sample_program) (js ''bxxxx'') 0 False
      (cr_nScratch sample_program) = Matched [1, 4, 1, 2, 4]" by code_simp
  have n: "cr_nGroups sample_program = 2" by code_simp
  have "\<forall>u\<in>set (js ''bxxxx''). u < 0x10000" by (simp add: js_def)
  from compilePattern_search [OF sample_program_compiles sample_units sample_plain _ this, where depth = 5 and start = 0 and sticky = False]
  show ?thesis
    unfolding r using sample_self_free by (auto simp: n)
qed

theorem compilePattern_attempt_witness:
  "\<exists>parsed outs n d. parsePattern no_host sample_source 0 = Inr parsed \<and> match_outcomes ascii_upper parsed 0 (js ''aaa'') 0 = Some outs
    \<and> (\<forall>budget depth. n \<le> budget \<longrightarrow> d \<le> depth \<longrightarrow>
      reports (cr_nGroups sample_program) outs (vm_loop \<lparr>env_prog = cr_prog sample_program, env_classTable = cr_classTable sample_program,
        env_input = js ''aaa''\<rparr> budget depth 1 0 [(0, 0, fresh_caps (2 * cr_nGroups sample_program + cr_nScratch sample_program))]))"
  by (rule compilePattern_attempt [OF sample_program_compiles sample_units sample_plain _ _ _ sample_self_free])
    (simp_all add: in_subject_def js_def)

end
