(* ===== verification/CanonicalGroup.thy ===== *)
theory CanonicalGroup
  imports EmitCodec
begin

text \<open>
  The identity of the runtime's recursive type group, \<open>src/src/emit/canonical-recgroup.ts\<close>: the tokens and
  the hash of a group, the parser of the type section of a finished binary, and the check that the binary still
  holds the group of a fingerprint; with the two functions of \<open>src/src/compiler.ts\<close> that run it on every
  compilation. The module model has no type names and no ABI version, so both are arguments beside it. Shown:
  the hash does not depend on the placement of the group.
\<close>

section \<open>Tokens and hash\<close>

definition RUNTIME_RECGROUP_TYPE_NAMES :: "string list" where
  "RUNTIME_RECGROUP_TYPE_NAMES = [''__vec_base'', ''__arr_externref'', ''__vec_externref'', ''__arr_f64'', ''__vec_f64'',
     ''__str_data'', ''AnyString'', ''NativeString'', ''ConsString'', ''HashedString'']"

definition RUNTIME_RECGROUP_ABI_VERSION :: nat where
  "RUNTIME_RECGROUP_ABI_VERSION = 2"

text \<open>\<open>localOf\<close> takes an absolute type index to its position in the group.\<close>

type_synonym local_of = "int \<Rightarrow> nat option"

fun valTypeToken :: "local_of \<Rightarrow> val_type \<Rightarrow> string" where
  "valTypeToken localOf (Ref typeIdx) = (case localOf typeIdx of Some l \<Rightarrow> ''r'' @ show_nat l | None \<Rightarrow> ''x'')"
| "valTypeToken localOf (RefNull typeIdx) = (case localOf typeIdx of Some l \<Rightarrow> ''nr'' @ show_nat l | None \<Rightarrow> ''nx'')"
| "valTypeToken localOf I32 = ''i32''"
| "valTypeToken localOf BooleanI32 = ''i32b''"
| "valTypeToken localOf I64 = ''i64''"
| "valTypeToken localOf BigintI64 = ''i64big''"
| "valTypeToken localOf F32 = ''f32''"
| "valTypeToken localOf F64 = ''f64''"
| "valTypeToken localOf V128 = ''v128''"
| "valTypeToken localOf I8 = ''i8''"
| "valTypeToken localOf I16 = ''i16''"
| "valTypeToken localOf FuncRef = ''funcref''"
| "valTypeToken localOf ExternRef = ''externref''"
| "valTypeToken localOf RefExtern = ''ref_extern''"
| "valTypeToken localOf EqRef = ''eqref''"
| "valTypeToken localOf AnyRef = ''anyref''"

definition fieldToken :: "local_of \<Rightarrow> val_type \<times> bool \<Rightarrow> string" where
  "fieldToken localOf f = (if snd f then ''m'' else '''') @ valTypeToken localOf (fst f)"

definition superToken :: "local_of \<Rightarrow> int \<Rightarrow> bool \<Rightarrow> string" where
  "superToken localOf s isFinal =
     (case localOf s of
        Some l \<Rightarrow> ''sub r'' @ show_nat l @ (if isFinal then ''!'' else '''') @ '' ''
      | None \<Rightarrow> ''sub x'' @ (if isFinal then ''!'' else '''') @ '' '')"

text \<open>A flat type table has no \<open>rec\<close>; the switch has no case for it.\<close>

fun structuralToken :: "local_of \<Rightarrow> type_def \<Rightarrow> string" where
  "structuralToken localOf (FuncType params results) =
     ''func('' @ join_with CHR '','' (map (valTypeToken localOf) params) @ '')->(''
       @ join_with CHR '','' (map (valTypeToken localOf) results) @ '')''"
| "structuralToken localOf (StructType fs superTypeIdx isFinal) =
     (case superTypeIdx of Some s \<Rightarrow> if s \<ge> 0 then superToken localOf s isFinal else '''' | None \<Rightarrow> '''')
       @ ''struct{'' @ join_with CHR '';'' (map (fieldToken localOf) fs) @ ''}''"
| "structuralToken localOf (ArrayType element isMutable) =
     ''array<'' @ (if isMutable then ''m'' else '''') @ valTypeToken localOf element @ ''>''"
| "structuralToken localOf (SubType superType isFinal t) =
     (case superType of Some s \<Rightarrow> superToken localOf s isFinal | None \<Rightarrow> if isFinal then ''final '' else '''')
       @ structuralToken localOf t"
| "structuralToken localOf (RecGroup ts) = ''undefined''"

definition hex_digit :: "nat \<Rightarrow> char" where
  "hex_digit n = char_of (if n < 10 then 48 + n else 87 + n)"

fun hex_string :: "nat \<Rightarrow> string" where
  "hex_string n = (if n < 16 then [hex_digit n] else hex_string (n div 16) @ [hex_digit (n mod 16)])"

declare hex_string.simps [simp del]

text \<open>FNV-1a on 64 bits; \<open>padStart\<close> fills up to 16 digits.\<close>

definition fnv1a64 :: "string \<Rightarrow> string" where
  "fnv1a64 s =
     (let h = fold (\<lambda>c h. (h XOR word_of_nat (of_char c)) * 0x100000001b3) s (0xcbf29ce484222325 :: 64 word);
          digits = hex_string (unat h)
      in replicate (16 - length digits) CHR ''0'' @ digits)"

definition local_of_indices :: "int list \<Rightarrow> local_of" where
  "local_of_indices absIndices = map_of (rev (zip absIndices [0..<length absIndices]))"

definition group_parts :: "type_def list \<Rightarrow> int list \<Rightarrow> string list" where
  "group_parts defs absIndices =
     (''v'' @ show_nat RUNTIME_RECGROUP_ABI_VERSION) # (''n'' @ show_nat (length defs))
       # map (\<lambda>(i, t). show_nat i @ '':'' @ structuralToken (local_of_indices absIndices) t) (List.enumerate 0 defs)"

definition canonicalHashOfTypeGroup :: "type_def list \<Rightarrow> int list \<Rightarrow> string" where
  "canonicalHashOfTypeGroup defs absIndices = fnv1a64 (join_with CHR ''|'' (group_parts defs absIndices))"

section \<open>The group of a module\<close>

record group_member =
  gm_name :: string
  gm_absIndex :: nat
  gm_def :: type_def

text \<open>Position \<open>i\<close> of \<open>names\<close> is the name of type \<open>i\<close>, if it has one.\<close>

definition extractRuntimeGroup :: "string option list \<Rightarrow> wasm_module \<Rightarrow> group_member list" where
  "extractRuntimeGroup names m =
     concat (map (\<lambda>(i, (t, nm)).
       if is_rec t then []
       else case nm of
         None \<Rightarrow> []
       | Some s \<Rightarrow> if s \<in> set RUNTIME_RECGROUP_TYPE_NAMES then [\<lparr>gm_name = s, gm_absIndex = i, gm_def = t\<rparr>] else [])
       (List.enumerate 0 (zip (m_types m) names)))"

record group_fingerprint =
  fp_abiVersion :: nat
  fp_hash :: string
  fp_members :: "string list"
  fp_count :: nat

definition fingerprintRuntimeGroup :: "string option list \<Rightarrow> wasm_module \<Rightarrow> group_fingerprint" where
  "fingerprintRuntimeGroup names m =
     (let members = extractRuntimeGroup names m in
      \<lparr>fp_abiVersion = RUNTIME_RECGROUP_ABI_VERSION,
       fp_hash = canonicalHashOfTypeGroup (map gm_def members) (map (\<lambda>mb. int (gm_absIndex mb)) members),
       fp_members = map gm_name members, fp_count = length members\<rparr>)"

section \<open>The type section of a binary\<close>

datatype group_error =
    TruncatedTypes
  | InvalidU32
  | InvalidS33
  | PackedValue byte
  | UnsupportedValType byte
  | MultipleSupertypes
  | NestedSubtype
  | UnsupportedTypeDef byte
  | NotWasm
  | TruncatedSection
  | TrailingBytes

type_synonym 'a group_reader = "byte_reader \<Rightarrow> group_error + ('a \<times> byte_reader)"

definition readByte :: "byte group_reader" where
  "readByte c = (if pos c \<ge> length (data c) then Inl TruncatedTypes else Inr (data c ! pos c, c\<lparr>pos := pos c + 1\<rparr>))"

text \<open>The loops run five times at most; the sums are JavaScript numbers, which are exact here.\<close>

fun unsigned_loop :: "nat \<Rightarrow> nat \<Rightarrow> nat \<Rightarrow> nat group_reader" where
  "unsigned_loop 0 v shift c = Inl InvalidU32"
| "unsigned_loop (Suc n) v shift c =
     rbind (readByte c) (\<lambda>(b, c).
       let v' = v + unat (b AND 0x7f) * 2 ^ shift in
       if b AND 0x80 = 0 then Inr (v', c) else unsigned_loop n v' (shift + 7) c)"

definition readUnsignedLeb :: "nat group_reader" where
  "readUnsignedLeb c = unsigned_loop 5 0 0 c"

fun signed_loop :: "nat \<Rightarrow> int \<Rightarrow> nat \<Rightarrow> int group_reader" where
  "signed_loop 0 v shift c = Inl InvalidS33"
| "signed_loop (Suc n) v shift c =
     rbind (readByte c) (\<lambda>(b, c).
       let v' = v + uint (b AND 0x7f) * 2 ^ shift; shift' = shift + 7 in
       if b AND 0x80 = 0
       then Inr (if b AND 0x40 \<noteq> 0 \<and> shift' < 33 then v' - 2 ^ shift' else v', c)
       else signed_loop n v' shift' c)"

definition readSignedLeb33 :: "int group_reader" where
  "readSignedLeb33 c = signed_loop 5 0 0 c"

definition heap_tag :: "bool \<Rightarrow> byte \<Rightarrow> val_type option" where
  "heap_tag nullable b =
     (if b = 0x6e then Some AnyRef
      else if b = 0x6d then Some EqRef
      else if b \<in> {0x6c, 0x6b, 0x6a, 0x71} then Some AnyRef
      else if b = 0x72 then Some ExternRef
      else if b \<in> {0x73, 0x70} then Some FuncRef
      else if b = 0x6f then Some (if nullable then ExternRef else RefExtern)
      else None)"

definition parseBinaryRefType :: "bool \<Rightarrow> val_type group_reader" where
  "parseBinaryRefType nullable c =
     (case (if pos c < length (data c) then heap_tag nullable (data c ! pos c) else None) of
        Some t \<Rightarrow> Inr (t, c\<lparr>pos := pos c + 1\<rparr>)
      | None \<Rightarrow> rbind (readSignedLeb33 c) (\<lambda>(typeIdx, c). Inr (if nullable then RefNull typeIdx else Ref typeIdx, c)))"

definition value_tag :: "byte \<Rightarrow> val_type option" where
  "value_tag b =
     (if b = 0x7f then Some I32 else if b = 0x7e then Some I64 else if b = 0x7d then Some F32
      else if b = 0x7c then Some F64 else if b = 0x7b then Some V128 else if b = 0x70 then Some FuncRef
      else if b = 0x6f then Some ExternRef else if b = 0x6e then Some AnyRef else if b = 0x6d then Some EqRef
      else if b \<in> {0x6c, 0x71, 0x6b, 0x6a} then Some AnyRef else if b = 0x72 then Some ExternRef
      else if b = 0x73 then Some FuncRef else None)"

definition parseBinaryValType :: "bool \<Rightarrow> val_type group_reader" where
  "parseBinaryValType storage c =
     rbind (readByte c) (\<lambda>(tag, c).
       if tag = 0x78 then (if storage then Inr (I8, c) else Inl (PackedValue tag))
       else if tag = 0x77 then (if storage then Inr (I16, c) else Inl (PackedValue tag))
       else if tag = 0x64 then parseBinaryRefType False c
       else if tag = 0x63 then parseBinaryRefType True c
       else case value_tag tag of Some t \<Rightarrow> Inr (t, c) | None \<Rightarrow> Inl (UnsupportedValType tag))"

definition parse_field :: "(val_type \<times> bool) group_reader" where
  "parse_field c =
     rbind (parseBinaryValType True c) (\<lambda>(t, c). rbind (readByte c) (\<lambda>(b, c). Inr ((t, b = 1), c)))"

definition counted :: "'a group_reader \<Rightarrow> 'a list group_reader" where
  "counted g c = rbind (readUnsignedLeb c) (\<lambda>(n, c). rtimes n g c)"

subsection \<open>Reading only moves forward\<close>

lemma readByte_Inr: "readByte c = Inr (b, c') \<longleftrightarrow> pos c < length (data c) \<and> b = data c ! pos c \<and> c' = c\<lparr>pos := pos c + 1\<rparr>"
  by (auto simp: readByte_def)

lemma advances_readByte: "advances readByte"
  by (auto simp: advances_def readByte_Inr)

lemma unsigned_loop_advances: "unsigned_loop n v shift c = Inr (x, c') \<Longrightarrow> data c' = data c \<and> pos c < pos c'"
  by (induction n v shift c arbitrary: c' rule: unsigned_loop.induct)
    (fastforce simp: rbind_Inr_iff readByte_Inr Let_def split: if_splits)+

lemma advances_readUnsignedLeb: "advances readUnsignedLeb"
  by (auto simp: advances_def readUnsignedLeb_def dest!: unsigned_loop_advances)

function parseBinaryTypeDef :: "type_def group_reader" where
  "parseBinaryTypeDef c =
     rbind (readByte c) (\<lambda>(tag, c1).
       if tag = 0x60 then
         rbind (counted (parseBinaryValType False) c1) (\<lambda>(params, c2).
         rbind (counted (parseBinaryValType False) c2) (\<lambda>(results, c3). Inr (FuncType params results, c3)))
       else if tag = 0x5f then
         rbind (counted parse_field c1) (\<lambda>(fs, c2). Inr (StructType fs None False, c2))
       else if tag = 0x5e then
         rbind (parse_field c1) (\<lambda>(f, c2). Inr (ArrayType (fst f) (snd f), c2))
       else if tag = 0x50 \<or> tag = 0x4f then
         rbind (readUnsignedLeb c1) (\<lambda>(superCount, c2).
           if superCount > 1 then Inl MultipleSupertypes
           else
             rbind (if superCount = 1 then rbind (readUnsignedLeb c2) (\<lambda>(s, c3). Inr (Some (int s), c3)) else Inr (None, c2))
               (\<lambda>(superType, c3).
                 rbind (parseBinaryTypeDef c3) (\<lambda>(inner, c4).
                   case inner of
                     SubType _ _ _ \<Rightarrow> Inl NestedSubtype
                   | _ \<Rightarrow> Inr (SubType superType (tag = 0x4f) inner, c4))))
       else Inl (UnsupportedTypeDef tag))"
  by pat_completeness auto
termination
  by (relation "measure remaining")
    (auto simp: readByte_Inr remaining_def rbind_Inr_iff readUnsignedLeb_def split: if_splits dest!: unsigned_loop_advances)

declare parseBinaryTypeDef.simps [simp del]

text \<open>The last index of a group, which the source keeps beside the first, is determined by the number of members.\<close>

record type_group =
  tg_start :: nat
  tg_recursive :: bool
  tg_defs :: "type_def list"

text \<open>The walk over the sections; the last type section wins.\<close>

function scan_sections :: "byte list \<Rightarrow> nat \<Rightarrow> byte list option \<Rightarrow> group_error + byte list option" where
  "scan_sections binary offset typeSection =
     (if offset < length binary then
        rbind (readUnsignedLeb \<lparr>data = binary, pos = offset + 1\<rparr>) (\<lambda>(sectionLength, c).
          if pos c + sectionLength > length binary then Inl TruncatedSection
          else scan_sections binary (pos c + sectionLength)
            (if binary ! offset = 1 then Some (slice (pos c) (pos c + sectionLength) binary) else typeSection))
      else Inr typeSection)"
  by pat_completeness auto
termination
  by (relation "measure (\<lambda>(binary, offset, _). length binary - offset)")
    (auto simp: readUnsignedLeb_def dest!: unsigned_loop_advances)

declare scan_sections.simps [simp del]

definition parse_group :: "nat \<Rightarrow> type_group group_reader" where
  "parse_group absolute c =
     (if pos c < length (data c) \<and> data c ! pos c = 0x4e
      then rbind (readByte c) (\<lambda>(_, c). rbind (counted parseBinaryTypeDef c) (\<lambda>(defs, c).
        Inr (\<lparr>tg_start = absolute, tg_recursive = True, tg_defs = defs\<rparr>, c)))
      else rbind (parseBinaryTypeDef c) (\<lambda>(def, c). Inr (\<lparr>tg_start = absolute, tg_recursive = False, tg_defs = [def]\<rparr>, c)))"

fun parse_groups :: "nat \<Rightarrow> nat \<Rightarrow> type_group list group_reader" where
  "parse_groups 0 absolute c = Inr ([], c)"
| "parse_groups (Suc n) absolute c =
     rbind (parse_group absolute c) (\<lambda>(g, c).
     rbind (parse_groups n (absolute + length (tg_defs g)) c) (\<lambda>(gs, c). Inr (g # gs, c)))"

definition parse_type_section :: "byte list \<Rightarrow> group_error + type_group list" where
  "parse_type_section bs =
     rbind (readUnsignedLeb \<lparr>data = bs, pos = 0\<rparr>) (\<lambda>(typeCount, c).
     rbind (parse_groups typeCount 0 c) (\<lambda>(groups, c).
       if pos c \<noteq> length bs then Inl TrailingBytes else Inr groups))"

definition parseBinaryTypeGroups :: "byte list \<Rightarrow> group_error + type_group list" where
  "parseBinaryTypeGroups binary =
     (if length binary < 8 \<or> take 4 binary \<noteq> [0x00, 0x61, 0x73, 0x6d] then Inl NotWasm
      else rbind (scan_sections binary 8 None) (\<lambda>typeSection.
        case typeSection of None \<Rightarrow> Inr [] | Some bs \<Rightarrow> parse_type_section bs))"

section \<open>The check\<close>

datatype drift =
    UnsupportedAbi nat
  | UnparsedTypes group_error
  | MissingGroup nat
  | ChangedGroup string "string list"

record group_check =
  gc_valid :: bool
  gc_hash :: "string option"
  gc_start :: "nat option"
  gc_count :: "nat option"
  gc_detail :: "drift option"

definition failed_check :: "drift \<Rightarrow> group_check" where
  "failed_check d = \<lparr>gc_valid = False, gc_hash = None, gc_start = None, gc_count = None, gc_detail = Some d\<rparr>"

definition group_hash :: "type_group \<Rightarrow> string" where
  "group_hash g = canonicalHashOfTypeGroup (tg_defs g) (map (\<lambda>i. int (tg_start g + i)) [0..<length (tg_defs g)])"

definition verifyRuntimeRecGroupBinary :: "byte list \<Rightarrow> group_fingerprint \<Rightarrow> group_check" where
  "verifyRuntimeRecGroupBinary binary expected =
     (if fp_abiVersion expected \<noteq> RUNTIME_RECGROUP_ABI_VERSION then failed_check (UnsupportedAbi (fp_abiVersion expected))
      else case parseBinaryTypeGroups binary of
        Inl err \<Rightarrow> failed_check (UnparsedTypes err)
      | Inr groups \<Rightarrow>
          (let candidates = filter (\<lambda>g. tg_recursive g \<and> length (tg_defs g) = fp_count expected) groups in
           if candidates = [] then failed_check (MissingGroup (fp_count expected))
           else case List.find (\<lambda>g. group_hash g = fp_hash expected) candidates of
             None \<Rightarrow> failed_check (ChangedGroup (fp_hash expected) (map group_hash candidates))
           | Some g \<Rightarrow> \<lparr>gc_valid = True, gc_hash = Some (group_hash g), gc_start = Some (tg_start g),
               gc_count = Some (length (tg_defs g)), gc_detail = None\<rparr>))"

text \<open>The metadata of the module must agree with its type table; the result is \<open>undefined\<close> without metadata.\<close>

datatype metadata_error = MetadataDisagrees | AbiMismatch nat nat

definition getRuntimeRecGroupFingerprint ::
    "string option list \<Rightarrow> nat \<Rightarrow> wasm_module \<Rightarrow> metadata_error + group_fingerprint option" where
  "getRuntimeRecGroupFingerprint names abiVersion m =
     (case m_canonicalRecGroup m of
        None \<Rightarrow> Inr None
      | Some (start, fin) \<Rightarrow>
          (let expectedCount = Suc fin - start;
               members = extractRuntimeGroup names m;
               fingerprint = fingerprintRuntimeGroup names m;
               namesMatch = (fp_members fingerprint = RUNTIME_RECGROUP_TYPE_NAMES);
               rangeMatches = (map gm_absIndex members = [start..<start + expectedCount])
           in if fin < start \<or> fp_count fingerprint \<noteq> expectedCount \<or> \<not> namesMatch \<or> \<not> rangeMatches then Inl MetadataDisagrees
              else if fp_abiVersion fingerprint \<noteq> abiVersion then Inl (AbiMismatch abiVersion (fp_abiVersion fingerprint))
              else Inr (Some fingerprint)))"

definition runtimeRecGroupDrift :: "byte list \<Rightarrow> group_fingerprint option \<Rightarrow> drift option" where
  "runtimeRecGroupDrift binary expected =
     (case expected of
        None \<Rightarrow> None
      | Some fp \<Rightarrow> (let v = verifyRuntimeRecGroupBinary binary fp in if gc_valid v then None else gc_detail v))"

section \<open>What the hash sees\<close>

text \<open>A module that lays its types out differently: every type index goes through \<open>f\<close>.\<close>

fun move_val :: "(int \<Rightarrow> int) \<Rightarrow> val_type \<Rightarrow> val_type" where
  "move_val f (Ref i) = Ref (f i)"
| "move_val f (RefNull i) = RefNull (f i)"
| "move_val f t = t"

primrec move_type :: "(int \<Rightarrow> int) \<Rightarrow> type_def \<Rightarrow> type_def" where
  "move_type f (FuncType params results) = FuncType (map (move_val f) params) (map (move_val f) results)"
| "move_type f (StructType fs superTypeIdx isFinal) =
     StructType (map (\<lambda>fd. (move_val f (fst fd), snd fd)) fs) (map_option f superTypeIdx) isFinal"
| "move_type f (ArrayType element isMutable) = ArrayType (move_val f element) isMutable"
| "move_type f (RecGroup ts) = RecGroup (map (move_type f) ts)"
| "move_type f (SubType superType isFinal t) = SubType (map_option f superType) isFinal (move_type f t)"

lemma local_of_moved: "inj f \<Longrightarrow> local_of_indices (map f idx) (f i) = local_of_indices idx i"
proof -
  assume f: "inj f"
  have "map_of (map (\<lambda>(x, y). (f x, y)) xs) (f i) = map_of xs i" for xs :: "(int \<times> nat) list"
    by (induction xs) (auto dest: injD [OF f])
  from this [of "rev (zip idx [0..<length idx])"] show ?thesis
    by (simp add: local_of_indices_def zip_map1 rev_map)
qed

lemma move_val_token: "(\<And>i. lo' (f i) = lo i) \<Longrightarrow> valTypeToken lo' (move_val f v) = valTypeToken lo v"
  by (cases v) simp_all

lemma superToken_moved: "(\<And>i. lo' (f i) = lo i) \<Longrightarrow> superToken lo' (f s) = superToken lo s"
  by (rule ext) (simp add: superToken_def)

lemma move_type_token:
  assumes "\<And>i. lo' (f i) = lo i" and "\<And>i. 0 \<le> f i \<longleftrightarrow> 0 \<le> i"
  shows "structuralToken lo' (move_type f t) = structuralToken lo t"
  by (induction t)
    (simp_all add: move_val_token [of lo' f lo, OF assms(1)] superToken_moved [of lo' f lo, OF assms(1)] assms(2)
      fieldToken_def [abs_def] comp_def split: option.split)

text \<open>
  C18. The hash of a group does not depend on where the group lies: renumbering all types of a module, one to one
  and keeping the abstract heap types abstract, leaves it as it is, whatever the members refer to.
\<close>

theorem group_hash_renumbered:
  assumes "inj f" and "\<And>i. 0 \<le> f i \<longleftrightarrow> 0 \<le> i"
  shows "canonicalHashOfTypeGroup (map (move_type f) defs) (map f absIndices) = canonicalHashOfTypeGroup defs absIndices"
proof -
  note lo = local_of_moved [OF assms(1), of absIndices]
  have "map (\<lambda>(i, t). show_nat i @ '':'' @ structuralToken (local_of_indices (map f absIndices)) t) (List.enumerate n (map (move_type f) defs))
      = map (\<lambda>(i, t). show_nat i @ '':'' @ structuralToken (local_of_indices absIndices) t) (List.enumerate n defs)" for n
    by (induction defs arbitrary: n) (simp_all add: move_type_token [of "local_of_indices (map f absIndices)" f, OF lo assms(2)])
  then show ?thesis by (simp add: canonicalHashOfTypeGroup_def group_parts_def)
qed

theorem group_hash_renumbered_witness:
  "canonicalHashOfTypeGroup [StructType [(RefNull 16, True)] (Some (-1)) False, ArrayType (Ref 12) True] [15, 16]
    = canonicalHashOfTypeGroup [StructType [(RefNull 6, True)] (Some (-1)) False, ArrayType (Ref 2) True] [5, 6]"
proof -
  let ?f = "\<lambda>i :: int. if i \<ge> 0 then i + 10 else i"
  have "inj ?f" by (rule injI) (auto split: if_splits)
  moreover have "0 \<le> ?f i \<longleftrightarrow> 0 \<le> i" for i by simp
  ultimately show ?thesis
    using group_hash_renumbered [of ?f "[StructType [(RefNull 6, True)] (Some (-1)) False, ArrayType (Ref 2) True]" "[5, 6]"] by simp
qed

end
