(* ===== verification/CanonicalVerify.thy ===== *)
theory CanonicalVerify
  imports CanonicalGroup
begin

text \<open>
  The parser of type sections in \<open>src/src/emit/canonical-recgroup.ts\<close> against the emitter of
  \<open>src/src/emit/binary.ts\<close>: numbers, value types, fields and type definitions. Shown: the parser reads back every
  type definition the emitter writes, up to what \<open>view_type\<close> says: brands are gone, some abstract heap types
  come back as another one, and a supertype comes back as a \<open>sub\<close> of its own.
\<close>

section \<open>Numbers\<close>

lemma reads_readByte: "reads readByte [b] b"
proof (rule readsI)
  fix r ys
  assume p: "pos r \<le> length (data r)" and r: "rest r = [b] @ ys"
  then have "pos r < length (data r)" by (cases "pos r = length (data r)") (auto simp: rest_def)
  with r show "readByte r = Inr (b, skip (length [b]) r)"
    by (simp add: readByte_def rest_def skip_def) (metis hd_drop_conv_nth list.sel(1))
qed

lemma unat_byte_low:
  "unat ((ucast (v :: u32) OR 0x80) AND (0x7f :: byte)) = unat v mod 128"
  "unat (ucast (v :: u32) AND (0x7f :: byte)) = unat v mod 128"
proof -
  have up: "unat (ucast x :: u32) = unat x" for x :: byte
    by (simp add: unsigned_ucast_eq take_bit_nat_eq_self less_le_trans [OF unsigned_less])
  have low: "unat (v AND mask 7) = unat v mod 128"
    unfolding take_bit_eq_mask [symmetric] by (simp add: unsigned_take_bit_eq take_bit_eq_mod unat_mod_distrib)
  show "unat ((ucast (v :: u32) OR 0x80) AND (0x7f :: byte)) = unat v mod 128"
    "unat (ucast (v :: u32) AND (0x7f :: byte)) = unat v mod 128"
    unfolding up [symmetric] byte_and_0x7f byte_and_0x7f' low by (rule refl)+
qed

lemma unat_drop_7: "unat (drop_bit 7 (v :: u32)) = unat v div 128"
  by (simp add: unsigned_drop_bit_eq drop_bit_eq_div unat_div_distrib)

lemma chunk_sum: "m * 2 ^ s + d * 2 ^ (s + 7) = (m + 128 * d) * (2 :: 'a :: comm_semiring_1) ^ s"
  by (simp add: power_add algebra_simps)

lemma unsigned_loop_uleb:
  "unat v < 2 ^ (7 * Suc n) \<Longrightarrow> reads (unsigned_loop (Suc n) a shift) (uleb v) (a + unat v * 2 ^ shift)"
proof (induction v arbitrary: n a shift rule: uleb.induct)
  case (1 v)
  let ?f = "\<lambda>b c. let v' = a + unat (b AND 0x7f) * 2 ^ shift in
       if b AND (0x80 :: byte) = 0 then Inr (v', c) else unsigned_loop n v' (shift + 7) c"
  have unf: "unsigned_loop (Suc n) a shift = (\<lambda>c. rbind (readByte c) (case_prod ?f))"
    by (rule ext) simp
  show ?case
  proof (cases "drop_bit 7 v = 0")
    case True
    then have "unat v < 128" using unat_drop_7 [of v] by (simp add: div_eq_0_iff)
    with True have "reads (\<lambda>c. rbind (readByte c) (case_prod ?f)) [ucast v] (a + unat v * 2 ^ shift)"
      by (intro reads_map [OF reads_readByte]) (simp add: byte_stop [OF True] unat_byte_low Let_def)
    with True show ?thesis unfolding unf by (subst uleb.simps) simp
  next
    case False
    have "unat v \<ge> 128"
    proof (rule ccontr)
      assume "\<not> 128 \<le> unat v"
      then have "unat (drop_bit 7 v) = 0" unfolding unat_drop_7 by simp
      with False show False by (simp only: unsigned_eq_0_iff)
    qed
    with "1.prems" obtain k where n: "n = Suc k" by (cases n) auto
    have less: "unat v div 128 < 2 ^ (7 * Suc k)"
      using "1.prems" unfolding n by (intro less_mult_imp_div_less) (simp add: power_add)
    have IH: "reads (unsigned_loop n (a + unat v mod 128 * 2 ^ shift) (shift + 7)) (uleb (drop_bit 7 v))
        (a + unat v mod 128 * 2 ^ shift + unat v div 128 * 2 ^ (shift + 7))"
      unfolding n unat_drop_7 [symmetric] by (intro "1.IH" [OF False]) (use less in \<open>simp only: unat_drop_7\<close>)
    have sum: "a + unat v mod 128 * 2 ^ shift + unat v div 128 * 2 ^ (shift + 7) = a + unat v * 2 ^ shift"
      unfolding add.assoc chunk_sum mod_mult_div_eq by (rule refl)
    have "reads (\<lambda>c. rbind (readByte c) (case_prod ?f)) ([ucast v OR 0x80] @ uleb (drop_bit 7 v)) (a + unat v * 2 ^ shift)"
      using IH byte_continue [of "ucast v"] unfolding sum
      by (intro reads_bind [OF reads_readByte]) (simp add: unat_byte_low Let_def)
    with False show ?thesis unfolding unf by (subst uleb.simps) simp
  qed
qed

lemma reads_readUnsignedLeb: "reads readUnsignedLeb (uleb v) (unat v)"
proof -
  have "unat v < 2 ^ 32" using unsigned_less [of v] by simp
  then have "reads (unsigned_loop (Suc 4) 0 0) (uleb v) (0 + unat v * 2 ^ 0)"
    by (intro unsigned_loop_uleb) simp
  moreover have "Suc 4 = 5" by simp
  ultimately show ?thesis unfolding readUnsignedLeb_def [abs_def] by (simp only: power_0 mult_1_right add_0)
qed

lemma transmits_unsigned: "transmits (put_u32 n) readUnsignedLeb (nat n)"
proof (rule transmitsI)
  fix e e'
  assume "encoder_inv e" and "put_u32 n e = Inr e'"
  note u = put_u32_Inr [OF this(2,1)]
  then have "unat (word_of_int n :: u32) = nat n" by (simp add: unat_eq_nat_uint uint_word_of_int)
  with u show "\<exists>bs. encoder_inv e' \<and> finish e' = finish e @ bs \<and> reads readUnsignedLeb bs (nat n)"
    using reads_readUnsignedLeb [of "word_of_int n"] by auto
qed

text \<open>Signed numbers: indices that are not negative, and abstract heap types, which are one byte.\<close>

lemma uint_byte_low:
  "uint (word_of_int (v mod 128) AND (0x7f :: byte)) = v mod 128"
  "uint (word_of_int (v mod 128 + 128) AND (0x7f :: byte)) = v mod 128"
proof -
  have up: "uint (ucast x :: u32) = uint x" for x :: byte
    by (simp add: unsigned_ucast_eq take_bit_int_eq_self less_le_trans [OF unsigned_less])
  have low: "uint (word_of_int (v mod 128) :: u32) = v mod 128"
    by (simp add: uint_word_of_int pos_mod_bound [THEN less_le_trans])
  show "uint (word_of_int (v mod 128) AND (0x7f :: byte)) = v mod 128"
    "uint (word_of_int (v mod 128 + 128) AND (0x7f :: byte)) = v mod 128"
    unfolding up [symmetric] sleb_byte_low by (rule low)+
qed

lemma signed_loop_sleb:
  "0 \<le> v \<Longrightarrow> v < 2 ^ (7 * Suc n - 1) \<Longrightarrow> reads (signed_loop (Suc n) a shift) (sleb v) (a + v * 2 ^ shift)"
proof (induction v arbitrary: n a shift rule: sleb.induct)
  case (1 v)
  let ?f = "\<lambda>b c. let v' = a + uint (b AND 0x7f) * 2 ^ shift; shift' = shift + 7 in
       if b AND (0x80 :: byte) = 0 then Inr (if b AND 0x40 \<noteq> 0 \<and> shift' < 33 then v' - 2 ^ shift' else v', c)
       else signed_loop n v' shift' c"
  have unf: "signed_loop (Suc n) a shift = (\<lambda>c. rbind (readByte c) (case_prod ?f))"
    by (rule ext) simp
  show ?case
  proof (cases "v < 64")
    case True
    with "1.prems" have m: "v mod 128 = v" by simp
    have "(word_of_int v AND 0x80 :: byte) = 0" "(word_of_int v AND 0x40 :: byte) = 0" "uint (word_of_int v AND (0x7f :: byte)) = v"
      using sleb_byte_flags(1,3) [of v] uint_byte_low(1) [of v] True unfolding m by simp_all
    then have "reads (\<lambda>c. rbind (readByte c) (case_prod ?f)) [word_of_int v] (a + v * 2 ^ shift)"
      by (intro reads_map [OF reads_readByte]) (simp add: Let_def)
    with True "1.prems" m show ?thesis unfolding unf by (subst sleb.simps) simp
  next
    case False
    with "1.prems" obtain k where n: "n = Suc k" by (cases n) auto
    have "7 * Suc n - 1 = 7 + (7 * Suc k - 1)" unfolding n by simp
    then have "v < 2 ^ (7 * Suc k - 1) * 128" using "1.prems"(2) by (simp only: power_add) simp
    then have "0 \<le> v div 128" "v div 128 < 2 ^ (7 * Suc k - 1)" using "1.prems"(1) by auto
    then have IH: "reads (signed_loop n (a + v mod 128 * 2 ^ shift) (shift + 7)) (sleb (v div 128))
        (a + v mod 128 * 2 ^ shift + v div 128 * 2 ^ (shift + 7))"
      unfolding n by (intro "1.IH") (use False in auto)
    have sum: "a + v mod 128 * 2 ^ shift + v div 128 * 2 ^ (shift + 7) = a + v * 2 ^ shift"
      unfolding add.assoc chunk_sum mod_mult_div_eq by (rule refl)
    have "reads (\<lambda>c. rbind (readByte c) (case_prod ?f)) ([word_of_int (v mod 128 + 128)] @ sleb (v div 128)) (a + v * 2 ^ shift)"
      using IH sleb_byte_flags(2) [of v] unfolding sum
      by (intro reads_bind [OF reads_readByte]) (simp only: prod.case Let_def uint_byte_low if_False)
    with False show ?thesis unfolding unf by (subst sleb.simps) simp
  qed
qed

lemma reads_signed: "0 \<le> v \<Longrightarrow> v < 2 ^ 31 \<Longrightarrow> reads readSignedLeb33 (sleb v) v"
proof -
  assume "0 \<le> v" "v < 2 ^ 31"
  then have "reads (signed_loop (Suc 4) 0 0) (sleb v) (0 + v * 2 ^ 0)" by (intro signed_loop_sleb) auto
  moreover have "Suc 4 = 5" by simp
  ultimately show ?thesis unfolding readSignedLeb33_def [abs_def] by (simp only: power_0 mult_1_right add_0)
qed

lemma sleb_negative: "- 64 \<le> v \<Longrightarrow> v < 0 \<Longrightarrow> sleb v = [word_of_int (v + 128)]"
proof -
  assume v: "- 64 \<le> v" "v < 0"
  then have "(v + 128) mod 128 = v + 128" by (intro mod_pos_pos_trivial) auto
  then show ?thesis using v by (subst sleb.simps) simp
qed

section \<open>Value types\<close>

lemma reads_signed_negative: "- 64 \<le> v \<Longrightarrow> v < 0 \<Longrightarrow> reads readSignedLeb33 [word_of_int (v + 128)] v"
proof -
  assume v: "- 64 \<le> v" "v < 0"
  then have m: "(v + 128) mod 128 = v + 128" by (intro mod_pos_pos_trivial) auto
  have flags: "(word_of_int (v + 128) AND 0x80 :: byte) = 0" "(word_of_int (v + 128) AND 0x40 :: byte) \<noteq> 0"
    "uint (word_of_int (v + 128) AND (0x7f :: byte)) = v + 128"
    using sleb_byte_flags(1,3) [of "v + 128"] uint_byte_low(1) [of "v + 128"] v unfolding m by auto
  have "reads (\<lambda>c. rbind (readByte c) (case_prod (\<lambda>b c. let v' = 0 + uint (b AND 0x7f) * 2 ^ 0; shift' = 0 + 7 in
       if b AND (0x80 :: byte) = 0 then Inr (if b AND 0x40 \<noteq> 0 \<and> shift' < 33 then v' - 2 ^ shift' else v', c)
       else signed_loop 4 v' shift' c))) [word_of_int (v + 128)] v"
    by (rule reads_map [OF reads_readByte]) (simp only: prod.case Let_def flags, simp)
  moreover have "signed_loop (Suc 4) 0 0 = (\<lambda>c. rbind (readByte c) (case_prod (\<lambda>b c. let v' = 0 + uint (b AND 0x7f) * 2 ^ 0; shift' = 0 + 7 in
       if b AND (0x80 :: byte) = 0 then Inr (if b AND 0x40 \<noteq> 0 \<and> shift' < 33 then v' - 2 ^ shift' else v', c)
       else signed_loop 4 v' shift' c)))"
    by (rule ext) (simp only: signed_loop.simps)
  moreover have "Suc 4 = 5" by simp
  ultimately show ?thesis unfolding readSignedLeb33_def [abs_def] by (simp only:)
qed

text \<open>What a heap type index looks like after a round trip; an abstract one may come back as an opaque carrier.\<close>

definition view_ref :: "bool \<Rightarrow> int \<Rightarrow> val_type" where
  "view_ref nullable i =
     (let idx = (if nullable then RefNull i else Ref i) in
      if i < 0 then (case heap_tag nullable (word_of_int (i + 128)) of Some t \<Rightarrow> t | None \<Rightarrow> idx) else idx)"

fun view_val :: "val_type \<Rightarrow> val_type" where
  "view_val (Ref i) = view_ref False i"
| "view_val (RefNull i) = view_ref True i"
| "view_val BooleanI32 = I32"
| "view_val BigintI64 = I64"
| "view_val t = t"

fun ref_in_range :: "val_type \<Rightarrow> bool" where
  "ref_in_range (Ref i) = (- 64 \<le> i \<and> i < 2 ^ 31)"
| "ref_in_range (RefNull i) = (- 64 \<le> i \<and> i < 2 ^ 31)"
| "ref_in_range t = True"

lemma heap_tag_None: "uint b < 0x6a \<or> 0x80 \<le> uint b \<Longrightarrow> heap_tag nullable b = None"
  by (auto simp: heap_tag_def)

lemma sleb_first: "0 \<le> v \<Longrightarrow> \<exists>b bs. sleb v = b # bs \<and> heap_tag nullable b = None"
proof (cases "v < 64")
  case True
  moreover assume "0 \<le> v"
  ultimately have "v mod 128 = v" "- 64 \<le> v \<and> v < 64" "v mod 256 = v" by auto
  then have "sleb v = [word_of_int v]" "uint (word_of_int v :: byte) = v"
    by (subst sleb.simps, simp only: if_True simp_thms, simp add: uint_word_of_int)
  with True show ?thesis by (simp add: heap_tag_None)
next
  case False
  have "v mod 128 + 128 < 256" "0 \<le> v mod 128" by auto
  then have "uint (word_of_int (v mod 128 + 128) :: byte) = v mod 128 + 128" by (simp only: uint_word_of_int) simp
  then have "heap_tag nullable (word_of_int (v mod 128 + 128)) = None" by (intro heap_tag_None) simp
  with False show ?thesis by (subst sleb.simps) simp
qed

lemma first_byte: "pos r \<le> length (data r) \<Longrightarrow> rest r = b # ys \<Longrightarrow> pos r < length (data r) \<and> data r ! pos r = b"
proof
  assume p: "pos r \<le> length (data r)" and r: "rest r = b # ys"
  from r have "drop (pos r) (data r) \<noteq> []" by (simp only: rest_def) simp
  then show lt: "pos r < length (data r)" by simp
  from r show "data r ! pos r = b" unfolding rest_def using hd_drop_conv_nth [OF lt] by simp
qed

lemma reads_ref_type:
  assumes "- 64 \<le> i" and "i < 2 ^ 31"
  shows "reads (parseBinaryRefType nullable) (sleb i) (view_ref nullable i)"
proof (rule readsI)
  fix r ys
  assume p: "pos r \<le> length (data r)" and r: "rest r = sleb i @ ys"
  show "parseBinaryRefType nullable r = Inr (view_ref nullable i, skip (length (sleb i)) r)"
  proof (cases "i < 0")
    case True
    then have s: "sleb i = [word_of_int (i + 128)]" using assms(1) by (rule sleb_negative [rotated])
    from first_byte [OF p] r have f: "pos r < length (data r)" "data r ! pos r = word_of_int (i + 128)" by (simp_all add: s)
    show ?thesis
    proof (cases "heap_tag nullable (word_of_int (i + 128))")
      case None
      with readsD [OF reads_signed_negative [OF assms(1) True] p, of ys] r True f show ?thesis
        by (simp add: parseBinaryRefType_def view_ref_def s)
    next
      case (Some t)
      with True f show ?thesis by (simp add: parseBinaryRefType_def view_ref_def s skip_def)
    qed
  next
    case False
    then obtain b bs where b: "sleb i = b # bs" "heap_tag nullable b = None" using sleb_first [of i nullable] by auto
    from first_byte [OF p] r have "pos r < length (data r)" "data r ! pos r = b" by (simp_all add: b(1))
    moreover have "readSignedLeb33 r = Inr (i, skip (length (sleb i)) r)"
      using False assms(2) by (intro readsD [OF reads_signed p r]) auto
    ultimately show ?thesis using False b(2) by (simp add: parseBinaryRefType_def view_ref_def)
  qed
qed

subsection \<open>Steps and readers\<close>

lemma put_opcode_written: "encoder_inv e \<Longrightarrow> \<exists>e'. put_opcode bs e = Inr e' \<and> encoder_inv e' \<and> finish e' = finish e @ bs"
proof (induction bs arbitrary: e)
  case Nil
  then show ?case by (simp add: put_opcode_def)
next
  case (Cons b bs)
  then show ?case using Cons.IH [of "enc_byte (uint b) e"]
    by (auto simp: put_opcode_def put_byte_def enc_byte_props)
qed

lemma transmits_opcode: "reads g bs v \<Longrightarrow> transmits (put_opcode bs) g v"
  by (rule transmitsI) (use put_opcode_written in \<open>metis old.sum.inject(2)\<close>)

lemma transmits_byte_opcode: "transmits (put_opcode [b]) readByte b"
  by (rule transmits_opcode) (rule reads_readByte)

lemma transmits_ref_index:
  assumes "- 64 \<le> i" and "i < 2 ^ 31"
  shows "transmits (put_i32 i) (parseBinaryRefType nullable) (view_ref nullable i)"
proof (rule transmitsI)
  fix e e'
  assume "encoder_inv e" and "put_i32 i e = Inr e'"
  moreover have "signed_take_bit 31 i = i" using assms by (intro signed_take_bit_int_eq_self) auto
  ultimately have "encoder_inv e' \<and> finish e' = finish e @ sleb i"
    using sleb_loop_appends [of e i] by (auto simp: put_i32_def enc_i32_def)
  then show "\<exists>bs. encoder_inv e' \<and> finish e' = finish e @ bs \<and> reads (parseBinaryRefType nullable) bs (view_ref nullable i)"
    using reads_ref_type [OF assms] by blast
qed

text \<open>Checks write nothing.\<close>

definition only_checks :: "wasm_emitter \<Rightarrow> bool" where
  "only_checks w \<longleftrightarrow> (\<forall>e e'. w e = Inr e' \<longrightarrow> e' = e)"

lemma only_checks_simps [simp]:
  "only_checks Inr" "only_checks (fails err)" "only_checks (vIdx sp i n)" "only_checks (vHeapType c i)"
  "(\<And>c. only_checks (f c)) \<Longrightarrow> only_checks (checked ctx f)"
  by (auto simp: only_checks_def fails_def vIdx_def vHeapType_def checked_def split: option.splits if_splits)

lemma transmits_after_check: "only_checks w \<Longrightarrow> transmits (rseq ws) g v \<Longrightarrow> transmits (rseq (w # ws)) g v"
proof (rule transmitsI)
  fix e e'
  assume w: "only_checks w" and t: "transmits (rseq ws) g v" and e: "encoder_inv e" and "rseq (w # ws) e = Inr e'"
  then obtain e1 where "w e = Inr e1" "rseq ws e1 = Inr e'" by (auto simp: rbind_Inr_iff)
  with w have "rseq ws e = Inr e'" by (auto simp: only_checks_def)
  with t e show "\<exists>bs. encoder_inv e' \<and> finish e' = finish e @ bs \<and> reads g bs v" by (auto simp: transmits_def)
qed

lemma transmits_fails: "transmits (fails err) g v"
  by (simp add: transmits_def fails_def)

lemma parseBinaryValType_tag:
  "parseBinaryValType storage = (\<lambda>c. rbind (readByte c) (case_prod (\<lambda>tag c.
       if tag = 0x78 then (if storage then Inr (I8, c) else Inl (PackedValue tag))
       else if tag = 0x77 then (if storage then Inr (I16, c) else Inl (PackedValue tag))
       else if tag = 0x64 then parseBinaryRefType False c
       else if tag = 0x63 then parseBinaryRefType True c
       else case value_tag tag of Some t \<Rightarrow> Inr (t, c) | None \<Rightarrow> Inl (UnsupportedValType tag))))"
  by (rule ext) (simp add: parseBinaryValType_def)

lemma reads_value_tag:
  "value_tag b = Some t \<Longrightarrow> b \<notin> {0x78, 0x77, 0x64, 0x63} \<Longrightarrow> reads (parseBinaryValType storage) [b] t"
  unfolding parseBinaryValType_tag by (rule reads_map [OF reads_readByte]) simp

lemma reads_prefixed_ref:
  "- 64 \<le> i \<Longrightarrow> i < 2 ^ 31 \<Longrightarrow> reads (parseBinaryValType storage) (0x64 # sleb i) (view_ref False i)"
  "- 64 \<le> i \<Longrightarrow> i < 2 ^ 31 \<Longrightarrow> reads (parseBinaryValType storage) (0x63 # sleb i) (view_ref True i)"
proof -
  assume i: "- 64 \<le> i" "i < 2 ^ 31"
  have "reads (parseBinaryValType storage) ([0x64] @ sleb i) (view_ref False i)"
    unfolding parseBinaryValType_tag by (rule reads_bind [OF reads_readByte]) (simp add: reads_ref_type [OF i])
  then show "reads (parseBinaryValType storage) (0x64 # sleb i) (view_ref False i)" by simp
  have "reads (parseBinaryValType storage) ([0x63] @ sleb i) (view_ref True i)"
    unfolding parseBinaryValType_tag by (rule reads_bind [OF reads_readByte]) (simp add: reads_ref_type [OF i])
  then show "reads (parseBinaryValType storage) (0x63 # sleb i) (view_ref True i)" by simp
qed

lemma transmits_val:
  assumes "ref_in_range t"
  shows "transmits (encodeValType ctx t) (parseBinaryValType storage) (view_val t)"
proof (cases t)
  case (Ref i)
  with assms have i: "- 64 \<le> i" "i < 2 ^ 31" by simp_all
  have "transmits (rseq [put_opcode [0x64], put_i32 i]) (parseBinaryValType storage) (view_ref False i)"
    unfolding parseBinaryValType_tag
    by (rule transmits_rseq_Cons [OF transmits_byte_opcode], rule transmits_rseq_single)
      (simp add: transmits_ref_index [OF i])
  then show ?thesis unfolding Ref encodeValType.simps view_val.simps by (rule transmits_after_check [rotated]) simp
next
  case (RefNull i)
  with assms have i: "- 64 \<le> i" "i < 2 ^ 31" by simp_all
  have "transmits (rseq [put_opcode [0x63], put_i32 i]) (parseBinaryValType storage) (view_ref True i)"
    unfolding parseBinaryValType_tag
    by (rule transmits_rseq_Cons [OF transmits_byte_opcode], rule transmits_rseq_single)
      (simp add: transmits_ref_index [OF i])
  then show ?thesis unfolding RefNull encodeValType.simps view_val.simps by (rule transmits_after_check [rotated]) simp
next
  case EqRef
  have "reads (parseBinaryValType storage) [0x63, 0x6d] EqRef"
    using reads_prefixed_ref(2) [of "-19" storage] by (simp add: sleb_negative view_ref_def heap_tag_def)
  then show ?thesis using EqRef by (simp add: transmits_opcode)
next
  case AnyRef
  have "reads (parseBinaryValType storage) [0x63, 0x6e] AnyRef"
    using reads_prefixed_ref(2) [of "-18" storage] by (simp add: sleb_negative view_ref_def heap_tag_def)
  then show ?thesis using AnyRef by (simp add: transmits_opcode)
next
  case RefExtern
  have "reads (parseBinaryValType storage) [0x64, 0x6f] RefExtern"
    using reads_prefixed_ref(1) [of "-17" storage] by (simp add: sleb_negative view_ref_def heap_tag_def)
  then show ?thesis using RefExtern by (simp add: transmits_opcode)
qed (simp_all add: transmits_fails transmits_opcode reads_value_tag value_tag_def)

lemma transmits_storage: "ref_in_range t \<Longrightarrow> transmits (encodeStorageType ctx t) (parseBinaryValType True) (view_val t)"
proof (cases "t = I8 \<or> t = I16")
  case True
  have "reads (parseBinaryValType True) [0x78] I8" "reads (parseBinaryValType True) [0x77] I16"
    unfolding parseBinaryValType_tag by (rule reads_map [OF reads_readByte], simp)+
  with True show ?thesis by (auto simp: encodeStorageType_def transmits_opcode)
next
  case False
  then have "encodeStorageType ctx t = encodeValType ctx t" by (cases t) (auto simp: encodeStorageType_def)
  then show "ref_in_range t \<Longrightarrow> ?thesis" by (simp add: transmits_val)
qed

definition view_field :: "val_type \<times> bool \<Rightarrow> val_type \<times> bool" where
  "view_field f = (view_val (fst f), snd f)"

lemma parse_field_eq:
  "parse_field = (\<lambda>c. rbind (parseBinaryValType True c) (case_prod (\<lambda>t c. rbind (readByte c) (case_prod (\<lambda>b c. Inr ((t, b = 1), c))))))"
  by (rule ext) (simp add: parse_field_def)

lemma transmits_mutable:
  assumes "ref_in_range t"
  shows "transmits (rseq [encodeStorageType ctx t, put_opcode [if m then 0x01 else 0x00]]) parse_field (view_val t, m)"
  unfolding parse_field_eq
  by (rule transmits_rseq_Cons [OF transmits_storage [OF assms]], rule transmits_rseq_Cons [OF transmits_byte_opcode])
    (use transmits_rseq_Nil in \<open>cases m; simp del: rseq_simps\<close>)

lemma transmits_field: "ref_in_range (fst f) \<Longrightarrow> transmits (encodeFieldDef ctx f) parse_field (view_field f)"
  unfolding encodeFieldDef_def view_field_def by (rule transmits_mutable)

lemma counted_eq: "counted g = (\<lambda>c. rbind (readUnsignedLeb c) (case_prod (\<lambda>n. rtimes n g)))"
  by (rule ext) (simp add: counted_def)

lemma transmits_counted:
  assumes "\<And>x. x \<in> set xs \<Longrightarrow> transmits (w x) g (f x)"
  shows "transmits (put_vector xs w) (counted g) (map f xs)"
  unfolding put_vector_def counted_eq
proof (rule transmits_rseq_Cons [OF transmits_unsigned])
  show "transmits (rseq [each w xs]) (rtimes (nat (int (length xs))) g) (map f xs)"
    by (rule transmits_rseq_single) (simp add: each_def transmits_rfold_map assms)
qed

section \<open>Type definitions\<close>

text \<open>The continuations of the parser after the tag, after the number of supertypes and after the inner type.\<close>

definition sub_end :: "int option \<Rightarrow> bool \<Rightarrow> type_def \<Rightarrow> type_def group_reader" where
  "sub_end superType isFinal inner c =
     (case inner of SubType _ _ _ \<Rightarrow> Inl NestedSubtype | _ \<Rightarrow> Inr (SubType superType isFinal inner, c))"

definition sub_body :: "bool \<Rightarrow> nat \<Rightarrow> type_def group_reader" where
  "sub_body isFinal superCount c =
     (if superCount > 1 then Inl MultipleSupertypes
      else rbind (if superCount = 1 then rbind (readUnsignedLeb c) (\<lambda>(s, c). Inr (Some (int s), c)) else Inr (None, c))
        (\<lambda>(superType, c). rbind (parseBinaryTypeDef c) (case_prod (sub_end superType isFinal))))"

definition type_body :: "byte \<Rightarrow> type_def group_reader" where
  "type_body tag c =
     (if tag = 0x60 then
         rbind (counted (parseBinaryValType False) c) (case_prod (\<lambda>params c.
         rbind (counted (parseBinaryValType False) c) (case_prod (\<lambda>results c. Inr (FuncType params results, c)))))
       else if tag = 0x5f then rbind (counted parse_field c) (case_prod (\<lambda>fs c. Inr (StructType fs None False, c)))
       else if tag = 0x5e then rbind (parse_field c) (case_prod (\<lambda>f c. Inr (ArrayType (fst f) (snd f), c)))
       else if tag = 0x50 \<or> tag = 0x4f then rbind (readUnsignedLeb c) (case_prod (sub_body (tag = 0x4f)))
       else Inl (UnsupportedTypeDef tag))"

lemma parse_type_eq: "parseBinaryTypeDef = (\<lambda>c. rbind (readByte c) (case_prod type_body))"
proof (rule ext)
  fix c
  have end_eq: "sub_end s f = (\<lambda>inner c. case inner of SubType _ _ _ \<Rightarrow> Inl NestedSubtype | _ \<Rightarrow> Inr (SubType s f inner, c))" for s f
    by (intro ext) (simp add: sub_end_def)
  show "parseBinaryTypeDef c = rbind (readByte c) (case_prod type_body)"
    by (subst parseBinaryTypeDef.simps, rule rbind_cong [OF refl])
      (auto simp: type_body_def sub_body_def end_eq case_prod_unfold cong: if_cong)
qed

lemma type_body_simps:
  "type_body 0x60 = (\<lambda>c. rbind (counted (parseBinaryValType False) c) (case_prod (\<lambda>params c.
     rbind (counted (parseBinaryValType False) c) (case_prod (\<lambda>results c. Inr (FuncType params results, c))))))"
  "type_body 0x5f = (\<lambda>c. rbind (counted parse_field c) (case_prod (\<lambda>fs c. Inr (StructType fs None False, c))))"
  "type_body 0x5e = (\<lambda>c. rbind (parse_field c) (case_prod (\<lambda>f c. Inr (ArrayType (fst f) (snd f), c))))"
  "type_body (if isFinal then 0x4f else 0x50) = (\<lambda>c. rbind (readUnsignedLeb c) (case_prod (sub_body isFinal)))"
  by (rule ext, simp add: type_body_def)+

lemma sub_body_simps:
  "sub_body isFinal 0 = (\<lambda>c. rbind (parseBinaryTypeDef c) (case_prod (sub_end None isFinal)))"
  "sub_body isFinal 1 = (\<lambda>c. rbind (readUnsignedLeb c) (case_prod (\<lambda>s c. rbind (parseBinaryTypeDef c) (case_prod (sub_end (Some (int s)) isFinal)))))"
  by (rule ext, simp add: sub_body_def rbind_assoc case_prod_unfold)+

definition is_sub :: "type_def \<Rightarrow> bool" where
  "is_sub t \<longleftrightarrow> (\<exists>s f u. t = SubType s f u)"

lemma transmits_sub_end:
  assumes "transmits w parseBinaryTypeDef inner" and "\<not> is_sub inner"
  shows "transmits w (\<lambda>c. rbind (parseBinaryTypeDef c) (case_prod (sub_end s isFinal))) (SubType s isFinal inner)"
  by (rule transmits_map [OF assms(1)]) (use assms(2) in \<open>cases inner; simp add: sub_end_def is_sub_def\<close>)

lemma transmits_sub_none:
  assumes "transmits (rseq ws) parseBinaryTypeDef inner" and "\<not> is_sub inner"
  shows "transmits (rseq (put_opcode [if isFinal then 0x4f else 0x50] # put_u32 0 # ws)) parseBinaryTypeDef (SubType None isFinal inner)"
  by (subst parse_type_eq, rule transmits_rseq_Cons [OF transmits_byte_opcode], subst type_body_simps,
      rule transmits_rseq_Cons [OF transmits_unsigned], subst nat_0, subst sub_body_simps, rule transmits_sub_end [OF assms])

lemma transmits_sub_some:
  assumes "transmits (rseq ws) parseBinaryTypeDef inner" and "\<not> is_sub inner"
  shows "transmits (rseq (put_opcode [if isFinal then 0x4f else 0x50] # put_u32 1 # put_u32 s # ws)) parseBinaryTypeDef (SubType (Some s) isFinal inner)"
proof (cases "0 \<le> s")
  case True
  then have s: "int (nat s) = s" by simp
  have "transmits (rseq (put_u32 s # ws)) (sub_body isFinal 1) (SubType (Some (int (nat s))) isFinal inner)"
    by (subst sub_body_simps, rule transmits_rseq_Cons [OF transmits_unsigned], rule transmits_sub_end [OF assms])
  then show ?thesis
    by (subst parse_type_eq, intro transmits_rseq_Cons [OF transmits_byte_opcode], subst type_body_simps)
      (intro transmits_rseq_Cons [OF transmits_unsigned], simp only: s nat_one_as_int [symmetric] nat_1 One_nat_def)
next
  case False
  have "transmits (put_u32 s) g v" for g :: "type_def group_reader" and v
    using False by (auto simp: transmits_def dest: put_u32_Inr)
  with False show ?thesis
    by (auto simp: transmits_def rbind_Inr_iff put_u32_def enc_call_def enc_u32_def split: sum.splits)
qed

text \<open>
  What a type definition looks like after a round trip: a structure with a supertype comes back inside a
  \<open>sub\<close>, and a final \<open>sub\<close> without supertypes, for which the emitter writes no prefix, as its inner type.
\<close>

fun view_type :: "type_def \<Rightarrow> type_def" where
  "view_type (FuncType params results) = FuncType (map view_val params) (map view_val results)"
| "view_type (StructType fs superTypeIdx isFinal) =
     (case superTypeIdx of
        None \<Rightarrow> StructType (map view_field fs) None False
      | Some s \<Rightarrow> SubType (if s \<ge> 0 then Some s else None) isFinal (StructType (map view_field fs) None False))"
| "view_type (ArrayType element isMutable) = ArrayType (view_val element) isMutable"
| "view_type (SubType superType isFinal t) =
     (if superType = None \<and> isFinal then view_type t else SubType superType isFinal (view_type t))"
| "view_type (RecGroup ts) = RecGroup ts"

text \<open>Types the parser accepts: no \<open>sub\<close> inside a \<open>sub\<close>, no nested group, references in range.\<close>

fun no_prefix :: "type_def \<Rightarrow> bool" where
  "no_prefix (FuncType params results) = True"
| "no_prefix (StructType fs superTypeIdx isFinal) = (superTypeIdx = None)"
| "no_prefix (ArrayType element isMutable) = True"
| "no_prefix (SubType superType isFinal t) = (superType = None \<and> isFinal \<and> no_prefix t)"
| "no_prefix (RecGroup ts) = False"

fun readable :: "type_def \<Rightarrow> bool" where
  "readable (FuncType params results) = (list_all ref_in_range params \<and> list_all ref_in_range results)"
| "readable (StructType fs superTypeIdx isFinal) = list_all (\<lambda>f. ref_in_range (fst f)) fs"
| "readable (ArrayType element isMutable) = ref_in_range element"
| "readable (SubType superType isFinal t) = (readable t \<and> (superType = None \<and> isFinal \<or> no_prefix t))"
| "readable (RecGroup ts) = False"

lemma no_prefix_view: "no_prefix t \<Longrightarrow> \<not> is_sub (view_type t)"
  by (induction t) (auto simp: is_sub_def split: option.splits)

lemma rseq_nested: "rseq (rseq us # ws) = rseq (us @ ws)"
  by (induction us) (simp_all add: rseq_Cons_fun rseq_Nil_fun rbind_assoc)

lemma rseq_without_check: "only_checks c \<Longrightarrow> rseq (us @ c # ws) e = Inr e' \<Longrightarrow> rseq (us @ ws) e = Inr e'"
  by (induction us arbitrary: e) (auto simp: only_checks_def rbind_Inr_iff)

lemma transmits_between: "only_checks c \<Longrightarrow> transmits (rseq (us @ ws)) g v \<Longrightarrow> transmits (rseq (us @ c # ws)) g v"
  using rseq_without_check unfolding transmits_def by blast

lemma transmits_struct_body:
  assumes "list_all (\<lambda>f. ref_in_range (fst f)) fs"
  shows "transmits (rseq [put_opcode [0x5f], put_vector fs (encodeFieldDef ctx)]) parseBinaryTypeDef (StructType (map view_field fs) None False)"
proof (subst parse_type_eq, rule transmits_rseq_Cons [OF transmits_byte_opcode], subst type_body_simps)
  have "transmits (put_vector fs (encodeFieldDef ctx)) (counted parse_field) (map view_field fs)"
    by (rule transmits_counted) (use assms in \<open>auto simp: list_all_iff intro: transmits_field\<close>)
  from transmits_rseq_Cons [OF this transmits_rseq_Nil]
  show "transmits (rseq [put_vector fs (encodeFieldDef ctx)])
      (\<lambda>c. rbind (counted parse_field c) (case_prod (\<lambda>fs c. Inr (StructType fs None False, c)))) (StructType (map view_field fs) None False)" .
qed

lemma transmits_func_type:
  assumes "list_all ref_in_range params" and "list_all ref_in_range results"
  shows "transmits (encodeTypeDef ctx (FuncType params results)) parseBinaryTypeDef (FuncType (map view_val params) (map view_val results))"
proof (subst parse_type_eq, unfold encodeTypeDef.simps, rule transmits_rseq_Cons [OF transmits_byte_opcode], subst type_body_simps)
  have "transmits (put_vector ts (encodeValType ctx)) (counted (parseBinaryValType False)) (map view_val ts)" if "list_all ref_in_range ts" for ts
    by (rule transmits_counted) (use that in \<open>auto simp: list_all_iff intro: transmits_val\<close>)
  from transmits_rseq_Cons [OF this [OF assms(1)] transmits_rseq_Cons [OF this [OF assms(2)] transmits_rseq_Nil]]
  show "transmits (rseq [put_vector params (encodeValType ctx), put_vector results (encodeValType ctx)])
     (\<lambda>c. rbind (counted (parseBinaryValType False) c) (case_prod (\<lambda>params c.
       rbind (counted (parseBinaryValType False) c) (case_prod (\<lambda>results c. Inr (FuncType params results, c))))))
     (FuncType (map view_val params) (map view_val results))" .
qed

lemma transmits_type_def: "readable t \<Longrightarrow> transmits (encodeTypeDef ctx t) parseBinaryTypeDef (view_type t)"
proof (induction t)
  case (FuncType params results)
  then show ?case unfolding view_type.simps by (intro transmits_func_type) simp_all
next
  case (StructType fs superTypeIdx isFinal)
  then have body: "transmits (rseq [put_opcode [0x5f], put_vector fs (encodeFieldDef ctx)]) parseBinaryTypeDef (StructType (map view_field fs) None False)"
    by (intro transmits_struct_body) simp
  show ?case
  proof (cases superTypeIdx)
    case None
    with body show ?thesis by (simp del: rseq_simps)
  next
    case (Some s)
    have f: "\<not> is_sub (StructType (map view_field fs) None False)" by (simp add: is_sub_def)
    show ?thesis
    proof (cases "0 \<le> s")
      case True
      have "transmits (rseq ([put_opcode [if isFinal then 0x4f else 0x50]] @ checked ctx (\<lambda>c. vIdx ''supertype'' s (numTypes c))
          # [put_u32 1, put_u32 s, put_opcode [0x5f], put_vector fs (encodeFieldDef ctx)])) parseBinaryTypeDef
          (SubType (Some s) isFinal (StructType (map view_field fs) None False))"
        by (rule transmits_between [rotated], unfold append.simps, rule transmits_sub_some [OF body f]) simp
      moreover have "encodeTypeDef ctx (StructType fs superTypeIdx isFinal) =
          rseq ([put_opcode [if isFinal then 0x4f else 0x50]] @ checked ctx (\<lambda>c. vIdx ''supertype'' s (numTypes c))
            # [put_u32 1, put_u32 s, put_opcode [0x5f], put_vector fs (encodeFieldDef ctx)])"
        using Some True rseq_nested [of "[checked ctx (\<lambda>c. vIdx ''supertype'' s (numTypes c)), put_u32 1, put_u32 s]"
            "[put_opcode [0x5f], put_vector fs (encodeFieldDef ctx)]"]
        by (simp add: rseq_Cons_fun del: rseq_simps)
      ultimately show ?thesis using Some True by (simp del: rseq_simps encodeTypeDef.simps)
    next
      case False
      with Some transmits_sub_none [OF body f] show ?thesis by (simp del: rseq_simps)
    qed
  qed
next
  case (ArrayType element isMutable)
  have "transmits (rseq [put_opcode [0x5e], encodeStorageType ctx element, put_opcode [if isMutable then 0x01 else 0x00]]) parseBinaryTypeDef
      (ArrayType (view_val element) isMutable)"
  proof (subst parse_type_eq, rule transmits_rseq_Cons [OF transmits_byte_opcode], subst type_body_simps)
    show "transmits (rseq [encodeStorageType ctx element, put_opcode [if isMutable then 0x01 else 0x00]])
       (\<lambda>c. rbind (parse_field c) (case_prod (\<lambda>f c. Inr (ArrayType (fst f) (snd f), c)))) (ArrayType (view_val element) isMutable)"
      by (rule transmits_map [OF transmits_mutable]) (use ArrayType in simp_all)
  qed
  then show ?case by (simp del: rseq_simps)
next
  case (RecGroup ts)
  then show ?case by simp
next
  case (SubType superType isFinal t)
  then have inner: "transmits (rseq [encodeTypeDef ctx t]) parseBinaryTypeDef (view_type t)" by (intro transmits_rseq_single) simp
  show ?case
  proof (cases "superType = None \<and> isFinal")
    case True
    with SubType show ?thesis by (simp add: rseq_Cons_fun rseq_Nil_fun del: rseq_simps)
  next
    case False
    with SubType.prems have f: "\<not> is_sub (view_type t)" by (intro no_prefix_view) auto
    show ?thesis
    proof (cases superType)
      case None
      with False transmits_sub_none [OF inner f, of False] show ?thesis
        by (simp add: rseq_nested del: rseq_simps)
    next
      case (Some s)
      have "transmits (rseq (rseq [checked ctx (\<lambda>c. vIdx ''supertype'' s (numTypes c)), put_opcode [if isFinal then 0x4f else 0x50], put_u32 1, put_u32 s]
          # [encodeTypeDef ctx t])) parseBinaryTypeDef (SubType (Some s) isFinal (view_type t))"
        unfolding rseq_nested append.simps
        by (rule transmits_after_check [rotated], rule transmits_sub_some [OF inner f]) simp
      with Some show ?thesis by (simp del: rseq_simps)
    qed
  qed
qed

end
