(* ===== verification/CanonicalBinary.thy ===== *)
theory CanonicalBinary
  imports CanonicalVerify
begin

text \<open>
  The drift check of \<open>src/src/emit/canonical-recgroup.ts\<close> on the output of \<open>src/src/emit/binary.ts\<close>: the groups, the
  type section and the walk over all sections, on top of the type definitions of \<open>CanonicalVerify\<close>. Shown: the
  parser finds in an emitted binary the groups that \<open>computeRecGroups\<close> formed, and so a compilation never
  rejects its own binary, for members in the form that \<open>canonical\<close> describes.
\<close>

section \<open>Groups\<close>

lemma reads_weaken: "reads g bs v \<Longrightarrow> (\<And>c x. g c = Inr x \<Longrightarrow> g' c = Inr x) \<Longrightarrow> reads g' bs v"
  by (simp add: reads_def)

lemma transmits_weaken: "transmits w g v \<Longrightarrow> (\<And>c x. g c = Inr x \<Longrightarrow> g' c = Inr x) \<Longrightarrow> transmits w g' v"
  using reads_weaken unfolding transmits_def by meson

definition view_group :: "type_def list \<Rightarrow> nat \<times> nat \<Rightarrow> type_group" where
  "view_group types = (\<lambda>(start, fin).
     \<lparr>tg_start = start, tg_recursive = (start \<noteq> fin), tg_defs = map view_type (take (Suc fin - start) (drop start types))\<rparr>)"

text \<open>No type definition starts like a group.\<close>

lemma transmits_single_group:
  assumes "readable t"
  shows "transmits (encodeTypeDef ctx t) (parse_group a) \<lparr>tg_start = a, tg_recursive = False, tg_defs = [view_type t]\<rparr>"
proof (rule transmits_weaken)
  let ?single = "\<lambda>c. rbind (parseBinaryTypeDef c) (\<lambda>(def, c). Inr (\<lparr>tg_start = a, tg_recursive = False, tg_defs = [def]\<rparr>, c))"
  show "transmits (encodeTypeDef ctx t) ?single \<lparr>tg_start = a, tg_recursive = False, tg_defs = [view_type t]\<rparr>"
    by (rule transmits_map [OF transmits_type_def [OF assms]]) simp
  show "parse_group a c = Inr x" if r: "?single c = Inr x" for c x
  proof -
    obtain y where "parseBinaryTypeDef c = Inr y" using r by (auto simp: rbind_Inr_iff)
    then have "data c ! pos c \<noteq> 0x4e"
      by (subst (asm) parseBinaryTypeDef.simps) (auto simp: rbind_Inr_iff readByte_Inr)
    with r show ?thesis by (simp add: parse_group_def)
  qed
qed

lemma transmits_counted_types:
  "list_all readable ts \<Longrightarrow> transmits (put_vector ts (encodeTypeDef ctx)) (counted parseBinaryTypeDef) (map view_type ts)"
  by (rule transmits_counted) (auto simp: list_all_iff intro: transmits_type_def)

lemma transmits_recursive_group:
  assumes "list_all readable ts"
  shows "transmits (rseq [put_opcode [0x4e], put_u32 (int (length ts)), each (encodeTypeDef ctx) ts]) (parse_group a)
    \<lparr>tg_start = a, tg_recursive = True, tg_defs = map view_type ts\<rparr>"
proof (rule transmits_weaken)
  let ?defs = "\<lambda>c. rbind (counted parseBinaryTypeDef c) (\<lambda>(defs, c). Inr (\<lparr>tg_start = a, tg_recursive = True, tg_defs = defs\<rparr>, c))"
  let ?rec = "\<lambda>c. rbind (readByte c) (\<lambda>(b, c). if b = 0x4e then ?defs c else Inl NotWasm)"
  have "transmits (put_vector ts (encodeTypeDef ctx)) ?defs \<lparr>tg_start = a, tg_recursive = True, tg_defs = map view_type ts\<rparr>"
    by (rule transmits_map [OF transmits_counted_types [OF assms]]) simp
  then have "transmits (rseq [put_opcode [0x4e], put_vector ts (encodeTypeDef ctx)]) ?rec
      \<lparr>tg_start = a, tg_recursive = True, tg_defs = map view_type ts\<rparr>"
    by (intro transmits_rseq_Cons [OF transmits_byte_opcode] transmits_rseq_single) simp
  moreover have "rseq [put_opcode [0x4e], put_vector ts (encodeTypeDef ctx)]
      = rseq [put_opcode [0x4e], put_u32 (int (length ts)), each (encodeTypeDef ctx) ts]"
    using rseq_nested [of "[put_u32 (int (length ts)), each (encodeTypeDef ctx) ts]" "[]"]
    by (simp add: put_vector_def rseq_Cons_fun rseq_Nil_fun del: rseq_simps)
  ultimately show "transmits (rseq [put_opcode [0x4e], put_u32 (int (length ts)), each (encodeTypeDef ctx) ts]) ?rec
      \<lparr>tg_start = a, tg_recursive = True, tg_defs = map view_type ts\<rparr>"
    by (simp only:)
  show "parse_group a c = Inr x" if "?rec c = Inr x" for c x
    using that by (auto simp: parse_group_def rbind_Inr_iff readByte_Inr split: if_splits)
qed

lemma readable_part: "list_all readable types \<Longrightarrow> list_all readable (take n (drop s types))"
  by (auto simp: list_all_iff dest: in_set_takeD in_set_dropD)

lemma transmits_group:
  assumes "list_all readable types" and "s \<le> e" and "e < length types"
  shows "transmits (put_rec_group ctx types (s, e)) (parse_group s) (view_group types (s, e))"
proof (cases "s = e")
  case True
  have "take (Suc e - s) (drop s types) = [types ! s]" using assms(2,3) True by (simp add: take_Suc_conv_app_nth)
  moreover have "readable (types ! s)" using assms by (simp add: list_all_length)
  ultimately show ?thesis using transmits_single_group True by (simp add: put_rec_group_def view_group_def)
next
  case False
  have "length (take (Suc e - s) (drop s types)) = Suc e - s" using assms(3) by simp
  moreover have "Suc e - s = e - s + 1" using assms(2) by simp
  ultimately show ?thesis
    using transmits_recursive_group [OF readable_part [OF assms(1), of "Suc e - s" s], of ctx s] False
    by (simp add: put_rec_group_def view_group_def del: rseq_simps)
qed

lemma transmits_groups:
  assumes "rec_groups_from types forced i = Inr gs" and "list_all readable types"
  shows "transmits (each (put_rec_group ctx types) gs) (parse_groups (length gs) i) (map (view_group types) gs)"
  using assms
proof (induction types forced i arbitrary: gs rule: rec_groups_from.induct)
  case (1 types forced i)
  show ?case
  proof (cases "i < length types")
    case False
    with "1.prems" have "gs = []" by (simp add: rec_groups_from.simps [of types forced i])
    moreover have "parse_groups 0 i = (\<lambda>c. Inr ([], c))" by (rule ext) simp
    ultimately show ?thesis using transmits_done by simp
  next
    case True
    with "1.prems" obtain e rs where e: "group_scan types forced i (first_end forced i) i = Inr e"
      and rs: "rec_groups_from types forced (Suc e) = Inr rs" and gs: "gs = (i, e) # rs"
      by (auto simp: rec_groups_from.simps [of types forced i] rbind_Inr_iff)
    have le: "i \<le> e" "e < length types"
      using group_scan_shortest [OF e True] by (auto simp: shortest_run_def closed_run_def)
    have "i + length (tg_defs (view_group types (i, e))) = Suc e" using le by (simp add: view_group_def)
    with "1.IH" [OF True e rs "1.prems"(2)]
    have ih: "transmits (each (put_rec_group ctx types) rs) (parse_groups (length rs) (i + length (tg_defs (view_group types (i, e)))))
        (map (view_group types) rs)" by simp
    have rest: "transmits (each (put_rec_group ctx types) rs)
        (\<lambda>c. case (view_group types (i, e), c) of (g, c) \<Rightarrow>
          rbind (parse_groups (length rs) (i + length (tg_defs g)) c) (\<lambda>(gs, c). Inr (g # gs, c)))
        (map (view_group types) gs)"
      unfolding prod.case by (rule transmits_map [OF ih]) (simp add: gs)
    have "parse_groups (length gs) i = (\<lambda>c. rbind (parse_group i c) (\<lambda>(g, c).
        rbind (parse_groups (length rs) (i + length (tg_defs g)) c) (\<lambda>(gs, c). Inr (g # gs, c))))"
      by (rule ext) (simp add: gs)
    with transmits_bind [OF transmits_group [OF "1.prems"(2) le] rest] show ?thesis by (simp add: gs)
  qed
qed

text \<open>The content of the type section.\<close>

lemma parse_type_section_content:
  assumes "computeRecGroups types forced = Inr gs" and "list_all readable types"
    and "put_vector gs (put_rec_group ctx types) new_encoder = Inr sub"
  shows "parse_type_section (finish sub) = Inr (map (view_group types) gs)"
proof -
  let ?read = "\<lambda>c. rbind (readUnsignedLeb c) (\<lambda>(n, c). parse_groups n 0 c)"
  have "transmits (each (put_rec_group ctx types) gs) (parse_groups (length gs) 0) (map (view_group types) gs)"
    by (rule transmits_groups) (use assms in \<open>simp_all add: computeRecGroups_def\<close>)
  then have "transmits (rseq [put_u32 (int (length gs)), each (put_rec_group ctx types) gs]) ?read (map (view_group types) gs)"
    by (intro transmits_rseq_Cons [OF transmits_unsigned] transmits_rseq_single) simp
  then obtain bs where f: "finish sub = finish new_encoder @ bs" and r: "reads ?read bs (map (view_group types) gs)"
    using assms(3) new_encoder_inv by (auto simp: put_vector_def simp del: rseq_simps elim: transmitsE)
  have "?read \<lparr>data = bs, pos = 0\<rparr> = Inr (map (view_group types) gs, skip (length bs) \<lparr>data = bs, pos = 0\<rparr>)"
    by (rule readsD [OF r, where ys = "[]"]) (simp_all add: rest_def)
  then obtain n c where "readUnsignedLeb \<lparr>data = bs, pos = 0\<rparr> = Inr (n, c)"
    and "parse_groups n 0 c = Inr (map (view_group types) gs, \<lparr>data = bs, pos = length bs\<rparr>)"
    by (auto simp: rbind_Inr_iff skip_def)
  then show ?thesis using f by (simp add: parse_type_section_def finish_new_encoder)
qed

section \<open>Sections\<close>

text \<open>\<open>passes bs f\<close>: the walk over the sections steps over the bytes \<open>bs\<close> and applies \<open>f\<close> to what it has found.\<close>

definition passes :: "byte list \<Rightarrow> (byte list option \<Rightarrow> byte list option) \<Rightarrow> bool" where
  "passes bs f \<longleftrightarrow> (\<forall>xs ys found. scan_sections (xs @ bs @ ys) (length xs) found
     = scan_sections (xs @ bs @ ys) (length xs + length bs) (f found))"

lemma passesD:
  "passes bs f \<Longrightarrow> scan_sections (xs @ bs @ ys) (length xs) found = scan_sections (xs @ bs @ ys) (length xs + length bs) (f found)"
  by (simp add: passes_def)

lemma passes_append: "passes bs f \<Longrightarrow> passes cs g \<Longrightarrow> passes (bs @ cs) (g \<circ> f)"
proof (unfold passes_def, intro allI)
  fix xs ys found
  assume b: "\<forall>xs ys found. scan_sections (xs @ bs @ ys) (length xs) found = scan_sections (xs @ bs @ ys) (length xs + length bs) (f found)"
    and c: "\<forall>xs ys found. scan_sections (xs @ cs @ ys) (length xs) found = scan_sections (xs @ cs @ ys) (length xs + length cs) (g found)"
  from b [rule_format, of xs "cs @ ys" found] c [rule_format, of "xs @ bs" ys "f found"]
  show "scan_sections (xs @ (bs @ cs) @ ys) (length xs) found = scan_sections (xs @ (bs @ cs) @ ys) (length xs + length (bs @ cs)) ((g \<circ> f) found)"
    by (simp add: add.assoc)
qed

lemma passes_section:
  assumes "length content < 2 ^ 32"
  shows "passes (b # uleb (word_of_nat (length content)) @ content) (\<lambda>found. if b = 1 then Some content else found)"
proof (unfold passes_def, intro allI)
  fix xs ys found
  let ?n = "uleb (word_of_nat (length content))"
  let ?all = "xs @ (b # ?n @ content) @ ys"
  let ?c = "\<lparr>data = ?all, pos = length xs + 1\<rparr>"
  have len: "unat (word_of_nat (length content) :: u32) = length content"
    using assms by (simp add: unsigned_of_nat take_bit_nat_eq_self)
  have "readUnsignedLeb ?c = Inr (length content, skip (length ?n) ?c)"
    by (rule readsD [OF reads_readUnsignedLeb [of "word_of_nat (length content)", unfolded len], where ys = "content @ ys"])
      (simp_all add: rest_def)
  then show "scan_sections ?all (length xs) found
      = scan_sections ?all (length xs + length (b # ?n @ content)) (if b = 1 then Some content else found)"
    by (subst scan_sections.simps) (simp add: skip_def slice_def nth_append add.assoc)
qed

text \<open>Steps whose output is passed with the effect \<open>f\<close>.\<close>

definition leaves :: "(byte list option \<Rightarrow> byte list option) \<Rightarrow> wasm_emitter \<Rightarrow> bool" where
  "leaves f w \<longleftrightarrow> (\<forall>e e'. encoder_inv e \<longrightarrow> w e = Inr e' \<longrightarrow>
     (\<exists>bs. encoder_inv e' \<and> finish e' = finish e @ bs \<and> passes bs f))"

lemma leavesE:
  assumes "leaves f w" and "encoder_inv e" and "w e = Inr e'"
  obtains bs where "encoder_inv e'" and "finish e' = finish e @ bs" and "passes bs f"
  using assms by (auto simp: leaves_def)

lemma leaves_skip: "leaves id Inr"
  by (auto simp: leaves_def passes_def intro: exI [of _ "[]"])

lemma leaves_seq: "leaves f v \<Longrightarrow> leaves g w \<Longrightarrow> leaves (g \<circ> f) (\<lambda>s. rbind (v s) w)"
proof (unfold leaves_def, intro allI impI)
  fix e e'
  assume v: "\<forall>e e'. encoder_inv e \<longrightarrow> v e = Inr e' \<longrightarrow> (\<exists>bs. encoder_inv e' \<and> finish e' = finish e @ bs \<and> passes bs f)"
    and w: "\<forall>e e'. encoder_inv e \<longrightarrow> w e = Inr e' \<longrightarrow> (\<exists>bs. encoder_inv e' \<and> finish e' = finish e @ bs \<and> passes bs g)"
    and e: "encoder_inv e" and "rbind (v e) w = Inr e'"
  from this(4) obtain e1 where "v e = Inr e1" and e1: "w e1 = Inr e'" by (auto simp: rbind_Inr_iff)
  with v e obtain bs where "encoder_inv e1" "finish e1 = finish e @ bs" "passes bs f" by blast
  moreover from this w e1 obtain cs where "encoder_inv e'" "finish e' = finish e1 @ cs" "passes cs g" by blast
  ultimately show "\<exists>bs. encoder_inv e' \<and> finish e' = finish e @ bs \<and> passes bs (g \<circ> f)"
    using passes_append by auto
qed

interpretation quiet: step_logic "leaves id"
  by unfold_locales (use leaves_skip leaves_seq [of id _ id] in simp_all)

lemma section_written:
  assumes "rseq [put_byte sid, put_u32 (int (length cs)), put_bytes cs] e = Inr e'" and "encoder_inv e"
  shows "encoder_inv e' \<and> finish e' = finish e @ word_of_int sid # uleb (word_of_nat (length cs)) @ cs \<and> length cs < 2 ^ 32"
proof -
  obtain e1 where u: "put_u32 (int (length cs)) (enc_byte sid e) = Inr e1" and "put_bytes cs e1 = Inr e'"
    using assms(1) by (auto simp: rbind_Inr_iff put_byte_def)
  note b = enc_byte_props [OF assms(2), of sid]
  have u': "int (length cs) < 2 ^ 32" "encoder_inv e1" "finish e1 = finish (enc_byte sid e) @ uleb (word_of_nat (length cs))"
    using put_u32_Inr [OF u b(1)] by simp_all
  then have "length cs < 2 ^ 32" by (simp only: of_nat_less_numeral_power_cancel_iff)
  with put_bytes_Inr [OF \<open>put_bytes cs e1 = Inr e'\<close> u'(2)] u'(3) b(2) show ?thesis by simp
qed

lemma leaves_section:
  "content new_encoder = Inr sub \<Longrightarrow>
     leaves (\<lambda>found. if word_of_int sid = (1 :: byte) then Some (finish sub) else found) (put_section sid content)"
proof (unfold leaves_def, intro allI impI)
  fix e e'
  assume e: "encoder_inv e" and c: "content new_encoder = Inr sub" and "put_section sid content e = Inr e'"
  then have "rseq [put_byte sid, put_u32 (int (length (finish sub))), put_bytes (finish sub)] e = Inr e'"
    by (simp add: put_section_def)
  note s = section_written [OF this e]
  show "\<exists>bs. encoder_inv e' \<and> finish e' = finish e @ bs
      \<and> passes bs (\<lambda>found. if word_of_int sid = (1 :: byte) then Some (finish sub) else found)"
    by (rule exI [of _ "word_of_int sid # uleb (word_of_nat (length (finish sub))) @ finish sub"]) (use s passes_section in blast)
qed

lemma leaves_other_section: "word_of_int sid \<noteq> (1 :: byte) \<Longrightarrow> leaves id (put_section sid content)"
proof (cases "content new_encoder")
  case (Inl err)
  then show ?thesis by (simp add: leaves_def put_section_def)
next
  case (Inr sub)
  moreover assume "word_of_int sid \<noteq> (1 :: byte)"
  ultimately show ?thesis using leaves_section [of content sub sid] by (simp add: id_def)
qed

lemma leaves_section_if: "word_of_int sid \<noteq> (1 :: byte) \<Longrightarrow> leaves id (section_if c sid content)"
  by (simp add: section_if_def leaves_other_section leaves_skip)

lemma leaves_after: "leaves id (sections_after_code utf8 m)"
  unfolding sections_after_code_def name_section_def by (rule quiet.sequence) (simp add: leaves_section_if)

text \<open>The code section, which \<open>emitBinaryWithSourceMap\<close> writes without \<open>put_section\<close>.\<close>

definition whole_code_section :: "emit_ctx \<Rightarrow> wasm_module \<Rightarrow> wasm_emitter" where
  "whole_code_section ctx m e =
     (if m_functions m = [] then Inr e
      else rbind (code_content ctx (m_functions m) (new_encoder, [])) (\<lambda>(code, _).
        rseq [put_byte 10, put_u32 (int (length (finish code))), put_bytes (finish code)] e))"

lemma leaves_whole_code_section: "leaves id (whole_code_section ctx m)"
proof (unfold leaves_def, intro allI impI)
  fix e e'
  assume e: "encoder_inv e" and w: "whole_code_section ctx m e = Inr e'"
  show "\<exists>bs. encoder_inv e' \<and> finish e' = finish e @ bs \<and> passes bs id"
  proof (cases "m_functions m = []")
    case True
    with e w show ?thesis by (auto simp: whole_code_section_def passes_def intro: exI [of _ "[]"])
  next
    case False
    with w obtain code rel where "rseq [put_byte 10, put_u32 (int (length (finish code))), put_bytes (finish code)] e = Inr e'"
      by (auto simp: whole_code_section_def rbind_Inr_iff simp del: rseq_simps)
    note s = section_written [OF this e]
    have "passes (10 # uleb (word_of_nat (length (finish code))) @ finish code) id"
      using passes_section [of "finish code" 10] s by (simp add: id_def)
    with s show ?thesis by auto
  qed
qed

text \<open>The sections after the type section; together they are the whole file.\<close>

definition later_sections :: "emit_ctx \<Rightarrow> (string \<Rightarrow> byte list) \<Rightarrow> wasm_module \<Rightarrow> wasm_emitter list" where
  "later_sections ctx utf8 m = [
     section_if (m_imports m \<noteq> []) 2 (put_vector (m_imports m) (encodeImport ctx utf8)),
     section_if (m_functions m \<noteq> []) 3 (put_vector (m_functions m) (\<lambda>f. type_index ctx (fn_typeIdx f))),
     section_if (m_tables m \<noteq> []) 4
       (put_vector (m_tables m) (\<lambda>t. put_table_type (tb_elementType t) (tb_min t) (tb_max t))),
     section_if (m_memories m \<noteq> []) 5 (put_vector (m_memories m) (\<lambda>(mn, mx). put_limits mn mx)),
     section_if (m_tags m \<noteq> []) 13
       (put_vector (m_tags m) (\<lambda>t. rseq [checked ctx (\<lambda>c. vIdx ''type'' (tg_typeIdx t) (numTypes c)),
          put_opcode [0x00], put_u32 (tg_typeIdx t)])),
     section_if (m_globals m \<noteq> []) 6 (put_vector (m_globals m) (encodeGlobal ctx)),
     section_if (m_exports m \<noteq> []) 7 (put_vector (m_exports m) (encodeExport ctx utf8)),
     (case m_startFuncIdx m of
        None \<Rightarrow> Inr | Some h \<Rightarrow> put_section 8 (with_value (fIdx ctx h) (function_index ctx))),
     element_section ctx m,
     section_if (\<exists>seg\<in>set (m_dataSegments m). ds_passive seg) 12 (put_u32 (int (length (m_dataSegments m)))),
     whole_code_section ctx m, sections_after_code utf8 m]"

lemma leaves_later: "leaves id (rseq (later_sections ctx utf8 m))"
  unfolding later_sections_def element_section_def
  by (rule quiet.sequence)
    (auto simp: leaves_section_if leaves_other_section leaves_skip leaves_whole_code_section leaves_after split: option.split)

lemma emitted_as_sections:
  assumes "emitBinaryWithSourceMapUnguarded ctx utf8 m = Inr (binary, entries)"
  shows "\<exists>e. rseq (put_bytes [0x00, 0x61, 0x73, 0x6d] # put_bytes [0x01, 0x00, 0x00, 0x00] # type_section ctx m # later_sections ctx utf8 m)
      new_encoder = Inr e \<and> binary = finish e"
proof -
  have app: "rseq (us @ ws) = (\<lambda>e. rbind (rseq us e) (rseq ws))" for us ws :: "wasm_emitter list"
    by (induction us) (simp_all add: rseq_Cons_fun rseq_Nil_fun rbind_assoc del: rseq_simps)
  obtain e e2 e3 where e: "sections_before_code ctx utf8 m new_encoder = Inr e" and c: "whole_code_section ctx m e = Inr e2"
    and a: "sections_after_code utf8 m e2 = Inr e3" and b: "binary = finish e3"
  proof (cases "m_functions m = []")
    case True
    with assms that show ?thesis by (auto simp: emitBinaryWithSourceMapUnguarded_def whole_code_section_def rbind_Inr_iff)
  next
    case False
    with assms obtain e code rel e1 e2 e3 where e: "sections_before_code ctx utf8 m new_encoder = Inr e"
      and code: "code_content ctx (m_functions m) (new_encoder, []) = Inr (code, rel)"
      and e1: "rseq [put_byte 10, put_u32 (int (length (finish code)))] e = Inr e1" and e2: "put_bytes (finish code) e1 = Inr e2"
      and e3: "sections_after_code utf8 m e2 = Inr e3" "binary = finish e3"
      by (auto simp: emitBinaryWithSourceMapUnguarded_def rbind_Inr_iff Let_def simp del: rseq_simps)
    have "rseq [put_byte 10, put_u32 (int (length (finish code))), put_bytes (finish code)] e = Inr e2"
      using app [of "[put_byte 10, put_u32 (int (length (finish code)))]" "[put_bytes (finish code)]"] e1 e2 by simp
    with False code have "whole_code_section ctx m e = Inr e2" by (simp add: whole_code_section_def del: rseq_simps)
    with that e e3 show ?thesis by blast
  qed
  have "put_bytes [0x00, 0x61, 0x73, 0x6d] # put_bytes [0x01, 0x00, 0x00, 0x00] # type_section ctx m # later_sections ctx utf8 m
      = (put_bytes [0x00, 0x61, 0x73, 0x6d] # put_bytes [0x01, 0x00, 0x00, 0x00] # type_section ctx m # butlast (butlast (later_sections ctx utf8 m)))
        @ [whole_code_section ctx m, sections_after_code utf8 m]" by (simp add: later_sections_def)
  moreover have "rseq (put_bytes [0x00, 0x61, 0x73, 0x6d] # put_bytes [0x01, 0x00, 0x00, 0x00] # type_section ctx m
      # butlast (butlast (later_sections ctx utf8 m))) = sections_before_code ctx utf8 m"
    by (simp add: later_sections_def sections_before_code_def del: rseq_simps)
  ultimately have "rseq (put_bytes [0x00, 0x61, 0x73, 0x6d] # put_bytes [0x01, 0x00, 0x00, 0x00] # type_section ctx m # later_sections ctx utf8 m)
      new_encoder = Inr e3" using e c a by (simp only: app) simp
  with b show ?thesis by blast
qed

lemma scan_end: "scan_sections bs (length bs) found = Inr found"
  by (subst scan_sections.simps) simp

lemma header_written:
  "rseq (put_bytes [0x00, 0x61, 0x73, 0x6d] # put_bytes [0x01, 0x00, 0x00, 0x00] # ws) new_encoder = Inr e \<Longrightarrow>
     \<exists>e1. encoder_inv e1 \<and> finish e1 = [0x00, 0x61, 0x73, 0x6d, 0x01, 0x00, 0x00, 0x00] \<and> rseq ws e1 = Inr e"
  by (intro exI [of _ "enc_bytes [1, 0, 0, 0] (enc_bytes [0, 97, 115, 109] new_encoder)"])
    (simp add: put_bytes_def enc_bytes_props new_encoder_inv finish_new_encoder)

lemma check_canonical_Inr:
  "check_canonical m gs e = Inr e' \<Longrightarrow> e' = e \<and> (\<forall>start fin. m_canonicalRecGroup m = Some (start, fin) \<longrightarrow> (start, fin) \<in> set gs)"
proof
  assume c: "check_canonical m gs e = Inr e'"
  then show "e' = e" by (auto simp: check_canonical_def fails_def split: option.splits prod.splits if_splits)
  have "(start, fin) \<in> set gs" if g: "m_canonicalRecGroup m = Some (start, fin)" for start fin
  proof (cases "List.find (\<lambda>g. fst g = start) gs")
    case None
    with c g show ?thesis by (simp add: check_canonical_def fails_def)
  next
    case (Some h)
    with c g have "snd h = fin" by (simp add: check_canonical_def fails_def split: if_splits)
    moreover from Some have "h \<in> set gs" "fst h = start" by (auto simp: find_Some_iff)
    ultimately show ?thesis by (metis prod.collapse)
  qed
  then show "\<forall>start fin. m_canonicalRecGroup m = Some (start, fin) \<longrightarrow> (start, fin) \<in> set gs" by blast
qed

lemma parsed_file:
  assumes "binary = [0x00, 0x61, 0x73, 0x6d, 0x01, 0x00, 0x00, 0x00] @ bs" and "passes bs f"
  shows "parseBinaryTypeGroups binary = (case f None of None \<Rightarrow> Inr [] | Some section \<Rightarrow> parse_type_section section)"
proof -
  have "scan_sections binary 8 None = Inr (f None)"
    using passesD [OF assms(2), of "[0x00, 0x61, 0x73, 0x6d, 0x01, 0x00, 0x00, 0x00]" "[]" None] assms(1)
      scan_end [of binary "f None"] by (simp add: eval_nat_numeral)
  then show ?thesis using assms(1) by (simp add: parseBinaryTypeGroups_def parse_type_section_def split: option.split)
qed

text \<open>The groups of an emitted binary, the canonical one among them.\<close>

lemma type_groups_read:
  assumes "emitBinaryWithSourceMap noCheck utf8 m = Inr (binary, entries)" and "list_all readable (m_types m)"
  shows "\<exists>gs. computeRecGroups (m_types m) (forced_groups m) = Inr gs
    \<and> (m_types m = [] \<or> (\<forall>start fin. m_canonicalRecGroup m = Some (start, fin) \<longrightarrow> (start, fin) \<in> set gs))
    \<and> parseBinaryTypeGroups binary = Inr (map (view_group (m_types m)) gs)"
proof -
  let ?ctx = "module_ctx noCheck m"
  obtain e where w: "rseq (put_bytes [0x00, 0x61, 0x73, 0x6d] # put_bytes [0x01, 0x00, 0x00, 0x00] # type_section ?ctx m # later_sections ?ctx utf8 m)
      new_encoder = Inr e" and b: "binary = finish e"
    using emitted_as_sections assms(1) unfolding emitBinaryWithSourceMap_def by blast
  obtain e1 e2 where e1: "encoder_inv e1" "finish e1 = [0x00, 0x61, 0x73, 0x6d, 0x01, 0x00, 0x00, 0x00]"
    and t: "type_section ?ctx m e1 = Inr e2" and l: "rseq (later_sections ?ctx utf8 m) e2 = Inr e"
    using header_written [OF w] by (auto simp: rbind_Inr_iff)
  show ?thesis
  proof (cases "m_types m = []")
    case True
    with t have "e2 = e1" by (simp add: type_section_def)
    with l leavesE [OF leaves_later e1(1)] obtain bs where "finish e = finish e1 @ bs" "passes bs id" by metis
    with e1(2) b have "parseBinaryTypeGroups binary = Inr []" by (subst parsed_file [of binary bs id]) simp_all
    then show ?thesis using True by (simp add: computeRecGroups_def rec_groups_from.simps)
  next
    case False
    with t obtain gs where gs: "computeRecGroups (m_types m) (forced_groups m) = Inr gs"
      and c: "\<forall>start fin. m_canonicalRecGroup m = Some (start, fin) \<longrightarrow> (start, fin) \<in> set gs"
      and s: "put_section 1 (put_vector gs (put_rec_group ?ctx (m_types m))) e1 = Inr e2"
      by (auto simp: type_section_def with_value_def fails_def rbind_Inr_iff dest!: check_canonical_Inr split: sum.splits)
    obtain sub where sub: "put_vector gs (put_rec_group ?ctx (m_types m)) new_encoder = Inr sub"
      using s by (auto simp: put_section_def rbind_Inr_iff)
    obtain bs where bs: "encoder_inv e2" "finish e2 = finish e1 @ bs" "passes bs (\<lambda>found. Some (finish sub))"
      using leavesE [OF leaves_section [of _ sub 1] e1(1) s] sub by auto
    obtain cs where "finish e = finish e2 @ cs" "passes cs id" using leavesE [OF leaves_later bs(1) l] .
    then have "passes (bs @ cs) (\<lambda>found. Some (finish sub))" "binary = [0x00, 0x61, 0x73, 0x6d, 0x01, 0x00, 0x00, 0x00] @ bs @ cs"
      using passes_append [OF bs(3), of cs id] bs(2) e1(2) b by (simp_all add: comp_def)
    then have "parseBinaryTypeGroups binary = parse_type_section (finish sub)"
      using parsed_file [of binary "bs @ cs" "\<lambda>found. Some (finish sub)"] by simp
    then have "parseBinaryTypeGroups binary = Inr (map (view_group (m_types m)) gs)"
      using parse_type_section_content [OF gs assms(2) sub] by simp
    with gs c show ?thesis by blast
  qed
qed

section \<open>Tokens\<close>

text \<open>
  Members whose tokens survive a round trip: no brands, no abstract heap type that the parser renames, no final
  type without supertypes in the form of a \<open>sub\<close>.
\<close>

definition plain_val :: "val_type \<Rightarrow> bool" where
  "plain_val v \<longleftrightarrow> view_val v = v"

fun canonical :: "type_def \<Rightarrow> bool" where
  "canonical (FuncType params results) = (list_all plain_val params \<and> list_all plain_val results)"
| "canonical (StructType fs superTypeIdx isFinal) =
     (list_all (\<lambda>f. plain_val (fst f)) fs \<and> (case superTypeIdx of None \<Rightarrow> True | Some s \<Rightarrow> s \<ge> 0 \<or> \<not> isFinal))"
| "canonical (ArrayType element isMutable) = plain_val element"
| "canonical (SubType superType isFinal t) = (canonical t \<and> (superType = None \<longrightarrow> \<not> isFinal))"
| "canonical (RecGroup ts) = False"

lemma view_fields: "list_all (\<lambda>f. plain_val (fst f)) fs \<Longrightarrow> map view_field fs = fs"
  by (induction fs) (auto simp: plain_val_def view_field_def)

lemma view_vals: "list_all plain_val ts \<Longrightarrow> map view_val ts = ts"
  by (induction ts) (auto simp: plain_val_def)

lemma token_view: "canonical t \<Longrightarrow> structuralToken localOf (view_type t) = structuralToken localOf t"
  by (induction t) (auto simp: view_fields view_vals plain_val_def split: option.splits)

lemma hash_view:
  assumes "list_all canonical defs"
  shows "canonicalHashOfTypeGroup (map view_type defs) idx = canonicalHashOfTypeGroup defs idx"
proof -
  have "map (\<lambda>(i, t). show_nat i @ '':'' @ structuralToken lo t) (List.enumerate n (map view_type defs))
      = map (\<lambda>(i, t). show_nat i @ '':'' @ structuralToken lo t) (List.enumerate n defs)" for lo n
    using assms by (induction defs arbitrary: n) (simp_all add: token_view)
  then show ?thesis by (simp add: canonicalHashOfTypeGroup_def group_parts_def)
qed

section \<open>The group of a module in its binary\<close>

lemma extracted_members:
  "mb \<in> set (extractRuntimeGroup names m) \<Longrightarrow> gm_absIndex mb < length (m_types m) \<and> gm_def mb = m_types m ! gm_absIndex mb"
  by (auto simp: extractRuntimeGroup_def in_set_enumerate_eq split: if_splits option.splits)

lemma map_nth_part: "s + n \<le> length xs \<Longrightarrow> map ((!) xs) [s..<s + n] = take n (drop s xs)"
  by (rule nth_equalityI) simp_all

lemma extracted_defs:
  assumes "map gm_absIndex (extractRuntimeGroup names m) = [s..<s + n]" and "0 < n"
  shows "s + n \<le> length (m_types m) \<and> map gm_def (extractRuntimeGroup names m) = take n (drop s (m_types m))"
proof -
  let ?ms = "extractRuntimeGroup names m"
  have "s + n - 1 \<in> set [s..<s + n]" using assms(2) by auto
  then have "s + n - 1 \<in> gm_absIndex ` set ?ms" unfolding assms(1) [symmetric] by simp
  then obtain mb where "mb \<in> set ?ms" "gm_absIndex mb = s + n - 1" by auto
  then have le: "s + n \<le> length (m_types m)" using extracted_members [of mb names m] assms(2) by auto
  have "map gm_def ?ms = map ((!) (m_types m)) (map gm_absIndex ?ms)" using extracted_members by auto
  with le show ?thesis unfolding assms(1) by (simp add: map_nth_part)
qed

lemma fingerprint_facts:
  assumes "getRuntimeRecGroupFingerprint names abiVersion m = Inr (Some fp)"
  obtains start fin where "m_canonicalRecGroup m = Some (start, fin)" and "start < fin"
    and "fp_count fp = Suc fin - start" and "fp_abiVersion fp = RUNTIME_RECGROUP_ABI_VERSION"
    and "fp_hash fp = canonicalHashOfTypeGroup (take (Suc fin - start) (drop start (m_types m))) (map int [start..<Suc fin])"
    and "fin < length (m_types m)"
    and "map gm_def (extractRuntimeGroup names m) = take (Suc fin - start) (drop start (m_types m))"
proof -
  let ?ms = "extractRuntimeGroup names m"
  obtain start fin where r: "m_canonicalRecGroup m = Some (start, fin)" "start \<le> fin"
    and fp: "fp = fingerprintRuntimeGroup names m" and c: "fp_count fp = Suc fin - start"
    and n: "fp_members fp = RUNTIME_RECGROUP_TYPE_NAMES" and a: "map gm_absIndex ?ms = [start..<start + (Suc fin - start)]"
    using assms by (auto simp: getRuntimeRecGroupFingerprint_def Let_def not_less split: option.splits prod.splits if_splits)
  have "length ?ms = 10" using arg_cong [OF n, of length] by (simp add: fp fingerprintRuntimeGroup_def Let_def RUNTIME_RECGROUP_TYPE_NAMES_def)
  then have less: "start < fin" using c by (simp add: fp fingerprintRuntimeGroup_def Let_def)
  have d: "start + (Suc fin - start) \<le> length (m_types m)" "map gm_def ?ms = take (Suc fin - start) (drop start (m_types m))"
    using extracted_defs [OF a] less by auto
  have "map (\<lambda>mb. int (gm_absIndex mb)) ?ms = map int (map gm_absIndex ?ms)" by simp
  then have "map (\<lambda>mb. int (gm_absIndex mb)) ?ms = map int [start..<Suc fin]" unfolding a using r(2) by (simp del: upt_Suc)
  then have h: "fp_hash fp = canonicalHashOfTypeGroup (take (Suc fin - start) (drop start (m_types m))) (map int [start..<Suc fin])"
    by (simp only: fp fingerprintRuntimeGroup_def Let_def group_fingerprint.simps d(2))
  have v: "fp_abiVersion fp = RUNTIME_RECGROUP_ABI_VERSION" by (simp add: fp fingerprintRuntimeGroup_def Let_def)
  have "fin < length (m_types m)" using d(1) r(2) by simp
  from that [OF r(1) less c v h this d(2)] show ?thesis .
qed

lemma group_found:
  assumes "parseBinaryTypeGroups binary = Inr groups" and "g \<in> set groups" and "tg_recursive g"
    and "length (tg_defs g) = fp_count fp" and "group_hash g = fp_hash fp" and "fp_abiVersion fp = RUNTIME_RECGROUP_ABI_VERSION"
  shows "gc_valid (verifyRuntimeRecGroupBinary binary fp)"
proof -
  let ?cs = "filter (\<lambda>g. tg_recursive g \<and> length (tg_defs g) = fp_count fp) groups"
  have g: "g \<in> set ?cs" using assms by simp
  then obtain h where "List.find (\<lambda>g. group_hash g = fp_hash fp) ?cs = Some h"
    using assms(5) by (cases "List.find (\<lambda>g. group_hash g = fp_hash fp) ?cs") (auto simp: find_None_iff)
  moreover have "?cs \<noteq> []"
  proof
    assume "?cs = []"
    with g show False by (simp only: list.set empty_iff)
  qed
  ultimately show ?thesis using assms(1,6) by (simp add: verifyRuntimeRecGroupBinary_def Let_def del: filter_empty_conv)
qed

lemma own_group_found:
  assumes "emitBinaryWithSourceMap noCheck utf8 m = Inr (binary, entries)" and "list_all readable (m_types m)"
    and "getRuntimeRecGroupFingerprint names abiVersion m = Inr expected"
    and "list_all canonical (map gm_def (extractRuntimeGroup names m))"
  shows "runtimeRecGroupDrift binary expected = None"
proof (cases expected)
  case None
  then show ?thesis by (simp add: runtimeRecGroupDrift_def)
next
  case (Some fp)
  let ?types = "m_types m"
  obtain start fin where r: "m_canonicalRecGroup m = Some (start, fin)" "start < fin" "fin < length ?types"
    and c: "fp_count fp = Suc fin - start" and v: "fp_abiVersion fp = RUNTIME_RECGROUP_ABI_VERSION"
    and h: "fp_hash fp = canonicalHashOfTypeGroup (take (Suc fin - start) (drop start ?types)) (map int [start..<Suc fin])"
    and d: "map gm_def (extractRuntimeGroup names m) = take (Suc fin - start) (drop start ?types)"
    using fingerprint_facts assms(3) unfolding Some by metis
  obtain gs where gs: "(start, fin) \<in> set gs" and p: "parseBinaryTypeGroups binary = Inr (map (view_group ?types) gs)"
    using type_groups_read [OF assms(1,2)] r by fastforce
  let ?g = "view_group ?types (start, fin)"
  have n: "length (tg_defs ?g) = Suc fin - start" using r(3) by (simp add: view_group_def)
  have "map (\<lambda>i. int (start + i)) [0..<Suc fin - start] = map int [start..<Suc fin]"
    by (rule nth_equalityI) (use r(2) in \<open>simp_all del: upt_Suc\<close>)
  moreover have "group_hash ?g = canonicalHashOfTypeGroup (map view_type (take (Suc fin - start) (drop start ?types)))
      (map (\<lambda>i. int (start + i)) [0..<Suc fin - start])"
    unfolding group_hash_def n by (simp add: view_group_def)
  ultimately have "group_hash ?g = fp_hash fp" using assms(4) unfolding d h by (simp only: hash_view)
  moreover have "?g \<in> set (map (view_group ?types) gs)" unfolding set_map using gs by (rule imageI)
  moreover have "tg_recursive ?g" using r(2) by (simp add: view_group_def)
  ultimately have "gc_valid (verifyRuntimeRecGroupBinary binary fp)" using n c v by (intro group_found [OF p]) simp_all
  then show ?thesis by (simp add: Some runtimeRecGroupDrift_def Let_def)
qed

text \<open>
  C6. The parser of the drift check reads back what the emitter wrote: for types in its range, the groups it finds
  in a binary are those that \<open>computeRecGroups\<close> formed, with their start, their kind and their members; sections
  before and after do not disturb it.
\<close>

theorem emitted_groups_read:
  assumes "emitBinaryWithSourceMap noCheck utf8 m = Inr (binary, entries)" and "list_all readable (m_types m)"
  shows "\<exists>gs. computeRecGroups (m_types m) (forced_groups m) = Inr gs
    \<and> parseBinaryTypeGroups binary = Inr (map (view_group (m_types m)) gs)"
  using type_groups_read [OF assms] by blast

text \<open>
  C5. A compilation never rejects its own output: when the metadata of the module yields a fingerprint and the
  members of the group are in \<open>canonical\<close> form, \<open>runtimeRecGroupDrift\<close> finds no drift in the emitted binary.
\<close>

theorem own_binary_passes:
  assumes "emitBinaryWithSourceMap noCheck utf8 m = Inr (binary, entries)" and "list_all readable (m_types m)"
    and "getRuntimeRecGroupFingerprint names abiVersion m = Inr expected"
    and "list_all canonical (map gm_def (extractRuntimeGroup names m))"
  shows "runtimeRecGroupDrift binary expected = None"
  by (rule own_group_found [OF assms])

text \<open>The runtime types of the native string mode, after one signature.\<close>

definition grouped_module :: wasm_module where
  "grouped_module =
     \<lparr>m_types = [FuncType [] [],
        StructType [(I32, True)] (Some (-1)) False,
        ArrayType ExternRef True,
        StructType [(I32, True), (Ref 2, True)] (Some 1) False,
        ArrayType F64 True,
        StructType [(I32, True), (Ref 4, True)] (Some 1) False,
        ArrayType I16 True,
        StructType [(I32, False)] (Some (-1)) False,
        StructType [(I32, False), (I32, False), (Ref 6, False)] (Some 7) False,
        StructType [(I32, False), (Ref 7, True), (Ref 7, True)] (Some 7) False,
        StructType [(I32, False), (I32, False), (Ref 6, False), (I32, True), (I32, True), (AnyRef, True), (AnyRef, True), (AnyRef, True)]
          (Some 8) False],
      m_canonicalRecGroup = Some (1, 10), m_imports = [],
      m_functions = [\<lparr>fn_name = ''f'', fn_typeIdx = 0, fn_locals = [], fn_body = []\<rparr>],
      m_exports = [], m_tables = [], m_elements = [], m_globals = [], m_tags = [], m_declaredFuncRefs = [],
      m_funcOrdinalToPosition = [], m_memories = [], m_dataSegments = [], m_startFuncIdx = None\<rparr>"

definition grouped_names :: "string option list" where
  "grouped_names = None # map Some RUNTIME_RECGROUP_TYPE_NAMES"



definition grouped_head :: "byte list" where
  "grouped_head = [0x00, 0x61, 0x73, 0x6d, 0x01, 0x00, 0x00, 0x00, 0x01, 0x61, 0x02, 0x60, 0x00, 0x00, 0x4e, 0x0a, 0x50,
     0x00, 0x5f, 0x01, 0x7f, 0x01, 0x5e, 0x6f, 0x01, 0x50, 0x01, 0x01, 0x5f, 0x02, 0x7f, 0x01, 0x64, 0x02,
     0x01, 0x5e, 0x7c, 0x01, 0x50, 0x01, 0x01, 0x5f, 0x02, 0x7f, 0x01, 0x64, 0x04, 0x01, 0x5e, 0x77, 0x01,
     0x50, 0x00, 0x5f, 0x01, 0x7f, 0x00, 0x50, 0x01, 0x07, 0x5f, 0x03, 0x7f, 0x00, 0x7f, 0x00, 0x64, 0x06,
     0x00, 0x50, 0x01, 0x07, 0x5f, 0x03, 0x7f, 0x00, 0x64, 0x07, 0x01, 0x64, 0x07, 0x01, 0x50, 0x01, 0x08,
     0x5f, 0x08, 0x7f, 0x00, 0x7f, 0x00, 0x64, 0x06, 0x00, 0x7f, 0x01, 0x7f, 0x01, 0x63, 0x6e, 0x01, 0x63,
     0x6e, 0x01, 0x63, 0x6e, 0x01, 0x03, 0x02, 0x01, 0x00]"

definition grouped_names_section :: "byte list" where
  "grouped_names_section = [0x00, 0x0b, 0x04, 0x6e, 0x61, 0x6d, 0x65, 0x01, 0x04, 0x01, 0x00, 0x01, 0x66]"

lemma grouped_stages:
  "sections_before_code (module_ctx False grouped_module) ascii grouped_module new_encoder = Inr (written grouped_head)"
  "code_content (module_ctx False grouped_module) (m_functions grouped_module) (new_encoder, []) = Inr (written [1, 2, 0, 11], [])"
  "finish (written [1, 2, 0, 11]) = [1, 2, 0, 11]"
  "rseq [put_byte 10, put_u32 4] (written grouped_head) = Inr (written (grouped_head @ [10, 4]))"
  "put_bytes [1, 2, 0, 11] (written (grouped_head @ [10, 4])) = Inr (written (grouped_head @ [10, 4, 1, 2, 0, 11]))"
  "sections_after_code ascii grouped_module (written (grouped_head @ [10, 4, 1, 2, 0, 11]))
     = Inr (written (grouped_head @ [10, 4, 1, 2, 0, 11] @ grouped_names_section))"
  by code_simp+

lemma grouped_emits:
  "emitBinaryWithSourceMap False ascii grouped_module
     = Inr (finish (written (grouped_head @ [10, 4, 1, 2, 0, 11] @ grouped_names_section)), [])"
proof -
  have "m_functions grouped_module \<noteq> []" by (simp add: grouped_module_def)
  then show ?thesis
    unfolding emitBinaryWithSourceMap_def emitBinaryWithSourceMapUnguarded_def
    by (simp add: grouped_stages(1-5) grouped_stages(6) [simplified] Let_def del: rseq_simps)
qed

lemma grouped_facts:
  "list_all readable (m_types grouped_module)"
  "list_all canonical (map gm_def (extractRuntimeGroup grouped_names grouped_module))"
  "\<exists>fp. getRuntimeRecGroupFingerprint grouped_names 2 grouped_module = Inr (Some fp)"
proof -
  show "list_all readable (m_types grouped_module)" by code_simp
  show "list_all canonical (map gm_def (extractRuntimeGroup grouped_names grouped_module))" by code_simp
  have "map gm_absIndex (extractRuntimeGroup grouped_names grouped_module) = [1..<1 + (Suc 10 - 1)]"
    "map gm_name (extractRuntimeGroup grouped_names grouped_module) = RUNTIME_RECGROUP_TYPE_NAMES"
    "length (extractRuntimeGroup grouped_names grouped_module) = 10" by code_simp+
  moreover have "m_canonicalRecGroup grouped_module = Some (1, 10)" by (simp add: grouped_module_def)
  ultimately show "\<exists>fp. getRuntimeRecGroupFingerprint grouped_names 2 grouped_module = Inr (Some fp)"
    by (simp add: getRuntimeRecGroupFingerprint_def fingerprintRuntimeGroup_def Let_def RUNTIME_RECGROUP_ABI_VERSION_def del: upt_Suc)
qed

theorem emitted_groups_read_witness:
  "\<exists>binary. emitBinaryWithSourceMap False ascii grouped_module = Inr (binary, [])
    \<and> parseBinaryTypeGroups binary = Inr (map (view_group (m_types grouped_module)) [(0, 0), (1, 10)])"
proof -
  have "computeRecGroups (m_types grouped_module) (forced_groups grouped_module) = Inr [(0, 0), (1, 10)]" by code_simp
  with emitted_groups_read [OF grouped_emits grouped_facts(1)] grouped_emits show ?thesis by auto
qed

theorem own_binary_passes_witness:
  "\<exists>binary fp. emitBinaryWithSourceMap False ascii grouped_module = Inr (binary, [])
    \<and> getRuntimeRecGroupFingerprint grouped_names 2 grouped_module = Inr (Some fp)
    \<and> runtimeRecGroupDrift binary (Some fp) = None"
proof -
  obtain fp where "getRuntimeRecGroupFingerprint grouped_names 2 grouped_module = Inr (Some fp)" using grouped_facts(3) by blast
  with own_binary_passes [OF grouped_emits grouped_facts(1) this grouped_facts(2)] grouped_emits show ?thesis by blast
qed

end
