(* ===== verification/ModuleMeaning.thy ===== *)
theory ModuleMeaning
  imports BinaryEmit
begin

text \<open>
  What the indices of a module mean, for the passes that renumber them: the uses of indices by the parts of a
  module, and the import or function that a handle denotes (\<open>src/src/emit/resolve-layout.ts\<close>).
\<close>

definition function_imports :: "wasm_module \<Rightarrow> wasm_import list" where
  "function_imports m = filter (\<lambda>imp. desc_kind (im_desc imp) = FuncKind) (m_imports m)"

section \<open>Index uses\<close>

text \<open>
  The uses of indices by the parts of a module, as the emitter sees them (\<open>instr_uses\<close>), type definitions and
  the types of function imports apart.
\<close>

definition body_uses :: "wasm_instr list \<Rightarrow> index_use list" where
  "body_uses is = concat (map instr_uses is)"

definition function_uses :: "wasm_function \<Rightarrow> index_use list" where
  "function_uses f = body_uses (map fst (fn_body f)) @ TypeUse (fn_typeIdx f) # concat (map val_type_uses (fn_locals f))"

definition global_uses :: "wasm_global \<Rightarrow> index_use list" where
  "global_uses g = body_uses (gl_init g) @ val_type_uses (gl_type g)"

definition element_uses :: "wasm_element \<Rightarrow> index_use list" where
  "element_uses el = map FunctionUse (elem_funcIndices el) @ body_uses (elem_offset el)"

definition export_uses :: "wasm_export \<Rightarrow> index_use list" where
  "export_uses ex = (if ex_kind ex = FuncKind then [FunctionUse (ex_index ex)] else [])"

definition import_uses :: "wasm_import \<Rightarrow> index_use list" where
  "import_uses imp = (case im_desc imp of ImportTag typeIdx \<Rightarrow> [TypeUse typeIdx] | ImportGlobal t mut \<Rightarrow> val_type_uses t | _ \<Rightarrow> [])"

definition module_uses :: "wasm_module \<Rightarrow> index_use list" where
  "module_uses m = concat (map function_uses (m_functions m)) @ concat (map global_uses (m_globals m))
     @ concat (map element_uses (m_elements m)) @ concat (map export_uses (m_exports m)) @ map FunctionUse (m_declaredFuncRefs m)
     @ (case m_startFuncIdx m of None \<Rightarrow> [] | Some h \<Rightarrow> [FunctionUse h]) @ map (\<lambda>t. TypeUse (tg_typeIdx t)) (m_tags m)
     @ concat (map import_uses (m_imports m))"

fun use_funcs :: "index_use \<Rightarrow> int set" where
  "use_funcs (FunctionUse h) = {h}"
| "use_funcs u = {}"

fun use_types :: "index_use \<Rightarrow> int set" where
  "use_types (TypeUse i) = {i}"
| "use_types (BlockTypeUse i) = {i}"
| "use_types (HeapUse i) = {i}"
| "use_types (FieldUse t i) = {t}"
| "use_types u = {}"

definition funcs_of :: "index_use list \<Rightarrow> int set" where
  "funcs_of us = \<Union> (use_funcs ` set us)"

definition types_of :: "index_use list \<Rightarrow> int set" where
  "types_of us = \<Union> (use_types ` set us)"

lemma funcs_of_simps [simp]:
  "funcs_of [] = {}" "funcs_of (u # us) = use_funcs u \<union> funcs_of us" "funcs_of (us @ vs) = funcs_of us \<union> funcs_of vs"
  "funcs_of (concat uss) = \<Union> (funcs_of ` set uss)" "funcs_of (map FunctionUse hs) = set hs"
  by (auto simp: funcs_of_def)

lemma types_of_simps [simp]:
  "types_of [] = {}" "types_of (u # us) = use_types u \<union> types_of us" "types_of (us @ vs) = types_of us \<union> types_of vs"
  "types_of (concat uss) = \<Union> (types_of ` set uss)" "types_of (map FunctionUse hs) = {}"
  by (auto simp: types_of_def)

text \<open>The same use after functions and types are renumbered.\<close>

fun move_use :: "(int \<Rightarrow> int) \<Rightarrow> (int \<Rightarrow> int) \<Rightarrow> index_use \<Rightarrow> index_use" where
  "move_use f t (FunctionUse h) = FunctionUse (f h)"
| "move_use f t (TypeUse i) = TypeUse (t i)"
| "move_use f t (BlockTypeUse i) = BlockTypeUse (t i)"
| "move_use f t (HeapUse i) = HeapUse (t i)"
| "move_use f t (FieldUse i j) = FieldUse (t i) j"
| "move_use f t u = u"

lemma moved_funcs_of: "funcs_of (map (move_use f t) us) = f ` funcs_of us"
proof (induction us)
  case (Cons u us)
  then show ?case by (cases u) auto
qed simp

lemma moved_types_of: "types_of (map (move_use f t) us) = t ` types_of us"
proof (induction us)
  case (Cons u us)
  then show ?case by (cases u) auto
qed simp

section \<open>Walking and renumbering instructions\<close>

text \<open>
  \<open>walkInstructionDag\<close> of \<open>src/src/codegen/walk-instructions.ts\<close> with a visitor that changes fields of the visited
  instruction only: the visitor is applied to each instruction of a tree, nested ones included.
\<close>

fun walk_instr :: "(wasm_instr \<Rightarrow> wasm_instr) \<Rightarrow> wasm_instr \<Rightarrow> wasm_instr" where
  "walk_instr visitor (Block bt body) = visitor (Block bt (map (walk_instr visitor) body))"
| "walk_instr visitor (Loop bt body) = visitor (Loop bt (map (walk_instr visitor) body))"
| "walk_instr visitor (If bt thn els) =
     visitor (If bt (map (walk_instr visitor) thn) (case els of None \<Rightarrow> None | Some es \<Rightarrow> Some (map (walk_instr visitor) es)))"
| "walk_instr visitor (Try bt body catches catchAll) =
     visitor (Try bt (map (walk_instr visitor) body) (map (\<lambda>c. (fst c, map (walk_instr visitor) (snd c))) catches)
       (case catchAll of None \<Rightarrow> None | Some is \<Rightarrow> Some (map (walk_instr visitor) is)))"
| "walk_instr visitor (TryTable bt body catches) = visitor (TryTable bt (map (walk_instr visitor) body) catches)"
| "walk_instr visitor i = visitor i"

lemma walk_instr_id: "visitor = (\<lambda>i. i) \<Longrightarrow> walk_instr visitor i = i"
proof (induction i rule: walk_instr.induct [of _ visitor])
qed (auto simp: map_idI split: option.split intro!: map_idI)

text \<open>The visitor that renumbers functions and types.\<close>

fun renumber_val :: "(int \<Rightarrow> int) \<Rightarrow> val_type \<Rightarrow> val_type" where
  "renumber_val t (Ref i) = Ref (t i)"
| "renumber_val t (RefNull i) = RefNull (t i)"
| "renumber_val t vt = vt"

fun renumber_block :: "(int \<Rightarrow> int) \<Rightarrow> block_type \<Rightarrow> block_type" where
  "renumber_block t (TypeBlock i) = TypeBlock (t i)"
| "renumber_block t (ValBlock vt) = ValBlock (renumber_val t vt)"
| "renumber_block t EmptyBlock = EmptyBlock"

fun renumber_fields :: "(int \<Rightarrow> int) \<Rightarrow> (int \<Rightarrow> int) \<Rightarrow> wasm_instr \<Rightarrow> wasm_instr" where
  "renumber_fields f t (CallOp op funcIdx) = CallOp op (f funcIdx)"
| "renumber_fields f t (FuncRefOf funcIdx) = FuncRefOf (f funcIdx)"
| "renumber_fields f t (CallIndirectOp typeIdx tableIdx) = CallIndirectOp (t typeIdx) tableIdx"
| "renumber_fields f t (Typed op typeIdx) = Typed op (t typeIdx)"
| "renumber_fields f t (StructField op typeIdx fieldIdx) = StructField op (t typeIdx) fieldIdx"
| "renumber_fields f t (ArrayNewFixed typeIdx n) = ArrayNewFixed (t typeIdx) n"
| "renumber_fields f t (ArrayCopy dstTypeIdx srcTypeIdx) = ArrayCopy (t dstTypeIdx) (t srcTypeIdx)"
| "renumber_fields f t (HeapType op typeIdx) = HeapType op (t typeIdx)"
| "renumber_fields f t (Block bt body) = Block (renumber_block t bt) body"
| "renumber_fields f t (Loop bt body) = Loop (renumber_block t bt) body"
| "renumber_fields f t (If bt thn els) = If (renumber_block t bt) thn els"
| "renumber_fields f t (Try bt body catches catchAll) = Try (renumber_block t bt) body catches catchAll"
| "renumber_fields f t (TryTable bt body catches) = TryTable (renumber_block t bt) body catches"
| "renumber_fields f t i = i"

lemma val_type_uses_renumbered: "val_type_uses (renumber_val t vt) = map (move_use f t) (val_type_uses vt)"
  by (cases vt) simp_all

lemma block_type_uses_renumbered: "block_type_uses (renumber_block t bt) = map (move_use f t) (block_type_uses bt)"
  by (cases bt) (simp_all add: val_type_uses_renumbered)

lemma catch_uses_renumbered: "map (move_use f t) (catch_uses clause) = catch_uses clause"
  by (auto simp: catch_uses_def split: option.split)

lemma renumbered_bodies:
  "(\<And>x. x \<in> set is \<Longrightarrow> instr_uses (walk_instr (renumber_fields f t) x) = map (move_use f t) (instr_uses x)) \<Longrightarrow>
     concat (map instr_uses (map (walk_instr (renumber_fields f t)) is)) = map (move_use f t) (concat (map instr_uses is))"
  by (induction "is") simp_all

lemma instr_uses_renumbered: "instr_uses (walk_instr (renumber_fields f t) i) = map (move_use f t) (instr_uses i)"
proof (induction i rule: instr_uses.induct)
  case (15 bt body clauses)
  from renumbered_bodies [OF 15] show ?case by (simp add: block_type_uses_renumbered map_concat comp_def catch_uses_renumbered)
next
  case (16 bt body clauses catchAll)
  have "TagUse (fst c) # concat (map instr_uses (map (walk_instr (renumber_fields f t)) (snd c)))
      = map (move_use f t) (TagUse (fst c) # concat (map instr_uses (snd c)))" if "c \<in> set clauses" for c
    using renumbered_bodies [OF 16(2) [OF that]] by simp
  then have "map (\<lambda>c. TagUse (fst c) # concat (map instr_uses (map (walk_instr (renumber_fields f t)) (snd c)))) clauses
      = map (\<lambda>c. map (move_use f t) (TagUse (fst c) # concat (map instr_uses (snd c)))) clauses"
    by (rule map_cong [OF refl])
  then have c: "concat (map (\<lambda>c. TagUse (fst c) # concat (map instr_uses (snd c))) (map (\<lambda>c. (fst c, map (walk_instr (renumber_fields f t)) (snd c))) clauses))
      = map (move_use f t) (concat (map (\<lambda>c. TagUse (fst c) # concat (map instr_uses (snd c))) clauses))"
    by (simp add: map_concat comp_def cong: map_cong)
  have b: "concat (map instr_uses (map (walk_instr (renumber_fields f t)) body)) = map (move_use f t) (concat (map instr_uses body))"
    by (rule renumbered_bodies) (rule 16(1))
  show ?case
  proof (cases catchAll)
    case None
    show ?thesis unfolding None instr_uses.simps walk_instr.simps renumber_fields.simps option.case c b
      by (simp only: block_type_uses_renumbered [of t _ f] map_append list.map append_Nil2)
  next
    case (Some js)
    have k: "concat (map instr_uses (map (walk_instr (renumber_fields f t)) js)) = map (move_use f t) (concat (map instr_uses js))"
      by (rule renumbered_bodies) (rule 16(3) [OF Some])
    show ?thesis unfolding Some instr_uses.simps walk_instr.simps renumber_fields.simps option.case c b k
      by (simp only: block_type_uses_renumbered [of t _ f] map_append)
  qed
next
  case (3 bt thn els)
  have th: "concat (map instr_uses (map (walk_instr (renumber_fields f t)) thn)) = map (move_use f t) (concat (map instr_uses thn))"
    by (rule renumbered_bodies) (rule 3(1))
  show ?case
  proof (cases els)
    case None
    show ?thesis unfolding None instr_uses.simps walk_instr.simps renumber_fields.simps option.case th
      by (simp only: block_type_uses_renumbered [of t _ f] map_append list.map append_Nil2)
  next
    case (Some es)
    have e: "concat (map instr_uses (map (walk_instr (renumber_fields f t)) es)) = map (move_use f t) (concat (map instr_uses es))"
      by (rule renumbered_bodies) (rule 3(2) [OF Some])
    show ?thesis unfolding Some instr_uses.simps walk_instr.simps renumber_fields.simps option.case th e
      by (simp only: block_type_uses_renumbered [of t _ f] map_append)
  qed
next
  case (1 bt body)
  have "concat (map instr_uses (map (walk_instr (renumber_fields f t)) body)) = map (move_use f t) (concat (map instr_uses body))"
    by (rule renumbered_bodies) (rule 1)
  then show ?case by (simp only: instr_uses.simps walk_instr.simps renumber_fields.simps block_type_uses_renumbered [of t _ f] map_append)
next
  case (2 bt body)
  have "concat (map instr_uses (map (walk_instr (renumber_fields f t)) body)) = map (move_use f t) (concat (map instr_uses body))"
    by (rule renumbered_bodies) (rule 2)
  then show ?case by (simp only: instr_uses.simps walk_instr.simps renumber_fields.simps block_type_uses_renumbered [of t _ f] map_append)
qed simp_all

lemma body_uses_renumbered: "body_uses (map (walk_instr (renumber_fields f t)) is) = map (move_use f t) (body_uses is)"
  unfolding body_uses_def by (rule renumbered_bodies) (rule instr_uses_renumbered)

section \<open>What a handle denotes\<close>

definition num_funcs :: "wasm_module \<Rightarrow> nat" where
  "num_funcs m = length (function_imports m) + length (m_functions m)"

text \<open>What a function handle denotes: an import or a function of the module.\<close>

datatype func_target = Imported wasm_import | Defined wasm_function

definition func_targets :: "wasm_module \<Rightarrow> func_target list" where
  "func_targets m = map Imported (function_imports m) @ map Defined (m_functions m)"

definition function_at :: "wasm_module \<Rightarrow> int \<Rightarrow> func_target option" where
  "function_at m h =
     (case absoluteFuncIndex m h of
        Inl _ \<Rightarrow> None
      | Inr k \<Rightarrow> if 0 \<le> k \<and> k < int (length (func_targets m)) then Some (func_targets m ! nat k) else None)"

lemma length_targets: "length (func_targets m) = num_funcs m"
  by (simp add: func_targets_def num_funcs_def)

lemma function_at_live:
  "h < STABLE_FUNC_BASE \<Longrightarrow> function_at m h = (if 0 \<le> h \<and> h < int (num_funcs m) then Some (func_targets m ! nat h) else None)"
  by (simp add: function_at_def absoluteFuncIndex_def length_targets)

lemma function_at_stable:
  "\<not> h < STABLE_FUNC_BASE \<Longrightarrow> function_at m h =
     (let ordinal = nat (h - STABLE_FUNC_BASE) in
      if ordinal < length (m_funcOrdinalToPosition m) then
        (case m_funcOrdinalToPosition m ! ordinal of
           None \<Rightarrow> None | Some p \<Rightarrow> if p < length (m_functions m) then Some (Defined (m_functions m ! p)) else None)
      else None)"
  by (auto simp: function_at_def absoluteFuncIndex_def absoluteFuncIndexCached_def Let_def length_targets num_funcs_def
      func_targets_def count_imports_def function_imports_def [symmetric] nth_append nat_add_distrib split: option.split)

lemma function_use_in_range:
  "use_in_range (module_ctx False m) (makeValidationCtx m) (FunctionUse h) \<longleftrightarrow> function_at m h \<noteq> None"
  by (auto simp: module_ctx_def fIdx_def resolveLayout_def function_at_def absoluteFuncIndex_def absoluteFuncIndexCached_def
      makeValidationCtx_def length_targets num_funcs_def count_imports_def function_imports_def split: sum.split)

end
