(* ===== verification/CodegenContext.thy ===== *)
theory CodegenContext
  imports ModuleMeaning "HOL-Library.AList"
begin

text \<open>
  The part of \<open>CodegenContext\<close> (\<open>src/src/codegen/context/types.ts\<close>) that refers to functions by number, the
  accessors of \<open>src/src/codegen/func-space.ts\<close>, and the registration of imports
  (\<open>addImport\<close> of \<open>src/src/codegen/registry/imports.ts\<close>, \<open>addFuncType\<close> of \<open>registry/types.ts\<close>).
  A \<open>Map\<close> is the list of its entries in insertion order.
\<close>

section \<open>The context\<close>

record function_context =
  fc_body :: "wasm_instr list"
  fc_savedBodies :: "wasm_instr list list"

record trampoline =
  tr_trampolineFuncIdx :: int
  tr_methodFuncIdx :: int

text \<open>A diagnostic, without its text.\<close>

datatype codegen_diagnostic =
    StrictHostImport string string
  | StandaloneObjectImport string
  | StandaloneToPrimitive

text \<open>
  Beside the module and the import counts: the side tables that hold function handles, the bodies under
  construction, which are not yet part of the module, and the state of the import space. Absent optional objects
  (\<open>asyncScheduler\<close>, \<open>__promiseCombinators\<close>) are empty tables; a generator has a handle once its resume function
  exists. \<open>droppedImports\<close> is \<open>mod.strictDroppedHostImports\<close>.
\<close>

record codegen_ctx =
  cg_mod :: wasm_module
  cg_numImportFuncs :: nat
  cg_numImportGlobals :: nat
  cg_funcMap :: "(string \<times> int) list"
  cg_nativeStrHelpers :: "(string \<times> int) list"
  cg_nativeRegexHelpers :: "(string \<times> int) list"
  cg_mapHelpers :: "(string \<times> int) list"
  cg_nativeStrHelperImportBase :: int
  cg_pendingMethodTrampolines :: "trampoline list"
  cg_nativeGenerators :: "(string \<times> int option) list"
  cg_asyncScheduler :: "(string \<times> int) list"
  cg_promiseCombinators :: "(string \<times> int) list"
  cg_currentFunc :: "function_context option"
  cg_funcStack :: "function_context list"
  cg_parentBodiesStack :: "wasm_instr list list"
  cg_liveBodies :: "wasm_instr list list"
  cg_pendingInitBody :: "wasm_instr list option"
  cg_funcTypeCache :: "(string \<times> int) list"
  cg_pendingLateImportShift :: "nat option"
  cg_indexSpaceFrozen :: bool
  cg_strictNoHostImports :: bool
  cg_standalone :: bool
  cg_standaloneRefusedImports :: "string list"
  cg_droppedImports :: "(string \<times> string) list"
  cg_errors :: "codegen_diagnostic list"

datatype context_error =
    ImportSpaceFrozen string
  | NotStableHandle int
  | NeverMinted int
  | AlreadyPushed int nat
  | NotDefinedFunction int

section \<open>Reading and minting function handles\<close>

text \<open>The position of a handle's function, negative for an import or a handle without a function.\<close>

definition definedPositionOf :: "codegen_ctx \<Rightarrow> int \<Rightarrow> int" where
  "definedPositionOf ctx funcIdx =
     (if funcIdx \<ge> STABLE_FUNC_BASE
      then let ordinal = nat (funcIdx - STABLE_FUNC_BASE) in
        if ordinal < length (m_funcOrdinalToPosition (cg_mod ctx))
        then (case m_funcOrdinalToPosition (cg_mod ctx) ! ordinal of None \<Rightarrow> -1 | Some pos \<Rightarrow> int pos)
        else -1
      else funcIdx - int (cg_numImportFuncs ctx))"

definition isImportFuncIdx :: "codegen_ctx \<Rightarrow> int \<Rightarrow> bool" where
  "isImportFuncIdx ctx funcIdx \<longleftrightarrow> funcIdx < int (cg_numImportFuncs ctx)"

definition definedFuncAt :: "codegen_ctx \<Rightarrow> int \<Rightarrow> wasm_function option" where
  "definedFuncAt ctx funcIdx =
     (let pos = definedPositionOf ctx funcIdx in
      if pos \<ge> 0 \<and> pos < int (length (m_functions (cg_mod ctx))) then Some (m_functions (cg_mod ctx) ! nat pos) else None)"

text \<open>The scan over the functions, for a helper that has no stable handle.\<close>

fun position_of_name :: "string \<Rightarrow> wasm_function list \<Rightarrow> nat \<Rightarrow> nat option" where
  "position_of_name name [] i = None"
| "position_of_name name (f # fs) i = (if fn_name f = name then Some i else position_of_name name fs (Suc i))"

definition nativeStrHelperHandle :: "codegen_ctx \<Rightarrow> string \<Rightarrow> int option" where
  "nativeStrHelperHandle ctx helperName =
     (let stable = map_of (cg_nativeStrHelpers ctx) helperName in
      case stable of
        Some h \<Rightarrow> if h \<ge> STABLE_FUNC_BASE then Some h
          else (case position_of_name helperName (m_functions (cg_mod ctx)) 0 of
                  Some i \<Rightarrow> Some (int (cg_numImportFuncs ctx + i)) | None \<Rightarrow> stable)
      | None \<Rightarrow> (case position_of_name helperName (m_functions (cg_mod ctx)) 0 of
                  Some i \<Rightarrow> Some (int (cg_numImportFuncs ctx + i)) | None \<Rightarrow> None))"

definition replaceDefinedFuncAt :: "int \<Rightarrow> wasm_function \<Rightarrow> codegen_ctx \<Rightarrow> context_error + codegen_ctx" where
  "replaceDefinedFuncAt funcIdx fn ctx =
     (let pos = definedPositionOf ctx funcIdx in
      if pos < 0 \<or> pos \<ge> int (length (m_functions (cg_mod ctx))) then Inl (NotDefinedFunction funcIdx)
      else Inr (ctx\<lparr>cg_mod := (cg_mod ctx)\<lparr>m_functions := (m_functions (cg_mod ctx))[nat pos := fn]\<rparr>\<rparr>))"

text \<open>Minting reserves an ordinal (\<open>NaN\<close>, here \<open>None\<close>); the push records the position.\<close>

definition mintDefinedFunc :: "codegen_ctx \<Rightarrow> int \<times> codegen_ctx" where
  "mintDefinedFunc ctx =
     (let ordinal = length (m_funcOrdinalToPosition (cg_mod ctx)) in
      (STABLE_FUNC_BASE + int ordinal,
       ctx\<lparr>cg_mod := (cg_mod ctx)\<lparr>m_funcOrdinalToPosition := m_funcOrdinalToPosition (cg_mod ctx) @ [None]\<rparr>\<rparr>))"

definition pushDefinedFunc :: "int \<Rightarrow> wasm_function \<Rightarrow> codegen_ctx \<Rightarrow> context_error + codegen_ctx" where
  "pushDefinedFunc funcIdx fn ctx =
     (if funcIdx < STABLE_FUNC_BASE then Inl (NotStableHandle funcIdx)
      else let m = cg_mod ctx; ordinal = nat (funcIdx - STABLE_FUNC_BASE) in
        if ordinal \<ge> length (m_funcOrdinalToPosition m) then Inl (NeverMinted funcIdx)
        else case m_funcOrdinalToPosition m ! ordinal of
            Some existing \<Rightarrow> Inl (AlreadyPushed funcIdx existing)
          | None \<Rightarrow> Inr (ctx\<lparr>cg_mod := m\<lparr>
              m_funcOrdinalToPosition := (m_funcOrdinalToPosition m)[ordinal := Some (length (m_functions m))],
              m_functions := m_functions m @ [fn]\<rparr>\<rparr>))"

text \<open>The signature of a handle: imports are scanned in order, defined functions looked up.\<close>

fun import_signature :: "wasm_import list \<Rightarrow> int \<Rightarrow> int \<Rightarrow> int option" where
  "import_signature [] funcIdx count = None"
| "import_signature (imp # imps) funcIdx count =
     (case im_desc imp of
        ImportFunc typeIdx \<Rightarrow> if count = funcIdx then Some typeIdx else import_signature imps funcIdx (count + 1)
      | _ \<Rightarrow> import_signature imps funcIdx count)"

definition func_type_at :: "wasm_module \<Rightarrow> int \<Rightarrow> (val_type list \<times> val_type list) option" where
  "func_type_at m typeIdx =
     (if 0 \<le> typeIdx \<and> typeIdx < int (length (m_types m))
      then (case m_types m ! nat typeIdx of FuncType params results \<Rightarrow> Some (params, results) | _ \<Rightarrow> None)
      else None)"

definition funcSignatureOf :: "codegen_ctx \<Rightarrow> int \<Rightarrow> (val_type list \<times> val_type list) option" where
  "funcSignatureOf ctx funcIdx =
     (if funcIdx < 0 then None
      else if isImportFuncIdx ctx funcIdx
      then Option.bind (import_signature (m_imports (cg_mod ctx)) funcIdx 0) (func_type_at (cg_mod ctx))
      else Option.bind (definedFuncAt ctx funcIdx) (\<lambda>f. func_type_at (cg_mod ctx) (fn_typeIdx f)))"

section \<open>Registering types and imports\<close>

text \<open>
  The key of a signature is an argument: \<open>funcTypeKey\<close> reads brands of value types that the module
  representation leaves out.
\<close>

definition addFuncType :: "string \<Rightarrow> val_type list \<Rightarrow> val_type list \<Rightarrow> codegen_ctx \<Rightarrow> int \<times> codegen_ctx" where
  "addFuncType key params results ctx =
     (case map_of (cg_funcTypeCache ctx) key of
        Some cached \<Rightarrow> (cached, ctx)
      | None \<Rightarrow>
          (let idx = int (length (m_types (cg_mod ctx))) in
           (idx, ctx\<lparr>cg_mod := (cg_mod ctx)\<lparr>m_types := m_types (cg_mod ctx) @ [FuncType params results]\<rparr>,
             cg_funcTypeCache := AList.update key idx (cg_funcTypeCache ctx)\<rparr>)))"

text \<open>The strict gate asks \<open>isHostImportAllowed\<close>, which is an argument, and drops the import when it says no.\<close>

definition drop_import :: "string \<Rightarrow> string \<Rightarrow> import_desc \<Rightarrow> codegen_ctx \<Rightarrow> codegen_ctx" where
  "drop_import mdl name desc ctx = ctx\<lparr>cg_errors := cg_errors ctx @ [StrictHostImport mdl name],
     cg_droppedImports :=
       (if desc_kind desc = FuncKind \<and> (mdl, name) \<notin> set (cg_droppedImports ctx)
        then cg_droppedImports ctx @ [(mdl, name)] else cg_droppedImports ctx)\<rparr>"

definition register_import :: "string \<Rightarrow> string \<Rightarrow> import_desc \<Rightarrow> codegen_ctx \<Rightarrow> codegen_ctx" where
  "register_import mdl name desc ctx =
     (let ctx = ctx\<lparr>cg_mod := (cg_mod ctx)\<lparr>m_imports := m_imports (cg_mod ctx) @ [\<lparr>im_module = mdl, im_name = name, im_desc = desc\<rparr>]\<rparr>\<rparr>
      in if desc_kind desc = FuncKind
         then ctx\<lparr>cg_funcMap := AList.update name (int (cg_numImportFuncs ctx)) (cg_funcMap ctx),
           cg_numImportFuncs := Suc (cg_numImportFuncs ctx)\<rparr>
         else if desc_kind desc = GlobalKind then ctx\<lparr>cg_numImportGlobals := Suc (cg_numImportGlobals ctx)\<rparr>
         else ctx)"

definition addImport :: "(string \<Rightarrow> string \<Rightarrow> bool) \<Rightarrow> string \<Rightarrow> string \<Rightarrow> import_desc \<Rightarrow> codegen_ctx \<Rightarrow> context_error + codegen_ctx" where
  "addImport isHostImportAllowed mdl name desc ctx =
     (if cg_indexSpaceFrozen ctx then Inl (ImportSpaceFrozen name)
      else if cg_strictNoHostImports ctx \<and> \<not> isHostImportAllowed mdl name then Inr (drop_import mdl name desc ctx)
      else Inr (register_import mdl name desc ctx))"

section \<open>Handles of a settled context\<close>

text \<open>The cached count is the number of function imports.\<close>

definition import_count_ok :: "codegen_ctx \<Rightarrow> bool" where
  "import_count_ok ctx \<longleftrightarrow> cg_numImportFuncs ctx = length (function_imports (cg_mod ctx))"

lemma definedFuncAt_function_at:
  "import_count_ok ctx \<Longrightarrow> definedFuncAt ctx h = (case function_at (cg_mod ctx) h of Some (Defined f) \<Rightarrow> Some f | _ \<Rightarrow> None)"
proof (cases "h < STABLE_FUNC_BASE")
  case True
  assume "import_count_ok ctx"
  then have "func_targets (cg_mod ctx) ! nat h = (if nat h < cg_numImportFuncs ctx then Imported (function_imports (cg_mod ctx) ! nat h)
      else Defined (m_functions (cg_mod ctx) ! (nat h - cg_numImportFuncs ctx)))" if "0 \<le> h" "h < int (num_funcs (cg_mod ctx))"
    using that by (auto simp: func_targets_def nth_append import_count_ok_def num_funcs_def)
  with True \<open>import_count_ok ctx\<close> show ?thesis
    by (auto simp: definedFuncAt_def definedPositionOf_def Let_def function_at_live num_funcs_def import_count_ok_def nat_diff_distrib)
next
  case False
  then show ?thesis by (auto simp: definedFuncAt_def definedPositionOf_def Let_def function_at_stable split: option.split)
qed

end
