(* ===== verification/LateImports.thy ===== *)
theory LateImports
  imports CodegenContext
begin

text \<open>
  Imports that are added after functions have been compiled, \<open>src/src/codegen/expressions/late-imports.ts\<close>: the
  request of an import, the deferred shift of every live function handle, and the reconciliation of the native
  string helpers. Bodies are trees, so each instruction is shifted once; in the source the sets of visited arrays
  and instructions see to that where bodies share arrays.
\<close>

section \<open>Shifting\<close>

definition shift_index :: "int \<Rightarrow> int \<Rightarrow> int \<Rightarrow> int" where
  "shift_index importsBefore added idx = (if inLiveShiftRange idx importsBefore then idx + added else idx)"

fun shift_fields :: "int \<Rightarrow> int \<Rightarrow> wasm_instr \<Rightarrow> wasm_instr" where
  "shift_fields importsBefore added (CallOp op funcIdx) = CallOp op (shift_index importsBefore added funcIdx)"
| "shift_fields importsBefore added (FuncRefOf funcIdx) = FuncRefOf (shift_index importsBefore added funcIdx)"
| "shift_fields importsBefore added i = i"

definition shiftInstrs :: "int \<Rightarrow> int \<Rightarrow> wasm_instr list \<Rightarrow> wasm_instr list" where
  "shiftInstrs importsBefore added instrs = map (walk_instr (shift_fields importsBefore added)) instrs"

definition shift_function :: "int \<Rightarrow> int \<Rightarrow> wasm_function \<Rightarrow> wasm_function" where
  "shift_function importsBefore added f =
     f\<lparr>fn_body := map (\<lambda>(i, p). (walk_instr (shift_fields importsBefore added) i, p)) (fn_body f)\<rparr>"

definition shift_function_context :: "int \<Rightarrow> int \<Rightarrow> function_context \<Rightarrow> function_context" where
  "shift_function_context importsBefore added fctx =
     fctx\<lparr>fc_body := shiftInstrs importsBefore added (fc_body fctx),
       fc_savedBodies := map (shiftInstrs importsBefore added) (fc_savedBodies fctx)\<rparr>"

text \<open>A \<open>Map\<close> whose entries that satisfy a condition are shifted.\<close>

definition shift_map :: "(string \<Rightarrow> bool) \<Rightarrow> int \<Rightarrow> int \<Rightarrow> (string \<times> int) list \<Rightarrow> (string \<times> int) list" where
  "shift_map selected importsBefore added =
     map (\<lambda>(name, idx). (name, if selected name then shift_index importsBefore added idx else idx))"

definition shift_trampoline :: "int \<Rightarrow> int \<Rightarrow> trampoline \<Rightarrow> trampoline" where
  "shift_trampoline importsBefore added t =
     t\<lparr>tr_methodFuncIdx := shift_index importsBefore added (tr_methodFuncIdx t),
       tr_trampolineFuncIdx := shift_index importsBefore added (tr_trampolineFuncIdx t)\<rparr>"

text \<open>The fields of the async scheduler and of the promise combinators that hold handles (\<open>async-scheduler.ts\<close>).\<close>

definition ASYNC_SCHEDULER_FUNC_IDX_KEYS :: "string list" where
  "ASYNC_SCHEDULER_FUNC_IDX_KEYS =
     [''enqueueFuncIdx'', ''drainFuncIdx'', ''growFuncIdx'', ''promiseFulfillFuncIdx'', ''promiseRejectFuncIdx'',
      ''identityFulfillWrapperFuncIdx'', ''identityRejectWrapperFuncIdx'', ''promiseResolveValueFuncIdx'',
      ''finallyRestoreSettleFuncIdx'', ''finallyRestoreRejectFuncIdx'', ''finallyAfterFuncIdx'', ''timerAddFuncIdx'',
      ''timerCancelFuncIdx'', ''timerPeekDeadlineFuncIdx'', ''timerFireDueFuncIdx'', ''runLoopFuncIdx'', ''runLoopNowFuncIdx'',
      ''stdinDrainFuncIdx'', ''pollFd0OrClockFuncIdx'']"

definition COMBINATOR_FUNC_IDX_KEYS :: "string list" where
  "COMBINATOR_FUNC_IDX_KEYS =
     [''subscribeFuncIdx'', ''allFulfillFuncIdx'', ''raceFulfillFuncIdx'', ''rejectFuncIdx'', ''allSettledFulfillFuncIdx'',
      ''allSettledRejectFuncIdx'', ''anyRejectFuncIdx'', ''aggErrNewFuncIdx'']"

definition shiftAsyncSideChannelFuncIdxs :: "int \<Rightarrow> int \<Rightarrow> codegen_ctx \<Rightarrow> codegen_ctx" where
  "shiftAsyncSideChannelFuncIdxs importsBefore added ctx =
     (if added \<le> 0 then ctx
      else ctx\<lparr>
        cg_asyncScheduler := shift_map (\<lambda>k. k \<in> set ASYNC_SCHEDULER_FUNC_IDX_KEYS) importsBefore added (cg_asyncScheduler ctx),
        cg_promiseCombinators := shift_map (\<lambda>k. k \<in> set COMBINATOR_FUNC_IDX_KEYS) importsBefore added (cg_promiseCombinators ctx)\<rparr>)"

section \<open>The shift after a batch of imports\<close>

definition import_names :: "wasm_module \<Rightarrow> string set" where
  "import_names m = im_name ` set (function_imports m)"

definition shift_export :: "int \<Rightarrow> int \<Rightarrow> wasm_export \<Rightarrow> wasm_export" where
  "shift_export importsBefore added ex =
     (if ex_kind ex = FuncKind then ex\<lparr>ex_index := shift_index importsBefore added (ex_index ex)\<rparr> else ex)"

definition shift_module :: "int \<Rightarrow> int \<Rightarrow> wasm_module \<Rightarrow> wasm_module" where
  "shift_module importsBefore added m = m\<lparr>
     m_functions := map (shift_function importsBefore added) (m_functions m),
     m_exports := map (shift_export importsBefore added) (m_exports m),
     m_elements := map (\<lambda>el. el\<lparr>elem_funcIndices := map (shift_index importsBefore added) (elem_funcIndices el)\<rparr>) (m_elements m),
     m_declaredFuncRefs := map (shift_index importsBefore added) (m_declaredFuncRefs m),
     m_startFuncIdx := map_option (shift_index importsBefore added) (m_startFuncIdx m)\<rparr>"

text \<open>
  The walk over the module, the bodies under construction and the side tables. The function context of the caller
  is returned shifted beside the context; \<open>null\<close> is \<open>None\<close>.
\<close>

definition shiftLateImportIndices ::
    "function_context option \<Rightarrow> int \<Rightarrow> int \<Rightarrow> codegen_ctx \<Rightarrow> function_context option \<times> codegen_ctx" where
  "shiftLateImportIndices fctx importsBefore added ctx =
     (if added \<le> 0 then (fctx, ctx)
      else
        (let s = shift_index importsBefore added; b = shiftInstrs importsBefore added; f = shift_function_context importsBefore added;
             table = shift_map (\<lambda>_. True) importsBefore added
         in (map_option f fctx,
             shiftAsyncSideChannelFuncIdxs importsBefore added (ctx\<lparr>
               cg_mod := shift_module importsBefore added (cg_mod ctx),
               cg_currentFunc := map_option f (cg_currentFunc ctx),
               cg_funcStack := map f (cg_funcStack ctx),
               cg_parentBodiesStack := map b (cg_parentBodiesStack ctx),
               cg_liveBodies := map b (cg_liveBodies ctx),
               cg_pendingInitBody := map_option b (cg_pendingInitBody ctx),
               cg_funcMap := shift_map (\<lambda>name. name \<notin> import_names (cg_mod ctx)) importsBefore added (cg_funcMap ctx),
               cg_nativeStrHelpers := table (cg_nativeStrHelpers ctx),
               cg_nativeRegexHelpers := table (cg_nativeRegexHelpers ctx),
               cg_mapHelpers := table (cg_mapHelpers ctx),
               cg_nativeStrHelperImportBase :=
                 (if cg_nativeStrHelperImportBase ctx \<ge> 0 then int (cg_numImportFuncs ctx) else cg_nativeStrHelperImportBase ctx),
               cg_pendingMethodTrampolines := map (shift_trampoline importsBefore added) (cg_pendingMethodTrampolines ctx),
               cg_nativeGenerators := map (\<lambda>(k, r). (k, map_option s r)) (cg_nativeGenerators ctx)\<rparr>))))"

definition flushLateImportShifts :: "function_context option \<Rightarrow> codegen_ctx \<Rightarrow> function_context option \<times> codegen_ctx" where
  "flushLateImportShifts fctx ctx =
     (case cg_pendingLateImportShift ctx of
        None \<Rightarrow> (fctx, ctx)
      | Some importsBefore \<Rightarrow>
          (let added = int (cg_numImportFuncs ctx) - int importsBefore; ctx = ctx\<lparr>cg_pendingLateImportShift := None\<rparr> in
           if added \<le> 0 then (fctx, ctx)
           else
             (let (fctx, ctx) = shiftLateImportIndices fctx (int importsBefore) added ctx in
              (fctx, if cg_nativeStrHelperImportBase ctx \<ge> 0
                     then ctx\<lparr>cg_nativeStrHelperImportBase := int (cg_numImportFuncs ctx)\<rparr> else ctx))))"

section \<open>The reconciliation of the native string helpers\<close>

definition defined_names :: "wasm_module \<Rightarrow> string set" where
  "defined_names m = {n \<in> fn_name ` set (m_functions m). n \<noteq> []}"

definition reconcileNativeStrFinalizeShift :: "codegen_ctx \<Rightarrow> codegen_ctx" where
  "reconcileNativeStrFinalizeShift ctx =
     (let base = cg_nativeStrHelperImportBase ctx; added = int (cg_numImportFuncs ctx) - base in
      if base < 0 then ctx
      else
        (let ctx = ctx\<lparr>cg_nativeStrHelperImportBase := int (cg_numImportFuncs ctx)\<rparr>; m = cg_mod ctx in
         if added \<le> 0 then ctx
         else ctx\<lparr>
           cg_mod := m\<lparr>m_functions := map (shift_function base added) (m_functions m), m_exports := map (shift_export base added) (m_exports m)\<rparr>,
           cg_funcMap := shift_map (\<lambda>name. name \<in> defined_names m) base added (cg_funcMap ctx),
           cg_nativeStrHelpers := shift_map (\<lambda>_. True) base added (cg_nativeStrHelpers ctx),
           cg_nativeRegexHelpers := shift_map (\<lambda>_. True) base added (cg_nativeRegexHelpers ctx)\<rparr>))"

section \<open>The request of an import\<close>

definition REFUSED_PREFIXES :: "string list" where
  "REFUSED_PREFIXES = [''__extern_'', ''__object_'', ''__for_in_'', ''__defineProperty'', ''__defineProperties'', ''__getOwn'',
     ''__getPrototypeOf'', ''__proto_method_call'', ''__get_builtin'', ''__register_prototype'', ''__register_class_object'', ''__proxy_'']"

definition REFUSED_NAMES :: "string list" where
  "REFUSED_NAMES = [''__new_plain_object'', ''__delete_property'', ''__hasOwnProperty'', ''__propertyIsEnumerable'', ''__isPrototypeOf'',
     ''__object_hasOwn'']"

definition starts_with :: "string \<Rightarrow> string \<Rightarrow> bool" where
  "starts_with name p \<longleftrightarrow> take (length p) name = p"

definition STANDALONE_REFUSED_IMPORT :: "string \<Rightarrow> bool" where
  "STANDALONE_REFUSED_IMPORT name \<longleftrightarrow> list_ex (starts_with name) REFUSED_PREFIXES \<or> name \<in> set REFUSED_NAMES"

definition refuse :: "string \<Rightarrow> codegen_diagnostic \<Rightarrow> codegen_ctx \<Rightarrow> codegen_ctx" where
  "refuse name message ctx =
     (if name \<in> set (cg_standaloneRefusedImports ctx) then ctx
      else ctx\<lparr>cg_standaloneRefusedImports := cg_standaloneRefusedImports ctx @ [name], cg_errors := cg_errors ctx @ [message]\<rparr>)"

definition refuseStandaloneObjectImport :: "string \<Rightarrow> codegen_ctx \<Rightarrow> codegen_ctx" where
  "refuseStandaloneObjectImport name ctx =
     (if \<not> cg_standalone ctx \<or> \<not> STANDALONE_REFUSED_IMPORT name then ctx else refuse name (StandaloneObjectImport name) ctx)"

definition refuseStandaloneToPrimitive :: "string \<Rightarrow> codegen_ctx \<Rightarrow> codegen_ctx" where
  "refuseStandaloneToPrimitive name ctx =
     (if \<not> cg_standalone ctx \<or> name \<noteq> ''__to_primitive'' then ctx else refuse name StandaloneToPrimitive ctx)"

text \<open>
  The native providers of the targets without a JavaScript host, to which the request is routed by name, are an
  argument: \<open>Some\<close> is the context in which the provider has emitted its functions.
\<close>

record import_request =
  rq_module :: string
  rq_name :: string
  rq_key :: string
  rq_params :: "val_type list"
  rq_results :: "val_type list"

definition open_batch :: "codegen_ctx \<Rightarrow> codegen_ctx" where
  "open_batch ctx =
     (if cg_pendingLateImportShift ctx = None
      then let ctx = reconcileNativeStrFinalizeShift ctx in ctx\<lparr>cg_pendingLateImportShift := Some (cg_numImportFuncs ctx)\<rparr>
      else ctx)"

definition ensureLateImport ::
    "(string \<Rightarrow> string \<Rightarrow> bool) \<Rightarrow> (string \<Rightarrow> codegen_ctx \<Rightarrow> codegen_ctx option) \<Rightarrow> import_request \<Rightarrow> codegen_ctx
      \<Rightarrow> context_error + (int option \<times> codegen_ctx)" where
  "ensureLateImport isHostImportAllowed native rq ctx =
     (let name = rq_name rq in
      case map_of (cg_funcMap ctx) name of
        Some existing \<Rightarrow> Inr (Some existing, ctx)
      | None \<Rightarrow>
          if cg_indexSpaceFrozen ctx then Inl (ImportSpaceFrozen name)
          else case native name ctx of
              Some ctx' \<Rightarrow> Inr (map_of (cg_funcMap ctx') name, ctx')
            | None \<Rightarrow>
                (let ctx = open_batch (refuseStandaloneToPrimitive name (refuseStandaloneObjectImport name ctx));
                     (typeIdx, ctx) = addFuncType (rq_key rq) (rq_params rq) (rq_results rq) ctx
                 in rbind (addImport isHostImportAllowed (rq_module rq) name (ImportFunc typeIdx) ctx)
                      (\<lambda>ctx. Inr (map_of (cg_funcMap ctx) name, ctx))))"

end
