(* ===== verification/LateImportsKept.thy ===== *)
theory LateImportsKept
  imports LateImports
begin

text \<open>
  What the late addition of imports keeps: after the flush of a batch every use of a function, in the module, in the
  bodies under construction and in the side tables, denotes the function it denoted before the batch.
\<close>

section \<open>Shifted uses\<close>

lemma renumber_val_id: "renumber_val (\<lambda>i. i) vt = vt"
  by (cases vt) simp_all

lemma renumber_block_id: "renumber_block (\<lambda>i. i) bt = bt"
  by (cases bt) (simp_all add: renumber_val_id)

lemma shift_fields_renumber: "shift_fields b k = renumber_fields (shift_index b k) (\<lambda>i. i)"
proof
  show "shift_fields b k i = renumber_fields (shift_index b k) (\<lambda>i. i) i" for i by (cases i) (simp_all add: renumber_block_id)
qed

abbreviation shift_use :: "int \<Rightarrow> int \<Rightarrow> index_use \<Rightarrow> index_use" where
  "shift_use b k \<equiv> move_use (shift_index b k) (\<lambda>i. i)"

lemma shift_use_cases: "(\<And>h. u = FunctionUse h \<Longrightarrow> f h = h) \<Longrightarrow> move_use f (\<lambda>i. i) u = u"
  by (cases u) simp_all

lemma shift_use_same: "(\<And>h. h \<in> funcs_of us \<Longrightarrow> f h = h) \<Longrightarrow> map (move_use f (\<lambda>i. i)) us = us"
proof (intro map_idI shift_use_cases)
  fix u h
  assume "\<And>h. h \<in> funcs_of us \<Longrightarrow> f h = h" "u \<in> set us" "u = FunctionUse h"
  then show "f h = h" by (force simp: funcs_of_def)
qed

lemma shift_val_types: "map (move_use f (\<lambda>i. i)) (concat (map val_type_uses ts)) = concat (map val_type_uses ts)"
  by (simp add: map_concat comp_def val_type_uses_renumbered [of "\<lambda>i. i" _ f, unfolded renumber_val_id, symmetric])

lemma body_uses_shifted: "body_uses (shiftInstrs b k is) = map (shift_use b k) (body_uses is)"
  by (simp add: shiftInstrs_def shift_fields_renumber body_uses_renumbered)

lemma function_uses_shifted: "function_uses (shift_function b k f) = map (shift_use b k) (function_uses f)"
proof -
  have "map fst (fn_body (shift_function b k f)) = shiftInstrs b k (map fst (fn_body f))"
    by (simp add: shift_function_def shiftInstrs_def comp_def case_prod_unfold)
  moreover have "fn_typeIdx (shift_function b k f) = fn_typeIdx f" "fn_locals (shift_function b k f) = fn_locals f"
    by (simp_all add: shift_function_def)
  ultimately show ?thesis by (simp add: function_uses_def body_uses_shifted shift_val_types)
qed

lemma export_uses_shifted: "export_uses (shift_export b k ex) = map (shift_use b k) (export_uses ex)"
  by (simp add: export_uses_def shift_export_def)

text \<open>The uses that the walk does not visit: global initialisers and the offsets of element segments.\<close>

definition unvisited_uses :: "wasm_module \<Rightarrow> index_use list" where
  "unvisited_uses m = concat (map (\<lambda>g. body_uses (gl_init g)) (m_globals m)) @ concat (map (\<lambda>el. body_uses (elem_offset el)) (m_elements m))"

lemma module_uses_shifted:
  assumes "\<And>h. h \<in> funcs_of (unvisited_uses m) \<Longrightarrow> \<not> inLiveShiftRange h b"
  shows "module_uses (shift_module b k m) = map (shift_use b k) (module_uses m)"
proof -
  have s: "shift_index b k h = h" if "h \<in> funcs_of (unvisited_uses m)" for h using assms [OF that] by (simp add: shift_index_def)
  have g: "map (shift_use b k) (concat (map global_uses (m_globals m))) = concat (map global_uses (m_globals m))"
  proof (rule shift_use_same)
    fix h
    assume "h \<in> funcs_of (concat (map global_uses (m_globals m)))"
    moreover have "funcs_of (val_type_uses t) = {}" for t by (cases t) simp_all
    ultimately show "shift_index b k h = h" by (intro s) (auto simp: global_uses_def unvisited_uses_def)
  qed
  have o: "map (shift_use b k) (body_uses (elem_offset el)) = body_uses (elem_offset el)" if "el \<in> set (m_elements m)" for el
    by (rule shift_use_same) (use that in \<open>auto intro!: s simp: unvisited_uses_def\<close>)
  have e: "concat (map element_uses (map (\<lambda>el. el\<lparr>elem_funcIndices := map (shift_index b k) (elem_funcIndices el)\<rparr>) (m_elements m)))
      = map (shift_use b k) (concat (map element_uses (m_elements m)))"
    by (simp add: map_concat comp_def element_uses_def o cong: map_cong)
  have i: "map (shift_use b k) (concat (map import_uses (m_imports m))) = concat (map import_uses (m_imports m))"
  proof (rule shift_use_same)
    fix h
    assume "h \<in> funcs_of (concat (map import_uses (m_imports m)))"
    moreover have "funcs_of (val_type_uses t) = {}" for t by (cases t) simp_all
    then have "funcs_of (import_uses imp) = {}" for imp by (auto simp: import_uses_def split: import_desc.split)
    ultimately show "shift_index b k h = h" by simp
  qed
  show ?thesis unfolding module_uses_def
    using g e i
    by (simp add: shift_module_def map_concat comp_def function_uses_shifted export_uses_shifted split: option.split)
qed

text \<open>The bodies under construction, and the handles in the side tables.\<close>

definition context_bodies :: "function_context \<Rightarrow> wasm_instr list list" where
  "context_bodies f = fc_body f # fc_savedBodies f"

definition open_bodies :: "function_context option \<Rightarrow> codegen_ctx \<Rightarrow> wasm_instr list list" where
  "open_bodies fctx ctx = concat (map context_bodies ((case fctx of None \<Rightarrow> [] | Some f \<Rightarrow> [f])
     @ (case cg_currentFunc ctx of None \<Rightarrow> [] | Some f \<Rightarrow> [f]) @ cg_funcStack ctx))
     @ cg_parentBodiesStack ctx @ cg_liveBodies ctx @ (case cg_pendingInitBody ctx of None \<Rightarrow> [] | Some b \<Rightarrow> [b])"

definition open_uses :: "function_context option \<Rightarrow> codegen_ctx \<Rightarrow> index_use list" where
  "open_uses fctx ctx = concat (map body_uses (open_bodies fctx ctx))"

definition table_handles :: "codegen_ctx \<Rightarrow> int list" where
  "table_handles ctx = map snd (cg_nativeStrHelpers ctx) @ map snd (cg_nativeRegexHelpers ctx) @ map snd (cg_mapHelpers ctx)
     @ concat (map (\<lambda>t. [tr_methodFuncIdx t, tr_trampolineFuncIdx t]) (cg_pendingMethodTrampolines ctx))
     @ concat (map (\<lambda>(k, r). case r of None \<Rightarrow> [] | Some h \<Rightarrow> [h]) (cg_nativeGenerators ctx))
     @ map snd (filter (\<lambda>(k, h). k \<in> set ASYNC_SCHEDULER_FUNC_IDX_KEYS) (cg_asyncScheduler ctx))
     @ map snd (filter (\<lambda>(k, h). k \<in> set COMBINATOR_FUNC_IDX_KEYS) (cg_promiseCombinators ctx))"

lemma shift_index_none: "shift_index b 0 = (\<lambda>i. i)"
  by (rule ext) (simp add: shift_index_def)

lemma shift_map_handles: "map snd (shift_map (\<lambda>_. True) b k t) = map (shift_index b k) (map snd t)"
  by (simp add: shift_map_def case_prod_unfold comp_def)

lemma shift_map_selected: "map snd (filter (\<lambda>(n, h). P n) (shift_map P b k t)) = map (shift_index b k) (map snd (filter (\<lambda>(n, h). P n) t))"
  by (induction t) (auto simp: shift_map_def)

lemma shift_map_lookup: "map_of (shift_map P b k t) name = map_option (\<lambda>h. if P name then shift_index b k h else h) (map_of t name)"
  by (induction t) (auto simp: shift_map_def)

lemma context_bodies_shifted: "context_bodies (shift_function_context b k f) = map (shiftInstrs b k) (context_bodies f)"
  by (simp add: context_bodies_def shift_function_context_def)

lemma open_uses_shifted:
  assumes "0 < k" and "shiftLateImportIndices fctx b k ctx = (fctx', ctx')"
  shows "open_uses fctx' ctx' = map (shift_use b k) (open_uses fctx ctx)"
proof -
  have "open_bodies fctx' ctx' = map (shiftInstrs b k) (open_bodies fctx ctx)"
    using assms
    by (auto simp: shiftLateImportIndices_def Let_def shiftAsyncSideChannelFuncIdxs_def open_bodies_def context_bodies_shifted map_concat comp_def
        split: option.split)
  then show ?thesis by (simp add: open_uses_def map_concat comp_def body_uses_shifted)
qed

lemma table_handles_shifted:
  assumes "0 < k" and "shiftLateImportIndices fctx b k ctx = (fctx', ctx')"
  shows "table_handles ctx' = map (shift_index b k) (table_handles ctx)"
proof -
  have t: "concat (map (\<lambda>t. [tr_methodFuncIdx t, tr_trampolineFuncIdx t]) (map (shift_trampoline b k) ts))
      = map (shift_index b k) (concat (map (\<lambda>t. [tr_methodFuncIdx t, tr_trampolineFuncIdx t]) ts))" for ts
    by (induction ts) (simp_all add: shift_trampoline_def)
  have g: "concat (map (\<lambda>(k, r). case r of None \<Rightarrow> [] | Some h \<Rightarrow> [h]) (map (\<lambda>(n, r). (n, map_option (shift_index b k) r)) gs))
      = map (shift_index b k) (concat (map (\<lambda>(k, r). case r of None \<Rightarrow> [] | Some h \<Rightarrow> [h]) gs))" for gs
    by (induction gs) (auto split: option.split)
  from assms have "cg_nativeStrHelpers ctx' = shift_map (\<lambda>_. True) b k (cg_nativeStrHelpers ctx)"
    "cg_nativeRegexHelpers ctx' = shift_map (\<lambda>_. True) b k (cg_nativeRegexHelpers ctx)"
    "cg_mapHelpers ctx' = shift_map (\<lambda>_. True) b k (cg_mapHelpers ctx)"
    "cg_pendingMethodTrampolines ctx' = map (shift_trampoline b k) (cg_pendingMethodTrampolines ctx)"
    "cg_nativeGenerators ctx' = map (\<lambda>(n, r). (n, map_option (shift_index b k) r)) (cg_nativeGenerators ctx)"
    "cg_asyncScheduler ctx' = shift_map (\<lambda>k. k \<in> set ASYNC_SCHEDULER_FUNC_IDX_KEYS) b k (cg_asyncScheduler ctx)"
    "cg_promiseCombinators ctx' = shift_map (\<lambda>k. k \<in> set COMBINATOR_FUNC_IDX_KEYS) b k (cg_promiseCombinators ctx)"
    by (auto simp: shiftLateImportIndices_def Let_def shiftAsyncSideChannelFuncIdxs_def)
  then show ?thesis unfolding table_handles_def map_append by (simp only: shift_map_handles shift_map_selected t g)
qed

section \<open>Shifted handles\<close>

fun shift_target :: "int \<Rightarrow> int \<Rightarrow> func_target \<Rightarrow> func_target" where
  "shift_target b k (Imported imp) = Imported imp"
| "shift_target b k (Defined f) = Defined (shift_function b k f)"

lemma function_at_shifted:
  assumes i: "function_imports m' = function_imports m @ I" and f: "m_functions m' = map (shift_function b k) (m_functions m)"
    and o: "m_funcOrdinalToPosition m' = m_funcOrdinalToPosition m"
    and b: "b = int (length (function_imports m))" and k: "k = int (length I)"
    and n: "int (num_funcs m') \<le> STABLE_FUNC_BASE" and h: "function_at m h = Some t"
  shows "function_at m' (shift_index b k h) = Some (shift_target b k t)"
proof (cases "h < STABLE_FUNC_BASE")
  case False
  then have s: "shift_index b k h = h" by (simp add: shift_index_def inLiveShiftRange_def)
  from False h show ?thesis unfolding s
    by (auto simp: function_at_stable Let_def f o split: if_splits option.splits)
next
  case True
  with h have t: "0 \<le> h" "h < int (num_funcs m)" "t = func_targets m ! nat h" by (simp_all add: function_at_live split: if_splits)
  have n': "num_funcs m' = num_funcs m + length I" by (simp add: num_funcs_def i f)
  have l: "function_at m' j = Some (func_targets m' ! nat j)" if "0 \<le> j" "j < int (num_funcs m')" for j
    using that n by (simp add: function_at_live)
  show ?thesis
  proof (cases "h < b")
    case True
    then have "shift_index b k h = h" by (simp add: shift_index_def inLiveShiftRange_def)
    moreover have "func_targets m ! nat h = Imported (function_imports m ! nat h)" "func_targets m' ! nat h = Imported (function_imports m ! nat h)"
      using True b t(1) by (simp_all add: func_targets_def nth_append i nat_less_iff)
    ultimately show ?thesis using l [of h] t n' by simp
  next
    case False
    then have s: "shift_index b k h = h + k" using True by (simp add: shift_index_def inLiveShiftRange_def)
    let ?j = "nat (h - b)"
    have j: "nat h = length (function_imports m) + ?j" "nat (h + k) = length (function_imports m') + ?j" "?j < length (m_functions m)"
      using False b k t(1,2) by (simp_all add: i num_funcs_def nat_add_distrib nat_diff_distrib)
    have "t = Defined (m_functions m ! ?j)" unfolding t(3) j(1) using j(3) by (simp add: func_targets_def nth_append)
    moreover have "func_targets m' ! nat (h + k) = Defined (shift_function b k (m_functions m ! ?j))"
      unfolding j(2) using j(3) by (simp add: func_targets_def nth_append f)
    ultimately show ?thesis unfolding s using l [of "h + k"] t(1,2) n' k by simp
  qed
qed

section \<open>A batch of requests\<close>

text \<open>
  Between batches the cached import count is right, no shift is pending, the native string helpers are consistent with
  it, and an entry of \<open>funcMap\<close> under the name of an import belongs to an import.
\<close>

definition settled :: "codegen_ctx \<Rightarrow> bool" where
  "settled ctx \<longleftrightarrow> import_count_ok ctx \<and> cg_pendingLateImportShift ctx = None
     \<and> (cg_nativeStrHelperImportBase ctx < 0 \<or> cg_nativeStrHelperImportBase ctx = int (cg_numImportFuncs ctx))
     \<and> (\<forall>name\<in>import_names (cg_mod ctx). case map_of (cg_funcMap ctx) name of None \<Rightarrow> True | Some h \<Rightarrow> h < int (cg_numImportFuncs ctx))"

text \<open>A context that has grown by the function imports \<open>new\<close> since \<open>ctx\<close>, with the shift still to come.\<close>

definition extended :: "codegen_ctx \<Rightarrow> wasm_import list \<Rightarrow> codegen_ctx \<Rightarrow> bool" where
  "extended ctx new c \<longleftrightarrow>
     c\<lparr>cg_mod := cg_mod ctx, cg_numImportFuncs := cg_numImportFuncs ctx, cg_funcMap := cg_funcMap ctx,
       cg_funcTypeCache := cg_funcTypeCache ctx, cg_pendingLateImportShift := cg_pendingLateImportShift ctx,
       cg_standaloneRefusedImports := cg_standaloneRefusedImports ctx, cg_droppedImports := cg_droppedImports ctx,
       cg_errors := cg_errors ctx\<rparr> = ctx
     \<and> cg_numImportFuncs c = cg_numImportFuncs ctx + length new
     \<and> (\<exists>types. cg_mod c = (cg_mod ctx)\<lparr>m_types := m_types (cg_mod ctx) @ types, m_imports := m_imports (cg_mod ctx) @ new\<rparr>)"

definition pending_after :: "codegen_ctx \<Rightarrow> wasm_import list \<Rightarrow> codegen_ctx \<Rightarrow> bool" where
  "pending_after ctx new c \<longleftrightarrow> list_all (\<lambda>imp. desc_kind (im_desc imp) = FuncKind) new
     \<and> (cg_pendingLateImportShift c = None \<and> new = [] \<or> cg_pendingLateImportShift c = Some (cg_numImportFuncs ctx))"

text \<open>The old names keep their entries, each new import has its own, and no other name is added.\<close>

definition names_after :: "codegen_ctx \<Rightarrow> wasm_import list \<Rightarrow> codegen_ctx \<Rightarrow> bool" where
  "names_after ctx new c \<longleftrightarrow>
     (\<forall>name h. map_of (cg_funcMap ctx) name = Some h \<longrightarrow> map_of (cg_funcMap c) name = Some h)
     \<and> (\<forall>j < length new. map_of (cg_funcMap ctx) (im_name (new ! j)) = None
          \<and> map_of (cg_funcMap c) (im_name (new ! j)) = Some (int (cg_numImportFuncs ctx + j)))
     \<and> (\<forall>name. map_of (cg_funcMap ctx) name = None \<longrightarrow> name \<notin> im_name ` set new \<longrightarrow> map_of (cg_funcMap c) name = None)"

lemma reconcile_settled:
  "cg_nativeStrHelperImportBase ctx < 0 \<or> cg_nativeStrHelperImportBase ctx = int (cg_numImportFuncs ctx) \<Longrightarrow> reconcileNativeStrFinalizeShift ctx = ctx"
  by (auto simp: reconcileNativeStrFinalizeShift_def Let_def)

definition batch :: "codegen_ctx \<Rightarrow> wasm_import list \<Rightarrow> codegen_ctx \<Rightarrow> bool" where
  "batch ctx new c \<longleftrightarrow> extended ctx new c \<and> pending_after ctx new c \<and> names_after ctx new c"

lemma batch_start: "settled ctx \<Longrightarrow> batch ctx [] ctx"
proof -
  assume "settled ctx"
  have "cg_mod ctx = (cg_mod ctx)\<lparr>m_types := m_types (cg_mod ctx) @ [], m_imports := m_imports (cg_mod ctx) @ []\<rparr>" by simp
  then have "extended ctx [] ctx" unfolding extended_def by (intro conjI exI [of _ "[]"]) simp_all
  with \<open>settled ctx\<close> show ?thesis by (simp add: batch_def pending_after_def names_after_def settled_def)
qed

text \<open>The steps of a request that do not register the import.\<close>

lemma batch_cong:
  assumes "batch ctx new c" and "extended ctx new c'" and "cg_funcMap c' = cg_funcMap c"
    and "cg_pendingLateImportShift c' = cg_pendingLateImportShift c \<or> cg_pendingLateImportShift c' = Some (cg_numImportFuncs ctx)"
  shows "batch ctx new c'"
  using assms by (auto simp: batch_def pending_after_def names_after_def)

lemma extended_refuse: "extended ctx new c \<Longrightarrow> extended ctx new (refuse name msg c)"
  by (simp add: extended_def refuse_def)

lemma extended_types:
  assumes "extended ctx new c"
  shows "extended ctx new (snd (addFuncType key ps rs c))"
proof (cases "map_of (cg_funcTypeCache c) key")
  case None
  obtain types where t: "cg_mod c = (cg_mod ctx)\<lparr>m_types := m_types (cg_mod ctx) @ types, m_imports := m_imports (cg_mod ctx) @ new\<rparr>"
    using assms by (auto simp: extended_def)
  then have "(cg_mod c)\<lparr>m_types := m_types (cg_mod c) @ [FuncType ps rs]\<rparr>
      = (cg_mod ctx)\<lparr>m_types := m_types (cg_mod ctx) @ types @ [FuncType ps rs], m_imports := m_imports (cg_mod ctx) @ new\<rparr>" by simp
  then have "\<exists>types. (cg_mod c)\<lparr>m_types := m_types (cg_mod c) @ [FuncType ps rs]\<rparr>
      = (cg_mod ctx)\<lparr>m_types := m_types (cg_mod ctx) @ types, m_imports := m_imports (cg_mod ctx) @ new\<rparr>" ..
  then show ?thesis using assms None by (simp add: extended_def addFuncType_def Let_def)
qed (use assms in \<open>simp add: addFuncType_def\<close>)

lemma extended_base: "extended ctx new c \<Longrightarrow> cg_nativeStrHelperImportBase c = cg_nativeStrHelperImportBase ctx"
  unfolding extended_def by (drule conjunct1, drule arg_cong [where f = cg_nativeStrHelperImportBase]) simp

lemma extended_pending: "extended ctx new c \<Longrightarrow> extended ctx new (c\<lparr>cg_pendingLateImportShift := p\<rparr>)"
  by (simp add: extended_def)

lemma batch_open:
  assumes "batch ctx new c" and "settled ctx"
  shows "batch ctx new (open_batch c)" and "cg_pendingLateImportShift (open_batch c) = Some (cg_numImportFuncs ctx)"
    and "cg_funcMap (open_batch c) = cg_funcMap c"
proof -
  note e = assms(1) [unfolded batch_def, THEN conjunct1]
  have "open_batch c = c\<lparr>cg_pendingLateImportShift := Some (cg_numImportFuncs ctx)\<rparr>"
  proof (cases "cg_pendingLateImportShift c")
    case None
    with assms(1) have "new = []" by (simp add: batch_def pending_after_def)
    with e have n: "cg_numImportFuncs c = cg_numImportFuncs ctx" by (simp add: extended_def)
    then have "reconcileNativeStrFinalizeShift c = c"
      using assms(2) extended_base [OF e] by (intro reconcile_settled) (simp add: settled_def)
    with None n show ?thesis by (simp add: open_batch_def)
  next
    case (Some b)
    with assms(1) show ?thesis by (simp add: open_batch_def batch_def pending_after_def)
  qed
  then show "batch ctx new (open_batch c)" "cg_pendingLateImportShift (open_batch c) = Some (cg_numImportFuncs ctx)"
    "cg_funcMap (open_batch c) = cg_funcMap c"
    using batch_cong [OF assms(1) extended_pending [OF e]] by simp_all
qed

lemma batch_register:
  assumes "batch ctx new c" and "map_of (cg_funcMap c) name = None" and "cg_pendingLateImportShift c = Some (cg_numImportFuncs ctx)"
  shows "batch ctx (new @ [\<lparr>im_module = mdl, im_name = name, im_desc = ImportFunc t\<rparr>]) (register_import mdl name (ImportFunc t) c)"
proof -
  let ?imp = "\<lparr>im_module = mdl, im_name = name, im_desc = ImportFunc t\<rparr>" and ?c = "register_import mdl name (ImportFunc t) c"
  note b = assms(1) [unfolded batch_def]
  obtain types where ty: "cg_mod c = (cg_mod ctx)\<lparr>m_types := m_types (cg_mod ctx) @ types, m_imports := m_imports (cg_mod ctx) @ new\<rparr>"
    and n: "cg_numImportFuncs c = cg_numImportFuncs ctx + length new" using b by (auto simp: extended_def)
  have "extended ctx (new @ [?imp]) ?c"
    using b unfolding extended_def by (intro conjI exI [of _ types]) (simp_all add: register_import_def Let_def ty n)
  moreover have "pending_after ctx (new @ [?imp]) ?c"
    using b assms(3) by (simp add: pending_after_def register_import_def Let_def)
  moreover have "names_after ctx (new @ [?imp]) ?c"
  proof -
    have m: "map_of (cg_funcMap ?c) = (map_of (cg_funcMap c))(name \<mapsto> int (cg_numImportFuncs ctx + length new))"
      by (simp add: register_import_def Let_def update_conv' n)
    have old: "map_of (cg_funcMap ctx) name = None" using b assms(2) by (cases "map_of (cg_funcMap ctx) name") (auto simp: names_after_def)
    have ne: "im_name (new ! j) \<noteq> name" if "j < length new" for j using b that assms(2) by (auto simp: names_after_def)
    show ?thesis
      using b old ne unfolding names_after_def m by (auto simp: nth_append less_Suc_eq)
  qed
  ultimately show ?thesis by (simp add: batch_def)
qed

lemma batch_step:
  assumes b: "batch ctx new c" and s: "settled ctx" and n: "native (rq_name rq) c = None" and e: "ensureLateImport allowed native rq c = Inr (r, c')"
  shows "\<exists>new. batch ctx new c'"
proof (cases "map_of (cg_funcMap c) (rq_name rq)")
  case (Some h)
  with e b show ?thesis by (auto simp: ensureLateImport_def)
next
  case None
  define c1 where "c1 = refuseStandaloneToPrimitive (rq_name rq) (refuseStandaloneObjectImport (rq_name rq) c)"
  define c2 where "c2 = snd (addFuncType (rq_key rq) (rq_params rq) (rq_results rq) (open_batch c1))"
  have x: "extended ctx new c1" using b
    by (auto simp: c1_def batch_def refuseStandaloneToPrimitive_def refuseStandaloneObjectImport_def extended_refuse)
  have f: "cg_funcMap c1 = cg_funcMap c" "cg_pendingLateImportShift c1 = cg_pendingLateImportShift c"
    by (simp_all add: c1_def refuseStandaloneToPrimitive_def refuseStandaloneObjectImport_def refuse_def)
  have b1: "batch ctx new c1" by (rule batch_cong [OF b x]) (simp_all add: f)
  note o = batch_open [OF b1 s]
  have f2: "cg_funcMap c2 = cg_funcMap c" "cg_pendingLateImportShift c2 = Some (cg_numImportFuncs ctx)"
    using o f by (simp_all add: c2_def addFuncType_def Let_def split: option.split)
  have b2: "batch ctx new c2"
    using o f2 f extended_types [OF o(1) [unfolded batch_def, THEN conjunct1]] by (intro batch_cong [OF o(1)]) (simp_all add: c2_def)
  obtain t where a: "addImport allowed (rq_module rq) (rq_name rq) (ImportFunc t) c2 = Inr c'"
    using e None n by (auto simp: ensureLateImport_def Let_def c1_def c2_def split: if_splits prod.splits)
  show ?thesis
  proof (cases "cg_strictNoHostImports c2 \<and> \<not> allowed (rq_module rq) (rq_name rq)")
    case True
    with a have c': "c' = drop_import (rq_module rq) (rq_name rq) (ImportFunc t) c2" by (auto simp: addImport_def split: if_splits)
    have "batch ctx new c'"
      using b2 unfolding c' by (intro batch_cong [OF b2]) (simp_all add: batch_def extended_def drop_import_def)
    then show ?thesis ..
  next
    case False
    with a have "c' = register_import (rq_module rq) (rq_name rq) (ImportFunc t) c2" by (auto simp: addImport_def split: if_splits)
    then show ?thesis using batch_register [OF b2 _ f2(2)] None f2(1) by auto
  qed
qed

text \<open>A list of requests, and the flush.\<close>

definition request_all ::
    "(string \<Rightarrow> string \<Rightarrow> bool) \<Rightarrow> (string \<Rightarrow> codegen_ctx \<Rightarrow> codegen_ctx option) \<Rightarrow> import_request list \<Rightarrow> codegen_ctx
      \<Rightarrow> context_error + codegen_ctx" where
  "request_all allowed native = rfold (\<lambda>rq ctx. map_sum id snd (ensureLateImport allowed native rq ctx))"

lemma batch_requests:
  assumes "batch ctx new c" and "settled ctx" and "\<forall>rq\<in>set rqs. \<forall>c. native (rq_name rq) c = None"
    and "request_all allowed native rqs c = Inr c'"
  shows "\<exists>new. batch ctx new c'"
  using assms
proof (induction rqs arbitrary: new c)
  case (Cons rq rqs)
  then obtain r c1 where e: "ensureLateImport allowed native rq c = Inr (r, c1)" and c1: "request_all allowed native rqs c1 = Inr c'"
    by (cases "ensureLateImport allowed native rq c") (auto simp: request_all_def)
  obtain new1 where "batch ctx new1 c1" using batch_step [OF Cons.prems(1,2) _ e] Cons.prems(3) by auto
  then show ?case using Cons.IH [OF _ Cons.prems(2) _ c1] Cons.prems(3) by simp
qed (auto simp: request_all_def)

text \<open>What a name denotes through \<open>funcMap\<close>.\<close>

definition named :: "codegen_ctx \<Rightarrow> string \<Rightarrow> func_target option" where
  "named ctx name = Option.bind (map_of (cg_funcMap ctx) name) (function_at (cg_mod ctx))"

text \<open>The flushed context, as a shift of the grown one by the number of new imports.\<close>

definition flushed :: "codegen_ctx \<Rightarrow> nat \<Rightarrow> function_context option \<Rightarrow> codegen_ctx \<Rightarrow> function_context option \<Rightarrow> codegen_ctx \<Rightarrow> bool" where
  "flushed ctx k fctx c fctx' c' \<longleftrightarrow>
     (let b = int (cg_numImportFuncs ctx) in
      cg_mod c' = shift_module b (int k) (cg_mod c) \<and> cg_numImportFuncs c' = cg_numImportFuncs c \<and> cg_pendingLateImportShift c' = None
      \<and> cg_funcMap c' = shift_map (\<lambda>name. name \<notin> import_names (cg_mod c)) b (int k) (cg_funcMap c)
      \<and> (cg_nativeStrHelperImportBase c < 0 \<and> cg_nativeStrHelperImportBase c' < 0
         \<or> k = 0 \<and> cg_nativeStrHelperImportBase c' = cg_nativeStrHelperImportBase c
         \<or> cg_nativeStrHelperImportBase c' = int (cg_numImportFuncs c))
      \<and> open_uses fctx' c' = map (shift_use b (int k)) (open_uses fctx c) \<and> table_handles c' = map (shift_index b (int k)) (table_handles c))"

lemma shift_module_none: "shift_module b 0 m = m"
proof -
  have "walk_instr (shift_fields b 0) i = i" for i
  proof (rule walk_instr_id, rule ext)
    show "shift_fields b 0 j = j" for j by (cases j) (simp_all add: shift_index_none)
  qed
  then have "shift_function b 0 f = f" for f by (simp add: shift_function_def case_prod_unfold)
  moreover have "shift_export b 0 ex = ex" for ex by (simp add: shift_export_def shift_index_none)
  moreover have "(\<lambda>el. el\<lparr>elem_funcIndices := map (shift_index b 0) (elem_funcIndices el)\<rparr>) = (\<lambda>el. el)" by (simp add: shift_index_none)
  ultimately show ?thesis by (simp add: shift_module_def shift_index_none map_idI option.map_ident)
qed

lemma shift_map_none: "shift_map P b 0 t = t"
  by (auto simp: shift_map_def shift_index_none intro: map_idI)

lemma flush_flushed:
  assumes "batch ctx new c" and "flushLateImportShifts fctx c = (fctx', c')"
  shows "flushed ctx (length new) fctx c fctx' c'"
proof (cases "new = []")
  case True
  have idle: "map (move_use (\<lambda>i. i) (\<lambda>i. i)) us = us" for us by (rule shift_use_same) simp
  from True assms have "fctx' = fctx" "c' = c\<lparr>cg_pendingLateImportShift := None\<rparr>"
    by (auto simp: flushLateImportShifts_def Let_def batch_def extended_def pending_after_def split: option.splits)
  moreover have "open_uses fctx (c\<lparr>cg_pendingLateImportShift := None\<rparr>) = open_uses fctx c"
    "table_handles (c\<lparr>cg_pendingLateImportShift := None\<rparr>) = table_handles c"
    by (simp_all add: open_uses_def open_bodies_def table_handles_def)
  ultimately show ?thesis using True
    by (simp add: flushed_def Let_def shift_module_none shift_map_none shift_index_none idle)
next
  case False
  let ?b = "int (cg_numImportFuncs ctx)" and ?k = "int (length new)" and ?c = "c\<lparr>cg_pendingLateImportShift := None\<rparr>"
  have p: "cg_pendingLateImportShift c = Some (cg_numImportFuncs ctx)" "cg_numImportFuncs c = cg_numImportFuncs ctx + length new"
    using assms(1) False by (auto simp: batch_def pending_after_def extended_def)
  obtain f1 c1 where s: "shiftLateImportIndices fctx ?b ?k ?c = (f1, c1)" by (cases "shiftLateImportIndices fctx ?b ?k ?c")
  have k: "0 < ?k" using False by simp
  have r: "fctx' = f1" "c' = (if cg_nativeStrHelperImportBase c1 \<ge> 0 then c1\<lparr>cg_nativeStrHelperImportBase := int (cg_numImportFuncs c1)\<rparr> else c1)"
    using assms(2) p s False by (auto simp: flushLateImportShifts_def Let_def)
  have o: "open_uses f1 c1 = map (shift_use ?b ?k) (open_uses fctx ?c)" "table_handles c1 = map (shift_index ?b ?k) (table_handles ?c)"
    using open_uses_shifted [OF k s] table_handles_shifted [OF k s] .
  moreover have "open_uses fctx' c' = open_uses f1 c1" "table_handles c' = table_handles c1"
    "open_uses fctx ?c = open_uses fctx c" "table_handles ?c = table_handles c"
    unfolding r by (simp_all add: open_uses_def open_bodies_def table_handles_def)
  moreover have "cg_mod c' = shift_module ?b ?k (cg_mod c)" "cg_numImportFuncs c' = cg_numImportFuncs c" "cg_pendingLateImportShift c' = None"
    "cg_funcMap c' = shift_map (\<lambda>name. name \<notin> import_names (cg_mod c)) ?b ?k (cg_funcMap c)"
    "cg_nativeStrHelperImportBase c < 0 \<and> cg_nativeStrHelperImportBase c' < 0 \<or> cg_nativeStrHelperImportBase c' = int (cg_numImportFuncs c)"
    using s k unfolding r by (auto simp: shiftLateImportIndices_def Let_def shiftAsyncSideChannelFuncIdxs_def split: if_splits)
  ultimately show ?thesis by (auto simp: flushed_def Let_def)
qed

lemma extended_uses:
  assumes "extended ctx new c"
  shows "open_uses fctx c = open_uses fctx ctx" and "table_handles c = table_handles ctx"
proof -
  note e = assms [unfolded extended_def, THEN conjunct1]
  from arg_cong [OF e, where f = "open_uses fctx"] show "open_uses fctx c = open_uses fctx ctx" by (simp add: open_uses_def open_bodies_def)
  from arg_cong [OF e, where f = table_handles] show "table_handles c = table_handles ctx" by (simp add: table_handles_def)
qed

lemma shift_below: "h < b \<Longrightarrow> shift_index b k h = h"
  by (simp add: shift_index_def inLiveShiftRange_def)

lemma kept_settled:
  assumes s: "settled ctx" and b: "batch ctx new c" and f: "flushed ctx (length new) fctx c fctx' c'"
  shows "function_imports (cg_mod c') = function_imports (cg_mod ctx) @ new" and "settled c'"
proof -
  obtain types where m: "cg_mod c = (cg_mod ctx)\<lparr>m_types := m_types (cg_mod ctx) @ types, m_imports := m_imports (cg_mod ctx) @ new\<rparr>"
    and n: "cg_numImportFuncs c = cg_numImportFuncs ctx + length new" using b by (auto simp: batch_def extended_def)
  have fi: "filter (\<lambda>imp. desc_kind (im_desc imp) = FuncKind) new = new"
    using b by (auto simp: batch_def pending_after_def list_all_iff filter_id_conv)
  then have i: "function_imports (cg_mod c) = function_imports (cg_mod ctx) @ new" by (simp add: m function_imports_def)
  moreover have i': "function_imports (cg_mod c') = function_imports (cg_mod c)"
    using f by (simp add: flushed_def Let_def shift_module_def function_imports_def)
  ultimately show g: "function_imports (cg_mod c') = function_imports (cg_mod ctx) @ new" by simp
  have "cg_numImportFuncs ctx = length (function_imports (cg_mod ctx))" using s by (simp add: settled_def import_count_ok_def)
  then have cnt: "import_count_ok c'" using f g n by (simp add: import_count_ok_def flushed_def Let_def)
  have names: "case map_of (cg_funcMap c') name of None \<Rightarrow> True | Some h \<Rightarrow> h < int (cg_numImportFuncs c')"
    if e: "name \<in> import_names (cg_mod c')" for name
  proof -
    have e': "name \<in> im_name ` set (function_imports (cg_mod ctx)) \<or> name \<in> im_name ` set new" "name \<in> import_names (cg_mod c)"
      using e i' by (auto simp: import_names_def i)
    then have l: "map_of (cg_funcMap c') name = map_of (cg_funcMap c) name"
      using f by (cases "map_of (cg_funcMap c) name") (simp_all add: flushed_def Let_def shift_map_lookup)
    have k: "cg_numImportFuncs c' = cg_numImportFuncs ctx + length new" using f n by (simp add: flushed_def Let_def)
    show ?thesis
    proof (cases "name \<in> im_name ` set new")
      case True
      then obtain j where "j < length new" "name = im_name (new ! j)" by (auto simp: in_set_conv_nth)
      then have "map_of (cg_funcMap c) name = Some (int (cg_numImportFuncs ctx + j))" "j < length new" using b by (simp_all add: batch_def names_after_def)
      then show ?thesis by (simp add: l k)
    next
      case False
      then have o: "name \<in> import_names (cg_mod ctx)" using e'(1) by (simp add: import_names_def)
      have "map_of (cg_funcMap c) name = map_of (cg_funcMap ctx) name"
        using b False by (cases "map_of (cg_funcMap ctx) name") (auto simp: batch_def names_after_def)
      then show ?thesis using s o by (auto simp: settled_def l k split: option.splits dest!: bspec)
    qed
  qed
  have "cg_nativeStrHelperImportBase c' < 0 \<or> cg_nativeStrHelperImportBase c' = int (cg_numImportFuncs c')"
    using f s n b by (auto simp: flushed_def Let_def settled_def batch_def dest!: extended_base)
  then show "settled c'" using cnt names f by (simp add: settled_def flushed_def Let_def)
qed

lemma kept_functions:
  assumes s: "settled ctx" and b: "batch ctx new c" and f: "flushed ctx (length new) fctx c fctx' c'"
    and n: "int (num_funcs (cg_mod c')) \<le> STABLE_FUNC_BASE" and h: "function_at (cg_mod ctx) h = Some t"
  shows "function_at (cg_mod c') (shift_index (int (cg_numImportFuncs ctx)) (int (length new)) h)
    = Some (shift_target (int (cg_numImportFuncs ctx)) (int (length new)) t)"
proof (rule function_at_shifted [OF kept_settled(1) [OF s b f] _ _ _ refl n h])
  obtain types where m: "cg_mod c = (cg_mod ctx)\<lparr>m_types := m_types (cg_mod ctx) @ types, m_imports := m_imports (cg_mod ctx) @ new\<rparr>"
    using b by (auto simp: batch_def extended_def)
  show "m_functions (cg_mod c') = map (shift_function (int (cg_numImportFuncs ctx)) (int (length new))) (m_functions (cg_mod ctx))"
    "m_funcOrdinalToPosition (cg_mod c') = m_funcOrdinalToPosition (cg_mod ctx)"
    using f by (simp_all add: flushed_def Let_def m shift_module_def)
  show "int (cg_numImportFuncs ctx) = int (length (function_imports (cg_mod ctx)))" using s by (simp add: settled_def import_count_ok_def)
qed

lemma kept_names:
  assumes s: "settled ctx" and b: "batch ctx new c" and f: "flushed ctx (length new) fctx c fctx' c'"
    and n: "int (num_funcs (cg_mod c')) \<le> STABLE_FUNC_BASE" and h: "named ctx name = Some t"
  shows "named c' name = Some (shift_target (int (cg_numImportFuncs ctx)) (int (length new)) t)"
proof -
  let ?b = "int (cg_numImportFuncs ctx)" and ?k = "int (length new)"
  obtain h where m: "map_of (cg_funcMap ctx) name = Some h" and t: "function_at (cg_mod ctx) h = Some t"
    using h by (cases "map_of (cg_funcMap ctx) name") (auto simp: named_def)
  have c: "map_of (cg_funcMap c) name = Some h" using b m by (simp add: batch_def names_after_def)
  have "map_of (cg_funcMap c') name = Some (shift_index ?b ?k h)"
  proof (cases "name \<in> import_names (cg_mod c)")
    case True
    have "name \<notin> im_name ` set new" using b m by (auto simp: batch_def names_after_def in_set_conv_nth)
    moreover have "import_names (cg_mod c) \<subseteq> import_names (cg_mod ctx) \<union> im_name ` set new"
      using b by (auto simp: batch_def extended_def import_names_def function_imports_def)
    ultimately have "name \<in> import_names (cg_mod ctx)" using True by blast
    then have "h < ?b" using s m by (auto simp: settled_def dest!: bspec)
    then show ?thesis using f c True by (simp add: flushed_def Let_def shift_map_lookup shift_below)
  qed (use f c in \<open>simp add: flushed_def Let_def shift_map_lookup\<close>)
  then show ?thesis using kept_functions [OF s b f n t] by (simp add: named_def)
qed

lemma new_names:
  assumes s: "settled ctx" and b: "batch ctx new c" and f: "flushed ctx (length new) fctx c fctx' c'"
    and n: "int (num_funcs (cg_mod c')) \<le> STABLE_FUNC_BASE" and imp: "imp \<in> set new"
  shows "named c' (im_name imp) = Some (Imported imp)"
proof -
  obtain j where j: "j < length new" "imp = new ! j" using imp by (auto simp: in_set_conv_nth)
  have c: "map_of (cg_funcMap c) (im_name imp) = Some (int (cg_numImportFuncs ctx + j))" using b j by (simp add: batch_def names_after_def)
  note i = kept_settled(1) [OF s b f]
  have l: "cg_numImportFuncs ctx = length (function_imports (cg_mod ctx))" using s by (simp add: settled_def import_count_ok_def)
  have "imp \<in> set (function_imports (cg_mod c))"
    using imp b by (auto simp: batch_def extended_def pending_after_def function_imports_def list_all_iff)
  then have "im_name imp \<in> import_names (cg_mod c)" by (auto simp: import_names_def)
  then have m: "map_of (cg_funcMap c') (im_name imp) = Some (int (cg_numImportFuncs ctx + j))" using f c by (simp add: flushed_def Let_def shift_map_lookup)
  have "num_funcs (cg_mod c') = length (function_imports (cg_mod ctx)) + length new + length (m_functions (cg_mod c'))"
    by (simp add: num_funcs_def i)
  then have "int (cg_numImportFuncs ctx + j) < int (num_funcs (cg_mod c'))" using j(1) l by simp
  moreover have "func_targets (cg_mod c') ! (cg_numImportFuncs ctx + j) = Imported imp"
    using j by (simp add: func_targets_def i nth_append l)
  ultimately have "function_at (cg_mod c') (int (cg_numImportFuncs ctx + j)) = Some (Imported imp)"
    using n function_at_live [of "int (cg_numImportFuncs ctx + j)" "cg_mod c'"] by (simp del: of_nat_add)
  then show ?thesis by (simp add: named_def m)
qed


section \<open>A late import\<close>

text \<open>One import and one function, which is exported, in a table and the start function; one request is already met.\<close>

definition late_main :: wasm_function where
  "late_main = \<lparr>fn_name = ''main'', fn_typeIdx = 0, fn_locals = [],
     fn_body = [(CallOp ''call'' 0, None), (Block EmptyBlock [CallOp ''call'' 1], None), (CallOp ''call'' STABLE_FUNC_BASE, None)]\<rparr>"

definition late_import :: "string \<Rightarrow> wasm_import" where
  "late_import name = \<lparr>im_module = ''env'', im_name = name, im_desc = ImportFunc 0\<rparr>"

definition late_ctx :: codegen_ctx where
  "late_ctx = \<lparr>cg_mod =
     \<lparr>m_types = [FuncType [] []], m_canonicalRecGroup = None, m_imports = [late_import ''log''], m_functions = [late_main],
      m_exports = [\<lparr>ex_name = ''main'', ex_kind = FuncKind, ex_index = 1\<rparr>], m_tables = [],
      m_elements = [\<lparr>elem_tableIdx = 0, elem_offset = [ConstI32 0], elem_funcIndices = [0, 1]\<rparr>], m_globals = [], m_tags = [],
      m_declaredFuncRefs = [1], m_funcOrdinalToPosition = [Some 0], m_memories = [], m_dataSegments = [], m_startFuncIdx = Some 1\<rparr>,
     cg_numImportFuncs = 1, cg_numImportGlobals = 0,
     cg_funcMap = [(''log'', 0), (''main'', 1)], cg_nativeStrHelpers = [(''__str_flatten'', 1)],
     cg_nativeRegexHelpers = [], cg_mapHelpers = [], cg_nativeStrHelperImportBase = 1, cg_pendingMethodTrampolines = [],
     cg_nativeGenerators = [], cg_asyncScheduler = [(''drainFuncIdx'', 1)], cg_promiseCombinators = [], cg_currentFunc = None, cg_funcStack = [],
     cg_parentBodiesStack = [], cg_liveBodies = [], cg_pendingInitBody = None, cg_funcTypeCache = [(''|'', 0)], cg_pendingLateImportShift = None,
     cg_indexSpaceFrozen = False, cg_strictNoHostImports = False, cg_standalone = False, cg_standaloneRefusedImports = [],
     cg_droppedImports = [], cg_errors = []\<rparr>"

definition late_requests :: "import_request list" where
  "late_requests = [\<lparr>rq_module = ''env'', rq_name = ''log'', rq_key = ''|'', rq_params = [], rq_results = []\<rparr>,
     \<lparr>rq_module = ''env'', rq_name = ''__get_undefined'', rq_key = ''|'', rq_params = [], rq_results = []\<rparr>]"

definition late_fctx :: function_context where
  "late_fctx = \<lparr>fc_body = [FuncRefOf 1], fc_savedBodies = []\<rparr>"

definition late_requested :: codegen_ctx where
  "late_requested = late_ctx\<lparr>cg_mod := (cg_mod late_ctx)\<lparr>m_imports := [late_import ''log'', late_import ''__get_undefined'']\<rparr>,
     cg_numImportFuncs := 2, cg_funcMap := [(''log'', 0), (''main'', 1), (''__get_undefined'', 1)], cg_pendingLateImportShift := Some 1\<rparr>"

definition late_flushed :: codegen_ctx where
  "late_flushed = snd (flushLateImportShifts (Some late_fctx) late_requested)"

lemma late_request: "request_all (\<lambda>_ _. True) (\<lambda>_ _. None) late_requests late_ctx = Inr late_requested"
  by code_simp

lemma late_settled: "settled late_ctx"
  by code_simp

lemma late_unvisited: "unvisited_uses (cg_mod late_ctx) = []"
  by code_simp

lemma late_sizes: "int (num_funcs (cg_mod late_flushed)) \<le> STABLE_FUNC_BASE" "cg_numImportFuncs late_ctx = 1"
  by code_simp+

lemma late_import_list: "function_imports (cg_mod late_flushed) = function_imports (cg_mod late_ctx) @ [late_import ''__get_undefined'']"
  by code_simp

lemma late_main_at: "function_at (cg_mod late_ctx) 1 = Some (Defined late_main)" "named late_ctx ''main'' = Some (Defined late_main)"
  by code_simp+


end
