(* ===== verification/DeadElimination.thy ===== *)
theory DeadElimination
  imports CodegenContext
begin

text \<open>
  Elimination of dead function imports and type definitions, \<open>src/src/codegen/dead-elimination.ts\<close>: the collection
  of used indices, the closure over type definitions, the compaction and the remapping of every index of a
  module. A JavaScript \<open>Set\<close> of numbers is a list without repetitions. Instructions of the model are trees, so the
  guards that keep a shared instruction object from being remapped twice have nothing to do here.
\<close>

section \<open>Collecting references\<close>

type_synonym usage = "int list \<times> int list"

definition use_func :: "int \<Rightarrow> usage \<Rightarrow> usage" where
  "use_func f = (\<lambda>(usedFuncs, usedTypes). (add_ref f usedFuncs, usedTypes))"

definition use_type :: "int \<Rightarrow> usage \<Rightarrow> usage" where
  "use_type t = (\<lambda>(usedFuncs, usedTypes). (usedFuncs, add_ref t usedTypes))"

fun collectRefsFromValType :: "val_type \<Rightarrow> int list \<Rightarrow> int list" where
  "collectRefsFromValType (Ref typeIdx) used = add_ref typeIdx used"
| "collectRefsFromValType (RefNull typeIdx) used = add_ref typeIdx used"
| "collectRefsFromValType vt used = used"

definition use_val_type :: "val_type \<Rightarrow> usage \<Rightarrow> usage" where
  "use_val_type vt = (\<lambda>(usedFuncs, usedTypes). (usedFuncs, collectRefsFromValType vt usedTypes))"

fun collectBlockTypeRefs :: "block_type \<Rightarrow> usage \<Rightarrow> usage" where
  "collectBlockTypeRefs (TypeBlock typeIdx) u = use_type typeIdx u"
| "collectBlockTypeRefs (ValBlock t) u = use_val_type t u"
| "collectBlockTypeRefs EmptyBlock u = u"

lemma size_in_list: "x \<in> set xs \<Longrightarrow> f x < Suc (size_list f xs)"
  by (induction xs) auto

lemma size_in_catch [termination_simp]:
  assumes "(t, is) \<in> set catches" and "x \<in> set is"
  shows "size x < Suc (n + size_list (\<lambda>c. Suc (size_list size (snd c))) catches + k)"
  using size_in_list [OF assms(1), of "\<lambda>c. Suc (size_list size (snd c))"] size_in_list [OF assms(2), of size] by simp

fun collect_instr :: "wasm_instr \<Rightarrow> usage \<Rightarrow> usage" where
  "collect_instr (CallOp op funcIdx) u = use_func funcIdx u"
| "collect_instr (FuncRefOf funcIdx) u = use_func funcIdx u"
| "collect_instr (CallIndirectOp typeIdx tableIdx) u = use_type typeIdx u"
| "collect_instr (Typed op typeIdx) u = use_type typeIdx u"
| "collect_instr (StructField op typeIdx fieldIdx) u = use_type typeIdx u"
| "collect_instr (ArrayNewFixed typeIdx n) u = use_type typeIdx u"
| "collect_instr (ArrayCopy dstTypeIdx srcTypeIdx) u = use_type srcTypeIdx (use_type dstTypeIdx u)"
| "collect_instr (HeapType op typeIdx) u = use_type typeIdx u"
| "collect_instr (Block bt body) u = fold collect_instr body (collectBlockTypeRefs bt u)"
| "collect_instr (Loop bt body) u = fold collect_instr body (collectBlockTypeRefs bt u)"
| "collect_instr (If bt thn els) u =
     (let u = fold collect_instr thn (collectBlockTypeRefs bt u) in
      case els of None \<Rightarrow> u | Some es \<Rightarrow> fold collect_instr es u)"
| "collect_instr (Try bt body catches catchAll) u =
     (let u = fold collect_instr (concat (map snd catches)) (fold collect_instr body (collectBlockTypeRefs bt u)) in
      case catchAll of None \<Rightarrow> u | Some is \<Rightarrow> fold collect_instr is u)"
| "collect_instr (TryTable bt body catches) u = fold collect_instr body (collectBlockTypeRefs bt u)"
| "collect_instr i u = u"

definition collectRefsFromBody :: "wasm_instr list \<Rightarrow> usage \<Rightarrow> usage" where
  "collectRefsFromBody body = fold collect_instr body"

fun collectRefsFromTypeDef :: "type_def \<Rightarrow> int list \<Rightarrow> int list" where
  "collectRefsFromTypeDef (FuncType params results) used = fold collectRefsFromValType results (fold collectRefsFromValType params used)"
| "collectRefsFromTypeDef (StructType fs superTypeIdx isFinal) used =
     fold (\<lambda>f. collectRefsFromValType (fst f)) fs (case superTypeIdx of Some s \<Rightarrow> add_ref s used | None \<Rightarrow> used)"
| "collectRefsFromTypeDef (ArrayType element isMutable) used = collectRefsFromValType element used"
| "collectRefsFromTypeDef (RecGroup ts) used = fold collectRefsFromTypeDef ts used"
| "collectRefsFromTypeDef (SubType superType isFinal t) used =
     collectRefsFromTypeDef t (case superType of Some s \<Rightarrow> add_ref s used | None \<Rightarrow> used)"

section \<open>Remapping\<close>

text \<open>A \<open>Map\<close> from old to new indices, as the list of its entries.\<close>

type_synonym remap = "(int \<times> int) list"

definition moved :: "remap \<Rightarrow> int \<Rightarrow> int" where
  "moved r i = (case map_of r i of Some j \<Rightarrow> j | None \<Rightarrow> i)"

fun remapVT :: "remap \<Rightarrow> val_type \<Rightarrow> val_type" where
  "remapVT r (Ref typeIdx) = Ref (moved r typeIdx)"
| "remapVT r (RefNull typeIdx) = RefNull (moved r typeIdx)"
| "remapVT r vt = vt"

primrec remapTD :: "remap \<Rightarrow> type_def \<Rightarrow> type_def" where
  "remapTD r (FuncType params results) = FuncType (map (remapVT r) params) (map (remapVT r) results)"
| "remapTD r (StructType fs superTypeIdx isFinal) =
     StructType (map (\<lambda>f. (remapVT r (fst f), snd f)) fs) (map_option (moved r) superTypeIdx) isFinal"
| "remapTD r (ArrayType element isMutable) = ArrayType (remapVT r element) isMutable"
| "remapTD r (RecGroup ts) = RecGroup (map (remapTD r) ts)"
| "remapTD r (SubType superType isFinal t) = SubType (map_option (moved r) superType) isFinal (remapTD r t)"

fun remap_block_type :: "remap \<Rightarrow> block_type \<Rightarrow> block_type" where
  "remap_block_type r (TypeBlock typeIdx) = TypeBlock (moved r typeIdx)"
| "remap_block_type r (ValBlock t) = ValBlock (remapVT r t)"
| "remap_block_type r EmptyBlock = EmptyBlock"

text \<open>
  The visitor of \<open>remapLayoutInBodyShared\<close>. Every instruction of the model is remapped once, which is what the
  guard on shared objects achieves in the source.
\<close>

fun remap_fields :: "remap \<Rightarrow> remap \<Rightarrow> wasm_instr \<Rightarrow> wasm_instr" where
  "remap_fields fR tR (CallOp op funcIdx) = CallOp op (moved fR funcIdx)"
| "remap_fields fR tR (FuncRefOf funcIdx) = FuncRefOf (moved fR funcIdx)"
| "remap_fields fR tR (CallIndirectOp typeIdx tableIdx) = CallIndirectOp (moved tR typeIdx) tableIdx"
| "remap_fields fR tR (Typed op typeIdx) = Typed op (moved tR typeIdx)"
| "remap_fields fR tR (StructField op typeIdx fieldIdx) = StructField op (moved tR typeIdx) fieldIdx"
| "remap_fields fR tR (ArrayNewFixed typeIdx n) = ArrayNewFixed (moved tR typeIdx) n"
| "remap_fields fR tR (ArrayCopy dstTypeIdx srcTypeIdx) = ArrayCopy (moved tR dstTypeIdx) (moved tR srcTypeIdx)"
| "remap_fields fR tR (HeapType op typeIdx) = HeapType op (moved tR typeIdx)"
| "remap_fields fR tR (Block bt body) = Block (remap_block_type tR bt) body"
| "remap_fields fR tR (Loop bt body) = Loop (remap_block_type tR bt) body"
| "remap_fields fR tR (If bt thn els) = If (remap_block_type tR bt) thn els"
| "remap_fields fR tR (Try bt body catches catchAll) = Try (remap_block_type tR bt) body catches catchAll"
| "remap_fields fR tR (TryTable bt body catches) = TryTable (remap_block_type tR bt) body catches"
| "remap_fields fR tR i = i"

definition remap_instr :: "remap \<Rightarrow> remap \<Rightarrow> wasm_instr \<Rightarrow> wasm_instr" where
  "remap_instr fR tR = walk_instr (remap_fields fR tR)"

definition remapLayoutInBodyShared :: "remap \<Rightarrow> remap \<Rightarrow> wasm_instr list \<Rightarrow> wasm_instr list" where
  "remapLayoutInBodyShared fR tR body = map (remap_instr fR tR) body"

section \<open>The pass\<close>

subsection \<open>What is used\<close>

definition use_import :: "wasm_import \<Rightarrow> usage \<Rightarrow> usage" where
  "use_import imp u =
     (case im_desc imp of ImportTag typeIdx \<Rightarrow> use_type typeIdx u | ImportGlobal t mut \<Rightarrow> use_val_type t u | _ \<Rightarrow> u)"

definition use_export :: "wasm_export \<Rightarrow> usage \<Rightarrow> usage" where
  "use_export ex u = (if ex_kind ex = FuncKind then use_func (ex_index ex) u else u)"

definition use_function :: "wasm_function \<Rightarrow> usage \<Rightarrow> usage" where
  "use_function f u = fold use_val_type (fn_locals f) (use_type (fn_typeIdx f) (collectRefsFromBody (map fst (fn_body f)) u))"

definition use_global :: "wasm_global \<Rightarrow> usage \<Rightarrow> usage" where
  "use_global g u = use_val_type (gl_type g) (collectRefsFromBody (gl_init g) u)"

definition use_element :: "wasm_element \<Rightarrow> usage \<Rightarrow> usage" where
  "use_element el u = collectRefsFromBody (elem_offset el) (fold use_func (elem_funcIndices el) u)"

definition use_start :: "int option \<Rightarrow> usage \<Rightarrow> usage" where
  "use_start start u = (case start of None \<Rightarrow> u | Some h \<Rightarrow> use_func h u)"

definition used_roots :: "wasm_module \<Rightarrow> usage" where
  "used_roots m =
     (let numImpF = length (function_imports m);
          u = ([], case m_canonicalRecGroup m of None \<Rightarrow> [] | Some (start, fin) \<Rightarrow> map int [start..<Suc fin]);
          u = fold (\<lambda>i. use_func (int (numImpF + i))) [0..<length (m_functions m)] u;
          u = fold use_function (m_functions m) u;
          u = fold use_global (m_globals m) u;
          u = fold use_element (m_elements m) u;
          u = fold use_export (m_exports m) u;
          u = fold use_func (m_declaredFuncRefs m) u;
          u = use_start (m_startFuncIdx m) u;
          u = fold (\<lambda>t. use_type (tg_typeIdx t)) (m_tags m) u
      in fold use_import (m_imports m) u)"

text \<open>Phase 2: the ordinals of the dead function imports, and the types of the others.\<close>

definition dead_imports :: "wasm_module \<Rightarrow> int list \<Rightarrow> nat list" where
  "dead_imports m usedF = filter (\<lambda>i. int i \<notin> set usedF) [0..<length (function_imports m)]"

fun import_type :: "wasm_import \<Rightarrow> int" where
  "import_type imp = (case im_desc imp of ImportFunc typeIdx \<Rightarrow> typeIdx | _ \<Rightarrow> -1)"

definition use_live_imports :: "wasm_module \<Rightarrow> nat list \<Rightarrow> int list \<Rightarrow> int list" where
  "use_live_imports m deadF usedT =
     fold (\<lambda>(i, imp). if i \<in> set deadF then id else add_ref (import_type imp)) (List.enumerate 0 (function_imports m)) usedT"

text \<open>Phase 3: one round over the types found so far, and the rounds until nothing is added.\<close>

definition type_at :: "type_def list \<Rightarrow> int \<Rightarrow> type_def option" where
  "type_at types i = (if 0 \<le> i \<and> i < int (length types) then Some (types ! nat i) else None)"

definition close_round :: "type_def list \<Rightarrow> int list \<Rightarrow> int list" where
  "close_round types usedT =
     fold (\<lambda>ti used. case type_at types ti of None \<Rightarrow> used | Some td \<Rightarrow> collectRefsFromTypeDef td used) usedT usedT"

lemma set_add_ref: "set (add_ref r refs) = insert r (set refs)"
  by (auto simp: add_ref_def)

definition val_type_refs :: "val_type \<Rightarrow> int set" where
  "val_type_refs t = set (collectRefsFromValType t [])"

lemma val_type_refs_simps [simp]:
  "val_type_refs (Ref i) = {i}" "val_type_refs (RefNull i) = {i}"
  by (simp_all add: val_type_refs_def set_add_ref)

lemma set_collect_val_type: "set (collectRefsFromValType t used) = set used \<union> val_type_refs t"
  unfolding val_type_refs_def by (cases t) (auto simp: set_add_ref)

text \<open>The indices a type definition refers to.\<close>

primrec type_def_refs :: "type_def \<Rightarrow> int set" where
  "type_def_refs (FuncType params results) = \<Union> (val_type_refs ` set params) \<union> \<Union> (val_type_refs ` set results)"
| "type_def_refs (StructType fs superTypeIdx isFinal) = set_option superTypeIdx \<union> \<Union> ((\<lambda>f. val_type_refs (fst f)) ` set fs)"
| "type_def_refs (ArrayType element isMutable) = val_type_refs element"
| "type_def_refs (RecGroup ts) = \<Union> (set (map type_def_refs ts))"
| "type_def_refs (SubType superType isFinal t) = set_option superType \<union> type_def_refs t"

lemma set_fold_union: "(\<And>x used. x \<in> set xs \<Longrightarrow> set (f x used) = set used \<union> g x) \<Longrightarrow> set (fold f xs used) = set used \<union> \<Union> (g ` set xs)"
  by (induction xs arbitrary: used) auto

lemma set_collect_type_def: "set (collectRefsFromTypeDef td used) = set used \<union> type_def_refs td"
proof (induction td used rule: collectRefsFromTypeDef.induct)
  case (4 ts used)
  then have "set (fold collectRefsFromTypeDef ts used) = set used \<union> \<Union> (type_def_refs ` set ts)"
    by (rule set_fold_union)
  then show ?case by simp
qed (auto simp: set_fold_union [where g = val_type_refs] set_fold_union [where g = "\<lambda>f. val_type_refs (fst f)"]
    set_collect_val_type set_add_ref split: option.split)

lemma finite_val_type_refs: "finite (val_type_refs t)"
  by (simp add: val_type_refs_def)

lemma finite_type_def_refs: "finite (type_def_refs td)"
  by (induction td) (auto simp: finite_val_type_refs)

definition table_refs :: "type_def list \<Rightarrow> int set" where
  "table_refs types = \<Union> (type_def_refs ` set types)"

lemma set_close_round:
  "set (close_round types usedT) = set usedT \<union> \<Union> ((\<lambda>ti. case type_at types ti of None \<Rightarrow> {} | Some td \<Rightarrow> type_def_refs td) ` set usedT)"
  unfolding close_round_def by (rule set_fold_union) (auto simp: set_collect_type_def split: option.split)

lemma close_round_refs: "set (close_round types usedT) \<subseteq> set usedT \<union> table_refs types"
  unfolding set_close_round table_refs_def
  by (auto simp: type_at_def split: option.splits if_splits intro: nth_mem)

lemma finite_table_refs: "finite (table_refs types)"
  by (simp add: table_refs_def finite_type_def_refs)

text \<open>The size of a \<open>Set\<close> grows exactly when a new index is added, which can happen only finitely often.\<close>

function close_types :: "type_def list \<Rightarrow> int list \<Rightarrow> int list" where
  "close_types types usedT =
     (let next = close_round types usedT in
      if card (set next) > card (set usedT) then close_types types next else next)"
  by pat_completeness auto
termination
proof (relation "measure (\<lambda>(types, usedT). card (table_refs types - set usedT))", goal_cases)
  case (2 types usedT grown)
  have sub: "set usedT \<subseteq> set (close_round types usedT)" unfolding set_close_round by blast
  with 2 have "set usedT \<subset> set (close_round types usedT)" by auto
  with close_round_refs [of types usedT]
  have "table_refs types - set (close_round types usedT) \<subset> table_refs types - set usedT" by blast
  then show ?case using 2(1) by (simp add: psubset_card_mono finite_table_refs)
qed simp

declare close_types.simps [simp del]

subsection \<open>The remap tables\<close>

text \<open>The loop over the old indices: survivors that move, with their new index.\<close>

fun remap_loop :: "(nat \<Rightarrow> bool) \<Rightarrow> nat list \<Rightarrow> nat \<Rightarrow> (int \<times> int) list" where
  "remap_loop keep [] n = []"
| "remap_loop keep (x # xs) n =
     (if \<not> keep x then remap_loop keep xs n
      else (if x \<noteq> n then [(int x, int n)] else []) @ remap_loop keep xs (Suc n))"

definition function_remap :: "wasm_module \<Rightarrow> nat list \<Rightarrow> remap" where
  "function_remap m deadF =
     (if deadF = [] then []
      else remap_loop (\<lambda>x. x \<notin> set deadF) [0..<length (function_imports m) + length (m_functions m)] 0)"

definition type_remap :: "type_def list \<Rightarrow> int list \<Rightarrow> remap" where
  "type_remap types usedT = remap_loop (\<lambda>x. int x \<in> set usedT) [0..<length types] 0"

definition surviving_types :: "type_def list \<Rightarrow> int list \<Rightarrow> type_def list" where
  "surviving_types types usedT = map snd (filter (\<lambda>(i, td). int i \<in> set usedT) (List.enumerate 0 types))"

definition targetsByOldIndex :: "type_def list \<Rightarrow> int list \<Rightarrow> nat \<Rightarrow> int option" where
  "targetsByOldIndex types usedT i = (if int i \<in> set usedT then Some (moved (type_remap types usedT) (int i)) else None)"

subsection \<open>Applying them\<close>

fun drop_dead_imports :: "nat list \<Rightarrow> wasm_import list \<Rightarrow> nat \<Rightarrow> wasm_import list" where
  "drop_dead_imports deadF [] idx = []"
| "drop_dead_imports deadF (imp # imps) idx =
     (if desc_kind (im_desc imp) = FuncKind
      then (if idx \<in> set deadF then [] else [imp]) @ drop_dead_imports deadF imps (Suc idx)
      else imp # drop_dead_imports deadF imps idx)"

definition remap_import :: "remap \<Rightarrow> wasm_import \<Rightarrow> wasm_import" where
  "remap_import tR imp = imp\<lparr>im_desc :=
     (case im_desc imp of
        ImportFunc typeIdx \<Rightarrow> ImportFunc (moved tR typeIdx)
      | ImportTag typeIdx \<Rightarrow> ImportTag (moved tR typeIdx)
      | ImportGlobal t mut \<Rightarrow> ImportGlobal (remapVT tR t) mut
      | d \<Rightarrow> d)\<rparr>"

definition remap_function :: "remap \<Rightarrow> remap \<Rightarrow> wasm_function \<Rightarrow> wasm_function" where
  "remap_function fR tR f = f\<lparr>fn_body := map (\<lambda>(i, p). (remap_instr fR tR i, p)) (fn_body f),
     fn_typeIdx := moved tR (fn_typeIdx f), fn_locals := map (remapVT tR) (fn_locals f)\<rparr>"

definition remap_export :: "remap \<Rightarrow> wasm_export \<Rightarrow> wasm_export" where
  "remap_export fR ex = (if ex_kind ex = FuncKind then ex\<lparr>ex_index := moved fR (ex_index ex)\<rparr> else ex)"

definition remap_element :: "remap \<Rightarrow> remap \<Rightarrow> wasm_element \<Rightarrow> wasm_element" where
  "remap_element fR tR el = el\<lparr>elem_funcIndices := map (moved fR) (elem_funcIndices el),
     elem_offset := remapLayoutInBodyShared fR tR (elem_offset el)\<rparr>"

definition remap_global :: "remap \<Rightarrow> remap \<Rightarrow> wasm_global \<Rightarrow> wasm_global" where
  "remap_global fR tR g = g\<lparr>gl_type := remapVT tR (gl_type g), gl_init := remapLayoutInBodyShared fR tR (gl_init g)\<rparr>"

text \<open>
  The canonical group of the runtime moves with its types; an index past the table, for which the source would
  store \<open>undefined\<close>, is an error of the model.
\<close>

datatype elimination_error = CanonicalGroupRemoved | CanonicalGroupPastTable

definition moved_group :: "type_def list \<Rightarrow> int list \<Rightarrow> nat \<times> nat \<Rightarrow> elimination_error + (nat \<times> nat)" where
  "moved_group types usedT = (\<lambda>(start, fin).
     if start \<ge> length types \<or> fin \<ge> length types then Inl CanonicalGroupPastTable
     else case (targetsByOldIndex types usedT start, targetsByOldIndex types usedT fin) of
         (Some s, Some e) \<Rightarrow> Inr (nat s, nat e)
       | _ \<Rightarrow> Inl CanonicalGroupRemoved)"

definition apply_remap :: "remap \<Rightarrow> remap \<Rightarrow> wasm_module \<Rightarrow> wasm_module" where
  "apply_remap fR tR m = m\<lparr>
     m_functions := map (remap_function fR tR) (m_functions m),
     m_imports := map (remap_import tR) (m_imports m),
     m_exports := map (remap_export fR) (m_exports m),
     m_elements := map (remap_element fR tR) (m_elements m),
     m_declaredFuncRefs := map (moved fR) (m_declaredFuncRefs m),
     m_startFuncIdx := map_option (moved fR) (m_startFuncIdx m),
     m_globals := map (remap_global fR tR) (m_globals m),
     m_tags := map (\<lambda>t. t\<lparr>tg_typeIdx := moved tR (tg_typeIdx t)\<rparr>) (m_tags m)\<rparr>"

text \<open>The types that are used, the dead function imports, and the pass as a whole.\<close>

definition dead_of :: "wasm_module \<Rightarrow> nat list" where
  "dead_of m = dead_imports m (fst (used_roots m))"

definition used_types :: "wasm_module \<Rightarrow> int list" where
  "used_types m = close_types (m_types m) (use_live_imports m (dead_of m) (snd (used_roots m)))"

definition eliminateDeadImports :: "wasm_module \<Rightarrow> elimination_error + wasm_module" where
  "eliminateDeadImports m =
     (let deadF = dead_of m; usedT = used_types m; types = m_types m;
          fR = function_remap m deadF; tR = type_remap types usedT;
          surv = surviving_types types usedT; rem = length types - length surv;
          nextTypes = (if rem > 0 then map (remapTD tR) surv else types)
      in if fR = [] \<and> tR = [] \<and> deadF = [] \<and> rem = 0 then Inr m
         else
           (let m1 = (if deadF \<noteq> [] then m\<lparr>m_imports := drop_dead_imports deadF (m_imports m) 0\<rparr> else m) in
            rbind (if rem > 0 then
                     (case m_canonicalRecGroup m of
                        None \<Rightarrow> Inr (m1\<lparr>m_types := nextTypes\<rparr>)
                      | Some g \<Rightarrow> rbind (moved_group types usedT g) (\<lambda>g'.
                          Inr (m1\<lparr>m_types := nextTypes, m_canonicalRecGroup := Some g'\<rparr>)))
                   else Inr m1)
              (\<lambda>m2. Inr (apply_remap fR tR m2))))"

subsection \<open>The side tables of the code generator\<close>

definition remap_map :: "remap \<Rightarrow> (string \<times> int) list \<Rightarrow> (string \<times> int) list" where
  "remap_map fR = map (\<lambda>(name, idx). (name, moved fR idx))"

definition remap_trampoline :: "remap \<Rightarrow> trampoline \<Rightarrow> trampoline" where
  "remap_trampoline fR t = t\<lparr>tr_methodFuncIdx := moved fR (tr_methodFuncIdx t), tr_trampolineFuncIdx := moved fR (tr_trampolineFuncIdx t)\<rparr>"

definition remap_side_tables :: "remap \<Rightarrow> codegen_ctx \<Rightarrow> codegen_ctx" where
  "remap_side_tables fR ctx =
     (if fR = [] then ctx
      else ctx\<lparr>cg_funcMap := remap_map fR (cg_funcMap ctx),
        cg_nativeStrHelpers := remap_map fR (cg_nativeStrHelpers ctx),
        cg_nativeRegexHelpers := remap_map fR (cg_nativeRegexHelpers ctx),
        cg_mapHelpers := remap_map fR (cg_mapHelpers ctx),
        cg_pendingMethodTrampolines := map (remap_trampoline fR) (cg_pendingMethodTrampolines ctx)\<rparr>)"

text \<open>The pass with a context, as the code generator calls it.\<close>

definition eliminate_with_context :: "codegen_ctx \<Rightarrow> elimination_error + codegen_ctx" where
  "eliminate_with_context ctx =
     rbind (eliminateDeadImports (cg_mod ctx)) (\<lambda>m'.
       Inr (remap_side_tables (function_remap (cg_mod ctx) (dead_of (cg_mod ctx))) (ctx\<lparr>cg_mod := m'\<rparr>)))"

end
