(* ===== verification/DeadEliminationKept.thy ===== *)
theory DeadEliminationKept
  imports DeadElimination
begin

text \<open>
  What dead elimination keeps: every use that remains denotes what it denoted, renumbered; a module whose indices
  are in range stays so; nothing dead is left.
\<close>

section \<open>Compaction\<close>

text \<open>The new index of a survivor is the number of survivors before it.\<close>

definition rank :: "(nat \<Rightarrow> bool) \<Rightarrow> nat \<Rightarrow> nat" where
  "rank keep x = length (filter keep [0..<x])"

lemma rank_Suc: "rank keep (Suc x) = rank keep x + (if keep x then 1 else 0)"
  by (simp add: rank_def)

lemma rank_mono: "x \<le> y \<Longrightarrow> rank keep x \<le> rank keep y"
  by (induction rule: dec_induct) (simp_all add: rank_Suc)

lemma rank_le: "rank keep x \<le> x"
  by (induction x) (simp_all add: rank_Suc, simp add: rank_def)

lemma rank_less: "keep x \<Longrightarrow> x < y \<Longrightarrow> rank keep x < rank keep y"
  using rank_mono [of "Suc x" y keep] by (simp add: rank_Suc)

lemma rank_inj: "keep x \<Longrightarrow> keep y \<Longrightarrow> rank keep x = rank keep y \<Longrightarrow> x = y"
  using rank_less [of keep x y] rank_less [of keep y x] by (metis less_irrefl linorder_neqE_nat)

lemma nth_filter_rank: "keep x \<Longrightarrow> x < n \<Longrightarrow> filter keep [0..<n] ! rank keep x = x"
proof -
  assume "keep x" "x < n"
  then have "[0..<n] = [0..<x] @ x # [Suc x..<n]"
    by (metis less_imp_le_nat upt_add_eq_append upt_conv_Cons le_add_diff_inverse zero_le)
  then have "filter keep [0..<n] = filter keep [0..<x] @ x # filter keep [Suc x..<n]" using \<open>keep x\<close> by simp
  then show ?thesis by (simp add: rank_def nth_append)
qed

lemma rank_surj: "k < rank keep n \<Longrightarrow> \<exists>x < n. keep x \<and> rank keep x = k"
proof (induction n)
  case (Suc n)
  then show ?case by (cases "k < rank keep n") (auto simp: rank_Suc less_Suc_eq split: if_splits)
qed (simp add: rank_def)

lemma filter_enumerate: "map snd (filter (\<lambda>(i, y). keep i) (List.enumerate 0 ys)) = map ((!) ys) (filter keep [0..<length ys])"
  by (induction ys rule: rev_induct) (auto simp: enumerate_append_eq nth_append intro!: map_cong)

lemma remap_loop_lookup:
  "map_of (remap_loop keep [a..<b] n) (int x)
     = (if a \<le> x \<and> x < b \<and> keep x \<and> x \<noteq> n + length (filter keep [a..<x]) then Some (int (n + length (filter keep [a..<x]))) else None)"
proof (induction "b - a" arbitrary: a n)
  case 0
  then show ?case by simp
next
  case (Suc d)
  then have ab: "a < b" "d = b - Suc a" by simp_all
  have list: "[a..<b] = a # [Suc a..<b]" using ab(1) by (rule upt_conv_Cons)
  note ih = Suc.hyps(1) [OF ab(2)]
  show ?case
  proof (cases "a < x")
    case True
    then have "[a..<x] = a # [Suc a..<x]" by (rule upt_conv_Cons)
    with True ab(1) ih show ?thesis unfolding list by auto
  next
    case False
    then have "[a..<x] = []" by simp
    with False ab(1) ih show ?thesis unfolding list by auto
  qed
qed

lemma moved_by_loop:
  "moved (remap_loop keep [0..<b] 0) (int x) = (if x < b \<and> keep x then int (rank keep x) else int x)"
  by (simp add: moved_def remap_loop_lookup rank_def)

lemma remap_loop_domain: "i \<in> fst ` set (remap_loop keep xs n) \<Longrightarrow> i \<in> int ` set xs"
  by (induction keep xs n rule: remap_loop.induct) (auto split: if_splits)

lemma moved_negative: "i < 0 \<Longrightarrow> moved (remap_loop keep xs n) i = i"
proof -
  assume "i < 0"
  then have "i \<notin> int ` set xs" by auto
  then have "i \<notin> fst ` set (remap_loop keep xs n)" using remap_loop_domain by blast
  then have "map_of (remap_loop keep xs n) i = None" by (simp only: map_of_eq_None_iff not_False_eq_True)
  then show ?thesis by (simp add: moved_def)
qed

text \<open>A step of the collection adds exactly the indices of some uses.\<close>

definition collects :: "(usage \<Rightarrow> usage) \<Rightarrow> index_use list \<Rightarrow> bool" where
  "collects step us \<longleftrightarrow> (\<forall>u. set (fst (step u)) = set (fst u) \<union> funcs_of us \<and> set (snd (step u)) = set (snd u) \<union> types_of us)"

lemma collectsI:
  "(\<And>u. set (fst (step u)) = set (fst u) \<union> funcs_of us) \<Longrightarrow> (\<And>u. set (snd (step u)) = set (snd u) \<union> types_of us) \<Longrightarrow> collects step us"
  by (simp add: collects_def)

lemma collectsD:
  assumes "collects step us"
  shows "set (fst (step u)) = set (fst u) \<union> funcs_of us" and "set (snd (step u)) = set (snd u) \<union> types_of us"
  using assms unfolding collects_def by blast+

lemma collects_id: "collects (\<lambda>u. u) []"
  by (rule collectsI) simp_all

lemma collects_seq: "collects v us \<Longrightarrow> collects w vs \<Longrightarrow> collects (\<lambda>u. w (v u)) (us @ vs)"
  by (rule collectsI) (simp_all add: collectsD [of v us] collectsD [of w vs] Un_assoc)

lemma collects_fold: "(\<And>x. x \<in> set xs \<Longrightarrow> collects (f x) (g x)) \<Longrightarrow> collects (fold f xs) (concat (map g xs))"
proof (induction xs)
  case Nil
  show ?case by (rule collectsI) simp_all
next
  case (Cons x xs)
  then have "collects (\<lambda>u. fold f xs (f x u)) (g x @ concat (map g xs))" by (intro collects_seq) simp_all
  then show ?case by (simp add: comp_def)
qed

lemma collects_same: "collects step us \<Longrightarrow> funcs_of vs = funcs_of us \<Longrightarrow> types_of vs = types_of us \<Longrightarrow> collects step vs"
  by (rule collectsI) (simp_all add: collectsD [of step us])

lemma collects_func: "collects (use_func h) [FunctionUse h]"
  by (rule collectsI) (auto simp: use_func_def set_add_ref case_prod_unfold)

lemma collects_type: "use_types use = {i} \<Longrightarrow> use_funcs use = {} \<Longrightarrow> collects (use_type i) [use]"
  by (rule collectsI) (auto simp: use_type_def set_add_ref case_prod_unfold)

lemma collects_val_type: "collects (use_val_type t) (val_type_uses t)"
  by (rule collectsI; cases t) (auto simp: use_val_type_def set_add_ref case_prod_unfold)

lemma collects_block_type: "collects (collectBlockTypeRefs bt) (block_type_uses bt)"
proof (cases bt)
  case EmptyBlock
  then show ?thesis by (intro collectsI) simp_all
next
  case (ValBlock t)
  with collects_val_type [of t] show ?thesis by (simp add: collects_def)
next
  case (TypeBlock i)
  with collects_type [of "BlockTypeUse i" i] show ?thesis by (simp add: collects_def)
qed

lemma no_catch_uses: "funcs_of (concat (map catch_uses clauses)) = {}" "types_of (concat (map catch_uses clauses)) = {}"
  by (auto simp: catch_uses_def split: option.splits if_splits)

lemma collects_instr: "collects (collect_instr i) (instr_uses i)"
proof (induction i rule: instr_uses.induct)
  case (1 bt body)
  from collects_seq [OF collects_block_type collects_fold [OF 1]] show ?case by (simp add: collects_def)
next
  case (2 bt body)
  from collects_seq [OF collects_block_type collects_fold [OF 2]] show ?case by (simp add: collects_def)
next
  case (3 bt thn els)
  note t = collects_seq [OF collects_block_type collects_fold [OF 3(1)]]
  show ?case
  proof (cases els)
    case None
    with t show ?thesis by (simp add: collects_def Let_def)
  next
    case (Some es)
    from collects_seq [OF t collects_fold [OF 3(2) [OF Some]]] Some show ?thesis by (simp add: collects_def Let_def Un_assoc)
  qed
next
  case (15 bt body clauses)
  from collects_seq [OF collects_block_type collects_fold [OF 15]]
  have "collects (\<lambda>u. fold collect_instr body (collectBlockTypeRefs bt u)) (instr_uses (TryTable bt body clauses))"
    by (rule collects_same) (simp_all add: no_catch_uses [simplified])
  then show ?case by (simp add: collects_def)
next
  case (16 bt body clauses catchAll)
  have "collects (fold collect_instr (concat (map snd clauses))) (concat (map instr_uses (concat (map snd clauses))))"
    by (rule collects_fold) (use 16(2) in auto)
  note t = collects_seq [OF collects_seq [OF collects_block_type collects_fold [OF 16(1)]] this]
  show ?case
  proof (cases catchAll)
    case None
    have "collects (\<lambda>u. fold collect_instr (concat (map snd clauses)) (fold collect_instr body (collectBlockTypeRefs bt u)))
        (instr_uses (Try bt body clauses catchAll))"
      by (rule collects_same [OF t]) (auto simp: None)
    then show ?thesis by (simp add: collects_def Let_def None)
  next
    case (Some js)
    have "collects (\<lambda>u. fold collect_instr js (fold collect_instr (concat (map snd clauses)) (fold collect_instr body (collectBlockTypeRefs bt u))))
        (instr_uses (Try bt body clauses catchAll))"
      by (rule collects_same [OF collects_seq [OF t collects_fold [OF 16(3) [OF Some]]]]) (auto simp: Some)
    then show ?thesis by (simp add: collects_def Let_def Some)
  qed
qed (rule collectsI; auto simp: use_type_def use_func_def set_add_ref case_prod_unfold)+

lemma collects_body: "collects (collectRefsFromBody is) (body_uses is)"
  unfolding collectRefsFromBody_def body_uses_def by (rule collects_fold) (rule collects_instr)

lemma collects_function: "collects (use_function f) (function_uses f)"
  using collects_seq [OF collects_seq [OF collects_body collects_type] collects_fold [OF collects_val_type], of "TypeUse (fn_typeIdx f)" "fn_typeIdx f"]
  by (simp add: function_uses_def use_function_def [abs_def])

lemma collects_global: "collects (use_global g) (global_uses g)"
  unfolding global_uses_def use_global_def [abs_def] by (rule collects_seq [OF collects_body collects_val_type])

lemma collects_funcs: "collects (fold use_func hs) (map FunctionUse hs)"
  using collects_fold [of hs use_func "\<lambda>h. [FunctionUse h]"] collects_func by (simp add: concat_map_singleton)

lemma collects_element: "collects (use_element el) (element_uses el)"
  unfolding element_uses_def use_element_def [abs_def] by (rule collects_seq [OF collects_funcs collects_body])

lemma collects_export: "collects (use_export ex) (export_uses ex)"
proof (cases "ex_kind ex = FuncKind")
  case True
  then have "use_export ex = use_func (ex_index ex)" by (auto simp: use_export_def)
  with True collects_func show ?thesis by (simp add: export_uses_def)
next
  case False
  then have "use_export ex = (\<lambda>u. u)" by (auto simp: use_export_def)
  with False collects_id show ?thesis by (simp add: export_uses_def)
qed

lemma collects_import: "collects (use_import imp) (import_uses imp)"
proof -
  have "use_import imp = (case im_desc imp of ImportTag typeIdx \<Rightarrow> use_type typeIdx | ImportGlobal t mut \<Rightarrow> use_val_type t | _ \<Rightarrow> (\<lambda>u. u))"
    by (auto simp: use_import_def split: import_desc.split)
  then show ?thesis
    using collects_val_type collects_id collects_type [of "TypeUse typeIdx" typeIdx for typeIdx]
    by (auto simp: import_uses_def split: import_desc.split)
qed

lemma collects_start: "collects (use_start s) (case s of None \<Rightarrow> [] | Some h \<Rightarrow> [FunctionUse h])"
  using collects_id collects_func by (cases s) (auto simp: use_start_def [abs_def])

lemma collects_tags: "collects (fold (\<lambda>t. use_type (tg_typeIdx t)) tags) (map (\<lambda>t. TypeUse (tg_typeIdx t)) tags)"
  using collects_fold [of tags "\<lambda>t. use_type (tg_typeIdx t)" "\<lambda>t. [TypeUse (tg_typeIdx t)]"] collects_type
  by (simp add: concat_map_singleton)

definition group_types :: "wasm_module \<Rightarrow> int set" where
  "group_types m = (case m_canonicalRecGroup m of None \<Rightarrow> {} | Some (start, fin) \<Rightarrow> {int start .. int fin})"

definition local_functions :: "wasm_module \<Rightarrow> int set" where
  "local_functions m = {int (length (function_imports m)) ..< int (length (function_imports m) + length (m_functions m))}"

lemma used_roots_sets:
  "set (fst (used_roots m)) = local_functions m \<union> funcs_of (module_uses m)"
  "set (snd (used_roots m)) = group_types m \<union> types_of (module_uses m)"
proof -
  let ?n = "length (function_imports m)"
  let ?locals = "map (\<lambda>i. int (?n + i)) [0..<length (m_functions m)]"
  let ?init = "([], case m_canonicalRecGroup m of None \<Rightarrow> [] | Some (start, fin) \<Rightarrow> map int [start..<Suc fin])"
  have lf: "funcs_of (map FunctionUse ?locals) = set ?locals" "types_of (map FunctionUse ?locals) = {}"
    by (simp_all only: funcs_of_simps types_of_simps)
  have locals: "collects (fold (\<lambda>i. use_func (int (?n + i))) [0..<length (m_functions m)]) (map FunctionUse ?locals)"
    using collects_funcs [of ?locals] by (simp add: fold_map comp_def)
  note fs = collects_seq [OF locals collects_fold [of "m_functions m" use_function function_uses, OF collects_function]]
  note gs = collects_seq [OF fs collects_fold [of "m_globals m" use_global global_uses, OF collects_global]]
  note es = collects_seq [OF gs collects_fold [of "m_elements m" use_element element_uses, OF collects_element]]
  note xs = collects_seq [OF es collects_fold [of "m_exports m" use_export export_uses, OF collects_export]]
  note ds = collects_seq [OF xs collects_funcs [of "m_declaredFuncRefs m"]]
  note ts = collects_seq [OF collects_seq [OF ds collects_start [of "m_startFuncIdx m"]] collects_tags [of "m_tags m"]]
  note steps = collects_seq [OF ts collects_fold [of "m_imports m" use_import import_uses, OF collects_import]]
  note s = collectsD [OF steps, of ?init]
  have l: "set ?locals = local_functions m"
  proof -
    have "set ?locals = int ` ((+) ?n ` {0..<length (m_functions m)})" by (auto simp: image_def)
    then show ?thesis by (simp add: local_functions_def image_add_atLeastLessThan image_int_atLeastLessThan add.commute)
  qed
  have g: "set (snd ?init) = group_types m"
    by (auto simp: group_types_def image_int_atLeastAtMost atLeastLessThanSuc_atLeastAtMost simp del: upt_Suc split: option.split)
  show "set (fst (used_roots m)) = local_functions m \<union> funcs_of (module_uses m)"
    using s(1) unfolding funcs_of_simps lf l by (simp add: used_roots_def Let_def module_uses_def Un_assoc)
  show "set (snd (used_roots m)) = group_types m \<union> types_of (module_uses m)"
    using s(2) unfolding types_of_simps lf g by (simp add: used_roots_def Let_def module_uses_def Un_assoc)
qed

section \<open>Reachable types\<close>

inductive reaches :: "type_def list \<Rightarrow> int set \<Rightarrow> int \<Rightarrow> bool" for types roots where
  root: "i \<in> roots \<Longrightarrow> reaches types roots i"
| ref: "reaches types roots i \<Longrightarrow> type_at types i = Some td \<Longrightarrow> j \<in> type_def_refs td \<Longrightarrow> reaches types roots j"

lemma reaches_trans: "reaches types S i \<Longrightarrow> (\<And>j. j \<in> S \<Longrightarrow> reaches types roots j) \<Longrightarrow> reaches types roots i"
  by (induction rule: reaches.induct) (auto intro: reaches.ref)

lemma close_round_reaches: "i \<in> set (close_round types usedT) \<Longrightarrow> reaches types (set usedT) i"
  unfolding set_close_round by (auto intro: reaches.intros split: option.splits)

lemma close_types_reaches: "set (close_types types usedT) = {i. reaches types (set usedT) i}"
proof (induction types usedT rule: close_types.induct)
  case (1 types usedT)
  have sub: "set usedT \<subseteq> set (close_round types usedT)" unfolding set_close_round by blast
  show ?case
  proof (cases "card (set (close_round types usedT)) > card (set usedT)")
    case True
    then have "set (close_types types usedT) = {i. reaches types (set (close_round types usedT)) i}"
      using "1.IH" by (simp add: close_types.simps [of types usedT] Let_def)
    also have "\<dots> = {i. reaches types (set usedT) i}"
    proof
      show "{i. reaches types (set (close_round types usedT)) i} \<subseteq> {i. reaches types (set usedT) i}"
        using reaches_trans [OF _ close_round_reaches] by blast
      show "{i. reaches types (set usedT) i} \<subseteq> {i. reaches types (set (close_round types usedT)) i}"
        using reaches_trans [of types "set usedT" _ "set (close_round types usedT)"] reaches.root sub by blast
    qed
    finally show ?thesis .
  next
    case False
    with sub have same: "set (close_round types usedT) = set usedT"
      by (metis List.finite_set card_seteq linorder_not_less)
    have "i \<in> set usedT" if "reaches types (set usedT) i" for i
      using that
    proof induction
      case (ref i td j)
      then have "j \<in> set (close_round types usedT)" unfolding set_close_round by force
      then show ?case unfolding same .
    qed
    moreover have "set (close_types types usedT) = set usedT"
      using False same by (simp add: close_types.simps [of types usedT] Let_def)
    ultimately show ?thesis by (auto intro: reaches.root)
  qed
qed

text \<open>A function import is live when some use names it.\<close>

definition live_imports :: "wasm_module \<Rightarrow> nat set" where
  "live_imports m = {i. i < length (function_imports m) \<and> int i \<in> funcs_of (module_uses m)}"

definition root_types :: "wasm_module \<Rightarrow> int set" where
  "root_types m = group_types m \<union> types_of (module_uses m) \<union> (\<lambda>i. import_type (function_imports m ! i)) ` live_imports m"

lemma dead_of_iff: "i \<in> set (dead_of m) \<longleftrightarrow> i < length (function_imports m) \<and> i \<notin> live_imports m"
  by (auto simp: dead_of_def dead_imports_def used_roots_sets local_functions_def live_imports_def)

lemma set_fold_enumerate:
  "set (fold (\<lambda>(i, x). if P i then id else add_ref (f x)) (List.enumerate n xs) used)
     = set used \<union> (\<lambda>i. f (xs ! i)) ` {i. i < length xs \<and> \<not> P (n + i)}"
proof (induction xs arbitrary: n used)
  case (Cons x xs)
  have "{i. i < length (x # xs) \<and> \<not> P (n + i)} = (if P n then {} else {0}) \<union> Suc ` {i. i < length xs \<and> \<not> P (Suc n + i)}"
    by (auto simp: image_iff less_Suc_eq_0_disj)
  then have "(\<lambda>i. f ((x # xs) ! i)) ` {i. i < length (x # xs) \<and> \<not> P (n + i)}
      = (if P n then {} else {f x}) \<union> (\<lambda>i. f (xs ! i)) ` {i. i < length xs \<and> \<not> P (Suc n + i)}"
    by (simp add: image_Un image_image)
  then show ?case by (simp add: Cons.IH set_add_ref)
qed simp

lemma use_live_imports_set:
  "set (use_live_imports m (dead_of m) (snd (used_roots m))) = root_types m"
proof -
  have "{i. i < length (function_imports m) \<and> i \<notin> set (dead_of m)} = live_imports m"
    by (auto simp: dead_of_iff live_imports_def)
  then show ?thesis
    using set_fold_enumerate [of "\<lambda>i. i \<in> set (dead_of m)" import_type 0 "function_imports m" "snd (used_roots m)"]
    by (simp add: use_live_imports_def used_roots_sets root_types_def)
qed

lemma used_types_set: "set (used_types m) = {i. reaches (m_types m) (root_types m) i}"
  by (simp add: used_types_def close_types_reaches use_live_imports_set)

section \<open>Remapped uses\<close>

lemma remapVT_renumber: "remapVT tR vt = renumber_val (moved tR) vt"
  by (cases vt) simp_all

lemma remap_block_renumber: "remap_block_type tR bt = renumber_block (moved tR) bt"
  by (cases bt) (simp_all add: remapVT_renumber)

lemma remap_instr_renumber: "remap_instr fR tR = walk_instr (renumber_fields (moved fR) (moved tR))"
proof -
  have "remap_fields fR tR i = renumber_fields (moved fR) (moved tR) i" for i by (cases i) (simp_all add: remap_block_renumber)
  then have "remap_fields fR tR = renumber_fields (moved fR) (moved tR)" ..
  then show ?thesis by (simp add: remap_instr_def)
qed

lemma val_type_uses_moved: "val_type_uses (remapVT tR t) = map (move_use (moved fR) (moved tR)) (val_type_uses t)"
  by (simp add: remapVT_renumber val_type_uses_renumbered)

lemma body_uses_moved: "body_uses (map (remap_instr fR tR) is) = map (move_use (moved fR) (moved tR)) (body_uses is)"
  by (simp add: remap_instr_renumber body_uses_renumbered)

lemma function_uses_moved: "function_uses (remap_function fR tR f) = map (move_use (moved fR) (moved tR)) (function_uses f)"
proof -
  have "map fst (fn_body (remap_function fR tR f)) = map (remap_instr fR tR) (map fst (fn_body f))"
    by (simp add: remap_function_def comp_def case_prod_unfold)
  then have "body_uses (map fst (fn_body (remap_function fR tR f))) = map (move_use (moved fR) (moved tR)) (body_uses (map fst (fn_body f)))"
    by (simp only: body_uses_moved)
  moreover have "concat (map val_type_uses (map (remapVT tR) (fn_locals f))) = map (move_use (moved fR) (moved tR)) (concat (map val_type_uses (fn_locals f)))"
    by (simp add: map_concat comp_def val_type_uses_moved [of tR _ fR])
  moreover have "fn_typeIdx (remap_function fR tR f) = moved tR (fn_typeIdx f)"
    "fn_locals (remap_function fR tR f) = map (remapVT tR) (fn_locals f)" by (simp_all add: remap_function_def)
  ultimately show ?thesis by (simp only: function_uses_def map_append list.map move_use.simps)
qed

lemma global_uses_moved: "global_uses (remap_global fR tR g) = map (move_use (moved fR) (moved tR)) (global_uses g)"
  by (simp add: global_uses_def remap_global_def remapLayoutInBodyShared_def body_uses_moved val_type_uses_moved [of tR _ fR])

lemma element_uses_moved: "element_uses (remap_element fR tR el) = map (move_use (moved fR) (moved tR)) (element_uses el)"
  by (simp add: element_uses_def remap_element_def remapLayoutInBodyShared_def body_uses_moved)

lemma export_uses_moved: "export_uses (remap_export fR ex) = map (move_use (moved fR) (moved tR)) (export_uses ex)"
  by (simp add: export_uses_def remap_export_def)

lemma import_uses_moved: "import_uses (remap_import tR imp) = map (move_use (moved fR) (moved tR)) (import_uses imp)"
  by (cases "im_desc imp") (simp_all add: import_uses_def remap_import_def val_type_uses_moved [of tR _ fR])

lemma module_uses_moved: "module_uses (apply_remap fR tR m) = map (move_use (moved fR) (moved tR)) (module_uses m)"
  by (simp add: module_uses_def apply_remap_def map_concat comp_def function_uses_moved global_uses_moved element_uses_moved
      export_uses_moved [of fR _ tR] import_uses_moved [of tR _ fR] split: option.split)

text \<open>Dropping function imports drops none of these uses.\<close>

lemma dropped_import_uses: "concat (map import_uses (drop_dead_imports deadF imps idx)) = concat (map import_uses imps)"
  by (induction imps arbitrary: idx) (auto simp: import_uses_def split: import_desc.split)

lemma dropped_others:
  "k \<noteq> FuncKind \<Longrightarrow> filter (\<lambda>imp. desc_kind (im_desc imp) = k) (drop_dead_imports deadF imps idx)
     = filter (\<lambda>imp. desc_kind (im_desc imp) = k) imps"
  by (induction imps arbitrary: idx) auto

lemma dropped_functions:
  "filter (\<lambda>imp. desc_kind (im_desc imp) = FuncKind) (drop_dead_imports deadF imps idx)
     = map snd (filter (\<lambda>(i, imp). i \<notin> set deadF) (List.enumerate idx (filter (\<lambda>imp. desc_kind (im_desc imp) = FuncKind) imps)))"
  by (induction imps arbitrary: idx) auto

section \<open>What the pass does\<close>

text \<open>The remapping of function handles and of types.\<close>

definition func_map :: "wasm_module \<Rightarrow> remap" where
  "func_map m = function_remap m (dead_of m)"

definition type_map :: "wasm_module \<Rightarrow> remap" where
  "type_map m = type_remap (m_types m) (used_types m)"

definition kept_func :: "wasm_module \<Rightarrow> nat \<Rightarrow> bool" where
  "kept_func m i \<longleftrightarrow> i \<notin> set (dead_of m)"

definition kept_type :: "wasm_module \<Rightarrow> nat \<Rightarrow> bool" where
  "kept_type m i \<longleftrightarrow> int i \<in> set (used_types m)"

lemma rank_all: "(\<And>i. i < x \<Longrightarrow> keep i) \<Longrightarrow> rank keep x = x"
  by (induction x) (simp_all add: rank_Suc, simp add: rank_def)

lemma moved_func: "moved (func_map m) (int i) = (if i < num_funcs m \<and> kept_func m i then int (rank (kept_func m) i) else int i)"
proof (cases "dead_of m = []")
  case True
  then have "rank (kept_func m) i = i" by (intro rank_all) (simp add: kept_func_def)
  with True show ?thesis by (simp add: func_map_def function_remap_def moved_def)
next
  case False
  then show ?thesis
    by (simp add: func_map_def function_remap_def moved_by_loop num_funcs_def kept_func_def [abs_def])
qed

lemma moved_func_negative: "h < 0 \<Longrightarrow> moved (func_map m) h = h"
  by (simp add: func_map_def function_remap_def moved_negative) (simp add: moved_def)

lemma moved_type: "moved (type_map m) (int i) = (if i < length (m_types m) \<and> kept_type m i then int (rank (kept_type m) i) else int i)"
  by (simp add: type_map_def type_remap_def moved_by_loop kept_type_def [abs_def])

lemma moved_type_negative: "i < 0 \<Longrightarrow> moved (type_map m) i = i"
  by (simp add: type_map_def type_remap_def moved_negative)

text \<open>The types that remain, and their number.\<close>

lemma surviving_types_nth: "surviving_types (m_types m) (used_types m) = map ((!) (m_types m)) (filter (kept_type m) [0..<length (m_types m)])"
  unfolding surviving_types_def filter_enumerate kept_type_def [abs_def] by (rule refl)

lemma length_surviving: "length (surviving_types (m_types m) (used_types m)) = rank (kept_type m) (length (m_types m))"
  by (simp add: surviving_types_nth rank_def)

lemma rank_full: "rank keep n = n \<Longrightarrow> i < n \<Longrightarrow> keep i"
proof (induction n)
  case (Suc n)
  have "keep n \<and> rank keep n = n" using Suc.prems(1) rank_le [of keep n] by (cases "keep n") (simp_all add: rank_Suc)
  with Suc show ?case by (auto simp: less_Suc_eq)
qed simp

text \<open>The module in the case where something is removed or moved, and in the other.\<close>

definition compacted :: "wasm_module \<Rightarrow> wasm_module \<Rightarrow> bool" where
  "compacted m m' \<longleftrightarrow>
     m_types m' = map (remapTD (type_map m)) (surviving_types (m_types m) (used_types m))
     \<and> m_imports m' = map (remap_import (type_map m)) (drop_dead_imports (dead_of m) (m_imports m) 0)
     \<and> m_functions m' = map (remap_function (func_map m) (type_map m)) (m_functions m)
     \<and> m_exports m' = map (remap_export (func_map m)) (m_exports m)
     \<and> m_elements m' = map (remap_element (func_map m) (type_map m)) (m_elements m)
     \<and> m_globals m' = map (remap_global (func_map m) (type_map m)) (m_globals m)
     \<and> m_tags m' = map (\<lambda>t. t\<lparr>tg_typeIdx := moved (type_map m) (tg_typeIdx t)\<rparr>) (m_tags m)
     \<and> m_declaredFuncRefs m' = map (moved (func_map m)) (m_declaredFuncRefs m)
     \<and> m_startFuncIdx m' = map_option (moved (func_map m)) (m_startFuncIdx m)
     \<and> m_tables m' = m_tables m \<and> m_memories m' = m_memories m \<and> m_dataSegments m' = m_dataSegments m
     \<and> m_funcOrdinalToPosition m' = m_funcOrdinalToPosition m"

text \<open>A table that moves nothing changes nothing.\<close>

lemma remapVT_id: "moved r = id \<Longrightarrow> remapVT r = id"
proof
  show "remapVT r t = id t" if "moved r = id" for t using that by (cases t) simp_all
qed

lemma remapTD_id: "moved r = id \<Longrightarrow> remapTD r = id"
proof
  assume r: "moved r = id"
  show "remapTD r t = id t" for t
  proof (induction t)
    case (RecGroup ts)
    then show ?case by (simp add: map_idI)
  qed (simp_all add: r remapVT_id option.map_id0)
qed

lemma remap_block_type_id: "moved r = id \<Longrightarrow> remap_block_type r bt = bt"
  by (cases bt) (simp_all add: remapVT_id)

lemma remap_instr_id:
  assumes "moved fR = id" and "moved tR = id"
  shows "remap_instr fR tR i = i"
  unfolding remap_instr_def
proof (rule walk_instr_id, rule ext)
  show "remap_fields fR tR i = i" for i by (cases i) (simp_all add: assms remap_block_type_id)
qed

lemma apply_remap_id:
  assumes "moved fR = id" and "moved tR = id"
  shows "apply_remap fR tR m = m"
proof -
  have "remap_instr fR tR = id" by (rule ext) (simp add: remap_instr_id assms)
  note f = assms this remapVT_id [OF assms(2)]
  have "remap_function fR tR = id" "remap_element fR tR = id" "remap_global fR tR = id" "remap_export fR = id"
    by (rule ext, simp add: f remap_function_def remap_element_def remap_global_def remap_export_def remapLayoutInBodyShared_def)+
  moreover have "remap_import tR = id"
  proof
    show "remap_import tR imp = id imp" for imp by (cases "im_desc imp"; cases imp) (simp_all add: remap_import_def f)
  qed
  ultimately show ?thesis by (simp add: apply_remap_def f option.map_id0)
qed

lemma drop_no_imports: "drop_dead_imports [] imps idx = imps"
  by (induction imps arbitrary: idx) auto

lemma all_kept: "rank (kept_type m) (length (m_types m)) = length (m_types m) \<Longrightarrow>
    surviving_types (m_types m) (used_types m) = m_types m \<and> moved (type_map m) = id"
proof
  assume r: "rank (kept_type m) (length (m_types m)) = length (m_types m)"
  note k = rank_full [OF r]
  then have "filter (kept_type m) [0..<length (m_types m)] = [0..<length (m_types m)]" by simp
  then show "surviving_types (m_types m) (used_types m) = m_types m" by (simp add: surviving_types_nth map_nth)
  show "moved (type_map m) = id"
  proof
    fix i
    show "moved (type_map m) i = id i"
    proof (cases "0 \<le> i")
      case True
      have "rank (kept_type m) (nat i) = nat i" if "nat i < length (m_types m)" using that k by (intro rank_all) auto
      with True moved_type [of m "nat i"] show ?thesis by simp
    qed (simp add: moved_type_negative)
  qed
qed

text \<open>The module between the compaction of the tables and the remapping.\<close>

definition cut_module :: "wasm_module \<Rightarrow> (nat \<times> nat) option \<Rightarrow> wasm_module" where
  "cut_module m g = m\<lparr>m_types := map (remapTD (type_map m)) (surviving_types (m_types m) (used_types m)),
     m_canonicalRecGroup := g, m_imports := drop_dead_imports (dead_of m) (m_imports m) 0\<rparr>"

definition moved_canonical :: "wasm_module \<Rightarrow> (nat \<times> nat) option \<Rightarrow> bool" where
  "moved_canonical m g \<longleftrightarrow>
     (case m_canonicalRecGroup m of
        None \<Rightarrow> g = None
      | Some (start, fin) \<Rightarrow> start < length (m_types m) \<and> fin < length (m_types m) \<longrightarrow>
          kept_type m start \<and> kept_type m fin \<and> g = Some (rank (kept_type m) start, rank (kept_type m) fin))"

lemma moved_group_Inr:
  "moved_group (m_types m) (used_types m) (start, fin) = Inr g' \<Longrightarrow> kept_type m start \<and> kept_type m fin
     \<and> g' = (rank (kept_type m) start, rank (kept_type m) fin)"
  using moved_type [of m start] moved_type [of m fin]
  by (auto simp: moved_group_def targetsByOldIndex_def kept_type_def type_map_def split: if_splits)

lemma moved_canonical_same:
  assumes "rank (kept_type m) (length (m_types m)) = length (m_types m)"
  shows "moved_canonical m (m_canonicalRecGroup m)"
proof -
  note k = rank_full [OF assms]
  have "rank (kept_type m) i = i" if "i < length (m_types m)" for i using that k by (intro rank_all) auto
  with k show ?thesis by (auto simp: moved_canonical_def split: option.split)
qed

lemma eliminated_as_cut:
  assumes "eliminateDeadImports m = Inr m'"
  shows "\<exists>g. moved_canonical m g \<and> m' = apply_remap (func_map m) (type_map m) (cut_module m g)"
proof (cases "length (m_types m) - length (surviving_types (m_types m) (used_types m)) > 0")
  case False
  then have full: "rank (kept_type m) (length (m_types m)) = length (m_types m)"
    using rank_le [of "kept_type m" "length (m_types m)"] by (simp add: length_surviving)
  note kept = all_kept [OF full] remapTD_id [OF conjunct2 [OF all_kept [OF full]]]
  have cut: "cut_module m (m_canonicalRecGroup m) = m\<lparr>m_imports := drop_dead_imports (dead_of m) (m_imports m) 0\<rparr>"
    by (simp add: cut_module_def kept)
  show ?thesis
  proof (cases "dead_of m = []")
    case True
    then have f: "func_map m = []" by (simp add: func_map_def function_remap_def)
    then have "moved (func_map m) = id" by (auto simp: moved_def)
    then have "apply_remap (func_map m) (type_map m) m = m" using kept by (intro apply_remap_id) simp_all
    moreover have "m\<lparr>m_imports := drop_dead_imports (dead_of m) (m_imports m) 0\<rparr> = m" by (simp add: True drop_no_imports)
    moreover have "m' = m \<or> m' = apply_remap (func_map m) (type_map m) m"
      using assms False True by (auto simp: eliminateDeadImports_def Let_def func_map_def type_map_def split: if_splits)
    ultimately show ?thesis using moved_canonical_same [OF full] cut by metis
  next
    case dead: False
    have "m' = apply_remap (func_map m) (type_map m) (m\<lparr>m_imports := drop_dead_imports (dead_of m) (m_imports m) 0\<rparr>)"
      using assms False dead by (simp add: eliminateDeadImports_def Let_def func_map_def type_map_def)
    then show ?thesis using moved_canonical_same [OF full] cut by metis
  qed
next
  case True
  let ?m1 = "if dead_of m \<noteq> [] then m\<lparr>m_imports := drop_dead_imports (dead_of m) (m_imports m) 0\<rparr> else m"
  have m1: "?m1 = m\<lparr>m_imports := drop_dead_imports (dead_of m) (m_imports m) 0\<rparr>" by (simp add: drop_no_imports)
  show ?thesis
  proof (cases "m_canonicalRecGroup m")
    case None
    have "cut_module m None = ?m1\<lparr>m_types := map (remapTD (type_map m)) (surviving_types (m_types m) (used_types m))\<rparr>"
      unfolding m1 by (simp add: cut_module_def None)
    then have "m' = apply_remap (func_map m) (type_map m) (cut_module m None)"
      using assms True None by (simp add: eliminateDeadImports_def Let_def func_map_def type_map_def)
    then show ?thesis using None by (auto simp: moved_canonical_def)
  next
    case (Some g)
    then obtain g' where g': "moved_group (m_types m) (used_types m) g = Inr g'"
      and "m' = apply_remap (func_map m) (type_map m) (?m1\<lparr>m_types := map (remapTD (type_map m)) (surviving_types (m_types m) (used_types m)),
        m_canonicalRecGroup := Some g'\<rparr>)"
      using assms True by (auto simp: eliminateDeadImports_def Let_def func_map_def type_map_def rbind_Inr_iff)
    then have "m' = apply_remap (func_map m) (type_map m) (cut_module m (Some g'))" unfolding m1 by (cases m) (simp add: cut_module_def)
    moreover have "moved_canonical m (Some g')"
      using moved_group_Inr [of m "fst g" "snd g" g'] g' Some by (auto simp: moved_canonical_def split: prod.split)
    ultimately show ?thesis by blast
  qed
qed

lemma eliminate_compacts: "eliminateDeadImports m = Inr m' \<Longrightarrow> compacted m m'"
  using eliminated_as_cut [of m m'] by (auto simp: compacted_def apply_remap_def cut_module_def)

lemma eliminate_canonical: "eliminateDeadImports m = Inr m' \<Longrightarrow> moved_canonical m (m_canonicalRecGroup m')"
  using eliminated_as_cut [of m m'] by (auto simp: apply_remap_def cut_module_def)

section \<open>Functions and types keep their meaning\<close>

fun move_target :: "remap \<Rightarrow> remap \<Rightarrow> func_target \<Rightarrow> func_target" where
  "move_target fR tR (Imported imp) = Imported (remap_import tR imp)"
| "move_target fR tR (Defined f) = Defined (remap_function fR tR f)"

lemma remap_import_kind: "desc_kind (im_desc (remap_import tR imp)) = desc_kind (im_desc imp)"
  by (cases "im_desc imp") (simp_all add: remap_import_def)

lemma compacted_imports:
  assumes "compacted m m'"
  shows "function_imports m' = map (\<lambda>i. remap_import (type_map m) (function_imports m ! i)) (filter (kept_func m) [0..<length (function_imports m)])"
proof -
  have "function_imports m' = map (remap_import (type_map m)) (filter (\<lambda>imp. desc_kind (im_desc imp) = FuncKind) (drop_dead_imports (dead_of m) (m_imports m) 0))"
    using assms by (simp add: compacted_def function_imports_def filter_map comp_def remap_import_kind)
  also have "\<dots> = map (remap_import (type_map m)) (map ((!) (function_imports m)) (filter (kept_func m) [0..<length (function_imports m)]))"
    unfolding dropped_functions function_imports_def [symmetric] filter_enumerate kept_func_def [abs_def] by (rule refl)
  finally show ?thesis by (simp add: comp_def)
qed

lemma compacted_import_count: "compacted m m' \<Longrightarrow> length (function_imports m') = rank (kept_func m) (length (function_imports m))"
  by (simp add: compacted_imports rank_def)

lemma kept_defined: "length (function_imports m) \<le> i \<Longrightarrow> kept_func m i"
  by (simp add: kept_func_def dead_of_iff)

lemma rank_beyond: "(\<And>j. a \<le> j \<Longrightarrow> keep j) \<Longrightarrow> rank keep (a + d) = rank keep a + d"
  by (induction d) (simp_all add: rank_Suc)

lemma rank_defined: "length (function_imports m) \<le> i \<Longrightarrow>
    rank (kept_func m) i = rank (kept_func m) (length (function_imports m)) + (i - length (function_imports m))"
  using rank_beyond [of "length (function_imports m)" "kept_func m" "i - length (function_imports m)"] kept_defined [of m] by simp

lemma compacted_count: "compacted m m' \<Longrightarrow> num_funcs m' = rank (kept_func m) (num_funcs m)"
  using rank_defined [of m "num_funcs m"] by (simp add: num_funcs_def compacted_import_count compacted_def)

lemma compacted_targets:
  assumes "compacted m m'" and "kept_func m i" and "i < num_funcs m"
  shows "func_targets m' ! rank (kept_func m) i = move_target (func_map m) (type_map m) (func_targets m ! i)"
proof -
  let ?n = "length (function_imports m)"
  have fs: "m_functions m' = map (remap_function (func_map m) (type_map m)) (m_functions m)" using assms(1) by (simp add: compacted_def)
  show ?thesis
  proof (cases "i < ?n")
    case True
    then have "rank (kept_func m) i < length (filter (kept_func m) [0..<?n])" using rank_less [of "kept_func m" i ?n] assms(2) by (simp add: rank_def)
    with True nth_filter_rank [of "kept_func m" i ?n] assms(1,2) show ?thesis
      by (simp add: func_targets_def nth_append compacted_imports)
  next
    case False
    then have "rank (kept_func m) i = length (function_imports m') + (i - ?n)" using rank_defined [of m i] assms(1) by (simp add: compacted_import_count)
    moreover have "i - ?n < length (m_functions m)" using False assms(3) by (simp add: num_funcs_def)
    ultimately show ?thesis using False by (simp add: func_targets_def nth_append fs)
  qed
qed

lemma used_import_kept: "h \<in> funcs_of (module_uses m) \<Longrightarrow> 0 \<le> h \<Longrightarrow> kept_func m (nat h)"
  by (auto simp: kept_func_def dead_of_iff live_imports_def)

lemma moved_func_stable: "int (num_funcs m) \<le> h \<Longrightarrow> moved (func_map m) h = h"
proof -
  assume "int (num_funcs m) \<le> h"
  then have "\<not> nat h < num_funcs m" "int (nat h) = h" by arith+
  then show ?thesis using moved_func [of m "nat h"] by simp
qed

lemma function_moved:
  assumes c: "compacted m m'" and n: "int (num_funcs m) \<le> STABLE_FUNC_BASE" and h: "h \<notin> int ` set (dead_of m)"
  shows "function_at m' (moved (func_map m) h) = map_option (move_target (func_map m) (type_map m)) (function_at m h)"
proof (cases "h < STABLE_FUNC_BASE")
  case False
  moreover have "moved (func_map m) h = h" using False n by (intro moved_func_stable) simp
  moreover have "m_functions m' = map (remap_function (func_map m) (type_map m)) (m_functions m)"
    "m_funcOrdinalToPosition m' = m_funcOrdinalToPosition m" using c by (simp_all add: compacted_def)
  ultimately show ?thesis by (simp add: function_at_stable Let_def split: option.split)
next
  case live: True
  have le: "num_funcs m' \<le> num_funcs m" using rank_le by (simp add: compacted_count [OF c])
  show ?thesis
  proof (cases "0 \<le> h \<and> h < int (num_funcs m)")
    case True
    have i: "nat h < num_funcs m" "int (nat h) = h" using True by arith+
    then have k: "kept_func m (nat h)" using h unfolding kept_func_def by (metis imageI)
    have m: "moved (func_map m) h = int (rank (kept_func m) (nat h))" using moved_func [of m "nat h"] i k by simp
    have "rank (kept_func m) (nat h) < num_funcs m'" using rank_less [of "kept_func m" "nat h" "num_funcs m"] k i by (simp add: compacted_count [OF c])
    moreover have "int (rank (kept_func m) (nat h)) < STABLE_FUNC_BASE" using rank_le [of "kept_func m" "nat h"] live True by linarith
    ultimately show ?thesis using True i(1) live compacted_targets [OF c k] unfolding m by (simp add: function_at_live)
  next
    case False
    have "moved (func_map m) h = h"
    proof (cases "0 \<le> h")
      case True
      with False show ?thesis by (intro moved_func_stable) simp
    qed (simp add: moved_func_negative)
    with False live le show ?thesis by (auto simp: function_at_live)
  qed
qed

lemma used_not_dead: "h \<in> funcs_of (module_uses m) \<Longrightarrow> h \<notin> int ` set (dead_of m)"
  by (auto simp: dead_of_iff live_imports_def)

lemma function_kept:
  "compacted m m' \<Longrightarrow> int (num_funcs m) \<le> STABLE_FUNC_BASE \<Longrightarrow> h \<in> funcs_of (module_uses m) \<Longrightarrow>
     function_at m' (moved (func_map m) h) = map_option (move_target (func_map m) (type_map m)) (function_at m h)"
  using function_moved used_not_dead by blast

text \<open>Neither renumbering confuses two indices.\<close>

lemma compaction_inj:
  assumes "\<And>i. moved r (int i) = (if i < n \<and> keep i then int (rank keep i) else int i)" and "\<And>h. h < 0 \<Longrightarrow> moved r h = h"
  shows "inj_on (moved r) {h. 0 \<le> h \<and> h < int n \<longrightarrow> keep (nat h)}"
proof (rule inj_onI)
  fix x y
  assume x: "x \<in> {h. 0 \<le> h \<and> h < int n \<longrightarrow> keep (nat h)}" and y: "y \<in> {h. 0 \<le> h \<and> h < int n \<longrightarrow> keep (nat h)}" and e: "moved r x = moved r y"
  have m: "moved r h = (if 0 \<le> h \<and> h < int n then int (rank keep (nat h)) else h)" if "h \<in> {h. 0 \<le> h \<and> h < int n \<longrightarrow> keep (nat h)}" for h
    using that assms(1) [of "nat h"] assms(2) [of h] by (cases "0 \<le> h") auto
  have b: "int (rank keep (nat h)) < int n" if "0 \<le> h" "h < int n" for h using rank_le [of keep "nat h"] that by linarith
  show "x = y"
  proof (cases "0 \<le> x \<and> x < int n"; cases "0 \<le> y \<and> y < int n")
    assume r: "0 \<le> x \<and> x < int n" "0 \<le> y \<and> y < int n"
    then have "rank keep (nat x) = rank keep (nat y)" using e m [OF x] m [OF y] by simp
    moreover have "keep (nat x)" "keep (nat y)" using x y r by auto
    ultimately have "nat x = nat y" using rank_inj by blast
    with r show "x = y" by linarith
  next
    assume r: "0 \<le> x \<and> x < int n" "\<not> (0 \<le> y \<and> y < int n)"
    then have "int (rank keep (nat x)) = y" using e m [OF x] m [OF y] by presburger
    with b [of x] r show "x = y" by linarith
  next
    assume r: "\<not> (0 \<le> x \<and> x < int n)" "0 \<le> y \<and> y < int n"
    then have "x = int (rank keep (nat y))" using e m [OF x] m [OF y] by presburger
    with b [of y] r show "x = y" by linarith
  qed (use e m [OF x] m [OF y] in presburger)
qed

lemma func_map_inj: "inj_on (moved (func_map m)) (funcs_of (module_uses m))"
proof (rule inj_on_subset)
  show "inj_on (moved (func_map m)) {h. 0 \<le> h \<and> h < int (num_funcs m) \<longrightarrow> kept_func m (nat h)}"
    using moved_func moved_func_negative by (rule compaction_inj)
qed (auto simp: used_import_kept)

lemma type_map_inj: "inj_on (moved (type_map m)) {i. reaches (m_types m) (root_types m) i}"
proof (rule inj_on_subset)
  show "inj_on (moved (type_map m)) {i. 0 \<le> i \<and> i < int (length (m_types m)) \<longrightarrow> kept_type m (nat i)}"
    using moved_type moved_type_negative by (rule compaction_inj)
qed (auto simp: kept_type_def used_types_set)

lemma compacted_types_length: "compacted m m' \<Longrightarrow> length (m_types m') = rank (kept_type m) (length (m_types m))"
  by (simp add: compacted_def length_surviving)

lemma type_kept:
  assumes c: "compacted m m'" and "reaches (m_types m) (root_types m) i"
  shows "type_at (m_types m') (moved (type_map m) i) = map_option (remapTD (type_map m)) (type_at (m_types m) i)"
proof (cases "0 \<le> i \<and> i < int (length (m_types m))")
  case True
  have i: "nat i < length (m_types m)" "int (nat i) = i" using True by arith+
  have k: "kept_type m (nat i)" using assms(2) True by (simp add: kept_type_def used_types_set)
  have r: "rank (kept_type m) (nat i) < length (m_types m')"
    using rank_less [of "kept_type m" "nat i" "length (m_types m)"] k i by (simp add: compacted_types_length [OF c])
  have "m_types m' = map (\<lambda>i. remapTD (type_map m) (m_types m ! i)) (filter (kept_type m) [0..<length (m_types m)])"
    using c by (simp add: compacted_def surviving_types_nth comp_def)
  then have "m_types m' ! rank (kept_type m) (nat i) = remapTD (type_map m) (m_types m ! nat i)"
    using r nth_filter_rank [of "kept_type m" "nat i"] k i by (simp add: nth_map)
  moreover have "moved (type_map m) i = int (rank (kept_type m) (nat i))" using moved_type [of m "nat i"] i k by simp
  ultimately show ?thesis using True r by (simp add: type_at_def)
next
  case False
  have "length (m_types m') \<le> length (m_types m)" using rank_le by (simp add: compacted_types_length [OF c])
  moreover have "moved (type_map m) i = i"
    using False moved_type [of m "nat i"] moved_type_negative [of i m] by (cases "0 \<le> i") auto
  ultimately show ?thesis using False by (auto simp: type_at_def)
qed

lemma uses_kept: "compacted m m' \<Longrightarrow> module_uses m' = map (move_use (moved (func_map m)) (moved (type_map m))) (module_uses m)"
proof -
  assume c: "compacted m m'"
  have "module_uses m' = module_uses (apply_remap (func_map m) (type_map m) (cut_module m None))"
    using c by (simp add: compacted_def module_uses_def apply_remap_def cut_module_def)
  also have "\<dots> = map (move_use (moved (func_map m)) (moved (type_map m))) (module_uses (cut_module m None))" by (rule module_uses_moved)
  also have "module_uses (cut_module m None) = module_uses m"
    by (simp add: module_uses_def cut_module_def dropped_import_uses)
  finally show ?thesis .
qed

text \<open>
  C7. Dead elimination keeps the meaning of every index. There is a renumbering of functions and one of types such
  that the parts of the new module use the renumbered indices in the old order, every function handle that is
  used denotes the renumbered import or function it denoted before, in both regimes of the handle space, and
  every type that is reachable is where its new index says, with its own references renumbered.
\<close>

theorem elimination_keeps_meaning:
  assumes "eliminateDeadImports m = Inr m'" and "int (num_funcs m) \<le> STABLE_FUNC_BASE"
  shows "\<exists>fR tR. inj_on (moved fR) (funcs_of (module_uses m)) \<and> inj_on (moved tR) {i. reaches (m_types m) (root_types m) i}
    \<and> module_uses m' = map (move_use (moved fR) (moved tR)) (module_uses m)
    \<and> (\<forall>h\<in>funcs_of (module_uses m). function_at m' (moved fR h) = map_option (move_target fR tR) (function_at m h))
    \<and> (\<forall>i. reaches (m_types m) (root_types m) i \<longrightarrow>
         type_at (m_types m') (moved tR i) = map_option (remapTD tR) (type_at (m_types m) i))"
  using func_map_inj type_map_inj uses_kept function_kept type_kept eliminate_compacts [OF assms(1)] assms(2) by blast

section \<open>Valid modules stay valid\<close>

lemma flat_count: "list_all (\<lambda>t. \<not> is_rec t) types \<Longrightarrow> sum_list (map count_types types) = length types"
proof (induction types)
  case (Cons t types)
  then show ?case by (cases t) simp_all
qed simp

lemma type_use_in_range:
  "list_all (\<lambda>t. \<not> is_rec t) (m_types m) \<Longrightarrow>
     0 \<le> i \<and> i < numTypes (makeValidationCtx m) \<longleftrightarrow> type_at (m_types m) i \<noteq> None"
  by (simp add: makeValidationCtx_def flat_count type_at_def)

lemma field_use_in_range:
  "list_all (\<lambda>t. \<not> is_rec t) (m_types m) \<Longrightarrow>
     resolveTypeDefAt (makeValidationCtx m) i = map_option unwrap_sub (type_at (m_types m) i)"
  by (auto simp: resolveTypeDefAt_def makeValidationCtx_def type_at_def list_all_iff)

lemma unwrap_remapped: "unwrap_sub (remapTD r td) = remapTD r (unwrap_sub td)"
  by (induction td) simp_all

lemma is_rec_remapped: "is_rec (remapTD r td) = is_rec td"
  by (cases td) simp_all

lemma compacted_flat: "compacted m m' \<Longrightarrow> list_all (\<lambda>t. \<not> is_rec t) (m_types m) \<Longrightarrow> list_all (\<lambda>t. \<not> is_rec t) (m_types m')"
  by (auto simp: compacted_def surviving_types_nth list_all_iff is_rec_remapped)

lemma compacted_other_imports:
  "compacted m m' \<Longrightarrow> k \<noteq> FuncKind \<Longrightarrow> count_imports k m' = count_imports k m"
  by (simp add: compacted_def count_imports_def filter_map comp_def remap_import_kind dropped_others)

lemma compacted_counts:
  assumes "compacted m m'"
  shows "numGlobals (makeValidationCtx m') = numGlobals (makeValidationCtx m)" "numTags (makeValidationCtx m') = numTags (makeValidationCtx m)"
    "numTables (makeValidationCtx m') = numTables (makeValidationCtx m)"
  using assms compacted_other_imports [OF assms] by (simp_all add: makeValidationCtx_def compacted_def)

lemma use_kept_in_range:
  assumes c: "compacted m m'" and n: "int (num_funcs m) \<le> STABLE_FUNC_BASE" and flat: "list_all (\<lambda>t. \<not> is_rec t) (m_types m)"
    and u: "u \<in> set (module_uses m)" and r: "use_in_range (module_ctx False m) (makeValidationCtx m) u"
  shows "use_in_range (module_ctx False m') (makeValidationCtx m') (move_use (moved (func_map m)) (moved (type_map m)) u)"
proof -
  note flat' = compacted_flat [OF c flat]
  have t: "type_at (m_types m') (moved (type_map m) i) = map_option (remapTD (type_map m)) (type_at (m_types m) i)" if "i \<in> use_types u" for i
    using that u by (intro type_kept [OF c] reaches.root) (auto simp: root_types_def types_of_def)
  show ?thesis
  proof (cases u)
    case (FunctionUse h)
    then have "h \<in> funcs_of (module_uses m)" using u by (force simp: funcs_of_def)
    then show ?thesis using r function_kept [OF c n] FunctionUse
      by (simp only: move_use.simps function_use_in_range) simp
  next
    case (HeapUse i)
    show ?thesis
    proof (cases "0 \<le> i")
      case True
      with HeapUse r have "type_at (m_types m) i \<noteq> None" using type_use_in_range [OF flat, of i] by simp
      then have "type_at (m_types m') (moved (type_map m) i) \<noteq> None" using t HeapUse by simp
      then show ?thesis using type_use_in_range [OF flat', of "moved (type_map m) i"] HeapUse by simp
    next
      case False
      moreover have "0 \<le> numTypes (makeValidationCtx m')" by (simp add: makeValidationCtx_def)
      ultimately show ?thesis using HeapUse r by (simp add: moved_type_negative)
    qed
  next
    case (FieldUse k i)
    have "\<exists>td. unwrap_sub td' = td" for td' by blast
    show ?thesis
    proof (cases "type_at (m_types m) k")
      case None
      then show ?thesis using t [of k] FieldUse by (simp add: field_use_in_range [OF flat'])
    next
      case (Some td)
      then show ?thesis using t [of k] FieldUse r
        by (cases "unwrap_sub td") (simp_all add: field_use_in_range [OF flat'] field_use_in_range [OF flat] unwrap_remapped)
    qed
  next
    case (TypeUse i)
    then show ?thesis using r t type_use_in_range [OF flat, of i] type_use_in_range [OF flat', of "moved (type_map m) i"] by simp
  next
    case (BlockTypeUse i)
    then show ?thesis using r t type_use_in_range [OF flat, of i] type_use_in_range [OF flat', of "moved (type_map m) i"] by simp
  next
    case (LocalUse i)
    then show ?thesis by (simp add: makeValidationCtx_def)
  qed (use r compacted_counts [OF c] in \<open>simp_all add: module_ctx_def gIdx_def resolveLayout_def\<close>)
qed


section \<open>Nothing dead remains\<close>

lemma remapVT_refs: "val_type_refs (remapVT r t) = moved r ` val_type_refs t"
  by (cases t) (simp_all, simp_all add: val_type_refs_def)

lemma remapTD_refs: "type_def_refs (remapTD r td) = moved r ` type_def_refs td"
  by (induction td) (auto simp: remapVT_refs option.set_map image_Union image_Un)

text \<open>The canonical group of the runtime lies in the type table.\<close>

definition group_in_table :: "wasm_module \<Rightarrow> bool" where
  "group_in_table m \<longleftrightarrow> (case m_canonicalRecGroup m of None \<Rightarrow> True | Some (start, fin) \<Rightarrow> fin < length (m_types m))"

lemma live_moved:
  assumes c: "compacted m m'" and i: "i \<in> live_imports m"
  shows "rank (kept_func m) i \<in> live_imports m' \<and> function_imports m' ! rank (kept_func m) i = remap_import (type_map m) (function_imports m ! i)"
proof -
  have k: "kept_func m i" "i < length (function_imports m)" "int i \<in> funcs_of (module_uses m)"
    using i by (auto simp: kept_func_def dead_of_iff live_imports_def)
  have r: "rank (kept_func m) i < length (filter (kept_func m) [0..<length (function_imports m)])"
    using rank_less [of "kept_func m" i "length (function_imports m)", OF k(1,2)] by (simp add: rank_def)
  moreover have "int (rank (kept_func m) i) \<in> funcs_of (module_uses m')"
    using k moved_func [of m i] by (auto simp: uses_kept [OF c] moved_funcs_of num_funcs_def image_iff intro!: bexI [of _ "int i"])
  ultimately show ?thesis using nth_filter_rank [of "kept_func m" i "length (function_imports m)", OF k(1,2)]
    by (simp add: live_imports_def compacted_imports [OF c])
qed

lemma import_type_moved: "desc_kind (im_desc imp) = FuncKind \<Longrightarrow> import_type (remap_import tR imp) = moved tR (import_type imp)"
  by (cases "im_desc imp") (simp_all add: remap_import_def)

lemma reachable_moved:
  assumes c: "compacted m m'" and g: "moved_canonical m (m_canonicalRecGroup m')" and t: "group_in_table m"
  shows "reaches (m_types m) (root_types m) i \<Longrightarrow> reaches (m_types m') (root_types m') (moved (type_map m) i)"
proof (induction rule: reaches.induct)
  case (root i)
  then consider "i \<in> group_types m" | "i \<in> types_of (module_uses m)" | k where "k \<in> live_imports m" "i = import_type (function_imports m ! k)"
    by (auto simp: root_types_def)
  then show ?case
  proof cases
    case 1
    then obtain start fin where gm: "m_canonicalRecGroup m = Some (start, fin)" and i: "int start \<le> i" "i \<le> int fin"
      by (auto simp: group_types_def split: option.splits)
    then have le: "start \<le> nat i" "nat i \<le> fin" "int (nat i) = i" by linarith+
    have lt: "fin < length (m_types m)" using t gm by (simp add: group_in_table_def)
    with g gm le have g': "m_canonicalRecGroup m' = Some (rank (kept_type m) start, rank (kept_type m) fin)"
      by (simp add: moved_canonical_def)
    have "i \<in> root_types m" using 1 by (simp add: root_types_def)
    then have "kept_type m (nat i)" using le(3) by (simp add: kept_type_def used_types_set reaches.root)
    then have "moved (type_map m) i = int (rank (kept_type m) (nat i))" using moved_type [of m "nat i"] le lt by simp
    then have "moved (type_map m) i \<in> group_types m'"
      using rank_mono [OF le(1), of "kept_type m"] rank_mono [OF le(2), of "kept_type m"] by (simp add: group_types_def g')
    then show ?thesis by (intro reaches.root) (simp add: root_types_def)
  next
    case 2
    then have "moved (type_map m) i \<in> types_of (module_uses m')" by (simp add: uses_kept [OF c] moved_types_of)
    then show ?thesis by (intro reaches.root) (simp add: root_types_def)
  next
    case 3
    have "function_imports m ! k \<in> set (function_imports m)" using 3(1) by (simp add: live_imports_def)
    then have "desc_kind (im_desc (function_imports m ! k)) = FuncKind" by (simp add: function_imports_def)
    then have "moved (type_map m) i = import_type (function_imports m' ! rank (kept_func m) k)"
      using live_moved [OF c 3(1)] 3(2) by (simp only: import_type_moved)
    then have "moved (type_map m) i \<in> root_types m'" using live_moved [OF c 3(1)] unfolding root_types_def by blast
    then show ?thesis by (rule reaches.root)
  qed
next
  case (ref i td j)
  have "type_at (m_types m') (moved (type_map m) i) = Some (remapTD (type_map m) td)"
    using type_kept [OF c ref(1)] ref(2) by simp
  moreover have "moved (type_map m) j \<in> type_def_refs (remapTD (type_map m) td)" using ref(3) by (simp add: remapTD_refs)
  ultimately show ?case using ref(4) by (rule reaches.ref [rotated])
qed

lemma nothing_dead:
  assumes c: "compacted m m'" and g: "moved_canonical m (m_canonicalRecGroup m')" and t: "group_in_table m"
  shows "live_imports m' = {..<length (function_imports m')}"
    and "i < length (m_types m') \<Longrightarrow> reaches (m_types m') (root_types m') (int i)"
proof -
  show "live_imports m' = {..<length (function_imports m')}"
  proof
    show "live_imports m' \<subseteq> {..<length (function_imports m')}" by (auto simp: live_imports_def)
    show "{..<length (function_imports m')} \<subseteq> live_imports m'"
    proof
      fix k
      assume "k \<in> {..<length (function_imports m')}"
      then obtain x where "x < length (function_imports m)" "kept_func m x" "rank (kept_func m) x = k"
        using rank_surj [of k "kept_func m"] by (auto simp: compacted_import_count [OF c])
      then show "k \<in> live_imports m'" using live_moved [OF c, of x] by (auto simp: kept_func_def dead_of_iff)
    qed
  qed
  assume "i < length (m_types m')"
  then obtain x where x: "x < length (m_types m)" "kept_type m x" "rank (kept_type m) x = i"
    using rank_surj [of i "kept_type m"] by (auto simp: compacted_types_length [OF c])
  then have "reaches (m_types m) (root_types m) (int x)" by (simp add: kept_type_def used_types_set)
  from reachable_moved [OF c g t this] show "reaches (m_types m') (root_types m') (int i)" using moved_type [of m x] x by simp
qed

lemma remap_loop_idle: "(\<And>x. a \<le> x \<Longrightarrow> x < b \<Longrightarrow> keep x) \<Longrightarrow> remap_loop keep [a..<b] a = []"
proof (induction "b - a" arbitrary: a)
  case (Suc d)
  then have "[a..<b] = a # [Suc a..<b]" by (intro upt_conv_Cons) simp
  with Suc show ?case by simp
qed simp

lemma eliminate_idle:
  assumes "live_imports m = {..<length (function_imports m)}" and "\<And>i. i < length (m_types m) \<Longrightarrow> reaches (m_types m) (root_types m) (int i)"
  shows "eliminateDeadImports m = Inr m"
proof -
  have "i \<notin> set (dead_of m)" for i unfolding dead_of_iff assms(1) by simp
  then have d: "dead_of m = []" by (metis list.set_intros(1) neq_Nil_conv)
  have k: "kept_type m i" if "i < length (m_types m)" for i using assms(2) [OF that] by (simp add: kept_type_def used_types_set)
  then have r: "rank (kept_type m) (length (m_types m)) = length (m_types m)" by (intro rank_all) simp
  have t: "type_remap (m_types m) (used_types m) = []"
    unfolding type_remap_def using k by (intro remap_loop_idle) (simp only: kept_type_def)
  have s: "surviving_types (m_types m) (used_types m) = m_types m" using all_kept [OF r] by (rule conjunct1)
  show ?thesis unfolding eliminateDeadImports_def Let_def function_remap_def d t s by simp
qed

text \<open>
  C20. Dead elimination leaves nothing dead behind: every function import of the result is used, every type is
  reachable, and a second run changes nothing.
\<close>

theorem elimination_complete:
  assumes "eliminateDeadImports m = Inr m'" and "group_in_table m"
  shows "live_imports m' = {..<length (function_imports m')} \<and> {i. i < length (m_types m') \<and> \<not> reaches (m_types m') (root_types m') (int i)} = {}
    \<and> eliminateDeadImports m' = Inr m'"
proof -
  note n = nothing_dead [OF eliminate_compacts [OF assms(1)] eliminate_canonical [OF assms(1)] assms(2)]
  show ?thesis using n eliminate_idle [OF n] by blast
qed

section \<open>The side tables\<close>

definition side_handles :: "codegen_ctx \<Rightarrow> int list" where
  "side_handles ctx = map snd (cg_funcMap ctx @ cg_nativeStrHelpers ctx @ cg_nativeRegexHelpers ctx @ cg_mapHelpers ctx)
     @ concat (map (\<lambda>t. [tr_methodFuncIdx t, tr_trampolineFuncIdx t]) (cg_pendingMethodTrampolines ctx))"

lemma side_handles_remapped: "side_handles (remap_side_tables fR ctx) = map (moved fR) (side_handles ctx)"
  by (cases "fR = []")
    (simp_all add: remap_side_tables_def side_handles_def remap_map_def remap_trampoline_def case_prod_unfold comp_def map_concat map_idI moved_def)

lemma dead_stays: "h \<in> int ` set (dead_of m) \<Longrightarrow> moved (func_map m) h = h"
  using moved_func by (auto simp: kept_func_def)

lemma side_tables_kept:
  assumes "eliminate_with_context ctx = Inr ctx'" and "int (num_funcs (cg_mod ctx)) \<le> STABLE_FUNC_BASE"
  shows "\<exists>fR tR. side_handles ctx' = map (moved fR) (side_handles ctx)
    \<and> (\<forall>h. h \<notin> int ` set (dead_of (cg_mod ctx)) \<longrightarrow>
         function_at (cg_mod ctx') (moved fR h) = map_option (move_target fR tR) (function_at (cg_mod ctx) h))
    \<and> (\<forall>h\<in>int ` set (dead_of (cg_mod ctx)). moved fR h = h)"
proof -
  obtain m' where m': "eliminateDeadImports (cg_mod ctx) = Inr m'" and c: "ctx' = remap_side_tables (func_map (cg_mod ctx)) (ctx\<lparr>cg_mod := m'\<rparr>)"
    using assms(1) by (auto simp: eliminate_with_context_def func_map_def)
  have "cg_mod ctx' = m'" "side_handles ctx' = map (moved (func_map (cg_mod ctx))) (side_handles ctx)"
    by (simp_all add: c side_handles_remapped, simp_all add: remap_side_tables_def side_handles_def)
  with function_moved [OF eliminate_compacts [OF m'] assms(2)] dead_stays show ?thesis by blast
qed


section \<open>A module with dead parts\<close>

text \<open>An unused import, an unused type, a type that refers to itself, and a call through a stable handle.\<close>

definition dead_module :: wasm_module where
  "dead_module =
     \<lparr>m_types = [FuncType [] [], StructType [(I32, True)] None False, StructType [(RefNull 2, True)] None False],
      m_canonicalRecGroup = Some (2, 2),
      m_imports = [\<lparr>im_module = ''env'', im_name = ''drop'', im_desc = ImportFunc 0\<rparr>, \<lparr>im_module = ''env'', im_name = ''log'', im_desc = ImportFunc 0\<rparr>],
      m_functions = [\<lparr>fn_name = ''main'', fn_typeIdx = 0, fn_locals = [RefNull 2],
        fn_body = [(CallOp ''call'' 1, None), (HeapType ''ref.null'' 2, None), (CallOp ''call'' STABLE_FUNC_BASE, None)]\<rparr>],
      m_exports = [\<lparr>ex_name = ''main'', ex_kind = FuncKind, ex_index = 2\<rparr>],
      m_tables = [], m_elements = [], m_globals = [], m_tags = [], m_declaredFuncRefs = [],
      m_funcOrdinalToPosition = [Some 0], m_memories = [], m_dataSegments = [], m_startFuncIdx = None\<rparr>"

definition slim_module :: wasm_module where
  "slim_module = dead_module\<lparr>m_types := [FuncType [] [], StructType [(RefNull 1, True)] None False], m_canonicalRecGroup := Some (1, 1),
      m_imports := [\<lparr>im_module = ''env'', im_name = ''log'', im_desc = ImportFunc 0\<rparr>],
      m_functions := [\<lparr>fn_name = ''main'', fn_typeIdx = 0, fn_locals = [RefNull 1],
        fn_body = [(CallOp ''call'' 0, None), (HeapType ''ref.null'' 1, None), (CallOp ''call'' STABLE_FUNC_BASE, None)]\<rparr>],
      m_exports := [\<lparr>ex_name = ''main'', ex_kind = FuncKind, ex_index = 1\<rparr>]\<rparr>"

lemma slimmed: "eliminateDeadImports dead_module = Inr slim_module"
  by code_simp

lemma dead_module_size: "int (num_funcs dead_module) \<le> STABLE_FUNC_BASE"
  by code_simp

lemma dead_module_group: "group_in_table dead_module"
  by code_simp

lemma dead_module_flat: "list_all (\<lambda>t. \<not> is_rec t) (m_types dead_module)"
  by code_simp

lemma dead_module_valid: "list_all (use_in_range (module_ctx False dead_module) (makeValidationCtx dead_module)) (module_uses dead_module)"
  by code_simp

lemma dead_module_uses: "module_uses dead_module
    = [FunctionUse 1, HeapUse 2, FunctionUse STABLE_FUNC_BASE, TypeUse 0, HeapUse 2, FunctionUse 2]"
  by code_simp

lemma dead_module_reaches: "reaches (m_types dead_module) (root_types dead_module) 2"
  by (rule reaches.root) (simp add: root_types_def dead_module_uses)

theorem elimination_keeps_meaning_witness:
  "\<exists>fR tR. module_uses slim_module = map (move_use (moved fR) (moved tR)) (module_uses dead_module)
    \<and> function_at slim_module (moved fR 1) = map_option (move_target fR tR) (function_at dead_module 1)
    \<and> type_at (m_types slim_module) (moved tR 2) = map_option (remapTD tR) (type_at (m_types dead_module) 2)"
proof -
  have "1 \<in> funcs_of (module_uses dead_module)" by (simp add: dead_module_uses)
  with elimination_keeps_meaning [OF slimmed dead_module_size] dead_module_reaches show ?thesis by blast
qed


theorem elimination_complete_witness:
  "live_imports slim_module = {..<1} \<and> eliminateDeadImports slim_module = Inr slim_module"
proof -
  have "length (function_imports slim_module) = 1" by code_simp
  with elimination_complete [OF slimmed dead_module_group] show ?thesis by simp
qed

definition dead_ctx :: codegen_ctx where
  "dead_ctx = \<lparr>cg_mod = dead_module, cg_numImportFuncs = 2, cg_numImportGlobals = 0,
     cg_funcMap = [(''drop'', 0), (''log'', 1), (''main'', 2)], cg_nativeStrHelpers = [(''__str_flatten'', STABLE_FUNC_BASE)],
     cg_nativeRegexHelpers = [], cg_mapHelpers = [], cg_nativeStrHelperImportBase = -1, cg_pendingMethodTrampolines = [],
     cg_nativeGenerators = [], cg_asyncScheduler = [], cg_promiseCombinators = [], cg_currentFunc = None, cg_funcStack = [],
     cg_parentBodiesStack = [], cg_liveBodies = [], cg_pendingInitBody = None, cg_funcTypeCache = [], cg_pendingLateImportShift = None,
     cg_indexSpaceFrozen = False, cg_strictNoHostImports = False, cg_standalone = False, cg_standaloneRefusedImports = [],
     cg_droppedImports = [], cg_errors = []\<rparr>"

lemma dead_ctx_slimmed: "eliminate_with_context dead_ctx = Inr (dead_ctx\<lparr>cg_mod := slim_module,
    cg_funcMap := [(''drop'', 0), (''log'', 0), (''main'', 1)]\<rparr>)"
  by code_simp


end
