(* ===== verification/StableHandles.thy ===== *)
theory StableHandles
  imports LateImportsKept DeadEliminationKept
begin

text \<open>
  The stable function handles of \<open>src/src/codegen/func-space.ts\<close>: once its function is pushed, a handle denotes it
  through every step that changes the function index space, with no shift and no hypothesis on the order of steps.
\<close>

section \<open>Renumbered functions\<close>

definition renumber_function :: "(int \<Rightarrow> int) \<Rightarrow> (int \<Rightarrow> int) \<Rightarrow> wasm_function \<Rightarrow> wasm_function" where
  "renumber_function f t fn = fn\<lparr>fn_body := map (\<lambda>(i, p). (walk_instr (renumber_fields f t) i, p)) (fn_body fn),
     fn_typeIdx := t (fn_typeIdx fn), fn_locals := map (renumber_val t) (fn_locals fn)\<rparr>"

lemma renumber_val_comp: "renumber_val t (renumber_val t' vt) = renumber_val (\<lambda>i. t (t' i)) vt"
  by (cases vt) simp_all

lemma renumber_block_comp: "renumber_block t (renumber_block t' bt) = renumber_block (\<lambda>i. t (t' i)) bt"
  by (cases bt) (simp_all add: renumber_val_comp)

lemma walk_renumber_comp:
  "walk_instr (renumber_fields f t) (walk_instr (renumber_fields f' t') i) = walk_instr (renumber_fields (\<lambda>h. f (f' h)) (\<lambda>i. t (t' i))) i"
proof (induction "renumber_fields f' t'" i rule: walk_instr.induct)
qed (auto simp: renumber_block_comp split: option.split)

lemma renumber_function_comp: "renumber_function f t (renumber_function f' t' fn) = renumber_function (\<lambda>h. f (f' h)) (\<lambda>i. t (t' i)) fn"
  by (simp add: renumber_function_def walk_renumber_comp renumber_val_comp case_prod_unfold comp_def)

lemma renumber_function_id: "renumber_function (\<lambda>h. h) (\<lambda>i. i) fn = fn"
proof -
  have "walk_instr (renumber_fields (\<lambda>h. h) (\<lambda>i. i)) i = i" for i
  proof (rule walk_instr_id, rule ext)
    show "renumber_fields (\<lambda>h. h) (\<lambda>i. i) j = j" for j by (cases j) (simp_all add: renumber_block_id)
  qed
  then show ?thesis by (simp add: renumber_function_def renumber_val_id map_idI case_prod_unfold)
qed

lemma remap_is_renumber: "remap_function fR tR = renumber_function (moved fR) (moved tR)"
  by (simp add: fun_eq_iff remap_function_def renumber_function_def remap_instr_renumber remapVT_renumber [abs_def])

lemma shift_is_renumber: "shift_function b k = renumber_function (shift_index b k) (\<lambda>i. i)"
  by (simp add: fun_eq_iff shift_function_def renumber_function_def shift_fields_renumber renumber_val_id map_idI)

section \<open>Steps\<close>

text \<open>
  The steps of the code generator that change the function index space: minting a handle and pushing its function,
  pushing a function that has a live index, registering an import directly or on request, the two shifts, and
  dead elimination.
\<close>

inductive codegen_step ::
    "(string \<Rightarrow> string \<Rightarrow> bool) \<Rightarrow> (string \<Rightarrow> codegen_ctx \<Rightarrow> codegen_ctx option) \<Rightarrow> codegen_ctx \<Rightarrow> codegen_ctx \<Rightarrow> bool"
  for allowed native where
  mint: "mintDefinedFunc ctx = (h, ctx') \<Longrightarrow> codegen_step allowed native ctx ctx'"
| push: "pushDefinedFunc h fn ctx = Inr ctx' \<Longrightarrow> codegen_step allowed native ctx ctx'"
| push_live: "codegen_step allowed native ctx (ctx\<lparr>cg_mod := (cg_mod ctx)\<lparr>m_functions := m_functions (cg_mod ctx) @ [fn]\<rparr>\<rparr>)"
| add: "addImport allowed mdl name desc ctx = Inr ctx' \<Longrightarrow> codegen_step allowed native ctx ctx'"
| request: "native (rq_name rq) ctx = None \<Longrightarrow> ensureLateImport allowed native rq ctx = Inr (r, ctx') \<Longrightarrow> codegen_step allowed native ctx ctx'"
| flush: "flushLateImportShifts fctx ctx = (fctx', ctx') \<Longrightarrow> codegen_step allowed native ctx ctx'"
| reconcile: "codegen_step allowed native ctx (reconcileNativeStrFinalizeShift ctx)"
| eliminate: "eliminate_with_context ctx = Inr ctx' \<Longrightarrow> codegen_step allowed native ctx ctx'"

text \<open>What all of them do to the functions: positions stay, indices in the bodies are renumbered.\<close>

definition renumbers :: "wasm_module \<Rightarrow> wasm_module \<Rightarrow> bool" where
  "renumbers m m' \<longleftrightarrow>
     (\<exists>f t fs. m_functions m' = map (renumber_function f t) (m_functions m) @ fs)
     \<and> (\<forall>ordinal p. ordinal < length (m_funcOrdinalToPosition m) \<longrightarrow> m_funcOrdinalToPosition m ! ordinal = Some p \<longrightarrow>
          ordinal < length (m_funcOrdinalToPosition m') \<and> m_funcOrdinalToPosition m' ! ordinal = Some p)"

lemma renumbersI:
  "m_functions m' = map (renumber_function f t) (m_functions m) \<Longrightarrow> m_funcOrdinalToPosition m' = m_funcOrdinalToPosition m \<Longrightarrow> renumbers m m'"
  unfolding renumbers_def by (intro conjI exI [of _ f] exI [of _ t] exI [of _ "[]"]) simp_all

lemma renumbers_more:
  "m_functions m' = m_functions m @ fs \<Longrightarrow> m_funcOrdinalToPosition m' = m_funcOrdinalToPosition m @ os \<Longrightarrow> renumbers m m'"
  unfolding renumbers_def
  by (intro conjI exI [of _ "\<lambda>h. h"] exI [of _ "\<lambda>i. i"] exI [of _ fs]) (simp_all add: renumber_function_id map_idI nth_append)

lemma renumbers_same: "m_functions m' = m_functions m \<Longrightarrow> m_funcOrdinalToPosition m' = m_funcOrdinalToPosition m \<Longrightarrow> renumbers m m'"
  by (rule renumbers_more [of _ _ "[]" "[]"]) simp_all

lemma renumbers_refl: "renumbers m m"
  by (rule renumbers_same) simp_all

lemma renumbers_trans [trans]:
  assumes "renumbers m1 m2" and "renumbers m2 m3"
  shows "renumbers m1 m3"
proof -
  obtain f t fs f' t' fs' where "m_functions m2 = map (renumber_function f t) (m_functions m1) @ fs"
    "m_functions m3 = map (renumber_function f' t') (m_functions m2) @ fs'"
    using assms unfolding renumbers_def by (elim conjE exE) (rule that)
  then have "m_functions m3 = map (renumber_function (\<lambda>h. f' (f h)) (\<lambda>i. t' (t i))) (m_functions m1) @ map (renumber_function f' t') fs @ fs'"
    by (simp add: renumber_function_comp)
  then show ?thesis using assms unfolding renumbers_def by blast
qed

lemma renumbers_stable:
  assumes "renumbers m m'" and "STABLE_FUNC_BASE \<le> h" and "function_at m h = Some (Defined fn)"
  shows "\<exists>f t. function_at m' h = Some (Defined (renumber_function f t fn))"
proof -
  let ?o = "nat (h - STABLE_FUNC_BASE)"
  have n: "\<not> h < STABLE_FUNC_BASE" using assms(2) by simp
  obtain p where o: "?o < length (m_funcOrdinalToPosition m)" "m_funcOrdinalToPosition m ! ?o = Some p"
    and p: "p < length (m_functions m)" "fn = m_functions m ! p"
    using assms(3) unfolding function_at_stable [OF n] Let_def by (auto split: if_splits option.splits)
  obtain f t fs where fs: "m_functions m' = map (renumber_function f t) (m_functions m) @ fs" using assms(1) by (auto simp: renumbers_def)
  have "?o < length (m_funcOrdinalToPosition m')" "m_funcOrdinalToPosition m' ! ?o = Some p" using assms(1) o by (auto simp: renumbers_def)
  then have "function_at m' h = Some (Defined (renumber_function f t fn))"
    unfolding function_at_stable [OF n] Let_def using p by (simp add: fs nth_append)
  then show ?thesis by blast
qed

section \<open>Every step renumbers\<close>

lemma renumbers_shift: "renumbers m (shift_module b k m)"
  by (rule renumbersI [of _ "shift_index b k" "\<lambda>i. i"]) (simp_all add: shift_module_def shift_is_renumber)

lemma renumbers_push:
  assumes "pushDefinedFunc h fn ctx = Inr ctx'"
  shows "renumbers (cg_mod ctx) (cg_mod ctx')" and "STABLE_FUNC_BASE \<le> h" and "function_at (cg_mod ctx') h = Some (Defined fn)"
proof -
  let ?m = "cg_mod ctx" and ?o = "nat (h - STABLE_FUNC_BASE)"
  have o: "STABLE_FUNC_BASE \<le> h" "?o < length (m_funcOrdinalToPosition ?m)" "m_funcOrdinalToPosition ?m ! ?o = None"
    and c: "cg_mod ctx' = ?m\<lparr>m_funcOrdinalToPosition := (m_funcOrdinalToPosition ?m)[?o := Some (length (m_functions ?m))],
      m_functions := m_functions ?m @ [fn]\<rparr>"
    using assms by (auto simp: pushDefinedFunc_def Let_def split: if_splits option.splits)
  show "STABLE_FUNC_BASE \<le> h" by (rule o(1))
  show "function_at (cg_mod ctx') h = Some (Defined fn)" using o by (simp add: function_at_stable Let_def c)
  have "(m_funcOrdinalToPosition ?m)[?o := Some (length (m_functions ?m))] ! j = Some p"
    if "m_funcOrdinalToPosition ?m ! j = Some p" for j p
    using o(3) that by (cases "j = ?o") simp_all
  then show "renumbers ?m (cg_mod ctx')"
    unfolding renumbers_def c
    by (intro conjI exI [of _ "\<lambda>h. h"] exI [of _ "\<lambda>i. i"] exI [of _ "[fn]"]) (simp_all add: renumber_function_id map_idI)
qed

lemma renumbers_register: "renumbers (cg_mod ctx) (cg_mod (register_import mdl name desc ctx))"
  by (rule renumbers_same) (simp_all add: register_import_def Let_def)

lemma renumbers_add: "addImport allowed mdl name desc ctx = Inr ctx' \<Longrightarrow> renumbers (cg_mod ctx) (cg_mod ctx')"
  by (auto simp: addImport_def drop_import_def renumbers_register renumbers_refl split: if_splits)

lemma renumbers_reconcile: "renumbers (cg_mod ctx) (cg_mod (reconcileNativeStrFinalizeShift ctx))"
proof (cases "cg_nativeStrHelperImportBase ctx < 0 \<or> int (cg_numImportFuncs ctx) - cg_nativeStrHelperImportBase ctx \<le> 0")
  case False
  then show ?thesis
    by (intro renumbersI [of _ "shift_index (cg_nativeStrHelperImportBase ctx) (int (cg_numImportFuncs ctx) - cg_nativeStrHelperImportBase ctx)"
        "\<lambda>i. i"]) (simp_all add: reconcileNativeStrFinalizeShift_def Let_def shift_is_renumber)
qed (auto simp: reconcileNativeStrFinalizeShift_def Let_def intro: renumbers_refl)

lemma renumbers_flush: "flushLateImportShifts fctx ctx = (fctx', ctx') \<Longrightarrow> renumbers (cg_mod ctx) (cg_mod ctx')"
  by (auto simp: flushLateImportShifts_def shiftLateImportIndices_def shiftAsyncSideChannelFuncIdxs_def Let_def
      intro: renumbers_refl renumbers_shift split: option.splits if_splits)

lemma renumbers_request:
  assumes "native (rq_name rq) ctx = None" and "ensureLateImport allowed native rq ctx = Inr (r, ctx')"
  shows "renumbers (cg_mod ctx) (cg_mod ctx')"
proof (cases "map_of (cg_funcMap ctx) (rq_name rq)")
  case None
  define c1 where "c1 = open_batch (refuseStandaloneToPrimitive (rq_name rq) (refuseStandaloneObjectImport (rq_name rq) ctx))"
  define c2 where "c2 = snd (addFuncType (rq_key rq) (rq_params rq) (rq_results rq) c1)"
  have m: "cg_mod (refuseStandaloneToPrimitive (rq_name rq) (refuseStandaloneObjectImport (rq_name rq) ctx)) = cg_mod ctx"
    by (simp add: refuseStandaloneToPrimitive_def refuseStandaloneObjectImport_def refuse_def)
  have "renumbers (cg_mod ctx) (cg_mod c1)"
    using renumbers_reconcile [of "refuseStandaloneToPrimitive (rq_name rq) (refuseStandaloneObjectImport (rq_name rq) ctx)"]
    by (simp add: c1_def open_batch_def Let_def m renumbers_refl)
  also have "renumbers (cg_mod c1) (cg_mod c2)"
    by (rule renumbers_same) (simp_all add: c2_def addFuncType_def Let_def split: option.split)
  also have "renumbers (cg_mod c2) (cg_mod ctx')"
    using assms None by (auto simp: ensureLateImport_def Let_def c1_def c2_def split: if_splits prod.splits dest: renumbers_add)
  finally show ?thesis .
qed (use assms in \<open>auto simp: ensureLateImport_def intro: renumbers_refl\<close>)

lemma renumbers_eliminate:
  assumes "eliminate_with_context ctx = Inr ctx'"
  shows "renumbers (cg_mod ctx) (cg_mod ctx')"
proof -
  obtain m' where m': "eliminateDeadImports (cg_mod ctx) = Inr m'" and c: "ctx' = remap_side_tables (func_map (cg_mod ctx)) (ctx\<lparr>cg_mod := m'\<rparr>)"
    using assms by (auto simp: eliminate_with_context_def func_map_def)
  have "cg_mod ctx' = m'" by (simp add: c remap_side_tables_def)
  with eliminate_compacts [OF m'] show ?thesis
    by (intro renumbersI [of _ "moved (func_map (cg_mod ctx))" "moved (type_map (cg_mod ctx))"]) (simp_all add: compacted_def remap_is_renumber)
qed

lemma step_renumbers: "codegen_step allowed native ctx ctx' \<Longrightarrow> renumbers (cg_mod ctx) (cg_mod ctx')"
proof (induction rule: codegen_step.induct)
  case (mint ctx h ctx')
  then have "cg_mod ctx' = (cg_mod ctx)\<lparr>m_funcOrdinalToPosition := m_funcOrdinalToPosition (cg_mod ctx) @ [None]\<rparr>"
    by (auto simp: mintDefinedFunc_def Let_def)
  then show ?case by (intro renumbers_more [of _ _ "[]" "[None]"]) simp_all
next
  case (push_live ctx fn)
  show ?case by (rule renumbers_more [of _ _ "[fn]" "[]"]) simp_all
qed (blast intro: renumbers_push(1) renumbers_add renumbers_request renumbers_flush renumbers_reconcile renumbers_eliminate)+

lemma steps_renumber: "(codegen_step allowed native)\<^sup>*\<^sup>* ctx ctx' \<Longrightarrow> renumbers (cg_mod ctx) (cg_mod ctx')"
  by (induction rule: rtranclp_induct) (auto intro: renumbers_refl renumbers_trans step_renumbers)

section \<open>The property\<close>

lemma pushed_position: "STABLE_FUNC_BASE \<le> h \<Longrightarrow> function_at (cg_mod ctx) h = Some (Defined fn) \<Longrightarrow> \<exists>p. pushDefinedFunc h fn' ctx = Inl (AlreadyPushed h p)"
  by (auto simp: pushDefinedFunc_def function_at_stable Let_def split: if_splits option.splits)

lemma stable_definedFuncAt:
  "STABLE_FUNC_BASE \<le> h \<Longrightarrow> function_at (cg_mod ctx) h = Some (Defined fn) \<Longrightarrow> definedFuncAt ctx h = Some fn"
  by (auto simp: definedFuncAt_def definedPositionOf_def function_at_stable Let_def split: if_splits option.splits)

text \<open>
  C9. A stable handle denotes its function forever. Once a function is pushed under a handle, then after any steps
  of the code generator - further mints and pushes, imports added directly or requested (and not served by a native
  provider), both shifts, at any moment, and dead elimination - the handle denotes that function with the indices in it renumbered, for the emitter
  (\<open>function_at\<close>) as for the code generator (\<open>definedFuncAt\<close>), and pushing to it again is an error.
\<close>

theorem stable_handle_denotes:
  assumes "pushDefinedFunc h fn ctx = Inr ctx1" and "(codegen_step allowed native)\<^sup>*\<^sup>* ctx1 ctx2"
  shows "\<exists>f t. function_at (cg_mod ctx2) h = Some (Defined (renumber_function f t fn))
    \<and> definedFuncAt ctx2 h = Some (renumber_function f t fn) \<and> (\<exists>p. pushDefinedFunc h fn' ctx2 = Inl (AlreadyPushed h p))"
proof -
  note p = renumbers_push [OF assms(1)]
  obtain f t where d: "function_at (cg_mod ctx2) h = Some (Defined (renumber_function f t fn))"
    using renumbers_stable [OF steps_renumber [OF assms(2)] p(2,3)] by blast
  then show ?thesis using stable_definedFuncAt [OF p(2) d] pushed_position [OF p(2) d] by blast
qed

definition minted_ctx :: codegen_ctx where
  "minted_ctx = snd (mintDefinedFunc late_ctx)"

definition pushed_ctx :: codegen_ctx where
  "pushed_ctx = late_ctx\<lparr>cg_mod := (cg_mod late_ctx)\<lparr>m_functions := [late_main, late_main\<lparr>fn_name := ''helper''\<rparr>],
     m_funcOrdinalToPosition := [Some 0, Some 1]\<rparr>\<rparr>"

theorem stable_handle_denotes_witness:
  "\<exists>f t. function_at (cg_mod (reconcileNativeStrFinalizeShift (register_import ''env'' ''log2'' (ImportFunc 0) pushed_ctx))) (STABLE_FUNC_BASE + 1)
    = Some (Defined (renumber_function f t (late_main\<lparr>fn_name := ''helper''\<rparr>)))"
proof -
  let ?c = "register_import ''env'' ''log2'' (ImportFunc 0) pushed_ctx"
  have p: "pushDefinedFunc (STABLE_FUNC_BASE + 1) (late_main\<lparr>fn_name := ''helper''\<rparr>) minted_ctx = Inr pushed_ctx" by code_simp
  have "codegen_step (\<lambda>_ _. True) (\<lambda>_ _. None) pushed_ctx ?c" by (rule codegen_step.add) (simp add: addImport_def pushed_ctx_def late_ctx_def)
  moreover have "codegen_step (\<lambda>_ _. True) (\<lambda>_ _. None) ?c (reconcileNativeStrFinalizeShift ?c)" by (rule codegen_step.reconcile)
  ultimately have "(codegen_step (\<lambda>_ _. True) (\<lambda>_ _. None))\<^sup>*\<^sup>* pushed_ctx (reconcileNativeStrFinalizeShift ?c)" by simp
  from stable_handle_denotes [OF p this] show ?thesis by blast
qed

end
