(* ===== verification/Spec2Isabelle.thy ===== *)
theory Spec2Isabelle
  imports ObjectWhole SourceMapWhole RegexWhole CanonicalBinary StableHandles
begin

text \<open>
  \<^bold>\<open>The program.\<close> js2wasm compiles TypeScript and JavaScript ahead of time to WebAssembly. A front end builds a
  \<open>WasmModule\<close> (\<open>src/src/ir/types.ts\<close>); the back end writes it either as a finished binary, with an
  optional source map, or as a relocatable object file, and a linker merges object files into one module with
  several memories. Literal regular expressions are compiled on their own: to a small bytecode, which a
  backtracking interpreter runs. This development models the passes of the code generator that renumber functions
  and types, the back end, the linker and the regular-expression engine: everything between the finished functions
  and bytes, and everything between a pattern and a match.

  \<^bold>\<open>How the parts interact.\<close>
  \<^item> The code generator keeps functions by number in the module and in side tables of its context.
    \<open>codegen/func-space.ts\<close> mints handles, \<open>expressions/late-imports.ts\<close> adds imports and shifts what they move,
    \<open>codegen/dead-elimination.ts\<close> removes what is unused and renumbers the rest; then the module is emitted.
  \<^item> \<open>emit/binary.ts\<close> and \<open>emit/object.ts\<close> write through \<open>emit/encoder.ts\<close>; function handles of the
    representation become indices through \<open>emit/resolve-layout.ts\<close>; the driver \<open>compiler.ts\<close> calls the
    binary emitter, has \<open>emit/sourcemap.ts\<close> turn its entries into a map and appends the section that names it.
  \<^item> \<open>link/linker.ts\<close> parses each object with \<open>link/reader.ts\<close>, resolves symbols across them with
    \<open>link/resolver.ts\<close>, checks the result with \<open>link/isolation.ts\<close>, and writes the merged module with the
    same encoder.
  \<^item> \<open>codegen/regex/parse.ts\<close> parses a pattern, with the classes of \<open>unicode.ts\<close> and the sets of strings of
    \<open>unicode-string-properties.ts\<close>; \<open>compile.ts\<close> emits the bytecode of \<open>bytecode.ts\<close>, folding classes
    with \<open>casefold.ts\<close>; \<open>vm.ts\<close> runs it.

  \<^bold>\<open>Conventions.\<close> \<open>Prelude\<close> holds the shared vocabulary. An exception is a constructor of an error datatype,
  a fallible function returns \<open>error + 'a\<close>, and \<open>rbind\<close>, \<open>rfold\<close>, \<open>rseq\<close> and \<open>rtimes\<close> sequence such
  functions. A class is a record passed through its methods. Bytes are \<open>8 word\<close>, code units are natural
  numbers; JavaScript numbers are integers or naturals, and go through a word wherever the source uses a 32-bit
  or 64-bit operation.

  \<^bold>\<open>Writers and readers.\<close>
  \<^item> \<open>Encoder\<close> models the class \<open>WasmEncoder\<close> with its over-allocated buffer. The locale \<open>byte_sink\<close> states
    what its writers rely on and is interpreted on the buffer; the loops are proved to write the reference LEB128
    encodings.
  \<^item> \<open>Reader\<close> models \<open>reader.ts\<close>: the cursor \<open>ByteReader\<close>, the section parsers, \<open>parseObject\<close>.
  \<^item> \<open>Codec\<close> states the contract between the two: \<open>transmits w g v\<close>, and the locale \<open>codec\<close> for families
    of values, interpreted on numbers, names, constant expressions and, in \<open>LinkRoundtrip\<close> and \<open>Linker\<close>,
    on all section entries.

  \<^bold>\<open>Index spaces of the code generator.\<close>
  \<^item> \<open>ModuleMeaning\<close> says what an index means: the uses of indices by the parts of a module (\<open>module_uses\<close>) and the
    import or function that a handle denotes (\<open>function_at\<close>). \<open>CodegenContext\<close> has the part of the context that holds
    handles, the accessors of \<open>func-space.ts\<close> and \<open>addImport\<close>.
  \<^item> \<open>DeadElimination\<close> has \<open>eliminateDeadImports\<close>; \<open>DeadEliminationKept\<close> shows that every remaining use keeps its
    meaning, that validity is kept, that nothing dead is left, and what becomes of the side tables.
  \<^item> \<open>LateImports\<close> has \<open>ensureLateImport\<close>, \<open>shiftLateImportIndices\<close>, \<open>flushLateImportShifts\<close> and
    \<open>reconcileNativeStrFinalizeShift\<close>; \<open>LateImportsKept\<close> shows that a batch of imports changes no reference.
    \<open>StableHandles\<close> makes all these operations one step relation and shows that a stable handle keeps denoting its
    function along every run.

  \<^bold>\<open>Emitters.\<close>
  \<^item> \<open>WasmModule\<close> is the data model. An emitter is a sequence of steps on the encoder that may throw; the
    locale \<open>step_logic\<close> collects the closure rules of a property of steps, \<open>step_simulation\<close> those of an
    agreement between two emitters. Both are interpreted on the properties proved about the emitters.
  \<^item> \<open>BinaryInstr\<close> has the handles of \<open>resolve-layout.ts\<close>, the index validation and \<open>encodeInstr\<close>. The
    validation changes no byte, and an instruction passes it exactly when its indices are in range.
  \<^item> \<open>RecGroups\<close> has \<open>computeRecGroups\<close>: the groups are consecutive runs, each the shortest closed one.
  \<^item> \<open>BinaryEmit\<close> has the sections of a module and \<open>emitBinaryWithSourceMap\<close>; \<open>SourceMap\<close> has
    \<open>sourcemap.ts\<close>; \<open>SourceMapWhole\<close> composes them as the driver does: the map of a compilation, decoded,
    points at the bytes of the marked instructions.
  \<^item> \<open>CanonicalGroup\<close> has the identity of the runtime's type group, \<open>emit/canonical-recgroup.ts\<close>: its hash, the
    parser of the type section of a finished binary and the drift check. \<open>CanonicalVerify\<close> and \<open>CanonicalBinary\<close>
    show that the parser reads back what \<open>binary.ts\<close> wrote, and that no compilation rejects its own binary.
  \<^item> \<open>ObjectEmit\<close> has the symbol table and the instruction encoder with relocations, \<open>ObjectWhole\<close> the whole
    of \<open>emitObject\<close>: agreement with \<open>binary.ts\<close>, soundness of relocations and symbols, and what the object
    reader makes of an emitted file. \<open>EmitCodec\<close> lifts the codec contract to the steps of the emitters.

  \<^bold>\<open>Linker.\<close>
  \<^item> \<open>Resolver\<close>: resolved symbols have a visible definition, a strong one where there is one, and without
    errors every named symbol is resolved. \<open>Isolation\<close>: the five checks; no global counts as shared exactly when
    no two symbols define visible mutable globals of one name, and the resolver's own resolution never reaches a local symbol when module symbols are
    unique.
  \<^item> \<open>Linker\<close> has \<open>computeOffsets\<close>, \<open>rewriteCode\<close>, \<open>emitLinked\<close> and \<open>link\<close>; \<open>LinkIndices\<close> shows what
    offsets and rewriting do to indices; \<open>LinkRoundtrip\<close> shows that the object reader reads a linked module
    back as the merged one, up to the table index of segments that name table 0 implicitly.

  \<^bold>\<open>Regular expressions.\<close>
  \<^item> \<open>RegexBytecode\<close> (opcodes, flags), \<open>RegexVM\<close> (\<open>runAt\<close>, \<open>search\<close>), \<open>CaseFold\<close>, \<open>RegexAst\<close> and
    \<open>RegexCompile\<close> (syntax trees, \<open>compileNode\<close>, \<open>compileParsed\<close>) are the code.
  \<^item> \<open>RegexSem\<close> is the abstract specification: the ordered list of outcomes of a tree. \<open>RegexRun\<close>,
    \<open>RegexTrie\<close> and \<open>RegexCorrect\<close> show that emitted stretches realise it, \<open>RegexProgram\<close> and
    \<open>RegexSearch\<close> extend this to programs and to \<open>search\<close>; \<open>RegexTotal\<close> shows which patterns always end.
  \<^item> \<open>JsString\<close>, \<open>UnicodeSets\<close>, \<open>UnicodeClass\<close> and \<open>RegexParse\<close> are the parser and its classes.
    \<open>RegexParseOk\<close> shows that it ends and returns well-formed trees, \<open>RegexScan\<close> and \<open>RegexWhole\<close> that
    its pre-scan agrees with its descent, so that pattern, compiler and interpreter are correct together.

  \<^bold>\<open>Bounds and fuel.\<close> The LEB128 loops run at most five times, the length of a 32-bit number. \<open>runAt\<close> takes
  the step budget of the source, and a nesting depth that stands for the host's stack; a theorem that an attempt
  ends says that some budget and depth suffice. The ordered-choice semantics iterates stars with a fuel of one more
  than the remaining subject, since a productive iteration consumes a unit. The parser recurses on the nesting
  depth of groups, bounded by the length of the source plus one, and its loops by the remaining source plus one;
  \<open>parsePattern_terminates\<close> shows that neither bound is ever reached. Classes with strings are evaluated by
  recursion on their nesting. The closure of dead elimination over type definitions recurses without fuel: it stops
  when a round adds no index, and only indices that some definition names can be added.

  \<^bold>\<open>Parameters.\<close> \<open>TextEncoder\<close> and \<open>TextDecoder\<close> (\<open>utf8\<close>, \<open>dec\<close>), the host's \<open>toUpperCase\<close> (\<open>upper\<close>),
  the host's \<open>RegExp\<close> and the generated Unicode property tables (the record \<open>host_regexp\<close>), and the environment
  variables that switch off index validation (\<open>skip\<close>) or trace (\<open>trace\<close>). In the context of the code generator, the
  allowlist of host imports (\<open>isHostImportAllowed\<close>) and the native providers of targets without a JavaScript host
  (\<open>native\<close>). What a theorem needs of one is a
  hypothesis of the theorem.

  \<^bold>\<open>Not modelled.\<close>
  \<^item> The front end: type checker, code generation and the SSA passes, which work on syntax trees of the
    TypeScript compiler, a library that is not part of the repository; the model starts where functions, types and
    imports are registered in the module.
  \<^item> Instruction arrays and objects shared between bodies. Bodies are trees here; the sets of visited arrays and
    objects, with which the passes change each shared instruction once, have no counterpart.
  \<^item> In \<open>dead-elimination.ts\<close>, the report to the program ABI session.
  \<^item> In \<open>binary.ts\<close>, the cache of shared instruction arrays, which is armed only when no source map is
    written, and the debugging dump.
  \<^item> In \<open>compiler.ts\<close>, everything but the emit step: it runs the checker, the generators and external tools.
  \<^item> The text format printer, the C header writer, the command line, the JavaScript runtime support code and
    the interpreter: printing, input and output, and host glue.
  \<^item> Message texts of errors, beyond the values they are made of.
\<close>

end
